(* ===== verification/Prelude.thy ===== *)
theory Prelude
  imports "HOL-Library.Word"
begin

text \<open>
  Shared vocabulary of the development: the machine integers of the target
  (\<^verbatim>\<open>riscv64gc\<close>, so \<^verbatim>\<open>usize\<close> has 64 bits), the outcome of a Rust computation that may
  panic, little-endian byte encodings, byte-addressed memory, and the generic
  lemmas on lists, words and options that the components use.

  The binaries are built with \<^verbatim>\<open>cargo build --release\<close> (\<^verbatim>\<open>src/src/os/Makefile\<close>,
  \<^verbatim>\<open>src/src/easy-fs-fuse/Makefile\<close>), so integer arithmetic wraps around and a shift
  amount is taken modulo the width; assertions, slice bounds checks and
  \<^verbatim>\<open>unwrap\<close> panic in every profile.
\<close>

unbundle bit_operations_syntax

section \<open>Machine integers\<close>

type_synonym u8 = "8 word"
type_synonym u32 = "32 word"
type_synonym u64 = "64 word"
type_synonym usize = "64 word"
type_synonym i32 = "32 word"
type_synonym isize = "64 word"

named_theorems const_defs \<open>the constants of the source\<close>

section \<open>Outcomes of computations that may panic\<close>

text \<open>
  Every way in which the source stops instead of returning: \<^verbatim>\<open>unwrap\<close> of a
  \<^verbatim>\<open>None\<close>, a failed \<^verbatim>\<open>assert!\<close>, an index or a slice out of bounds, an explicit
  \<^verbatim>\<open>panic!\<close>, locking a non-reentrant mutex that is already held, and borrowing a \<^verbatim>\<open>RefCell\<close> that is
  already borrowed.
\<close>

datatype panic = UnwrapNone | AssertFailed | OutOfBounds | ExplicitPanic | DeadLock | AlreadyBorrowed

datatype 'a outcome = Ok 'a | Panic panic

definition and_then :: "'a outcome \<Rightarrow> ('a \<Rightarrow> 'b outcome) \<Rightarrow> 'b outcome" where
  "and_then r f = (case r of Ok x \<Rightarrow> f x | Panic e \<Rightarrow> Panic e)"

definition unwrap :: "'a option \<Rightarrow> 'a outcome" where
  "unwrap x = (case x of Some v \<Rightarrow> Ok v | None \<Rightarrow> Panic UnwrapNone)"

definition assert_that :: "bool \<Rightarrow> unit outcome" where
  "assert_that b = (if b then Ok () else Panic AssertFailed)"

definition is_ok :: "'a outcome \<Rightarrow> bool" where
  "is_ok r = (case r of Ok _ \<Rightarrow> True | Panic _ \<Rightarrow> False)"

lemma and_then_simps [simp]:
  "and_then (Ok x) f = f x"
  "and_then (Panic e) f = Panic e"
  by (simp_all add: and_then_def)

lemma and_then_Ok [simp]: "and_then r Ok = r"
  by (cases r) simp_all

lemma and_then_assoc:
  "and_then (and_then r f) g = and_then r (\<lambda>x. and_then (f x) g)"
  by (cases r) simp_all

lemma and_then_eq_Ok_conv:
  "and_then r f = Ok y \<longleftrightarrow> (\<exists>x. r = Ok x \<and> f x = Ok y)"
  by (cases r) simp_all

lemma and_then_eq_Panic_conv:
  "and_then r f = Panic e \<longleftrightarrow> r = Panic e \<or> (\<exists>x. r = Ok x \<and> f x = Panic e)"
  by (cases r) simp_all

lemma and_then_OkE:
  assumes "and_then r f = Ok y"
  obtains x where "r = Ok x" and "f x = Ok y"
  using assms by (auto simp: and_then_eq_Ok_conv)

lemma and_then_split:
  "P (and_then r f) \<longleftrightarrow> (\<forall>x. r = Ok x \<longrightarrow> P (f x)) \<and> (\<forall>e. r = Panic e \<longrightarrow> P (Panic e))"
  by (cases r) simp_all

lemma and_then_cong [fundef_cong]:
  "r = r' \<Longrightarrow> (\<And>x. r' = Ok x \<Longrightarrow> f x = g x) \<Longrightarrow> and_then r f = and_then r' g"
  by (cases r') simp_all

lemma unwrap_simps [simp]:
  "unwrap (Some x) = Ok x"
  "unwrap None = Panic UnwrapNone"
  by (simp_all add: unwrap_def)

lemma unwrap_eq_Ok [simp]: "unwrap x = Ok v \<longleftrightarrow> x = Some v"
  by (cases x) simp_all

lemma unwrap_eq_Panic: "unwrap x = Panic e \<longleftrightarrow> x = None \<and> e = UnwrapNone"
  by (cases x) auto

lemma assert_that_simps [simp]:
  "assert_that True = Ok ()"
  "assert_that False = Panic AssertFailed"
  by (simp_all add: assert_that_def)

lemma assert_that_eq_Ok [simp]: "assert_that b = Ok u \<longleftrightarrow> b"
  by (cases b) simp_all

lemma is_ok_simps [simp]:
  "is_ok (Ok x)"
  "\<not> is_ok (Panic e)"
  by (simp_all add: is_ok_def)

lemma is_ok_conv: "is_ok r \<longleftrightarrow> (\<exists>x. r = Ok x)"
  by (cases r) simp_all

section \<open>Vectors\<close>

text \<open>\<^verbatim>\<open>Vec::pop\<close>: the last element and what remains.\<close>

definition vec_pop :: "'a list \<Rightarrow> ('a \<times> 'a list) option" where
  "vec_pop xs = (if xs = [] then None else Some (last xs, butlast xs))"

lemma vec_pop_None [simp]: "vec_pop xs = None \<longleftrightarrow> xs = []"
  by (simp add: vec_pop_def)

lemma vec_pop_Some: "vec_pop xs = Some (x, ys) \<longleftrightarrow> xs = ys @ [x]"
  by (cases xs rule: rev_cases) (auto simp: vec_pop_def)

lemma vec_pop_simps [simp]:
  "vec_pop [] = None"
  "vec_pop (xs @ [x]) = Some (x, xs)"
  by (simp_all add: vec_pop_def)

text \<open>Indexing \<^verbatim>\<open>xs[i]\<close> and slicing \<^verbatim>\<open>&xs[a..b]\<close> check their bounds.\<close>

definition index :: "'a list \<Rightarrow> nat \<Rightarrow> 'a outcome" where
  "index xs i = (if i < length xs then Ok (xs ! i) else Panic OutOfBounds)"

definition slice :: "'a list \<Rightarrow> nat \<Rightarrow> nat \<Rightarrow> 'a list outcome" where
  "slice xs a b = (if a \<le> b \<and> b \<le> length xs then Ok (take (b - a) (drop a xs)) else Panic OutOfBounds)"

lemma index_eq_Ok [simp]: "index xs i = Ok x \<longleftrightarrow> i < length xs \<and> x = xs ! i"
  by (auto simp: index_def)

lemma index_less [simp]: "i < length xs \<Longrightarrow> index xs i = Ok (xs ! i)"
  by simp

lemma slice_eq_Ok: "slice xs a b = Ok ys \<longleftrightarrow> a \<le> b \<and> b \<le> length xs \<and> ys = take (b - a) (drop a xs)"
  by (auto simp: slice_def)

lemma slice_upt: "a \<le> b \<Longrightarrow> b \<le> n \<Longrightarrow> slice [k..<k + n] a b = Ok [k + a..<k + b]"
  by (auto simp: slice_def take_upt)

section \<open>Ordered maps\<close>

text \<open>\<^verbatim>\<open>BTreeMap\<close>: an association list in ascending order of keys, the order in which it is dropped.\<close>

fun bt_insert :: "'k::linorder \<Rightarrow> 'v \<Rightarrow> ('k \<times> 'v) list \<Rightarrow> ('k \<times> 'v) list" where
  "bt_insert k v [] = [(k, v)]"
| "bt_insert k v ((k', v') # xs) =
     (if k < k' then (k, v) # (k', v') # xs
      else if k = k' then (k, v) # xs
      else (k', v') # bt_insert k v xs)"

definition bt_remove :: "'k \<Rightarrow> ('k \<times> 'v) list \<Rightarrow> ('k \<times> 'v) list" where
  "bt_remove k xs = filter (\<lambda>(k', _). k' \<noteq> k) xs"

lemma set_bt_insert: "map_of xs k = None \<Longrightarrow> set (bt_insert k v xs) = insert (k, v) (set xs)"
  by (induction xs) (auto split: if_splits)

lemma length_bt_insert: "map_of xs k = None \<Longrightarrow> length (bt_insert k v xs) = Suc (length xs)"
  by (induction xs) (auto split: if_splits)

lemma map_of_bt_remove: "map_of (bt_remove k xs) = (map_of xs)(k := None)"
  by (induction xs) (auto simp: bt_remove_def fun_eq_iff)

section \<open>Little-endian byte encodings\<close>

text \<open>
  The target is little-endian. \<open>le_nat\<close> reads a byte sequence, \<open>nat_le\<close> writes the
  low \<open>n\<close> bytes of a number.
\<close>

fun le_nat :: "u8 list \<Rightarrow> nat" where
  "le_nat [] = 0"
| "le_nat (b # bs) = unat b + 256 * le_nat bs"

fun nat_le :: "nat \<Rightarrow> nat \<Rightarrow> u8 list" where
  "nat_le 0 v = []"
| "nat_le (Suc n) v = of_nat v # nat_le n (v div 256)"

lemma length_nat_le [simp]: "length (nat_le n v) = n"
  by (induction n arbitrary: v) simp_all

lemma unat_u8_bound: "unat (b :: u8) < 256"
  using unsigned_less [of b] by simp

lemma le_nat_bound: "le_nat bs < 256 ^ length bs"
proof (induction bs)
  case (Cons b bs)
  have "unat b < 256" by (rule unat_u8_bound)
  with Cons.IH show ?case by simp
qed simp

lemma le_nat_nat_le: "le_nat (nat_le n v) = v mod 256 ^ n"
proof (induction n arbitrary: v)
  case (Suc n)
  have "le_nat (nat_le (Suc n) v) = v mod 256 + 256 * ((v div 256) mod 256 ^ n)"
    using Suc by (simp add: unat_of_nat)
  also have "\<dots> = v mod (256 * 256 ^ n)"
    by (simp add: mod_mult2_eq)
  finally show ?case by simp
qed simp

lemma nat_le_le_nat: "nat_le (length bs) (le_nat bs) = bs"
proof (induction bs)
  case (Cons b bs)
  have "(unat b + 256 * le_nat bs) div 256 = le_nat bs"
    using unat_u8_bound [of b] by simp
  moreover have "(of_nat (unat b + 256 * le_nat bs) :: u8) = b"
    by (simp only: word_unat_eq_iff unat_of_nat) (simp add: unat_u8_bound)
  ultimately show ?case using Cons.IH by simp
qed simp

lemma le_nat_replicate_0 [simp]: "le_nat (replicate n 0) = 0"
  by (induction n) simp_all

text \<open>Arrays of integers of \<open>n\<close> bytes each, as they lie in memory or in a block.\<close>

definition le_words :: "nat \<Rightarrow> u8 list \<Rightarrow> 'a::len word list" where
  "le_words n bs = map (\<lambda>i. of_nat (le_nat (take n (drop (n * i) bs)))) [0..<length bs div n]"

definition words_le :: "nat \<Rightarrow> 'a::len word list \<Rightarrow> u8 list" where
  "words_le n ws = concat (map (\<lambda>w. nat_le n (unat w)) ws)"

lemma length_le_words [simp]: "length (le_words n bs) = length bs div n"
  by (simp add: le_words_def)

lemma length_words_le [simp]: "length (words_le n ws) = n * length ws"
  by (induction ws) (simp_all add: words_le_def)

lemma words_le_simps: "words_le n [] = []" "words_le n (w # ws) = nat_le n (unat w) @ words_le n ws"
  by (simp_all add: words_le_def)

lemma take_drop_words_le: "i < length ws \<Longrightarrow> take n (drop (n * i) (words_le n ws)) = nat_le n (unat (ws ! i))"
proof (induction ws arbitrary: i)
  case (Cons w ws)
  then show ?case by (cases i) (simp_all add: words_le_simps)
qed simp

lemma le_words_words_le:
  fixes ws :: "'a::len word list"
  assumes "0 < n" "LENGTH('a) = 8 * n"
  shows "le_words n (words_le n ws) = ws"
proof (rule nth_equalityI)
  fix i assume "i < length (le_words n (words_le n ws) :: 'a word list)"
  then have i: "i < length ws" using assms(1) by simp
  have "unat (ws ! i) < 256 ^ n"
    using unsigned_less [of "ws ! i", where 'a = nat] by (simp add: assms(2) power_mult)
  then show "le_words n (words_le n ws) ! i = ws ! i"
    using i assms(1) by (simp add: le_words_def take_drop_words_le le_nat_nat_le)
qed (use assms(1) in simp)

lemma words_le_le_words:
  assumes "0 < n" "LENGTH('a) = 8 * n" "length bs = n * k"
  shows "words_le n (le_words n bs :: 'a::len word list) = bs"
  using assms(3)
proof (induction k arbitrary: bs)
  case (Suc k)
  have "unat (of_nat (le_nat (take n bs)) :: 'a word) = le_nat (take n bs)"
    using le_nat_bound [of "take n bs"] Suc.prems by (simp add: unat_of_nat assms(2) power_mult)
  moreover have "nat_le n (le_nat (take n bs)) = take n bs"
    using nat_le_le_nat [of "take n bs"] Suc.prems by simp
  moreover have "le_words n bs = (of_nat (le_nat (take n bs)) :: 'a word) # le_words n (drop n bs)"
  proof -
    have "length bs div n = Suc k" "length (drop n bs) div n = k" using Suc.prems assms(1) by simp_all
    moreover have "[0..<Suc k] = 0 # map Suc [0..<k]"
      by (simp only: upt_conv_Cons [OF zero_less_Suc] map_Suc_upt)
    ultimately show ?thesis by (simp only: le_words_def) (simp add: comp_def add.commute)
  qed
  moreover have "words_le n (le_words n (drop n bs) :: 'a word list) = drop n bs"
    using Suc.prems by (intro Suc.IH) simp
  ultimately show ?case by (simp add: words_le_simps)
qed (simp add: le_words_def words_le_def)

section \<open>Byte-addressed memory\<close>

text \<open>
  Physical memory maps addresses to bytes. The kernel runs with its memory mapped
  identically (\<^verbatim>\<open>MapType::Identical\<close>), so a kernel pointer is a physical address;
  pointers are \<^verbatim>\<open>usize\<close> values and are turned into addresses by \<open>unat\<close>.
\<close>

type_synonym memory = "nat \<Rightarrow> u8"

definition load_bytes :: "memory \<Rightarrow> nat \<Rightarrow> nat \<Rightarrow> u8 list" where
  "load_bytes m a n = map m [a..<a + n]"

definition store_bytes :: "memory \<Rightarrow> nat \<Rightarrow> u8 list \<Rightarrow> memory" where
  "store_bytes m a bs = (\<lambda>x. if a \<le> x \<and> x < a + length bs then bs ! (x - a) else m x)"

definition load_u64 :: "memory \<Rightarrow> nat \<Rightarrow> u64" where
  "load_u64 m a = of_nat (le_nat (load_bytes m a 8))"

definition store_u64 :: "memory \<Rightarrow> nat \<Rightarrow> u64 \<Rightarrow> memory" where
  "store_u64 m a v = store_bytes m a (nat_le 8 (unat v))"

lemma length_load_bytes [simp]: "length (load_bytes m a n) = n"
  by (simp add: load_bytes_def)

lemma load_bytes_nth: "i < n \<Longrightarrow> load_bytes m a n ! i = m (a + i)"
  by (simp add: load_bytes_def)

lemma load_bytes_0 [simp]: "load_bytes m a 0 = []"
  by (simp add: load_bytes_def)

lemma load_bytes_add: "load_bytes m a (n + k) = load_bytes m a n @ load_bytes m (a + n) k"
  using upt_add_eq_append [of a "a + n" k] by (simp add: load_bytes_def add.assoc)

lemma load_bytes_cong:
  "(\<And>x. a \<le> x \<Longrightarrow> x < a + n \<Longrightarrow> m x = m' x) \<Longrightarrow> load_bytes m a n = load_bytes m' a n"
  by (simp add: load_bytes_def)

lemma load_store_same: "load_bytes (store_bytes m a bs) a (length bs) = bs"
  by (rule nth_equalityI) (simp_all add: load_bytes_nth store_bytes_def)

lemma store_bytes_other:
  "x < a \<or> a + length bs \<le> x \<Longrightarrow> store_bytes m a bs x = m x"
  by (auto simp: store_bytes_def)

lemma load_store_disjoint:
  "a + n \<le> b \<or> b + length bs \<le> a \<Longrightarrow> load_bytes (store_bytes m b bs) a n = load_bytes m a n"
  by (rule load_bytes_cong) (auto simp: store_bytes_other)

lemma load_store_u64_same [simp]: "load_u64 (store_u64 m a v) a = v"
proof -
  have "load_bytes (store_u64 m a v) a 8 = nat_le 8 (unat v)"
    using load_store_same [of m a "nat_le 8 (unat v)"] by (simp add: store_u64_def)
  moreover have "unat v < 256 ^ 8"
    using unsigned_less [of v] by simp
  ultimately show ?thesis
    by (simp add: load_u64_def le_nat_nat_le)
qed

lemma load_store_u64_disjoint:
  "a + 8 \<le> b \<or> b + 8 \<le> a \<Longrightarrow> load_u64 (store_u64 m b v) a = load_u64 m a"
  by (simp add: load_u64_def store_u64_def load_store_disjoint)

lemma load_u64_cong:
  "(\<And>x. a \<le> x \<Longrightarrow> x < a + 8 \<Longrightarrow> m x = m' x) \<Longrightarrow> load_u64 m a = load_u64 m' a"
  by (simp add: load_u64_def cong: load_bytes_cong)

lemma load_u64_zero:
  assumes "\<And>x. a \<le> x \<Longrightarrow> x < a + 8 \<Longrightarrow> m x = 0"
  shows "load_u64 m a = 0"
proof -
  have "load_bytes m a 8 = replicate 8 0"
    by (rule nth_equalityI) (simp_all add: load_bytes_nth assms)
  then show ?thesis by (simp add: load_u64_def)
qed

section \<open>Words\<close>

lemma unat_and_mask: "unat (w AND mask n) = unat w mod 2 ^ n"
  by (metis take_bit_eq_mask take_bit_eq_mod unsigned_take_bit_eq)

lemma unat_drop_bit: "unat (drop_bit n w) = unat w div 2 ^ n"
  by (subst unsigned_drop_bit_eq) (simp add: drop_bit_eq_div take_bit_nat_eq_self)

lemma push_bit_1_minus_1: "push_bit n 1 - 1 = (mask n :: 'a::len word)"
  by (simp add: mask_eq_exp_minus_1 push_bit_eq_mult)

lemma unat_and_push_bit: "unat (w AND (push_bit n 1 - 1)) = unat w mod 2 ^ n"
  by (simp only: push_bit_1_minus_1 unat_and_mask)

lemma unat_add_no_wrap:
  fixes a b :: "'a::len word"
  shows "unat a + unat b < 2 ^ LENGTH('a) \<Longrightarrow> unat (a + b) = unat a + unat b"
  by (simp add: unat_word_ariths)

lemma unat_mult_no_wrap:
  fixes a b :: "'a::len word"
  shows "unat a * unat b < 2 ^ LENGTH('a) \<Longrightarrow> unat (a * b) = unat a * unat b"
  by (simp add: unat_word_ariths)

lemma unat_usize_bound: "unat (w :: usize) < 2 ^ 64"
  using unsigned_less [of w, where 'a = nat] by simp

lemma unat_u32_bound: "unat (w :: u32) < 2 ^ 32"
  using unsigned_less [of w, where 'a = nat] by simp

lemma ceil_div:
  fixes n d :: nat
  assumes "0 < d"
  shows "(n + (d - 1)) div d = n div d + (if n mod d = 0 then 0 else 1)"
proof -
  define q r where "q = n div d" and "r = n mod d"
  have n: "n = d * q + r" and r: "r < d" using assms by (simp_all add: q_def r_def)
  have "(d * q + r + (d - 1)) div d = (if r = 0 then q else q + 1)"
    using r by (intro div_nat_eqI) (auto simp: algebra_simps)
  then show ?thesis by (simp add: n [symmetric] flip: q_def r_def)
qed

lemma unat_minus_Suc_less:
  assumes "c \<noteq> (e :: usize)"
  shows "unat (e - (c + 1)) < unat (e - c)"
proof -
  have "e - c \<noteq> 0" using assms by simp
  then have "unat (e - c - 1) < unat (e - c)"
    by (metis measure_unat)
  then show ?thesis by (simp add: diff_diff_eq)
qed

end
