(* ===== verification/Addresses.thy ===== *)
theory Addresses
  imports Prelude
begin

text \<open>
  Physical and virtual addresses and page numbers of the Sv39 scheme:
  \<^verbatim>\<open>src/src/os/src/mm/address.rs\<close> and the address constants of
  \<^verbatim>\<open>src/src/os/src/config.rs\<close>. The four newtypes are datatypes over 64-bit words,
  the \<^verbatim>\<open>From\<close> implementations are functions named after their source and target,
  and the range iterator \<^verbatim>\<open>SimpleRange\<close> is a step function with a loop that
  collects what a \<^verbatim>\<open>for\<close> statement visits. The lemmas give every conversion its
  numeric meaning; the properties are round trips and bounds.
\<close>

section \<open>Constants\<close>

definition PAGE_SIZE :: usize where
  [const_defs]: "PAGE_SIZE = 0x1000"

definition PAGE_SIZE_BITS :: nat where
  [const_defs]: "PAGE_SIZE_BITS = 0xc"

definition MEMORY_END :: usize where
  [const_defs]: "MEMORY_END = 0x80800000"

definition TRAMPOLINE :: usize where
  [const_defs]: "TRAMPOLINE = (- 1) - PAGE_SIZE + 1"

definition TRAP_CONTEXT :: usize where
  [const_defs]: "TRAP_CONTEXT = TRAMPOLINE - PAGE_SIZE"

definition USER_STACK_SIZE :: usize where
  [const_defs]: "USER_STACK_SIZE = 4096 * 2"

definition KERNEL_STACK_SIZE :: usize where
  [const_defs]: "KERNEL_STACK_SIZE = 4096 * 2"

definition PA_WIDTH_SV39 :: nat where
  [const_defs]: "PA_WIDTH_SV39 = 56"

definition VA_WIDTH_SV39 :: nat where
  [const_defs]: "VA_WIDTH_SV39 = 39"

definition PPN_WIDTH_SV39 :: nat where
  [const_defs]: "PPN_WIDTH_SV39 = PA_WIDTH_SV39 - PAGE_SIZE_BITS"

definition VPN_WIDTH_SV39 :: nat where
  [const_defs]: "VPN_WIDTH_SV39 = VA_WIDTH_SV39 - PAGE_SIZE_BITS"

section \<open>The newtypes and their derived order\<close>

datatype PhysAddr = PhysAddr (the_pa: usize)
datatype PhysPageNum = PhysPageNum (the_ppn: usize)
datatype VirtAddr = VirtAddr (the_va: usize)
datatype VirtPageNum = VirtPageNum (the_vpn: usize)

instantiation PhysPageNum :: linorder
begin
definition less_eq_PhysPageNum :: "PhysPageNum \<Rightarrow> PhysPageNum \<Rightarrow> bool" where
  "less_eq_PhysPageNum a b \<longleftrightarrow> the_ppn a \<le> the_ppn b"
definition less_PhysPageNum :: "PhysPageNum \<Rightarrow> PhysPageNum \<Rightarrow> bool" where
  "less_PhysPageNum a b \<longleftrightarrow> the_ppn a < the_ppn b"
instance
  by standard (auto simp: less_eq_PhysPageNum_def less_PhysPageNum_def intro: PhysPageNum.expand)
end

instantiation VirtAddr :: linorder
begin
definition less_eq_VirtAddr :: "VirtAddr \<Rightarrow> VirtAddr \<Rightarrow> bool" where
  "less_eq_VirtAddr a b \<longleftrightarrow> the_va a \<le> the_va b"
definition less_VirtAddr :: "VirtAddr \<Rightarrow> VirtAddr \<Rightarrow> bool" where
  "less_VirtAddr a b \<longleftrightarrow> the_va a < the_va b"
instance
  by standard (auto simp: less_eq_VirtAddr_def less_VirtAddr_def intro: VirtAddr.expand)
end

instantiation VirtPageNum :: linorder
begin
definition less_eq_VirtPageNum :: "VirtPageNum \<Rightarrow> VirtPageNum \<Rightarrow> bool" where
  "less_eq_VirtPageNum a b \<longleftrightarrow> the_vpn a \<le> the_vpn b"
definition less_VirtPageNum :: "VirtPageNum \<Rightarrow> VirtPageNum \<Rightarrow> bool" where
  "less_VirtPageNum a b \<longleftrightarrow> the_vpn a < the_vpn b"
instance
  by standard (auto simp: less_eq_VirtPageNum_def less_VirtPageNum_def intro: VirtPageNum.expand)
end

section \<open>Operations\<close>

definition PhysAddr_floor :: "PhysAddr \<Rightarrow> PhysPageNum" where
  "PhysAddr_floor a = PhysPageNum (the_pa a div PAGE_SIZE)"

definition PhysAddr_ceil :: "PhysAddr \<Rightarrow> PhysPageNum" where
  "PhysAddr_ceil a = PhysPageNum ((the_pa a - 1 + PAGE_SIZE) div PAGE_SIZE)"

definition PhysAddr_page_offset :: "PhysAddr \<Rightarrow> usize" where
  "PhysAddr_page_offset a = the_pa a AND (PAGE_SIZE - 1)"

definition PhysAddr_aligned :: "PhysAddr \<Rightarrow> bool" where
  "PhysAddr_aligned a \<longleftrightarrow> PhysAddr_page_offset a = 0"

definition VirtAddr_floor :: "VirtAddr \<Rightarrow> VirtPageNum" where
  "VirtAddr_floor a = VirtPageNum (the_va a div PAGE_SIZE)"

definition VirtAddr_ceil :: "VirtAddr \<Rightarrow> VirtPageNum" where
  "VirtAddr_ceil a = VirtPageNum ((the_va a - 1 + PAGE_SIZE) div PAGE_SIZE)"

definition VirtAddr_page_offset :: "VirtAddr \<Rightarrow> usize" where
  "VirtAddr_page_offset a = the_va a AND (PAGE_SIZE - 1)"

definition VirtAddr_aligned :: "VirtAddr \<Rightarrow> bool" where
  "VirtAddr_aligned a \<longleftrightarrow> VirtAddr_page_offset a = 0"

text \<open>The loop \<^verbatim>\<open>for i in (0..3).rev()\<close> over the array of the three indexes.\<close>

definition VirtPageNum_indexes :: "VirtPageNum \<Rightarrow> usize list" where
  "VirtPageNum_indexes p =
     (let idxlen = VPN_WIDTH_SV39 div 3
      in snd (fold (\<lambda>i (vpn, idxs).
                (drop_bit idxlen vpn, idxs[i := vpn AND (push_bit idxlen 1 - 1)]))
              (rev [0..<3]) (the_vpn p, [0, 0, 0])))"

subsection \<open>Conversions (the \<open>From\<close> implementations)\<close>

definition PhysAddr_from_usize :: "usize \<Rightarrow> PhysAddr" where
  "PhysAddr_from_usize v = PhysAddr (v AND (push_bit PA_WIDTH_SV39 1 - 1))"

definition PhysPageNum_from_usize :: "usize \<Rightarrow> PhysPageNum" where
  "PhysPageNum_from_usize v = PhysPageNum (v AND (push_bit PPN_WIDTH_SV39 1 - 1))"

definition VirtAddr_from_usize :: "usize \<Rightarrow> VirtAddr" where
  "VirtAddr_from_usize v = VirtAddr (v AND (push_bit VA_WIDTH_SV39 1 - 1))"

definition VirtPageNum_from_usize :: "usize \<Rightarrow> VirtPageNum" where
  "VirtPageNum_from_usize v = VirtPageNum (v AND (push_bit VPN_WIDTH_SV39 1 - 1))"

definition PhysPageNum_from_PhysAddr :: "PhysAddr \<Rightarrow> PhysPageNum outcome" where
  "PhysPageNum_from_PhysAddr v =
     and_then (assert_that (PhysAddr_page_offset v = 0)) (\<lambda>_. Ok (PhysAddr_floor v))"

definition PhysAddr_from_PhysPageNum :: "PhysPageNum \<Rightarrow> PhysAddr" where
  "PhysAddr_from_PhysPageNum v = PhysAddr (push_bit PAGE_SIZE_BITS (the_ppn v))"

text \<open>The sign extension of bit 38 into the upper bits.\<close>

definition usize_from_VirtAddr :: "VirtAddr \<Rightarrow> usize" where
  "usize_from_VirtAddr v =
     (if the_va v \<ge> push_bit (VA_WIDTH_SV39 - 1) 1
      then the_va v OR NOT (push_bit VA_WIDTH_SV39 1 - 1)
      else the_va v)"

definition VirtPageNum_from_VirtAddr :: "VirtAddr \<Rightarrow> VirtPageNum outcome" where
  "VirtPageNum_from_VirtAddr v =
     and_then (assert_that (VirtAddr_page_offset v = 0)) (\<lambda>_. Ok (VirtAddr_floor v))"

definition VirtAddr_from_VirtPageNum :: "VirtPageNum \<Rightarrow> VirtAddr" where
  "VirtAddr_from_VirtPageNum v = VirtAddr (push_bit PAGE_SIZE_BITS (the_vpn v))"

subsection \<open>Slices over a frame\<close>

text \<open>
  A slice of a frame is the list of the addresses of its elements: 512 page-table
  entries of 8 bytes, or 4096 bytes.
\<close>

definition PhysPageNum_get_pte_array :: "PhysPageNum \<Rightarrow> nat list" where
  "PhysPageNum_get_pte_array p =
     map (\<lambda>i. unat (the_pa (PhysAddr_from_PhysPageNum p)) + 8 * i) [0..<unat PAGE_SIZE div 8]"

definition PhysPageNum_get_bytes_array :: "PhysPageNum \<Rightarrow> nat list" where
  "PhysPageNum_get_bytes_array p =
     map (\<lambda>i. unat (the_pa (PhysAddr_from_PhysPageNum p)) + i) [0..<unat PAGE_SIZE]"

subsection \<open>Ranges\<close>

definition PhysPageNum_step :: "PhysPageNum \<Rightarrow> PhysPageNum" where
  "PhysPageNum_step p = PhysPageNum (the_ppn p + 1)"

definition VirtPageNum_step :: "VirtPageNum \<Rightarrow> VirtPageNum" where
  "VirtPageNum_step p = VirtPageNum (the_vpn p + 1)"

record 'a SimpleRange =
  sr_l :: 'a
  sr_r :: 'a

definition SimpleRange_new :: "'a \<Rightarrow> 'a \<Rightarrow> 'a SimpleRange" where
  "SimpleRange_new s e = \<lparr>sr_l = s, sr_r = e\<rparr>"

record 'a SimpleRangeIterator =
  it_current :: 'a
  it_end :: 'a

definition SimpleRange_into_iter :: "'a SimpleRange \<Rightarrow> 'a SimpleRangeIterator" where
  "SimpleRange_into_iter r = \<lparr>it_current = sr_l r, it_end = sr_r r\<rparr>"

text \<open>The trait method \<^verbatim>\<open>StepByOne::step\<close> is the argument \<open>step\<close>.\<close>

definition SimpleRangeIterator_next ::
    "('a \<Rightarrow> 'a) \<Rightarrow> 'a SimpleRangeIterator \<Rightarrow> 'a option \<times> 'a SimpleRangeIterator" where
  "SimpleRangeIterator_next step it =
     (if it_current it = it_end it then (None, it)
      else (Some (it_current it), it\<lparr>it_current := step (it_current it)\<rparr>))"

type_synonym VPNRange = "VirtPageNum SimpleRange"

text \<open>
  The page numbers that \<^verbatim>\<open>for vpn in range\<close> visits: \<^verbatim>\<open>next\<close> until it returns \<^verbatim>\<open>None\<close>.
  The loop ends for every range, since the counter wraps around.
\<close>

function vpn_iter :: "VirtPageNum SimpleRangeIterator \<Rightarrow> VirtPageNum list" where
  "vpn_iter it =
     (case SimpleRangeIterator_next VirtPageNum_step it of
        (None, _) \<Rightarrow> []
      | (Some p, it') \<Rightarrow> p # vpn_iter it')"
  by pat_completeness auto

termination vpn_iter
  by (relation "measure (\<lambda>it. unat (the_vpn (it_end it) - the_vpn (it_current it)))")
    (auto simp: SimpleRangeIterator_next_def VirtPageNum_step_def
      intro!: unat_minus_Suc_less VirtPageNum.expand split: if_splits)

declare vpn_iter.simps [simp del]

definition VPNRange_list :: "VPNRange \<Rightarrow> VirtPageNum list" where
  "VPNRange_list r = vpn_iter (SimpleRange_into_iter r)"


section \<open>Numeric meaning of the operations\<close>

lemma PAGE_SIZE_minus_1: "PAGE_SIZE - 1 = mask 12"
  by (simp add: PAGE_SIZE_def mask_eq_exp_minus_1)

lemma unat_PAGE_SIZE [simp]: "unat PAGE_SIZE = 4096"
  by (simp add: PAGE_SIZE_def)

lemma unat_VirtAddr_floor [simp]: "unat (the_vpn (VirtAddr_floor a)) = unat (the_va a) div 4096"
  by (simp add: VirtAddr_floor_def unat_div)

lemma unat_PhysAddr_floor [simp]: "unat (the_ppn (PhysAddr_floor a)) = unat (the_pa a) div 4096"
  by (simp add: PhysAddr_floor_def unat_div)

lemma unat_VirtAddr_page_offset [simp]:
  "unat (VirtAddr_page_offset a) = unat (the_va a) mod 4096"
  by (simp only: VirtAddr_page_offset_def PAGE_SIZE_minus_1 unat_and_mask) simp

lemma unat_PhysAddr_page_offset [simp]:
  "unat (PhysAddr_page_offset a) = unat (the_pa a) mod 4096"
  by (simp only: PhysAddr_page_offset_def PAGE_SIZE_minus_1 unat_and_mask) simp

lemma unat_ceil:
  assumes "unat v + 4095 < 2 ^ 64"
  shows "unat ((v - 1 + PAGE_SIZE) div PAGE_SIZE) = (unat v + 4095) div 4096"
proof -
  have eq: "v - 1 + PAGE_SIZE = v + 4095" by (simp add: PAGE_SIZE_def)
  have "unat (v + 4095) = unat v + 4095"
    using assms by (subst unat_add_no_wrap) simp_all
  then show ?thesis unfolding eq by (simp add: unat_div)
qed

lemma VirtPageNum_eq_iff: "u = v \<longleftrightarrow> unat (the_vpn u) = unat (the_vpn v)"
  by (cases u; cases v) (simp add: word_unat_eq_iff)

lemma unat_VirtAddr_ceil: "unat (the_va a) < 2 ^ 39 \<Longrightarrow> unat (the_vpn (VirtAddr_ceil a)) = (unat (the_va a) + 4095) div 4096"
  using unat_ceil [of "the_va a"] by (simp add: VirtAddr_ceil_def)

lemma unat_VirtAddr_from_usize [simp]:
  "unat (the_va (VirtAddr_from_usize v)) = unat v mod 2 ^ 39"
  by (simp only: VirtAddr_from_usize_def VA_WIDTH_SV39_def VirtAddr.sel unat_and_push_bit)

lemma unat_PhysAddr_from_usize [simp]:
  "unat (the_pa (PhysAddr_from_usize v)) = unat v mod 2 ^ 56"
  by (simp only: PhysAddr_from_usize_def PA_WIDTH_SV39_def PhysAddr.sel unat_and_push_bit)

lemma unat_PhysPageNum_from_usize [simp]:
  "unat (the_ppn (PhysPageNum_from_usize v)) = unat v mod 2 ^ 44"
  by (simp only: PhysPageNum_from_usize_def PhysPageNum.sel unat_and_push_bit) (simp add: const_defs)

lemma unat_VirtPageNum_from_usize [simp]:
  "unat (the_vpn (VirtPageNum_from_usize v)) = unat v mod 2 ^ 27"
  by (simp only: VirtPageNum_from_usize_def VirtPageNum.sel unat_and_push_bit) (simp add: const_defs)

lemma unat_PhysAddr_from_PhysPageNum:
  assumes "unat (the_ppn p) < 2 ^ 52"
  shows "unat (the_pa (PhysAddr_from_PhysPageNum p)) = unat (the_ppn p) * 4096"
proof -
  have "unat (the_ppn p * 4096) = unat (the_ppn p) * 4096"
    using assms by (subst unat_mult_no_wrap) simp_all
  then show ?thesis
    by (simp add: PhysAddr_from_PhysPageNum_def PAGE_SIZE_BITS_def push_bit_eq_mult)
qed

lemma unat_VirtAddr_from_VirtPageNum:
  assumes "unat (the_vpn p) < 2 ^ 52"
  shows "unat (the_va (VirtAddr_from_VirtPageNum p)) = unat (the_vpn p) * 4096"
proof -
  have "unat (the_vpn p * 4096) = unat (the_vpn p) * 4096"
    using assms by (subst unat_mult_no_wrap) simp_all
  then show ?thesis
    by (simp add: VirtAddr_from_VirtPageNum_def PAGE_SIZE_BITS_def push_bit_eq_mult)
qed

lemma PhysPageNum_from_usize_id:
  "unat v < 2 ^ 44 \<Longrightarrow> PhysPageNum_from_usize v = PhysPageNum v"
  using unat_PhysPageNum_from_usize [of v]
  by (intro PhysPageNum.expand) (simp add: word_unat_eq_iff)

lemma VirtPageNum_indexes_eq:
  "VirtPageNum_indexes (VirtPageNum v) =
     [drop_bit 18 v AND mask 9, drop_bit 9 v AND mask 9, v AND mask 9]"
proof -
  have "rev [0..<3] = [2, 1, 0 :: nat]" by (simp add: upt_rec)
  moreover have "VPN_WIDTH_SV39 div 3 = 9" by (simp add: const_defs)
  ultimately show ?thesis
    by (simp only: VirtPageNum_indexes_def Let_def push_bit_1_minus_1 VirtPageNum.sel)
      (simp add: numeral_2_eq_2)
qed

lemma length_VirtPageNum_indexes [simp]: "length (VirtPageNum_indexes p) = 3"
  by (cases p) (simp add: VirtPageNum_indexes_eq)

lemma get_pte_array_nth:
  "i < 512 \<Longrightarrow> PhysPageNum_get_pte_array p ! i = unat (the_pa (PhysAddr_from_PhysPageNum p)) + 8 * i"
  by (simp add: PhysPageNum_get_pte_array_def)

lemma length_get_pte_array [simp]: "length (PhysPageNum_get_pte_array p) = 512"
  by (simp add: PhysPageNum_get_pte_array_def)

section \<open>Properties\<close>

lemma indexes_digits:
  "\<exists>i0 i1 i2. VirtPageNum_indexes p = [i0, i1, i2]
     \<and> unat i0 < 512 \<and> unat i1 < 512 \<and> unat i2 < 512
     \<and> unat i0 * 2 ^ 18 + unat i1 * 2 ^ 9 + unat i2 = unat (the_vpn p) mod 2 ^ 27"
proof -
  obtain v where p: "p = VirtPageNum v" by (cases p)
  define n where "n = unat v"
  have "n mod (512 * (512 * 512)) =
      512 * (512 * (n div 512 div 512 mod 512) + n div 512 mod 512) + n mod 512"
    by (simp only: mod_mult2_eq)
  then have "n div 2 ^ 18 mod 512 * 2 ^ 18 + n div 2 ^ 9 mod 512 * 2 ^ 9 + n mod 512 = n mod 2 ^ 27"
    by (simp flip: div_mult2_eq)
  then show ?thesis
    by (simp add: p VirtPageNum_indexes_eq unat_and_mask unat_drop_bit n_def [symmetric])
qed

text \<open>
  The three indexes of a virtual page number are its three base-512 digits, most
  significant first: each is below 512 and together they give back the low 27 bits of
  the page number. In particular no walk ever indexes outside a page-table frame.
\<close>

theorem VirtPageNum_indexes_digits:
  "\<exists>i0 i1 i2. VirtPageNum_indexes p = [i0, i1, i2]
     \<and> unat i0 < 512 \<and> unat i1 < 512 \<and> unat i2 < 512
     \<and> unat i0 * 2 ^ 18 + unat i1 * 2 ^ 9 + unat i2 = unat (the_vpn p) mod 2 ^ 27"
  by (rule indexes_digits)

lemma unat_sign_extend:
  "unat ((v AND mask 39) OR NOT (mask 39) :: usize) = unat v mod 2 ^ 39 + (2 ^ 64 - 2 ^ 39)"
proof -
  let ?w = "v AND mask 39 :: usize" and ?m = "NOT (mask 39) :: usize"
  have "?w AND ?m = 0" by (simp add: and.assoc)
  then have "?w OR ?m = ?w + ?m" by (simp add: disjunctive_add_eq_or)
  moreover have m: "unat ?m = 2 ^ 64 - 2 ^ 39" by (simp add: mask_eq_exp_minus_1)
  moreover have w: "unat ?w = unat v mod 2 ^ 39" by (rule unat_and_mask)
  moreover have "unat v mod 2 ^ 39 < 2 ^ 39" by simp
  ultimately show ?thesis by (simp add: unat_add_no_wrap)
qed

lemma unat_usize_from_VirtAddr_from_usize:
  "unat (usize_from_VirtAddr (VirtAddr_from_usize v)) =
     (if unat v mod 2 ^ 39 < 2 ^ 38 then unat v mod 2 ^ 39
      else unat v mod 2 ^ 39 + (2 ^ 64 - 2 ^ 39))"
proof -
  have "push_bit (VA_WIDTH_SV39 - 1) 1 \<le> v AND mask 39 \<longleftrightarrow> 2 ^ 38 \<le> unat v mod 2 ^ 39"
    by (simp only: word_le_nat_alt unat_and_mask) (simp add: const_defs)
  then show ?thesis
    using unat_sign_extend [of v] unat_and_mask [of v 39]
    by (simp only: usize_from_VirtAddr_def VirtAddr_from_usize_def VirtAddr.sel
        push_bit_1_minus_1 VA_WIDTH_SV39_def) (simp add: not_le)
qed

lemma canonical_roundtrip:
  "usize_from_VirtAddr (VirtAddr_from_usize v) = v
     \<longleftrightarrow> unat v < 2 ^ 38 \<or> 2 ^ 64 - 2 ^ 38 \<le> unat v"
proof -
  define n q r where "n = unat v" and "q = n div 2 ^ 39" and "r = n mod 2 ^ 39"
  have n: "n = q * 2 ^ 39 + r" and r: "r < 2 ^ 39"
    by (simp_all add: q_def r_def)
  have q: "q < 2 ^ 25"
    using unat_usize_bound [of v] by (simp add: q_def n_def less_mult_imp_div_less)
  have "(if r < 2 ^ 38 then r else r + (2 ^ 64 - 2 ^ 39)) = n \<longleftrightarrow> n < 2 ^ 38 \<or> 2 ^ 64 - 2 ^ 38 \<le> n"
    using n r q by (cases "r < 2 ^ 38") auto
  then show ?thesis
    by (simp only: word_unat_eq_iff unat_usize_from_VirtAddr_from_usize r_def n_def)
qed

text \<open>
  Converting a \<^verbatim>\<open>usize\<close> to a \<^verbatim>\<open>VirtAddr\<close> (which keeps 39 bits) and back (which
  sign-extends bit 38) returns the original number exactly for the canonical Sv39
  addresses: those below \<open>2^38\<close> and those in the top \<open>2^38\<close> bytes of the 64-bit
  space. Every other address is silently changed to another one.
\<close>

theorem VirtAddr_usize_roundtrip:
  "usize_from_VirtAddr (VirtAddr_from_usize v) = v
     \<longleftrightarrow> unat v < 2 ^ 38 \<or> 2 ^ 64 - 2 ^ 38 \<le> unat v"
  by (rule canonical_roundtrip)

text \<open>
  Rounding an address up to a page number gives the least page number whose page
  starts at or above the address, as long as the address is not in the last page of
  the 64-bit space; this includes address 0, where the intermediate \<^verbatim>\<open>0 - 1\<close> wraps
  around. Rounding down and the page offset decompose the address, and the two
  roundings agree exactly on page-aligned addresses.
\<close>

theorem VirtAddr_floor_ceil:
  assumes "unat (the_va a) + 4095 < 2 ^ 64"
  shows "unat (the_vpn (VirtAddr_floor a)) * 4096 + unat (VirtAddr_page_offset a) = unat (the_va a)
    \<and> unat (the_va a) \<le> unat (the_vpn (VirtAddr_ceil a)) * 4096
    \<and> unat (the_vpn (VirtAddr_ceil a)) * 4096 < unat (the_va a) + 4096
    \<and> (VirtAddr_ceil a = VirtAddr_floor a \<longleftrightarrow> VirtAddr_aligned a)"
proof -
  have c: "unat (the_vpn (VirtAddr_ceil a)) = (unat (the_va a) + 4095) div 4096"
    using unat_ceil [OF assms] by (simp add: VirtAddr_ceil_def)
  have "VirtAddr_ceil a = VirtAddr_floor a
      \<longleftrightarrow> unat (the_vpn (VirtAddr_ceil a)) = unat (the_vpn (VirtAddr_floor a))"
    by (metis VirtPageNum.expand word_unat_eq_iff)
  moreover have "VirtAddr_aligned a \<longleftrightarrow> unat (the_va a) mod 4096 = 0"
    by (simp only: VirtAddr_aligned_def word_unat_eq_iff unat_VirtAddr_page_offset) simp
  moreover define q r where "q = unat (the_va a) div 4096" and "r = unat (the_va a) mod 4096"
  then have "unat (the_va a) = q * 4096 + r" and "r < 4096" by simp_all
  moreover have "(unat (the_va a) + 4095) div 4096 = q + (if r = 0 then 0 else 1)"
    using ceil_div [of 4096 "unat (the_va a)"] by (simp add: q_def r_def)
  ultimately show ?thesis
    by (simp only: c unat_VirtAddr_floor unat_VirtAddr_page_offset flip: q_def r_def)
      (auto split: if_splits)
qed

theorem VirtAddr_floor_ceil_witness:
  "the_vpn (VirtAddr_floor (VirtAddr 0x80200123)) = 0x80200
    \<and> the_vpn (VirtAddr_ceil (VirtAddr 0x80200123)) = 0x80201
    \<and> unat (0x80200123 :: usize) \<le> unat (the_vpn (VirtAddr_ceil (VirtAddr 0x80200123))) * 4096"
  using VirtAddr_floor_ceil [of "VirtAddr 0x80200123"]
  by (simp add: VirtAddr_floor_def VirtAddr_ceil_def PAGE_SIZE_def)

lemma vpn_iter_upto:
  "unat c \<le> unat e \<Longrightarrow>
     map (unat \<circ> the_vpn) (vpn_iter \<lparr>it_current = VirtPageNum c, it_end = VirtPageNum e\<rparr>)
       = [unat c..<unat e]"
proof (induction "unat e - unat c" arbitrary: c)
  case 0
  then have "c = e" by (simp add: word_unat_eq_iff)
  then show ?case
    by (simp add: vpn_iter.simps [of "\<lparr>it_current = _, it_end = _\<rparr>"] SimpleRangeIterator_next_def)
next
  case (Suc d)
  then have less: "unat c < unat e" by simp
  then have c1: "unat (c + 1) = Suc (unat c)"
    using unat_usize_bound [of e] by (subst unat_add_no_wrap) simp_all
  with less Suc.hyps have
    "map (unat \<circ> the_vpn) (vpn_iter \<lparr>it_current = VirtPageNum (c + 1), it_end = VirtPageNum e\<rparr>)
       = [Suc (unat c)..<unat e]"
    by simp
  moreover have "c \<noteq> e" using less by auto
  ultimately show ?case
    using less by (simp add: vpn_iter.simps [of "\<lparr>it_current = VirtPageNum c, it_end = _\<rparr>"]
        SimpleRangeIterator_next_def VirtPageNum_step_def upt_conv_Cons)
qed

text \<open>
  A \<^verbatim>\<open>for\<close> loop over a virtual page range visits exactly the page numbers from the
  start (inclusive) to the end (exclusive), each once and in ascending order.
\<close>

theorem VPNRange_list_upto:
  assumes "s \<le> e"
  shows "map (unat \<circ> the_vpn) (VPNRange_list (SimpleRange_new s e))
    = [unat (the_vpn s)..<unat (the_vpn e)]"
  using assms vpn_iter_upto [of "the_vpn s" "the_vpn e"]
  by (simp add: VPNRange_list_def SimpleRange_into_iter_def SimpleRange_new_def
      less_eq_VirtPageNum_def word_le_nat_alt)

theorem VPNRange_list_upto_witness:
  "map (unat \<circ> the_vpn) (VPNRange_list (SimpleRange_new (VirtPageNum 5) (VirtPageNum 8))) = [5, 6, 7]"
proof -
  have "VirtPageNum 5 \<le> VirtPageNum 8" by (simp add: less_eq_VirtPageNum_def)
  from VPNRange_list_upto [OF this] show ?thesis by (simp add: upt_rec)
qed

end
