(* ===== verification/Id_Allocator.thy ===== *)
theory Id_Allocator
  imports Prelude
begin

text \<open>
  The contract of an allocator of identifiers, which the frame allocator
  (\<^verbatim>\<open>mm/frame_allocator.rs\<close>) and the pid allocator (\<^verbatim>\<open>task/pid.rs\<close>) both promise to
  their clients: an identifier that is handed out is not in use, it stays in use until
  it is given back, and giving back an identifier in use always succeeds. The locales
  state the contract over a set \<open>live\<close> of identifiers in use; what follows for a
  client (pairwise distinct identifiers from any number of allocations, exhaustion
  only when everything is in use) is proved once, inside them.
\<close>

text \<open>\<open>n\<close> allocations in a row, stopping at the first failure.\<close>

fun alloc_seq :: "('s \<Rightarrow> 'i option \<times> 's) \<Rightarrow> nat \<Rightarrow> 's \<Rightarrow> 'i list \<times> 's" where
  "alloc_seq al 0 s = ([], s)"
| "alloc_seq al (Suc n) s =
     (case al s of
        (None, s') \<Rightarrow> ([], s')
      | (Some i, s') \<Rightarrow> (case alloc_seq al n s' of (is, s'') \<Rightarrow> (i # is, s'')))"

locale id_allocator =
  fixes al :: "'s \<Rightarrow> 'i option \<times> 's"
    and de :: "'i \<Rightarrow> 's \<Rightarrow> 's outcome"
    and live :: "'s \<Rightarrow> 'i set"
    and inv :: "'s \<Rightarrow> bool"
    and room :: "'s \<Rightarrow> bool"
  assumes alloc_Some:
      "inv s \<Longrightarrow> room s \<Longrightarrow> al s = (Some i, s') \<Longrightarrow> i \<notin> live s \<and> live s' = insert i (live s) \<and> inv s'"
    and alloc_None: "inv s \<Longrightarrow> al s = (None, s') \<Longrightarrow> s' = s"
    and dealloc_live:
      "inv s \<Longrightarrow> i \<in> live s \<Longrightarrow> \<exists>s'. de i s = Ok s' \<and> live s' = live s - {i} \<and> inv s'"
begin

lemma alloc_dealloc:
  assumes "inv s" "room s" "al s = (Some i, s')"
  shows "\<exists>s''. de i s' = Ok s'' \<and> live s'' = live s \<and> inv s''"
proof -
  from alloc_Some [OF assms] have i: "i \<notin> live s" "live s' = insert i (live s)" "inv s'"
    by simp_all
  then obtain s'' where "de i s' = Ok s''" "live s'' = live s' - {i}" "inv s''"
    using dealloc_live [of s' i] by auto
  with i show ?thesis by auto
qed

end

text \<open>An allocator over a finite universe that fails only when everything is in use.\<close>

locale bounded_allocator = id_allocator +
  fixes universe :: "'b set"
  assumes finite_universe: "finite universe"
    and live_universe: "inv s \<Longrightarrow> live s \<subseteq> universe"
    and always_room: "inv s \<Longrightarrow> room s"
    and alloc_complete: "inv s \<Longrightarrow> fst (al s) = None \<longleftrightarrow> live s = universe"
begin

lemma alloc_seq_fresh:
  assumes "inv s" and "alloc_seq al n s = (is, s')"
  shows "distinct is \<and> set is \<inter> live s = {} \<and> live s' = live s \<union> set is \<and> inv s'"
  using assms
proof (induction n arbitrary: s "is")
  case (Suc n)
  show ?case
  proof (cases "al s")
    case (Pair r t)
    show ?thesis
    proof (cases r)
      case None
      with Suc.prems Pair alloc_None [of s t] show ?thesis by auto
    next
      case (Some i)
      obtain js t' where rest: "alloc_seq al n t = (js, t')" by (cases "alloc_seq al n t")
      from Suc.prems Pair Some rest have "is = i # js" "s' = t'" by auto
      moreover have "i \<notin> live s \<and> live t = insert i (live s) \<and> inv t"
        using Suc.prems(1) Pair Some always_room by (intro alloc_Some) auto
      ultimately show ?thesis using Suc.IH [of t js] rest by auto
    qed
  qed
qed auto

lemma alloc_seq_length:
  assumes "inv s" and "alloc_seq al n s = (is, s')"
  shows "length is = min n (card (universe - live s))"
  using assms
proof (induction n arbitrary: s "is" s')
  case (Suc n)
  obtain r t where al: "al s = (r, t)" by (cases "al s")
  show ?case
  proof (cases r)
    case None
    with al alloc_complete [OF Suc.prems(1)] have "live s = universe" by simp
    with Suc.prems None al show ?thesis by simp
  next
    case (Some i)
    obtain js t' where rest: "alloc_seq al n t = (js, t')" by (cases "alloc_seq al n t")
    from Suc.prems al Some rest have "is": "is = i # js" by auto
    have i: "i \<notin> live s" "live t = insert i (live s)" "inv t"
      using alloc_Some [of s i t] Suc.prems(1) al Some always_room by auto
    then have "i \<in> universe - live s" using live_universe [of t] by auto
    then have "card (universe - live s) = Suc (card (universe - live t))"
    proof -
      have "universe - live s = insert i (universe - live t)"
        using \<open>i \<in> universe - live s\<close> i(2) by blast
      moreover have "i \<notin> universe - live t" using i(2) by blast
      ultimately show ?thesis
        using finite_universe by (metis card_insert_disjoint finite_Diff)
    qed
    with Suc.IH [OF i(3) rest] "is" show ?thesis by simp
  qed
qed simp

end

text \<open>An allocator that detects every deallocation of an identifier not in use.\<close>

locale checked_allocator = id_allocator +
  assumes dealloc_dead: "inv s \<Longrightarrow> i \<notin> live s \<Longrightarrow> \<not> is_ok (de i s)"
begin

lemma double_free_detected:
  assumes "inv s" "i \<in> live s" "de i s = Ok s'"
  shows "\<not> is_ok (de i s')"
  using dealloc_live [OF assms(1,2)] assms(3) dealloc_dead [of s' i] by auto

end

end
