(* ===== verification/Frame_Allocator.thy ===== *)
theory Frame_Allocator
  imports Addresses Id_Allocator
begin

text \<open>
  The physical frame allocator, \<^verbatim>\<open>src/src/os/src/mm/frame_allocator.rs\<close>: a bump
  pointer with a stack of recycled frames, and the frame tracker that zero-fills a
  frame when it is handed out and gives it back when it is dropped. The state is the
  allocator together with the memory whose frames it manages.
\<close>

section \<open>Model\<close>

record StackFrameAllocator =
  fa_current :: usize
  fa_end :: usize
  fa_recycled :: "usize list"

definition StackFrameAllocator_new :: StackFrameAllocator where
  "StackFrameAllocator_new = \<lparr>fa_current = 0, fa_end = 0, fa_recycled = []\<rparr>"

definition StackFrameAllocator_alloc ::
    "StackFrameAllocator \<Rightarrow> PhysPageNum option \<times> StackFrameAllocator" where
  "StackFrameAllocator_alloc a =
     (case vec_pop (fa_recycled a) of
        Some (ppn, rest) \<Rightarrow> (Some (PhysPageNum_from_usize ppn), a\<lparr>fa_recycled := rest\<rparr>)
      | None \<Rightarrow>
          if fa_current a = fa_end a then (None, a)
          else (let a' = a\<lparr>fa_current := fa_current a + 1\<rparr>
                in (Some (PhysPageNum_from_usize (fa_current a' - 1)), a')))"

definition StackFrameAllocator_dealloc ::
    "PhysPageNum \<Rightarrow> StackFrameAllocator \<Rightarrow> StackFrameAllocator outcome" where
  "StackFrameAllocator_dealloc ppn a =
     (if the_ppn ppn \<ge> fa_current a \<or> the_ppn ppn \<in> set (fa_recycled a)
      then Panic ExplicitPanic
      else Ok (a\<lparr>fa_recycled := fa_recycled a @ [the_ppn ppn]\<rparr>))"

definition StackFrameAllocator_init ::
    "PhysPageNum \<Rightarrow> PhysPageNum \<Rightarrow> StackFrameAllocator \<Rightarrow> StackFrameAllocator" where
  "StackFrameAllocator_init l r a = a\<lparr>fa_current := the_ppn l, fa_end := the_ppn r\<rparr>"

text \<open>Physical memory and the global \<^verbatim>\<open>FRAME_ALLOCATOR\<close>.\<close>

record mm_state =
  mem :: memory
  FRAME_ALLOCATOR :: StackFrameAllocator

text \<open>\<^verbatim>\<open>FrameTracker::new\<close> writes 0 to every byte of the frame.\<close>

definition FrameTracker_new :: "PhysPageNum \<Rightarrow> mm_state \<Rightarrow> mm_state" where
  "FrameTracker_new ppn s =
     s\<lparr>mem := fold (\<lambda>a m. m(a := 0)) (PhysPageNum_get_bytes_array ppn) (mem s)\<rparr>"

definition frame_alloc :: "mm_state \<Rightarrow> PhysPageNum option \<times> mm_state" where
  "frame_alloc s =
     (case StackFrameAllocator_alloc (FRAME_ALLOCATOR s) of
        (None, a) \<Rightarrow> (None, s\<lparr>FRAME_ALLOCATOR := a\<rparr>)
      | (Some ppn, a) \<Rightarrow> (Some ppn, FrameTracker_new ppn (s\<lparr>FRAME_ALLOCATOR := a\<rparr>)))"

definition frame_dealloc :: "PhysPageNum \<Rightarrow> mm_state \<Rightarrow> mm_state outcome" where
  "frame_dealloc ppn s =
     and_then (StackFrameAllocator_dealloc ppn (FRAME_ALLOCATOR s))
       (\<lambda>a. Ok (s\<lparr>FRAME_ALLOCATOR := a\<rparr>))"

text \<open>The linker symbol \<^verbatim>\<open>ekernel\<close> is a parameter.\<close>

definition init_frame_allocator :: "usize \<Rightarrow> mm_state \<Rightarrow> mm_state" where
  "init_frame_allocator ekernel s =
     s\<lparr>FRAME_ALLOCATOR :=
         StackFrameAllocator_init (PhysAddr_ceil (PhysAddr_from_usize ekernel))
           (PhysAddr_floor (PhysAddr_from_usize MEMORY_END)) (FRAME_ALLOCATOR s)\<rparr>"

section \<open>Invariant and frames in use\<close>

text \<open>
  \<open>l\<close> is the first frame the allocator was given by \<^verbatim>\<open>init\<close>: the frames in use are
  those between \<open>l\<close> and the bump pointer that are not recycled.
\<close>

definition fa_inv :: "nat \<Rightarrow> StackFrameAllocator \<Rightarrow> bool" where
  "fa_inv l a \<longleftrightarrow>
     l \<le> unat (fa_current a) \<and> unat (fa_current a) \<le> unat (fa_end a) \<and> unat (fa_end a) \<le> 2 ^ 44
     \<and> distinct (fa_recycled a)
     \<and> (\<forall>p \<in> set (fa_recycled a). l \<le> unat p \<and> unat p < unat (fa_current a))"

definition fa_live :: "nat \<Rightarrow> StackFrameAllocator \<Rightarrow> PhysPageNum set" where
  "fa_live l a =
     {p. l \<le> unat (the_ppn p) \<and> unat (the_ppn p) < unat (fa_current a)
         \<and> the_ppn p \<notin> set (fa_recycled a)}"

definition fa_free :: "StackFrameAllocator \<Rightarrow> nat" where
  "fa_free a = length (fa_recycled a) + (unat (fa_end a) - unat (fa_current a))"

definition fa_universe :: "nat \<Rightarrow> nat \<Rightarrow> PhysPageNum set" where
  "fa_universe l r = {p. l \<le> unat (the_ppn p) \<and> unat (the_ppn p) < r}"

section \<open>The allocator keeps its contract\<close>

lemma PhysPageNum_eq_iff: "p = q \<longleftrightarrow> unat (the_ppn p) = unat (the_ppn q)"
  by (metis PhysPageNum.expand word_unat_eq_iff)

lemma alloc_SomeD:
  assumes "fa_inv l a" and "StackFrameAllocator_alloc a = (Some p, a')"
  shows "p \<notin> fa_live l a \<and> fa_live l a' = insert p (fa_live l a) \<and> fa_inv l a'
    \<and> p \<in> fa_universe l (unat (fa_end a)) \<and> fa_end a' = fa_end a"
proof (cases "fa_recycled a" rule: rev_cases)
  case Nil
  with assms(2) have neq: "fa_current a \<noteq> fa_end a"
    and a': "a' = a\<lparr>fa_current := fa_current a + 1\<rparr>"
    and p: "p = PhysPageNum_from_usize (fa_current a)"
    by (auto simp: StackFrameAllocator_alloc_def Let_def split: if_splits)
  have lt: "unat (fa_current a) < unat (fa_end a)"
    using assms(1) neq by (auto simp: fa_inv_def le_less word_unat_eq_iff)
  have c1: "unat (fa_current a + 1) = Suc (unat (fa_current a))"
    using lt unat_usize_bound [of "fa_end a"] by (subst unat_add_no_wrap) simp_all
  have p': "p = PhysPageNum (fa_current a)"
    using lt assms(1) unfolding p by (intro PhysPageNum_from_usize_id) (simp add: fa_inv_def)
  show ?thesis
    using assms(1) Nil lt c1
    by (auto simp: a' p' fa_inv_def fa_live_def fa_universe_def PhysPageNum_eq_iff)
next
  case (snoc ys y)
  with assms(2) have a': "a' = a\<lparr>fa_recycled := ys\<rparr>" and p: "p = PhysPageNum_from_usize y"
    by (auto simp: StackFrameAllocator_alloc_def)
  have y: "l \<le> unat y" "unat y < unat (fa_current a)" "y \<notin> set ys"
    using assms(1) snoc by (auto simp: fa_inv_def)
  have p': "p = PhysPageNum y"
    using y assms(1) unfolding p by (intro PhysPageNum_from_usize_id) (auto simp: fa_inv_def)
  show ?thesis
    using assms(1) snoc y
    by (auto simp: a' p' fa_inv_def fa_live_def fa_universe_def intro: PhysPageNum.expand)
qed

lemma alloc_NoneD:
  assumes "fa_inv l a" and "StackFrameAllocator_alloc a = (None, a')"
  shows "a' = a \<and> fa_live l a = fa_universe l (unat (fa_end a))"
  using assms
  by (cases "fa_recycled a" rule: rev_cases)
    (auto simp: StackFrameAllocator_alloc_def Let_def fa_live_def fa_universe_def split: if_splits)

lemma dealloc_liveD:
  assumes "fa_inv l a" and "p \<in> fa_live l a"
  shows "\<exists>a'. StackFrameAllocator_dealloc p a = Ok a' \<and> fa_live l a' = fa_live l a - {p}
    \<and> fa_inv l a' \<and> fa_end a' = fa_end a"
  using assms
  by (auto simp: StackFrameAllocator_dealloc_def fa_live_def fa_inv_def word_le_nat_alt
      intro: PhysPageNum.expand)

lemma alloc_fa_free:
  assumes "fa_inv l a" and "StackFrameAllocator_alloc a = (r, a')"
  shows "(r = None \<longleftrightarrow> fa_free a = 0) \<and> (r \<noteq> None \<longrightarrow> fa_free a = Suc (fa_free a'))"
proof (cases "fa_recycled a" rule: rev_cases)
  case Nil
  show ?thesis
  proof (cases "fa_current a = fa_end a")
    case False
    with assms(1) have lt: "unat (fa_current a) < unat (fa_end a)"
      by (auto simp: fa_inv_def le_less word_unat_eq_iff)
    then have "unat (fa_current a + 1) = Suc (unat (fa_current a))"
      using unat_usize_bound [of "fa_end a"] by (subst unat_add_no_wrap) simp_all
    with assms(2) Nil False lt show ?thesis
      by (auto simp: StackFrameAllocator_alloc_def Let_def fa_free_def)
  qed (use assms(2) Nil in \<open>auto simp: StackFrameAllocator_alloc_def fa_free_def\<close>)
qed (use assms(2) in \<open>auto simp: StackFrameAllocator_alloc_def fa_free_def\<close>)

lemma fa_live_bound: "fa_inv l a \<Longrightarrow> p \<in> fa_live l a \<Longrightarrow> unat (the_ppn p) < 2 ^ 44"
  by (auto simp: fa_inv_def fa_live_def)

lemma fa_live_universe: "fa_inv l a \<Longrightarrow> fa_live l a \<subseteq> fa_universe l (unat (fa_end a))"
  by (auto simp: fa_inv_def fa_live_def fa_universe_def)

lemma finite_fa_universe: "finite (fa_universe l r)"
proof -
  have "inj_on (unat \<circ> the_ppn) (fa_universe l r)"
    by (auto simp: inj_on_def PhysPageNum_eq_iff)
  moreover have "(unat \<circ> the_ppn) ` fa_universe l r \<subseteq> {..<r}"
    by (auto simp: fa_universe_def)
  ultimately show ?thesis by (metis finite_imageD finite_lessThan finite_subset)
qed

interpretation frames: bounded_allocator
  StackFrameAllocator_alloc StackFrameAllocator_dealloc "fa_live l"
  "\<lambda>a. fa_inv l a \<and> unat (fa_end a) = r" "\<lambda>_. True" "fa_universe l r"
  for l r
proof (unfold_locales, goal_cases)
  case (1 s i s')
  then show ?case using alloc_SomeD [of l s i s'] by auto
next
  case (2 s s')
  then show ?case using alloc_NoneD [of l s s'] by auto
next
  case (3 s i)
  then show ?case using dealloc_liveD [of l s i] by auto
next
  case 4
  show ?case by (rule finite_fa_universe)
next
  case (5 s)
  then show ?case using fa_live_universe by auto
next
  case (7 s)
  then have inv: "fa_inv l s" and r: "unat (fa_end s) = r" by auto
  show ?case
  proof (cases "StackFrameAllocator_alloc s")
    case (Pair x s')
    then show ?thesis
      using alloc_NoneD [OF inv, of s'] alloc_SomeD [OF inv, of _ s'] r
      by (cases x) (auto simp: fa_universe_def)
  qed
qed simp

section \<open>Zero-filling and the global allocator\<close>

lemma fold_zero_fill: "fold (\<lambda>a m. m(a := 0)) as m x = (if x \<in> set as then 0 else m x)"
  by (induction as arbitrary: m) auto

text \<open>The bytes of a frame.\<close>

definition frame_bytes :: "PhysPageNum \<Rightarrow> nat set" where
  "frame_bytes p = {unat (the_ppn p) * 4096..<unat (the_ppn p) * 4096 + 4096}"

lemma set_get_bytes_array:
  assumes "unat (the_ppn p) < 2 ^ 52"
  shows "set (PhysPageNum_get_bytes_array p) = frame_bytes p"
  using image_add_atLeastLessThan' [of "unat (the_ppn p) * 4096" 0 4096]
  by (auto simp: PhysPageNum_get_bytes_array_def frame_bytes_def
      unat_PhysAddr_from_PhysPageNum [OF assms] image_iff intro: le_add_diff_inverse [symmetric])

lemma mem_FrameTracker_new:
  assumes "unat (the_ppn p) < 2 ^ 52"
  shows "mem (FrameTracker_new p s) x = (if x \<in> frame_bytes p then 0 else mem s x)"
  by (simp add: FrameTracker_new_def fold_zero_fill set_get_bytes_array [OF assms])

lemma frame_bytes_disjoint: "p \<noteq> q \<Longrightarrow> frame_bytes p \<inter> frame_bytes q = {}"
  by (auto simp: frame_bytes_def PhysPageNum_eq_iff)

lemma frame_alloc_SomeD:
  assumes "fa_inv l (FRAME_ALLOCATOR s)" and "frame_alloc s = (Some p, s')"
  shows "p \<notin> fa_live l (FRAME_ALLOCATOR s)"
    and "fa_live l (FRAME_ALLOCATOR s') = insert p (fa_live l (FRAME_ALLOCATOR s))"
    and "fa_inv l (FRAME_ALLOCATOR s')"
    and "unat (the_ppn p) < 2 ^ 44"
    and "mem s' x = (if x \<in> frame_bytes p then 0 else mem s x)"
proof -
  from assms(2) obtain a where a: "StackFrameAllocator_alloc (FRAME_ALLOCATOR s) = (Some p, a)"
    and s': "s' = FrameTracker_new p (s\<lparr>FRAME_ALLOCATOR := a\<rparr>)"
    by (auto simp: frame_alloc_def split: prod.splits option.splits)
  from alloc_SomeD [OF assms(1) a]
  show "p \<notin> fa_live l (FRAME_ALLOCATOR s)"
    and "fa_live l (FRAME_ALLOCATOR s') = insert p (fa_live l (FRAME_ALLOCATOR s))"
    and "fa_inv l (FRAME_ALLOCATOR s')"
    by (simp_all add: s' FrameTracker_new_def)
  from alloc_SomeD [OF assms(1) a] assms(1) show p: "unat (the_ppn p) < 2 ^ 44"
    by (simp add: fa_universe_def fa_inv_def)
  then show "mem s' x = (if x \<in> frame_bytes p then 0 else mem s x)"
    by (simp add: s' mem_FrameTracker_new)
qed

lemma frame_alloc_NoneD: "frame_alloc s = (None, s') \<Longrightarrow> s' = s"
  by (auto simp: frame_alloc_def StackFrameAllocator_alloc_def Let_def
      split: prod.splits option.splits if_splits)

lemma frame_alloc_fa_free:
  assumes "fa_inv l (FRAME_ALLOCATOR s)" and "frame_alloc s = (r, s')"
  shows "(r = None \<longleftrightarrow> fa_free (FRAME_ALLOCATOR s) = 0)
    \<and> (r \<noteq> None \<longrightarrow> fa_free (FRAME_ALLOCATOR s) = Suc (fa_free (FRAME_ALLOCATOR s')))"
  using assms(2) alloc_fa_free [OF assms(1)]
  by (auto simp: frame_alloc_def FrameTracker_new_def split: prod.splits option.splits)

lemma fa_inv_init:
  assumes "unat ekernel \<le> unat MEMORY_END"
  shows "fa_inv ((unat ekernel + 4095) div 4096)
           (StackFrameAllocator_init (PhysAddr_ceil (PhysAddr_from_usize ekernel))
              (PhysAddr_floor (PhysAddr_from_usize MEMORY_END)) StackFrameAllocator_new)"
    and "unat (the_ppn (PhysAddr_ceil (PhysAddr_from_usize ekernel))) = (unat ekernel + 4095) div 4096"
    and "unat (the_ppn (PhysAddr_floor (PhysAddr_from_usize MEMORY_END))) = 0x80800"
proof -
  have e: "unat (the_pa (PhysAddr_from_usize ekernel)) = unat ekernel"
    using assms by (simp add: MEMORY_END_def)
  then show c: "unat (the_ppn (PhysAddr_ceil (PhysAddr_from_usize ekernel)))
      = (unat ekernel + 4095) div 4096"
    using unat_ceil [of "the_pa (PhysAddr_from_usize ekernel)"] assms
    by (simp add: PhysAddr_ceil_def MEMORY_END_def)
  show f: "unat (the_ppn (PhysAddr_floor (PhysAddr_from_usize MEMORY_END))) = 0x80800"
    by (simp add: MEMORY_END_def)
  have "(unat ekernel + 4095) div 4096 \<le> 0x80800"
    using assms by (simp add: MEMORY_END_def)
  with c f show "fa_inv ((unat ekernel + 4095) div 4096)
           (StackFrameAllocator_init (PhysAddr_ceil (PhysAddr_from_usize ekernel))
              (PhysAddr_floor (PhysAddr_from_usize MEMORY_END)) StackFrameAllocator_new)"
    by (simp add: fa_inv_def StackFrameAllocator_init_def StackFrameAllocator_new_def)
qed

section \<open>Properties\<close>

text \<open>
  A frame that \<^verbatim>\<open>frame_alloc\<close> hands out was not in use, is in use afterwards, reads as
  zero in every byte, and no byte outside it is touched; the allocator's invariant is
  kept. So two owners never share a frame and no data leaks from the previous owner.
\<close>

theorem frame_alloc_fresh_zeroed:
  assumes "fa_inv l (FRAME_ALLOCATOR s)" and "frame_alloc s = (Some p, s')"
  shows "p \<notin> fa_live l (FRAME_ALLOCATOR s)
    \<and> fa_live l (FRAME_ALLOCATOR s') = insert p (fa_live l (FRAME_ALLOCATOR s))
    \<and> fa_inv l (FRAME_ALLOCATOR s')
    \<and> (\<forall>x. mem s' x = (if x \<in> frame_bytes p then 0 else mem s x))"
  using frame_alloc_SomeD [OF assms] by blast

text \<open>
  C40. After the kernel has initialised the allocator with the memory between the end of
  the kernel image and \<^verbatim>\<open>MEMORY_END\<close>, any number \<open>n\<close> of allocations returns pairwise
  distinct frames, all inside that memory, and fails only when every frame of it has been
  handed out: exactly \<open>min n (available)\<close> allocations succeed.
\<close>

theorem frame_allocator_complete:
  assumes "unat ekernel \<le> unat MEMORY_END"
    and "a = StackFrameAllocator_init (PhysAddr_ceil (PhysAddr_from_usize ekernel))
               (PhysAddr_floor (PhysAddr_from_usize MEMORY_END)) StackFrameAllocator_new"
    and "alloc_seq StackFrameAllocator_alloc n a = (ps, a')"
  shows "distinct ps
    \<and> set ps \<subseteq> fa_universe ((unat ekernel + 4095) div 4096) 0x80800
    \<and> length ps = min n (0x80800 - (unat ekernel + 4095) div 4096)"
proof -
  let ?l = "(unat ekernel + 4095) div 4096"
  note init = fa_inv_init [OF assms(1)]
  have inv: "fa_inv ?l a \<and> unat (fa_end a) = 0x80800"
    using init unfolding assms(2) by (simp add: StackFrameAllocator_init_def)
  have live: "fa_live ?l a = {}"
    using init unfolding assms(2)
    by (auto simp: fa_live_def StackFrameAllocator_init_def StackFrameAllocator_new_def)
  from frames.alloc_seq_fresh [OF inv assms(3)]
  have fresh: "distinct ps" "fa_live ?l a' = set ps" "fa_inv ?l a'" "unat (fa_end a') = 0x80800"
    by (simp_all add: live)
  have "card (fa_universe ?l 0x80800) = 0x80800 - ?l"
  proof -
    have "bij_betw (unat \<circ> the_ppn) (fa_universe ?l 0x80800) {?l..<0x80800}"
      by (rule bij_betw_byWitness [where f' = "\<lambda>n. PhysPageNum (of_nat n)"])
        (auto simp: fa_universe_def unat_of_nat)
    then show ?thesis by (simp add: bij_betw_same_card)
  qed
  with frames.alloc_seq_length [OF inv assms(3)] live
  have "length ps = min n (0x80800 - ?l)" by simp
  with fresh fa_live_universe [of ?l a'] show ?thesis by simp
qed

text \<open>A machine whose kernel image ends at \<^verbatim>\<open>0x80600000\<close>, freshly initialised.\<close>

definition fa_example :: StackFrameAllocator where
  "fa_example = StackFrameAllocator_init (PhysAddr_ceil (PhysAddr_from_usize 0x80600000))
     (PhysAddr_floor (PhysAddr_from_usize MEMORY_END)) StackFrameAllocator_new"

lemma fa_example_eq: "fa_example = \<lparr>fa_current = 0x80600, fa_end = 0x80800, fa_recycled = []\<rparr>"
proof -
  have e: "unat (0x80600000 :: usize) \<le> unat MEMORY_END" by (simp add: MEMORY_END_def)
  show ?thesis
    using fa_inv_init(2,3) [OF e]
    by (simp add: fa_example_def StackFrameAllocator_init_def StackFrameAllocator_new_def
        word_unat_eq_iff)
qed

theorem frame_alloc_fresh_zeroed_witness:
  "mem (snd (frame_alloc \<lparr>mem = (\<lambda>_. 7), FRAME_ALLOCATOR = fa_example\<rparr>)) 0x80600010 = 0
   \<and> mem (snd (frame_alloc \<lparr>mem = (\<lambda>_. 7), FRAME_ALLOCATOR = fa_example\<rparr>)) 0x80601000 = 7"
proof -
  let ?s = "\<lparr>mem = (\<lambda>_. 7), FRAME_ALLOCATOR = fa_example\<rparr>"
  have inv: "fa_inv 0x80600 (FRAME_ALLOCATOR ?s)" by (simp add: fa_example_eq fa_inv_def)
  have p: "PhysPageNum_from_usize 0x80600 = PhysPageNum 0x80600"
    by (rule PhysPageNum_from_usize_id) simp
  have "frame_alloc ?s = (Some (PhysPageNum 0x80600), snd (frame_alloc ?s))"
    by (simp add: frame_alloc_def fa_example_eq StackFrameAllocator_alloc_def p)
  from frame_alloc_fresh_zeroed [OF inv this] show ?thesis
    by (simp add: frame_bytes_def)
qed

theorem frame_allocator_complete_witness:
  "length (fst (alloc_seq StackFrameAllocator_alloc 1000 fa_example)) = 0x200
   \<and> distinct (fst (alloc_seq StackFrameAllocator_alloc 1000 fa_example))"
proof -
  have e: "unat (0x80600000 :: usize) \<le> unat MEMORY_END" by (simp add: MEMORY_END_def)
  have "alloc_seq StackFrameAllocator_alloc 1000 fa_example =
    (fst (alloc_seq StackFrameAllocator_alloc 1000 fa_example),
     snd (alloc_seq StackFrameAllocator_alloc 1000 fa_example))" by simp
  from frame_allocator_complete [OF e fa_example_def this] show ?thesis by simp
qed

text \<open>
  The deallocation check has no lower bound: a frame below the memory the allocator was
  given, which was never allocated, is accepted and then handed out.
\<close>

lemma dealloc_accepts_kernel_frame:
  "\<exists>a. StackFrameAllocator_dealloc (PhysPageNum 0x80200) fa_example = Ok a
     \<and> fst (StackFrameAllocator_alloc a) = Some (PhysPageNum 0x80200)"
  by (simp add: fa_example_eq StackFrameAllocator_dealloc_def StackFrameAllocator_alloc_def
      vec_pop_def PhysPageNum_from_usize_id)

end
