(* ===== verification/Page_Table.thy ===== *)
theory Page_Table
  imports Frame_Allocator "HOL-Library.Sublist"
begin

text \<open>
  The three-level Sv39 page table, \<^verbatim>\<open>src/src/os/src/mm/page_table.rs\<close> (the entries, the
  table and its walk; the translation of user buffers is in theory \<open>User_Buffer\<close>).
  Tables live in physical memory: a walk reads and writes 8-byte entries of frames
  through the byte memory, and missing tables are allocated from the frame allocator.
  A reference to an entry is its address. The invariant \<open>pt_wf\<close> says that the tables
  reachable from the root form a tree of frames owned by the page table; under it the
  table refines a finite map from page numbers to entries.
\<close>

section \<open>Entries\<close>

type_synonym PTEFlags = u8

definition PTE_V :: PTEFlags where [const_defs]: "PTE_V = push_bit 0 1"
definition PTE_R :: PTEFlags where [const_defs]: "PTE_R = push_bit 1 1"
definition PTE_W :: PTEFlags where [const_defs]: "PTE_W = push_bit 2 1"
definition PTE_X :: PTEFlags where [const_defs]: "PTE_X = push_bit 3 1"
definition PTE_U :: PTEFlags where [const_defs]: "PTE_U = push_bit 4 1"
definition PTE_G :: PTEFlags where [const_defs]: "PTE_G = push_bit 5 1"
definition PTE_A :: PTEFlags where [const_defs]: "PTE_A = push_bit 6 1"
definition PTE_D :: PTEFlags where [const_defs]: "PTE_D = push_bit 7 1"

text \<open>\<^verbatim>\<open>bitflags\<close>' \<^verbatim>\<open>from_bits\<close>: \<^verbatim>\<open>None\<close> if a bit that is no flag is set.\<close>

definition PTEFlags_from_bits :: "u8 \<Rightarrow> PTEFlags option" where
  "PTEFlags_from_bits b =
     (if b AND NOT (PTE_V OR PTE_R OR PTE_W OR PTE_X OR PTE_U OR PTE_G OR PTE_A OR PTE_D) = 0
      then Some b else None)"

definition PPN_OFFSET :: nat where [const_defs]: "PPN_OFFSET = 10"
definition REVERSE_OFFSET :: nat where [const_defs]: "REVERSE_OFFSET = 54"

record PageTableEntry =
  bits :: usize

definition PageTableEntry_new :: "PhysPageNum \<Rightarrow> PTEFlags \<Rightarrow> PageTableEntry" where
  "PageTableEntry_new ppn flags = \<lparr>bits = push_bit PPN_OFFSET (the_ppn ppn) OR ucast flags\<rparr>"

definition PageTableEntry_empty :: PageTableEntry where
  "PageTableEntry_empty = \<lparr>bits = 0\<rparr>"

definition PageTableEntry_ppn :: "PageTableEntry \<Rightarrow> PhysPageNum" where
  "PageTableEntry_ppn pte =
     PhysPageNum_from_usize
       (drop_bit PPN_OFFSET (bits pte) AND (push_bit (REVERSE_OFFSET - PPN_OFFSET) 1 - 1))"

text \<open>Every bit of a byte is a flag (\<open>PTEFlags_from_bits_total\<close>), so the \<^verbatim>\<open>unwrap\<close> cannot fail.\<close>

definition PageTableEntry_flags :: "PageTableEntry \<Rightarrow> PTEFlags" where
  "PageTableEntry_flags pte = the (PTEFlags_from_bits (ucast (bits pte)))"

definition PageTableEntry_is_valid :: "PageTableEntry \<Rightarrow> bool" where
  "PageTableEntry_is_valid pte \<longleftrightarrow> PageTableEntry_flags pte AND PTE_V \<noteq> 0"

definition PageTableEntry_readable :: "PageTableEntry \<Rightarrow> bool" where
  "PageTableEntry_readable pte \<longleftrightarrow> PageTableEntry_flags pte AND PTE_R \<noteq> 0"

definition PageTableEntry_writable :: "PageTableEntry \<Rightarrow> bool" where
  "PageTableEntry_writable pte \<longleftrightarrow> PageTableEntry_flags pte AND PTE_W \<noteq> 0"

definition PageTableEntry_executable :: "PageTableEntry \<Rightarrow> bool" where
  "PageTableEntry_executable pte \<longleftrightarrow> PageTableEntry_flags pte AND PTE_X \<noteq> 0"

section \<open>The table\<close>

record PageTable =
  root_ppn :: PhysPageNum
  pt_frames :: "PhysPageNum list"

text \<open>Reading and writing the entry behind a reference.\<close>

definition load_pte :: "memory \<Rightarrow> nat \<Rightarrow> PageTableEntry" where
  "load_pte m a = \<lparr>bits = load_u64 m a\<rparr>"

definition store_pte :: "nat \<Rightarrow> PageTableEntry \<Rightarrow> mm_state \<Rightarrow> mm_state" where
  "store_pte a pte s = s\<lparr>mem := store_u64 (mem s) a (bits pte)\<rparr>"

definition PageTable_new :: "mm_state \<Rightarrow> (PageTable \<times> mm_state) outcome" where
  "PageTable_new s =
     (case frame_alloc s of (r, s') \<Rightarrow>
        and_then (unwrap r) (\<lambda>frame. Ok (\<lparr>root_ppn = frame, pt_frames = [frame]\<rparr>, s')))"

definition PageTable_from_token :: "usize \<Rightarrow> PageTable" where
  "PageTable_from_token satp = \<lparr>root_ppn = PhysPageNum_from_usize satp, pt_frames = []\<rparr>"

text \<open>The body of \<^verbatim>\<open>for (i, &idx) in idxs.iter().enumerate()\<close>, with \<open>result\<close> initially \<^verbatim>\<open>None\<close>.\<close>

fun find_pte_create_loop ::
    "PhysPageNum \<Rightarrow> nat \<Rightarrow> usize list \<Rightarrow> PageTable \<Rightarrow> mm_state
      \<Rightarrow> (nat option \<times> PageTable \<times> mm_state) outcome" where
  "find_pte_create_loop ppn i [] pt s = Ok (None, pt, s)"
| "find_pte_create_loop ppn i (idx # idxs) pt s =
     (let pte = PhysPageNum_get_pte_array ppn ! unat idx in
      if i = 2 then Ok (Some pte, pt, s)
      else if \<not> PageTableEntry_is_valid (load_pte (mem s) pte) then
        (case frame_alloc s of (r, s') \<Rightarrow>
           and_then (unwrap r) (\<lambda>frame.
             let s'' = store_pte pte (PageTableEntry_new frame PTE_V) s';
                 pt' = pt\<lparr>pt_frames := pt_frames pt @ [frame]\<rparr>
             in find_pte_create_loop (PageTableEntry_ppn (load_pte (mem s'') pte)) (Suc i) idxs pt' s''))
      else find_pte_create_loop (PageTableEntry_ppn (load_pte (mem s) pte)) (Suc i) idxs pt s)"

definition find_pte_create ::
    "PageTable \<Rightarrow> VirtPageNum \<Rightarrow> mm_state \<Rightarrow> (nat option \<times> PageTable \<times> mm_state) outcome" where
  "find_pte_create pt vpn s =
     find_pte_create_loop (root_ppn pt) 0 (VirtPageNum_indexes vpn) pt s"

fun find_pte_loop :: "PhysPageNum \<Rightarrow> nat \<Rightarrow> usize list \<Rightarrow> memory \<Rightarrow> nat option" where
  "find_pte_loop ppn i [] m = None"
| "find_pte_loop ppn i (idx # idxs) m =
     (let pte = PhysPageNum_get_pte_array ppn ! unat idx in
      if i = 2 then Some pte
      else if \<not> PageTableEntry_is_valid (load_pte m pte) then None
      else find_pte_loop (PageTableEntry_ppn (load_pte m pte)) (Suc i) idxs m)"

definition find_pte :: "PageTable \<Rightarrow> VirtPageNum \<Rightarrow> memory \<Rightarrow> nat option" where
  "find_pte pt vpn m = find_pte_loop (root_ppn pt) 0 (VirtPageNum_indexes vpn) m"

definition PageTable_map ::
    "PageTable \<Rightarrow> VirtPageNum \<Rightarrow> PhysPageNum \<Rightarrow> PTEFlags \<Rightarrow> mm_state
      \<Rightarrow> (PageTable \<times> mm_state) outcome" where
  "PageTable_map pt vpn ppn flags s =
     and_then (find_pte_create pt vpn s) (\<lambda>(r, pt', s').
     and_then (unwrap r) (\<lambda>pte.
     and_then (assert_that (\<not> PageTableEntry_is_valid (load_pte (mem s') pte))) (\<lambda>_.
     Ok (pt', store_pte pte (PageTableEntry_new ppn (flags OR PTE_V)) s'))))"

definition PageTable_unmap :: "PageTable \<Rightarrow> VirtPageNum \<Rightarrow> mm_state \<Rightarrow> mm_state outcome" where
  "PageTable_unmap pt vpn s =
     and_then (unwrap (find_pte pt vpn (mem s))) (\<lambda>pte.
     and_then (assert_that (PageTableEntry_is_valid (load_pte (mem s) pte))) (\<lambda>_.
     Ok (store_pte pte PageTableEntry_empty s)))"

definition PageTable_translate :: "PageTable \<Rightarrow> VirtPageNum \<Rightarrow> memory \<Rightarrow> PageTableEntry option" where
  "PageTable_translate pt vpn m = map_option (load_pte m) (find_pte pt vpn m)"

definition PageTable_translate_va :: "PageTable \<Rightarrow> VirtAddr \<Rightarrow> memory \<Rightarrow> PhysAddr option" where
  "PageTable_translate_va pt va m =
     map_option
       (\<lambda>pte. let phys_addr = PhysAddr_from_PhysPageNum (PageTableEntry_ppn (load_pte m pte))
              in PhysAddr_from_usize (the_pa phys_addr + VirtAddr_page_offset va))
       (find_pte pt (VirtAddr_floor va) m)"

definition PageTable_token :: "PageTable \<Rightarrow> usize" where
  "PageTable_token pt = push_bit 60 8 OR the_ppn (root_ppn pt)"

section \<open>Entries encode a page number and flags\<close>

lemma PTEFlags_from_bits_total: "PTEFlags_from_bits b = Some b"
proof -
  have "PTE_V OR PTE_R OR PTE_W OR PTE_X OR PTE_U OR PTE_G OR PTE_A OR PTE_D = - 1"
    by (simp add: const_defs)
  then show ?thesis by (simp add: PTEFlags_from_bits_def)
qed

lemma PageTableEntry_flags_eq: "PageTableEntry_flags pte = ucast (bits pte)"
  by (simp add: PageTableEntry_flags_def PTEFlags_from_bits_total)

lemma unat_PageTableEntry_ppn:
  "unat (the_ppn (PageTableEntry_ppn pte)) = unat (bits pte) div 2 ^ 10 mod 2 ^ 44"
proof -
  have "REVERSE_OFFSET - PPN_OFFSET = 44" by (simp add: const_defs)
  then show ?thesis
    by (simp only: PageTableEntry_ppn_def unat_PhysPageNum_from_usize unat_and_push_bit
        unat_drop_bit PPN_OFFSET_def) simp
qed

lemma PageTableEntry_ppn_bound: "unat (the_ppn (PageTableEntry_ppn pte)) < 2 ^ 44"
  by (simp add: unat_PageTableEntry_ppn)

lemma bits_PageTableEntry_new:
  assumes "unat (the_ppn p) < 2 ^ 44"
  shows "unat (bits (PageTableEntry_new p f)) = unat (the_ppn p) * 2 ^ 10 + unat f"
proof -
  let ?a = "push_bit PPN_OFFSET (the_ppn p)" and ?b = "ucast f :: usize"
  have a: "unat ?a = unat (the_ppn p) * 2 ^ 10"
  proof -
    have "unat (the_ppn p * 2 ^ 10) = unat (the_ppn p) * 2 ^ 10"
      using assms by (subst unat_mult_no_wrap) simp_all
    then show ?thesis by (simp add: push_bit_eq_mult PPN_OFFSET_def)
  qed
  have b: "unat ?b = unat f"
    using unat_u8_bound [of f] by (simp add: unsigned_ucast_eq take_bit_nat_eq_self)
  have "?a AND ?b = 0"
    by (rule bit_word_eqI) (auto simp: bit_simps PPN_OFFSET_def dest: bit_imp_le_length)
  then have "?a OR ?b = ?a + ?b" by (simp add: disjunctive_add_eq_or)
  then show ?thesis
    using assms unat_u8_bound [of f] a b
    by (simp add: PageTableEntry_new_def unat_add_no_wrap)
qed

lemma PageTableEntry_ppn_new [simp]:
  assumes "unat (the_ppn p) < 2 ^ 44"
  shows "PageTableEntry_ppn (PageTableEntry_new p f) = p"
  using assms unat_u8_bound [of f]
  by (simp add: PhysPageNum_eq_iff unat_PageTableEntry_ppn bits_PageTableEntry_new)

lemma PageTableEntry_flags_new [simp]: "PageTableEntry_flags (PageTableEntry_new p f) = f"
  by (rule bit_word_eqI)
    (auto simp: PageTableEntry_flags_eq PageTableEntry_new_def bit_simps PPN_OFFSET_def)

lemma PageTableEntry_is_valid_new [simp]:
  "PageTableEntry_is_valid (PageTableEntry_new p (f OR PTE_V))"
proof -
  have "bit ((f OR PTE_V) AND PTE_V) 0" by (simp add: bit_simps PTE_V_def)
  then show ?thesis by (auto simp: PageTableEntry_is_valid_def)
qed

lemma PageTableEntry_is_valid_new_V [simp]: "PageTableEntry_is_valid (PageTableEntry_new p PTE_V)"
  using PageTableEntry_is_valid_new [of p 0] by simp

lemma PageTableEntry_empty_invalid [simp]: "\<not> PageTableEntry_is_valid PageTableEntry_empty"
  by (simp add: PageTableEntry_is_valid_def PageTableEntry_flags_eq PageTableEntry_empty_def)

section \<open>Walks, and the tree invariant\<close>

text \<open>The address of slot \<open>i\<close> of a table, the entry there, and the table a path of indexes leads to.\<close>

definition slot :: "PhysPageNum \<Rightarrow> nat \<Rightarrow> nat" where
  "slot p i = unat (the_ppn p) * 4096 + 8 * i"

definition pte_at :: "memory \<Rightarrow> PhysPageNum \<Rightarrow> nat \<Rightarrow> PageTableEntry" where
  "pte_at m p i = load_pte m (slot p i)"

fun pt_walk :: "memory \<Rightarrow> PhysPageNum \<Rightarrow> nat list \<Rightarrow> PhysPageNum option" where
  "pt_walk m p [] = Some p"
| "pt_walk m p (i # is) =
     (if PageTableEntry_is_valid (pte_at m p i)
      then pt_walk m (PageTableEntry_ppn (pte_at m p i)) is else None)"

definition table_path :: "nat list \<Rightarrow> bool" where
  "table_path \<pi> \<longleftrightarrow> length \<pi> \<le> 2 \<and> (\<forall>i \<in> set \<pi>. i < 512)"

text \<open>
  \<open>pt_wf l pt s\<close>: the frames of the table are in use in the frame allocator that manages
  the frames from \<open>l\<close> on, every table reachable from the root within two steps is one of
  them, and no table is reached along two paths.
\<close>

definition pt_wf :: "nat \<Rightarrow> PageTable \<Rightarrow> mm_state \<Rightarrow> bool" where
  "pt_wf l pt s \<longleftrightarrow>
     fa_inv l (FRAME_ALLOCATOR s)
     \<and> set (pt_frames pt) \<subseteq> fa_live l (FRAME_ALLOCATOR s)
     \<and> (\<forall>\<pi> q. table_path \<pi> \<longrightarrow> pt_walk (mem s) (root_ppn pt) \<pi> = Some q \<longrightarrow> q \<in> set (pt_frames pt))
     \<and> (\<forall>\<pi> \<rho> q. table_path \<pi> \<longrightarrow> table_path \<rho>
          \<longrightarrow> pt_walk (mem s) (root_ppn pt) \<pi> = Some q
          \<longrightarrow> pt_walk (mem s) (root_ppn pt) \<rho> = Some q \<longrightarrow> \<pi> = \<rho>)"

lemma pt_walk_append:
  "pt_walk m p (xs @ ys) = Option.bind (pt_walk m p xs) (\<lambda>q. pt_walk m q ys)"
  by (induction xs arbitrary: p) auto

lemma pt_walk_snoc:
  "pt_walk m p (xs @ [i]) =
     Option.bind (pt_walk m p xs) (\<lambda>q.
       if PageTableEntry_is_valid (pte_at m q i) then Some (PageTableEntry_ppn (pte_at m q i)) else None)"
  by (simp add: pt_walk_append split: Option.bind_split)

lemma pt_walk_cong:
  assumes "\<And>\<pi> i \<sigma> q. \<rho> = \<pi> @ i # \<sigma> \<Longrightarrow> pt_walk m p \<pi> = Some q \<Longrightarrow> pte_at m' q i = pte_at m q i"
  shows "pt_walk m' p \<rho> = pt_walk m p \<rho>"
  using assms
proof (induction \<rho> arbitrary: p)
  case (Cons j \<rho>)
  have j: "pte_at m' p j = pte_at m p j" using Cons.prems [of "[]"] by simp
  show ?case
  proof (cases "PageTableEntry_is_valid (pte_at m p j)")
    case True
    have "pt_walk m' (PageTableEntry_ppn (pte_at m p j)) \<rho> = pt_walk m (PageTableEntry_ppn (pte_at m p j)) \<rho>"
      using True Cons.prems [of "j # _"] by (intro Cons.IH) simp
    with j True show ?thesis by simp
  qed (simp add: j)
qed simp

lemma slot_disjoint:
  "i < 512 \<Longrightarrow> j < 512 \<Longrightarrow> p \<noteq> q \<or> i \<noteq> j \<Longrightarrow> slot p i + 8 \<le> slot q j \<or> slot q j + 8 \<le> slot p i"
proof -
  assume i: "i < 512" and j: "j < 512" and neq: "p \<noteq> q \<or> i \<noteq> j"
  define a b where "a = unat (the_ppn p)" and "b = unat (the_ppn q)"
  have "a \<noteq> b \<or> i \<noteq> j" using neq by (simp add: a_def b_def PhysPageNum_eq_iff)
  with i j have "a * 4096 + 8 * i + 8 \<le> b * 4096 + 8 * j \<or> b * 4096 + 8 * j + 8 \<le> a * 4096 + 8 * i"
    by (cases a b rule: linorder_cases) auto
  then show ?thesis by (simp add: slot_def a_def b_def)
qed

lemma slot_in_frame: "i < 512 \<Longrightarrow> {slot p i..<slot p i + 8} \<subseteq> frame_bytes p"
  by (auto simp: slot_def frame_bytes_def)

lemma get_pte_array_slot:
  "unat (the_ppn p) < 2 ^ 52 \<Longrightarrow> i < 512 \<Longrightarrow> PhysPageNum_get_pte_array p ! i = slot p i"
  by (simp add: get_pte_array_nth slot_def unat_PhysAddr_from_PhysPageNum)

lemma pte_at_store:
  assumes "i < 512" "j < 512"
  shows "pte_at (mem (store_pte (slot q i) e s)) p j =
    (if p = q \<and> j = i then e else pte_at (mem s) p j)"
proof (cases "p = q \<and> j = i")
  case True
  then show ?thesis by (simp add: pte_at_def store_pte_def load_pte_def)
next
  case False
  then have "slot p j + 8 \<le> slot q i \<or> slot q i + 8 \<le> slot p j"
    using assms by (intro slot_disjoint) auto
  with False show ?thesis
    by (auto simp: pte_at_def store_pte_def load_pte_def load_store_u64_disjoint)
qed

lemma mem_store_pte:
  assumes "x \<notin> {a..<a + 8}"
  shows "mem (store_pte a e s) x = mem s x"
  using assms by (simp add: store_pte_def store_u64_def) (rule store_bytes_other, auto)

lemma pte_at_frame_alloc:
  assumes "fa_inv l (FRAME_ALLOCATOR s)" "frame_alloc s = (Some f, s')" "i < 512"
  shows "pte_at (mem s') p i = (if p = f then PageTableEntry_empty else pte_at (mem s) p i)"
proof (cases "p = f")
  case True
  have "load_u64 (mem s') (slot f i) = 0"
    using slot_in_frame [OF assms(3), of f] frame_alloc_SomeD(5) [OF assms(1,2)]
    by (intro load_u64_zero) auto
  with True show ?thesis by (simp add: pte_at_def load_pte_def PageTableEntry_empty_def)
next
  case False
  have "load_u64 (mem s') (slot p i) = load_u64 (mem s) (slot p i)"
    using slot_in_frame [OF assms(3), of p] frame_bytes_disjoint [OF False]
      frame_alloc_SomeD(5) [OF assms(1,2)]
    by (intro load_u64_cong) auto
  with False show ?thesis by (simp add: pte_at_def load_pte_def)
qed

subsection \<open>Consequences of the invariant\<close>

lemma pt_wf_inv: "pt_wf l pt s \<Longrightarrow> fa_inv l (FRAME_ALLOCATOR s)"
  by (simp add: pt_wf_def)

lemma pt_wf_table:
  assumes "pt_wf l pt s" "table_path \<pi>" "pt_walk (mem s) (root_ppn pt) \<pi> = Some q"
  shows "q \<in> set (pt_frames pt)" and "q \<in> fa_live l (FRAME_ALLOCATOR s)" and "unat (the_ppn q) < 2 ^ 44"
  using assms fa_live_bound [of l "FRAME_ALLOCATOR s" q] by (auto simp: pt_wf_def)

lemma pt_wf_inj:
  assumes "pt_wf l pt s" "table_path \<pi>" "table_path \<rho>"
    "pt_walk (mem s) (root_ppn pt) \<pi> = Some q" "pt_walk (mem s) (root_ppn pt) \<rho> = Some q"
  shows "\<pi> = \<rho>"
  using assms unfolding pt_wf_def by blast

lemma table_path_Nil [simp]: "table_path []"
  by (simp add: table_path_def)

lemma table_path_appendD: "table_path (\<pi> @ \<rho>) \<Longrightarrow> table_path \<pi>"
  by (auto simp: table_path_def)

lemma table_path_snoc: "table_path (\<pi> @ [i]) \<longleftrightarrow> length \<pi> < 2 \<and> (\<forall>j \<in> set \<pi>. j < 512) \<and> i < 512"
  by (auto simp: table_path_def)

lemma pt_walk_store_other:
  assumes wf: "pt_wf l pt s" and \<rho>: "table_path \<rho>"
    and \<pi>: "table_path \<pi>" "pt_walk (mem s) (root_ppn pt) \<pi> = Some q"
    and upd: "\<And>p j. j < 512 \<Longrightarrow> p \<in> set (pt_frames pt) \<Longrightarrow> p \<noteq> q \<or> j \<noteq> i \<Longrightarrow> pte_at m' p j = pte_at (mem s) p j"
    and np: "\<not> prefix (\<pi> @ [i]) \<rho>"
  shows "pt_walk m' (root_ppn pt) \<rho> = pt_walk (mem s) (root_ppn pt) \<rho>"
proof (rule pt_walk_cong)
  fix \<pi>' j \<sigma> p
  assume split: "\<rho> = \<pi>' @ j # \<sigma>" and walk: "pt_walk (mem s) (root_ppn pt) \<pi>' = Some p"
  have \<pi>': "table_path \<pi>'" "j < 512" using \<rho> split by (auto simp: table_path_def)
  have "p \<noteq> q \<or> j \<noteq> i"
  proof (rule ccontr)
    assume "\<not> (p \<noteq> q \<or> j \<noteq> i)"
    then have "\<pi>' = \<pi>" "j = i" using pt_wf_inj [OF wf \<pi>'(1) \<pi>(1)] walk \<pi>(2) by auto
    with split np show False by simp
  qed
  with \<pi>' pt_wf_table(1) [OF wf \<pi>'(1) walk] show "pte_at m' p j = pte_at (mem s) p j"
    by (intro upd)
qed

subsection \<open>The leaf entries\<close>

definition pt_leaf :: "memory \<Rightarrow> PhysPageNum \<Rightarrow> nat list \<Rightarrow> nat \<Rightarrow> PageTableEntry option" where
  "pt_leaf m r \<pi> i =
     (case pt_walk m r \<pi> of
        None \<Rightarrow> None
      | Some q \<Rightarrow> if PageTableEntry_is_valid (pte_at m q i) then Some (pte_at m q i) else None)"

definition leaf_path :: "nat list \<Rightarrow> bool" where
  "leaf_path \<pi> \<longleftrightarrow> length \<pi> = 2 \<and> table_path \<pi>"

text \<open>
  What the extension of a table by missing inner tables may change: it keeps the leaves,
  takes only frames that were not in use, and writes only to frames of the table.
\<close>

definition pt_extends :: "nat \<Rightarrow> PageTable \<times> mm_state \<Rightarrow> PageTable \<times> mm_state \<Rightarrow> bool" where
  "pt_extends l = (\<lambda>(pt, s) (pt', s').
     root_ppn pt' = root_ppn pt
     \<and> set (pt_frames pt) \<subseteq> set (pt_frames pt')
     \<and> (set (pt_frames pt') - set (pt_frames pt)) \<inter> fa_live l (FRAME_ALLOCATOR s) = {}
     \<and> fa_live l (FRAME_ALLOCATOR s') =
         fa_live l (FRAME_ALLOCATOR s) \<union> (set (pt_frames pt') - set (pt_frames pt))
     \<and> (\<forall>\<rho> j. leaf_path \<rho> \<longrightarrow> j < 512 \<longrightarrow>
          pt_leaf (mem s') (root_ppn pt) \<rho> j = pt_leaf (mem s) (root_ppn pt) \<rho> j)
     \<and> (\<forall>x. x \<notin> \<Union> (frame_bytes ` set (pt_frames pt')) \<longrightarrow> mem s' x = mem s x))"

lemma pt_extends_refl: "pt_extends l c c"
  by (auto simp: pt_extends_def)

lemma pt_extends_trans:
  assumes "pt_extends l (pt, s) (pt', s')" "pt_extends l (pt', s') (pt'', s'')"
  shows "pt_extends l (pt, s) (pt'', s'')"
  using assms unfolding pt_extends_def by auto blast

subsection \<open>Grafting a new table\<close>

text \<open>
  The effect on entries of zero-filling a new frame \<open>f\<close> and pointing the slot \<open>i\<close> of
  table \<open>q\<close> at it.
\<close>

definition grafted :: "PhysPageNum \<Rightarrow> nat \<Rightarrow> PhysPageNum \<Rightarrow> memory \<Rightarrow> memory \<Rightarrow> bool" where
  "grafted q i f m m' \<longleftrightarrow>
     (\<forall>p j. j < 512 \<longrightarrow> pte_at m' p j =
        (if p = q \<and> j = i then PageTableEntry_new f PTE_V
         else if p = f then PageTableEntry_empty else pte_at m p j))"

lemma graft_walk:
  assumes wf: "pt_wf l pt s" and path: "table_path (\<pi> @ [i])"
    and q: "pt_walk (mem s) (root_ppn pt) \<pi> = Some q"
    and f: "f \<notin> fa_live l (FRAME_ALLOCATOR s)" "unat (the_ppn f) < 2 ^ 44"
    and g: "grafted q i f (mem s) m'" and \<rho>: "table_path \<rho>"
  shows "pt_walk m' (root_ppn pt) \<rho> =
    (if prefix (\<pi> @ [i]) \<rho> then (if \<rho> = \<pi> @ [i] then Some f else None)
     else pt_walk (mem s) (root_ppn pt) \<rho>)"
proof -
  have \<pi>: "table_path \<pi>" "i < 512" using path by (auto simp: table_path_snoc table_path_def)
  have notf: "p \<noteq> f" if "p \<in> set (pt_frames pt)" for p
    using that wf f(1) by (auto simp: pt_wf_def)
  then have qf: "q \<noteq> f" using pt_wf_table(1) [OF wf \<pi>(1) q] by simp
  have other: "pt_walk m' (root_ppn pt) \<sigma> = pt_walk (mem s) (root_ppn pt) \<sigma>"
    if "table_path \<sigma>" "\<not> prefix (\<pi> @ [i]) \<sigma>" for \<sigma>
    by (rule pt_walk_store_other [OF wf that(1) \<pi>(1) q _ that(2)])
      (use g notf in \<open>auto simp: grafted_def\<close>)
  have here: "pt_walk m' (root_ppn pt) (\<pi> @ [i]) = Some f"
    using other [OF \<pi>(1)] q g \<pi>(2) f(2) by (simp add: pt_walk_snoc grafted_def)
  have "pt_walk m' (root_ppn pt) \<rho> = None" if "prefix (\<pi> @ [i]) \<rho>" "\<rho> \<noteq> \<pi> @ [i]"
  proof -
    from that obtain j \<sigma> where s: "\<rho> = (\<pi> @ [i]) @ j # \<sigma>"
      by (metis append.right_neutral neq_Nil_conv prefixE)
    then have "j < 512" using \<rho> by (simp add: table_path_def)
    then have "\<not> PageTableEntry_is_valid (pte_at m' f j)"
      using g qf by (simp add: grafted_def)
    then show ?thesis
      using here unfolding s pt_walk_append [of _ _ "\<pi> @ [i]"] by simp
  qed
  with other [OF \<rho>] here show ?thesis by auto
qed

lemma graft_leaf:
  assumes wf: "pt_wf l pt s" and path: "table_path (\<pi> @ [i])"
    and q: "pt_walk (mem s) (root_ppn pt) \<pi> = Some q"
    and invalid: "\<not> PageTableEntry_is_valid (pte_at (mem s) q i)"
    and f: "f \<notin> fa_live l (FRAME_ALLOCATOR s)" "unat (the_ppn f) < 2 ^ 44"
    and g: "grafted q i f (mem s) m'" and \<rho>: "leaf_path \<rho>" and j: "j < 512"
  shows "pt_leaf m' (root_ppn pt) \<rho> j = pt_leaf (mem s) (root_ppn pt) \<rho> j"
proof -
  have \<pi>: "table_path \<pi>" and t\<rho>: "table_path \<rho>" and neq: "\<rho> \<noteq> \<pi>"
    using path \<rho> by (auto simp: table_path_snoc table_path_def leaf_path_def)
  note walk = graft_walk [OF wf path q f g t\<rho>]
  have qf: "q \<noteq> f" using pt_wf_table(2) [OF wf \<pi> q] f(1) by auto
  show ?thesis
  proof (cases "prefix (\<pi> @ [i]) \<rho>")
    case True
    then have "pt_walk (mem s) (root_ppn pt) \<rho> = None"
      using q invalid by (auto simp: prefix_def pt_walk_append)
    moreover have "\<not> PageTableEntry_is_valid (pte_at m' f j)"
      using g j qf by (simp add: grafted_def)
    ultimately show ?thesis using True walk by (simp add: pt_leaf_def)
  next
    case False
    have "pte_at m' p j = pte_at (mem s) p j" if "pt_walk (mem s) (root_ppn pt) \<rho> = Some p" for p
      using g j pt_wf_inj [OF wf t\<rho> \<pi> that] q neq pt_wf_table(2) [OF wf t\<rho> that] f(1)
      by (auto simp: grafted_def)
    with False walk show ?thesis by (simp add: pt_leaf_def split: option.splits)
  qed
qed

lemma graft_wf:
  assumes wf: "pt_wf l pt s" and path: "table_path (\<pi> @ [i])"
    and q: "pt_walk (mem s) (root_ppn pt) \<pi> = Some q"
    and f: "f \<notin> fa_live l (FRAME_ALLOCATOR s)" "unat (the_ppn f) < 2 ^ 44"
    and g: "grafted q i f (mem s) (mem s')"
    and fa: "fa_inv l (FRAME_ALLOCATOR s')"
      "fa_live l (FRAME_ALLOCATOR s') = insert f (fa_live l (FRAME_ALLOCATOR s))"
  shows "pt_wf l (pt\<lparr>pt_frames := pt_frames pt @ [f]\<rparr>) s'"
proof -
  note walk = graft_walk [OF wf path q f g]
  have old: "\<rho> = \<pi> @ [i] \<and> p = f \<or> \<rho> \<noteq> \<pi> @ [i] \<and> pt_walk (mem s) (root_ppn pt) \<rho> = Some p"
    if "table_path \<rho>" "pt_walk (mem s') (root_ppn pt) \<rho> = Some p" for \<rho> p
    using walk [OF that(1)] that(2) by (auto split: if_splits)
  have inj: "\<rho> = \<rho>'"
    if "table_path \<rho>" "table_path \<rho>'" "pt_walk (mem s') (root_ppn pt) \<rho> = Some p"
      "pt_walk (mem s') (root_ppn pt) \<rho>' = Some p" for \<rho> \<rho>' p
    using old [OF that(1,3)] old [OF that(2,4)] pt_wf_inj [OF wf that(1,2)]
      pt_wf_table(2) [OF wf that(1), of p] pt_wf_table(2) [OF wf that(2), of p] f(1)
    by auto
  have tables: "p = f \<or> p \<in> set (pt_frames pt)"
    if "table_path \<rho>" "pt_walk (mem s') (root_ppn pt) \<rho> = Some p" for \<rho> p
    using old [OF that] pt_wf_table(1) [OF wf that(1), of p] by auto
  have "set (pt_frames pt) \<subseteq> fa_live l (FRAME_ALLOCATOR s)" using wf by (simp add: pt_wf_def)
  then show ?thesis
    using fa tables inj unfolding pt_wf_def by simp blast
qed

lemma create_step:
  assumes wf: "pt_wf l pt s" and path: "table_path (\<pi> @ [i])"
    and q: "pt_walk (mem s) (root_ppn pt) \<pi> = Some q"
    and invalid: "\<not> PageTableEntry_is_valid (pte_at (mem s) q i)"
    and alloc: "frame_alloc s = (Some f, s1)"
  defines "s2 \<equiv> store_pte (slot q i) (PageTableEntry_new f PTE_V) s1"
    and "pt' \<equiv> pt\<lparr>pt_frames := pt_frames pt @ [f]\<rparr>"
  shows "pt_wf l pt' s2" and "pt_walk (mem s2) (root_ppn pt') (\<pi> @ [i]) = Some f"
    and "pt_extends l (pt, s) (pt', s2)" and "load_pte (mem s2) (slot q i) = PageTableEntry_new f PTE_V"
    and "unat (the_ppn f) < 2 ^ 44"
proof -
  note inv = pt_wf_inv [OF wf]
  note fr = frame_alloc_SomeD [OF inv alloc]
  have \<pi>: "table_path \<pi>" "i < 512" using path by (auto simp: table_path_snoc table_path_def)
  note tq = pt_wf_table [OF wf \<pi>(1) q]
  have g: "grafted q i f (mem s) (mem s2)"
    using \<pi>(2) unfolding grafted_def s2_def
    by (simp add: pte_at_store pte_at_frame_alloc [OF inv alloc])
  have fa: "FRAME_ALLOCATOR s2 = FRAME_ALLOCATOR s1" by (simp add: s2_def store_pte_def)
  show "pt_wf l pt' s2"
    unfolding pt'_def using graft_wf [OF wf path q fr(1,4) g] fr(2,3) fa by simp
  show "pt_walk (mem s2) (root_ppn pt') (\<pi> @ [i]) = Some f"
    using graft_walk [OF wf path q fr(1,4) g path] by (simp add: pt'_def)
  show "load_pte (mem s2) (slot q i) = PageTableEntry_new f PTE_V"
    by (simp add: s2_def store_pte_def load_pte_def)
  have memo: "mem s2 x = mem s x" if "x \<notin> \<Union> (frame_bytes ` set (pt_frames pt'))" for x
  proof -
    have "x \<notin> frame_bytes f" "x \<notin> {slot q i..<slot q i + 8}"
      using that tq(1) slot_in_frame [OF \<pi>(2), of q] by (auto simp: pt'_def)
    then show ?thesis using fr(5) [of x] by (simp add: s2_def mem_store_pte)
  qed
  have "f \<notin> set (pt_frames pt)" using wf fr(1) by (auto simp: pt_wf_def)
  then show "pt_extends l (pt, s) (pt', s2)"
    using graft_leaf [OF wf path q invalid fr(1,4) g] memo fr(1,2) fa
    by (auto simp: pt_extends_def pt'_def)
  show "unat (the_ppn f) < 2 ^ 44" by (rule fr(4))
qed

section \<open>The walks of the source\<close>

definition vpn_path :: "VirtPageNum \<Rightarrow> nat list" where
  "vpn_path vpn = map unat (butlast (VirtPageNum_indexes vpn))"

definition vpn_leaf :: "VirtPageNum \<Rightarrow> nat" where
  "vpn_leaf vpn = unat (last (VirtPageNum_indexes vpn))"

lemma VirtPageNum_indexes_digitsE:
  obtains i0 i1 i2 where "VirtPageNum_indexes p = [i0, i1, i2]"
    "unat i0 < 512" "unat i1 < 512" "unat i2 < 512"
    "vpn_path p = [unat i0, unat i1]" "vpn_leaf p = unat i2"
    "unat i0 * 2 ^ 18 + unat i1 * 2 ^ 9 + unat i2 = unat (the_vpn p) mod 2 ^ 27"
  using indexes_digits [of p] by (auto simp: vpn_path_def vpn_leaf_def)

lemma leaf_path_vpn [simp]: "leaf_path (vpn_path vpn)"
  by (rule VirtPageNum_indexes_digitsE [of vpn]) (simp add: leaf_path_def table_path_def)

lemma vpn_leaf_bound [simp]: "vpn_leaf vpn < 512"
  by (rule VirtPageNum_indexes_digitsE [of vpn]) simp

text \<open>Two page numbers have the same walk exactly if their low 27 bits agree.\<close>

lemma vpn_path_inj:
  assumes "vpn_path u = vpn_path v" "vpn_leaf u = vpn_leaf v"
  shows "unat (the_vpn u) mod 2 ^ 27 = unat (the_vpn v) mod 2 ^ 27"
  using assms
  by (rule_tac VirtPageNum_indexes_digitsE [of u], rule_tac VirtPageNum_indexes_digitsE [of v]) simp

lemma digit_inj:
  assumes eq: "x * 512 + c = y * 512 + (c' :: nat)" and "c < 512" "c' < 512"
  shows "x = y \<and> c = c'"
proof -
  from arg_cong [OF eq, of "\<lambda>n. n mod 512"] assms(2,3) have "c = c'" by simp
  with eq show ?thesis by simp
qed

lemma digits_inj:
  assumes "a * 2 ^ 18 + b * 2 ^ 9 + c = a' * 2 ^ 18 + b' * 2 ^ 9 + (c' :: nat)"
    and "b < 512" "c < 512" "b' < 512" "c' < 512"
  shows "a = a' \<and> b = b' \<and> c = c'"
proof -
  have "(a * 512 + b) * 512 + c = (a' * 512 + b') * 512 + c'" using assms(1) by simp
  then have "a * 512 + b = a' * 512 + b'" "c = c'" using digit_inj assms(3,5) by blast+
  then show ?thesis using digit_inj [of a b a' b'] assms(2,4) by simp
qed

lemma vpn_path_mod_eq:
  assumes "unat (the_vpn u) mod 2 ^ 27 = unat (the_vpn v) mod 2 ^ 27"
  shows "vpn_path u = vpn_path v \<and> vpn_leaf u = vpn_leaf v"
proof -
  obtain i0 i1 i2 where i: "VirtPageNum_indexes u = [i0, i1, i2]"
    "unat i0 < 512" "unat i1 < 512" "unat i2 < 512"
    "vpn_path u = [unat i0, unat i1]" "vpn_leaf u = unat i2"
    "unat i0 * 2 ^ 18 + unat i1 * 2 ^ 9 + unat i2 = unat (the_vpn u) mod 2 ^ 27"
    by (rule VirtPageNum_indexes_digitsE [of u])
  obtain j0 j1 j2 where j: "VirtPageNum_indexes v = [j0, j1, j2]"
    "unat j0 < 512" "unat j1 < 512" "unat j2 < 512"
    "vpn_path v = [unat j0, unat j1]" "vpn_leaf v = unat j2"
    "unat j0 * 2 ^ 18 + unat j1 * 2 ^ 9 + unat j2 = unat (the_vpn v) mod 2 ^ 27"
    by (rule VirtPageNum_indexes_digitsE [of v])
  show ?thesis
    using digits_inj [of "unat i0" "unat i1" "unat i2" "unat j0" "unat j1" "unat j2"] i j assms
    by simp
qed

lemma find_pte_loop_walk:
  assumes "length idxs + i = 3" "idxs \<noteq> []" "\<forall>j \<in> set idxs. unat j < 512" "unat (the_ppn p) < 2 ^ 52"
  shows "find_pte_loop p i idxs m =
    map_option (\<lambda>q. slot q (unat (last idxs))) (pt_walk m p (map unat (butlast idxs)))"
  using assms
proof (induction idxs arbitrary: p i)
  case (Cons idx idxs)
  have slot: "PhysPageNum_get_pte_array p ! unat idx = slot p (unat idx)"
    using Cons.prems by (intro get_pte_array_slot) auto
  show ?case
  proof (cases "idxs = []")
    case True
    then show ?thesis using Cons.prems(1) slot by simp
  next
    case False
    then have "i \<noteq> 2" using Cons.prems(1) by (cases idxs) auto
    moreover have "unat (the_ppn (PageTableEntry_ppn e)) < 2 ^ 52" for e
      using PageTableEntry_ppn_bound [of e] by simp
    ultimately show ?thesis
      using Cons.IH [of "Suc i"] Cons.prems False slot by (simp add: Let_def pte_at_def)
  qed
qed simp

lemma find_pte_walk:
  assumes "unat (the_ppn (root_ppn pt)) < 2 ^ 52"
  shows "find_pte pt vpn m =
    map_option (\<lambda>q. slot q (vpn_leaf vpn)) (pt_walk m (root_ppn pt) (vpn_path vpn))"
proof -
  obtain i0 i1 i2 where i: "VirtPageNum_indexes vpn = [i0, i1, i2]"
    "unat i0 < 512" "unat i1 < 512" "unat i2 < 512"
    by (rule VirtPageNum_indexes_digitsE)
  have "find_pte pt vpn m =
    map_option (\<lambda>q. slot q (unat (last (VirtPageNum_indexes vpn))))
      (pt_walk m (root_ppn pt) (map unat (butlast (VirtPageNum_indexes vpn))))"
    unfolding find_pte_def by (rule find_pte_loop_walk) (use i assms in auto)
  then show ?thesis by (simp add: vpn_path_def vpn_leaf_def)
qed

lemma find_pte_create_loop_Ok:
  assumes "pt_wf l pt s" and "pt_walk (mem s) (root_ppn pt) \<pi> = Some ppn" and "table_path \<pi>"
    and "length \<pi> + length idxs = 3" and "idxs \<noteq> []" and "\<forall>j \<in> set idxs. unat j < 512"
    and "find_pte_create_loop ppn (length \<pi>) idxs pt s = Ok (r, pt', s')"
  shows "pt_wf l pt' s' \<and> pt_extends l (pt, s) (pt', s')
    \<and> (\<exists>q. r = Some (slot q (unat (last idxs)))
          \<and> pt_walk (mem s') (root_ppn pt') (\<pi> @ map unat (butlast idxs)) = Some q)"
  using assms
proof (induction idxs arbitrary: \<pi> ppn pt s)
  case (Cons idx idxs)
  note tab = pt_wf_table [OF Cons.prems(1,3,2)]
  have slot: "PhysPageNum_get_pte_array ppn ! unat idx = slot ppn (unat idx)"
    using Cons.prems(6) tab(3) by (intro get_pte_array_slot) auto
  show ?case
  proof (cases "idxs = []")
    case True
    with Cons.prems slot show ?thesis by (auto intro: pt_extends_refl)
  next
    case False
    let ?i = "unat idx"
    have len: "length \<pi> \<noteq> 2" and tp: "table_path (\<pi> @ [?i])"
      using False Cons.prems(3,4,6) by (cases idxs; auto simp: table_path_def)+
    have next_: "length (\<pi> @ [?i]) = Suc (length \<pi>)" "length (\<pi> @ [?i]) + length idxs = 3"
      "\<forall>j \<in> set idxs. unat j < 512"
      using Cons.prems(4,6) by auto
    show ?thesis
    proof (cases "PageTableEntry_is_valid (load_pte (mem s) (slot ppn ?i))")
      case True
      let ?q = "PageTableEntry_ppn (load_pte (mem s) (slot ppn ?i))"
      have "pt_walk (mem s) (root_ppn pt) (\<pi> @ [?i]) = Some ?q"
        using Cons.prems(2) True by (simp add: pt_walk_snoc pte_at_def)
      moreover have "find_pte_create_loop ?q (length (\<pi> @ [?i])) idxs pt s = Ok (r, pt', s')"
        using Cons.prems(7) True len slot by (simp add: Let_def)
      ultimately show ?thesis
        using Cons.IH [OF Cons.prems(1) _ tp next_(2) False next_(3)] False by simp
    next
      case invalid: False
      then obtain f s1 where alloc: "frame_alloc s = (Some f, s1)"
        using Cons.prems(7) len slot by (cases "frame_alloc s"; cases "fst (frame_alloc s)") auto
      note step = create_step [OF Cons.prems(1) tp Cons.prems(2) invalid [folded pte_at_def] alloc]
      have "find_pte_create_loop f (length (\<pi> @ [?i])) idxs
          (pt\<lparr>pt_frames := pt_frames pt @ [f]\<rparr>)
          (store_pte (slot ppn ?i) (PageTableEntry_new f PTE_V) s1) = Ok (r, pt', s')"
        using Cons.prems(7) invalid len slot alloc step(4,5) by (simp add: Let_def)
      from Cons.IH [OF step(1,2) tp next_(2) False next_(3) this] False step(3)
      show ?thesis by (auto intro: pt_extends_trans)
    qed
  qed
qed simp

lemma find_pte_create_Ok:
  assumes "pt_wf l pt s" and "find_pte_create pt vpn s = Ok (r, pt', s')"
  shows "pt_wf l pt' s'" and "pt_extends l (pt, s) (pt', s')"
    and "\<exists>q. r = Some (slot q (vpn_leaf vpn)) \<and> pt_walk (mem s') (root_ppn pt') (vpn_path vpn) = Some q"
proof -
  obtain i0 i1 i2 where i: "VirtPageNum_indexes vpn = [i0, i1, i2]"
    "unat i0 < 512" "unat i1 < 512" "unat i2 < 512" "vpn_path vpn = [unat i0, unat i1]" "vpn_leaf vpn = unat i2"
    by (rule VirtPageNum_indexes_digitsE)
  have "find_pte_create_loop (root_ppn pt) (length []) [i0, i1, i2] pt s = Ok (r, pt', s')"
    using assms(2) by (simp only: find_pte_create_def i(1) list.size(3))
  from find_pte_create_loop_Ok [OF assms(1) _ _ _ _ _ this] i
  show "pt_wf l pt' s'" and "pt_extends l (pt, s) (pt', s')"
    and "\<exists>q. r = Some (slot q (vpn_leaf vpn)) \<and> pt_walk (mem s') (root_ppn pt') (vpn_path vpn) = Some q"
    by simp_all
qed

lemma find_pte_create_loop_is_ok:
  assumes "pt_wf l pt s" and "pt_walk (mem s) (root_ppn pt) \<pi> = Some ppn" and "table_path \<pi>"
    and "length \<pi> + length idxs = 3" and "idxs \<noteq> []" and "\<forall>j \<in> set idxs. unat j < 512"
    and "length idxs - 1 \<le> fa_free (FRAME_ALLOCATOR s)
      \<or> pt_walk (mem s) (root_ppn pt) (\<pi> @ map unat (butlast idxs)) \<noteq> None"
  shows "is_ok (find_pte_create_loop ppn (length \<pi>) idxs pt s)"
  using assms
proof (induction idxs arbitrary: \<pi> ppn pt s)
  case (Cons idx idxs)
  have slot: "PhysPageNum_get_pte_array ppn ! unat idx = slot ppn (unat idx)"
    using Cons.prems(6) pt_wf_table(3) [OF Cons.prems(1,3,2)] by (intro get_pte_array_slot) auto
  show ?case
  proof (cases "idxs = []")
    case True
    with Cons.prems slot show ?thesis by auto
  next
    case False
    let ?i = "unat idx"
    have len: "length \<pi> \<noteq> 2" and tp: "table_path (\<pi> @ [?i])"
      using False Cons.prems(3,4,6) by (cases idxs; auto simp: table_path_def)+
    have next_: "length (\<pi> @ [?i]) = Suc (length \<pi>)" "length (\<pi> @ [?i]) + length idxs = 3"
      "\<forall>j \<in> set idxs. unat j < 512"
      using Cons.prems(4,6) by auto
    show ?thesis
    proof (cases "PageTableEntry_is_valid (load_pte (mem s) (slot ppn ?i))")
      case True
      have "pt_walk (mem s) (root_ppn pt) (\<pi> @ [?i]) =
          Some (PageTableEntry_ppn (load_pte (mem s) (slot ppn ?i)))"
        using Cons.prems(2) True by (simp add: pt_walk_snoc pte_at_def)
      moreover have "length idxs - 1 \<le> fa_free (FRAME_ALLOCATOR s)
          \<or> pt_walk (mem s) (root_ppn pt) ((\<pi> @ [?i]) @ map unat (butlast idxs)) \<noteq> None"
        using Cons.prems(7) False by auto
      ultimately have "is_ok (find_pte_create_loop
          (PageTableEntry_ppn (load_pte (mem s) (slot ppn ?i))) (Suc (length \<pi>)) idxs pt s)"
        using Cons.IH [OF Cons.prems(1) _ tp next_(2) False next_(3)] by simp
      then show ?thesis using True len slot by (simp add: Let_def)
    next
      case invalid: False
      then have "pt_walk (mem s) (root_ppn pt) (\<pi> @ map unat (butlast (idx # idxs))) = None"
        using Cons.prems(2) False by (simp add: pt_walk_append pte_at_def)
      with Cons.prems(7) False have free: "length idxs \<le> fa_free (FRAME_ALLOCATOR s)" by simp
      obtain r s1 where al: "frame_alloc s = (r, s1)" by (cases "frame_alloc s")
      from frame_alloc_fa_free [OF pt_wf_inv [OF Cons.prems(1)] al] free False
      obtain f where r: "r = Some f" and free1: "length idxs - 1 \<le> fa_free (FRAME_ALLOCATOR s1)"
        by (cases r; cases idxs) auto
      note step = create_step [OF Cons.prems(1) tp Cons.prems(2) invalid [folded pte_at_def] al [unfolded r]]
      from Cons.IH [OF step(1,2) tp next_(2) False next_(3)] free1
      have "is_ok (find_pte_create_loop f (Suc (length \<pi>)) idxs
          (pt\<lparr>pt_frames := pt_frames pt @ [f]\<rparr>)
          (store_pte (slot ppn ?i) (PageTableEntry_new f PTE_V) s1))"
        by (simp add: store_pte_def)
      then show ?thesis using invalid len slot al r step(4,5) by (simp add: Let_def)
    qed
  qed
qed simp

lemma find_pte_create_is_ok:
  assumes "pt_wf l pt s"
    and "2 \<le> fa_free (FRAME_ALLOCATOR s) \<or> pt_walk (mem s) (root_ppn pt) (vpn_path vpn) \<noteq> None"
  shows "is_ok (find_pte_create pt vpn s)"
proof -
  obtain i0 i1 i2 where i: "VirtPageNum_indexes vpn = [i0, i1, i2]"
    "unat i0 < 512" "unat i1 < 512" "unat i2 < 512" "vpn_path vpn = [unat i0, unat i1]"
    by (rule VirtPageNum_indexes_digitsE)
  have "is_ok (find_pte_create_loop (root_ppn pt) (length ([] :: nat list)) [i0, i1, i2] pt s)"
  proof (rule find_pte_create_loop_is_ok [OF assms(1)])
    show "length [i0, i1, i2] - 1 \<le> fa_free (FRAME_ALLOCATOR s)
        \<or> pt_walk (mem s) (root_ppn pt) ([] @ map unat (butlast [i0, i1, i2])) \<noteq> None"
      using assms(2) i(5) by (auto simp: numeral_2_eq_2 simp del: pt_walk.simps)
  qed (use i in simp_all)
  then show ?thesis by (simp add: find_pte_create_def i(1) del: find_pte_create_loop.simps)
qed

section \<open>Refinement of a finite map\<close>

text \<open>The abstract contents of a page table: the valid entry a page number translates to, if any.\<close>

definition pt_abs :: "PageTable \<Rightarrow> memory \<Rightarrow> VirtPageNum \<Rightarrow> PageTableEntry option" where
  "pt_abs pt m vpn =
     (case PageTable_translate pt vpn m of
        None \<Rightarrow> None
      | Some e \<Rightarrow> if PageTableEntry_is_valid e then Some e else None)"

lemma pt_wf_root:
  assumes "pt_wf l pt s"
  shows "unat (the_ppn (root_ppn pt)) < 2 ^ 52" and "root_ppn pt \<in> set (pt_frames pt)"
  using pt_wf_table [OF assms table_path_Nil, of "root_ppn pt"] by auto

lemma pt_abs_leaf:
  assumes "unat (the_ppn (root_ppn pt)) < 2 ^ 52"
  shows "pt_abs pt m vpn = pt_leaf m (root_ppn pt) (vpn_path vpn) (vpn_leaf vpn)"
  by (simp add: pt_abs_def PageTable_translate_def find_pte_walk [OF assms] pt_leaf_def pte_at_def
      split: option.splits)

text \<open>Overwriting a leaf entry.\<close>

lemma store_leaf:
  assumes wf: "pt_wf l pt s" and \<pi>: "leaf_path \<pi>"
    and q: "pt_walk (mem s) (root_ppn pt) \<pi> = Some q" and i: "i < 512"
    and s': "s' = store_pte (slot q i) e s"
  shows "pt_wf l pt s'"
    and "leaf_path \<rho> \<Longrightarrow> j < 512 \<Longrightarrow> pt_leaf (mem s') (root_ppn pt) \<rho> j =
      (if \<rho> = \<pi> \<and> j = i then (if PageTableEntry_is_valid e then Some e else None)
       else pt_leaf (mem s) (root_ppn pt) \<rho> j)"
    and "x \<notin> \<Union> (frame_bytes ` set (pt_frames pt)) \<Longrightarrow> mem s' x = mem s x"
proof -
  have t\<pi>: "table_path \<pi>" using \<pi> by (simp add: leaf_path_def)
  have walk: "pt_walk (mem s') (root_ppn pt) \<rho> = pt_walk (mem s) (root_ppn pt) \<rho>"
    if "table_path \<rho>" for \<rho>
  proof (rule pt_walk_store_other [OF wf that t\<pi> q])
    show "\<not> prefix (\<pi> @ [i]) \<rho>"
      using that \<pi> prefix_length_le [of "\<pi> @ [i]" \<rho>] by (auto simp: leaf_path_def table_path_def)
  qed (auto simp: s' pte_at_store i)
  show "pt_wf l pt s'"
    using wf walk unfolding pt_wf_def by (simp add: s' store_pte_def)
  show "pt_leaf (mem s') (root_ppn pt) \<rho> j =
      (if \<rho> = \<pi> \<and> j = i then (if PageTableEntry_is_valid e then Some e else None)
       else pt_leaf (mem s) (root_ppn pt) \<rho> j)" if \<rho>: "leaf_path \<rho>" and j: "j < 512"
  proof -
    have t\<rho>: "table_path \<rho>" using \<rho> by (simp add: leaf_path_def)
    show ?thesis
    proof (cases "pt_walk (mem s) (root_ppn pt) \<rho>")
      case None
      with walk [OF t\<rho>] q show ?thesis by (auto simp: pt_leaf_def)
    next
      case (Some p)
      have "p = q \<longleftrightarrow> \<rho> = \<pi>" using pt_wf_inj [OF wf t\<rho> t\<pi>] Some q by auto
      with walk [OF t\<rho>] Some i j show ?thesis by (simp add: pt_leaf_def s' pte_at_store)
    qed
  qed
  show "mem s' x = mem s x" if "x \<notin> \<Union> (frame_bytes ` set (pt_frames pt))"
    using that pt_wf_table(1) [OF wf t\<pi> q] slot_in_frame [OF i, of q]
    unfolding s' by (intro mem_store_pte) auto
qed

text \<open>Page numbers that the walk does not tell apart.\<close>

definition same_page :: "VirtPageNum \<Rightarrow> VirtPageNum \<Rightarrow> bool" where
  "same_page u v \<longleftrightarrow> unat (the_vpn u) mod 2 ^ 27 = unat (the_vpn v) mod 2 ^ 27"

lemma same_page_refl [simp]: "same_page v v"
  by (simp add: same_page_def)

lemma same_page_path: "vpn_path u = vpn_path v \<and> vpn_leaf u = vpn_leaf v \<longleftrightarrow> same_page u v"
  unfolding same_page_def
proof
  assume "vpn_path u = vpn_path v \<and> vpn_leaf u = vpn_leaf v"
  then show "unat (the_vpn u) mod 2 ^ 27 = unat (the_vpn v) mod 2 ^ 27"
    by (elim conjE) (rule vpn_path_inj)
qed (rule vpn_path_mod_eq)

lemma PageTable_map_OkE:
  assumes "PageTable_map pt vpn ppn flags s = Ok (pt', s')" "pt_wf l pt s"
  obtains s1 q where "find_pte_create pt vpn s = Ok (Some (slot q (vpn_leaf vpn)), pt', s1)"
    "pt_wf l pt' s1" "pt_extends l (pt, s) (pt', s1)"
    "pt_walk (mem s1) (root_ppn pt') (vpn_path vpn) = Some q"
    "\<not> PageTableEntry_is_valid (pte_at (mem s1) q (vpn_leaf vpn))"
    "s' = store_pte (slot q (vpn_leaf vpn)) (PageTableEntry_new ppn (flags OR PTE_V)) s1"
proof -
  from assms(1) obtain r pt1 s1 where c: "find_pte_create pt vpn s = Ok (r, pt1, s1)"
    by (auto simp: PageTable_map_def and_then_eq_Ok_conv)
  note cr = find_pte_create_Ok [OF assms(2) c]
  from cr(3) obtain q where q: "r = Some (slot q (vpn_leaf vpn))"
    "pt_walk (mem s1) (root_ppn pt1) (vpn_path vpn) = Some q" by blast
  from assms(1) c q(1) have fin: "pt' = pt1"
    "\<not> PageTableEntry_is_valid (pte_at (mem s1) q (vpn_leaf vpn))"
    "s' = store_pte (slot q (vpn_leaf vpn)) (PageTableEntry_new ppn (flags OR PTE_V)) s1"
    by (auto simp: PageTable_map_def and_then_eq_Ok_conv pte_at_def)
  show thesis by (rule that [of q s1]) (use c cr q fin in auto)
qed

lemma PageTable_map_Ok:
  assumes wf: "pt_wf l pt s" and map: "PageTable_map pt vpn ppn flags s = Ok (pt', s')"
  shows "pt_wf l pt' s'"
    and "pt_abs pt (mem s) vpn = None"
    and "pt_abs pt' (mem s') v =
      (if same_page v vpn then Some (PageTableEntry_new ppn (flags OR PTE_V)) else pt_abs pt (mem s) v)"
    and "root_ppn pt' = root_ppn pt"
    and "set (pt_frames pt) \<subseteq> set (pt_frames pt')"
    and "(set (pt_frames pt') - set (pt_frames pt)) \<inter> fa_live l (FRAME_ALLOCATOR s) = {}"
    and "fa_live l (FRAME_ALLOCATOR s') =
      fa_live l (FRAME_ALLOCATOR s) \<union> (set (pt_frames pt') - set (pt_frames pt))"
    and "x \<notin> \<Union> (frame_bytes ` set (pt_frames pt')) \<Longrightarrow> mem s' x = mem s x"
proof -
  obtain s1 q where c: "pt_wf l pt' s1" "pt_extends l (pt, s) (pt', s1)"
    "pt_walk (mem s1) (root_ppn pt') (vpn_path vpn) = Some q"
    "\<not> PageTableEntry_is_valid (pte_at (mem s1) q (vpn_leaf vpn))"
    "s' = store_pte (slot q (vpn_leaf vpn)) (PageTableEntry_new ppn (flags OR PTE_V)) s1"
    by (rule PageTable_map_OkE [OF map wf])
  note st = store_leaf [OF c(1) leaf_path_vpn c(3) vpn_leaf_bound c(5)]
  have root: "root_ppn pt' = root_ppn pt" and
    leaf: "pt_leaf (mem s1) (root_ppn pt) (vpn_path v) (vpn_leaf v) =
      pt_leaf (mem s) (root_ppn pt) (vpn_path v) (vpn_leaf v)" for v
    using c(2) by (auto simp: pt_extends_def)
  note abs = pt_abs_leaf [OF pt_wf_root(1) [OF wf]] pt_abs_leaf [OF pt_wf_root(1) [OF c(1)]]
  show "pt_wf l pt' s'" by (rule st(1))
  show "pt_abs pt (mem s) vpn = None"
    using c(3,4) leaf [of vpn] by (simp add: abs root pt_leaf_def)
  show "pt_abs pt' (mem s') v =
      (if same_page v vpn then Some (PageTableEntry_new ppn (flags OR PTE_V)) else pt_abs pt (mem s) v)"
    using st(2) [of "vpn_path v" "vpn_leaf v"] leaf [of v] same_page_path [of v vpn] root
    by (simp add: abs)
  show "root_ppn pt' = root_ppn pt" by (rule root)
  show "set (pt_frames pt) \<subseteq> set (pt_frames pt')"
    "(set (pt_frames pt') - set (pt_frames pt)) \<inter> fa_live l (FRAME_ALLOCATOR s) = {}"
    "fa_live l (FRAME_ALLOCATOR s') =
      fa_live l (FRAME_ALLOCATOR s) \<union> (set (pt_frames pt') - set (pt_frames pt))"
    using c(2) by (auto simp: pt_extends_def c(5) store_pte_def)
  show "mem s' x = mem s x" if "x \<notin> \<Union> (frame_bytes ` set (pt_frames pt'))"
    using that c(2) st(3) [OF that] by (simp add: pt_extends_def)
qed

lemma find_pte_create_loop_free:
  assumes "fa_inv l (FRAME_ALLOCATOR s)" and "find_pte_create_loop ppn i idxs pt s = Ok (r, pt', s')"
    and "length idxs + i \<le> 3"
  shows "fa_free (FRAME_ALLOCATOR s) \<le> fa_free (FRAME_ALLOCATOR s') + (2 - i)"
  using assms
proof (induction idxs arbitrary: ppn i pt s)
  case (Cons idx idxs)
  let ?pte = "PhysPageNum_get_pte_array ppn ! unat idx"
  obtain r1 s1 where al: "frame_alloc s = (r1, s1)" by (cases "frame_alloc s")
  consider "i = 2" | "i \<noteq> 2" "PageTableEntry_is_valid (load_pte (mem s) ?pte)"
    | "i \<noteq> 2" "\<not> PageTableEntry_is_valid (load_pte (mem s) ?pte)" by blast
  then show ?case
  proof cases
    case 1
    then show ?thesis using Cons.prems by simp
  next
    case 2
    then have "fa_free (FRAME_ALLOCATOR s) \<le> fa_free (FRAME_ALLOCATOR s') + (2 - Suc i)"
      using Cons.prems by (intro Cons.IH [where s = s]) (auto simp: Let_def)
    then show ?thesis by simp
  next
    case 3
    with Cons.prems(2) al obtain f where r1: "r1 = Some f" by (cases r1) (auto simp: Let_def)
    note fr = frame_alloc_SomeD(3) [OF Cons.prems(1) al [unfolded r1]]
      frame_alloc_fa_free [OF Cons.prems(1) al]
    let ?s2 = "store_pte ?pte (PageTableEntry_new f PTE_V) s1"
    have "fa_free (FRAME_ALLOCATOR ?s2) \<le> fa_free (FRAME_ALLOCATOR s') + (2 - Suc i)"
      using Cons.prems 3 al r1 fr by (intro Cons.IH [where s = ?s2]) (auto simp: Let_def store_pte_def)
    moreover have "fa_free (FRAME_ALLOCATOR s) = Suc (fa_free (FRAME_ALLOCATOR ?s2))"
      using fr r1 by (simp add: store_pte_def)
    ultimately show ?thesis using 3(1) Cons.prems(3) by simp
  qed
qed simp

lemma PageTable_map_free:
  assumes "pt_wf l pt s" and "PageTable_map pt vpn ppn flags s = Ok (pt', s')"
  shows "fa_free (FRAME_ALLOCATOR s) \<le> fa_free (FRAME_ALLOCATOR s') + 2"
proof -
  obtain s1 q where "find_pte_create pt vpn s = Ok (Some (slot q (vpn_leaf vpn)), pt', s1)"
    and s': "s' = store_pte (slot q (vpn_leaf vpn)) (PageTableEntry_new ppn (flags OR PTE_V)) s1"
    by (rule PageTable_map_OkE [OF assms(2,1)])
  then show ?thesis
    using find_pte_create_loop_free [OF pt_wf_inv [OF assms(1)], of _ 0 "VirtPageNum_indexes vpn"]
    by (auto simp: find_pte_create_def store_pte_def)
qed

lemma PageTable_map_is_ok:
  assumes wf: "pt_wf l pt s" and free: "2 \<le> fa_free (FRAME_ALLOCATOR s)"
    and none: "pt_abs pt (mem s) vpn = None"
  shows "\<exists>pt' s'. PageTable_map pt vpn ppn flags s = Ok (pt', s')"
proof -
  from find_pte_create_is_ok [OF wf disjI1, OF free, of vpn] obtain r pt1 s1 where c: "find_pte_create pt vpn s = Ok (r, pt1, s1)"
    by (cases "find_pte_create pt vpn s") auto
  note cr = find_pte_create_Ok [OF wf c]
  from cr(3) obtain q where q: "r = Some (slot q (vpn_leaf vpn))"
    "pt_walk (mem s1) (root_ppn pt1) (vpn_path vpn) = Some q" by blast
  have "pt_leaf (mem s1) (root_ppn pt1) (vpn_path vpn) (vpn_leaf vpn) = None"
    using none cr(2) pt_abs_leaf [OF pt_wf_root(1) [OF wf]] by (simp add: pt_extends_def)
  with q have "\<not> PageTableEntry_is_valid (load_pte (mem s1) (slot q (vpn_leaf vpn)))"
    by (auto simp: pt_leaf_def pte_at_def split: if_splits)
  with c q show ?thesis by (simp add: PageTable_map_def)
qed

lemma PageTable_map_mapped:
  assumes wf: "pt_wf l pt s" and some: "pt_abs pt (mem s) vpn = Some e"
  shows "PageTable_map pt vpn ppn flags s = Panic AssertFailed"
proof -
  have leaf: "pt_leaf (mem s) (root_ppn pt) (vpn_path vpn) (vpn_leaf vpn) = Some e"
    using some pt_abs_leaf [OF pt_wf_root(1) [OF wf]] by simp
  then have "pt_walk (mem s) (root_ppn pt) (vpn_path vpn) \<noteq> None"
    by (auto simp: pt_leaf_def split: option.splits)
  from find_pte_create_is_ok [OF wf disjI2, OF this] obtain r pt1 s1
    where c: "find_pte_create pt vpn s = Ok (r, pt1, s1)"
    by (cases "find_pte_create pt vpn s") auto
  note cr = find_pte_create_Ok [OF wf c]
  from cr(3) obtain q where q: "r = Some (slot q (vpn_leaf vpn))"
    "pt_walk (mem s1) (root_ppn pt1) (vpn_path vpn) = Some q" by blast
  have "pt_leaf (mem s1) (root_ppn pt1) (vpn_path vpn) (vpn_leaf vpn) = Some e"
    using leaf cr(2) by (simp add: pt_extends_def)
  with q have "PageTableEntry_is_valid (load_pte (mem s1) (slot q (vpn_leaf vpn)))"
    by (auto simp: pt_leaf_def pte_at_def split: if_splits)
  with c q show ?thesis by (simp add: PageTable_map_def)
qed

lemma PageTable_unmap_Ok:
  assumes wf: "pt_wf l pt s" and some: "pt_abs pt (mem s) vpn \<noteq> None"
  shows "\<exists>s'. PageTable_unmap pt vpn s = Ok s' \<and> pt_wf l pt s'
    \<and> FRAME_ALLOCATOR s' = FRAME_ALLOCATOR s
    \<and> (\<forall>v. pt_abs pt (mem s') v = (if same_page v vpn then None else pt_abs pt (mem s) v))
    \<and> (\<forall>x. x \<notin> \<Union> (frame_bytes ` set (pt_frames pt)) \<longrightarrow> mem s' x = mem s x)"
proof -
  note root = pt_wf_root(1) [OF wf]
  from some obtain q where q: "pt_walk (mem s) (root_ppn pt) (vpn_path vpn) = Some q"
    and valid: "PageTableEntry_is_valid (pte_at (mem s) q (vpn_leaf vpn))"
    by (auto simp: pt_abs_leaf [OF root] pt_leaf_def split: option.splits if_splits)
  define s' where "s' = store_pte (slot q (vpn_leaf vpn)) PageTableEntry_empty s"
  note st = store_leaf [OF wf leaf_path_vpn q vpn_leaf_bound s'_def]
  have "PageTable_unmap pt vpn s = Ok s'"
    using q valid by (simp add: PageTable_unmap_def find_pte_walk [OF root] pte_at_def s'_def)
  moreover have "pt_abs pt (mem s') v = (if same_page v vpn then None else pt_abs pt (mem s) v)" for v
    using st(2) [of "vpn_path v" "vpn_leaf v"] same_page_path [of v vpn]
    by (simp add: pt_abs_leaf [OF root])
  ultimately show ?thesis
    using st(1,3) by (auto simp: s'_def store_pte_def)
qed

lemma PageTable_unmap_unmapped:
  assumes wf: "pt_wf l pt s" and none: "pt_abs pt (mem s) vpn = None"
  shows "\<not> is_ok (PageTable_unmap pt vpn s)"
  using none pt_wf_root(1) [OF wf]
  by (auto simp: PageTable_unmap_def find_pte_walk pt_abs_leaf pt_leaf_def pte_at_def
      split: option.splits if_splits)

lemma PageTable_new_Ok:
  assumes "fa_inv l (FRAME_ALLOCATOR s)" and "PageTable_new s = Ok (pt, s')"
  shows "pt_wf l pt s'" and "pt_abs pt (mem s') v = None"
    and "root_ppn pt \<notin> fa_live l (FRAME_ALLOCATOR s)" and "pt_frames pt = [root_ppn pt]"
    and "fa_live l (FRAME_ALLOCATOR s') = insert (root_ppn pt) (fa_live l (FRAME_ALLOCATOR s))"
    and "x \<notin> frame_bytes (root_ppn pt) \<Longrightarrow> mem s' x = mem s x"
proof -
  from assms(2) obtain f where al: "frame_alloc s = (Some f, s')"
    and pt: "pt = \<lparr>root_ppn = f, pt_frames = [f]\<rparr>"
    by (auto simp: PageTable_new_def and_then_eq_Ok_conv split: prod.splits)
  note fr = frame_alloc_SomeD [OF assms(1) al]
  have walk: "pt_walk (mem s') f \<rho> = (if \<rho> = [] then Some f else None)" if "table_path \<rho>" for \<rho>
    using that pte_at_frame_alloc [OF assms(1) al] by (cases \<rho>) (auto simp: table_path_def)
  show "pt_wf l pt s'"
    using fr(2,3) walk by (auto simp: pt_wf_def pt split: if_splits)
  show "pt_abs pt (mem s') v = None"
    using fr(4) walk [of "vpn_path v"] leaf_path_vpn [of v]
    by (auto simp: pt pt_abs_leaf pt_leaf_def leaf_path_def)
  show "root_ppn pt \<notin> fa_live l (FRAME_ALLOCATOR s)" "pt_frames pt = [root_ppn pt]"
    "fa_live l (FRAME_ALLOCATOR s') = insert (root_ppn pt) (fa_live l (FRAME_ALLOCATOR s))"
    using fr(1,2) by (simp_all add: pt)
  show "x \<notin> frame_bytes (root_ppn pt) \<Longrightarrow> mem s' x = mem s x"
    using fr(5) [of x] by (simp add: pt)
qed

section \<open>Properties\<close>

text \<open>
  C17. A successful \<^verbatim>\<open>PageTable::map\<close> refines a map update: the page was not mapped before,
  it then translates to the given frame and flags with the valid bit set, and every other
  page translates as before. The tables stay a tree of frames owned by this page table,
  every frame added to it was not in use, and memory outside its frames is not touched.
\<close>

theorem PageTable_map_refines:
  assumes "pt_wf l pt s" and "PageTable_map pt vpn ppn flags s = Ok (pt', s')"
  shows "pt_wf l pt' s'
    \<and> pt_abs pt (mem s) vpn = None
    \<and> (\<forall>v. pt_abs pt' (mem s') v =
         (if same_page v vpn then Some (PageTableEntry_new ppn (flags OR PTE_V)) else pt_abs pt (mem s) v))
    \<and> root_ppn pt' = root_ppn pt
    \<and> (set (pt_frames pt') - set (pt_frames pt)) \<inter> fa_live l (FRAME_ALLOCATOR s) = {}
    \<and> fa_live l (FRAME_ALLOCATOR s') =
        fa_live l (FRAME_ALLOCATOR s) \<union> (set (pt_frames pt') - set (pt_frames pt))
    \<and> (\<forall>x. x \<notin> \<Union> (frame_bytes ` set (pt_frames pt')) \<longrightarrow> mem s' x = mem s x)"
  using PageTable_map_Ok [OF assms] by simp

text \<open>
  C25. With two frames free (the walk creates at most two tables), \<^verbatim>\<open>PageTable::map\<close> returns
  exactly if the page is not yet mapped, and stops at its assertion otherwise; it uses up
  at most two frames.
\<close>

theorem PageTable_map_outcome:
  assumes "pt_wf l pt s" and "2 \<le> fa_free (FRAME_ALLOCATOR s)"
  shows "case PageTable_map pt vpn ppn flags s of
      Ok (pt', s') \<Rightarrow> pt_abs pt (mem s) vpn = None
        \<and> fa_free (FRAME_ALLOCATOR s) \<le> fa_free (FRAME_ALLOCATOR s') + 2
    | Panic e \<Rightarrow> pt_abs pt (mem s) vpn \<noteq> None \<and> e = AssertFailed"
proof (cases "pt_abs pt (mem s) vpn")
  case None
  with PageTable_map_is_ok [OF assms] obtain pt' s'
    where "PageTable_map pt vpn ppn flags s = Ok (pt', s')" by blast
  with None PageTable_map_free [OF assms(1)] show ?thesis by simp
next
  case (Some e)
  with PageTable_map_mapped [OF assms(1)] show ?thesis by simp
qed

text \<open>
  C24. \<^verbatim>\<open>PageTable::unmap\<close> returns exactly on mapped pages. It then removes that page and no
  other, keeps the tables well formed, allocates and frees nothing, and writes only to the
  frames of the table.
\<close>

theorem PageTable_unmap_refines:
  assumes "pt_wf l pt s"
  shows "case PageTable_unmap pt vpn s of
      Ok s' \<Rightarrow> pt_abs pt (mem s) vpn \<noteq> None \<and> pt_wf l pt s'
        \<and> FRAME_ALLOCATOR s' = FRAME_ALLOCATOR s
        \<and> (\<forall>v. pt_abs pt (mem s') v = (if same_page v vpn then None else pt_abs pt (mem s) v))
        \<and> (\<forall>x. x \<notin> \<Union> (frame_bytes ` set (pt_frames pt)) \<longrightarrow> mem s' x = mem s x)
    | Panic _ \<Rightarrow> pt_abs pt (mem s) vpn = None"
proof (cases "pt_abs pt (mem s) vpn = None")
  case True
  with PageTable_unmap_unmapped [OF assms True] show ?thesis
    by (cases "PageTable_unmap pt vpn s") auto
next
  case False
  from PageTable_unmap_Ok [OF assms this] obtain s' where "PageTable_unmap pt vpn s = Ok s'"
    "pt_wf l pt s'" "FRAME_ALLOCATOR s' = FRAME_ALLOCATOR s"
    "\<forall>v. pt_abs pt (mem s') v = (if same_page v vpn then None else pt_abs pt (mem s) v)"
    "\<forall>x. x \<notin> \<Union> (frame_bytes ` set (pt_frames pt)) \<longrightarrow> mem s' x = mem s x"
    by blast
  with False show ?thesis by simp
qed

lemma find_pte_pt_abs:
  assumes "pt_abs pt m vpn = Some e"
  obtains a where "find_pte pt vpn m = Some a" "load_pte m a = e" "PageTableEntry_is_valid e"
  using assms by (auto simp: pt_abs_def PageTable_translate_def split: option.splits if_splits)

lemma unat_PhysAddr_of_ppn_offset:
  assumes "unat (the_ppn p) < 2 ^ 44" and "unat k < 4096"
  shows "unat (the_pa (PhysAddr_from_usize (the_pa (PhysAddr_from_PhysPageNum p) + k))) =
    unat (the_ppn p) * 4096 + unat k"
proof -
  have p: "unat (the_pa (PhysAddr_from_PhysPageNum p)) = unat (the_ppn p) * 4096"
    using assms(1) by (simp add: unat_PhysAddr_from_PhysPageNum)
  have bound: "unat (the_ppn p) * 4096 + unat k < 2 ^ 56" using assms by simp
  then have "unat (the_pa (PhysAddr_from_PhysPageNum p) + k) = unat (the_ppn p) * 4096 + unat k"
    by (subst unat_add_no_wrap) (simp_all add: p)
  with bound show ?thesis by (simp add: unat_PhysAddr_from_usize)
qed

lemma translate_va_Some:
  assumes "pt_abs pt m (VirtAddr_floor va) = Some e"
  shows "\<exists>pa. PageTable_translate_va pt va m = Some pa
    \<and> unat (the_pa pa) = unat (the_ppn (PageTableEntry_ppn e)) * 4096 + unat (the_va va) mod 4096"
proof -
  from assms obtain a where a: "find_pte pt (VirtAddr_floor va) m = Some a" "load_pte m a = e"
    by (rule find_pte_pt_abs)
  have "unat (VirtAddr_page_offset va) = unat (the_va va) mod 4096"
    by (simp add: unat_VirtAddr_page_offset)
  then show ?thesis
    using unat_PhysAddr_of_ppn_offset [OF PageTableEntry_ppn_bound [of e], of "VirtAddr_page_offset va"] a
    by (simp add: PageTable_translate_va_def Let_def)
qed

lemma root_from_token:
  assumes "unat (the_ppn (root_ppn pt)) < 2 ^ 44"
  shows "root_ppn (PageTable_from_token (PageTable_token pt)) = root_ppn pt"
proof -
  let ?r = "the_ppn (root_ppn pt)"
  have r: "take_bit 44 ?r = ?r"
    using assms by (simp add: word_unat_eq_iff unsigned_take_bit_eq take_bit_nat_eq_self)
  have "take_bit 44 (push_bit 60 8 :: usize) = 0" by (simp add: push_bit_eq_mult)
  then have "take_bit 44 (push_bit 60 8 OR ?r) = ?r" by (simp add: r)
  then have "unat (push_bit 60 8 OR ?r) mod 2 ^ 44 = unat ?r"
    by (metis take_bit_eq_mod unsigned_take_bit_eq)
  then show ?thesis
    by (simp only: PhysPageNum_eq_iff PageTable_from_token_def PageTable_token_def
        PageTable.select_convs unat_PhysPageNum_from_usize)
qed

lemma pt_abs_root_cong: "root_ppn pt = root_ppn pt' \<Longrightarrow> pt_abs pt m v = pt_abs pt' m v"
  by (simp add: pt_abs_def PageTable_translate_def find_pte_def)

text \<open>
  C26. Once a page is mapped, \<^verbatim>\<open>translate_va\<close> takes every address of it to the same offset
  of the mapped frame, also when the table is reached from its \<^verbatim>\<open>satp\<close> token as the system
  calls reach it.
\<close>

theorem PageTable_map_translate_va:
  assumes "pt_wf l pt s" and "PageTable_map pt vpn ppn flags s = Ok (pt', s')"
    and "unat (the_ppn ppn) < 2 ^ 44" and "same_page (VirtAddr_floor va) vpn"
  shows "\<exists>pa. PageTable_translate_va pt' va (mem s') = Some pa
    \<and> PageTable_translate_va (PageTable_from_token (PageTable_token pt')) va (mem s') = Some pa
    \<and> unat (the_pa pa) = unat (the_ppn ppn) * 4096 + unat (the_va va) mod 4096"
proof -
  note map = PageTable_map_Ok [OF assms(1,2)]
  have "unat (the_ppn (root_ppn pt')) < 2 ^ 44"
    using pt_wf_table(3) [OF map(1) table_path_Nil] by simp
  then have "root_ppn (PageTable_from_token (PageTable_token pt')) = root_ppn pt'"
    by (rule root_from_token)
  then have "PageTable_translate_va (PageTable_from_token (PageTable_token pt')) va (mem s') =
      PageTable_translate_va pt' va (mem s')"
    by (simp add: PageTable_translate_va_def find_pte_def)
  moreover have "pt_abs pt' (mem s') (VirtAddr_floor va) = Some (PageTableEntry_new ppn (flags OR PTE_V))"
    using map(3) [of "VirtAddr_floor va"] assms(4) by simp
  from translate_va_Some [OF this] assms(3) obtain pa
    where "PageTable_translate_va pt' va (mem s') = Some pa"
      "unat (the_pa pa) = unat (the_ppn ppn) * 4096 + unat (the_va va) mod 4096" by auto
  ultimately show ?thesis by simp
qed

subsection \<open>Examples\<close>

text \<open>An empty table in the memory of a freshly started machine.\<close>

definition mm_example :: mm_state where
  "mm_example = \<lparr>mem = (\<lambda>x. if x = 0x80500102 then 0 else 7), FRAME_ALLOCATOR = fa_example\<rparr>"

definition pt_example :: PageTable where
  "pt_example = \<lparr>root_ppn = PhysPageNum 0x80600, pt_frames = [PhysPageNum 0x80600]\<rparr>"

definition mm_example1 :: mm_state where
  "mm_example1 = snd (frame_alloc mm_example)"

lemma PageTable_new_example: "PageTable_new mm_example = Ok (pt_example, mm_example1)"
  by (simp add: PageTable_new_def mm_example_def mm_example1_def pt_example_def frame_alloc_def
      fa_example_eq StackFrameAllocator_alloc_def PhysPageNum_from_usize_id)

lemma mm_example_inv: "fa_inv 0x80600 (FRAME_ALLOCATOR mm_example)"
  by (simp add: mm_example_def fa_example_eq fa_inv_def)

lemmas pt_example_wf = PageTable_new_Ok(1,2) [OF mm_example_inv PageTable_new_example]

lemma mm_example1_free: "511 \<le> fa_free (FRAME_ALLOCATOR mm_example1)"
  by (simp add: mm_example_def mm_example1_def frame_alloc_def FrameTracker_new_def
      fa_example_eq StackFrameAllocator_alloc_def fa_free_def)

lemma map_example:
  obtains pt s where "PageTable_map pt_example (VirtPageNum 5) p (PTE_R OR PTE_U) mm_example1 = Ok (pt, s)"
  using PageTable_map_is_ok [OF pt_example_wf(1) _ pt_example_wf(2)] mm_example1_free by fastforce

theorem PageTable_map_refines_witness:
  "case PageTable_map pt_example (VirtPageNum 5) (PhysPageNum 0x80700) (PTE_R OR PTE_U) mm_example1 of
     Ok (pt, s) \<Rightarrow>
       pt_abs pt (mem s) (VirtPageNum 5) = Some (PageTableEntry_new (PhysPageNum 0x80700) (PTE_R OR PTE_U OR PTE_V))
       \<and> pt_abs pt (mem s) (VirtPageNum 6) = None
   | Panic _ \<Rightarrow> False"
proof -
  obtain pt s where m: "PageTable_map pt_example (VirtPageNum 5) (PhysPageNum 0x80700) (PTE_R OR PTE_U) mm_example1 = Ok (pt, s)"
    by (rule map_example)
  have "\<not> same_page (VirtPageNum 6) (VirtPageNum 5)" by (simp add: same_page_def)
  with PageTable_map_refines [OF pt_example_wf(1) m] m show ?thesis
    by (simp add: pt_example_wf(2) or.assoc)
qed

theorem PageTable_map_outcome_witness:
  "is_ok (PageTable_map pt_example (VirtPageNum 5) (PhysPageNum 0x80700) PTE_R mm_example1)"
  using PageTable_map_outcome [OF pt_example_wf(1), of "VirtPageNum 5" "PhysPageNum 0x80700" PTE_R]
    pt_example_wf(2) [of "VirtPageNum 5"] mm_example1_free
  by (auto simp: is_ok_def split: outcome.splits)

theorem PageTable_unmap_refines_witness:
  "\<not> is_ok (PageTable_unmap pt_example (VirtPageNum 5) mm_example1)
   \<and> (case PageTable_map pt_example (VirtPageNum 5) (PhysPageNum 0x80700) (PTE_R OR PTE_U) mm_example1 of
        Ok (pt, s) \<Rightarrow>
          (case PageTable_unmap pt (VirtPageNum 5) s of
             Ok s' \<Rightarrow> pt_abs pt (mem s') (VirtPageNum 5) = None
           | Panic _ \<Rightarrow> False)
      | Panic _ \<Rightarrow> False)"
proof -
  obtain pt s where m: "PageTable_map pt_example (VirtPageNum 5) (PhysPageNum 0x80700) (PTE_R OR PTE_U) mm_example1 = Ok (pt, s)"
    by (rule map_example)
  note mo = PageTable_map_Ok(1,3) [OF pt_example_wf(1) m]
  show ?thesis
    using PageTable_unmap_refines [OF mo(1), of "VirtPageNum 5"] mo(2) [of "VirtPageNum 5"] m
      PageTable_unmap_refines [OF pt_example_wf(1), of "VirtPageNum 5"] pt_example_wf(2) [of "VirtPageNum 5"]
    by (auto split: outcome.splits)
qed

theorem PageTable_map_translate_va_witness:
  "case PageTable_map pt_example (VirtPageNum 5) (PhysPageNum 0x80700) (PTE_R OR PTE_U) mm_example1 of
     Ok (pt, s) \<Rightarrow> PageTable_translate_va pt (VirtAddr 0x5123) (mem s) = Some (PhysAddr 0x80700123)
   | Panic _ \<Rightarrow> False"
proof -
  obtain pt s where m: "PageTable_map pt_example (VirtPageNum 5) (PhysPageNum 0x80700) (PTE_R OR PTE_U) mm_example1 = Ok (pt, s)"
    by (rule map_example)
  have "VirtAddr_floor (VirtAddr 0x5123) = VirtPageNum 5" by code_simp
  then have "same_page (VirtAddr_floor (VirtAddr 0x5123)) (VirtPageNum 5)" by simp
  from PageTable_map_translate_va [OF pt_example_wf(1) m _ this] obtain pa
    where "PageTable_translate_va pt (VirtAddr 0x5123) (mem s) = Some pa"
      "unat (the_pa pa) = 0x80700123" by auto
  moreover from this(2) have "pa = PhysAddr 0x80700123" by (cases pa) (simp add: word_unat_eq_iff)
  ultimately show ?thesis by (simp add: m)
qed

subsection \<open>Translation of unmapped pages\<close>

text \<open>
  \<^verbatim>\<open>translate_va\<close> does not look at the valid bit of the leaf entry: after a page has been
  unmapped its addresses still translate, to the frame with number 0.
\<close>

lemma translate_va_ignores_valid:
  assumes "pt_wf l pt s" and "pt_abs pt (mem s) (VirtAddr_floor va) \<noteq> None"
    and "PageTable_unmap pt (VirtAddr_floor va) s = Ok s'"
  shows "\<exists>pa. PageTable_translate_va pt va (mem s') = Some pa \<and> unat (the_pa pa) = unat (the_va va) mod 4096"
proof -
  note root = pt_wf_root(1) [OF assms(1)]
  from assms(3) obtain a where a: "find_pte pt (VirtAddr_floor va) (mem s) = Some a"
    and s': "s' = store_pte a PageTableEntry_empty s"
    by (auto simp: PageTable_unmap_def and_then_eq_Ok_conv)
  from a obtain q where q: "pt_walk (mem s) (root_ppn pt) (vpn_path (VirtAddr_floor va)) = Some q"
    "a = slot q (vpn_leaf (VirtAddr_floor va))"
    by (auto simp: find_pte_walk [OF root])
  have "pt_walk (mem s') (root_ppn pt) (vpn_path (VirtAddr_floor va)) = Some q"
    unfolding s' q(2)
    by (subst pt_walk_store_other [OF assms(1) _ _ q(1), where i = "vpn_leaf (VirtAddr_floor va)"])
      (use leaf_path_vpn [of "VirtAddr_floor va"] q in \<open>auto simp: leaf_path_def pte_at_store\<close>)
  then have f: "find_pte pt (VirtAddr_floor va) (mem s') = Some a"
    by (simp add: find_pte_walk [OF root] q(2))
  have e: "load_pte (mem s') a = PageTableEntry_empty"
    by (simp add: s' store_pte_def load_pte_def)
  have "unat (the_ppn (PageTableEntry_ppn PageTableEntry_empty)) = 0"
    by (simp add: unat_PageTableEntry_ppn PageTableEntry_empty_def)
  then show ?thesis
    using unat_PhysAddr_of_ppn_offset [of "PageTableEntry_ppn PageTableEntry_empty" "VirtAddr_page_offset va"]
    by (simp add: PageTable_translate_va_def f e Let_def)
qed

end
