(* ===== verification/Memory_Set.thy ===== *)
theory Memory_Set
  imports Page_Table
begin

text \<open>
  Address spaces, \<^verbatim>\<open>src/src/os/src/mm/memory_set.rs\<close>: logical segments (\<^verbatim>\<open>MapArea\<close>) and sets of
  segments with their page table (\<^verbatim>\<open>MemorySet\<close>). The values of the linker symbols and the
  contents of an executable as the \<^verbatim>\<open>xmas_elf\<close> parser gives them are parameters. A frame
  tracker is its frame; where the source drops one, the frame is given back explicitly.
\<close>

section \<open>Segments\<close>

datatype MapType = Identical | Framed

type_synonym MapPermission = u8

definition MP_R :: MapPermission where [const_defs]: "MP_R = push_bit 1 1"
definition MP_W :: MapPermission where [const_defs]: "MP_W = push_bit 2 1"
definition MP_X :: MapPermission where [const_defs]: "MP_X = push_bit 3 1"
definition MP_U :: MapPermission where [const_defs]: "MP_U = push_bit 4 1"

record MapArea =
  vpn_range :: VPNRange
  data_frames :: "(VirtPageNum \<times> PhysPageNum) list"
  map_type :: MapType
  map_perm :: MapPermission

definition MapArea_new :: "VirtAddr \<Rightarrow> VirtAddr \<Rightarrow> MapType \<Rightarrow> MapPermission \<Rightarrow> MapArea" where
  "MapArea_new start_va end_va mt mp =
     \<lparr>vpn_range = SimpleRange_new (VirtAddr_floor start_va) (VirtAddr_ceil end_va),
      data_frames = [], map_type = mt, map_perm = mp\<rparr>"

definition MapArea_from_another :: "MapArea \<Rightarrow> MapArea" where
  "MapArea_from_another a =
     \<lparr>vpn_range = SimpleRange_new (sr_l (vpn_range a)) (sr_r (vpn_range a)),
      data_frames = [], map_type = map_type a, map_perm = map_perm a\<rparr>"

text \<open>Dropping an optional frame tracker, as when an entry of a map is overwritten or removed.\<close>

definition drop_frame :: "PhysPageNum option \<Rightarrow> mm_state \<Rightarrow> mm_state outcome" where
  "drop_frame f s = (case f of None \<Rightarrow> Ok s | Some p \<Rightarrow> frame_dealloc p s)"

definition MapArea_map_one ::
    "MapArea \<Rightarrow> PageTable \<Rightarrow> VirtPageNum \<Rightarrow> mm_state \<Rightarrow> (MapArea \<times> PageTable \<times> mm_state) outcome" where
  "MapArea_map_one a pt vpn s =
     and_then
       (case map_type a of
          Identical \<Rightarrow> Ok (PhysPageNum (the_vpn vpn), a, s)
        | Framed \<Rightarrow>
            (case frame_alloc s of (r, s1) \<Rightarrow>
               and_then (unwrap r) (\<lambda>frame.
               and_then (drop_frame (map_of (data_frames a) vpn) s1) (\<lambda>s2.
               Ok (frame, a\<lparr>data_frames := bt_insert vpn frame (data_frames a)\<rparr>, s2)))))
       (\<lambda>(ppn, a', s').
         and_then (unwrap (PTEFlags_from_bits (map_perm a'))) (\<lambda>pte_flags.
         and_then (PageTable_map pt vpn ppn pte_flags s') (\<lambda>(pt', s'').
         Ok (a', pt', s''))))"

definition MapArea_unmap_one ::
    "MapArea \<Rightarrow> PageTable \<Rightarrow> VirtPageNum \<Rightarrow> mm_state \<Rightarrow> (MapArea \<times> mm_state) outcome" where
  "MapArea_unmap_one a pt vpn s =
     and_then
       (if map_type a = Framed then
          and_then (drop_frame (map_of (data_frames a) vpn) s) (\<lambda>s1.
          Ok (a\<lparr>data_frames := bt_remove vpn (data_frames a)\<rparr>, s1))
        else Ok (a, s))
       (\<lambda>(a', s'). and_then (PageTable_unmap pt vpn s') (\<lambda>s''. Ok (a', s'')))"

fun map_pages ::
    "VirtPageNum list \<Rightarrow> MapArea \<Rightarrow> PageTable \<Rightarrow> mm_state \<Rightarrow> (MapArea \<times> PageTable \<times> mm_state) outcome" where
  "map_pages [] a pt s = Ok (a, pt, s)"
| "map_pages (vpn # vpns) a pt s =
     and_then (MapArea_map_one a pt vpn s) (\<lambda>(a', pt', s'). map_pages vpns a' pt' s')"

definition MapArea_map :: "MapArea \<Rightarrow> PageTable \<Rightarrow> mm_state \<Rightarrow> (MapArea \<times> PageTable \<times> mm_state) outcome" where
  "MapArea_map a pt s = map_pages (VPNRange_list (vpn_range a)) a pt s"

fun unmap_pages ::
    "VirtPageNum list \<Rightarrow> MapArea \<Rightarrow> PageTable \<Rightarrow> mm_state \<Rightarrow> (MapArea \<times> mm_state) outcome" where
  "unmap_pages [] a pt s = Ok (a, s)"
| "unmap_pages (vpn # vpns) a pt s =
     and_then (MapArea_unmap_one a pt vpn s) (\<lambda>(a', s'). unmap_pages vpns a' pt s')"

definition MapArea_unmap :: "MapArea \<Rightarrow> PageTable \<Rightarrow> mm_state \<Rightarrow> (MapArea \<times> mm_state) outcome" where
  "MapArea_unmap a pt s = unmap_pages (VPNRange_list (vpn_range a)) a pt s"

text \<open>The loop of \<^verbatim>\<open>copy_data\<close> from byte \<open>start\<close> of the data on.\<close>

function copy_data_loop ::
    "PageTable \<Rightarrow> u8 list \<Rightarrow> nat \<Rightarrow> VirtPageNum \<Rightarrow> mm_state \<Rightarrow> mm_state outcome" where
  "copy_data_loop pt data start current_vpn s =
     and_then (slice data start (min (length data) (start + unat PAGE_SIZE))) (\<lambda>src.
     and_then (unwrap (PageTable_translate pt current_vpn (mem s))) (\<lambda>pte.
     let dst = unat (the_pa (PhysAddr_from_PhysPageNum (PageTableEntry_ppn pte)));
         s' = s\<lparr>mem := store_bytes (mem s) dst src\<rparr>
     in if start + unat PAGE_SIZE \<ge> length data then Ok s'
        else copy_data_loop pt data (start + unat PAGE_SIZE) (VirtPageNum_step current_vpn) s'))"
  by pat_completeness auto

termination copy_data_loop
  by (relation "measure (\<lambda>(pt, data, start, vpn, s). length data - start)") auto

definition MapArea_copy_data :: "MapArea \<Rightarrow> PageTable \<Rightarrow> u8 list \<Rightarrow> mm_state \<Rightarrow> mm_state outcome" where
  "MapArea_copy_data a pt data s =
     and_then (assert_that (map_type a = Framed)) (\<lambda>_.
       copy_data_loop pt data 0 (sr_l (vpn_range a)) s)"

section \<open>Address spaces\<close>

record MemorySet =
  page_table :: PageTable
  areas :: "MapArea list"

definition new_bare :: "mm_state \<Rightarrow> (MemorySet \<times> mm_state) outcome" where
  "new_bare s = and_then (PageTable_new s) (\<lambda>(pt, s'). Ok (\<lparr>page_table = pt, areas = []\<rparr>, s'))"

definition MemorySet_token :: "MemorySet \<Rightarrow> usize" where
  "MemorySet_token ms = PageTable_token (page_table ms)"

definition MemorySet_push ::
    "MemorySet \<Rightarrow> MapArea \<Rightarrow> u8 list option \<Rightarrow> mm_state \<Rightarrow> (MemorySet \<times> mm_state) outcome" where
  "MemorySet_push ms a data s =
     and_then (MapArea_map a (page_table ms) s) (\<lambda>(a', pt', s').
     and_then (case data of None \<Rightarrow> Ok s' | Some d \<Rightarrow> MapArea_copy_data a' pt' d s') (\<lambda>s''.
     Ok (\<lparr>page_table = pt', areas = areas ms @ [a']\<rparr>, s'')))"

definition insert_framed_area ::
    "MemorySet \<Rightarrow> VirtAddr \<Rightarrow> VirtAddr \<Rightarrow> MapPermission \<Rightarrow> mm_state \<Rightarrow> (MemorySet \<times> mm_state) outcome" where
  "insert_framed_area ms start_va end_va permission s =
     MemorySet_push ms (MapArea_new start_va end_va Framed permission) None s"

text \<open>
  \<^verbatim>\<open>Vec::remove\<close> of the area drops what is left of its data frames.
\<close>

fun drop_frames :: "PhysPageNum list \<Rightarrow> mm_state \<Rightarrow> mm_state outcome" where
  "drop_frames [] s = Ok s"
| "drop_frames (f # fs) s = and_then (frame_dealloc f s) (drop_frames fs)"

fun remove_area :: "VirtPageNum \<Rightarrow> PageTable \<Rightarrow> MapArea list \<Rightarrow> mm_state \<Rightarrow> (MapArea list \<times> mm_state) outcome" where
  "remove_area start_vpn pt [] s = Ok ([], s)"
| "remove_area start_vpn pt (a # as) s =
     (if sr_l (vpn_range a) = start_vpn then
        and_then (MapArea_unmap a pt s) (\<lambda>(a', s').
        and_then (drop_frames (map snd (data_frames a')) s') (\<lambda>s''. Ok (as, s'')))
      else and_then (remove_area start_vpn pt as s) (\<lambda>(as', s'). Ok (a # as', s')))"

definition remove_area_with_start_vpn :: "MemorySet \<Rightarrow> VirtPageNum \<Rightarrow> mm_state \<Rightarrow> (MemorySet \<times> mm_state) outcome" where
  "remove_area_with_start_vpn ms start_vpn s =
     and_then (remove_area start_vpn (page_table ms) (areas ms) s) (\<lambda>(as, s').
       Ok (ms\<lparr>areas := as\<rparr>, s'))"

definition map_trampoline :: "usize \<Rightarrow> MemorySet \<Rightarrow> mm_state \<Rightarrow> (MemorySet \<times> mm_state) outcome" where
  "map_trampoline tramp ms s =
     and_then (VirtPageNum_from_VirtAddr (VirtAddr_from_usize TRAMPOLINE)) (\<lambda>vpn.
     and_then (PhysPageNum_from_PhysAddr (PhysAddr_from_usize tramp)) (\<lambda>ppn.
     and_then (PageTable_map (page_table ms) vpn ppn (PTE_R OR PTE_X) s) (\<lambda>(pt, s').
     Ok (ms\<lparr>page_table := pt\<rparr>, s'))))"

text \<open>The linker symbols.\<close>

record linker =
  stext :: usize
  etext :: usize
  srodata :: usize
  erodata :: usize
  sdata :: usize
  edata :: usize
  sbss_with_stack :: usize
  ebss :: usize
  ekernel :: usize
  strampoline :: usize

definition MMIO :: "(usize \<times> usize) list" where [const_defs]: "MMIO = [(0x10001000, 0x1000)]"

fun push_all :: "MapArea list \<Rightarrow> MemorySet \<Rightarrow> mm_state \<Rightarrow> (MemorySet \<times> mm_state) outcome" where
  "push_all [] ms s = Ok (ms, s)"
| "push_all (a # as) ms s = and_then (MemorySet_push ms a None s) (\<lambda>(ms', s'). push_all as ms' s')"

definition new_kernel :: "linker \<Rightarrow> mm_state \<Rightarrow> (MemorySet \<times> mm_state) outcome" where
  "new_kernel L s =
     and_then (new_bare s) (\<lambda>(ms, s1).
     and_then (map_trampoline (strampoline L) ms s1) (\<lambda>(ms, s2).
     push_all
       ([MapArea_new (VirtAddr_from_usize (stext L)) (VirtAddr_from_usize (etext L)) Identical (MP_R OR MP_X),
         MapArea_new (VirtAddr_from_usize (srodata L)) (VirtAddr_from_usize (erodata L)) Identical MP_R,
         MapArea_new (VirtAddr_from_usize (sdata L)) (VirtAddr_from_usize (edata L)) Identical (MP_R OR MP_W),
         MapArea_new (VirtAddr_from_usize (sbss_with_stack L)) (VirtAddr_from_usize (ebss L)) Identical (MP_R OR MP_W),
         MapArea_new (VirtAddr_from_usize (ekernel L)) (VirtAddr_from_usize MEMORY_END) Identical (MP_R OR MP_W)]
        @ map (\<lambda>(a, n). MapArea_new (VirtAddr_from_usize a) (VirtAddr_from_usize (a + n)) Identical (MP_R OR MP_W)) MMIO)
       ms s2))"

text \<open>What \<^verbatim>\<open>xmas_elf\<close> reports of an executable.\<close>

record program_header =
  ph_load :: bool
  virtual_addr :: u64
  mem_size :: u64
  ph_offset :: u64
  file_size :: u64
  is_read :: bool
  is_write :: bool
  is_execute :: bool

record ElfFile =
  elf_magic :: "u8 list"
  elf_input :: "u8 list"
  program_headers :: "program_header list"
  entry_point :: u64

definition ph_perm :: "program_header \<Rightarrow> MapPermission" where
  "ph_perm ph =
     MP_U OR (if is_read ph then MP_R else 0) OR (if is_write ph then MP_W else 0)
       OR (if is_execute ph then MP_X else 0)"

fun load_segments ::
    "u8 list \<Rightarrow> program_header list \<Rightarrow> MemorySet \<Rightarrow> VirtPageNum \<Rightarrow> mm_state
      \<Rightarrow> (MemorySet \<times> VirtPageNum \<times> mm_state) outcome" where
  "load_segments input [] ms max_end_vpn s = Ok (ms, max_end_vpn, s)"
| "load_segments input (ph # phs) ms max_end_vpn s =
     (if ph_load ph then
        let a = MapArea_new (VirtAddr_from_usize (virtual_addr ph))
                  (VirtAddr_from_usize (virtual_addr ph + mem_size ph)) Framed (ph_perm ph)
        in and_then (slice input (unat (ph_offset ph)) (unat (ph_offset ph + file_size ph))) (\<lambda>data.
           and_then (MemorySet_push ms a (Some data) s) (\<lambda>(ms', s').
           load_segments input phs ms' (sr_r (vpn_range a)) s'))
      else load_segments input phs ms max_end_vpn s)"

text \<open>
  \<open>parse\<close> is \<^verbatim>\<open>xmas_elf::ElfFile::new\<close>, with the headers that \<^verbatim>\<open>program_header\<close> then returns; a file whose headers the
  library refuses later is one that does not parse.
\<close>

definition from_elf ::
    "(u8 list \<Rightarrow> ElfFile option) \<Rightarrow> usize \<Rightarrow> u8 list \<Rightarrow> mm_state
      \<Rightarrow> ((MemorySet \<times> usize \<times> usize) \<times> mm_state) outcome" where
  "from_elf parse tramp elf_data s =
     and_then (new_bare s) (\<lambda>(ms, s1).
     and_then (map_trampoline tramp ms s1) (\<lambda>(ms, s2).
     and_then (unwrap (parse elf_data)) (\<lambda>elf.
     and_then (assert_that (elf_magic elf = [0x7f, 0x45, 0x4c, 0x46])) (\<lambda>_.
     and_then (load_segments (elf_input elf) (program_headers elf) ms (VirtPageNum 0) s2) (\<lambda>(ms, max_end_vpn, s3).
     let user_stack_bottom = usize_from_VirtAddr (VirtAddr_from_VirtPageNum max_end_vpn) + PAGE_SIZE;
         user_stack_top = user_stack_bottom + USER_STACK_SIZE
     in and_then (push_all
          [MapArea_new (VirtAddr_from_usize user_stack_bottom) (VirtAddr_from_usize user_stack_top) Framed (MP_R OR MP_W OR MP_U),
           MapArea_new (VirtAddr_from_usize TRAP_CONTEXT) (VirtAddr_from_usize TRAMPOLINE) Framed (MP_R OR MP_W)] ms s3) (\<lambda>(ms, s4).
        Ok ((ms, user_stack_top, entry_point elf), s4)))))))"

definition MemorySet_translate :: "MemorySet \<Rightarrow> VirtPageNum \<Rightarrow> memory \<Rightarrow> PageTableEntry option" where
  "MemorySet_translate ms vpn m = PageTable_translate (page_table ms) vpn m"

text \<open>\<^verbatim>\<open>dst_ppn.get_bytes_array().copy_from_slice(src_ppn.get_bytes_array())\<close>.\<close>

definition copy_frame :: "PhysPageNum \<Rightarrow> PhysPageNum \<Rightarrow> mm_state \<Rightarrow> mm_state" where
  "copy_frame src dst s =
     s\<lparr>mem := store_bytes (mem s) (unat (the_pa (PhysAddr_from_PhysPageNum dst)))
               (load_bytes (mem s) (unat (the_pa (PhysAddr_from_PhysPageNum src))) (unat PAGE_SIZE))\<rparr>"

fun copy_pages :: "MemorySet \<Rightarrow> MemorySet \<Rightarrow> VirtPageNum list \<Rightarrow> mm_state \<Rightarrow> mm_state outcome" where
  "copy_pages user_space ms [] s = Ok s"
| "copy_pages user_space ms (vpn # vpns) s =
     and_then (unwrap (MemorySet_translate user_space vpn (mem s))) (\<lambda>src.
     and_then (unwrap (MemorySet_translate ms vpn (mem s))) (\<lambda>dst.
     copy_pages user_space ms vpns (copy_frame (PageTableEntry_ppn src) (PageTableEntry_ppn dst) s)))"

fun copy_areas :: "MemorySet \<Rightarrow> MapArea list \<Rightarrow> MemorySet \<Rightarrow> mm_state \<Rightarrow> (MemorySet \<times> mm_state) outcome" where
  "copy_areas user_space [] ms s = Ok (ms, s)"
| "copy_areas user_space (a # as) ms s =
     and_then (MemorySet_push ms (MapArea_from_another a) None s) (\<lambda>(ms', s').
     and_then (copy_pages user_space ms' (VPNRange_list (vpn_range a)) s') (\<lambda>s''.
     copy_areas user_space as ms' s''))"

definition from_existed_user :: "usize \<Rightarrow> MemorySet \<Rightarrow> mm_state \<Rightarrow> (MemorySet \<times> mm_state) outcome" where
  "from_existed_user tramp user_space s =
     and_then (new_bare s) (\<lambda>(ms, s1).
     and_then (map_trampoline tramp ms s1) (\<lambda>(ms, s2).
     copy_areas user_space (areas user_space) ms s2))"

definition release_areas :: "MemorySet \<Rightarrow> mm_state \<Rightarrow> (MemorySet \<times> mm_state) outcome" where
  "release_areas ms s =
     and_then (drop_frames (concat (map (map snd \<circ> data_frames) (areas ms))) s) (\<lambda>s'.
       Ok (ms\<lparr>areas := []\<rparr>, s'))"

text \<open>Dropping an address space gives back the frames of the page table and of the areas.\<close>

definition MemorySet_drop :: "MemorySet \<Rightarrow> mm_state \<Rightarrow> mm_state outcome" where
  "MemorySet_drop ms s =
     and_then (drop_frames (pt_frames (page_table ms)) s) (\<lambda>s1.
       drop_frames (concat (map (map snd \<circ> data_frames) (areas ms))) s1)"

section \<open>Ownership of frames\<close>

text \<open>
  \<open>writes W s s'\<close>: memory changes only inside the frames \<open>W\<close>. \<open>grows l (own, s) (own', s')\<close>: an owner
  of the frames \<open>own\<close> has taken only frames that nobody used, and memory changes only inside
  its own frames. Every other frame in use keeps its owner and its contents.
\<close>

definition writes :: "PhysPageNum set \<Rightarrow> mm_state \<Rightarrow> mm_state \<Rightarrow> bool" where
  "writes W s s' \<longleftrightarrow> (\<forall>x. x \<notin> \<Union> (frame_bytes ` W) \<longrightarrow> mem s' x = mem s x)"

definition grows :: "nat \<Rightarrow> PhysPageNum set \<times> mm_state \<Rightarrow> PhysPageNum set \<times> mm_state \<Rightarrow> bool" where
  "grows l = (\<lambda>(own, s) (own', s').
     own \<subseteq> own' \<and> own \<subseteq> fa_live l (FRAME_ALLOCATOR s)
     \<and> (own' - own) \<inter> fa_live l (FRAME_ALLOCATOR s) = {}
     \<and> fa_live l (FRAME_ALLOCATOR s') = fa_live l (FRAME_ALLOCATOR s) \<union> (own' - own)
     \<and> fa_inv l (FRAME_ALLOCATOR s') \<and> writes own' s s')"

lemma writes_refl [simp]: "writes W s s"
  by (simp add: writes_def)

lemma writes_trans: "writes W s s' \<Longrightarrow> writes W' s' s'' \<Longrightarrow> writes (W \<union> W') s s''"
  by (simp add: writes_def)

lemma writes_mono: "writes W s s' \<Longrightarrow> W \<subseteq> W' \<Longrightarrow> writes W' s s'"
  by (auto simp: writes_def)

lemma writes_frame:
  assumes "writes W s s'" "q \<notin> W" "x \<in> frame_bytes q"
  shows "mem s' x = mem s x"
proof -
  have "x \<notin> frame_bytes p" if "p \<in> W" for p
  proof -
    have "p \<noteq> q" using that assms(2) by blast
    from frame_bytes_disjoint [OF this] assms(3) show ?thesis by blast
  qed
  with assms(1) show ?thesis by (simp add: writes_def)
qed

lemma grows_refl: "fa_inv l (FRAME_ALLOCATOR s) \<Longrightarrow> own \<subseteq> fa_live l (FRAME_ALLOCATOR s) \<Longrightarrow> grows l (own, s) (own, s)"
  by (auto simp: grows_def)

lemma grows_trans:
  assumes "grows l (own, s) (own', s')" "grows l (own', s') (own'', s'')"
  shows "grows l (own, s) (own'', s'')"
proof -
  have "writes (own' \<union> own'') s s''"
    using assms writes_trans [of own' s s' own'' s''] by (auto simp: grows_def)
  then have "writes own'' s s''" by (rule writes_mono) (use assms in \<open>auto simp: grows_def\<close>)
  then show ?thesis using assms unfolding grows_def by auto
qed

lemma grows_live: "grows l (own, s) (own', s') \<Longrightarrow> own' \<subseteq> fa_live l (FRAME_ALLOCATOR s')"
  by (auto simp: grows_def)

lemma grows_untouched:
  assumes "grows l (own, s) (own', s')" "q \<in> fa_live l (FRAME_ALLOCATOR s)" "q \<notin> own"
  shows "q \<notin> own'" and "x \<in> frame_bytes q \<Longrightarrow> mem s' x = mem s x"
  using assms writes_frame [of own' s s' q x] by (auto simp: grows_def)

lemma grows_frame_alloc:
  assumes "fa_inv l (FRAME_ALLOCATOR s)" "own \<subseteq> fa_live l (FRAME_ALLOCATOR s)" "frame_alloc s = (Some f, s')"
  shows "grows l (own, s) (insert f own, s')" and "writes {f} s s'" and "f \<notin> fa_live l (FRAME_ALLOCATOR s)"
    and "x \<in> frame_bytes f \<Longrightarrow> mem s' x = 0" and "unat (the_ppn f) < 2 ^ 44"
  using assms(2) frame_alloc_SomeD [OF assms(1,3)] by (auto simp: grows_def writes_def)

lemma grows_PageTable_map:
  assumes wf: "pt_wf l pt s" and map: "PageTable_map pt vpn ppn flags s = Ok (pt', s')"
    and own: "set (pt_frames pt) \<subseteq> own" "own \<subseteq> fa_live l (FRAME_ALLOCATOR s)"
  shows "grows l (own, s) (own \<union> set (pt_frames pt'), s')" and "writes (set (pt_frames pt')) s s'"
proof -
  note mo = PageTable_map_Ok [OF wf map]
  show w: "writes (set (pt_frames pt')) s s'" using mo(8) by (simp add: writes_def)
  have "own \<union> set (pt_frames pt') - own = set (pt_frames pt') - set (pt_frames pt)"
    using mo(6) own by blast
  then show "grows l (own, s) (own \<union> set (pt_frames pt'), s')"
    using mo own w pt_wf_inv [OF mo(1)] by (auto simp: grows_def intro: writes_mono)
qed

lemma grows_store:
  assumes "fa_inv l (FRAME_ALLOCATOR s)" "own \<subseteq> fa_live l (FRAME_ALLOCATOR s)" "q \<in> own"
    and "n + length bs \<le> 4096" and "s' = s\<lparr>mem := store_bytes (mem s) (unat (the_ppn q) * 4096 + n) bs\<rparr>"
  shows "grows l (own, s) (own, s')" and "writes {q} s s'"
proof -
  show w: "writes {q} s s'"
    using assms(4) unfolding writes_def assms(5) frame_bytes_def by (auto simp: store_bytes_def)
  show "grows l (own, s) (own, s')"
    using assms writes_mono [OF w, of own] by (auto simp: grows_def)
qed

subsection \<open>Page tables in untouched frames\<close>

lemma pte_at_untouched:
  assumes "\<And>x. x \<in> frame_bytes q \<Longrightarrow> m' x = m x" "i < 512"
  shows "pte_at m' q i = pte_at m q i"
proof -
  have "load_u64 m' (slot q i) = load_u64 m (slot q i)"
    using slot_in_frame [OF assms(2), of q] by (intro load_u64_cong) (auto intro!: assms(1))
  then show ?thesis by (simp add: pte_at_def load_pte_def)
qed

lemma pt_wf_untouched:
  assumes wf: "pt_wf l pt s" and inv: "fa_inv l (FRAME_ALLOCATOR s')"
    and live: "set (pt_frames pt) \<subseteq> fa_live l (FRAME_ALLOCATOR s')"
    and same: "\<forall>q \<in> set (pt_frames pt). \<forall>x \<in> frame_bytes q. mem s' x = mem s x"
  shows "pt_wf l pt s'" and "pt_abs pt (mem s') v = pt_abs pt (mem s) v"
    and "PageTable_translate pt v (mem s') = PageTable_translate pt v (mem s)"
proof -
  have pte: "pte_at (mem s') q i = pte_at (mem s) q i" if "q \<in> set (pt_frames pt)" "i < 512" for q i
    using same that by (intro pte_at_untouched) auto
  have walk: "pt_walk (mem s') (root_ppn pt) \<rho> = pt_walk (mem s) (root_ppn pt) \<rho>" if "table_path \<rho>" for \<rho>
  proof (rule pt_walk_cong)
    fix \<pi> i \<sigma> q assume "\<rho> = \<pi> @ i # \<sigma>" and q: "pt_walk (mem s) (root_ppn pt) \<pi> = Some q"
    then have "table_path \<pi>" "i < 512" using that by (auto simp: table_path_def)
    then show "pte_at (mem s') q i = pte_at (mem s) q i" using pt_wf_table(1) [OF wf _ q] pte by auto
  qed
  show "pt_wf l pt s'"
    using wf inv live walk unfolding pt_wf_def by auto
  have tp: "table_path (vpn_path v)" using leaf_path_vpn [of v] by (simp add: leaf_path_def)
  note root = pt_wf_root(1) [OF wf]
  have "pte_at (mem s') q (vpn_leaf v) = pte_at (mem s) q (vpn_leaf v)"
    if "pt_walk (mem s) (root_ppn pt) (vpn_path v) = Some q" for q
    using pt_wf_table(1) [OF wf tp that] pte by simp
  then show tr: "PageTable_translate pt v (mem s') = PageTable_translate pt v (mem s)"
    using walk [OF tp] by (cases "pt_walk (mem s) (root_ppn pt) (vpn_path v)")
      (auto simp: PageTable_translate_def find_pte_walk [OF root] pte_at_def)
  show "pt_abs pt (mem s') v = pt_abs pt (mem s) v"
    by (simp add: pt_abs_def tr)
qed

lemma pt_wf_grows:
  assumes "pt_wf l pt s" and "grows l (own, s) (own', s')" and "set (pt_frames pt) \<inter> own = {}"
  shows "pt_wf l pt s'" and "pt_abs pt (mem s') v = pt_abs pt (mem s) v"
    and "PageTable_translate pt v (mem s') = PageTable_translate pt v (mem s)"
proof -
  have sub: "set (pt_frames pt) \<subseteq> fa_live l (FRAME_ALLOCATOR s)" using assms(1) by (simp add: pt_wf_def)
  have "fa_inv l (FRAME_ALLOCATOR s')" "set (pt_frames pt) \<subseteq> fa_live l (FRAME_ALLOCATOR s')"
    using sub assms(2) by (auto simp: grows_def)
  moreover have "mem s' x = mem s x" if "q \<in> set (pt_frames pt)" "x \<in> frame_bytes q" for q x
    using grows_untouched(2) [OF assms(2), of q x] that sub assms(3) by blast
  ultimately show "pt_wf l pt s'" and "pt_abs pt (mem s') v = pt_abs pt (mem s) v"
    and "PageTable_translate pt v (mem s') = PageTable_translate pt v (mem s)"
    using pt_wf_untouched [OF assms(1)] by blast+
qed

section \<open>Mapping a framed segment\<close>

lemma pt_abs_same_page: "same_page u v \<Longrightarrow> pt_wf l pt s \<Longrightarrow> pt_abs pt (mem s) u = pt_abs pt (mem s) v"
  using same_page_path [of u v] by (simp add: pt_abs_leaf [OF pt_wf_root(1)])

lemma same_page_sym: "same_page u v \<longleftrightarrow> same_page v u"
  by (auto simp: same_page_def)

lemma map_one_Framed:
  assumes wf: "pt_wf l pt s" and fr: "map_type a = Framed"
    and own: "set (pt_frames pt) \<subseteq> own" "own \<subseteq> fa_live l (FRAME_ALLOCATOR s)"
    and new: "map_of (data_frames a) vpn = None"
    and one: "MapArea_map_one a pt vpn s = Ok (a', pt', s')"
  obtains f where "f \<notin> fa_live l (FRAME_ALLOCATOR s)" "unat (the_ppn f) < 2 ^ 44"
    "a' = a\<lparr>data_frames := bt_insert vpn f (data_frames a)\<rparr>" "pt_wf l pt' s'" "root_ppn pt' = root_ppn pt"
    "set (pt_frames pt) \<subseteq> set (pt_frames pt')"
    "grows l (own, s) (own \<union> set (pt_frames pt') \<union> {f}, s')" "writes (set (pt_frames pt') \<union> {f}) s s'"
    "f \<notin> set (pt_frames pt')" "pt_abs pt (mem s) vpn = None"
    "\<And>v. pt_abs pt' (mem s') v =
      (if same_page v vpn then Some (PageTableEntry_new f (map_perm a OR PTE_V)) else pt_abs pt (mem s) v)"
    "\<And>x. x \<in> frame_bytes f \<Longrightarrow> mem s' x = 0"
    "(set (pt_frames pt') - set (pt_frames pt)) \<inter> fa_live l (FRAME_ALLOCATOR s) = {}"
proof -
  from one fr new obtain f s1 where al: "frame_alloc s = (Some f, s1)"
    and a': "a' = a\<lparr>data_frames := bt_insert vpn f (data_frames a)\<rparr>"
    and map: "PageTable_map pt vpn f (map_perm a) s1 = Ok (pt', s')"
    by (auto simp: MapArea_map_one_def drop_frame_def PTEFlags_from_bits_total and_then_eq_Ok_conv
        split: prod.splits)
  note ga = grows_frame_alloc [OF pt_wf_inv [OF wf] own(2) al]
  have fp: "f \<notin> set (pt_frames pt)" using ga(3) own by blast
  have same: "mem s1 x = mem s x" if "q \<in> set (pt_frames pt)" "x \<in> frame_bytes q" for q x
    using writes_frame [OF ga(2), of q x] that fp by blast
  have live1: "set (pt_frames pt) \<subseteq> fa_live l (FRAME_ALLOCATOR s1)" "fa_inv l (FRAME_ALLOCATOR s1)"
    using ga(1) own by (auto simp: grows_def)
  have wf1: "pt_wf l pt s1" "\<And>v. pt_abs pt (mem s1) v = pt_abs pt (mem s) v"
    using pt_wf_untouched [OF wf live1(2,1)] same by blast+
  note mo = PageTable_map_Ok [OF wf1(1) map]
  have own1: "set (pt_frames pt) \<subseteq> insert f own" "insert f own \<subseteq> fa_live l (FRAME_ALLOCATOR s1)"
    using own grows_live [OF ga(1)] by auto
  note gm = grows_PageTable_map [OF wf1(1) map own1]
  have "f \<in> fa_live l (FRAME_ALLOCATOR s1)" using own1 by simp
  then have fp': "f \<notin> set (pt_frames pt')" using mo(6) fp by blast
  have "grows l (own, s) (insert f own \<union> set (pt_frames pt'), s')"
    by (rule grows_trans [OF ga(1) gm(1)])
  moreover have "writes ({f} \<union> set (pt_frames pt')) s s'" by (rule writes_trans [OF ga(2) gm(2)])
  moreover have "mem s' x = 0" if "x \<in> frame_bytes f" for x
    using writes_frame [OF gm(2) fp' that] ga(4) [OF that] by simp
  moreover have "(set (pt_frames pt') - set (pt_frames pt)) \<inter> fa_live l (FRAME_ALLOCATOR s) = {}"
    using mo(6) ga(1) by (auto simp: grows_def)
  moreover have "insert f own \<union> set (pt_frames pt') = own \<union> set (pt_frames pt') \<union> {f}"
    "{f} \<union> set (pt_frames pt') = set (pt_frames pt') \<union> {f}" by auto
  ultimately show thesis
    using that [of f] ga(3,5) a' mo(1-5) fp' wf1(2) by simp
qed

text \<open>
  What mapping the pages \<open>vpns\<close> of a framed segment achieves: the \<open>i\<close>-th page is mapped to the
  \<open>i\<close>-th of the new frames \<open>fs\<close>, all of them zero; no page was mapped before, and no other page
  changes.
\<close>

definition pages_mapped ::
    "nat \<Rightarrow> MapPermission \<Rightarrow> VirtPageNum list \<Rightarrow> PhysPageNum list
      \<Rightarrow> PageTable \<times> mm_state \<Rightarrow> PageTable \<times> mm_state \<Rightarrow> bool" where
  "pages_mapped l perm vpns fs = (\<lambda>(pt, s) (pt', s').
     pt_wf l pt' s' \<and> root_ppn pt' = root_ppn pt \<and> set (pt_frames pt) \<subseteq> set (pt_frames pt')
     \<and> length fs = length vpns \<and> distinct fs
     \<and> (set (pt_frames pt') - set (pt_frames pt)) \<inter> fa_live l (FRAME_ALLOCATOR s) = {}
     \<and> set fs \<inter> fa_live l (FRAME_ALLOCATOR s) = {} \<and> set fs \<inter> set (pt_frames pt') = {}
     \<and> (\<forall>f \<in> set fs. unat (the_ppn f) < 2 ^ 44)
     \<and> (\<forall>v \<in> set vpns. pt_abs pt (mem s) v = None)
     \<and> (\<forall>i < length vpns. pt_abs pt' (mem s') (vpns ! i) = Some (PageTableEntry_new (fs ! i) (perm OR PTE_V)))
     \<and> (\<forall>v. (\<forall>u \<in> set vpns. \<not> same_page v u) \<longrightarrow> pt_abs pt' (mem s') v = pt_abs pt (mem s) v)
     \<and> (\<forall>f \<in> set fs. \<forall>x \<in> frame_bytes f. mem s' x = 0)
     \<and> writes (set (pt_frames pt') \<union> set fs) s s')"

lemma map_pages_Framed:
  assumes "pt_wf l pt s" and "map_type a = Framed"
    and "set (pt_frames pt) \<subseteq> own" and "own \<subseteq> fa_live l (FRAME_ALLOCATOR s)"
    and "\<forall>v \<in> set vpns. map_of (data_frames a) v = None" and "distinct vpns"
    and "map_pages vpns a pt s = Ok (a', pt', s')"
  shows "\<exists>fs. pages_mapped l (map_perm a) vpns fs (pt, s) (pt', s')
    \<and> grows l (own, s) (own \<union> set (pt_frames pt') \<union> set fs, s')
    \<and> set (data_frames a') = set (data_frames a) \<union> set (zip vpns fs)
    \<and> length (data_frames a') = length (data_frames a) + length vpns
    \<and> vpn_range a' = vpn_range a \<and> map_type a' = Framed \<and> map_perm a' = map_perm a"
  using assms
proof (induction vpns arbitrary: a pt s own)
  case Nil
  then have "grows l (own, s) (own \<union> set (pt_frames pt) \<union> {}, s)"
    using pt_wf_inv [OF Nil.prems(1)] by (auto simp: Un_absorb2 intro: grows_refl)
  with Nil show ?case by (intro exI [of _ "[]"]) (auto simp: pages_mapped_def)
next
  case (Cons vpn vpns)
  from Cons.prems(7) obtain a1 pt1 s1 where one: "MapArea_map_one a pt vpn s = Ok (a1, pt1, s1)"
    and rest: "map_pages vpns a1 pt1 s1 = Ok (a', pt', s')"
    by (auto simp: and_then_eq_Ok_conv)
  have new: "map_of (data_frames a) vpn = None" using Cons.prems(5) by simp
  from one obtain f where f: "f \<notin> fa_live l (FRAME_ALLOCATOR s)" "unat (the_ppn f) < 2 ^ 44"
    "a1 = a\<lparr>data_frames := bt_insert vpn f (data_frames a)\<rparr>" "pt_wf l pt1 s1" "root_ppn pt1 = root_ppn pt"
    "set (pt_frames pt) \<subseteq> set (pt_frames pt1)"
    "grows l (own, s) (own \<union> set (pt_frames pt1) \<union> {f}, s1)" "writes (set (pt_frames pt1) \<union> {f}) s s1"
    "f \<notin> set (pt_frames pt1)" "pt_abs pt (mem s) vpn = None"
    "\<And>v. pt_abs pt1 (mem s1) v =
      (if same_page v vpn then Some (PageTableEntry_new f (map_perm a OR PTE_V)) else pt_abs pt (mem s) v)"
    "\<And>x. x \<in> frame_bytes f \<Longrightarrow> mem s1 x = 0"
    "(set (pt_frames pt1) - set (pt_frames pt)) \<inter> fa_live l (FRAME_ALLOCATOR s) = {}"
    by (rule map_one_Framed [OF Cons.prems(1-4) new]) blast
  let ?own1 = "own \<union> set (pt_frames pt1) \<union> {f}"
  have df1: "set (data_frames a1) = insert (vpn, f) (set (data_frames a))"
    using set_bt_insert [OF new, of f] by (simp add: f(3))
  have none1: "\<forall>v \<in> set vpns. map_of (data_frames a1) v = None"
    using Cons.prems(5,6) df1 by (auto simp: map_of_eq_None_iff image_iff)
  have live1: "?own1 \<subseteq> fa_live l (FRAME_ALLOCATOR s1)" by (rule grows_live [OF f(7)])
  have "map_type a1 = Framed" using Cons.prems(2) by (simp add: f(3))
  from Cons.IH [OF f(4) this _ live1 none1 _ rest] Cons.prems(6) obtain fs
    where pm: "pages_mapped l (map_perm a) vpns fs (pt1, s1) (pt', s')"
      and g: "grows l (?own1, s1) (?own1 \<union> set (pt_frames pt') \<union> set fs, s')"
      and df: "set (data_frames a') = set (data_frames a1) \<union> set (zip vpns fs)"
        "length (data_frames a') = length (data_frames a1) + length vpns"
      and rest': "vpn_range a' = vpn_range a" "map_type a' = Framed" "map_perm a' = map_perm a"
    by (auto simp: f(3))
  have sub1: "set (pt_frames pt1) \<subseteq> set (pt_frames pt')" using pm by (simp add: pages_mapped_def)
  have eq: "?own1 \<union> set (pt_frames pt') \<union> set fs = own \<union> set (pt_frames pt') \<union> set (f # fs)"
    using sub1 by auto
  have f_live1: "f \<in> fa_live l (FRAME_ALLOCATOR s1)" using live1 by blast
  have f_new: "f \<notin> set fs" using pm f_live1 by (auto simp: pages_mapped_def)
  have f_pt': "f \<notin> set (pt_frames pt')" using pm f_live1 f(9) by (auto simp: pages_mapped_def)
  have live_sub: "fa_live l (FRAME_ALLOCATOR s) \<subseteq> fa_live l (FRAME_ALLOCATOR s1)" using f(7) by (auto simp: grows_def)
  have apart: "\<not> same_page u vpn" if "u \<in> set vpns" for u
    using pm f(11) [of u] that by (auto simp: pages_mapped_def)
  have first: "pt_abs pt' (mem s') vpn = Some (PageTableEntry_new f (map_perm a OR PTE_V))"
    using pm apart f(11) [of vpn] by (auto simp: pages_mapped_def same_page_sym [of vpn])
  have "pages_mapped l (map_perm a) (vpn # vpns) (f # fs) (pt, s) (pt', s')"
    unfolding pages_mapped_def prod.case
  proof (intro conjI)
    show "\<forall>i < length (vpn # vpns). pt_abs pt' (mem s') ((vpn # vpns) ! i) =
        Some (PageTableEntry_new ((f # fs) ! i) (map_perm a OR PTE_V))"
      using first pm by (auto simp: pages_mapped_def less_Suc_eq_0_disj)
    show "\<forall>v. (\<forall>u \<in> set (vpn # vpns). \<not> same_page v u) \<longrightarrow> pt_abs pt' (mem s') v = pt_abs pt (mem s) v"
      using pm f(11) by (simp add: pages_mapped_def)
    show "\<forall>v \<in> set (vpn # vpns). pt_abs pt (mem s) v = None"
      using pm f(10,11) apart by (auto simp: pages_mapped_def)
    have "mem s' x = 0" if "x \<in> frame_bytes f" for x
      using writes_frame [of "set (pt_frames pt') \<union> set fs" s1 s' f x] that f(12) f_new f_pt' pm
      by (simp add: pages_mapped_def)
    then show "\<forall>g \<in> set (f # fs). \<forall>x \<in> frame_bytes g. mem s' x = 0"
      using pm by (simp add: pages_mapped_def)
    have "writes ((set (pt_frames pt1) \<union> {f}) \<union> (set (pt_frames pt') \<union> set fs)) s s'"
      by (rule writes_trans [OF f(8)]) (use pm in \<open>simp add: pages_mapped_def\<close>)
    then show "writes (set (pt_frames pt') \<union> set (f # fs)) s s'"
      by (rule writes_mono) (use sub1 in auto)
    show "(set (pt_frames pt') - set (pt_frames pt)) \<inter> fa_live l (FRAME_ALLOCATOR s) = {}"
      using pm f(13) live_sub by (auto simp: pages_mapped_def)
    show "set (f # fs) \<inter> fa_live l (FRAME_ALLOCATOR s) = {}"
      using pm f(1) live_sub by (auto simp: pages_mapped_def)
  qed (use pm f f_new f_pt' sub1 in \<open>auto simp: pages_mapped_def\<close>)
  moreover have "grows l (own, s) (own \<union> set (pt_frames pt') \<union> set (f # fs), s')"
    using grows_trans [OF f(7) g] by (simp only: eq)
  moreover have "length (data_frames a1) = Suc (length (data_frames a))"
    by (simp add: f(3) length_bt_insert [OF new])
  ultimately show ?case using df df1 rest' by (intro exI [of _ "f # fs"]) auto
qed

section \<open>Well-formed user address spaces\<close>

abbreviation area_pages :: "MapArea \<Rightarrow> VirtPageNum list" where
  "area_pages a \<equiv> VPNRange_list (vpn_range a)"

lemma MapArea_new_pages:
  assumes "unat (the_va a) \<le> unat (the_va b)" "unat (the_va b) < 2 ^ 39"
  shows "map (unat \<circ> the_vpn) (area_pages (MapArea_new a b t p)) = [unat (the_va a) div 4096..<(unat (the_va b) + 4095) div 4096]"
    and "sr_l (vpn_range (MapArea_new a b t p)) \<le> sr_r (vpn_range (MapArea_new a b t p))"
proof -
  note r = unat_VirtAddr_ceil [OF assms(2)]
  have "unat (the_va a) div 4096 \<le> (unat (the_va b) + 4095) div 4096" using assms(1) by (intro div_le_mono) simp
  with r show "map (unat \<circ> the_vpn) (area_pages (MapArea_new a b t p)) = [unat (the_va a) div 4096..<(unat (the_va b) + 4095) div 4096]"
    "sr_l (vpn_range (MapArea_new a b t p)) \<le> sr_r (vpn_range (MapArea_new a b t p))"
    using vpn_iter_upto [of "the_vpn (VirtAddr_floor a)" "the_vpn (VirtAddr_ceil b)"]
    by (simp_all add: MapArea_new_def SimpleRange_new_def VPNRange_list_def SimpleRange_into_iter_def less_eq_VirtPageNum_def word_le_nat_alt)
qed

definition area_mapped :: "PageTable \<Rightarrow> memory \<Rightarrow> MapArea \<Rightarrow> bool" where
  "area_mapped pt m a \<longleftrightarrow>
     map_type a = Framed \<and> sr_l (vpn_range a) \<le> sr_r (vpn_range a)
     \<and> (\<forall>v \<in> set (area_pages a). \<exists>f. (v, f) \<in> set (data_frames a) \<and> unat (the_ppn f) < 2 ^ 44
          \<and> pt_abs pt m v = Some (PageTableEntry_new f (map_perm a OR PTE_V)))"

definition ms_data :: "MemorySet \<Rightarrow> PhysPageNum set" where
  "ms_data ms = (\<Union>a \<in> set (areas ms). snd ` set (data_frames a))"

definition ms_data_list :: "MemorySet \<Rightarrow> PhysPageNum list" where
  "ms_data_list ms = concat (map (map snd \<circ> data_frames) (areas ms))"

definition ms_own :: "MemorySet \<Rightarrow> PhysPageNum set" where
  "ms_own ms = set (pt_frames (page_table ms)) \<union> ms_data ms"

definition user_ms :: "nat \<Rightarrow> MemorySet \<Rightarrow> mm_state \<Rightarrow> bool" where
  "user_ms l ms s \<longleftrightarrow>
     pt_wf l (page_table ms) s
     \<and> ms_data ms \<subseteq> fa_live l (FRAME_ALLOCATOR s)
     \<and> ms_data ms \<inter> set (pt_frames (page_table ms)) = {}
     \<and> distinct (ms_data_list ms)
     \<and> (\<forall>a \<in> set (areas ms). area_mapped (page_table ms) (mem s) a)"

lemma set_ms_data_list [simp]: "set (ms_data_list ms) = ms_data ms"
  by (simp add: ms_data_list_def ms_data_def)

text \<open>The frame behind a page of a segment.\<close>

definition ms_frames :: "MemorySet \<Rightarrow> (VirtPageNum \<times> PhysPageNum) set" where
  "ms_frames ms = set (concat (map data_frames (areas ms)))"

lemma ms_frames_data: "(v, f) \<in> ms_frames ms \<Longrightarrow> f \<in> ms_data ms"
  by (force simp: ms_frames_def ms_data_def)

lemma user_ms_page:
  assumes ms: "user_ms l ms s" and v: "v \<in> set (concat (map area_pages (areas ms)))"
  obtains f perm where "(v, f) \<in> ms_frames ms" "unat (the_ppn f) < 2 ^ 44"
    "pt_abs (page_table ms) (mem s) v = Some (PageTableEntry_new f perm)" "f \<notin> set (pt_frames (page_table ms))"
proof -
  from v obtain a where a: "a \<in> set (areas ms)" "v \<in> set (area_pages a)" by auto
  with ms obtain f where f: "(v, f) \<in> set (data_frames a)" "unat (the_ppn f) < 2 ^ 44"
    "pt_abs (page_table ms) (mem s) v = Some (PageTableEntry_new f (map_perm a OR PTE_V))"
    unfolding user_ms_def area_mapped_def by blast
  from f(1) a(1) have m: "(v, f) \<in> ms_frames ms" by (auto simp: ms_frames_def)
  with ms_frames_data [OF m] ms f that show thesis by (auto simp: user_ms_def)
qed

lemma ms_frames_inj:
  assumes "user_ms l ms s" "(v, f) \<in> ms_frames ms" "(w, f) \<in> ms_frames ms"
  shows "v = w"
proof -
  have "distinct (map snd (concat (map data_frames (areas ms))))"
    using assms(1) by (simp add: user_ms_def ms_data_list_def map_concat comp_def)
  then have "inj_on snd (ms_frames ms)" unfolding ms_frames_def by (simp add: distinct_map)
  from inj_onD [OF this _ assms(2,3)] show ?thesis by simp
qed

lemma distinct_VPNRange_list:
  assumes "sr_l r \<le> sr_r r"
  shows "distinct (VPNRange_list r)"
proof -
  have "map (unat \<circ> the_vpn) (VPNRange_list r) = [unat (the_vpn (sr_l r))..<unat (the_vpn (sr_r r))]"
    using assms vpn_iter_upto [of "the_vpn (sr_l r)" "the_vpn (sr_r r)"]
    by (simp add: VPNRange_list_def SimpleRange_into_iter_def less_eq_VirtPageNum_def word_le_nat_alt)
  then have "distinct (map (unat \<circ> the_vpn) (VPNRange_list r))" by simp
  then show ?thesis by (simp add: distinct_map)
qed

lemma user_ms_own: "user_ms l ms s \<Longrightarrow> ms_own ms \<subseteq> fa_live l (FRAME_ALLOCATOR s)"
  by (auto simp: user_ms_def ms_own_def pt_wf_def)

text \<open>Mapped areas survive what happens to pages that are not mapped yet.\<close>

lemma area_mapped_kept:
  assumes "area_mapped pt m a"
    and "\<And>v. v \<in> set (area_pages a) \<Longrightarrow> pt_abs pt m v \<noteq> None \<Longrightarrow> pt_abs pt' m' v = pt_abs pt m v"
  shows "area_mapped pt' m' a"
  using assms by (fastforce simp: area_mapped_def)

lemma pages_mapped_keeps:
  assumes "pages_mapped l perm vpns fs (pt, s) (pt', s')" "pt_wf l pt s" "pt_abs pt (mem s) v \<noteq> None"
  shows "pt_abs pt' (mem s') v = pt_abs pt (mem s) v"
proof -
  have "\<not> same_page v u" if "u \<in> set vpns" for u
    using assms(1,3) that pt_abs_same_page [OF _ assms(2), of v u] by (auto simp: pages_mapped_def)
  with assms(1) show ?thesis by (simp add: pages_mapped_def)
qed

lemma MemorySet_push_Framed:
  assumes ms: "user_ms l ms s" and a: "map_type a = Framed" "data_frames a = []" "sr_l (vpn_range a) \<le> sr_r (vpn_range a)"
    and push: "MemorySet_push ms a None s = Ok (ms', s')"
  obtains fs a' where "pages_mapped l (map_perm a) (area_pages a) fs (page_table ms, s) (page_table ms', s')"
    "areas ms' = areas ms @ [a']" "set (data_frames a') = set (zip (area_pages a) fs)"
    "vpn_range a' = vpn_range a" "map_perm a' = map_perm a"
    "grows l (ms_own ms, s) (ms_own ms', s')" "user_ms l ms' s'" "ms_data ms' = ms_data ms \<union> set fs"
proof -
  from push obtain a' where map: "map_pages (area_pages a) a (page_table ms) s = Ok (a', page_table ms', s')"
    and areas: "areas ms' = areas ms @ [a']"
    by (auto simp: MemorySet_push_def MapArea_map_def and_then_eq_Ok_conv)
  have wf: "pt_wf l (page_table ms) s" using ms by (simp add: user_ms_def)
  from map_pages_Framed [OF wf a(1) _ user_ms_own [OF ms] _ distinct_VPNRange_list [OF a(3)] map]
  obtain fs where fs: "pages_mapped l (map_perm a) (area_pages a) fs (page_table ms, s) (page_table ms', s')"
    and g: "grows l (ms_own ms, s) (ms_own ms \<union> set (pt_frames (page_table ms')) \<union> set fs, s')"
    and a': "set (data_frames a') = set (zip (area_pages a) fs)" "vpn_range a' = vpn_range a"
      "map_type a' = Framed" "map_perm a' = map_perm a" "length (data_frames a') = length (area_pages a)"
    by (auto simp: a(2) ms_own_def)
  have len: "length fs = length (area_pages a)" using fs by (simp add: pages_mapped_def)
  have snds: "snd ` set (data_frames a') = set fs"
    using a'(1) len by (metis map_snd_zip set_map)
  then have data: "ms_data ms' = ms_data ms \<union> set fs" by (auto simp: ms_data_def areas)
  have dist: "distinct (ms_data_list ms')"
  proof -
    have "card (set (map snd (data_frames a'))) = length (map snd (data_frames a'))"
      using fs snds a'(5) len distinct_card [of fs] by (simp add: pages_mapped_def)
    then have "distinct (map snd (data_frames a'))" by (rule card_distinct)
    moreover have "set fs \<inter> ms_data ms = {}"
      using fs ms by (auto simp: pages_mapped_def user_ms_def)
    moreover have "distinct (ms_data_list ms)" "ms_data_list ms' = ms_data_list ms @ map snd (data_frames a')"
      using ms by (simp_all add: user_ms_def ms_data_list_def areas)
    ultimately show ?thesis by (simp add: snds Int_commute)
  qed
  have own: "ms_own ms \<union> set (pt_frames (page_table ms')) \<union> set fs = ms_own ms'"
    using fs data by (auto simp: ms_own_def pages_mapped_def)
  have pm: "\<forall>f \<in> set fs. unat (the_ppn f) < 2 ^ 44"
    "\<forall>i < length (area_pages a). pt_abs (page_table ms') (mem s') (area_pages a ! i) =
      Some (PageTableEntry_new (fs ! i) (map_perm a OR PTE_V))"
    using fs by (simp_all add: pages_mapped_def)
  have new: "area_mapped (page_table ms') (mem s') a'"
  proof -
    have "\<exists>f. (v, f) \<in> set (data_frames a') \<and> unat (the_ppn f) < 2 ^ 44
        \<and> pt_abs (page_table ms') (mem s') v = Some (PageTableEntry_new f (map_perm a OR PTE_V))"
      if v: "v \<in> set (area_pages a)" for v
    proof -
      from v obtain i where i: "i < length (area_pages a)" "v = area_pages a ! i" by (auto simp: in_set_conv_nth)
      then have "(v, fs ! i) \<in> set (data_frames a')" using a'(1) len by (auto simp: set_zip)
      with pm i len show ?thesis by (intro exI [of _ "fs ! i"]) simp
    qed
    then show ?thesis using a' a(3) by (simp add: area_mapped_def)
  qed
  have old: "area_mapped (page_table ms') (mem s') b" if "b \<in> set (areas ms)" for b
  proof (rule area_mapped_kept [of "page_table ms" "mem s" b])
    show "area_mapped (page_table ms) (mem s) b" using ms that by (simp add: user_ms_def)
  qed (rule pages_mapped_keeps [OF fs wf])
  have "ms_data ms' \<inter> set (pt_frames (page_table ms')) = {}"
  proof -
    have "ms_data ms \<inter> set (pt_frames (page_table ms)) = {}" "ms_data ms \<subseteq> fa_live l (FRAME_ALLOCATOR s)"
      using ms by (simp_all add: user_ms_def)
    moreover have "(set (pt_frames (page_table ms')) - set (pt_frames (page_table ms))) \<inter> fa_live l (FRAME_ALLOCATOR s) = {}"
      "set fs \<inter> set (pt_frames (page_table ms')) = {}"
      using fs by (simp_all add: pages_mapped_def)
    ultimately show ?thesis unfolding data by blast
  qed
  moreover have "pt_wf l (page_table ms') s'" using fs by (simp add: pages_mapped_def)
  moreover have "ms_data ms' \<subseteq> fa_live l (FRAME_ALLOCATOR s')"
    using grows_live [OF g] unfolding own by (simp add: ms_own_def)
  ultimately have "user_ms l ms' s'"
    using new old dist by (auto simp: user_ms_def areas)
  with fs areas a' g own data show thesis by (intro that [of fs a']) simp_all
qed

subsection \<open>Mapping succeeds while frames last\<close>

lemma pt_wf_frame_alloc:
  assumes wf: "pt_wf l pt s" and al: "frame_alloc s = (Some f, s')"
  shows "pt_wf l pt s'" and "pt_abs pt (mem s') v = pt_abs pt (mem s) v"
proof -
  have "set (pt_frames pt) \<subseteq> fa_live l (FRAME_ALLOCATOR s)" using wf by (simp add: pt_wf_def)
  with grows_frame_alloc(1) [OF pt_wf_inv [OF wf] _ al, of "{}"]
  show "pt_wf l pt s'" and "pt_abs pt (mem s') v = pt_abs pt (mem s) v"
    using pt_wf_grows [OF wf] by auto
qed

lemma map_one_is_ok:
  assumes wf: "pt_wf l pt s" and a: "map_type a = Framed" "map_of (data_frames a) vpn = None"
    and free: "3 \<le> fa_free (FRAME_ALLOCATOR s)" and none: "pt_abs pt (mem s) vpn = None"
  shows "\<exists>a' pt' s'. MapArea_map_one a pt vpn s = Ok (a', pt', s')
    \<and> fa_free (FRAME_ALLOCATOR s) \<le> fa_free (FRAME_ALLOCATOR s') + 3"
proof -
  obtain r s1 where al: "frame_alloc s = (r, s1)" by (cases "frame_alloc s")
  with frame_alloc_fa_free [OF pt_wf_inv [OF wf] al] free obtain f
    where r: "r = Some f" and f1: "fa_free (FRAME_ALLOCATOR s) = Suc (fa_free (FRAME_ALLOCATOR s1))" by auto
  note wf1 = pt_wf_frame_alloc [OF wf al [unfolded r]]
  obtain pt' s' where map: "PageTable_map pt vpn f (map_perm a) s1 = Ok (pt', s')"
    using PageTable_map_is_ok [OF wf1(1), of vpn f "map_perm a"] wf1(2) none free f1 by auto
  with PageTable_map_free [OF wf1(1) map] f1 al r a show ?thesis
    by (auto simp: MapArea_map_one_def drop_frame_def PTEFlags_from_bits_total)
qed

lemma map_pages_is_ok:
  assumes "pt_wf l pt s" and "map_type a = Framed"
    and "\<forall>v \<in> set vpns. map_of (data_frames a) v = None \<and> pt_abs pt (mem s) v = None"
    and "distinct vpns" and "pairwise (\<lambda>u v. \<not> same_page u v) (set vpns)"
    and "3 * length vpns \<le> fa_free (FRAME_ALLOCATOR s)"
  shows "\<exists>a' pt' s'. map_pages vpns a pt s = Ok (a', pt', s')
    \<and> fa_free (FRAME_ALLOCATOR s) \<le> fa_free (FRAME_ALLOCATOR s') + 3 * length vpns"
  using assms
proof (induction vpns arbitrary: a pt s)
  case (Cons vpn vpns)
  have none: "map_of (data_frames a) vpn = None" "pt_abs pt (mem s) vpn = None" "3 \<le> fa_free (FRAME_ALLOCATOR s)"
    using Cons.prems by simp_all
  from map_one_is_ok [OF Cons.prems(1,2) none(1,3,2)] obtain a1 pt1 s1
    where one: "MapArea_map_one a pt vpn s = Ok (a1, pt1, s1)"
      and free: "fa_free (FRAME_ALLOCATOR s) \<le> fa_free (FRAME_ALLOCATOR s1) + 3" by blast
  have live: "set (pt_frames pt) \<subseteq> fa_live l (FRAME_ALLOCATOR s)" using Cons.prems(1) by (simp add: pt_wf_def)
  from one obtain f where f: "pt_wf l pt1 s1" "a1 = a\<lparr>data_frames := bt_insert vpn f (data_frames a)\<rparr>"
    "\<And>v. pt_abs pt1 (mem s1) v =
      (if same_page v vpn then Some (PageTableEntry_new f (map_perm a OR PTE_V)) else pt_abs pt (mem s) v)"
    by (rule map_one_Framed [OF Cons.prems(1,2) order_refl live none(1)]) blast
  have apart: "\<not> same_page v vpn" if "v \<in> set vpns" for v
    using Cons.prems(4,5) that by (auto simp: pairwise_def)
  have "set (data_frames a1) = insert (vpn, f) (set (data_frames a))"
    using set_bt_insert [OF none(1), of f] by (simp add: f(2))
  then have "\<forall>v \<in> set vpns. map_of (data_frames a1) v = None \<and> pt_abs pt1 (mem s1) v = None"
    using Cons.prems(3,4) apart f(3) by (auto simp: map_of_eq_None_iff image_iff)
  moreover have "map_type a1 = Framed" using Cons.prems(2) by (simp add: f(2))
  moreover have "pairwise (\<lambda>u v. \<not> same_page u v) (set vpns)"
    using Cons.prems(5) by (rule pairwise_subset) auto
  ultimately obtain a' pt' s' where "map_pages vpns a1 pt1 s1 = Ok (a', pt', s')"
    "fa_free (FRAME_ALLOCATOR s1) \<le> fa_free (FRAME_ALLOCATOR s') + 3 * length vpns"
    using Cons.IH [OF f(1), of a1] Cons.prems(4,6) free by auto
  with one free show ?case by auto
qed auto

section \<open>Copying an address space\<close>

definition frame_contents :: "memory \<Rightarrow> PhysPageNum \<Rightarrow> u8 list" where
  "frame_contents m f = load_bytes m (unat (the_ppn f) * 4096) 4096"

definition page_contents :: "PageTable \<Rightarrow> memory \<Rightarrow> VirtPageNum \<Rightarrow> u8 list option" where
  "page_contents pt m v = map_option (\<lambda>e. frame_contents m (PageTableEntry_ppn e)) (pt_abs pt m v)"

lemma frame_contents_cong: "(\<And>x. x \<in> frame_bytes f \<Longrightarrow> m' x = m x) \<Longrightarrow> frame_contents m' f = frame_contents m f"
  unfolding frame_contents_def by (rule load_bytes_cong) (simp add: frame_bytes_def)

lemma copy_frame_eq:
  assumes "unat (the_ppn p) < 2 ^ 44" "unat (the_ppn q) < 2 ^ 44"
  shows "copy_frame p q s = s\<lparr>mem := store_bytes (mem s) (unat (the_ppn q) * 4096) (frame_contents (mem s) p)\<rparr>"
  using assms by (simp add: copy_frame_def frame_contents_def unat_PhysAddr_from_PhysPageNum)

lemma frame_contents_copy:
  assumes "unat (the_ppn p) < 2 ^ 44" "unat (the_ppn q) < 2 ^ 44"
  shows "frame_contents (mem (copy_frame p q s)) q = frame_contents (mem s) p"
    and "writes {q} s (copy_frame p q s)" and "FRAME_ALLOCATOR (copy_frame p q s) = FRAME_ALLOCATOR s"
proof -
  have len: "length (frame_contents (mem s) p) = 4096" by (simp add: frame_contents_def)
  show "frame_contents (mem (copy_frame p q s)) q = frame_contents (mem s) p"
    using load_store_same [of "mem s" "unat (the_ppn q) * 4096" "frame_contents (mem s) p"]
    by (simp add: copy_frame_eq [OF assms] frame_contents_def [of _ q] len)
  show "writes {q} s (copy_frame p q s)"
    unfolding writes_def copy_frame_eq [OF assms] by (auto simp: store_bytes_def frame_bytes_def len)
  show "FRAME_ALLOCATOR (copy_frame p q s) = FRAME_ALLOCATOR s" by (simp add: copy_frame_def)
qed

lemma pt_abs_translate: "pt_abs pt m v = Some e \<Longrightarrow> PageTable_translate pt v m = Some e"
  by (auto simp: pt_abs_def split: option.splits if_splits)

text \<open>
  Copying the pages \<open>vpns\<close>, which the source maps to the frames \<open>ps\<close> and the destination to the
  frames \<open>fs\<close>, none of which holds a page table or a source page.
\<close>

lemma copy_pages_Ok:
  assumes "length vpns = length fs" "length fs = length ps"
    and "pt_wf l (page_table P) s" "pt_wf l (page_table C) s" "distinct fs"
    and "set fs \<inter> (set ps \<union> set (pt_frames (page_table P)) \<union> set (pt_frames (page_table C))) = {}"
    and "\<forall>f \<in> set fs. unat (the_ppn f) < 2 ^ 44"
    and "\<forall>i < length vpns. (\<exists>e. pt_abs (page_table P) (mem s) (vpns ! i) = Some e \<and> PageTableEntry_ppn e = ps ! i)
      \<and> (\<exists>e. pt_abs (page_table C) (mem s) (vpns ! i) = Some e \<and> PageTableEntry_ppn e = fs ! i)"
  shows "\<exists>s'. copy_pages P C vpns s = Ok s' \<and> writes (set fs) s s' \<and> FRAME_ALLOCATOR s' = FRAME_ALLOCATOR s
    \<and> (\<forall>i < length vpns. frame_contents (mem s') (fs ! i) = frame_contents (mem s) (ps ! i))"
  using assms
proof (induction vpns fs ps arbitrary: s rule: list_induct3)
  case (Cons v vpns f fs p ps)
  from Cons.prems(6) obtain e e' where e: "pt_abs (page_table P) (mem s) v = Some e" "PageTableEntry_ppn e = p"
    and e': "pt_abs (page_table C) (mem s) v = Some e'" "PageTableEntry_ppn e' = f" by fastforce
  have bounds: "unat (the_ppn p) < 2 ^ 44" "unat (the_ppn f) < 2 ^ 44"
    using PageTableEntry_ppn_bound [of e] PageTableEntry_ppn_bound [of e'] e e' by simp_all
  define s1 where "s1 = copy_frame p f s"
  note cp = frame_contents_copy [OF bounds, of s, folded s1_def]
  have apart: "f \<notin> set fs" "f \<notin> set ps" "f \<noteq> p" "f \<notin> set (pt_frames (page_table P))" "f \<notin> set (pt_frames (page_table C))"
    "p \<notin> set fs" using Cons.prems(3,4) by auto
  have same: "mem s1 x = mem s x" if "x \<in> frame_bytes q" "q \<noteq> f" for q x
    using writes_frame [OF cp(2), of q x] that by simp
  have live: "fa_inv l (FRAME_ALLOCATOR s1)" "set (pt_frames (page_table P)) \<subseteq> fa_live l (FRAME_ALLOCATOR s1)"
    "set (pt_frames (page_table C)) \<subseteq> fa_live l (FRAME_ALLOCATOR s1)"
    using Cons.prems(1,2) cp(3) by (auto simp: pt_wf_def)
  have "\<forall>q \<in> set (pt_frames (page_table P)). \<forall>x \<in> frame_bytes q. mem s1 x = mem s x"
    "\<forall>q \<in> set (pt_frames (page_table C)). \<forall>x \<in> frame_bytes q. mem s1 x = mem s x"
    using same apart(4,5) by blast+
  note P1 = pt_wf_untouched [OF Cons.prems(1) live(1,2) this(1)]
    and C1 = pt_wf_untouched [OF Cons.prems(2) live(1,3) this(2)]
  have "\<exists>s'. copy_pages P C vpns s1 = Ok s' \<and> writes (set fs) s1 s' \<and> FRAME_ALLOCATOR s' = FRAME_ALLOCATOR s1
    \<and> (\<forall>i < length vpns. frame_contents (mem s') (fs ! i) = frame_contents (mem s1) (ps ! i))"
  proof (rule Cons.IH)
    show "pt_wf l (page_table P) s1" "pt_wf l (page_table C) s1" by (fact P1(1), fact C1(1))
    show "\<forall>i < length vpns. (\<exists>e. pt_abs (page_table P) (mem s1) (vpns ! i) = Some e \<and> PageTableEntry_ppn e = ps ! i)
      \<and> (\<exists>e. pt_abs (page_table C) (mem s1) (vpns ! i) = Some e \<and> PageTableEntry_ppn e = fs ! i)"
      using Cons.prems(6) unfolding P1(2) C1(2) by fastforce
  qed (use Cons.prems(3-5) in auto)
  then obtain s' where s': "copy_pages P C vpns s1 = Ok s'" "writes (set fs) s1 s'" "FRAME_ALLOCATOR s' = FRAME_ALLOCATOR s1"
    "\<forall>i < length vpns. frame_contents (mem s') (fs ! i) = frame_contents (mem s1) (ps ! i)" by blast
  have "copy_pages P C (v # vpns) s = Ok s'"
    using e e' s'(1) by (simp add: MemorySet_translate_def pt_abs_translate s1_def)
  moreover have "writes (set (f # fs)) s s'"
    using writes_trans [OF cp(2) s'(2)] by simp
  moreover have "frame_contents (mem s') f = frame_contents (mem s) p"
    using frame_contents_cong [of f "mem s'" "mem s1"] writes_frame [OF s'(2) apart(1)] cp(1) by simp
  moreover have "frame_contents (mem s1) q = frame_contents (mem s) q" if "q \<in> set ps" for q
    using same [of _ q] that apart(2) by (intro frame_contents_cong) auto
  ultimately show ?case
    using s'(3,4) cp(3) Cons.hyps by (auto simp: less_Suc_eq_0_disj)
qed simp

text \<open>Every page of segment \<open>a\<close> is mapped in \<open>C\<close> with the same permissions and contents as in \<open>P\<close>.\<close>

definition area_copied :: "MemorySet \<Rightarrow> mm_state \<Rightarrow> MemorySet \<Rightarrow> mm_state \<Rightarrow> MapArea \<Rightarrow> bool" where
  "area_copied P s0 C s a \<longleftrightarrow>
     (\<forall>v \<in> set (area_pages a).
        (\<exists>f \<in> ms_data C. unat (the_ppn f) < 2 ^ 44
           \<and> pt_abs (page_table C) (mem s) v = Some (PageTableEntry_new f (map_perm a OR PTE_V)))
        \<and> page_contents (page_table C) (mem s) v = page_contents (page_table P) (mem s0) v)"

text \<open>A change of one frame that holds neither the page nor a table.\<close>

lemma page_contents_other_frame:
  assumes ms: "user_ms l ms s" and v: "v \<in> set (concat (map area_pages (areas ms)))"
    and same: "\<And>x. x \<notin> frame_bytes f \<Longrightarrow> m x = mem s x" and f: "f \<notin> set (pt_frames (page_table ms))" "(v, f) \<notin> ms_frames ms"
  shows "page_contents (page_table ms) m v = page_contents (page_table ms) (mem s) v"
proof -
  from user_ms_page [OF ms v] obtain g perm where g: "(v, g) \<in> ms_frames ms" "unat (the_ppn g) < 2 ^ 44"
    "pt_abs (page_table ms) (mem s) v = Some (PageTableEntry_new g perm)" by metis
  have other: "m x = mem s x" if "q \<noteq> f" "x \<in> frame_bytes q" for q x
    using same [of x] frame_bytes_disjoint [OF that(1)] that(2) by blast
  have wf: "pt_wf l (page_table ms) s" using ms by (simp add: user_ms_def)
  have "\<forall>q \<in> set (pt_frames (page_table ms)). \<forall>x \<in> frame_bytes q. m x = mem s x" using other f(1) by metis
  then have "pt_abs (page_table ms) m v = pt_abs (page_table ms) (mem s) v"
    using pt_wf_untouched(2) [OF wf, of "s\<lparr>mem := m\<rparr>" v] wf by (simp add: pt_wf_def)
  moreover have "frame_contents m g = frame_contents (mem s) g"
    using other [of g] g(1) f(2) by (intro frame_contents_cong) auto
  ultimately show ?thesis using g by (simp add: page_contents_def)
qed

lemma user_ms_untouched:
  assumes ms: "user_ms l ms s" and fa: "FRAME_ALLOCATOR s' = FRAME_ALLOCATOR s"
    and same: "\<forall>q \<in> set (pt_frames (page_table ms)). \<forall>x \<in> frame_bytes q. mem s' x = mem s x"
  shows "user_ms l ms s'" and "pt_abs (page_table ms) (mem s') v = pt_abs (page_table ms) (mem s) v"
proof -
  have wf: "pt_wf l (page_table ms) s" using ms by (simp add: user_ms_def)
  have "fa_inv l (FRAME_ALLOCATOR s')" "set (pt_frames (page_table ms)) \<subseteq> fa_live l (FRAME_ALLOCATOR s')"
    using wf by (simp_all add: pt_wf_def fa)
  note u = pt_wf_untouched [OF wf this same]
  show "user_ms l ms s'" using ms u(1) unfolding user_ms_def area_mapped_def fa u(2) by simp
  show "pt_abs (page_table ms) (mem s') v = pt_abs (page_table ms) (mem s) v" by (rule u(2))
qed

lemma user_ms_grows:
  assumes ms: "user_ms l ms s" and g: "grows l (own, s) (own', s')" and dis: "ms_own ms \<inter> own = {}"
  shows "user_ms l ms s'" and "pt_abs (page_table ms) (mem s') v = pt_abs (page_table ms) (mem s) v"
    and "f \<in> ms_own ms \<Longrightarrow> frame_contents (mem s') f = frame_contents (mem s) f" and "ms_own ms \<inter> own' = {}"
proof -
  note live = user_ms_own [OF ms]
  have wf: "pt_wf l (page_table ms) s" using ms by (simp add: user_ms_def)
  have "set (pt_frames (page_table ms)) \<inter> own = {}" using dis by (auto simp: ms_own_def)
  note u = pt_wf_grows [OF wf g this]
  have "ms_data ms \<subseteq> fa_live l (FRAME_ALLOCATOR s')" using live g by (auto simp: grows_def ms_own_def)
  then show "user_ms l ms s'" using ms u(1) unfolding user_ms_def area_mapped_def u(2) by simp
  show "pt_abs (page_table ms) (mem s') v = pt_abs (page_table ms) (mem s) v" by (rule u(2))
  show "frame_contents (mem s') f = frame_contents (mem s) f" if "f \<in> ms_own ms"
    by (rule frame_contents_cong) (rule grows_untouched(2) [OF g], use that live dis in auto)
  show "ms_own ms \<inter> own' = {}" using grows_untouched(1) [OF g] live dis by blast
qed

lemma area_frames:
  assumes "area_mapped pt m a"
  obtains ps where "length ps = length (area_pages a)" "set ps \<subseteq> snd ` set (data_frames a)"
    "\<forall>p \<in> set ps. unat (the_ppn p) < 2 ^ 44"
    "\<forall>i < length (area_pages a). \<exists>e. pt_abs pt m (area_pages a ! i) = Some e \<and> PageTableEntry_ppn e = ps ! i"
proof -
  from assms have "\<forall>v \<in> set (area_pages a). \<exists>f. (v, f) \<in> set (data_frames a) \<and> unat (the_ppn f) < 2 ^ 44
      \<and> pt_abs pt m v = Some (PageTableEntry_new f (map_perm a OR PTE_V))"
    by (simp add: area_mapped_def)
  then obtain F where F: "\<forall>v \<in> set (area_pages a). (v, F v) \<in> set (data_frames a) \<and> unat (the_ppn (F v)) < 2 ^ 44
      \<and> pt_abs pt m v = Some (PageTableEntry_new (F v) (map_perm a OR PTE_V))"
    by metis
  have "set (map F (area_pages a)) \<subseteq> snd ` set (data_frames a)" using F by force
  then show thesis using F by (intro that [of "map F (area_pages a)"]) auto
qed

lemma VPNRange_eta [simp]: "\<lparr>sr_l = sr_l r, sr_r = sr_r r\<rparr> = (r :: VPNRange)"
  by (cases r) simp

lemma copy_area_step:
  assumes P: "user_ms l P s0" "a \<in> set (areas P)"
    and C: "user_ms l C s" "grows l ({}, s0) (ms_own C, s)"
    and push: "MemorySet_push C (MapArea_from_another a) None s = Ok (C1, s1)"
  obtains s2 where "copy_pages P C1 (area_pages a) s1 = Ok s2" and "FRAME_ALLOCATOR s2 = FRAME_ALLOCATOR s1"
    and "user_ms l C1 s2" and "grows l ({}, s0) (ms_own C1, s2)" and "area_copied P s0 C1 s2 a"
    and "\<And>b. area_copied P s0 C s b \<Longrightarrow> area_copied P s0 C1 s2 b"
    and "\<exists>a'. areas C1 = areas C @ [a'] \<and> vpn_range a' = vpn_range a \<and> map_perm a' = map_perm a"
    and "\<And>v. \<forall>u \<in> set (area_pages a). \<not> same_page v u \<Longrightarrow>
      pt_abs (page_table C1) (mem s2) v = pt_abs (page_table C) (mem s) v"
proof -
  have aP: "area_mapped (page_table P) (mem s0) a" using P by (simp add: user_ms_def)
  let ?vs = "area_pages a"
  have an: "area_pages (MapArea_from_another a) = ?vs" "map_perm (MapArea_from_another a) = map_perm a"
    "map_type (MapArea_from_another a) = Framed" "data_frames (MapArea_from_another a) = []"
    "vpn_range (MapArea_from_another a) = vpn_range a"
    "sr_l (vpn_range (MapArea_from_another a)) \<le> sr_r (vpn_range (MapArea_from_another a))"
    using aP by (simp_all add: MapArea_from_another_def SimpleRange_new_def area_mapped_def)
  from push obtain fs a' where pm: "pages_mapped l (map_perm a) ?vs fs (page_table C, s) (page_table C1, s1)"
    and a': "areas C1 = areas C @ [a']" "vpn_range a' = vpn_range a" "map_perm a' = map_perm a"
    and g1: "grows l (ms_own C, s) (ms_own C1, s1)" and C1: "user_ms l C1 s1" "ms_data C1 = ms_data C \<union> set fs"
    using MemorySet_push_Framed [OF C(1) an(3,4,6) push] unfolding an by metis
  note g01 = grows_trans [OF C(2) g1]
  note P1 = user_ms_grows [OF P(1) g01, simplified]
  obtain ps where ps: "length ps = length ?vs" "set ps \<subseteq> snd ` set (data_frames a)"
    "\<forall>i < length ?vs. \<exists>e. pt_abs (page_table P) (mem s0) (?vs ! i) = Some e \<and> PageTableEntry_ppn e = ps ! i"
    by (rule area_frames [OF aP])
  have psP: "set ps \<subseteq> ms_own P" using ps(2) P(2) by (auto simp: ms_own_def ms_data_def)
  have fsC: "set fs \<subseteq> ms_own C1" using C1(2) by (auto simp: ms_own_def)
  have pmf: "length fs = length ?vs" "distinct fs" "set fs \<inter> set (pt_frames (page_table C1)) = {}"
    "\<forall>f \<in> set fs. unat (the_ppn f) < 2 ^ 44" "set fs \<inter> fa_live l (FRAME_ALLOCATOR s) = {}"
    "\<forall>i < length ?vs. pt_abs (page_table C1) (mem s1) (?vs ! i) = Some (PageTableEntry_new (fs ! i) (map_perm a OR PTE_V))"
    "writes (set (pt_frames (page_table C1)) \<union> set fs) s s1"
    "(set (pt_frames (page_table C1)) - set (pt_frames (page_table C))) \<inter> fa_live l (FRAME_ALLOCATOR s) = {}"
    using pm by (simp_all add: pages_mapped_def)
  have dis: "set fs \<inter> (set ps \<union> set (pt_frames (page_table P)) \<union> set (pt_frames (page_table C1))) = {}"
    using pmf(3) psP fsC P1(4) by (auto simp: ms_own_def)
  have "\<exists>s'. copy_pages P C1 ?vs s1 = Ok s' \<and> writes (set fs) s1 s' \<and> FRAME_ALLOCATOR s' = FRAME_ALLOCATOR s1
    \<and> (\<forall>i < length ?vs. frame_contents (mem s') (fs ! i) = frame_contents (mem s1) (ps ! i))"
    using pmf(1,2,4,6) ps(1,3) P1(1,2) C1(1) dis
    by (intro copy_pages_Ok [where l = l]) (auto simp: user_ms_def)
  then obtain s2 where copy: "copy_pages P C1 ?vs s1 = Ok s2"
    and s2: "writes (set fs) s1 s2" "FRAME_ALLOCATOR s2 = FRAME_ALLOCATOR s1"
    "\<And>i. i < length ?vs \<Longrightarrow> frame_contents (mem s2) (fs ! i) = frame_contents (mem s1) (ps ! i)" by blast
  have "\<forall>q \<in> set (pt_frames (page_table C1)). \<forall>x \<in> frame_bytes q. mem s2 x = mem s1 x"
    using writes_frame [OF s2(1)] pmf(3) by blast
  note C2 = user_ms_untouched [OF C1(1) s2(2) this]
  have w2: "writes (ms_own C1) s1 s2" using s2(1) fsC by (rule writes_mono)
  then have g2: "grows l ({}, s0) (ms_own C1, s2)"
    using g01 writes_trans [of "ms_own C1" s0 s1 "ms_own C1" s2] by (simp add: grows_def s2(2))
  have new: "area_copied P s0 C1 s2 a"
    unfolding area_copied_def
  proof
    fix v assume "v \<in> set ?vs"
    then obtain i where i: "i < length ?vs" "v = ?vs ! i" by (auto simp: in_set_conv_nth)
    have e: "pt_abs (page_table C1) (mem s2) v = Some (PageTableEntry_new (fs ! i) (map_perm a OR PTE_V))"
      using pmf(6) i C2(2) by simp
    have f: "fs ! i \<in> ms_data C1" "unat (the_ppn (fs ! i)) < 2 ^ 44" using i pmf(1,4) C1(2) by auto
    have "frame_contents (mem s1) (ps ! i) = frame_contents (mem s0) (ps ! i)"
      using i ps(1) psP by (intro P1(3)) auto
    moreover obtain e0 where "pt_abs (page_table P) (mem s0) v = Some e0" "PageTableEntry_ppn e0 = ps ! i"
      using ps(3) i by blast
    ultimately have "page_contents (page_table C1) (mem s2) v = page_contents (page_table P) (mem s0) v"
      using s2(3) [OF i(1)] f(2) e by (simp add: page_contents_def)
    with e f show "(\<exists>f \<in> ms_data C1. unat (the_ppn f) < 2 ^ 44
        \<and> pt_abs (page_table C1) (mem s2) v = Some (PageTableEntry_new f (map_perm a OR PTE_V)))
      \<and> page_contents (page_table C1) (mem s2) v = page_contents (page_table P) (mem s0) v" by blast
  qed
  have old: "area_copied P s0 C1 s2 b" if b: "area_copied P s0 C s b" for b
    unfolding area_copied_def
  proof
    fix v assume v: "v \<in> set (area_pages b)"
    with b obtain f where f: "f \<in> ms_data C" "unat (the_ppn f) < 2 ^ 44"
      "pt_abs (page_table C) (mem s) v = Some (PageTableEntry_new f (map_perm b OR PTE_V))"
      and pc: "page_contents (page_table C) (mem s) v = page_contents (page_table P) (mem s0) v"
      by (auto simp: area_copied_def)
    have wfC: "pt_wf l (page_table C) s" using C(1) by (simp add: user_ms_def)
    have e: "pt_abs (page_table C1) (mem s2) v = pt_abs (page_table C) (mem s) v"
      using pages_mapped_keeps [OF pm wfC, of v] f(3) C2(2) by simp
    have fl: "f \<in> fa_live l (FRAME_ALLOCATOR s)" "f \<notin> set (pt_frames (page_table C))"
      using C(1) f(1) by (auto simp: user_ms_def)
    then have nf: "f \<notin> set fs" "f \<notin> set (pt_frames (page_table C1)) \<union> set fs" using pmf(5,8) by auto
    have "frame_contents (mem s2) f = frame_contents (mem s) f"
      using writes_frame [OF s2(1) nf(1)] writes_frame [OF pmf(7) nf(2)] by (intro frame_contents_cong) simp
    then have "page_contents (page_table C1) (mem s2) v = page_contents (page_table P) (mem s0) v"
      using pc f(2,3) by (simp add: page_contents_def e)
    with e f C1(2) show "(\<exists>f \<in> ms_data C1. unat (the_ppn f) < 2 ^ 44
        \<and> pt_abs (page_table C1) (mem s2) v = Some (PageTableEntry_new f (map_perm b OR PTE_V)))
      \<and> page_contents (page_table C1) (mem s2) v = page_contents (page_table P) (mem s0) v" by auto
  qed
  have "pt_abs (page_table C1) (mem s2) v = pt_abs (page_table C) (mem s) v"
    if "\<forall>u \<in> set ?vs. \<not> same_page v u" for v
    using pm that by (simp add: pages_mapped_def C2(2))
  with copy s2(2) C2(1) g2 new old a' show thesis by (intro that [of s2]) blast+
qed

lemma copy_areas_Ok:
  assumes "user_ms l P s0" and "set as \<subseteq> set (areas P)"
    and "user_ms l C s" and "grows l ({}, s0) (ms_own C, s)" and "\<forall>b \<in> B. area_copied P s0 C s b"
    and "copy_areas P as C s = Ok (C', s')"
  shows "user_ms l C' s' \<and> grows l ({}, s0) (ms_own C', s')
    \<and> (\<forall>b \<in> B \<union> set as. area_copied P s0 C' s' b)
    \<and> map vpn_range (areas C') = map vpn_range (areas C @ as)
    \<and> map map_perm (areas C') = map map_perm (areas C @ as)"
  using assms
proof (induction as arbitrary: C s B)
  case (Cons a as)
  from Cons.prems(6) obtain C1 s1 s2 where push: "MemorySet_push C (MapArea_from_another a) None s = Ok (C1, s1)"
    and copy: "copy_pages P C1 (area_pages a) s1 = Ok s2" and rest: "copy_areas P as C1 s2 = Ok (C', s')"
    by (auto simp: and_then_eq_Ok_conv)
  have a: "a \<in> set (areas P)" using Cons.prems(2) by simp
  from copy_area_step [OF Cons.prems(1) a Cons.prems(3,4) push] copy
  have step: "user_ms l C1 s2" "grows l ({}, s0) (ms_own C1, s2)" "area_copied P s0 C1 s2 a"
    "\<And>b. area_copied P s0 C s b \<Longrightarrow> area_copied P s0 C1 s2 b"
    "\<exists>a'. areas C1 = areas C @ [a'] \<and> vpn_range a' = vpn_range a \<and> map_perm a' = map_perm a"
    by (metis outcome.inject(1))+
  have B: "\<forall>b \<in> insert a B. area_copied P s0 C1 s2 b" using step(3,4) Cons.prems(5) by blast
  from step(5) obtain a' where a': "areas C1 = areas C @ [a']" "vpn_range a' = vpn_range a" "map_perm a' = map_perm a" by blast
  have "set as \<subseteq> set (areas P)" using Cons.prems(2) by simp
  from Cons.IH [OF Cons.prems(1) this step(1,2) B rest] a' show ?case by auto
qed simp

lemma new_bare_Ok:
  assumes "fa_inv l (FRAME_ALLOCATOR s)" and "new_bare s = Ok (ms, s')"
  shows "user_ms l ms s'" and "grows l ({}, s) (ms_own ms, s')" and "areas ms = []"
    and "pt_abs (page_table ms) (mem s') v = None"
proof -
  from assms(2) obtain pt where pt: "PageTable_new s = Ok (pt, s')" "ms = \<lparr>page_table = pt, areas = []\<rparr>"
    by (auto simp: new_bare_def and_then_eq_Ok_conv)
  note n = PageTable_new_Ok [OF assms(1) pt(1)]
  show "user_ms l ms s'" using n(1) by (simp add: user_ms_def pt(2) ms_data_def ms_data_list_def)
  show "grows l ({}, s) (ms_own ms, s')"
    using n(1,3-6) by (auto simp: grows_def ms_own_def ms_data_def pt(2) writes_def pt_wf_def)
  show "areas ms = []" "pt_abs (page_table ms) (mem s') v = None" using n(2) by (simp_all add: pt(2))
qed

lemma map_trampoline_Ok:
  assumes ms: "user_ms l ms s" and map: "map_trampoline tramp ms s = Ok (ms', s')"
  shows "user_ms l ms' s'" and "grows l (ms_own ms, s) (ms_own ms', s')" and "areas ms' = areas ms"
    and "ms_data ms' = ms_data ms"
proof -
  from map obtain vpn ppn pt where pt: "PageTable_map (page_table ms) vpn ppn (PTE_R OR PTE_X) s = Ok (pt, s')"
    and ms': "ms' = ms\<lparr>page_table := pt\<rparr>"
    by (auto simp: map_trampoline_def and_then_eq_Ok_conv)
  have wf: "pt_wf l (page_table ms) s" and dis: "ms_data ms \<inter> set (pt_frames (page_table ms)) = {}"
    and live: "ms_data ms \<subseteq> fa_live l (FRAME_ALLOCATOR s)"
    using ms by (simp_all add: user_ms_def)
  note mo = PageTable_map_Ok [OF wf pt]
  have sub: "set (pt_frames (page_table ms)) \<subseteq> ms_own ms" by (simp add: ms_own_def)
  note g = grows_PageTable_map [OF wf pt sub user_ms_own [OF ms]]
  have data: "ms_data ms' = ms_data ms" by (simp add: ms' ms_data_def)
  have own: "ms_own ms \<union> set (pt_frames pt) = ms_own ms'" using mo(5) by (auto simp: ms_own_def ms' ms_data_def)
  have kept: "pt_abs pt (mem s') v = pt_abs (page_table ms) (mem s) v" if "pt_abs (page_table ms) (mem s) v \<noteq> None" for v
    using mo(2,3) that pt_abs_same_page [OF _ wf, of v vpn] by auto
  have "area_mapped pt (mem s') a" if "a \<in> set (areas ms)" for a
    by (rule area_mapped_kept [of "page_table ms" "mem s"]) (use ms that kept in \<open>auto simp: user_ms_def\<close>)
  moreover have "ms_data ms \<inter> set (pt_frames pt) = {}" using dis live mo(6) by blast
  moreover have "ms_data ms \<subseteq> fa_live l (FRAME_ALLOCATOR s')" using live mo(7) by blast
  moreover have "distinct (ms_data_list ms)" using ms by (simp add: user_ms_def)
  ultimately show "user_ms l ms' s'" using mo(1) by (simp add: user_ms_def data) (simp add: ms' ms_data_list_def)
  show "grows l (ms_own ms, s) (ms_own ms', s')" using g(1) by (simp only: own)
  show "areas ms' = areas ms" "ms_data ms' = ms_data ms" by (simp_all add: ms' ms_data_def)
qed

lemma from_existed_user_Ok:
  assumes P: "user_ms l P s" and copy: "from_existed_user tramp P s = Ok (C, s')"
  shows "user_ms l C s'" and "grows l ({}, s) (ms_own C, s')"
    and "a \<in> set (areas P) \<Longrightarrow> area_copied P s C s' a"
    and "map vpn_range (areas C) = map vpn_range (areas P)" and "map map_perm (areas C) = map map_perm (areas P)"
proof -
  from copy obtain ms1 s1 ms2 s2 where bare: "new_bare s = Ok (ms1, s1)"
    and tr: "map_trampoline tramp ms1 s1 = Ok (ms2, s2)" and cp: "copy_areas P (areas P) ms2 s2 = Ok (C, s')"
    by (auto simp: from_existed_user_def and_then_eq_Ok_conv)
  have inv: "fa_inv l (FRAME_ALLOCATOR s)" using P by (simp add: user_ms_def pt_wf_def)
  note b = new_bare_Ok [OF inv bare]
  note t = map_trampoline_Ok [OF b(1) tr]
  have "\<forall>b \<in> {}. area_copied P s ms2 s2 b" by simp
  from copy_areas_Ok [OF P order_refl t(1) grows_trans [OF b(2) t(2)] this cp] b(3) t(3)
  show "user_ms l C s'" and "grows l ({}, s) (ms_own C, s')"
    and "a \<in> set (areas P) \<Longrightarrow> area_copied P s C s' a"
    and "map vpn_range (areas C) = map vpn_range (areas P)" and "map map_perm (areas C) = map map_perm (areas P)"
    by simp_all
qed

lemma MemorySet_push_is_ok:
  assumes ms: "user_ms l ms s" and a: "map_type a = Framed" "data_frames a = []" "sr_l (vpn_range a) \<le> sr_r (vpn_range a)"
    and "\<forall>v \<in> set (area_pages a). pt_abs (page_table ms) (mem s) v = None"
    and "pairwise (\<lambda>u v. \<not> same_page u v) (set (area_pages a))"
    and "3 * length (area_pages a) \<le> fa_free (FRAME_ALLOCATOR s)"
  shows "\<exists>ms' s'. MemorySet_push ms a None s = Ok (ms', s')
    \<and> fa_free (FRAME_ALLOCATOR s) \<le> fa_free (FRAME_ALLOCATOR s') + 3 * length (area_pages a)"
proof -
  have "pt_wf l (page_table ms) s" using ms by (simp add: user_ms_def)
  from map_pages_is_ok [OF this a(1) _ distinct_VPNRange_list [OF a(3)] assms(6,7)] assms(5) a(2)
  obtain a' pt' s' where "map_pages (area_pages a) a (page_table ms) s = Ok (a', pt', s')"
    "fa_free (FRAME_ALLOCATOR s) \<le> fa_free (FRAME_ALLOCATOR s') + 3 * length (area_pages a)" by auto
  then show ?thesis by (auto simp: MemorySet_push_def MapArea_map_def)
qed

lemma copy_areas_is_ok:
  assumes "user_ms l P s0" and "set as \<subseteq> set (areas P)"
    and "user_ms l C s" and "grows l ({}, s0) (ms_own C, s)"
    and "distinct (concat (map area_pages as))"
    and "pairwise (\<lambda>u v. \<not> same_page u v) (set (concat (map area_pages as)))"
    and "\<forall>v \<in> set (concat (map area_pages as)). pt_abs (page_table C) (mem s) v = None"
    and "3 * length (concat (map area_pages as)) \<le> fa_free (FRAME_ALLOCATOR s)"
  shows "\<exists>C' s'. copy_areas P as C s = Ok (C', s')"
  using assms
proof (induction as arbitrary: C s)
  case (Cons a as)
  have a: "a \<in> set (areas P)" "set as \<subseteq> set (areas P)" using Cons.prems(2) by simp_all
  then have am: "area_mapped (page_table P) (mem s0) a" using Cons.prems(1) by (simp add: user_ms_def)
  let ?b = "MapArea_from_another a"
  have b: "map_type ?b = Framed" "data_frames ?b = []" "sr_l (vpn_range ?b) \<le> sr_r (vpn_range ?b)"
    "area_pages ?b = area_pages a"
    using am by (simp_all add: MapArea_from_another_def SimpleRange_new_def area_mapped_def)
  have pw: "pairwise (\<lambda>u v. \<not> same_page u v) (set (area_pages a))"
    "pairwise (\<lambda>u v. \<not> same_page u v) (set (concat (map area_pages as)))"
    using Cons.prems(6) by (auto elim!: pairwise_subset)
  from MemorySet_push_is_ok [OF Cons.prems(3) b(1-3)] b(4) pw(1) Cons.prems(7,8)
  obtain C1 s1 where push: "MemorySet_push C ?b None s = Ok (C1, s1)"
    and free: "fa_free (FRAME_ALLOCATOR s) \<le> fa_free (FRAME_ALLOCATOR s1) + 3 * length (area_pages a)" by auto
  from copy_area_step [OF Cons.prems(1) a(1) Cons.prems(3,4) push] obtain s2
    where s2: "copy_pages P C1 (area_pages a) s1 = Ok s2" "FRAME_ALLOCATOR s2 = FRAME_ALLOCATOR s1"
      "user_ms l C1 s2" "grows l ({}, s0) (ms_own C1, s2)"
      "\<And>v. \<forall>u \<in> set (area_pages a). \<not> same_page v u \<Longrightarrow>
        pt_abs (page_table C1) (mem s2) v = pt_abs (page_table C) (mem s) v" by metis
  have "\<not> same_page v u" if "v \<in> set (concat (map area_pages as))" "u \<in> set (area_pages a)" for u v
  proof -
    have "v \<noteq> u" using Cons.prems(5) that by auto
    with Cons.prems(6) that show ?thesis by (auto dest: pairwiseD)
  qed
  then have "\<forall>v \<in> set (concat (map area_pages as)). pt_abs (page_table C1) (mem s2) v = None"
    using s2(5) Cons.prems(7) by simp
  moreover have "3 * length (concat (map area_pages as)) \<le> fa_free (FRAME_ALLOCATOR s2)"
    using Cons.prems(8) free s2(2) by simp
  moreover have "distinct (concat (map area_pages as))" using Cons.prems(5) by simp
  ultimately obtain C' s' where "copy_areas P as C1 s2 = Ok (C', s')"
    using Cons.IH [OF Cons.prems(1) a(2) s2(3,4)] pw(2) by blast
  with push s2(1) show ?case by simp
qed simp

text \<open>The page number of the trampoline.\<close>

lemma TRAMPOLINE_vpn:
  "VirtPageNum_from_VirtAddr (VirtAddr_from_usize TRAMPOLINE) = Ok (VirtPageNum 0x7FFFFFF)"
proof -
  have va: "VirtAddr_from_usize TRAMPOLINE = VirtAddr 0x7FFFFFF000"
    by (rule VirtAddr.expand) (simp add: word_unat_eq_iff, simp add: const_defs)
  have "VirtAddr_page_offset (VirtAddr 0x7FFFFFF000) = 0" "VirtAddr_floor (VirtAddr 0x7FFFFFF000) = VirtPageNum 0x7FFFFFF"
    by (simp_all add: VirtAddr_page_offset_def VirtAddr_floor_def PAGE_SIZE_def)
  then show ?thesis by (simp add: VirtPageNum_from_VirtAddr_def va)
qed

lemma bare_with_trampoline:
  assumes inv: "fa_inv l (FRAME_ALLOCATOR s)" and tramp: "PhysAddr_page_offset (PhysAddr_from_usize tramp) = 0" and free: "3 \<le> fa_free (FRAME_ALLOCATOR s)"
  obtains ms1 s1 ms2 s2 where "new_bare s = Ok (ms1, s1)" "map_trampoline tramp ms1 s1 = Ok (ms2, s2)" "user_ms l ms2 s2"
    "grows l ({}, s) (ms_own ms2, s2)" "areas ms2 = []" "fa_free (FRAME_ALLOCATOR s) \<le> fa_free (FRAME_ALLOCATOR s2) + 3"
    "\<And>v. \<not> same_page v (VirtPageNum 0x7FFFFFF) \<Longrightarrow> pt_abs (page_table ms2) (mem s2) v = None"
proof -
  obtain r s1 where al: "frame_alloc s = (r, s1)" by (cases "frame_alloc s")
  from frame_alloc_fa_free [OF inv al] free obtain f
    where r: "r = Some f" and f1: "fa_free (FRAME_ALLOCATOR s) = Suc (fa_free (FRAME_ALLOCATOR s1))" by auto
  define ms1 where "ms1 = \<lparr>page_table = \<lparr>root_ppn = f, pt_frames = [f]\<rparr>, areas = []\<rparr>"
  have bare: "new_bare s = Ok (ms1, s1)" by (simp add: new_bare_def PageTable_new_def al r ms1_def)
  note b = new_bare_Ok [OF inv bare]
  have wf1: "pt_wf l (page_table ms1) s1" using b(1) by (simp add: user_ms_def)
  obtain ppn where ppn: "PhysPageNum_from_PhysAddr (PhysAddr_from_usize tramp) = Ok ppn"
    using tramp by (simp add: PhysPageNum_from_PhysAddr_def)
  from PageTable_map_is_ok [OF wf1 _ b(4), of "VirtPageNum 0x7FFFFFF" ppn "PTE_R OR PTE_X"] free f1 obtain pt2 s2
    where map: "PageTable_map (page_table ms1) (VirtPageNum 0x7FFFFFF) ppn (PTE_R OR PTE_X) s1 = Ok (pt2, s2)" by auto
  then have tr: "map_trampoline tramp ms1 s1 = Ok (ms1\<lparr>page_table := pt2\<rparr>, s2)"
    by (simp add: map_trampoline_def TRAMPOLINE_vpn ppn)
  note t = map_trampoline_Ok [OF b(1) tr]
  have "pt_abs (page_table (ms1\<lparr>page_table := pt2\<rparr>)) (mem s2) v = None" if "\<not> same_page v (VirtPageNum 0x7FFFFFF)" for v
    using PageTable_map_Ok(3) [OF wf1 map] that b(4) by simp
  moreover have "fa_free (FRAME_ALLOCATOR s) \<le> fa_free (FRAME_ALLOCATOR s2) + 3" using PageTable_map_free [OF wf1 map] f1 by simp
  ultimately show thesis using that [OF bare tr t(1) grows_trans [OF b(2) t(2)]] b(3) t(3) by simp
qed

lemma from_existed_user_is_ok:
  assumes P: "user_ms l P s" and tramp: "PhysAddr_page_offset (PhysAddr_from_usize tramp) = 0"
    and pages: "distinct (concat (map area_pages (areas P)))"
      "pairwise (\<lambda>u v. \<not> same_page u v) (set (concat (map area_pages (areas P))))"
      "\<forall>v \<in> set (concat (map area_pages (areas P))). \<not> same_page v (VirtPageNum 0x7FFFFFF)"
    and free: "3 * length (concat (map area_pages (areas P))) + 3 \<le> fa_free (FRAME_ALLOCATOR s)"
  shows "\<exists>C s'. from_existed_user tramp P s = Ok (C, s')"
proof -
  have inv: "fa_inv l (FRAME_ALLOCATOR s)" using P by (simp add: user_ms_def pt_wf_def)
  obtain ms1 s1 ms2 s2 where b: "new_bare s = Ok (ms1, s1)" "map_trampoline tramp ms1 s1 = Ok (ms2, s2)" "user_ms l ms2 s2"
    "grows l ({}, s) (ms_own ms2, s2)" "fa_free (FRAME_ALLOCATOR s) \<le> fa_free (FRAME_ALLOCATOR s2) + 3"
    "\<And>v. \<not> same_page v (VirtPageNum 0x7FFFFFF) \<Longrightarrow> pt_abs (page_table ms2) (mem s2) v = None"
    by (rule bare_with_trampoline [OF inv tramp]) (use free in auto)
  have "\<forall>v \<in> set (concat (map area_pages (areas P))). pt_abs (page_table ms2) (mem s2) v = None" using pages(3) b(6) by blast
  moreover have "3 * length (concat (map area_pages (areas P))) \<le> fa_free (FRAME_ALLOCATOR s2)" using free b(5) by simp
  ultimately obtain C s' where "copy_areas P (areas P) ms2 s2 = Ok (C, s')"
    using copy_areas_is_ok [OF P order_refl b(3,4) pages(1,2)] by blast
  then show ?thesis by (simp add: from_existed_user_def b(1,2))
qed

section \<open>Giving frames back\<close>

lemma drop_frames_Ok:
  assumes "fa_inv l (FRAME_ALLOCATOR s)" and "distinct fs" and "set fs \<subseteq> fa_live l (FRAME_ALLOCATOR s)"
  shows "\<exists>s'. drop_frames fs s = Ok s' \<and> mem s' = mem s \<and> fa_inv l (FRAME_ALLOCATOR s')
    \<and> fa_live l (FRAME_ALLOCATOR s') = fa_live l (FRAME_ALLOCATOR s) - set fs"
  using assms
proof (induction fs arbitrary: s)
  case (Cons f fs)
  have "f \<in> fa_live l (FRAME_ALLOCATOR s)" using Cons.prems(3) by simp
  from frames.dealloc_live [where s = "FRAME_ALLOCATOR s" and i = f and l = l] Cons.prems(1) this obtain a
    where a: "StackFrameAllocator_dealloc f (FRAME_ALLOCATOR s) = Ok a"
      "fa_live l a = fa_live l (FRAME_ALLOCATOR s) - {f}" "fa_inv l a" by auto
  then have "frame_dealloc f s = Ok (s\<lparr>FRAME_ALLOCATOR := a\<rparr>)" by (simp add: frame_dealloc_def)
  moreover have "set fs \<subseteq> fa_live l (FRAME_ALLOCATOR s) - {f}" using Cons.prems by auto
  moreover have "fa_live l (FRAME_ALLOCATOR s) - set (f # fs) = fa_live l (FRAME_ALLOCATOR s) - {f} - set fs" by auto
  ultimately show ?case
    using Cons.IH [of "s\<lparr>FRAME_ALLOCATOR := a\<rparr>"] Cons.prems(2) a by simp
qed simp

text \<open>Frames of others are given back.\<close>

lemma user_ms_shrinks:
  assumes ms: "user_ms l ms s" and s': "fa_inv l (FRAME_ALLOCATOR s')" "fa_live l (FRAME_ALLOCATOR s') = fa_live l (FRAME_ALLOCATOR s) - X" "mem s' = mem s"
    and "ms_own ms \<inter> X = {}"
  shows "user_ms l ms s'"
proof -
  have own: "ms_own ms \<subseteq> fa_live l (FRAME_ALLOCATOR s')" using user_ms_own [OF ms] assms(5) s'(2) by auto
  have "pt_wf l (page_table ms) s" using ms by (simp add: user_ms_def)
  from pt_wf_untouched(1) [OF this s'(1)] own s'(3) have "pt_wf l (page_table ms) s'" by (simp add: ms_own_def)
  then show ?thesis using ms own s'(3) by (simp add: user_ms_def ms_own_def)
qed

lemma MemorySet_drop_Ok:
  assumes ms: "user_ms l ms s" and d: "distinct (pt_frames (page_table ms))"
  obtains s' where "MemorySet_drop ms s = Ok s'" "mem s' = mem s" "fa_inv l (FRAME_ALLOCATOR s')"
    "fa_live l (FRAME_ALLOCATOR s') = fa_live l (FRAME_ALLOCATOR s) - ms_own ms"
proof -
  have u: "fa_inv l (FRAME_ALLOCATOR s)" "set (pt_frames (page_table ms)) \<subseteq> fa_live l (FRAME_ALLOCATOR s)"
    "ms_data ms \<subseteq> fa_live l (FRAME_ALLOCATOR s)" "ms_data ms \<inter> set (pt_frames (page_table ms)) = {}" "distinct (ms_data_list ms)"
    using ms by (simp_all add: user_ms_def pt_wf_def)
  from drop_frames_Ok [OF u(1) d u(2)] obtain s1
    where s1: "drop_frames (pt_frames (page_table ms)) s = Ok s1" "mem s1 = mem s" "fa_inv l (FRAME_ALLOCATOR s1)"
      "fa_live l (FRAME_ALLOCATOR s1) = fa_live l (FRAME_ALLOCATOR s) - set (pt_frames (page_table ms))" by blast
  have "set (ms_data_list ms) \<subseteq> fa_live l (FRAME_ALLOCATOR s1)" using u(3,4) s1(4) by auto
  from drop_frames_Ok [OF s1(3) u(5) this] s1 that show thesis
    by (auto simp: MemorySet_drop_def release_areas_def ms_own_def ms_data_list_def [symmetric])
qed

section \<open>Properties\<close>

text \<open>
  Inserting a framed segment into a user address space: each of its pages, none of which
  was mapped, is mapped with the requested permissions to a frame of its own that nobody
  used and that reads as zero; every other page translates as before, and no frame of
  another owner is touched. The address space stays well formed.
\<close>

theorem insert_framed_area_maps:
  assumes "user_ms l ms s" and "VirtAddr_floor start_va \<le> VirtAddr_ceil end_va"
    and "insert_framed_area ms start_va end_va perm s = Ok (ms', s')"
  shows "user_ms l ms' s'
    \<and> (\<exists>fs. distinct fs \<and> set fs \<inter> fa_live l (FRAME_ALLOCATOR s) = {}
        \<and> length fs = unat (the_vpn (VirtAddr_ceil end_va)) - unat (the_vpn (VirtAddr_floor start_va))
        \<and> (\<forall>i < length fs.
             let v = VirtPageNum (the_vpn (VirtAddr_floor start_va) + of_nat i)
             in pt_abs (page_table ms) (mem s) v = None
                \<and> pt_abs (page_table ms') (mem s') v = Some (PageTableEntry_new (fs ! i) (perm OR PTE_V))
                \<and> frame_contents (mem s') (fs ! i) = replicate 4096 0))
    \<and> (\<forall>v. pt_abs (page_table ms) (mem s) v \<noteq> None \<longrightarrow>
         pt_abs (page_table ms') (mem s') v = pt_abs (page_table ms) (mem s) v)
    \<and> (\<forall>f \<in> fa_live l (FRAME_ALLOCATOR s) - ms_own ms. frame_contents (mem s') f = frame_contents (mem s) f)"
proof -
  let ?a = "MapArea_new start_va end_va Framed perm" and ?v0 = "the_vpn (VirtAddr_floor start_va)"
  have a: "map_type ?a = Framed" "data_frames ?a = []" "sr_l (vpn_range ?a) \<le> sr_r (vpn_range ?a)" "map_perm ?a = perm"
    using assms(2) by (simp_all add: MapArea_new_def SimpleRange_new_def)
  from assms(3) obtain fs where pm: "pages_mapped l perm (area_pages ?a) fs (page_table ms, s) (page_table ms', s')"
    and g: "grows l (ms_own ms, s) (ms_own ms', s')" and ms': "user_ms l ms' s'"
    using MemorySet_push_Framed [OF assms(1) a(1-3)] unfolding insert_framed_area_def a(4) by metis
  have pages: "map (unat \<circ> the_vpn) (area_pages ?a) = [unat ?v0..<unat (the_vpn (VirtAddr_ceil end_va))]"
    using assms(2) vpn_iter_upto [of ?v0 "the_vpn (VirtAddr_ceil end_va)"]
    by (simp add: MapArea_new_def SimpleRange_new_def VPNRange_list_def SimpleRange_into_iter_def
        less_eq_VirtPageNum_def word_le_nat_alt)
  then have len: "length (area_pages ?a) = unat (the_vpn (VirtAddr_ceil end_va)) - unat ?v0"
    by (metis length_map length_upt)
  have page: "area_pages ?a ! i = VirtPageNum (?v0 + of_nat i)" if "i < length (area_pages ?a)" for i
  proof -
    have "unat (the_vpn (area_pages ?a ! i)) = unat ?v0 + i"
      using arg_cong [OF pages, of "\<lambda>xs. xs ! i"] that len by simp
    from arg_cong [OF this, of "of_nat :: nat \<Rightarrow> usize"]
    have "the_vpn (area_pages ?a ! i) = ?v0 + of_nat i" by (simp del: unat_VirtAddr_floor)
    then show ?thesis by (metis VirtPageNum.collapse)
  qed
  have pmf: "length fs = length (area_pages ?a)" "distinct fs" "set fs \<inter> fa_live l (FRAME_ALLOCATOR s) = {}"
    "\<forall>v \<in> set (area_pages ?a). pt_abs (page_table ms) (mem s) v = None"
    "\<forall>i < length (area_pages ?a). pt_abs (page_table ms') (mem s') (area_pages ?a ! i) = Some (PageTableEntry_new (fs ! i) (perm OR PTE_V))"
    "\<forall>f \<in> set fs. \<forall>x \<in> frame_bytes f. mem s' x = 0"
    using pm by (simp_all add: pages_mapped_def)
  have zero: "frame_contents (mem s') f = replicate 4096 0" if "f \<in> set fs" for f
    unfolding frame_contents_def using pmf(6) that
    by (intro nth_equalityI) (auto simp: load_bytes_nth frame_bytes_def)
  have "\<forall>i < length fs. let v = VirtPageNum (?v0 + of_nat i)
      in pt_abs (page_table ms) (mem s) v = None
        \<and> pt_abs (page_table ms') (mem s') v = Some (PageTableEntry_new (fs ! i) (perm OR PTE_V))
        \<and> frame_contents (mem s') (fs ! i) = replicate 4096 0"
    unfolding Let_def using page pmf(1,4,5) zero by (metis nth_mem)
  moreover have "frame_contents (mem s') f = frame_contents (mem s) f"
    if "f \<in> fa_live l (FRAME_ALLOCATOR s) - ms_own ms" for f
    by (rule frame_contents_cong) (rule grows_untouched(2) [OF g], use that in auto)
  moreover have "pt_wf l (page_table ms) s" using assms(1) by (simp add: user_ms_def)
  ultimately show ?thesis
    using ms' pmf(1-3) len pages_mapped_keeps [OF pm] by (intro conjI exI [of _ fs]) (simp_all only: simp_thms Ball_def, blast+)
qed

text \<open>
  C1. Forking an address space: \<^verbatim>\<open>MemorySet::from_existed_user\<close> gives the child the same
  segments with the same permissions and, page by page, the same contents as the parent, in
  frames that nobody used before; afterwards parent and child share no frame, and nothing
  in the parent's address space has changed.
\<close>

theorem from_existed_user_isolated:
  assumes "user_ms l P s" and "from_existed_user tramp P s = Ok (C, s')"
  shows "user_ms l C s' \<and> user_ms l P s'
    \<and> ms_own C \<inter> ms_own P = {} \<and> ms_own C \<inter> fa_live l (FRAME_ALLOCATOR s) = {}
    \<and> map vpn_range (areas C) = map vpn_range (areas P) \<and> map map_perm (areas C) = map map_perm (areas P)
    \<and> (\<forall>a \<in> set (areas P). \<forall>v \<in> set (VPNRange_list (vpn_range a)).
         page_contents (page_table C) (mem s') v = page_contents (page_table P) (mem s) v
         \<and> page_contents (page_table P) (mem s) v \<noteq> None)
    \<and> (\<forall>v. pt_abs (page_table P) (mem s') v = pt_abs (page_table P) (mem s) v)
    \<and> (\<forall>f \<in> ms_own P. frame_contents (mem s') f = frame_contents (mem s) f)"
proof -
  note C = from_existed_user_Ok [OF assms]
  note P = user_ms_grows [OF assms(1) C(2), simplified]
  have fresh: "ms_own C \<inter> fa_live l (FRAME_ALLOCATOR s) = {}" using C(2) by (simp add: grows_def)
  have contents: "page_contents (page_table C) (mem s') v = page_contents (page_table P) (mem s) v
      \<and> page_contents (page_table P) (mem s) v \<noteq> None"
    if "a \<in> set (areas P)" "v \<in> set (area_pages a)" for a v
  proof -
    have "area_mapped (page_table P) (mem s) a" using assms(1) that(1) by (simp add: user_ms_def)
    then have "pt_abs (page_table P) (mem s) v \<noteq> None" using that(2) by (auto simp: area_mapped_def)
    with C(3) [OF that(1)] that(2) show ?thesis by (auto simp: area_copied_def page_contents_def)
  qed
  show ?thesis using C(1,4,5) P fresh contents by blast
qed

text \<open>
  C39. Forking succeeds whenever three frames are free for each page of the parent and three
  more for the child's root table and its trampoline: no assertion on the way can fail.
\<close>

theorem from_existed_user_succeeds:
  assumes "user_ms l P s" and "PhysAddr_page_offset (PhysAddr_from_usize tramp) = 0"
    and "distinct (concat (map (VPNRange_list \<circ> vpn_range) (areas P)))"
    and "\<forall>u \<in> set (concat (map (VPNRange_list \<circ> vpn_range) (areas P))).
      \<forall>v \<in> set (concat (map (VPNRange_list \<circ> vpn_range) (areas P))). u \<noteq> v \<longrightarrow> \<not> same_page u v"
    and "\<forall>v \<in> set (concat (map (VPNRange_list \<circ> vpn_range) (areas P))). \<not> same_page v (VirtPageNum 0x7FFFFFF)"
    and "3 * length (concat (map (VPNRange_list \<circ> vpn_range) (areas P))) + 3 \<le> fa_free (FRAME_ALLOCATOR s)"
  shows "\<exists>C s'. from_existed_user tramp P s = Ok (C, s')"
  using from_existed_user_is_ok [OF assms(1,2)] assms(3-6) by (simp add: pairwise_def comp_def)

text \<open>
  C38. Dropping an address space always succeeds and gives back exactly the frames it owned,
  those of its page table and those of its segments; memory is left as it is. Releasing the
  segments alone (when a process becomes a zombie) gives back exactly the data frames.
\<close>

theorem MemorySet_drop_returns_frames:
  assumes "user_ms l ms s" and "distinct (pt_frames (page_table ms))"
  shows "(\<exists>s'. MemorySet_drop ms s = Ok s' \<and> mem s' = mem s \<and> fa_inv l (FRAME_ALLOCATOR s')
      \<and> fa_live l (FRAME_ALLOCATOR s') = fa_live l (FRAME_ALLOCATOR s) - ms_own ms)
    \<and> (\<exists>ms' s'. release_areas ms s = Ok (ms', s') \<and> areas ms' = [] \<and> page_table ms' = page_table ms
      \<and> mem s' = mem s \<and> fa_inv l (FRAME_ALLOCATOR s')
      \<and> fa_live l (FRAME_ALLOCATOR s') = fa_live l (FRAME_ALLOCATOR s) - ms_data ms)"
proof -
  have u: "fa_inv l (FRAME_ALLOCATOR s)" "ms_data ms \<subseteq> fa_live l (FRAME_ALLOCATOR s)" "distinct (ms_data_list ms)"
    using assms(1) by (simp_all add: user_ms_def pt_wf_def)
  obtain s' where "MemorySet_drop ms s = Ok s'" "mem s' = mem s" "fa_inv l (FRAME_ALLOCATOR s')"
    "fa_live l (FRAME_ALLOCATOR s') = fa_live l (FRAME_ALLOCATOR s) - ms_own ms"
    by (rule MemorySet_drop_Ok [OF assms])
  with drop_frames_Ok [OF u(1,3)] u(2) show ?thesis
    by (auto simp: release_areas_def ms_data_list_def [symmetric])
qed

section \<open>Examples\<close>

text \<open>An address space with one segment of two pages.\<close>

definition ms_example0 :: MemorySet where
  "ms_example0 = \<lparr>page_table = pt_example, areas = []\<rparr>"

definition ms_example :: "(MemorySet \<times> mm_state) outcome" where
  "ms_example = insert_framed_area ms_example0 (VirtAddr 0x1000) (VirtAddr 0x3000) (MP_R OR MP_W OR MP_U) mm_example1"

lemma ms_example0_ok: "user_ms 0x80600 ms_example0 mm_example1" "pt_abs (page_table ms_example0) (mem mm_example1) v = None"
proof -
  have "new_bare mm_example = Ok (ms_example0, mm_example1)"
    by (simp add: new_bare_def PageTable_new_example ms_example0_def)
  then show "user_ms 0x80600 ms_example0 mm_example1" "pt_abs (page_table ms_example0) (mem mm_example1) v = None"
    using new_bare_Ok [OF mm_example_inv] by blast+
qed

lemma ms_example_range:
  "VirtAddr_floor (VirtAddr 0x1000) = VirtPageNum 1" "VirtAddr_ceil (VirtAddr 0x3000) = VirtPageNum 3"
  "VPNRange_list (SimpleRange_new (VirtPageNum 1) (VirtPageNum 3)) = [VirtPageNum 1, VirtPageNum 2]"
  by (simp_all add: VirtAddr_floor_def VirtAddr_ceil_def PAGE_SIZE_def VPNRange_list_def SimpleRange_into_iter_def
      SimpleRange_new_def vpn_iter.simps SimpleRangeIterator_next_def VirtPageNum_step_def)

lemma ms_example_ok:
  obtains ms s a where "ms_example = Ok (ms, s)" "user_ms 0x80600 ms s" "areas ms = [a]"
    "VPNRange_list (vpn_range a) = [VirtPageNum 1, VirtPageNum 2]" "500 \<le> fa_free (FRAME_ALLOCATOR s)"
proof -
  let ?a = "MapArea_new (VirtAddr 0x1000) (VirtAddr 0x3000) Framed (MP_R OR MP_W OR MP_U)"
  have a: "map_type ?a = Framed" "data_frames ?a = []" "sr_l (vpn_range ?a) \<le> sr_r (vpn_range ?a)"
    "area_pages ?a = [VirtPageNum 1, VirtPageNum 2]"
    by (simp_all add: MapArea_new_def ms_example_range) (simp add: SimpleRange_new_def less_eq_VirtPageNum_def)
  have "pairwise (\<lambda>u v. \<not> same_page u v) (set (area_pages ?a))"
    by (auto simp: a(4) pairwise_def same_page_def)
  with MemorySet_push_is_ok [OF ms_example0_ok(1) a(1-3)] a(4) ms_example0_ok(2) mm_example1_free
  obtain ms s where push: "MemorySet_push ms_example0 ?a None mm_example1 = Ok (ms, s)"
    and free: "fa_free (FRAME_ALLOCATOR mm_example1) \<le> fa_free (FRAME_ALLOCATOR s) + 6" by auto
  from push obtain a' where "areas ms = [a']" "vpn_range a' = vpn_range ?a" "user_ms 0x80600 ms s"
    by (rule MemorySet_push_Framed [OF ms_example0_ok(1) a(1-3)]) (simp add: ms_example0_def)
  then show thesis
    using that [of ms s a'] push a(4) free mm_example1_free by (simp add: ms_example_def insert_framed_area_def)
qed

theorem insert_framed_area_maps_witness:
  "case ms_example of
     Ok (ms, s) \<Rightarrow> \<exists>f. pt_abs (page_table ms) (mem s) (VirtPageNum 2) = Some (PageTableEntry_new f (MP_R OR MP_W OR MP_U OR PTE_V))
       \<and> frame_contents (mem s) f = replicate 4096 0
   | Panic _ \<Rightarrow> False"
proof -
  obtain ms s where ms: "ms_example = Ok (ms, s)" by (rule ms_example_ok)
  have le: "VirtAddr_floor (VirtAddr 0x1000) \<le> VirtAddr_ceil (VirtAddr 0x3000)"
    by (simp add: ms_example_range less_eq_VirtPageNum_def)
  from insert_framed_area_maps [OF ms_example0_ok(1) le ms [unfolded ms_example_def]] obtain fs
    where "length fs = 2"
      and fs: "\<forall>i < length fs. let v = VirtPageNum (1 + of_nat i) in
        pt_abs (page_table ms_example0) (mem mm_example1) v = None
        \<and> pt_abs (page_table ms) (mem s) v = Some (PageTableEntry_new (fs ! i) ((MP_R OR MP_W OR MP_U) OR PTE_V))
        \<and> frame_contents (mem s) (fs ! i) = replicate 4096 0"
    unfolding ms_example_range VirtPageNum.sel by auto
  then have "pt_abs (page_table ms) (mem s) (VirtPageNum 2) = Some (PageTableEntry_new (fs ! 1) ((MP_R OR MP_W OR MP_U) OR PTE_V))
      \<and> frame_contents (mem s) (fs ! 1) = replicate 4096 0"
    using spec [OF fs, of 1] by (simp add: Let_def)
  then show ?thesis by (auto simp: ms or.assoc)
qed

lemma fork_example:
  obtains ms s C s' where "ms_example = Ok (ms, s)" "user_ms 0x80600 ms s" "from_existed_user 0x80200000 ms s = Ok (C, s')"
    "\<exists>a \<in> set (areas ms). VirtPageNum 1 \<in> set (VPNRange_list (vpn_range a))"
proof -
  obtain ms s a where ms: "ms_example = Ok (ms, s)" "user_ms 0x80600 ms s" "areas ms = [a]"
    "VPNRange_list (vpn_range a) = [VirtPageNum 1, VirtPageNum 2]" "500 \<le> fa_free (FRAME_ALLOCATOR s)"
    by (rule ms_example_ok)
  have tramp: "PhysAddr_page_offset (PhysAddr_from_usize 0x80200000) = 0"
    by (simp add: PhysAddr_page_offset_def PhysAddr_from_usize_def const_defs)
  have pw: "pairwise (\<lambda>u v. \<not> same_page u v) (set (concat (map area_pages (areas ms))))"
    "\<forall>v \<in> set (concat (map area_pages (areas ms))). \<not> same_page v (VirtPageNum 0x7FFFFFF)"
    by (auto simp: ms(3,4) pairwise_def same_page_def)
  have "\<exists>C s'. from_existed_user 0x80200000 ms s = Ok (C, s')"
    by (rule from_existed_user_is_ok [OF ms(2) tramp _ pw]) (simp_all add: ms(3,4), use ms(5) in simp)
  with ms that show thesis by auto
qed

theorem from_existed_user_isolated_witness:
  "case ms_example of
     Ok (ms, s) \<Rightarrow>
       (case from_existed_user 0x80200000 ms s of
          Ok (C, s') \<Rightarrow> ms_own C \<inter> ms_own ms = {}
            \<and> page_contents (page_table C) (mem s') (VirtPageNum 1) = page_contents (page_table ms) (mem s) (VirtPageNum 1)
            \<and> page_contents (page_table ms) (mem s) (VirtPageNum 1) \<noteq> None
        | Panic _ \<Rightarrow> False)
   | Panic _ \<Rightarrow> False"
proof -
  obtain ms s C s' where ex: "ms_example = Ok (ms, s)" "user_ms 0x80600 ms s" "from_existed_user 0x80200000 ms s = Ok (C, s')"
    "\<exists>a \<in> set (areas ms). VirtPageNum 1 \<in> set (VPNRange_list (vpn_range a))" by (rule fork_example)
  from from_existed_user_isolated [OF ex(2,3)] ex(4)
  have "ms_own C \<inter> ms_own ms = {}"
    "page_contents (page_table C) (mem s') (VirtPageNum 1) = page_contents (page_table ms) (mem s) (VirtPageNum 1)"
    "page_contents (page_table ms) (mem s) (VirtPageNum 1) \<noteq> None" by blast+
  then show ?thesis by (simp add: ex(1,3))
qed

theorem from_existed_user_succeeds_witness:
  "case ms_example of
     Ok (ms, s) \<Rightarrow> is_ok (from_existed_user 0x80200000 ms s)
   | Panic _ \<Rightarrow> False"
proof -
  obtain ms s a where ms: "ms_example = Ok (ms, s)" "user_ms 0x80600 ms s" "areas ms = [a]"
    "VPNRange_list (vpn_range a) = [VirtPageNum 1, VirtPageNum 2]" "500 \<le> fa_free (FRAME_ALLOCATOR s)"
    by (rule ms_example_ok)
  have tramp: "PhysAddr_page_offset (PhysAddr_from_usize 0x80200000) = 0"
    by (simp add: PhysAddr_page_offset_def PhysAddr_from_usize_def const_defs)
  have "\<exists>C s'. from_existed_user 0x80200000 ms s = Ok (C, s')"
    by (rule from_existed_user_succeeds [OF ms(2) tramp])
      (simp_all add: ms(3,4) same_page_def, use ms(5) in simp_all)
  then show ?thesis by (auto simp: ms(1))
qed

theorem MemorySet_drop_returns_frames_witness:
  "\<exists>s'. MemorySet_drop ms_example0 mm_example1 = Ok s'
     \<and> fa_live 0x80600 (FRAME_ALLOCATOR s') = fa_live 0x80600 (FRAME_ALLOCATOR mm_example1) - {PhysPageNum 0x80600}"
proof -
  have "distinct (pt_frames (page_table ms_example0))" by (simp add: ms_example0_def pt_example_def)
  from MemorySet_drop_returns_frames [OF ms_example0_ok(1) this] show ?thesis
    by (auto simp: ms_own_def ms_data_def ms_example0_def pt_example_def)
qed

end
