(* ===== verification/Pid.thy ===== *)
theory Pid
  imports Memory_Set
begin

text \<open>
  Process identifiers and kernel stacks, \<^verbatim>\<open>src/src/os/src/task/pid.rs\<close>. The pid allocator
  keeps the contract of an identifier allocator that detects double frees; the kernel
  stack of a process lies at an address computed from its pid.
\<close>

section \<open>Model\<close>

datatype PidHandle = PidHandle (handle_pid: usize)

record PidAllocator =
  pa_current :: usize
  pa_recycled :: "usize list"

definition PidAllocator_new :: PidAllocator where
  "PidAllocator_new = \<lparr>pa_current = 0, pa_recycled = []\<rparr>"

definition PidAllocator_alloc :: "PidAllocator \<Rightarrow> PidHandle \<times> PidAllocator" where
  "PidAllocator_alloc a =
     (case vec_pop (pa_recycled a) of
        Some (pid, rest) \<Rightarrow> (PidHandle pid, a\<lparr>pa_recycled := rest\<rparr>)
      | None \<Rightarrow> (PidHandle (pa_current a), a\<lparr>pa_current := pa_current a + 1\<rparr>))"

definition PidAllocator_dealloc :: "usize \<Rightarrow> PidAllocator \<Rightarrow> PidAllocator outcome" where
  "PidAllocator_dealloc pid a =
     and_then (assert_that (pid < pa_current a)) (\<lambda>_.
     and_then (assert_that (\<not> list_ex (\<lambda>i. i = pid) (pa_recycled a))) (\<lambda>_.
     Ok (a\<lparr>pa_recycled := pa_recycled a @ [pid]\<rparr>)))"

text \<open>\<^verbatim>\<open>Drop for PidHandle\<close>.\<close>

definition PidHandle_drop :: "PidHandle \<Rightarrow> PidAllocator \<Rightarrow> PidAllocator outcome" where
  "PidHandle_drop h a = PidAllocator_dealloc (handle_pid h) a"

definition kernel_stack_position :: "usize \<Rightarrow> usize \<times> usize" where
  "kernel_stack_position pid =
     (let top = TRAMPOLINE - pid * (KERNEL_STACK_SIZE + PAGE_SIZE);
          bottom = top - KERNEL_STACK_SIZE
      in (bottom, top))"

record KernelStack =
  ks_pid :: usize

text \<open>The kernel's address space and the memory are threaded through.\<close>

definition KernelStack_new ::
    "PidHandle \<Rightarrow> MemorySet \<Rightarrow> mm_state \<Rightarrow> (KernelStack \<times> MemorySet \<times> mm_state) outcome" where
  "KernelStack_new h kernel_space s =
     (let pid = handle_pid h; (bottom, top) = kernel_stack_position pid
      in and_then (insert_framed_area kernel_space (VirtAddr_from_usize bottom) (VirtAddr_from_usize top) (MP_R OR MP_W) s)
           (\<lambda>(ks', s'). Ok (\<lparr>ks_pid = pid\<rparr>, ks', s')))"

definition KernelStack_get_top :: "KernelStack \<Rightarrow> usize" where
  "KernelStack_get_top k = snd (kernel_stack_position (ks_pid k))"

definition KernelStack_drop :: "KernelStack \<Rightarrow> MemorySet \<Rightarrow> mm_state \<Rightarrow> (MemorySet \<times> mm_state) outcome" where
  "KernelStack_drop k kernel_space s =
     and_then (VirtPageNum_from_VirtAddr (VirtAddr_from_usize (fst (kernel_stack_position (ks_pid k))))) (\<lambda>vpn.
       remove_area_with_start_vpn kernel_space vpn s)"

section \<open>The allocator keeps its contract\<close>

definition pid_inv :: "PidAllocator \<Rightarrow> bool" where
  "pid_inv a \<longleftrightarrow> distinct (pa_recycled a) \<and> (\<forall>p \<in> set (pa_recycled a). p < pa_current a)"

definition pid_live :: "PidAllocator \<Rightarrow> usize set" where
  "pid_live a = {p. p < pa_current a \<and> p \<notin> set (pa_recycled a)}"

text \<open>Pids run out only after \<open>2^64 - 1\<close> of them are in use; then the counter would wrap.\<close>

definition pid_room :: "PidAllocator \<Rightarrow> bool" where
  "pid_room a \<longleftrightarrow> pa_recycled a \<noteq> [] \<or> pa_current a \<noteq> - 1"

definition pid_alloc_option :: "PidAllocator \<Rightarrow> usize option \<times> PidAllocator" where
  "pid_alloc_option a = (case PidAllocator_alloc a of (h, a') \<Rightarrow> (Some (handle_pid h), a'))"

lemma word_less_Suc: "c \<noteq> - 1 \<Longrightarrow> p < c + 1 \<longleftrightarrow> p < c \<or> p = (c :: usize)"
proof -
  assume "c \<noteq> - 1"
  then have "unat (c + 1) = Suc (unat c)" by (metis add_eq_0_iff2 add.commute unatSuc)
  then show ?thesis unfolding word_less_nat_alt word_unat_eq_iff by (simp only: less_Suc_eq)
qed

lemma pid_alloc_fresh:
  assumes "pid_inv a" "pid_room a" "PidAllocator_alloc a = (h, a')"
  shows "handle_pid h \<notin> pid_live a" and "pid_live a' = insert (handle_pid h) (pid_live a)" and "pid_inv a'"
proof -
  have "handle_pid h \<notin> pid_live a \<and> pid_live a' = insert (handle_pid h) (pid_live a) \<and> pid_inv a'"
  proof (cases "pa_recycled a" rule: rev_cases)
    case Nil
    then have c: "pa_current a \<noteq> - 1" using assms(2) by (simp add: pid_room_def)
    with Nil assms(3) show ?thesis
      by (auto simp: PidAllocator_alloc_def pid_live_def pid_inv_def word_less_Suc)
  next
    case (snoc ps p)
    with assms show ?thesis by (auto simp: PidAllocator_alloc_def pid_live_def pid_inv_def)
  qed
  then show "handle_pid h \<notin> pid_live a" and "pid_live a' = insert (handle_pid h) (pid_live a)" and "pid_inv a'"
    by blast+
qed

lemma pid_dealloc_live:
  "pid_inv a \<Longrightarrow> p \<in> pid_live a \<Longrightarrow>
     \<exists>a'. PidAllocator_dealloc p a = Ok a' \<and> pid_live a' = pid_live a - {p} \<and> pid_inv a'"
  by (auto simp: PidAllocator_dealloc_def pid_live_def pid_inv_def list_ex_iff)

lemma pid_dealloc_dead: "p \<notin> pid_live a \<Longrightarrow> \<not> is_ok (PidAllocator_dealloc p a)"
  by (auto simp: PidAllocator_dealloc_def pid_live_def list_ex_iff assert_that_def)

interpretation pids: checked_allocator pid_alloc_option PidAllocator_dealloc pid_live pid_inv pid_room
proof unfold_locales
  fix s i s'
  assume "pid_inv s" "pid_room s" "pid_alloc_option s = (Some i, s')"
  then show "i \<notin> pid_live s \<and> pid_live s' = insert i (pid_live s) \<and> pid_inv s'"
    using pid_alloc_fresh [of s] by (auto simp: pid_alloc_option_def split: prod.splits)
next
  fix s s'
  assume "pid_alloc_option s = (None, s')"
  then show "s' = s" by (auto simp: pid_alloc_option_def split: prod.splits)
next
  fix s i
  assume "pid_inv s" "i \<in> pid_live s"
  then show "\<exists>s'. PidAllocator_dealloc i s = Ok s' \<and> pid_live s' = pid_live s - {i} \<and> pid_inv s'"
    by (rule pid_dealloc_live)
next
  fix s i
  assume "i \<notin> pid_live s"
  then show "\<not> is_ok (PidAllocator_dealloc i s)" by (rule pid_dealloc_dead)
qed

section \<open>Mapping a kernel stack succeeds\<close>

lemma unat_kernel_stack:
  assumes "unat pid < 0x1555555"
  shows "unat (snd (kernel_stack_position pid)) = 2 ^ 64 - 4096 - unat pid * 12288"
    and "unat (fst (kernel_stack_position pid)) = 2 ^ 64 - 4096 - unat pid * 12288 - 8192"
proof -
  have m: "unat (pid * 0x3000) = unat pid * 12288" using assms by (subst unat_mult_no_wrap) simp_all
  have c: "0x2000 + PAGE_SIZE = 0x3000" "KERNEL_STACK_SIZE = 0x2000" "TRAMPOLINE = 0xFFFFFFFFFFFFF000"
    by (simp_all add: const_defs)
  have top: "unat (0xFFFFFFFFFFFFF000 - pid * 0x3000 :: usize) = 2 ^ 64 - 4096 - unat pid * 12288"
    using assms m by (subst unat_sub) (simp_all add: word_le_nat_alt)
  moreover have "unat (0xFFFFFFFFFFFFF000 - pid * 0x3000 - 0x2000 :: usize) = 2 ^ 64 - 4096 - unat pid * 12288 - 8192"
    using assms top by (subst unat_sub) (simp_all add: word_le_nat_alt)
  ultimately show "unat (snd (kernel_stack_position pid)) = 2 ^ 64 - 4096 - unat pid * 12288"
    and "unat (fst (kernel_stack_position pid)) = 2 ^ 64 - 4096 - unat pid * 12288 - 8192"
    by (simp_all only: kernel_stack_position_def Let_def c fst_conv snd_conv)
qed

text \<open>The two pages of the kernel stack of a process.\<close>

definition kernel_stack_pages :: "usize \<Rightarrow> VirtPageNum list" where
  "kernel_stack_pages p = [VirtPageNum (0x7FFFFFD - 3 * p), VirtPageNum (0x7FFFFFE - 3 * p)]"

lemma unat_kernel_stack_pages:
  assumes "unat p < 0x1555555"
  shows "map (unat \<circ> the_vpn) (kernel_stack_pages p) = [0x7FFFFFD - 3 * unat p, 0x7FFFFFE - 3 * unat p]"
proof -
  have m: "unat (3 * p) = 3 * unat p" using assms by (subst unat_mult_no_wrap) simp_all
  then have "3 * p \<le> 0x7FFFFFD" "3 * p \<le> 0x7FFFFFE" using assms by (simp_all add: word_le_nat_alt)
  with m show ?thesis by (simp add: kernel_stack_pages_def unat_sub)
qed

lemma kernel_stack_area:
  fixes perm
  assumes p: "unat p < 0x1555555"
  defines "a \<equiv> MapArea_new (VirtAddr_from_usize (fst (kernel_stack_position p))) (VirtAddr_from_usize (snd (kernel_stack_position p))) Framed perm"
  shows "area_pages a = kernel_stack_pages p" and "sr_l (vpn_range a) \<le> sr_r (vpn_range a)"
proof -
  define n where "n = 0x7FFFFFD - 3 * unat p"
  have n: "2 ^ 64 - 4096 - unat p * 12288 = 2 ^ 64 - 2 ^ 39 + (n + 2) * 4096" "2 ^ 64 - 4096 - unat p * 12288 - 8192 = 2 ^ 64 - 2 ^ 39 + n * 4096"
    "n + 2 < 2 ^ 27" using p by (simp_all add: n_def)
  have low: "(2 ^ 64 - 2 ^ 39 + x * 4096) mod 2 ^ 39 = x * 4096" if "x < 2 ^ 27" for x :: nat
  proof -
    have "2 ^ 64 - 2 ^ 39 + x * 4096 = x * 4096 + (2 ^ 25 - 1) * 2 ^ 39" by simp
    then show ?thesis using that by (simp only: mod_mult_self1) simp
  qed
  have lo: "unat (the_va (VirtAddr_from_usize (fst (kernel_stack_position p)))) = n * 4096"
    unfolding unat_VirtAddr_from_usize unat_kernel_stack(2) [OF p] n(2) using n(3) by (intro low) simp
  have hi: "unat (the_va (VirtAddr_from_usize (snd (kernel_stack_position p)))) = (n + 2) * 4096"
    unfolding unat_VirtAddr_from_usize unat_kernel_stack(1) [OF p] n(1) using n(3) by (rule low)
  note pages = MapArea_new_pages [of "VirtAddr_from_usize (fst (kernel_stack_position p))" "VirtAddr_from_usize (snd (kernel_stack_position p))" Framed perm,
      unfolded lo hi, folded a_def]
  show "sr_l (vpn_range a) \<le> sr_r (vpn_range a)" using pages(2) n(3) by simp
  have "((n + 2) * 4096 + 4095) div 4096 = n + 2" by simp
  then have "map (unat \<circ> the_vpn) (area_pages a) = [n, n + 1]" using pages(1) n(3) by (simp add: upt_rec)
  also have "\<dots> = map (unat \<circ> the_vpn) (kernel_stack_pages p)" using p by (simp only: unat_kernel_stack_pages [OF p]) (simp add: n_def)
  finally have eq: "map (unat \<circ> the_vpn) (area_pages a) = map (unat \<circ> the_vpn) (kernel_stack_pages p)" .
  have "inj (unat \<circ> the_vpn)" by (rule injI) (simp add: VirtPageNum_eq_iff)
  from eq show "area_pages a = kernel_stack_pages p" by (simp only: inj_map_eq_map [OF \<open>inj (unat \<circ> the_vpn)\<close>])
qed

lemma kernel_stack_is_ok:
  assumes wf: "pt_wf l (page_table KS) s" and p: "unat (handle_pid h) < 0x1555555"
    and new: "\<forall>v \<in> set (kernel_stack_pages (handle_pid h)). pt_abs (page_table KS) (mem s) v = None" and free: "6 \<le> fa_free (FRAME_ALLOCATOR s)"
  obtains KS' s' own where "KernelStack_new h KS s = Ok (\<lparr>ks_pid = handle_pid h\<rparr>, KS', s')"
    "grows l (set (pt_frames (page_table KS)), s) (own, s')" "fa_free (FRAME_ALLOCATOR s) \<le> fa_free (FRAME_ALLOCATOR s') + 6"
proof -
  let ?vs = "kernel_stack_pages (handle_pid h)"
  let ?a = "MapArea_new (VirtAddr_from_usize (fst (kernel_stack_position (handle_pid h)))) (VirtAddr_from_usize (snd (kernel_stack_position (handle_pid h))))
    Framed (MP_R OR MP_W)"
  have a: "map_type ?a = Framed" "data_frames ?a = []" "map_perm ?a = (MP_R OR MP_W)" by (simp_all add: MapArea_new_def)
  note ar = kernel_stack_area [OF p, of "MP_R OR MP_W"]
  have d: "distinct ?vs" using distinct_VPNRange_list [OF ar(2)] ar(1) by simp
  have two: "length ?vs = 2" by (simp add: kernel_stack_pages_def)
  have "pairwise (\<lambda>u v. \<not> same_page u v) (set ?vs)"
    using unat_kernel_stack_pages [OF p] p by (auto simp: kernel_stack_pages_def pairwise_def same_page_def)
  from map_pages_is_ok [OF wf a(1) _ d this] new a(2) free two obtain a' pt' s' where
    m: "map_pages ?vs ?a (page_table KS) s = Ok (a', pt', s')" "fa_free (FRAME_ALLOCATOR s) \<le> fa_free (FRAME_ALLOCATOR s') + 6" by auto
  have "set (pt_frames (page_table KS)) \<subseteq> fa_live l (FRAME_ALLOCATOR s)" using wf by (simp add: pt_wf_def)
  from map_pages_Framed [OF wf a(1) subset_refl this _ d m(1)] a(2) obtain own where "grows l (set (pt_frames (page_table KS)), s) (own, s')" by auto
  with m show thesis
    by (intro that [of _ s' own]) (simp_all add: KernelStack_new_def insert_framed_area_def MemorySet_push_def MapArea_map_def ar(1) case_prod_beta)
qed

section \<open>Properties\<close>

text \<open>
  A pid that is handed out belongs to no living process; it can be given back exactly
  once, and the second attempt stops at an assertion. Giving it back restores the set of
  pids in use.
\<close>

theorem pid_lifecycle:
  assumes "pid_inv a" and "pid_room a" and "PidAllocator_alloc a = (h, a1)"
  shows "handle_pid h \<notin> pid_live a \<and> pid_live a1 = insert (handle_pid h) (pid_live a) \<and> pid_inv a1
    \<and> (\<exists>a2. PidHandle_drop h a1 = Ok a2 \<and> pid_live a2 = pid_live a \<and> pid_inv a2
         \<and> \<not> is_ok (PidHandle_drop h a2))"
proof -
  have opt: "pid_alloc_option a = (Some (handle_pid h), a1)" using assms(3) by (simp add: pid_alloc_option_def)
  note fresh = pids.alloc_Some [OF assms(1,2) opt]
  from pids.alloc_dealloc [OF assms(1,2) opt] obtain a2
    where a2: "PidAllocator_dealloc (handle_pid h) a1 = Ok a2" "pid_live a2 = pid_live a" "pid_inv a2" by blast
  moreover have "\<not> is_ok (PidAllocator_dealloc (handle_pid h) a2)"
    using fresh a2 by (intro pids.double_free_detected [of a1]) auto
  ultimately show ?thesis using fresh by (auto simp: PidHandle_drop_def)
qed

text \<open>
  Kernel stacks do not overlap: for two different pids below \<open>0x1555555\<close> (all that fit
  into the upper half of the address space) the stacks are two pages each, below the
  trampoline, page-aligned, canonical addresses, and at least one unmapped guard page lies
  between them.
\<close>

theorem kernel_stacks_disjoint:
  assumes "unat p < unat q" and "unat q < 0x1555555"
    and "kernel_stack_position p = (bp, tp)" and "kernel_stack_position q = (bq, tq)"
  shows "unat tq + 4096 \<le> unat bp
    \<and> unat tp = unat bp + 8192 \<and> unat tq = unat bq + 8192
    \<and> unat tp \<le> unat TRAMPOLINE \<and> unat bp mod 4096 = 0 \<and> unat bq mod 4096 = 0
    \<and> usize_from_VirtAddr (VirtAddr_from_usize bp) = bp \<and> usize_from_VirtAddr (VirtAddr_from_usize bq) = bq"
proof -
  define i j where "i = unat p" and "j = unat q"
  have ij: "i < j" "j < 0x1555555" using assms by (simp_all add: i_def j_def)
  have u: "unat tp = 2 ^ 64 - 4096 - i * 12288" "unat bp = 2 ^ 64 - 4096 - i * 12288 - 8192"
    "unat tq = 2 ^ 64 - 4096 - j * 12288" "unat bq = 2 ^ 64 - 4096 - j * 12288 - 8192"
    using unat_kernel_stack [of p] unat_kernel_stack [of q] assms by (simp_all add: i_def j_def)
  have mod: "unat bp mod 4096 = 0" "unat bq mod 4096 = 0"
  proof -
    have "(2 ^ 64 - 4096 - k * 12288 - 8192) mod 4096 = (0 :: nat)" if "k < 0x1555555" for k
    proof -
      have "2 ^ 64 - 4096 - k * 12288 - 8192 = 4096 * (2 ^ 52 - 3 - 3 * k)" using that by simp
      then show ?thesis by simp
    qed
    then show "unat bp mod 4096 = 0" "unat bq mod 4096 = 0" using ij unfolding u by simp_all
  qed
  have "2 ^ 64 - 2 ^ 38 \<le> unat bp" "2 ^ 64 - 2 ^ 38 \<le> unat bq" using ij unfolding u by simp_all
  then have "usize_from_VirtAddr (VirtAddr_from_usize bp) = bp" "usize_from_VirtAddr (VirtAddr_from_usize bq) = bq"
    by (simp_all only: canonical_roundtrip simp_thms)
  with mod show ?thesis using ij unfolding u by (simp add: const_defs)
qed

theorem pid_lifecycle_witness:
  "\<exists>a. PidHandle_drop (PidHandle 0) (snd (PidAllocator_alloc PidAllocator_new)) = Ok a
     \<and> \<not> is_ok (PidHandle_drop (PidHandle 0) a)"
proof -
  have new: "pid_inv PidAllocator_new" "pid_room PidAllocator_new"
    "PidAllocator_alloc PidAllocator_new = (PidHandle 0, snd (PidAllocator_alloc PidAllocator_new))"
    by (simp_all add: PidAllocator_new_def pid_inv_def pid_room_def PidAllocator_alloc_def)
  from pid_lifecycle [OF new] show ?thesis by blast
qed

theorem kernel_stacks_disjoint_witness:
  "unat (snd (kernel_stack_position 2)) + 4096 \<le> unat (fst (kernel_stack_position 1))"
proof -
  have "unat (1 :: usize) < unat (2 :: usize)" "unat (2 :: usize) < 0x1555555" by simp_all
  from kernel_stacks_disjoint [OF this] show ?thesis by (metis prod.collapse)
qed

end
