(* ===== verification/Task_Control.thy ===== *)
theory Task_Control
  imports Pid
begin

text \<open>
  The data of a process: the trap context (\<^verbatim>\<open>src/src/os/src/trap/context.rs\<close>), which lies in a frame
  of the process, the context for switching (\<^verbatim>\<open>src/src/os/src/task/context.rs\<close>), signal flags and
  actions (\<^verbatim>\<open>src/src/os/src/task/signal.rs\<close>, \<^verbatim>\<open>action.rs\<close>) and the task control block
  (\<^verbatim>\<open>src/src/os/src/task/task.rs\<close>).
\<close>

section \<open>Trap contexts\<close>

record TrapContext =
  regs :: "usize list"
  sstatus :: usize
  sepc :: usize
  kernel_satp :: usize
  kernel_sp :: usize
  trap_handler :: usize

text \<open>\<^verbatim>\<open>#[repr(C)]\<close>: 37 words.\<close>

definition TRAP_CONTEXT_SIZE :: nat where "TRAP_CONTEXT_SIZE = 296"

definition TrapContext_bytes :: "TrapContext \<Rightarrow> u8 list" where
  "TrapContext_bytes cx =
     words_le 8 (regs cx @ [sstatus cx, sepc cx, kernel_satp cx, kernel_sp cx, trap_handler cx])"

definition TrapContext_of_bytes :: "u8 list \<Rightarrow> TrapContext" where
  "TrapContext_of_bytes bs =
     (let ws = le_words 8 bs
      in \<lparr>regs = take 32 ws, sstatus = ws ! 32, sepc = ws ! 33, kernel_satp = ws ! 34, kernel_sp = ws ! 35, trap_handler = ws ! 36\<rparr>)"

text \<open>
  \<^verbatim>\<open>PhysPageNum::get_mut\<close>: a reference is the physical address it points to. Its check against the
  null pointer concerns only frame 0, which is never allocated.
\<close>

definition PhysPageNum_get_mut :: "PhysPageNum \<Rightarrow> nat" where
  "PhysPageNum_get_mut p = unat (the_pa (PhysAddr_from_PhysPageNum p))"

definition load_trap_cx :: "memory \<Rightarrow> PhysPageNum \<Rightarrow> TrapContext" where
  "load_trap_cx m p = TrapContext_of_bytes (load_bytes m (PhysPageNum_get_mut p) TRAP_CONTEXT_SIZE)"

definition store_trap_cx :: "memory \<Rightarrow> PhysPageNum \<Rightarrow> TrapContext \<Rightarrow> memory" where
  "store_trap_cx m p cx = store_bytes m (PhysPageNum_get_mut p) (TrapContext_bytes cx)"

definition set_sp :: "usize \<Rightarrow> TrapContext \<Rightarrow> TrapContext" where
  "set_sp sp cx = cx\<lparr>regs := (regs cx)[2 := sp]\<rparr>"

text \<open>
  \<open>status\<close> is the value of the register \<^verbatim>\<open>sstatus\<close> after \<^verbatim>\<open>set_spp(SPP::User)\<close>, an operation of the
  library \<^verbatim>\<open>riscv\<close>.
\<close>

definition app_init_context :: "usize \<Rightarrow> usize \<Rightarrow> usize \<Rightarrow> usize \<Rightarrow> usize \<Rightarrow> usize \<Rightarrow> TrapContext" where
  "app_init_context status entry sp satp ksp handler =
     set_sp sp \<lparr>regs = replicate 32 0, sstatus = status, sepc = entry, kernel_satp = satp, kernel_sp = ksp, trap_handler = handler\<rparr>"

lemma TrapContext_roundtrip: "length (regs cx) = 32 \<Longrightarrow> TrapContext_of_bytes (TrapContext_bytes cx) = cx"
  by (simp add: TrapContext_of_bytes_def TrapContext_bytes_def le_words_words_le nth_append Let_def)

lemma length_TrapContext_bytes [simp]: "length (regs cx) = 32 \<Longrightarrow> length (TrapContext_bytes cx) = TRAP_CONTEXT_SIZE"
  by (simp add: TrapContext_bytes_def TRAP_CONTEXT_SIZE_def)

lemma load_store_trap_cx [simp]: "length (regs cx) = 32 \<Longrightarrow> load_trap_cx (store_trap_cx m p cx) p = cx"
  using load_store_same [of m "PhysPageNum_get_mut p" "TrapContext_bytes cx"] TrapContext_roundtrip [of cx]
  by (simp add: load_trap_cx_def store_trap_cx_def)

lemma length_regs_load [simp]: "length (regs (load_trap_cx m p)) = 32"
  by (simp add: load_trap_cx_def TrapContext_of_bytes_def TRAP_CONTEXT_SIZE_def Let_def)

lemma store_trap_cx_other:
  "length (regs cx) = 32 \<Longrightarrow> a < PhysPageNum_get_mut p \<or> PhysPageNum_get_mut p + TRAP_CONTEXT_SIZE \<le> a \<Longrightarrow> store_trap_cx m p cx a = m a"
  by (simp add: store_trap_cx_def store_bytes_other)

section \<open>Contexts for switching\<close>

record TaskContext =
  ra :: usize
  cx_sp :: usize
  saved :: "usize list"

definition zero_init :: TaskContext where
  "zero_init = \<lparr>ra = 0, cx_sp = 0, saved = replicate 12 0\<rparr>"

text \<open>\<open>trap_return\<close> is the address of that function.\<close>

definition goto_trap_return :: "usize \<Rightarrow> usize \<Rightarrow> TaskContext" where
  "goto_trap_return trap_return kstack_ptr = \<lparr>ra = trap_return, cx_sp = kstack_ptr, saved = replicate 12 0\<rparr>"

section \<open>Signals and their actions\<close>

unbundle bit_operations_syntax

type_synonym SignalFlags = u32

definition MAX_SIG :: nat where "MAX_SIG = 31"

definition SIGDEF :: SignalFlags where "SIGDEF = 1"
definition SIGHUP :: SignalFlags where "SIGHUP = push_bit 1 1"
definition SIGINT :: SignalFlags where "SIGINT = push_bit 2 1"
definition SIGQUIT :: SignalFlags where "SIGQUIT = push_bit 3 1"
definition SIGILL :: SignalFlags where "SIGILL = push_bit 4 1"
definition SIGTRAP :: SignalFlags where "SIGTRAP = push_bit 5 1"
definition SIGABRT :: SignalFlags where "SIGABRT = push_bit 6 1"
definition SIGFPE :: SignalFlags where "SIGFPE = push_bit 8 1"
definition SIGKILL :: SignalFlags where "SIGKILL = push_bit 9 1"
definition SIGSEGV :: SignalFlags where "SIGSEGV = push_bit 11 1"
definition SIGCONT :: SignalFlags where "SIGCONT = push_bit 18 1"
definition SIGSTOP :: SignalFlags where "SIGSTOP = push_bit 19 1"

lemmas signal_flags = SIGDEF_def SIGHUP_def SIGINT_def SIGQUIT_def SIGILL_def SIGTRAP_def SIGABRT_def SIGFPE_def SIGKILL_def
  SIGSEGV_def SIGCONT_def SIGSTOP_def

text \<open>Every one of the 32 bits is a flag, so \<^verbatim>\<open>from_bits\<close> accepts every value.\<close>

definition SignalFlags_from_bits :: "u32 \<Rightarrow> SignalFlags option" where
  "SignalFlags_from_bits b = Some b"

definition has_signal :: "SignalFlags \<Rightarrow> SignalFlags \<Rightarrow> bool" where
  "has_signal flags flag \<longleftrightarrow> flags AND flag = flag"

definition signal_flag :: "nat \<Rightarrow> SignalFlags" where
  "signal_flag sig = push_bit sig 1"

record SignalAction =
  handler :: usize
  act_mask :: SignalFlags

definition SignalAction_default :: SignalAction where
  "SignalAction_default = \<lparr>handler = 0, act_mask = 40\<rparr>"

record SignalActions =
  table :: "SignalAction list"

definition SignalActions_default :: SignalActions where
  "SignalActions_default = \<lparr>table = replicate (MAX_SIG + 1) SignalAction_default\<rparr>"

lemma bit_signal_flag: "bit (signal_flag sig) i \<longleftrightarrow> i = sig \<and> sig < 32"
  by (auto simp: signal_flag_def bit_exp_iff)

lemma has_signal_bit: "sig < 32 \<Longrightarrow> has_signal flags (signal_flag sig) \<longleftrightarrow> bit flags sig"
proof
  assume sig: "sig < 32" and "has_signal flags (signal_flag sig)"
  then have "bit (flags AND signal_flag sig) sig = bit (signal_flag sig) sig" by (simp add: has_signal_def)
  with sig show "bit flags sig" by (simp add: bit_and_iff bit_signal_flag)
next
  assume "bit flags sig"
  then show "has_signal flags (signal_flag sig)"
    unfolding has_signal_def by (intro bit_word_eqI) (auto simp: bit_and_iff bit_signal_flag)
qed

section \<open>Task control blocks\<close>

datatype TaskStatus = Ready | Running | Zombie

text \<open>
  Shared objects are named by numbers: a file by its number in the table of open files, a task
  control block by its number in the kernel's heap. \<^verbatim>\<open>Weak\<close> and \<^verbatim>\<open>Arc\<close> references are such numbers.
\<close>

datatype file_ref = StdinFile | StdoutFile | InodeFile nat | PipeFile nat

record TaskControlBlockInner =
  trap_cx_ppn :: PhysPageNum
  base_size :: usize
  task_status :: TaskStatus
  task_cx :: TaskContext
  memory_set :: MemorySet
  parent :: "nat option"
  children :: "nat list"
  exit_code :: i32
  fd_table :: "file_ref option list"
  signals :: SignalFlags
  signal_mask :: SignalFlags
  handling_sig :: isize
  signal_actions :: SignalActions
  killed :: bool
  frozen :: bool
  trap_ctx_backup :: "TrapContext option"

record TaskControlBlock =
  pid :: PidHandle
  kernel_stack :: KernelStack
  inner :: TaskControlBlockInner

definition get_trap_cx :: "TaskControlBlockInner \<Rightarrow> memory \<Rightarrow> TrapContext" where
  "get_trap_cx t m = load_trap_cx m (trap_cx_ppn t)"

definition get_user_token :: "TaskControlBlockInner \<Rightarrow> usize" where
  "get_user_token t = MemorySet_token (memory_set t)"

definition get_status :: "TaskControlBlockInner \<Rightarrow> TaskStatus" where
  "get_status t = task_status t"

definition is_zombie :: "TaskControlBlockInner \<Rightarrow> bool" where
  "is_zombie t \<longleftrightarrow> get_status t = Zombie"

text \<open>\<^verbatim>\<open>(0..self.fd_table.len()).find(...)\<close>\<close>

definition alloc_fd :: "TaskControlBlockInner \<Rightarrow> nat \<times> TaskControlBlockInner" where
  "alloc_fd t =
     (case find (\<lambda>fd. fd_table t ! fd = None) [0..<length (fd_table t)] of
        Some fd \<Rightarrow> (fd, t)
      | None \<Rightarrow> (length (fd_table t), t\<lparr>fd_table := fd_table t @ [None]\<rparr>))"

definition getpid :: "TaskControlBlock \<Rightarrow> usize" where
  "getpid tcb = handle_pid (pid tcb)"

text \<open>The lowest free descriptor is taken; the others keep their files.\<close>

lemma alloc_fd_spec:
  assumes "alloc_fd t = (fd, t')"
  shows "fd < length (fd_table t')" "fd_table t' ! fd = None" "\<forall>i < fd. fd_table t ! i \<noteq> None" "t' = t\<lparr>fd_table := fd_table t'\<rparr>"
    "\<forall>i < length (fd_table t). fd_table t' ! i = fd_table t ! i" "length (fd_table t) \<le> length (fd_table t')"
    "fd \<le> length (fd_table t)"
proof -
  let ?n = "length (fd_table t)" and ?P = "\<lambda>fd. fd_table t ! fd = None"
  have "fd < length (fd_table t') \<and> fd_table t' ! fd = None \<and> (\<forall>i < fd. fd_table t ! i \<noteq> None) \<and> t' = t\<lparr>fd_table := fd_table t'\<rparr>
    \<and> (\<forall>i < ?n. fd_table t' ! i = fd_table t ! i) \<and> ?n \<le> length (fd_table t') \<and> fd \<le> ?n"
  proof (cases "find ?P [0..<?n]")
    case None
    then have "\<forall>i < ?n. fd_table t ! i \<noteq> None" by (auto simp: find_None_iff)
    with None assms show ?thesis by (auto simp: alloc_fd_def nth_append)
  next
    case (Some k)
    then obtain i where i: "i < length [0..<?n]" "?P ([0..<?n] ! i)" "k = [0..<?n] ! i" "\<forall>j < i. \<not> ?P ([0..<?n] ! j)"
      unfolding find_Some_iff by blast
    with Some assms show ?thesis by (auto simp: alloc_fd_def)
  qed
  then show "fd < length (fd_table t')" "fd_table t' ! fd = None" "\<forall>i < fd. fd_table t ! i \<noteq> None" "t' = t\<lparr>fd_table := fd_table t'\<rparr>"
    "\<forall>i < length (fd_table t). fd_table t' ! i = fd_table t ! i" "length (fd_table t) \<le> length (fd_table t')"
    "fd \<le> length (fd_table t)" by blast+
qed

end
