(* ===== verification/Signal.thy ===== *)
theory Signal
  imports Task_Control
begin

text \<open>
  Delivery of signals, \<^verbatim>\<open>src/src/os/src/task/signal.rs\<close>, on the inner part of a task control block and
  the memory that holds its trap context. Each function of the source first takes the current task
  and borrows its inner part; the operations here are what happens under that borrow.
\<close>

section \<open>Model\<close>

unbundle bit_operations_syntax

definition check_error :: "SignalFlags \<Rightarrow> (i32 \<times> string) option" where
  "check_error flags =
     (if has_signal flags SIGINT then Some (- 2, ''Killed, SIGINT=2'')
      else if has_signal flags SIGILL then Some (- 4, ''Illegal Instruction, SIGILL=4'')
      else if has_signal flags SIGABRT then Some (- 6, ''Aborted, SIGABRT=6'')
      else if has_signal flags SIGFPE then Some (- 8, ''Erroneous Arithmetic Operation, SIGFPE=8'')
      else if has_signal flags SIGKILL then Some (- 9, ''Killed, SIGKILL=9'')
      else if has_signal flags SIGSEGV then Some (- 11, ''Segmentation Fault, SIGSEGV=11'')
      else None)"

definition call_kernel_signal_handler :: "SignalFlags \<Rightarrow> TaskControlBlockInner \<Rightarrow> TaskControlBlockInner" where
  "call_kernel_signal_handler signal t =
     (if signal = SIGSTOP then
        (if has_signal (signals t) SIGSTOP then t\<lparr>frozen := True, signals := signals t XOR SIGSTOP\<rparr> else t)
      else if signal = SIGCONT then
        (if has_signal (signals t) SIGCONT then t\<lparr>frozen := False, signals := signals t XOR SIGCONT\<rparr> else t)
      else t\<lparr>killed := True\<rparr>)"

definition call_user_signal_handler ::
    "nat \<Rightarrow> SignalFlags \<Rightarrow> TaskControlBlockInner \<times> memory \<Rightarrow> (TaskControlBlockInner \<times> memory) outcome" where
  "call_user_signal_handler sig flag = (\<lambda>(t, m).
     and_then (index (table (signal_actions t)) sig) (\<lambda>act.
     if handler act = 0 then Ok (t, m)
     else
       let t = t\<lparr>signal_mask := act_mask act, handling_sig := of_nat sig, signals := signals t XOR flag\<rparr>;
           trap_ctx = get_trap_cx t m;
           t = t\<lparr>trap_ctx_backup := Some trap_ctx\<rparr>
       in Ok (t, store_trap_cx m (trap_cx_ppn t) (trap_ctx\<lparr>sepc := handler act, regs := (regs trap_ctx)[10 := of_nat sig]\<rparr>))))"

definition kernel_signal :: "SignalFlags \<Rightarrow> bool" where
  "kernel_signal flag \<longleftrightarrow> flag = SIGKILL \<or> flag = SIGSTOP \<or> flag = SIGCONT \<or> flag = SIGDEF"

text \<open>The loop over the signals from \<open>sig\<close> on, \<open>n\<close> of them.\<close>

fun check_pending_loop :: "nat \<Rightarrow> nat \<Rightarrow> TaskControlBlockInner \<times> memory \<Rightarrow> (TaskControlBlockInner \<times> memory) outcome" where
  "check_pending_loop 0 sig st = Ok st"
| "check_pending_loop (Suc n) sig (t, m) =
     and_then (unwrap (SignalFlags_from_bits (signal_flag sig))) (\<lambda>flag.
     if \<not> has_signal (signals t) flag \<or> has_signal (signal_mask t) flag then check_pending_loop n (Suc sig) (t, m)
     else if handling_sig t = - 1 then
       (if kernel_signal flag then check_pending_loop n (Suc sig) (call_kernel_signal_handler flag t, m)
        else call_user_signal_handler sig flag (t, m))
     else
       and_then (index (table (signal_actions t)) (unat (handling_sig t))) (\<lambda>act.
       if \<not> has_signal (act_mask act) flag then
         (if kernel_signal flag then check_pending_loop n (Suc sig) (call_kernel_signal_handler flag t, m)
          else call_user_signal_handler sig flag (t, m))
       else check_pending_loop n (Suc sig) (t, m)))"

definition check_pending_signals :: "TaskControlBlockInner \<times> memory \<Rightarrow> (TaskControlBlockInner \<times> memory) outcome" where
  "check_pending_signals st = check_pending_loop (MAX_SIG + 1) 0 st"

text \<open>
  One turn of the loop of \<^verbatim>\<open>handle_signals\<close>: it leaves the loop, or checks the signals again and
  suspends the task; the loop is entered after a first check.
\<close>

datatype wait = LeaveLoop | SuspendTask

definition handle_signals_turn :: "TaskControlBlockInner \<times> memory \<Rightarrow> (wait \<times> TaskControlBlockInner \<times> memory) outcome" where
  "handle_signals_turn = (\<lambda>(t, m).
     if \<not> frozen t \<or> killed t then Ok (LeaveLoop, t, m)
     else and_then (check_pending_signals (t, m)) (\<lambda>st. Ok (SuspendTask, st)))"

text \<open>\<^verbatim>\<open>sys_sigreturn\<close>, \<^verbatim>\<open>sys_procmask\<close> and \<^verbatim>\<open>sys_kill\<close> on the inner part of the task they concern.\<close>

definition sigreturn_inner :: "TaskControlBlockInner \<times> memory \<Rightarrow> (TaskControlBlockInner \<times> memory) outcome" where
  "sigreturn_inner = (\<lambda>(t, m).
     let t = t\<lparr>handling_sig := - 1\<rparr>
     in and_then (unwrap (trap_ctx_backup t)) (\<lambda>cx. Ok (t, store_trap_cx m (trap_cx_ppn t) cx)))"

definition procmask_inner :: "u32 \<Rightarrow> TaskControlBlockInner \<Rightarrow> isize \<times> TaskControlBlockInner" where
  "procmask_inner new_mask t =
     (let old_mask = signal_mask t
      in case SignalFlags_from_bits new_mask of
           Some flag \<Rightarrow> (ucast old_mask, t\<lparr>signal_mask := flag\<rparr>)
         | None \<Rightarrow> (- 1, t))"

text \<open>A shift of a \<^verbatim>\<open>u32\<close> by an \<^verbatim>\<open>i32\<close> takes the amount modulo 32 (overflow checks are off).\<close>

definition kill_flag :: "i32 \<Rightarrow> SignalFlags" where
  "kill_flag signum = push_bit (unat (signum AND 31)) 1"

definition kill_inner :: "i32 \<Rightarrow> TaskControlBlockInner \<Rightarrow> isize \<times> TaskControlBlockInner" where
  "kill_inner signum t =
     (case SignalFlags_from_bits (kill_flag signum) of
        None \<Rightarrow> (- 1, t)
      | Some flag \<Rightarrow>
          if has_signal (signals t) flag then (- 1, t)
          else (0, t\<lparr>signals := signals t OR flag\<rparr>))"

section \<open>Which signals are pending\<close>

text \<open>The signals that the next check acts on: sent, not blocked, and not masked by a running handler.\<close>

definition deliverable :: "TaskControlBlockInner \<Rightarrow> nat \<Rightarrow> bool" where
  "deliverable t sig \<longleftrightarrow> sig < 32 \<and> bit (signals t) sig \<and> \<not> bit (signal_mask t) sig
     \<and> (handling_sig t \<noteq> - 1 \<longrightarrow> \<not> bit (act_mask (table (signal_actions t) ! unat (handling_sig t))) sig)"

definition kernel_sigs :: "nat set" where "kernel_sigs = {0, 9, 18, 19}"

text \<open>The state is well formed: 32 actions and no handler, or a valid one, being run.\<close>

definition signals_ok :: "TaskControlBlockInner \<Rightarrow> bool" where
  "signals_ok t \<longleftrightarrow> length (table (signal_actions t)) = 32 \<and> (handling_sig t = - 1 \<or> unat (handling_sig t) < 32)"

lemma kernel_signal_iff: "sig < 32 \<Longrightarrow> kernel_signal (signal_flag sig) \<longleftrightarrow> sig \<in> kernel_sigs"
proof -
  assume sig: "sig < 32"
  have inj: "signal_flag sig = signal_flag j \<longleftrightarrow> sig = j" if "j < 32" for j
    using sig that bit_signal_flag by metis
  have eqs: "SIGKILL = signal_flag 9" "SIGSTOP = signal_flag 19" "SIGCONT = signal_flag 18" "SIGDEF = signal_flag 0"
    by (simp_all add: signal_flags signal_flag_def)
  show ?thesis unfolding kernel_signal_def eqs by (auto simp: inj kernel_sigs_def)
qed

lemma check_pending_skip:
  assumes "signals_ok t" "sig < 32" "\<not> deliverable t sig"
  shows "check_pending_loop (Suc n) sig (t, m) = check_pending_loop n (Suc sig) (t, m)"
  using assms by (auto simp: SignalFlags_from_bits_def has_signal_bit deliverable_def signals_ok_def index_def)

lemma check_pending_act:
  assumes "signals_ok t" "deliverable t sig"
  shows "check_pending_loop (Suc n) sig (t, m) =
    (if sig \<in> kernel_sigs then check_pending_loop n (Suc sig) (call_kernel_signal_handler (signal_flag sig) t, m)
     else call_user_signal_handler sig (signal_flag sig) (t, m))"
proof -
  have sig: "sig < 32" using assms(2) by (simp add: deliverable_def)
  show ?thesis
    using assms sig kernel_signal_iff [OF sig]
    by (auto simp: SignalFlags_from_bits_def has_signal_bit deliverable_def signals_ok_def index_def)
qed

lemma check_pending_skip_all:
  assumes "signals_ok t" "\<forall>i. sig \<le> i \<longrightarrow> i < sig + k \<longrightarrow> \<not> deliverable t i" "sig + k \<le> 32"
  shows "check_pending_loop (k + n) sig (t, m) = check_pending_loop n (sig + k) (t, m)"
  using assms(2,3)
proof (induction k arbitrary: sig)
  case (Suc k)
  have "check_pending_loop (Suc k + n) sig (t, m) = check_pending_loop (k + n) (Suc sig) (t, m)"
    using Suc.prems check_pending_skip [OF assms(1), of sig "k + n" m] by simp
  also have "\<dots> = check_pending_loop n (Suc sig + k) (t, m)" using Suc.prems by (intro Suc.IH) auto
  finally show ?case by simp
qed simp

text \<open>The first deliverable signal decides.\<close>

lemma check_pending_first:
  assumes ok: "signals_ok t" and first: "\<forall>i < sig. \<not> deliverable t i" and d: "deliverable t sig"
  shows "check_pending_signals (t, m) =
    (if sig \<in> kernel_sigs then check_pending_loop (31 - sig) (Suc sig) (call_kernel_signal_handler (signal_flag sig) t, m)
     else call_user_signal_handler sig (signal_flag sig) (t, m))"
proof -
  have sig: "sig < 32" using d by (simp add: deliverable_def)
  have "sig + Suc (31 - sig) = MAX_SIG + 1" using sig by (simp add: MAX_SIG_def)
  then have "check_pending_signals (t, m) = check_pending_loop (sig + Suc (31 - sig)) 0 (t, m)"
    by (simp only: check_pending_signals_def)
  also have "\<dots> = check_pending_loop (Suc (31 - sig)) (0 + sig) (t, m)"
    using first sig by (intro check_pending_skip_all [OF ok]) auto
  finally show ?thesis by (simp only: add_0 check_pending_act [OF ok d])
qed

lemma check_pending_none:
  assumes "signals_ok t" "\<forall>i < 32. \<not> deliverable t i"
  shows "check_pending_signals (t, m) = Ok (t, m)"
  using check_pending_skip_all [OF assms(1), of 0 32 0 m] assms(2) by (simp add: check_pending_signals_def MAX_SIG_def)

section \<open>Well-formedness is preserved\<close>

lemma signals_ok_kernel: "signals_ok t \<Longrightarrow> signals_ok (call_kernel_signal_handler flag t)"
  by (simp add: signals_ok_def call_kernel_signal_handler_def)

lemma signals_ok_user:
  assumes "signals_ok t" "sig < 32"
  shows "\<exists>t' m'. call_user_signal_handler sig flag (t, m) = Ok (t', m') \<and> signals_ok t'"
  using assms by (auto simp: call_user_signal_handler_def signals_ok_def index_def unat_of_nat Let_def)

lemma check_pending_loop_ok:
  assumes "signals_ok t" "n + sig \<le> 32"
  shows "\<exists>t' m'. check_pending_loop n sig (t, m) = Ok (t', m') \<and> signals_ok t'"
  using assms
proof (induction n arbitrary: sig t)
  case (Suc n)
  then have sig: "sig < 32" by simp
  show ?case
  proof (cases "deliverable t sig")
    case True
    show ?thesis
      using check_pending_act [OF Suc.prems(1) True] signals_ok_user [OF Suc.prems(1) sig]
        Suc.IH [OF signals_ok_kernel [OF Suc.prems(1)]] Suc.prems(2) by simp
  next
    case False
    with Suc check_pending_skip [OF Suc.prems(1) sig] show ?thesis by simp
  qed
qed simp

section \<open>Freezing\<close>

lemma SIGCONT_flag: "SIGCONT = signal_flag 18" "SIGSTOP = signal_flag 19"
  by (simp_all add: signal_flags signal_flag_def)

lemma xor_flag: "bit (flags XOR signal_flag sig) i \<longleftrightarrow> (if i = sig \<and> sig < 32 then \<not> bit flags i else bit flags i)"
  by (auto simp: bit_xor_iff bit_signal_flag)

text \<open>A task with no deliverable user signal below 18 is resumed by \<^verbatim>\<open>SIGCONT\<close> and not frozen again.\<close>

lemma kernel_handler_deliverable:
  assumes "deliverable t i" "i \<in> kernel_sigs"
  shows "deliverable (call_kernel_signal_handler (signal_flag i) t) j \<longleftrightarrow> deliverable t j \<and> (j = i \<longrightarrow> i \<in> {0, 9})"
    "frozen (call_kernel_signal_handler (signal_flag i) t) = (if i = 19 then True else if i = 18 then False else frozen t)"
    "handling_sig (call_kernel_signal_handler (signal_flag i) t) = handling_sig t"
    "signal_actions (call_kernel_signal_handler (signal_flag i) t) = signal_actions t"
proof -
  have i: "i < 32" "bit (signals t) i" using assms(1) by (simp_all add: deliverable_def)
  have eq: "signal_flag i = signal_flag k \<longleftrightarrow> i = k" if "k < 32" for k using that i(1) bit_signal_flag by metis
  have run: "call_kernel_signal_handler (signal_flag i) t =
      (if i = 19 then t\<lparr>frozen := True, signals := signals t XOR signal_flag 19\<rparr>
       else if i = 18 then t\<lparr>frozen := False, signals := signals t XOR signal_flag 18\<rparr> else t\<lparr>killed := True\<rparr>)"
    using i by (auto simp: call_kernel_signal_handler_def SIGCONT_flag eq has_signal_bit)
  show "deliverable (call_kernel_signal_handler (signal_flag i) t) j \<longleftrightarrow> deliverable t j \<and> (j = i \<longrightarrow> i \<in> {0, 9})"
    using assms i unfolding run by (auto simp: deliverable_def xor_flag kernel_sigs_def)
  show "frozen (call_kernel_signal_handler (signal_flag i) t) = (if i = 19 then True else if i = 18 then False else frozen t)"
    "handling_sig (call_kernel_signal_handler (signal_flag i) t) = handling_sig t"
    "signal_actions (call_kernel_signal_handler (signal_flag i) t) = signal_actions t" unfolding run by simp_all
qed

text \<open>A task that is not frozen stays so when \<^verbatim>\<open>SIGSTOP\<close> is not ahead.\<close>

lemma loop_unfrozen:
  assumes "signals_ok t" "n + sig \<le> 32" "\<not> frozen t" "\<not> (sig \<le> 19 \<and> deliverable t 19)"
  shows "\<exists>t' m'. check_pending_loop n sig (t, m) = Ok (t', m') \<and> \<not> frozen t'"
  using assms
proof (induction n arbitrary: sig t)
  case (Suc n)
  then have sig: "sig < 32" by simp
  show ?case
  proof (cases "deliverable t sig")
    case False
    with Suc check_pending_skip [OF Suc.prems(1) sig False] show ?thesis by simp
  next
    case True
    let ?t = "call_kernel_signal_handler (signal_flag sig) t"
    show ?thesis
    proof (cases "sig \<in> kernel_sigs")
      case k: True
      note kh = kernel_handler_deliverable [OF True k]
      have "\<exists>t' m'. check_pending_loop n (Suc sig) (?t, m) = Ok (t', m') \<and> \<not> frozen t'"
      proof (rule Suc.IH [OF signals_ok_kernel [OF Suc.prems(1)]])
        show "\<not> frozen ?t" using Suc.prems(3,4) True kh(2) by auto
        show "\<not> (Suc sig \<le> 19 \<and> deliverable ?t 19)" using Suc.prems(4) kh(1) by auto
      qed (use Suc.prems(2) in simp)
      with k show ?thesis unfolding check_pending_act [OF Suc.prems(1) True] by simp
    next
      case False
      have "\<exists>t' m'. call_user_signal_handler sig (signal_flag sig) (t, m) = Ok (t', m') \<and> \<not> frozen t'"
        using Suc.prems(1,3) sig by (auto simp: call_user_signal_handler_def signals_ok_def index_def Let_def)
      with False show ?thesis unfolding check_pending_act [OF Suc.prems(1) True] by simp
    qed
  qed
qed simp

lemma loop_resumes:
  assumes "signals_ok t" "n + sig \<le> 32" "sig \<le> 18" "18 < n + sig" "deliverable t 18" "\<not> deliverable t 19"
    and "\<forall>i. sig \<le> i \<longrightarrow> i < 18 \<longrightarrow> deliverable t i \<longrightarrow> i \<in> kernel_sigs"
  shows "\<exists>t' m'. check_pending_loop n sig (t, m) = Ok (t', m') \<and> \<not> frozen t'"
  using assms
proof (induction n arbitrary: sig t)
  case (Suc n)
  then have sig: "sig < 32" by simp
  show ?case
  proof (cases "deliverable t sig")
    case False
    then have "sig < 18" using Suc.prems(3,5) by (cases "sig = 18") auto
    then have "\<exists>t' m'. check_pending_loop n (Suc sig) (t, m) = Ok (t', m') \<and> \<not> frozen t'"
      using Suc.prems by (intro Suc.IH) auto
    then show ?thesis unfolding check_pending_skip [OF Suc.prems(1) sig False] .
  next
    case True
    have k: "sig \<in> kernel_sigs" using True Suc.prems(3,7) by (cases "sig = 18") (auto simp: kernel_sigs_def)
    let ?t = "call_kernel_signal_handler (signal_flag sig) t"
    note kh = kernel_handler_deliverable [OF True k] and ok = signals_ok_kernel [OF Suc.prems(1), of "signal_flag sig"]
    have "\<exists>t' m'. check_pending_loop n (Suc sig) (?t, m) = Ok (t', m') \<and> \<not> frozen t'"
    proof (cases "sig = 18")
      case True
      then show ?thesis using loop_unfrozen [OF ok, of n "Suc sig" m] Suc.prems(2,6) kh(1,2) by simp
    next
      case False
      with Suc.prems(3) have "sig < 18" by simp
      then show ?thesis using Suc.prems kh(1) by (intro Suc.IH ok) auto
    qed
    with k show ?thesis unfolding check_pending_act [OF Suc.prems(1) True] by simp
  qed
qed simp

section \<open>A blocked wait\<close>

text \<open>A signal that a check passes over even when it is pending.\<close>

definition sig_blocked :: "TaskControlBlockInner \<Rightarrow> nat \<Rightarrow> bool" where
  "sig_blocked t sig \<longleftrightarrow> bit (signal_mask t) sig
     \<or> handling_sig t \<noteq> - 1 \<and> bit (act_mask (table (signal_actions t) ! unat (handling_sig t))) sig"

lemma deliverable_iff: "deliverable t sig \<longleftrightarrow> sig < 32 \<and> bit (signals t) sig \<and> \<not> sig_blocked t sig"
  by (auto simp: deliverable_def sig_blocked_def)

text \<open>
  What happens to the control block of a task that waits in the loop: a turn of its own, a signal from
  another process, here with a number from \<open>sig\<close> on, the scheduler, and the adoption by \<^verbatim>\<open>INITPROC\<close>.
\<close>

inductive wait_step :: "nat \<Rightarrow> TaskControlBlockInner \<Rightarrow> TaskControlBlockInner \<Rightarrow> bool" for sig where
  turn: "handle_signals_turn (t, m) = Ok (SuspendTask, t', m') \<Longrightarrow> wait_step sig t t'"
| sent: "sig \<le> unat (signum AND 31) \<Longrightarrow> kill_inner signum t = (r, t') \<Longrightarrow> wait_step sig t t'"
| scheduled: "wait_step sig t (t\<lparr>task_status := status, task_cx := cx\<rparr>)"
| adopted: "wait_step sig t (t\<lparr>parent := p\<rparr>)"

definition stuck :: "nat \<Rightarrow> TaskControlBlockInner \<Rightarrow> bool" where
  "stuck sig t \<longleftrightarrow> signals_ok t \<and> frozen t \<and> \<not> killed t \<and> deliverable t sig \<and> (\<forall>i < sig. \<not> deliverable t i)
     \<and> sig \<notin> kernel_sigs \<and> handler (table (signal_actions t) ! sig) = 0"

lemma stuck_turn:
  assumes "stuck sig t"
  shows "handle_signals_turn (t, m) = Ok (SuspendTask, t, m)"
proof -
  have d: "signals_ok t" "\<forall>i < sig. \<not> deliverable t i" "deliverable t sig" "sig < 32" using assms by (simp_all add: stuck_def deliverable_def)
  have "check_pending_signals (t, m) = Ok (t, m)"
    using check_pending_first [OF d(1-3)] d(1,4) assms by (simp add: call_user_signal_handler_def index_def signals_ok_def stuck_def)
  with assms show ?thesis by (simp add: handle_signals_turn_def stuck_def)
qed

lemma unat_and_31: "unat (w AND 31) = unat w mod 32" for w :: "32 word"
  using unat_and_mask [of w 5] by (simp add: mask_eq_exp_minus_1)

lemma kill_inner_cases:
  obtains "kill_inner signum t = (- 1, t)" "bit (signals t) (unat (signum AND 31))"
  | "kill_inner signum t = (0, t\<lparr>signals := signals t OR signal_flag (unat (signum AND 31))\<rparr>)" "\<not> bit (signals t) (unat (signum AND 31))"
proof -
  have n: "unat (signum AND 31) < 32" by (simp add: unat_and_31)
  have flag: "kill_flag signum = signal_flag (unat (signum AND 31))" by (simp add: kill_flag_def signal_flag_def)
  have "kill_inner signum t = (if bit (signals t) (unat (signum AND 31)) then (- 1, t)
      else (0, t\<lparr>signals := signals t OR signal_flag (unat (signum AND 31))\<rparr>))"
    using n flag by (simp add: kill_inner_def SignalFlags_from_bits_def has_signal_bit)
  with that show thesis by (cases "bit (signals t) (unat (signum AND 31))") auto
qed

lemma stuck_step: "wait_step sig t t' \<Longrightarrow> stuck sig t \<Longrightarrow> stuck sig t'"
proof (induction rule: wait_step.induct)
  case (turn t m t' m')
  then show ?case by (simp add: stuck_turn)
next
  case (sent signum t r t')
  from kill_inner_cases [of signum t] show ?case
  proof cases
    case 2
    have "deliverable t' i \<longleftrightarrow> deliverable t i \<or> i = unat (signum AND 31) \<and> \<not> sig_blocked t i" for i
      using 2 sent(2) unat_and_31 [of signum] by (auto simp: deliverable_iff sig_blocked_def bit_or_iff bit_signal_flag)
    with 2 sent show ?thesis by (auto simp: stuck_def signals_ok_def)
  qed (use sent in simp)
qed (simp_all add: stuck_def deliverable_def signals_ok_def)

lemma stuck_steps: "(wait_step sig)\<^sup>*\<^sup>* t t' \<Longrightarrow> stuck sig t \<Longrightarrow> stuck sig t'"
  by (induction rule: rtranclp_induct) (auto intro: stuck_step)

text \<open>A killed task stays killed while the rest of the signals is checked.\<close>

lemma loop_killed:
  assumes "signals_ok t" "n + sig \<le> 32" "killed t"
  shows "\<exists>t' m'. check_pending_loop n sig (t, m) = Ok (t', m') \<and> killed t'"
  using assms
proof (induction n arbitrary: sig t)
  case (Suc n)
  then have sig: "sig < 32" by simp
  have h: "killed (call_kernel_signal_handler (signal_flag sig) t)" using Suc.prems(3) by (simp add: call_kernel_signal_handler_def)
  have u: "\<exists>t' m'. call_user_signal_handler sig (signal_flag sig) (t, m) = Ok (t', m') \<and> killed t'"
    using Suc.prems(1,3) sig by (auto simp: call_user_signal_handler_def signals_ok_def index_def Let_def)
  show ?case
  proof (cases "deliverable t sig")
    case True
    show ?thesis
      using u Suc.IH [OF signals_ok_kernel [OF Suc.prems(1)] _ h] Suc.prems(2) unfolding check_pending_act [OF Suc.prems(1) True] by simp
  next
    case False
    with Suc check_pending_skip [OF Suc.prems(1) sig False] show ?thesis by simp
  qed
qed simp

lemma stuck_freed:
  assumes s: "stuck sig t" and n: "n = 0 \<or> n = 9" "n < sig" "\<not> sig_blocked t n"
  shows "\<exists>t1. kill_inner (of_nat n) t = (0, t1) \<and> (\<forall>m. \<exists>t2 m'. handle_signals_turn (t1, m) = Ok (SuspendTask, t2, m')
    \<and> (\<forall>m2. handle_signals_turn (t2, m2) = Ok (LeaveLoop, t2, m2)))"
proof -
  let ?t1 = "t\<lparr>signals := signals t OR signal_flag n\<rparr>"
  have num: "unat (of_nat n AND (31 :: i32)) = n" using n(1) by auto
  have nd: "\<not> deliverable t n" using s n(2) by (simp add: stuck_def)
  then have "\<not> bit (signals t) n" using n by (auto simp: deliverable_iff)
  then have k: "kill_inner (of_nat n) t = (0, ?t1)" using kill_inner_cases [of "of_nat n" t] num by auto
  have d: "deliverable ?t1 i \<longleftrightarrow> deliverable t i \<or> i = n" for i
    using n by (auto simp: deliverable_iff sig_blocked_def bit_or_iff bit_signal_flag)
  have ok: "signals_ok ?t1" using s by (simp add: stuck_def signals_ok_def)
  have first: "\<forall>i < n. \<not> deliverable ?t1 i" "deliverable ?t1 n" using s n(2) by (auto simp: d stuck_def)
  have "n \<in> kernel_sigs" "n \<noteq> 18" "n \<noteq> 19" using n(1) by (auto simp: kernel_sigs_def)
  moreover have "killed (call_kernel_signal_handler (signal_flag n) ?t1)"
    using n(1) by (auto simp: call_kernel_signal_handler_def signal_flags signal_flag_def)
  ultimately have c: "\<exists>t2 m'. check_pending_signals (?t1, m) = Ok (t2, m') \<and> killed t2" for m
    using check_pending_first [OF ok first] loop_killed [OF signals_ok_kernel [OF ok]] n by auto
  have "\<exists>t2 m'. handle_signals_turn (?t1, m) = Ok (SuspendTask, t2, m') \<and> (\<forall>m2. handle_signals_turn (t2, m2) = Ok (LeaveLoop, t2, m2))" for m
    using c [of m] s by (auto simp: handle_signals_turn_def stuck_def)
  with k show ?thesis by blast
qed

section \<open>Properties\<close>

text \<open>
  C35. Checking the pending signals always succeeds on a well-formed task and keeps it well formed:
  the table has 32 actions and the signal being handled, if any, is an index of it.
\<close>

theorem check_pending_signals_ok:
  assumes "signals_ok t"
  shows "\<exists>t' m'. check_pending_signals (t, m) = Ok (t', m') \<and> signals_ok t'"
  using check_pending_loop_ok [OF assms, of "MAX_SIG + 1" 0 m] by (simp add: check_pending_signals_def MAX_SIG_def)

text \<open>
  What a delivery does: when the first deliverable signal has a user handler, the interrupted context
  is saved, the task will run the handler with the signal number as argument, the signal is no
  longer pending, and the mask of the action is in force. The way back from the handler is
  in \<open>Signal_Return\<close>.
\<close>

lemma check_pending_delivers:
  assumes "signals_ok t" "deliverable t sig" "\<forall>i < sig. \<not> deliverable t i" "sig \<notin> kernel_sigs"
    and "act = table (signal_actions t) ! sig" "handler act \<noteq> 0" "cx = get_trap_cx t m"
  shows "check_pending_signals (t, m) = Ok
    (t\<lparr>signal_mask := act_mask act, handling_sig := of_nat sig, signals := signals t XOR signal_flag sig, trap_ctx_backup := Some cx\<rparr>,
     store_trap_cx m (trap_cx_ppn t) (cx\<lparr>sepc := handler act, regs := (regs cx)[10 := of_nat sig]\<rparr>))"
proof -
  have sig: "sig < 32" using assms(2) by (simp add: deliverable_def)
  show ?thesis
    using check_pending_first [OF assms(1,3,2)] assms(1,4-7) sig
    by (simp add: call_user_signal_handler_def index_def signals_ok_def Let_def get_trap_cx_def)
qed

text \<open>
  C34. A frozen task wakes up: if \<^verbatim>\<open>SIGCONT\<close> is deliverable, \<^verbatim>\<open>SIGSTOP\<close> is not, and no signal below
  \<^verbatim>\<open>SIGCONT\<close> has to be handled by the user, then one turn of the waiting loop thaws the task and the
  next one leaves the loop.
\<close>

theorem sigcont_resumes:
  assumes "signals_ok t" "frozen t" "\<not> killed t" "deliverable t 18" "\<not> deliverable t 19"
    and "\<forall>i < 18. deliverable t i \<longrightarrow> i \<in> kernel_sigs"
  shows "\<exists>t' m'. handle_signals_turn (t, m) = Ok (SuspendTask, t', m') \<and> handle_signals_turn (t', m2) = Ok (LeaveLoop, t', m2)"
  using loop_resumes [OF assms(1), of "MAX_SIG + 1" 0 m] assms(2-6)
  by (auto simp: handle_signals_turn_def check_pending_signals_def MAX_SIG_def)

text \<open>
  C33. A frozen task with an unhandled signal is stuck. Let the first deliverable signal \<open>sig\<close> be a
  user signal without a handler. However many turns of the waiting loop the task makes, and
  whatever signals with numbers from \<open>sig\<close> on others send to it in between (\<^verbatim>\<open>SIGCONT\<close> included when
  \<open>sig < 18\<close>, \<^verbatim>\<open>SIGKILL\<close> when \<open>sig < 9\<close>), every further turn changes nothing and suspends the task again.
  It is freed by a smaller number: an unmasked \<^verbatim>\<open>SIGDEF\<close>, or \<^verbatim>\<open>SIGKILL\<close> when \<open>9 < sig\<close>, is accepted and
  sets \<^verbatim>\<open>killed\<close> in the next turn, and the turn after that leaves the loop.
\<close>

theorem unhandled_signal_blocks_wakeup:
  assumes "signals_ok t" "frozen t" "\<not> killed t" "deliverable t sig" "\<forall>i < sig. \<not> deliverable t i" "sig \<notin> kernel_sigs"
    and "handler (table (signal_actions t) ! sig) = 0" and "(wait_step sig)\<^sup>*\<^sup>* t t'"
  shows "(\<forall>m. handle_signals_turn (t', m) = Ok (SuspendTask, t', m))
    \<and> (\<forall>n. n = 0 \<or> n = 9 \<longrightarrow> n < sig \<longrightarrow> \<not> sig_blocked t' n \<longrightarrow>
         (\<exists>t1. kill_inner (of_nat n) t' = (0, t1)
           \<and> (\<forall>m. \<exists>t2 m'. handle_signals_turn (t1, m) = Ok (SuspendTask, t2, m')
                 \<and> (\<forall>m2. handle_signals_turn (t2, m2) = Ok (LeaveLoop, t2, m2)))))"
proof -
  have s: "stuck sig t'" by (rule stuck_steps [OF assms(8)]) (use assms(1-7) in \<open>simp add: stuck_def\<close>)
  show ?thesis using stuck_turn [OF s] stuck_freed [OF s] by blast
qed

text \<open>A signal number is taken modulo 32, and a signal that is already pending is refused.\<close>

lemma kill_inner_aliases: "kill_inner (signum + 32) t = kill_inner signum t"
proof -
  have "unat ((signum + 32) AND 31) = unat (signum AND 31)" unfolding unat_and_31 by (simp add: unat_word_ariths mod_mod_cancel)
  then show ?thesis by (simp add: kill_inner_def kill_flag_def)
qed

section \<open>Witnesses\<close>

definition inner_example :: TaskControlBlockInner where
  "inner_example =
     \<lparr>trap_cx_ppn = PhysPageNum 5, base_size = 0, task_status = Ready, task_cx = zero_init,
      memory_set = \<lparr>page_table = \<lparr>root_ppn = PhysPageNum 0, pt_frames = []\<rparr>, areas = []\<rparr>,
      parent = None, children = [], exit_code = 0, fd_table = [], signals = 0, signal_mask = 0, handling_sig = - 1,
      signal_actions = SignalActions_default, killed = False, frozen = False, trap_ctx_backup = None\<rparr>"

lemma signals_ok_example: "signals_ok inner_example"
  by (simp add: signals_ok_def inner_example_def SignalActions_default_def MAX_SIG_def)

theorem check_pending_signals_ok_witness:
  "\<exists>t' m'. check_pending_signals (inner_example, \<lambda>_. 0) = Ok (t', m') \<and> signals_ok t'"
  by (rule check_pending_signals_ok [OF signals_ok_example])

text \<open>A frozen task with pending signals.\<close>

definition inner_frozen :: "SignalFlags \<Rightarrow> TaskControlBlockInner" where
  "inner_frozen flags = inner_example\<lparr>frozen := True, signals := flags\<rparr>"

lemma deliverable_frozen: "deliverable (inner_frozen flags) i \<longleftrightarrow> i < 32 \<and> bit flags i"
  by (simp add: deliverable_def inner_frozen_def inner_example_def)

lemma frozen_example: "signals_ok (inner_frozen flags)" "frozen (inner_frozen flags)" "\<not> killed (inner_frozen flags)"
  using signals_ok_example by (simp_all add: signals_ok_def inner_frozen_def inner_example_def)

theorem sigcont_resumes_witness:
  "\<exists>t' m'. handle_signals_turn (inner_frozen SIGCONT, \<lambda>_. 0) = Ok (SuspendTask, t', m') \<and> handle_signals_turn (t', \<lambda>_. 0) = Ok (LeaveLoop, t', \<lambda>_. 0)"
  by (rule sigcont_resumes [OF frozen_example]) (simp_all add: deliverable_frozen SIGCONT_flag bit_signal_flag)

text \<open>With \<^verbatim>\<open>SIGHUP\<close> pending and no handler for it, \<^verbatim>\<open>SIGCONT\<close> (18) and \<^verbatim>\<open>SIGKILL\<close> (9) sent later are of no use, \<^verbatim>\<open>SIGDEF\<close> (0) is.\<close>

theorem unhandled_signal_blocks_wakeup_witness:
  "\<exists>t1 t2. kill_inner 18 (inner_frozen SIGHUP) = (0, t1) \<and> kill_inner 9 t1 = (0, t2)
    \<and> handle_signals_turn (t2, \<lambda>_. 0) = Ok (SuspendTask, t2, \<lambda>_. 0)
    \<and> (\<exists>t3 t4 m'. kill_inner 0 t2 = (0, t3) \<and> handle_signals_turn (t3, \<lambda>_. 0) = Ok (SuspendTask, t4, m')
         \<and> handle_signals_turn (t4, m') = Ok (LeaveLoop, t4, m'))"
proof -
  let ?t = "inner_frozen SIGHUP"
  let ?t1 = "?t\<lparr>signals := SIGHUP OR signal_flag 18\<rparr>"
  let ?t2 = "?t\<lparr>signals := SIGHUP OR signal_flag 18 OR signal_flag 9\<rparr>"
  have hup: "SIGHUP = signal_flag 1" by (simp add: signal_flags signal_flag_def)
  have k1: "kill_inner 18 ?t = (0, ?t1)"
    using kill_inner_cases [of 18 ?t] by (auto simp: inner_frozen_def hup bit_signal_flag)
  have k2: "kill_inner 9 ?t1 = (0, ?t2)"
    using kill_inner_cases [of 9 ?t1] by (auto simp: inner_frozen_def hup bit_signal_flag bit_or_iff or.assoc)
  have "(wait_step 1)\<^sup>*\<^sup>* ?t ?t2"
    using wait_step.sent [OF _ k1, of 1] wait_step.sent [OF _ k2, of 1] by simp
  note run = unhandled_signal_blocks_wakeup [OF frozen_example, of SIGHUP 1 ?t2, OF _ _ _ _ this]
  have d: "deliverable ?t 1" "\<forall>i < 1. \<not> deliverable ?t i" "1 \<notin> kernel_sigs" "handler (table (signal_actions ?t) ! 1) = 0"
    by (simp_all add: deliverable_frozen hup bit_signal_flag kernel_sigs_def)
      (simp add: inner_frozen_def inner_example_def SignalActions_default_def SignalAction_default_def MAX_SIG_def)
  have nb: "\<not> sig_blocked ?t2 0" by (simp add: sig_blocked_def inner_frozen_def inner_example_def)
  from run [OF d] have w: "handle_signals_turn (?t2, \<lambda>_. 0) = Ok (SuspendTask, ?t2, \<lambda>_. 0)"
    "\<exists>t1. kill_inner (of_nat 0) ?t2 = (0, t1) \<and> (\<forall>m. \<exists>t2 m'. handle_signals_turn (t1, m) = Ok (SuspendTask, t2, m')
       \<and> (\<forall>m2. handle_signals_turn (t2, m2) = Ok (LeaveLoop, t2, m2)))" using nb by auto
  from w(2) obtain t3 where t3: "kill_inner 0 ?t2 = (0, t3)" "\<forall>m. \<exists>t2 m'. handle_signals_turn (t3, m) = Ok (SuspendTask, t2, m')
       \<and> (\<forall>m2. handle_signals_turn (t2, m2) = Ok (LeaveLoop, t2, m2))" by auto
  from t3(2) obtain t4 m' where "handle_signals_turn (t3, \<lambda>_. 0) = Ok (SuspendTask, t4, m')" "handle_signals_turn (t4, m') = Ok (LeaveLoop, t4, m')" by blast
  with k1 k2 w(1) t3(1) show ?thesis by blast
qed

end
