(* ===== verification/User_Buffer.thy ===== *)
theory User_Buffer
  imports Page_Table
begin

text \<open>
  The kernel's access to user memory, the second half of
  \<^verbatim>\<open>src/src/os/src/mm/page_table.rs\<close>: translating a buffer, a string or a reference of a user
  address space page by page, and the buffer type that the files read from and write to.
  A translated slice is the list of the physical addresses of its bytes. The loops may run
  forever (or until a page is missing), so they are \<open>partial_function (option)\<close> definitions:
  \<open>None\<close> means that the loop does not return.
\<close>

section \<open>Model\<close>

partial_function (option) translated_byte_buffer_loop ::
    "PageTable \<Rightarrow> memory \<Rightarrow> usize \<Rightarrow> usize \<Rightarrow> nat list list \<Rightarrow> nat list list outcome option" where
  "translated_byte_buffer_loop page_table m end start v =
     (if start < end then
        let start_va = VirtAddr_from_usize start;
            vpn = VirtAddr_floor start_va
        in case find_pte page_table vpn m of
             None \<Rightarrow> Some (Panic UnwrapNone)
           | Some pte \<Rightarrow>
               let ppn = PageTableEntry_ppn (load_pte m pte);
                   end_va = min (VirtAddr_from_VirtPageNum (VirtPageNum_step vpn)) (VirtAddr_from_usize end);
                   page = PhysPageNum_get_bytes_array ppn;
                   part = (if VirtAddr_page_offset end_va = 0
                           then slice page (unat (VirtAddr_page_offset start_va)) (length page)
                           else slice page (unat (VirtAddr_page_offset start_va))
                                  (unat (VirtAddr_page_offset end_va)))
               in case part of
                    Panic e \<Rightarrow> Some (Panic e)
                  | Ok s \<Rightarrow> translated_byte_buffer_loop page_table m end (usize_from_VirtAddr end_va) (v @ [s])
      else Some (Ok v))"

definition translated_byte_buffer ::
    "usize \<Rightarrow> usize \<Rightarrow> usize \<Rightarrow> memory \<Rightarrow> nat list list outcome option" where
  "translated_byte_buffer token ptr len m =
     translated_byte_buffer_loop (PageTable_from_token token) m (ptr + len) ptr []"

text \<open>The characters of the string are the bytes read (\<^verbatim>\<open>ch as char\<close>).\<close>

partial_function (option) translated_str_loop ::
    "PageTable \<Rightarrow> memory \<Rightarrow> usize \<Rightarrow> u8 list \<Rightarrow> u8 list outcome option" where
  "translated_str_loop page_table m va string =
     (case PageTable_translate_va page_table (VirtAddr_from_usize va) m of
        None \<Rightarrow> Some (Panic UnwrapNone)
      | Some pa \<Rightarrow>
          let ch = m (unat (the_pa pa))
          in if ch = 0 then Some (Ok string)
             else translated_str_loop page_table m (va + 1) (string @ [ch]))"

definition translated_str :: "usize \<Rightarrow> usize \<Rightarrow> memory \<Rightarrow> u8 list outcome option" where
  "translated_str token ptr m = translated_str_loop (PageTable_from_token token) m ptr []"

text \<open>A reference is the physical address it points to.\<close>

definition translated_ref_mut :: "usize \<Rightarrow> usize \<Rightarrow> memory \<Rightarrow> nat outcome" where
  "translated_ref_mut token ptr m =
     and_then (unwrap (PageTable_translate_va (PageTable_from_token token) (VirtAddr_from_usize ptr) m))
       (\<lambda>pa. Ok (unat (the_pa pa)))"

definition translated_ref :: "usize \<Rightarrow> usize \<Rightarrow> memory \<Rightarrow> nat outcome" where
  "translated_ref token ptr m =
     and_then (unwrap (PageTable_translate_va (PageTable_from_token token) (VirtAddr_from_usize ptr) m))
       (\<lambda>pa. Ok (unat (the_pa pa)))"

record UserBuffer =
  buffers :: "nat list list"

definition UserBuffer_new :: "nat list list \<Rightarrow> UserBuffer" where
  "UserBuffer_new bs = \<lparr>buffers = bs\<rparr>"

definition UserBuffer_len :: "UserBuffer \<Rightarrow> usize" where
  "UserBuffer_len b = foldl (\<lambda>total buf. total + of_nat (length buf)) 0 (buffers b)"

record UserBufferIterator =
  ubi_buffers :: "nat list list"
  current_buffer :: nat
  current_idx :: nat

definition UserBuffer_into_iter :: "UserBuffer \<Rightarrow> UserBufferIterator" where
  "UserBuffer_into_iter b = \<lparr>ubi_buffers = buffers b, current_buffer = 0, current_idx = 0\<rparr>"

definition UserBufferIterator_next ::
    "UserBufferIterator \<Rightarrow> (nat option \<times> UserBufferIterator) outcome" where
  "UserBufferIterator_next it =
     (if current_buffer it \<ge> length (ubi_buffers it) then Ok (None, it)
      else
        let buf = ubi_buffers it ! current_buffer it
        in and_then (index buf (current_idx it)) (\<lambda>byte.
             Ok (Some byte,
                 if current_idx it + 1 = length buf
                 then it\<lparr>current_buffer := current_buffer it + 1, current_idx := 0\<rparr>
                 else it\<lparr>current_idx := current_idx it + 1\<rparr>)))"

section \<open>Iterating over a buffer\<close>

text \<open>The bytes an iterator has still to yield; it never meets an empty slice.\<close>

definition ubi_rest :: "UserBufferIterator \<Rightarrow> nat list" where
  "ubi_rest it =
     (case drop (current_buffer it) (ubi_buffers it) of
        [] \<Rightarrow> []
      | b # bs \<Rightarrow> drop (current_idx it) b @ concat bs)"

definition ubi_ok :: "UserBufferIterator \<Rightarrow> bool" where
  "ubi_ok it \<longleftrightarrow>
     (\<forall>b \<in> set (ubi_buffers it). b \<noteq> [])
     \<and> (current_buffer it < length (ubi_buffers it)
          \<longrightarrow> current_idx it < length (ubi_buffers it ! current_buffer it))
     \<and> (length (ubi_buffers it) \<le> current_buffer it \<longrightarrow> current_idx it = 0)"

lemma ubi_into_iter:
  assumes "\<forall>s \<in> set (buffers b). s \<noteq> []"
  shows "ubi_ok (UserBuffer_into_iter b)" "ubi_rest (UserBuffer_into_iter b) = concat (buffers b)"
  using assms
  by (auto simp: ubi_ok_def ubi_rest_def UserBuffer_into_iter_def in_set_conv_nth split: list.splits)

lemma UserBufferIterator_next_Ok:
  assumes ok: "ubi_ok it"
  shows "\<exists>it'. UserBufferIterator_next it =
      Ok (case ubi_rest it of [] \<Rightarrow> None | x # _ \<Rightarrow> Some x, it')
    \<and> ubi_ok it' \<and> ubi_rest it' = tl (ubi_rest it)"
proof (cases "current_buffer it < length (ubi_buffers it)")
  case False
  then show ?thesis using ok by (simp add: UserBufferIterator_next_def ubi_rest_def)
next
  case True
  let ?c = "current_buffer it" and ?i = "current_idx it" and ?b = "ubi_buffers it ! current_buffer it"
  have i: "?i < length ?b" using ok True by (simp add: ubi_ok_def)
  have d: "drop ?c (ubi_buffers it) = ?b # drop (Suc ?c) (ubi_buffers it)"
    using True by (simp add: Cons_nth_drop_Suc)
  have bi: "drop ?i ?b = ?b ! ?i # drop (Suc ?i) ?b" using i by (simp add: Cons_nth_drop_Suc)
  have rest: "ubi_rest it = ?b ! ?i # drop (Suc ?i) ?b @ concat (drop (Suc ?c) (ubi_buffers it))"
    by (simp add: ubi_rest_def d bi)
  show ?thesis
  proof (cases "Suc ?i = length ?b")
    case last: True
    let ?it' = "it\<lparr>current_buffer := Suc ?c, current_idx := 0\<rparr>"
    have "ubi_ok ?it'" using ok by (auto simp: ubi_ok_def nth_mem)
    moreover have "ubi_rest ?it' = concat (drop (Suc ?c) (ubi_buffers it))"
      by (simp add: ubi_rest_def split: list.splits)
    ultimately show ?thesis
      using True i last rest by (simp add: UserBufferIterator_next_def Let_def)
  next
    case False
    let ?it' = "it\<lparr>current_idx := Suc ?i\<rparr>"
    have "ubi_ok ?it'" using ok i False True by (auto simp: ubi_ok_def)
    moreover have "ubi_rest ?it' = drop (Suc ?i) ?b @ concat (drop (Suc ?c) (ubi_buffers it))"
      by (simp add: ubi_rest_def d)
    ultimately show ?thesis
      using True i False rest by (simp add: UserBufferIterator_next_def Let_def)
  qed
qed

lemma UserBuffer_len_concat:
  assumes "length (concat (buffers b)) < 2 ^ 64"
  shows "unat (UserBuffer_len b) = length (concat (buffers b))"
proof -
  have "foldl (\<lambda>total buf. total + of_nat (length buf)) t bs = t + of_nat (length (concat bs))"
    for t :: usize and bs :: "nat list list"
    by (induction bs arbitrary: t) simp_all
  then have "UserBuffer_len b = of_nat (length (concat (buffers b)))"
    by (simp add: UserBuffer_len_def)
  with assms show ?thesis by (simp add: unat_of_nat)
qed

section \<open>Translating a buffer\<close>

text \<open>The physical address of a byte of an address space.\<close>

definition va_paddr :: "PageTable \<Rightarrow> memory \<Rightarrow> nat \<Rightarrow> nat option" where
  "va_paddr pt m a =
     map_option (unat \<circ> the_pa) (PageTable_translate_va pt (VirtAddr_from_usize (of_nat a)) m)"

lemma VirtAddr_of_nat:
  assumes "a < 2 ^ 39"
  shows "unat (the_va (VirtAddr_from_usize (of_nat a))) = a"
proof -
  have "a < 2 ^ 64" using assms by simp
  then have "unat (of_nat a :: usize) = a" by (simp add: unat_of_nat)
  with assms show ?thesis by simp
qed

lemma VirtAddr_floor_of_nat:
  assumes "a < 2 ^ 39"
  shows "VirtAddr_floor (VirtAddr_from_usize (of_nat a)) = VirtPageNum (of_nat (a div 4096))"
proof -
  have "a div 4096 < 2 ^ 64" using assms by simp
  then have u: "unat (of_nat (a div 4096) :: usize) = a div 4096" by (simp only: unat_of_nat) simp
  show ?thesis
    by (rule VirtPageNum.expand)
      (simp add: word_unat_eq_iff VirtAddr_of_nat [OF assms] u del: unat_VirtAddr_from_usize)
qed

lemma va_paddr_find_pte:
  assumes "a < 2 ^ 39" and "find_pte pt (VirtPageNum (of_nat (a div 4096))) m = Some pte"
  shows "va_paddr pt m a =
    Some (unat (the_ppn (PageTableEntry_ppn (load_pte m pte))) * 4096 + a mod 4096)"
proof -
  let ?va = "VirtAddr_from_usize (of_nat a)"
  have off: "unat (VirtAddr_page_offset ?va) = a mod 4096"
    by (simp add: VirtAddr_of_nat [OF assms(1)] del: unat_VirtAddr_from_usize)
  show ?thesis
    using unat_PhysAddr_of_ppn_offset [OF PageTableEntry_ppn_bound [of "load_pte m pte"], of "VirtAddr_page_offset ?va"]
      assms(2) off
    by (simp add: va_paddr_def PageTable_translate_va_def VirtAddr_floor_of_nat [OF assms(1)] Let_def
        del: unat_PhysAddr_from_usize)
qed

lemma get_bytes_array_upt:
  assumes "unat (the_ppn p) < 2 ^ 44"
  shows "PhysPageNum_get_bytes_array p = [unat (the_ppn p) * 4096..<unat (the_ppn p) * 4096 + 4096]"
  using assms
  by (intro nth_equalityI) (simp_all add: PhysPageNum_get_bytes_array_def unat_PhysAddr_from_PhysPageNum)

lemma page_addresses:
  assumes "n \<le> k" and "n mod 4096 + (k - n) \<le> 4096"
  shows "map (\<lambda>a. b + a mod 4096) [n..<k] = [b + n mod 4096..<b + n mod 4096 + (k - n)]"
proof (rule nth_equalityI)
  fix i assume "i < length (map (\<lambda>a. b + a mod 4096) [n..<k])"
  then have i: "i < k - n" by simp
  then have lt: "n mod 4096 + i < 4096" using assms(2) by simp
  have "(n + i) mod 4096 = (n mod 4096 + i) mod 4096" by (simp add: mod_simps)
  also have "\<dots> = n mod 4096 + i" using lt by (rule mod_less)
  finally show "map (\<lambda>a. b + a mod 4096) [n..<k] ! i = [b + n mod 4096..<b + n mod 4096 + (k - n)] ! i"
    using i by simp
qed (use assms in simp)

text \<open>One round of the loop: the bytes of the current page up to \<open>k\<close>.\<close>

lemma end_va_eq:
  assumes "n < e" and "e \<le> 2 ^ 38"
  shows "unat (the_va (min (VirtAddr_from_VirtPageNum (VirtPageNum_step (VirtPageNum (of_nat (n div 4096)))))
      (VirtAddr_from_usize (of_nat e)))) = min ((n div 4096 + 1) * 4096) e"
proof -
  have q: "n div 4096 < 2 ^ 26" using assms by (simp add: less_mult_imp_div_less)
  then have "unat (of_nat (n div 4096) + 1 :: usize) = n div 4096 + 1"
    by (subst unat_add_no_wrap) (simp_all add: unat_of_nat)
  then have a: "unat (the_va (VirtAddr_from_VirtPageNum (VirtPageNum_step (VirtPageNum (of_nat (n div 4096)))))) =
      (n div 4096 + 1) * 4096"
    using q by (subst unat_VirtAddr_from_VirtPageNum) (simp_all add: VirtPageNum_step_def)
  have b: "unat (the_va (VirtAddr_from_usize (of_nat e))) = e"
    using assms(2) by (intro VirtAddr_of_nat) simp
  show ?thesis
    unfolding min_def less_eq_VirtAddr_def word_le_nat_alt a b
    by (simp only: a b if_distrib [of "\<lambda>x. unat (the_va x)"])
qed

lemma page_slice:
  assumes nk: "n < k" "k \<le> (n div 4096 + 1) * 4096"
    and offs: "unat so = n mod 4096" "unat eo = k mod 4096"
    and p: "unat (the_ppn p) < 2 ^ 44"
  shows "(if eo = 0 then slice (PhysPageNum_get_bytes_array p) (unat so) (length (PhysPageNum_get_bytes_array p))
      else slice (PhysPageNum_get_bytes_array p) (unat so) (unat eo)) =
    Ok (map (\<lambda>a. unat (the_ppn p) * 4096 + a mod 4096) [n..<k])"
proof -
  define q r where "q = n div 4096" and "r = n mod 4096"
  have n: "n = q * 4096 + r" "r < 4096" by (simp_all add: q_def r_def)
  have k: "k \<le> q * 4096 + 4096" using nk(2) by (simp add: q_def)
  have full: "k mod 4096 = 0 \<Longrightarrow> k = q * 4096 + 4096"
  proof -
    assume "k mod 4096 = 0"
    then obtain j where "k = 4096 * j" by (auto simp: mod_eq_0_iff_dvd)
    moreover from this n nk(1) k have "q < j" "j \<le> q + 1" by simp_all
    ultimately show ?thesis by simp
  qed
  have part: "k mod 4096 = r + (k - n)" if "k mod 4096 \<noteq> 0"
  proof -
    have "k \<noteq> q * 4096 + 4096" using that by auto
    then have kk: "k = q * 4096 + (r + (k - n))" "r + (k - n) < 4096" using n nk(1) k by auto
    have "(q * 4096 + (r + (k - n))) mod 4096 = r + (k - n)" using kk(2) by simp
    with kk(1) show ?thesis by simp
  qed
  have eo0: "eo = 0 \<longleftrightarrow> k mod 4096 = 0" by (simp add: word_unat_eq_iff offs(2))
  have len: "n mod 4096 + (k - n) \<le> 4096" using n nk k by (simp flip: r_def)
  note arr = get_bytes_array_upt [OF p] and pg = page_addresses [OF less_imp_le [OF nk(1)] len]
  show ?thesis
  proof (cases "k mod 4096 = 0")
    case True
    then have "n mod 4096 + (k - n) = 4096" using n full by (simp flip: r_def)
    moreover have "slice (PhysPageNum_get_bytes_array p) (n mod 4096) 4096 =
        Ok [unat (the_ppn p) * 4096 + n mod 4096..<unat (the_ppn p) * 4096 + 4096]"
      unfolding arr by (rule slice_upt) simp_all
    ultimately show ?thesis using True eo0 arr by (simp add: offs pg add.assoc)
  next
    case False
    then have "slice (PhysPageNum_get_bytes_array p) (n mod 4096) (k mod 4096) =
        Ok [unat (the_ppn p) * 4096 + n mod 4096..<unat (the_ppn p) * 4096 + k mod 4096]"
      unfolding arr using part n by (intro slice_upt) (simp_all flip: r_def)
    then show ?thesis using False eo0 part by (simp add: offs pg add.assoc flip: r_def)
  qed
qed

lemma translated_byte_buffer_step:
  assumes ne: "n < e" "e \<le> 2 ^ 38" and k: "k = min ((n div 4096 + 1) * 4096) e"
    and pte: "find_pte pt (VirtPageNum (of_nat (n div 4096))) m = Some pte"
  shows "translated_byte_buffer_loop pt m (of_nat e) (of_nat n) v =
    translated_byte_buffer_loop pt m (of_nat e) (if k < 2 ^ 38 then of_nat k else - (2 ^ 38))
      (v @ [map (\<lambda>a. the (va_paddr pt m a)) [n..<k]])"
proof -
  let ?sva = "VirtAddr_from_usize (of_nat n)"
  define eva where "eva = min (VirtAddr_from_VirtPageNum (VirtPageNum_step (VirtPageNum (of_nat (n div 4096)))))
      (VirtAddr_from_usize (of_nat e))"
  define ppn where "ppn = PageTableEntry_ppn (load_pte m pte)"
  have n39: "n < 2 ^ 39" and nk: "n < k" "k \<le> (n div 4096 + 1) * 4096" "k \<le> 2 ^ 38"
    using ne k by (auto simp: less_le_trans dividend_less_div_times)
  have less: "(of_nat n :: usize) < of_nat e"
    using ne by (simp add: word_less_nat_alt unat_of_nat)
  have eva: "unat (the_va eva) = k" using end_va_eq [OF ne] by (simp add: eva_def k)
  have floor: "VirtAddr_floor ?sva = VirtPageNum (of_nat (n div 4096))"
    by (rule VirtAddr_floor_of_nat [OF n39])
  have so: "unat (VirtAddr_page_offset ?sva) = n mod 4096"
    by (simp add: VirtAddr_of_nat [OF n39] del: unat_VirtAddr_from_usize)
  have eo: "unat (VirtAddr_page_offset eva) = k mod 4096" by (simp add: eva)
  have sl: "map (\<lambda>a. the (va_paddr pt m a)) [n..<k] = map (\<lambda>a. unat (the_ppn ppn) * 4096 + a mod 4096) [n..<k]"
  proof (rule map_cong [OF refl])
    fix a assume "a \<in> set [n..<k]"
    then have "n \<le> a" "a < (n div 4096 + 1) * 4096" "a < 2 ^ 39" using nk by auto
    moreover from this have "a div 4096 = n div 4096"
      by (metis Suc_eq_plus1 div_le_mono le_antisym less_Suc_eq_le less_mult_imp_div_less)
    ultimately show "the (va_paddr pt m a) = unat (the_ppn ppn) * 4096 + a mod 4096"
      using va_paddr_find_pte [of a pt m pte] pte by (simp add: ppn_def)
  qed
  have next_: "usize_from_VirtAddr eva = (if k < 2 ^ 38 then of_nat k else - (2 ^ 38))"
  proof -
    have ev: "eva = VirtAddr_from_usize (of_nat k)"
      using VirtAddr_of_nat [of k] nk(3) by (intro VirtAddr.expand) (simp add: word_unat_eq_iff eva)
    have "unat (of_nat k :: usize) mod 2 ^ 39 = k"
      using nk(3) VirtAddr_of_nat [of k] unat_VirtAddr_from_usize [of "of_nat k"] by simp
    then have "unat (usize_from_VirtAddr eva) = (if k < 2 ^ 38 then k else k + (2 ^ 64 - 2 ^ 39))"
      by (simp only: ev unat_usize_from_VirtAddr_from_usize)
    with nk(3) show ?thesis
      by (cases "k < 2 ^ 38") (simp_all add: word_unat_eq_iff unat_of_nat)
  qed
  have pb: "unat (the_ppn ppn) < 2 ^ 44" by (simp only: ppn_def PageTableEntry_ppn_bound)
  show ?thesis
    using less page_slice [OF nk(1,2) so eo pb] pte
    by (subst translated_byte_buffer_loop.simps)
      (simp only: floor Let_def eva_def [symmetric] ppn_def [symmetric] next_ sl if_True option.case outcome.case)
qed

lemma translated_byte_buffer_loop_Ok:
  assumes "n \<le> e" and "e \<le> 2 ^ 38"
    and "\<And>a. n \<le> a \<Longrightarrow> a < e \<Longrightarrow> va_paddr pt m a \<noteq> None"
  shows "\<exists>w. translated_byte_buffer_loop pt m (of_nat e) (of_nat n) v = Some (Ok (v @ w))
    \<and> concat w = map (\<lambda>a. the (va_paddr pt m a)) [n..<e] \<and> (\<forall>s \<in> set w. s \<noteq> [])"
  using assms
proof (induction "e - n" arbitrary: n v rule: less_induct)
  case less
  show ?case
  proof (cases "n < e")
    case False
    then have "n = e" using less.prems by simp
    then show ?thesis by (simp add: translated_byte_buffer_loop.simps)
  next
    case True
    define k where "k = min ((n div 4096 + 1) * 4096) e"
    have nk: "n < k" "k \<le> e" using True by (auto simp: k_def dividend_less_div_times)
    have dec: "e - k < e - n" using nk by linarith
    have "n < 2 ^ 39" using True less.prems by simp
    then obtain pte where pte: "find_pte pt (VirtPageNum (of_nat (n div 4096))) m = Some pte"
      using less.prems(3) [of n] True
      by (auto simp: va_paddr_def PageTable_translate_va_def VirtAddr_floor_of_nat)
    let ?s = "map (\<lambda>a. the (va_paddr pt m a)) [n..<k]"
    note step = translated_byte_buffer_step [OF True less.prems(2) k_def pte]
    have split: "[n..<e] = [n..<k] @ [k..<e]" using nk upt_add_eq_append [of n k "e - k"] by simp
    show ?thesis
    proof (cases "k < 2 ^ 38")
      case True
      then obtain w where "translated_byte_buffer_loop pt m (of_nat e) (of_nat k) (v @ [?s]) = Some (Ok ((v @ [?s]) @ w))"
        "concat w = map (\<lambda>a. the (va_paddr pt m a)) [k..<e]" "\<forall>s \<in> set w. s \<noteq> []"
        using less.hyps [of k "v @ [?s]", OF _ nk(2) less.prems(2) less.prems(3)] nk dec by auto
      with step True split nk show ?thesis by (intro exI [of _ "?s # w"]) simp
    next
      case False
      then have e: "k = 2 ^ 38" "e = 2 ^ 38" using nk less.prems(2) by simp_all
      have "\<not> - (2 ^ 38) < (of_nat e :: usize)" unfolding e(2) by simp
      then have "translated_byte_buffer_loop pt m (of_nat e) (- (2 ^ 38)) (v @ [?s]) = Some (Ok (v @ [?s]))"
        by (subst translated_byte_buffer_loop.simps) simp
      with step False e nk show ?thesis by (intro exI [of _ "[?s]"]) simp
    qed
  qed
qed

section \<open>Properties\<close>

text \<open>
  C36. For a user buffer inside the lower half of the address space whose pages all have an
  entry, \<^verbatim>\<open>translated_byte_buffer\<close> returns, and the slices it returns are non-empty and
  together are exactly the physical bytes of the buffer, in order, byte for byte what
  \<^verbatim>\<open>translate_va\<close> gives. In particular the buffer has length \<open>len\<close>, also where it crosses pages.
  A page without an entry would be a panic, and for the top of the address space see the end of this theory.
\<close>

theorem translated_byte_buffer_bytes:
  assumes "unat ptr + unat len \<le> 2 ^ 38"
    and "\<forall>a \<in> {unat ptr..<unat ptr + unat len}. va_paddr (PageTable_from_token token) m a \<noteq> None"
  shows "\<exists>v. translated_byte_buffer token ptr len m = Some (Ok v)
    \<and> concat v = map (\<lambda>a. the (va_paddr (PageTable_from_token token) m a)) [unat ptr..<unat ptr + unat len]
    \<and> (\<forall>s \<in> set v. s \<noteq> [])
    \<and> UserBuffer_len (UserBuffer_new v) = len"
proof -
  have "ptr + len = of_nat (unat ptr + unat len)" "ptr = of_nat (unat ptr)" by simp_all
  then have "translated_byte_buffer token ptr len m =
      translated_byte_buffer_loop (PageTable_from_token token) m
        (of_nat (unat ptr + unat len)) (of_nat (unat ptr)) []"
    by (simp only: translated_byte_buffer_def)
  moreover obtain w where "translated_byte_buffer_loop (PageTable_from_token token) m
      (of_nat (unat ptr + unat len)) (of_nat (unat ptr)) [] = Some (Ok ([] @ w))"
    and w: "concat w = map (\<lambda>a. the (va_paddr (PageTable_from_token token) m a)) [unat ptr..<unat ptr + unat len]"
    and ne: "\<forall>s \<in> set w. s \<noteq> []"
    using translated_byte_buffer_loop_Ok [of "unat ptr" "unat ptr + unat len" "PageTable_from_token token" m "[]"] assms
    by auto
  moreover have "unat (UserBuffer_len (UserBuffer_new w)) = unat len"
    using unat_usize_bound [of len] by (subst UserBuffer_len_concat) (simp_all add: UserBuffer_new_def w)
  ultimately show ?thesis by (auto simp: word_unat_eq_iff)
qed

text \<open>The byte of an address space that a user pointer denotes.\<close>

definition user_byte :: "usize \<Rightarrow> memory \<Rightarrow> usize \<Rightarrow> u8 option" where
  "user_byte token m va =
     map_option (\<lambda>pa. m (unat (the_pa pa)))
       (PageTable_translate_va (PageTable_from_token token) (VirtAddr_from_usize va) m)"

lemma translated_str_loop_Ok:
  assumes "\<And>i. i < length bs \<Longrightarrow> user_byte token m (va + of_nat i) = Some (bs ! i)"
    and "0 \<notin> set bs" and "user_byte token m (va + of_nat (length bs)) = Some 0"
  shows "translated_str_loop (PageTable_from_token token) m va str = Some (Ok (str @ bs))"
  using assms
proof (induction bs arbitrary: va str)
  case Nil
  then show ?case
    by (subst translated_str_loop.simps) (auto simp: user_byte_def split: option.splits)
next
  case (Cons b bs)
  have "user_byte token m (va + 1 + of_nat i) = Some (bs ! i)" if "i < length bs" for i
    using Cons.prems(1) [of "Suc i"] that by (simp add: ac_simps)
  moreover have "user_byte token m (va + 1 + of_nat (length bs)) = Some 0"
    using Cons.prems(3) by (simp add: ac_simps)
  ultimately have "translated_str_loop (PageTable_from_token token) m (va + 1) (str @ [b]) = Some (Ok ((str @ [b]) @ bs))"
    using Cons.prems(2) by (intro Cons.IH) auto
  moreover have "user_byte token m va = Some b" using Cons.prems(1) [of 0] by simp
  ultimately show ?case
    using Cons.prems(2) by (subst translated_str_loop.simps) (auto simp: user_byte_def)
qed

text \<open>
  \<^verbatim>\<open>translated_str\<close> returns the bytes of a NUL-terminated user string up to and without
  the terminator, for every string whose bytes and terminator are mapped.
\<close>

theorem translated_str_bytes:
  assumes "\<forall>i < length bs. user_byte token m (ptr + of_nat i) = Some (bs ! i)"
    and "0 \<notin> set bs" and "user_byte token m (ptr + of_nat (length bs)) = Some 0"
  shows "translated_str token ptr m = Some (Ok bs)"
  using translated_str_loop_Ok [of bs token m ptr "[]"] assms by (simp add: translated_str_def)

section \<open>Examples\<close>

lemma map_example_paddr:
  assumes m: "PageTable_map pt_example (VirtPageNum 5) p (PTE_R OR PTE_U) mm_example1 = Ok (pt, s)"
    and p: "unat (the_ppn p) < 2 ^ 44" and a: "0x5000 \<le> a" "a < 0x6000"
  shows "va_paddr (PageTable_from_token (PageTable_token pt)) (mem s) a =
    Some (unat (the_ppn p) * 4096 + a mod 4096)"
proof -
  note map = PageTable_map_Ok [OF pt_example_wf(1) m]
  have a39: "a < 2 ^ 39" and a5: "a div 4096 = 5" using a by (simp_all add: div_nat_eqI)
  have "unat (the_ppn (root_ppn pt)) < 2 ^ 44"
    using pt_wf_table(3) [OF map(1) table_path_Nil] by simp
  then have "pt_abs (PageTable_from_token (PageTable_token pt)) (mem s) (VirtPageNum 5) =
      Some (PageTableEntry_new p (PTE_R OR PTE_U OR PTE_V))"
    using map(3) [of "VirtPageNum 5"] pt_abs_root_cong [OF root_from_token, of pt "mem s" "VirtPageNum 5"]
    by (simp add: or.assoc)
  then obtain pte where "find_pte (PageTable_from_token (PageTable_token pt)) (VirtPageNum (of_nat (a div 4096))) (mem s) = Some pte"
    "load_pte (mem s) pte = PageTableEntry_new p (PTE_R OR PTE_U OR PTE_V)"
    using a5 by (auto elim: find_pte_pt_abs)
  from va_paddr_find_pte [OF a39 this(1)] this(2) p show ?thesis by simp
qed

lemma map_example_mem:
  assumes m: "PageTable_map pt_example (VirtPageNum 5) p (PTE_R OR PTE_U) mm_example1 = Ok (pt, s)"
    and x: "x div 4096 < 0x80600"
  shows "mem s x = mem mm_example x"
proof -
  note map = PageTable_map_Ok [OF pt_example_wf(1) m]
    and new = PageTable_new_Ok [OF mm_example_inv PageTable_new_example]
  have out: "x \<notin> frame_bytes q" if "0x80600 \<le> unat (the_ppn q)" for q
    using that x by (auto simp: frame_bytes_def less_eq_div_iff_mult_less_eq not_le)
  have "q \<in> set (pt_frames pt) \<Longrightarrow> 0x80600 \<le> unat (the_ppn q)" for q
    using map(1) by (auto simp: pt_wf_def fa_live_def)
  then have "mem s x = mem mm_example1 x" using out by (intro map(8)) auto
  also have "\<dots> = mem mm_example x" using out by (intro new(6)) (simp add: pt_example_def)
  finally show ?thesis .
qed

theorem translated_byte_buffer_bytes_witness:
  "case PageTable_map pt_example (VirtPageNum 5) (PhysPageNum 0x80700) (PTE_R OR PTE_U) mm_example1 of
     Ok (pt, s) \<Rightarrow>
       \<exists>v. translated_byte_buffer (PageTable_token pt) 0x5100 3 (mem s) = Some (Ok v)
         \<and> concat v = [0x80700100, 0x80700101, 0x80700102]
   | Panic _ \<Rightarrow> False"
proof -
  obtain pt s where m: "PageTable_map pt_example (VirtPageNum 5) (PhysPageNum 0x80700) (PTE_R OR PTE_U) mm_example1 = Ok (pt, s)"
    by (rule map_example)
  note pa = map_example_paddr [OF m]
  have up: "[unat (0x5100 :: usize)..<unat (0x5100 :: usize) + unat (3 :: usize)] = [0x5100, 0x5101, 0x5102]"
    by (simp add: upt_rec)
  have "\<exists>v. translated_byte_buffer (PageTable_token pt) 0x5100 3 (mem s) = Some (Ok v)
    \<and> concat v = map (\<lambda>a. the (va_paddr (PageTable_from_token (PageTable_token pt)) (mem s) a))
        [unat (0x5100 :: usize)..<unat (0x5100 :: usize) + unat (3 :: usize)]
    \<and> (\<forall>s \<in> set v. s \<noteq> []) \<and> UserBuffer_len (UserBuffer_new v) = 3"
    by (rule translated_byte_buffer_bytes) (use pa in auto)
  then show ?thesis unfolding up using m pa by auto
qed

theorem translated_str_bytes_witness:
  "case PageTable_map pt_example (VirtPageNum 5) (PhysPageNum 0x80500) (PTE_R OR PTE_U) mm_example1 of
     Ok (pt, s) \<Rightarrow> translated_str (PageTable_token pt) 0x5100 (mem s) = Some (Ok [7, 7])
   | Panic _ \<Rightarrow> False"
proof -
  obtain pt s where m: "PageTable_map pt_example (VirtPageNum 5) (PhysPageNum 0x80500) (PTE_R OR PTE_U) mm_example1 = Ok (pt, s)"
    by (rule map_example)
  have ub: "user_byte (PageTable_token pt) (mem s) (of_nat a) = Some (mem mm_example (0x80500000 + a mod 4096))"
    if "0x5000 \<le> a" "a < 0x6000" for a
    using map_example_paddr [OF m _ that] map_example_mem [OF m, of "0x80500000 + a mod 4096"]
    by (auto simp: va_paddr_def user_byte_def div_nat_eqI)
  have bytes: "user_byte (PageTable_token pt) (mem s) 0x5100 = Some 7"
    "user_byte (PageTable_token pt) (mem s) 0x5101 = Some 7"
    "user_byte (PageTable_token pt) (mem s) 0x5102 = Some 0"
    using ub [of "0x5100"] ub [of "0x5101"] ub [of "0x5102"] by (simp_all add: mm_example_def)
  have "translated_str (PageTable_token pt) 0x5100 (mem s) = Some (Ok [7, 7])"
    by (rule translated_str_bytes) (use bytes in \<open>auto simp: less_Suc_eq\<close>)
  then show ?thesis by (simp add: m)
qed

section \<open>A buffer that wraps around the address space\<close>

text \<open>
  The end address is compared as a 64-bit number but truncated to 39 bits when the page's
  end is computed: for an end address of \<open>2^39\<close> or more the loop comes back to the same
  start address and never returns.
\<close>

lemma wrapped_round:
  assumes e: "2 ^ 39 \<le> unat end" "unat end mod 2 ^ 39 < 2 ^ 38"
    and start: "unat start = unat end mod 2 ^ 39"
  shows "start < end"
    and "min (VirtAddr_from_VirtPageNum (VirtPageNum_step (VirtAddr_floor (VirtAddr_from_usize start))))
      (VirtAddr_from_usize end) = VirtAddr_from_usize start"
    and "usize_from_VirtAddr (VirtAddr_from_usize start) = start"
proof -
  let ?sva = "VirtAddr_from_usize start"
  let ?vpn = "VirtAddr_floor ?sva"
  have sva: "unat (the_va ?sva) = unat start" using start by simp
  have eva: "VirtAddr_from_usize end = ?sva"
    by (rule VirtAddr.expand) (simp add: word_unat_eq_iff start)
  have q: "unat (the_vpn ?vpn) < 2 ^ 26"
    unfolding unat_VirtAddr_floor sva using e(2) start by (simp add: less_mult_imp_div_less)
  then have "unat (the_vpn (VirtPageNum_step ?vpn)) = unat (the_vpn ?vpn) + 1"
    by (simp only: VirtPageNum_step_def VirtPageNum.sel, subst unat_add_no_wrap) simp_all
  then have "unat (the_va (VirtAddr_from_VirtPageNum (VirtPageNum_step ?vpn))) = (unat start div 4096 + 1) * 4096"
    using q by (subst unat_VirtAddr_from_VirtPageNum) (simp_all only: unat_VirtAddr_floor sva, simp)
  then have "?sva \<le> VirtAddr_from_VirtPageNum (VirtPageNum_step ?vpn)"
    unfolding less_eq_VirtAddr_def word_le_nat_alt sva
    by (simp add: dividend_less_div_times less_imp_le)
  then show "min (VirtAddr_from_VirtPageNum (VirtPageNum_step ?vpn)) (VirtAddr_from_usize end) = ?sva"
    unfolding eva by (rule min_absorb2)
  have "unat start < 2 ^ 39" unfolding start by simp
  then show "start < end" unfolding word_less_nat_alt using e(1) by (rule less_le_trans)
  show "usize_from_VirtAddr ?sva = start"
    using start e(2) by (simp only: word_unat_eq_iff unat_usize_from_VirtAddr_from_usize) simp
qed

lemma page_slice_from:
  assumes "n < 4096"
  obtains s where "(if k = (0 :: usize) then slice (PhysPageNum_get_bytes_array p) n (length (PhysPageNum_get_bytes_array p))
      else slice (PhysPageNum_get_bytes_array p) n n) = Ok s"
  using assms that by (cases "k = 0") (auto simp: slice_def PhysPageNum_get_bytes_array_def)

lemma translated_byte_buffer_endless:
  assumes e: "2 ^ 39 \<le> unat end" "unat end mod 2 ^ 39 < 2 ^ 38"
    and start: "unat start = unat end mod 2 ^ 39"
    and pte: "find_pte pt (VirtAddr_floor (VirtAddr_from_usize start)) m = Some pte"
  shows "translated_byte_buffer_loop pt m end start v = None"
proof -
  have False if "translated_byte_buffer_loop pt m end start v = Some r" for r
    using that pte e start
  proof (induction rule: translated_byte_buffer_loop.raw_induct [rotated 1, consumes 1, case_names step])
    case (step f pt m e start v r)
    note round = wrapped_round [OF step(4-6)]
    have off: "unat (VirtAddr_page_offset (VirtAddr_from_usize start)) < 4096"
      by (simp only: unat_VirtAddr_page_offset mod_less_divisor zero_less_numeral)
    obtain s where s: "(if VirtAddr_page_offset (VirtAddr_from_usize start) = 0
      then slice (PhysPageNum_get_bytes_array (PageTableEntry_ppn (load_pte m pte)))
        (unat (VirtAddr_page_offset (VirtAddr_from_usize start)))
        (length (PhysPageNum_get_bytes_array (PageTableEntry_ppn (load_pte m pte))))
      else slice (PhysPageNum_get_bytes_array (PageTableEntry_ppn (load_pte m pte)))
        (unat (VirtAddr_page_offset (VirtAddr_from_usize start)))
        (unat (VirtAddr_page_offset (VirtAddr_from_usize start)))) = Ok s"
      by (rule page_slice_from [OF off, of "VirtAddr_page_offset (VirtAddr_from_usize start)"
            "PageTableEntry_ppn (load_pte m pte)"])
    have "f pt m e start (v @ [s]) = Some r"
      using step(2) by (simp only: step(3) round s Let_def if_True option.case outcome.case)
    from step(1) [OF this step(3-6)] show False .
  qed
  then show ?thesis by (cases "translated_byte_buffer_loop pt m end start v") auto
qed

end
