(* ===== verification/Task.thy ===== *)
theory Task
  imports Signal User_Buffer
begin

text \<open>
  Processes and their scheduling: the task manager (\<^verbatim>\<open>src/src/os/src/task/manager.rs\<close>), the processor
  (\<^verbatim>\<open>processor.rs\<close>), the operations on task control blocks (\<^verbatim>\<open>task.rs\<close>) and on the current task
  (\<^verbatim>\<open>mod.rs\<close>). Reference-counted task control blocks live in a heap of the kernel state and are named
  by numbers; the cell around the mutable part of each is tracked in \<open>borrowed\<close>, so that a second
  borrow panics as in the source. The other cells of the kernel are released before they are
  borrowed again. A context switch saves the registers given as an argument; it ends the operation,
  and the idle loop \<^verbatim>\<open>run_tasks\<close> goes on with its next turn.
\<close>

section \<open>The kernel state\<close>

text \<open>What the linker and the libraries provide: addresses of code, the initial status register, the ELF parser.\<close>

record kernel_env =
  env_trap_return :: usize
  env_trap_handler :: usize
  env_trampoline :: usize
  env_status :: usize
  env_parse :: "u8 list \<Rightarrow> ElfFile option"

record kernel =
  k_mm :: mm_state
  KERNEL_SPACE :: MemorySet
  PID_ALLOCATOR :: PidAllocator
  tcbs :: "nat \<Rightarrow> TaskControlBlock option"
  next_tcb :: nat
  borrowed :: "nat set"
  ready_queue :: "nat list"
  PID_TO_TASK :: "(usize \<times> nat) list"
  current :: "nat option"
  INITPROC :: nat

definition inner_exclusive_access :: "nat \<Rightarrow> kernel \<Rightarrow> (TaskControlBlockInner \<times> kernel) outcome" where
  "inner_exclusive_access t k =
     and_then (unwrap (tcbs k t)) (\<lambda>tcb.
     if t \<in> borrowed k then Panic AlreadyBorrowed else Ok (inner tcb, k\<lparr>borrowed := insert t (borrowed k)\<rparr>))"

definition put_inner :: "nat \<Rightarrow> TaskControlBlockInner \<Rightarrow> kernel \<Rightarrow> kernel" where
  "put_inner t i k = k\<lparr>tcbs := (tcbs k)(t := map_option (\<lambda>tcb. tcb\<lparr>inner := i\<rparr>) (tcbs k t))\<rparr>"

text \<open>The end of a borrow writes the inner part back.\<close>

definition release :: "nat \<Rightarrow> TaskControlBlockInner \<Rightarrow> kernel \<Rightarrow> kernel" where
  "release t i k = put_inner t i (k\<lparr>borrowed := borrowed k - {t}\<rparr>)"

definition with_inner ::
    "nat \<Rightarrow> (TaskControlBlockInner \<Rightarrow> kernel \<Rightarrow> ('r \<times> TaskControlBlockInner \<times> kernel) outcome) \<Rightarrow> kernel \<Rightarrow> ('r \<times> kernel) outcome" where
  "with_inner t f k =
     and_then (inner_exclusive_access t k) (\<lambda>(i, k).
     and_then (f i k) (\<lambda>(r, i, k). Ok (r, release t i k)))"

section \<open>Task manager\<close>

definition add_task :: "nat \<Rightarrow> kernel \<Rightarrow> kernel outcome" where
  "add_task t k =
     and_then (unwrap (tcbs k t)) (\<lambda>tcb.
     Ok (k\<lparr>PID_TO_TASK := bt_insert (getpid tcb) t (PID_TO_TASK k), ready_queue := ready_queue k @ [t]\<rparr>))"

definition fetch_task :: "kernel \<Rightarrow> nat option \<times> kernel" where
  "fetch_task k = (case ready_queue k of [] \<Rightarrow> (None, k) | t # q \<Rightarrow> (Some t, k\<lparr>ready_queue := q\<rparr>))"

definition get_task_by_pid :: "usize \<Rightarrow> kernel \<Rightarrow> nat option" where
  "get_task_by_pid p k = map_of (PID_TO_TASK k) p"

definition remove_from_pid_to_task :: "usize \<Rightarrow> kernel \<Rightarrow> kernel outcome" where
  "remove_from_pid_to_task p k =
     (case map_of (PID_TO_TASK k) p of
        None \<Rightarrow> Panic ExplicitPanic
      | Some _ \<Rightarrow> Ok (k\<lparr>PID_TO_TASK := bt_remove p (PID_TO_TASK k)\<rparr>))"

section \<open>Processor\<close>

definition take_current_task :: "kernel \<Rightarrow> nat option \<times> kernel" where
  "take_current_task k = (current k, k\<lparr>current := None\<rparr>)"

definition current_task :: "kernel \<Rightarrow> nat option" where
  "current_task k = current k"

definition current_user_token :: "kernel \<Rightarrow> usize outcome" where
  "current_user_token k =
     and_then (unwrap (current_task k)) (\<lambda>t.
     and_then (inner_exclusive_access t k) (\<lambda>(i, _). Ok (get_user_token i)))"

definition current_trap_cx :: "kernel \<Rightarrow> PhysPageNum outcome" where
  "current_trap_cx k =
     and_then (unwrap (current_task k)) (\<lambda>t.
     and_then (inner_exclusive_access t k) (\<lambda>(i, _). Ok (trap_cx_ppn i)))"

text \<open>One turn of the idle loop; the result is the context that \<^verbatim>\<open>__switch\<close> continues with.\<close>

definition run_tasks_turn :: "kernel \<Rightarrow> (TaskContext option \<times> kernel) outcome" where
  "run_tasks_turn k =
     (case fetch_task k of
        (None, k) \<Rightarrow> Ok (None, k)
      | (Some next_task, k) \<Rightarrow>
          and_then (with_inner next_task (\<lambda>i k. Ok (task_cx i, i\<lparr>task_status := Running\<rparr>, k)) k) (\<lambda>(cx, k).
          Ok (Some cx, k\<lparr>current := Some next_task\<rparr>)))"

text \<open>
  \<^verbatim>\<open>__switch\<close> stores the registers where the pointer points to: into the context of a task, or into
  a variable of a stack that is never used again.
\<close>

definition schedule :: "nat option \<Rightarrow> TaskContext \<Rightarrow> kernel \<Rightarrow> kernel" where
  "schedule task_cx_of cx k =
     (case task_cx_of of
        None \<Rightarrow> k
      | Some t \<Rightarrow> k\<lparr>tcbs := (tcbs k)(t := map_option (\<lambda>tcb. tcb\<lparr>inner := (inner tcb)\<lparr>task_cx := cx\<rparr>\<rparr>) (tcbs k t))\<rparr>)"

section \<open>The current task\<close>

definition suspend_current_and_run_next :: "TaskContext \<Rightarrow> kernel \<Rightarrow> kernel outcome" where
  "suspend_current_and_run_next cx k =
     (case take_current_task k of (taken, k) \<Rightarrow>
        and_then (unwrap taken) (\<lambda>t.
        and_then (with_inner t (\<lambda>i k. Ok ((), i\<lparr>task_status := Ready\<rparr>, k)) k) (\<lambda>(_, k).
        and_then (add_task t k) (\<lambda>k.
        Ok (schedule (Some t) cx k)))))"

text \<open>The children of an exiting task become children of \<^verbatim>\<open>INITPROC\<close>, whose inner part is borrowed.\<close>

fun reparent :: "nat list \<Rightarrow> TaskControlBlockInner \<Rightarrow> kernel \<Rightarrow> (TaskControlBlockInner \<times> kernel) outcome" where
  "reparent [] initproc_inner k = Ok (initproc_inner, k)"
| "reparent (child # cs) initproc_inner k =
     and_then (with_inner child (\<lambda>i k. Ok ((), i\<lparr>parent := Some (INITPROC k)\<rparr>, k)) k) (\<lambda>(_, k).
     reparent cs (initproc_inner\<lparr>children := children initproc_inner @ [child]\<rparr>) k)"

definition exit_current_and_run_next :: "i32 \<Rightarrow> kernel \<Rightarrow> kernel outcome" where
  "exit_current_and_run_next code k =
     (case take_current_task k of (taken, k) \<Rightarrow>
        and_then (unwrap taken) (\<lambda>t.
        and_then (with_inner t (\<lambda>i k.
          let i = i\<lparr>task_status := Zombie, exit_code := code\<rparr>
          in and_then (with_inner (INITPROC k) (\<lambda>initproc_inner k.
               and_then (reparent (children i) initproc_inner k) (\<lambda>(initproc_inner, k).
               and_then (release_areas (memory_set i) (k_mm k)) (\<lambda>(ms, s).
               and_then (unwrap (tcbs k t)) (\<lambda>tcb.
               and_then (remove_from_pid_to_task (getpid tcb) (k\<lparr>k_mm := s\<rparr>)) (\<lambda>k.
               Ok (i\<lparr>children := [], memory_set := ms\<rparr>, initproc_inner, k)))))) k) (\<lambda>(i, k).
             Ok ((), i, k))) k) (\<lambda>(_, k).
        Ok (schedule None zero_init k))))"

definition current_add_signal :: "SignalFlags \<Rightarrow> kernel \<Rightarrow> kernel outcome" where
  "current_add_signal flag k =
     and_then (unwrap (current_task k)) (\<lambda>t.
     and_then (with_inner t (\<lambda>i k. Ok ((), i\<lparr>signals := signals i OR flag\<rparr>, k)) k) (\<lambda>(_, k). Ok k))"

definition check_signals_error_of_current :: "kernel \<Rightarrow> (i32 \<times> string) option outcome" where
  "check_signals_error_of_current k =
     and_then (unwrap (current_task k)) (\<lambda>t.
     and_then (inner_exclusive_access t k) (\<lambda>(i, _). Ok (check_error (signals i))))"

section \<open>Creating, copying and replacing processes\<close>

text \<open>\<^verbatim>\<open>Arc::new\<close>\<close>

definition new_tcb :: "TaskControlBlock \<Rightarrow> kernel \<Rightarrow> nat \<times> kernel" where
  "new_tcb tcb k = (next_tcb k, k\<lparr>tcbs := (tcbs k)(next_tcb k \<mapsto> tcb), next_tcb := Suc (next_tcb k)\<rparr>)"

definition pid_alloc :: "kernel \<Rightarrow> PidHandle \<times> kernel" where
  "pid_alloc k = (case PidAllocator_alloc (PID_ALLOCATOR k) of (h, a) \<Rightarrow> (h, k\<lparr>PID_ALLOCATOR := a\<rparr>))"

definition new_kernel_stack :: "PidHandle \<Rightarrow> kernel \<Rightarrow> (KernelStack \<times> kernel) outcome" where
  "new_kernel_stack h k =
     and_then (KernelStack_new h (KERNEL_SPACE k) (k_mm k)) (\<lambda>(ks, ms, s). Ok (ks, k\<lparr>KERNEL_SPACE := ms, k_mm := s\<rparr>))"

definition trap_cx_frame :: "MemorySet \<Rightarrow> memory \<Rightarrow> PhysPageNum outcome" where
  "trap_cx_frame ms m =
     and_then (VirtPageNum_from_VirtAddr (VirtAddr_from_usize TRAP_CONTEXT)) (\<lambda>vpn.
     and_then (unwrap (MemorySet_translate ms vpn m)) (\<lambda>pte. Ok (PageTableEntry_ppn pte)))"

definition set_mem :: "memory \<Rightarrow> kernel \<Rightarrow> kernel" where
  "set_mem m k = k\<lparr>k_mm := (k_mm k)\<lparr>mem := m\<rparr>\<rparr>"

definition TaskControlBlock_new :: "kernel_env \<Rightarrow> u8 list \<Rightarrow> kernel \<Rightarrow> (nat \<times> kernel) outcome" where
  "TaskControlBlock_new env elf_data k =
     and_then (from_elf (env_parse env) (env_trampoline env) elf_data (k_mm k)) (\<lambda>((ms, user_sp, entry), s).
     and_then (trap_cx_frame ms (mem s)) (\<lambda>ppn.
     case pid_alloc (k\<lparr>k_mm := s\<rparr>) of (h, k) \<Rightarrow>
     and_then (new_kernel_stack h k) (\<lambda>(ks, k).
     let top = KernelStack_get_top ks;
         tcb = \<lparr>pid = h, kernel_stack = ks,
                inner = \<lparr>trap_cx_ppn = ppn, base_size = user_sp, task_status = Ready,
                  task_cx = goto_trap_return (env_trap_return env) top, memory_set = ms, parent = None, children = [],
                  exit_code = 0, fd_table = [Some StdinFile, Some StdoutFile, Some StdoutFile],
                  signals = 0, signal_mask = 0, handling_sig = - 1, signal_actions = SignalActions_default,
                  killed = False, frozen = False, trap_ctx_backup = None\<rparr>\<rparr>;
         cx = app_init_context (env_status env) entry user_sp (MemorySet_token (KERNEL_SPACE k)) top (env_trap_handler env)
     in Ok (new_tcb tcb (set_mem (store_trap_cx (mem (k_mm k)) ppn cx) k)))))"

definition fork :: "kernel_env \<Rightarrow> nat \<Rightarrow> kernel \<Rightarrow> (nat \<times> kernel) outcome" where
  "fork env self k =
     with_inner self (\<lambda>parent_inner k.
       case pid_alloc k of (h, k) \<Rightarrow>
       and_then (new_kernel_stack h k) (\<lambda>(ks, k).
       let top = KernelStack_get_top ks
       in and_then (from_existed_user (env_trampoline env) (memory_set parent_inner) (k_mm k)) (\<lambda>(ms, s).
          and_then (trap_cx_frame ms (mem s)) (\<lambda>ppn.
          let new_fd_table = map (\<lambda>fd. case fd of Some file \<Rightarrow> Some file | None \<Rightarrow> None) (fd_table parent_inner);
              tcb = \<lparr>pid = h, kernel_stack = ks,
                inner = \<lparr>trap_cx_ppn = ppn, base_size = base_size parent_inner, task_status = Ready,
                  task_cx = goto_trap_return (env_trap_return env) top, memory_set = ms, parent = Some self, children = [],
                  exit_code = 0, fd_table = new_fd_table,
                  signals = 0, signal_mask = signal_mask parent_inner, handling_sig = - 1, signal_actions = signal_actions parent_inner,
                  killed = False, frozen = False, trap_ctx_backup = None\<rparr>\<rparr>
          in case new_tcb tcb (k\<lparr>k_mm := s\<rparr>) of (t, k) \<Rightarrow>
             let parent_inner = parent_inner\<lparr>children := children parent_inner @ [t]\<rparr>
             in and_then (inner_exclusive_access t k) (\<lambda>(i, _).
                let trap_cx = load_trap_cx (mem (k_mm k)) (trap_cx_ppn i)
                in Ok (t, parent_inner, set_mem (store_trap_cx (mem (k_mm k)) (trap_cx_ppn i) (trap_cx\<lparr>kernel_sp := top\<rparr>)) k)))))) k"

text \<open>\<^verbatim>\<open>(0..=args.len()).map(|arg| translated_ref_mut(..)).collect()\<close>\<close>

fun argv_refs :: "usize \<Rightarrow> usize \<Rightarrow> nat \<Rightarrow> nat \<Rightarrow> memory \<Rightarrow> nat list outcome" where
  "argv_refs token argv_base arg 0 m = Ok []"
| "argv_refs token argv_base arg (Suc n) m =
     and_then (translated_ref_mut token (argv_base + of_nat arg * 8) m) (\<lambda>a.
     and_then (argv_refs token argv_base (Suc arg) n m) (\<lambda>as. Ok (a # as)))"

text \<open>The bytes of one argument and its final zero.\<close>

fun push_bytes :: "usize \<Rightarrow> usize \<Rightarrow> u8 list \<Rightarrow> memory \<Rightarrow> memory outcome" where
  "push_bytes token p [] m = and_then (translated_ref_mut token p m) (\<lambda>a. Ok (m(a := 0)))"
| "push_bytes token p (c # cs) m = and_then (translated_ref_mut token p m) (\<lambda>a. push_bytes token (p + 1) cs (m(a := c)))"

fun push_args :: "usize \<Rightarrow> nat list \<Rightarrow> u8 list list \<Rightarrow> usize \<Rightarrow> memory \<Rightarrow> (usize \<times> memory) outcome" where
  "push_args token argv [] user_sp m = Ok (user_sp, m)"
| "push_args token argv (arg # args) user_sp m =
     (let user_sp = user_sp - of_nat (length arg + 1)
      in and_then (index argv 0) (\<lambda>a.
         and_then (push_bytes token user_sp arg (store_u64 m a user_sp)) (\<lambda>m.
         push_args token (tl argv) args user_sp m)))"

text \<open>The arguments of a new program at the top of its stack; the result is \<^verbatim>\<open>argv_base\<close> and the stack pointer.\<close>

definition exec_stack :: "usize \<Rightarrow> u8 list list \<Rightarrow> usize \<Rightarrow> memory \<Rightarrow> ((usize \<times> usize) \<times> memory) outcome" where
  "exec_stack token args user_sp m =
     (let argv_base = user_sp - of_nat ((length args + 1) * 8)
      in and_then (argv_refs token argv_base 0 (length args + 1) m) (\<lambda>argv.
         and_then (index argv (length args)) (\<lambda>last.
         and_then (push_args token argv args argv_base (store_u64 m last 0)) (\<lambda>(user_sp, m).
         Ok ((argv_base, user_sp - user_sp mod 8), m)))))"

text \<open>The end of \<^verbatim>\<open>exec\<close>: the address space is replaced (the old one is dropped) and the context set up.\<close>

definition exec_inner ::
    "kernel_env \<Rightarrow> nat \<Rightarrow> MemorySet \<Rightarrow> PhysPageNum \<Rightarrow> usize \<Rightarrow> usize \<Rightarrow> nat \<Rightarrow> usize
      \<Rightarrow> TaskControlBlockInner \<Rightarrow> kernel \<Rightarrow> (unit \<times> TaskControlBlockInner \<times> kernel) outcome" where
  "exec_inner env self ms ppn entry user_sp argc argv_base i k =
     and_then (MemorySet_drop (memory_set i) (k_mm k)) (\<lambda>s.
     let k = k\<lparr>k_mm := s\<rparr>; i = i\<lparr>memory_set := ms, trap_cx_ppn := ppn\<rparr>
     in and_then (unwrap (tcbs k self)) (\<lambda>tcb.
        let cx = app_init_context (env_status env) entry user_sp (MemorySet_token (KERNEL_SPACE k))
                   (KernelStack_get_top (kernel_stack tcb)) (env_trap_handler env);
            cx = cx\<lparr>regs := (regs cx)[10 := of_nat argc, 11 := argv_base]\<rparr>
        in Ok ((), i, set_mem (store_trap_cx (mem (k_mm k)) ppn cx) k)))"

definition exec :: "kernel_env \<Rightarrow> nat \<Rightarrow> u8 list \<Rightarrow> u8 list list \<Rightarrow> kernel \<Rightarrow> kernel outcome" where
  "exec env self elf_data args k =
     and_then (from_elf (env_parse env) (env_trampoline env) elf_data (k_mm k)) (\<lambda>((ms, user_sp, entry), s).
     and_then (trap_cx_frame ms (mem s)) (\<lambda>ppn.
     and_then (exec_stack (MemorySet_token ms) args user_sp (mem s)) (\<lambda>((argv_base, user_sp), m).
     and_then (with_inner self (exec_inner env self ms ppn entry user_sp (length args) argv_base) (k\<lparr>k_mm := s\<lparr>mem := m\<rparr>\<rparr>)) (\<lambda>(_, k).
     Ok k))))"

text \<open>
  The last reference to a task control block goes away: its fields are dropped in order. The children
  of a task that has exited were moved to \<^verbatim>\<open>INITPROC\<close>.
\<close>

definition drop_tcb :: "nat \<Rightarrow> kernel \<Rightarrow> kernel outcome" where
  "drop_tcb t k =
     and_then (unwrap (tcbs k t)) (\<lambda>tcb.
     and_then (PidHandle_drop (pid tcb) (PID_ALLOCATOR k)) (\<lambda>a.
     and_then (KernelStack_drop (kernel_stack tcb) (KERNEL_SPACE k) (k_mm k)) (\<lambda>(ks, s).
     and_then (MemorySet_drop (memory_set (inner tcb)) s) (\<lambda>s.
     Ok (k\<lparr>PID_ALLOCATOR := a, KERNEL_SPACE := ks, k_mm := s, tcbs := (tcbs k)(t := None)\<rparr>)))))"

text \<open>
  The strong references to a task in the kernel's data (\<^verbatim>\<open>INITPROC\<close> is held by a static). A task that
  sleeps inside a system call also has a reference to itself on its kernel stack; the count is only taken of
  zombies, which have left their last call.
\<close>

definition strong_refs :: "nat \<Rightarrow> kernel \<Rightarrow> nat" where
  "strong_refs t k =
     count_list (ready_queue k) t + (if current k = Some t then 1 else 0) + (if INITPROC k = t then 1 else 0)
     + length (filter (\<lambda>(p, u). u = t) (PID_TO_TASK k))
     + (\<Sum>j \<leftarrow> [0..<next_tcb k]. case tcbs k j of None \<Rightarrow> 0 | Some tcb \<Rightarrow> count_list (children (inner tcb)) t)"

end
