(* ===== verification/Process_Calls.thy ===== *)
theory Process_Calls
  imports Task
begin

text \<open>
  The system calls on processes and signals, \<^verbatim>\<open>src/src/os/src/syscall/process.rs\<close>, except \<^verbatim>\<open>exec\<close>, which
  needs the file system, and the clock. Pointers of the user are translated with the page table of
  the current task; a missing page is a panic of the kernel, as in the source.
\<close>

unbundle bit_operations_syntax

definition ANY_PROCESS :: isize where "ANY_PROCESS = - 1"
definition NO_CHILDREN_RUNNING :: isize where "NO_CHILDREN_RUNNING = - 1"
definition CHILDREN_RUNNING :: isize where "CHILDREN_RUNNING = - 2"

text \<open>\<^verbatim>\<open>sys_exit\<close> does not return: the switch in \<^verbatim>\<open>exit_current_and_run_next\<close> is never undone.\<close>

definition sys_exit :: "i32 \<Rightarrow> kernel \<Rightarrow> kernel outcome" where
  "sys_exit code k = exit_current_and_run_next code k"

definition sys_yield :: "TaskContext \<Rightarrow> kernel \<Rightarrow> (isize \<times> kernel) outcome" where
  "sys_yield cx k = and_then (suspend_current_and_run_next cx k) (\<lambda>k. Ok (0, k))"

definition sys_getpid :: "kernel \<Rightarrow> isize outcome" where
  "sys_getpid k =
     and_then (unwrap (current_task k)) (\<lambda>t. and_then (unwrap (tcbs k t)) (\<lambda>tcb. Ok (getpid tcb)))"

definition sys_fork :: "kernel_env \<Rightarrow> kernel \<Rightarrow> (isize \<times> kernel) outcome" where
  "sys_fork env k =
     and_then (unwrap (current_task k)) (\<lambda>parent_tcb.
     and_then (fork env parent_tcb k) (\<lambda>(child_tcb, k).
     and_then (unwrap (tcbs k child_tcb)) (\<lambda>tcb.
     and_then (inner_exclusive_access child_tcb k) (\<lambda>(i, _).
     let cx = get_trap_cx i (mem (k_mm k));
         k = set_mem (store_trap_cx (mem (k_mm k)) (trap_cx_ppn i) (cx\<lparr>regs := (regs cx)[10 := 0]\<rparr>)) k
     in and_then (add_task child_tcb k) (\<lambda>k. Ok (getpid tcb, k))))))"

text \<open>
  \<^verbatim>\<open>children.iter().enumerate().find(..)\<close>: the first child that satisfies the test, which borrows the
  child, with its position.
\<close>

fun find_zombie :: "isize \<Rightarrow> nat list \<Rightarrow> kernel \<Rightarrow> nat option outcome" where
  "find_zombie p [] k = Ok None"
| "find_zombie p (child # cs) k =
     and_then (inner_exclusive_access child k) (\<lambda>(i, _).
     and_then (unwrap (tcbs k child)) (\<lambda>tcb.
     if is_zombie i \<and> (p = ANY_PROCESS \<or> p = getpid tcb) then Ok (Some 0)
     else and_then (find_zombie p cs k) (\<lambda>r. Ok (map_option Suc r))))"

definition is_child :: "isize \<Rightarrow> nat list \<Rightarrow> kernel \<Rightarrow> bool" where
  "is_child p cs k = list_ex (\<lambda>child. p = ANY_PROCESS \<or> (case tcbs k child of Some tcb \<Rightarrow> p = getpid tcb | None \<Rightarrow> False)) cs"

definition sys_waitpid :: "isize \<Rightarrow> usize \<Rightarrow> kernel \<Rightarrow> (isize \<times> kernel) outcome" where
  "sys_waitpid p exit_code_ptr k =
     and_then (unwrap (current_task k)) (\<lambda>t.
     with_inner t (\<lambda>i k.
       if \<not> is_child p (children i) k then Ok (NO_CHILDREN_RUNNING, i, k)
       else
         and_then (find_zombie p (children i) k) (\<lambda>pair.
         case pair of
           None \<Rightarrow> Ok (CHILDREN_RUNNING, i, k)
         | Some idx \<Rightarrow>
             let child = children i ! idx;
                 i = i\<lparr>children := take idx (children i) @ drop (Suc idx) (children i)\<rparr>
             in and_then (assert_that (strong_refs child (put_inner t i k) + 1 = 1)) (\<lambda>_.
                and_then (unwrap (tcbs k child)) (\<lambda>tcb.
                and_then (inner_exclusive_access child k) (\<lambda>(ci, _).
                and_then (translated_ref_mut (get_user_token i) exit_code_ptr (mem (k_mm k))) (\<lambda>a.
                let k = set_mem (store_bytes (mem (k_mm k)) a (nat_le 4 (unat (exit_code ci)))) k
                in and_then (drop_tcb child k) (\<lambda>k. Ok (getpid tcb, i, k)))))))) k)"

text \<open>\<^verbatim>\<open>#[repr(C)] SignalAction\<close>: the handler and the mask, then padding.\<close>

definition load_action :: "memory \<Rightarrow> nat \<Rightarrow> SignalAction" where
  "load_action m a = \<lparr>handler = load_u64 m a, act_mask = of_nat (le_nat (load_bytes m (a + 8) 4))\<rparr>"

definition store_action :: "memory \<Rightarrow> nat \<Rightarrow> SignalAction \<Rightarrow> memory" where
  "store_action m a act = store_bytes (store_u64 m a (handler act)) (a + 8) (nat_le 4 (unat (act_mask act)))"

text \<open>What happens while the inner part of the current task is borrowed.\<close>

definition sigaction_inner ::
    "usize \<Rightarrow> i32 \<Rightarrow> usize \<Rightarrow> usize \<Rightarrow> TaskControlBlockInner \<Rightarrow> kernel \<Rightarrow> (isize \<times> TaskControlBlockInner \<times> kernel) outcome" where
  "sigaction_inner token signum action old_action i k =
     (let s = unat (scast signum :: usize)
      in if s > MAX_SIG then Ok (- 1, i, k)
         else case SignalFlags_from_bits (signal_flag s) of
           None \<Rightarrow> Ok (- 1, i, k)
         | Some flag \<Rightarrow>
             if action = 0 \<or> old_action = 0 \<or> flag = SIGKILL \<or> flag = SIGSTOP then Ok (- 1, i, k)
             else
               and_then (index (table (signal_actions i)) s) (\<lambda>old.
               and_then (translated_ref_mut token old_action (mem (k_mm k))) (\<lambda>a.
               let k = set_mem (store_action (mem (k_mm k)) a old) k
               in and_then (translated_ref token action (mem (k_mm k))) (\<lambda>b.
                  let i = i\<lparr>signal_actions := \<lparr>table = (table (signal_actions i))[s := load_action (mem (k_mm k)) b]\<rparr>\<rparr>
                  in Ok (0, i, k)))))"

definition sys_sigaction :: "i32 \<Rightarrow> usize \<Rightarrow> usize \<Rightarrow> kernel \<Rightarrow> (isize \<times> kernel) outcome" where
  "sys_sigaction signum action old_action k =
     and_then (current_user_token k) (\<lambda>token.
     case current_task k of
       None \<Rightarrow> Ok (- 1, k)
     | Some t \<Rightarrow> with_inner t (sigaction_inner token signum action old_action) k)"

definition sys_kill :: "usize \<Rightarrow> i32 \<Rightarrow> kernel \<Rightarrow> (isize \<times> kernel) outcome" where
  "sys_kill p signum k =
     (case get_task_by_pid p k of
        None \<Rightarrow> Ok (- 1, k)
      | Some t \<Rightarrow> with_inner t (\<lambda>i k. case kill_inner signum i of (r, i) \<Rightarrow> Ok (r, i, k)) k)"

definition sys_sigreturn :: "kernel \<Rightarrow> (isize \<times> kernel) outcome" where
  "sys_sigreturn k =
     (case current_task k of
        None \<Rightarrow> Ok (- 1, k)
      | Some t \<Rightarrow>
          with_inner t (\<lambda>i k. and_then (sigreturn_inner (i, mem (k_mm k))) (\<lambda>(i, m). Ok (0, i, set_mem m k))) k)"

definition sys_procmask :: "u32 \<Rightarrow> kernel \<Rightarrow> (isize \<times> kernel) outcome" where
  "sys_procmask new_mask k =
     (case current_task k of
        None \<Rightarrow> Ok (- 1, k)
      | Some t \<Rightarrow> with_inner t (\<lambda>i k. case procmask_inner new_mask i of (r, i) \<Rightarrow> Ok (r, i, k)) k)"

text \<open>\<^verbatim>\<open>check_pending_signals\<close> and a turn of \<^verbatim>\<open>handle_signals\<close> on the current task.\<close>

definition check_pending_current :: "kernel \<Rightarrow> kernel outcome" where
  "check_pending_current k =
     and_then (unwrap (current_task k)) (\<lambda>t.
     and_then (with_inner t (\<lambda>i k.
       and_then (check_pending_signals (i, mem (k_mm k))) (\<lambda>(i, m). Ok ((), i, set_mem m k))) k) (\<lambda>(_, k). Ok k))"

definition handle_signals_current :: "TaskContext \<Rightarrow> kernel \<Rightarrow> (wait \<times> kernel) outcome" where
  "handle_signals_current cx k =
     and_then (unwrap (current_task k)) (\<lambda>t.
     and_then (inner_exclusive_access t k) (\<lambda>(i, _).
     if \<not> frozen i \<or> killed i then Ok (LeaveLoop, k)
     else
       and_then (check_pending_current k) (\<lambda>k.
       and_then (suspend_current_and_run_next cx k) (\<lambda>k. Ok (SuspendTask, k)))))"

end
