(* ===== verification/Task_Invariant.thy ===== *)
theory Task_Invariant
  imports Process_Calls
begin

text \<open>
  The invariant of the process table: the ready queue holds exactly the ready tasks, the processor
  exactly the running one, the pid map exactly the tasks that have not exited, and the lists of
  children form a tree below \<^verbatim>\<open>INITPROC\<close> in which only tasks without children are zombies (the field
  \<^verbatim>\<open>parent\<close> is written but never read, and not constrained). It follows
  that the assertion on the reference count in \<^verbatim>\<open>sys_waitpid\<close> cannot fail, and that the scheduler
  is fair.
\<close>

section \<open>Views of the process table\<close>

definition st :: "kernel \<Rightarrow> nat \<Rightarrow> TaskStatus option" where
  "st k t = map_option (task_status \<circ> inner) (tcbs k t)"

definition pd :: "kernel \<Rightarrow> nat \<Rightarrow> usize option" where
  "pd k t = map_option getpid (tcbs k t)"

definition ch :: "kernel \<Rightarrow> nat \<Rightarrow> nat list" where
  "ch k t = (case tcbs k t of None \<Rightarrow> [] | Some tcb \<Rightarrow> children (inner tcb))"

definition queue_ok :: "kernel \<Rightarrow> bool" where
  "queue_ok k \<longleftrightarrow> distinct (ready_queue k) \<and> (\<forall>t. t \<in> set (ready_queue k) \<longleftrightarrow> st k t = Some Ready)
     \<and> (\<forall>t. current k = Some t \<longleftrightarrow> st k t = Some Running)"

definition pids_ok :: "kernel \<Rightarrow> bool" where
  "pids_ok k \<longleftrightarrow> sorted (map fst (PID_TO_TASK k)) \<and> distinct (map fst (PID_TO_TASK k))
     \<and> (\<forall>p t. map_of (PID_TO_TASK k) p = Some t \<longleftrightarrow> pd k t = Some p \<and> st k t \<noteq> Some Zombie)
     \<and> (\<forall>t u p. pd k t = Some p \<longrightarrow> pd k u = Some p \<longrightarrow> t = u)
     \<and> pid_inv (PID_ALLOCATOR k) \<and> (\<forall>p. p \<in> pid_live (PID_ALLOCATOR k) \<longleftrightarrow> (\<exists>t. pd k t = Some p))"

definition family_ok :: "kernel \<Rightarrow> bool" where
  "family_ok k \<longleftrightarrow> st k (INITPROC k) \<noteq> None \<and> st k (INITPROC k) \<noteq> Some Zombie \<and> (\<forall>t. st k t \<noteq> None \<longrightarrow> t < next_tcb k)
     \<and> (\<forall>t. distinct (ch k t)) \<and> (\<forall>t x. x \<in> set (ch k t) \<longrightarrow> st k x \<noteq> None \<and> x \<noteq> INITPROC k \<and> x \<noteq> t)
     \<and> (\<forall>t. st k t = Some Zombie \<longrightarrow> ch k t = [])
     \<and> (\<forall>t u x. x \<in> set (ch k t) \<longrightarrow> x \<in> set (ch k u) \<longrightarrow> t = u)
     \<and> (\<forall>x. st k x \<noteq> None \<longrightarrow> x \<noteq> INITPROC k \<longrightarrow> (\<exists>t. x \<in> set (ch k t)))
     \<and> (\<forall>t x. x \<in> set (ch k t) \<longrightarrow> t = INITPROC k \<or> t < x)"

definition tasks_inv :: "kernel \<Rightarrow> bool" where
  "tasks_inv k \<longleftrightarrow> borrowed k = {} \<and> queue_ok k \<and> pids_ok k \<and> family_ok k"

text \<open>
  A task is created after its parent, or has been adopted by \<^verbatim>\<open>INITPROC\<close>, so the children form a tree
  below \<^verbatim>\<open>INITPROC\<close> that holds every task.
\<close>

lemma family_tree:
  assumes "family_ok k" "st k x \<noteq> None"
  shows "(\<lambda>t c. c \<in> set (ch k t))\<^sup>*\<^sup>* (INITPROC k) x"
  using assms(2)
proof (induction x rule: less_induct)
  case (less x)
  show ?case
  proof (cases "x = INITPROC k")
    case False
    with assms(1) less.prems obtain t where t: "x \<in> set (ch k t)" "t = INITPROC k \<or> t < x" unfolding family_ok_def by metis
    then have "st k t \<noteq> None" by (cases "tcbs k t") (simp_all add: ch_def st_def)
    with t(2) less.IH have "(\<lambda>t c. c \<in> set (ch k t))\<^sup>*\<^sup>* (INITPROC k) t" by auto
    then show ?thesis using t(1) by (rule rtranclp.rtrancl_into_rtrancl)
  qed simp
qed

lemma family_acyclic:
  assumes "family_ok k" "x \<in> set (ch k t)"
  shows "\<not> (\<lambda>t c. c \<in> set (ch k t))\<^sup>*\<^sup>* x t"
proof
  assume "(\<lambda>t c. c \<in> set (ch k t))\<^sup>*\<^sup>* x t"
  moreover have x: "x \<noteq> INITPROC k" using assms unfolding family_ok_def by metis
  ultimately have "x \<le> t \<and> t \<noteq> INITPROC k"
  proof (induction rule: rtranclp_induct)
    case (step y z)
    then have "y < z" "z \<noteq> INITPROC k" using assms(1) unfolding family_ok_def by metis+
    with step show ?case by simp
  qed simp
  moreover have "t = INITPROC k \<or> t < x" using assms unfolding family_ok_def by metis
  ultimately show False by simp
qed

text \<open>The parts depend on the state only through the views.\<close>

lemma queue_ok_cong: "ready_queue k' = ready_queue k \<Longrightarrow> current k' = current k \<Longrightarrow> st k' = st k \<Longrightarrow> queue_ok k' = queue_ok k"
  by (simp add: queue_ok_def)

lemma pids_ok_cong: "PID_TO_TASK k' = PID_TO_TASK k \<Longrightarrow> PID_ALLOCATOR k' = PID_ALLOCATOR k \<Longrightarrow> st k' = st k \<Longrightarrow> pd k' = pd k \<Longrightarrow> pids_ok k' = pids_ok k"
  by (simp add: pids_ok_def)

lemma family_ok_cong: "INITPROC k' = INITPROC k \<Longrightarrow> next_tcb k' = next_tcb k \<Longrightarrow> st k' = st k \<Longrightarrow> ch k' = ch k \<Longrightarrow> family_ok k' = family_ok k"
  by (simp add: family_ok_def)

section \<open>Borrowing\<close>

lemma access_Ok: "inner_exclusive_access t k = Ok (i, k') \<longleftrightarrow>
    (\<exists>tcb. tcbs k t = Some tcb \<and> t \<notin> borrowed k \<and> i = inner tcb \<and> k' = k\<lparr>borrowed := insert t (borrowed k)\<rparr>)"
  by (cases "tcbs k t") (auto simp: inner_exclusive_access_def)

lemma with_inner_Ok: "with_inner t f k = Ok (r, k') \<longleftrightarrow>
    (\<exists>tcb i k1. tcbs k t = Some tcb \<and> t \<notin> borrowed k \<and> f (inner tcb) (k\<lparr>borrowed := insert t (borrowed k)\<rparr>) = Ok (r, i, k1)
      \<and> k' = release t i k1)"
  by (auto simp: with_inner_def access_Ok and_then_eq_Ok_conv)

text \<open>A pure change of the inner part.\<close>

lemma with_inner_pure: "tcbs k t = Some tcb \<Longrightarrow> t \<notin> borrowed k \<Longrightarrow>
    with_inner t (\<lambda>i k. Ok (g i, h i, k)) k = Ok (g (inner tcb), put_inner t (h (inner tcb)) k)"
  by (simp add: with_inner_def inner_exclusive_access_def release_def put_inner_def)

lemma put_inner_simps [simp]:
  "ready_queue (put_inner t i k) = ready_queue k" "current (put_inner t i k) = current k" "PID_TO_TASK (put_inner t i k) = PID_TO_TASK k"
  "PID_ALLOCATOR (put_inner t i k) = PID_ALLOCATOR k" "INITPROC (put_inner t i k) = INITPROC k" "next_tcb (put_inner t i k) = next_tcb k"
  "borrowed (put_inner t i k) = borrowed k" "k_mm (put_inner t i k) = k_mm k" "KERNEL_SPACE (put_inner t i k) = KERNEL_SPACE k"
  by (simp_all add: put_inner_def)

lemma views_put_inner:
  assumes "tcbs k t = Some tcb"
  shows "st (put_inner t i k) = (st k)(t := Some (task_status i))" "pd (put_inner t i k) = pd k" "ch (put_inner t i k) = (ch k)(t := children i)"
  using assms by (auto simp: st_def pd_def ch_def put_inner_def fun_eq_iff getpid_def)

lemma views_update [simp]:
  "st (k\<lparr>borrowed := b\<rparr>) = st k" "pd (k\<lparr>borrowed := b\<rparr>) = pd k" "ch (k\<lparr>borrowed := b\<rparr>) = ch k"
  "st (k\<lparr>ready_queue := q\<rparr>) = st k" "pd (k\<lparr>ready_queue := q\<rparr>) = pd k" "ch (k\<lparr>ready_queue := q\<rparr>) = ch k"
  "st (k\<lparr>PID_TO_TASK := P\<rparr>) = st k" "pd (k\<lparr>PID_TO_TASK := P\<rparr>) = pd k" "ch (k\<lparr>PID_TO_TASK := P\<rparr>) = ch k"
  "st (k\<lparr>current := c\<rparr>) = st k" "pd (k\<lparr>current := c\<rparr>) = pd k" "ch (k\<lparr>current := c\<rparr>) = ch k"
  "st (k\<lparr>k_mm := s\<rparr>) = st k" "pd (k\<lparr>k_mm := s\<rparr>) = pd k" "ch (k\<lparr>k_mm := s\<rparr>) = ch k"
  "st (k\<lparr>KERNEL_SPACE := ms\<rparr>) = st k" "pd (k\<lparr>KERNEL_SPACE := ms\<rparr>) = pd k" "ch (k\<lparr>KERNEL_SPACE := ms\<rparr>) = ch k"
  "st (k\<lparr>PID_ALLOCATOR := a\<rparr>) = st k" "pd (k\<lparr>PID_ALLOCATOR := a\<rparr>) = pd k" "ch (k\<lparr>PID_ALLOCATOR := a\<rparr>) = ch k"
  "st (set_mem m k) = st k" "pd (set_mem m k) = pd k" "ch (set_mem m k) = ch k"
  by (auto simp: st_def pd_def ch_def set_mem_def fun_eq_iff)

lemma set_mem_simps [simp]:
  "ready_queue (set_mem m k) = ready_queue k" "current (set_mem m k) = current k" "PID_TO_TASK (set_mem m k) = PID_TO_TASK k"
  "PID_ALLOCATOR (set_mem m k) = PID_ALLOCATOR k" "INITPROC (set_mem m k) = INITPROC k" "next_tcb (set_mem m k) = next_tcb k"
  "borrowed (set_mem m k) = borrowed k" "KERNEL_SPACE (set_mem m k) = KERNEL_SPACE k" "tcbs (set_mem m k) = tcbs k"
  "mem (k_mm (set_mem m k)) = m" "FRAME_ALLOCATOR (k_mm (set_mem m k)) = FRAME_ALLOCATOR (k_mm k)"
  by (simp_all add: set_mem_def)

lemma views_cong: "tcbs k' = tcbs k \<Longrightarrow> st k' = st k" "tcbs k' = tcbs k \<Longrightarrow> pd k' = pd k" "tcbs k' = tcbs k \<Longrightarrow> ch k' = ch k"
  by (simp_all add: st_def pd_def ch_def fun_eq_iff)

lemma st_Some: "st k t = Some x \<longleftrightarrow> (\<exists>tcb. tcbs k t = Some tcb \<and> task_status (inner tcb) = x)"
  by (auto simp: st_def)

lemma st_None: "st k t = None \<longleftrightarrow> tcbs k t = None"
  by (auto simp: st_def)

text \<open>A change of the current task's inner part that keeps its status and its children keeps the invariant.\<close>

lemma tasks_inv_inner:
  assumes inv: "tasks_inv k" and tcb: "tcbs k t = Some tcb" and keep: "task_status i = task_status (inner tcb)" "children i = children (inner tcb)"
  shows "tasks_inv (put_inner t i k)"
proof -
  have v: "st (put_inner t i k) = st k" "pd (put_inner t i k) = pd k" "ch (put_inner t i k) = ch k"
    using views_put_inner [OF tcb, of i] tcb keep by (auto simp: st_def ch_def fun_eq_iff)
  show ?thesis
    using inv queue_ok_cong [of "put_inner t i k" k] pids_ok_cong [of "put_inner t i k" k] family_ok_cong [of "put_inner t i k" k] v
    by (simp add: tasks_inv_def)
qed

lemma tasks_inv_mem: "tasks_inv (set_mem m k) = tasks_inv k"
  using queue_ok_cong [of "set_mem m k" k] pids_ok_cong [of "set_mem m k" k] family_ok_cong [of "set_mem m k" k]
  by (simp add: tasks_inv_def)

section \<open>Scheduling steps\<close>

lemma run_tasks_turn_inv:
  assumes inv: "tasks_inv k" and idle: "current k = None"
  shows "case ready_queue k of
      [] \<Rightarrow> run_tasks_turn k = Ok (None, k)
    | t # q \<Rightarrow> \<exists>cx k'. run_tasks_turn k = Ok (Some cx, k') \<and> tasks_inv k' \<and> current k' = Some t \<and> ready_queue k' = q"
proof (cases "ready_queue k")
  case Nil
  then show ?thesis by (simp add: run_tasks_turn_def fetch_task_def)
next
  case (Cons t q)
  from inv have q: "queue_ok k" "pids_ok k" "family_ok k" "borrowed k = {}" by (simp_all add: tasks_inv_def)
  have "t \<in> set (ready_queue k)" using Cons by simp
  with q(1) have "st k t = Some Ready" unfolding queue_ok_def by blast
  then obtain tcb where tcb: "tcbs k t = Some tcb" "task_status (inner tcb) = Ready" by (auto simp: st_Some)
  let ?i = "(inner tcb)\<lparr>task_status := Running\<rparr>"
  let ?k = "(put_inner t ?i (k\<lparr>ready_queue := q\<rparr>))\<lparr>current := Some t\<rparr>"
  have run: "run_tasks_turn k = Ok (Some (task_cx (inner tcb)), ?k)"
    using Cons tcb q(4) with_inner_pure [of "k\<lparr>ready_queue := q\<rparr>" t tcb task_cx "\<lambda>i. i\<lparr>task_status := Running\<rparr>"]
    by (simp add: run_tasks_turn_def fetch_task_def)
  have tcb': "tcbs (k\<lparr>ready_queue := q\<rparr>) t = Some tcb" using tcb by simp
  note v = views_put_inner [OF tcb', of ?i]
  have c: "ch (put_inner t ?i (k\<lparr>ready_queue := q\<rparr>)) = ch k" using v(3) tcb by (auto simp: ch_def fun_eq_iff)
  have "queue_ok ?k" using q(1) Cons idle unfolding queue_ok_def by (auto simp: v)
  moreover have "pids_ok ?k" using q(2) tcb unfolding pids_ok_def by (auto simp: v st_def)
  moreover have "family_ok ?k" using q(3) tcb unfolding family_ok_def by (auto simp: v(1,2) c st_def)
  ultimately have "tasks_inv ?k" using q(4) by (simp add: tasks_inv_def)
  with run Cons show ?thesis by simp
qed

lemma schedule_simps [simp]:
  "ready_queue (schedule o' cx k) = ready_queue k" "current (schedule o' cx k) = current k" "PID_TO_TASK (schedule o' cx k) = PID_TO_TASK k"
  "PID_ALLOCATOR (schedule o' cx k) = PID_ALLOCATOR k" "INITPROC (schedule o' cx k) = INITPROC k" "next_tcb (schedule o' cx k) = next_tcb k"
  "borrowed (schedule o' cx k) = borrowed k" "st (schedule o' cx k) = st k" "pd (schedule o' cx k) = pd k" "ch (schedule o' cx k) = ch k"
proof -
  show "st (schedule o' cx k) = st k" "pd (schedule o' cx k) = pd k" "ch (schedule o' cx k) = ch k"
    by (auto simp: schedule_def st_def pd_def ch_def getpid_def [abs_def] option.map_comp comp_def split: option.split intro!: ext)
qed (simp_all add: schedule_def split: option.splits)

lemma set_fst_bt_insert: "set (map fst (bt_insert p v xs)) = insert p (set (map fst xs))"
  by (induction p v xs rule: bt_insert.induct) auto

lemma bt_insert_sorted: "sorted (map fst xs) \<Longrightarrow> distinct (map fst xs) \<Longrightarrow>
    sorted (map fst (bt_insert p v xs)) \<and> distinct (map fst (bt_insert p v xs)) \<and> map_of (bt_insert p v xs) = (map_of xs)(p \<mapsto> v)"
proof (induction xs)
  case (Cons x xs)
  obtain k' v' where x: "x = (k', v')" by (cases x)
  have "map_of xs p = None" if "p < k'" using Cons.prems that by (fastforce simp: map_of_eq_None_iff x)
  with Cons set_fst_bt_insert [of p v xs] show ?case by (auto simp: x fun_eq_iff)
qed simp

section \<open>Giving up the processor\<close>

lemma suspend_steps:
  assumes inv: "tasks_inv k" and cur: "current k = Some t"
  obtains tcb k' where "tcbs k t = Some tcb" "suspend_current_and_run_next cx k = Ok k'" "tasks_inv k'"
    "current k' = None" "ready_queue k' = ready_queue k @ [t]" "INITPROC k' = INITPROC k" "next_tcb k' = next_tcb k"
    "pd k' = pd k" "ch k' = ch k" "st k' = (st k)(t := Some Ready)"
    "tcbs k' = (tcbs k)(t \<mapsto> tcb\<lparr>inner := (inner tcb)\<lparr>task_status := Ready, task_cx := cx\<rparr>\<rparr>)" "k_mm k' = k_mm k"
proof -
  from inv have q: "queue_ok k" "pids_ok k" "family_ok k" "borrowed k = {}" by (simp_all add: tasks_inv_def)
  have stt: "st k t = Some Running" using q(1) cur unfolding queue_ok_def by blast
  then obtain tcb where tcb: "tcbs k t = Some tcb" "task_status (inner tcb) = Running" by (auto simp: st_Some)
  let ?i = "(inner tcb)\<lparr>task_status := Ready\<rparr>"
  let ?k1 = "put_inner t ?i (k\<lparr>current := None\<rparr>)"
  let ?k2 = "?k1\<lparr>PID_TO_TASK := bt_insert (getpid tcb) t (PID_TO_TASK k), ready_queue := ready_queue k @ [t]\<rparr>"
  let ?k3 = "schedule (Some t) cx ?k2"
  have tcb': "tcbs (k\<lparr>current := None\<rparr>) t = Some tcb" using tcb by simp
  have pd: "pd k t = Some (getpid tcb)" using tcb by (simp add: pd_def)
  note v = views_put_inner [OF tcb', of ?i, simplified]
  have c: "ch ?k1 = ch k" using v(3) tcb by (auto simp: ch_def fun_eq_iff)
  have "with_inner t (\<lambda>i k. Ok ((), i\<lparr>task_status := Ready\<rparr>, k)) (k\<lparr>current := None\<rparr>) = Ok ((), ?k1)"
    using with_inner_pure [OF tcb', of "\<lambda>_. ()" "\<lambda>i. i\<lparr>task_status := Ready\<rparr>"] q(4) by simp
  then have run: "suspend_current_and_run_next cx k = Ok ?k3"
    using cur tcb by (simp add: suspend_current_and_run_next_def take_current_task_def add_task_def put_inner_def getpid_def)
  have "queue_ok ?k3" using q(1) stt cur unfolding queue_ok_def by (auto simp: v)
  moreover have "pids_ok ?k3"
  proof -
    have "map_of (PID_TO_TASK k) (getpid tcb) = Some t" using q(2) pd stt by (auto simp: pids_ok_def)
    with q(2) bt_insert_sorted [of "PID_TO_TASK k" "getpid tcb" t] stt show ?thesis
      unfolding pids_ok_def by (auto simp: v fun_upd_idem)
  qed
  moreover have "family_ok ?k3" using q(3) stt unfolding family_ok_def by (auto simp: v(1,2) c)
  ultimately have "tasks_inv ?k3" using q(4) by (simp add: tasks_inv_def)
  moreover have "tcbs ?k3 = (tcbs k)(t \<mapsto> tcb\<lparr>inner := (inner tcb)\<lparr>task_status := Ready, task_cx := cx\<rparr>\<rparr>)"
    using tcb by (simp add: schedule_def put_inner_def fun_eq_iff)
  moreover have "k_mm ?k3 = k_mm k" by (simp add: schedule_def)
  ultimately show thesis using that [of tcb ?k3] run tcb c v by simp
qed

section \<open>Exit\<close>

lemma views_put_inner_same:
  assumes "tcbs k t = Some tcb" "task_status i = task_status (inner tcb)" "children i = children (inner tcb)"
  shows "st (put_inner t i k) = st k" "pd (put_inner t i k) = pd k" "ch (put_inner t i k) = ch k"
  using views_put_inner [OF assms(1), of i] assms by (auto simp: st_def ch_def fun_eq_iff)

lemma reparent_Ok:
  assumes "\<forall>c \<in> set cs. c \<notin> borrowed k \<and> tcbs k c \<noteq> None"
  shows "\<exists>T. reparent cs ii k = Ok (ii\<lparr>children := children ii @ cs\<rparr>, k\<lparr>tcbs := T\<rparr>)
    \<and> st (k\<lparr>tcbs := T\<rparr>) = st k \<and> pd (k\<lparr>tcbs := T\<rparr>) = pd k \<and> ch (k\<lparr>tcbs := T\<rparr>) = ch k \<and> (\<forall>u. u \<notin> set cs \<longrightarrow> T u = tcbs k u)"
  using assms
proof (induction cs arbitrary: ii k)
  case Nil
  show ?case by (rule exI [of _ "tcbs k"]) simp
next
  case (Cons c cs)
  from Cons.prems obtain tcb where tcb: "tcbs k c = Some tcb" "c \<notin> borrowed k" by auto
  let ?i = "(inner tcb)\<lparr>parent := Some (INITPROC k)\<rparr>"
  let ?k = "put_inner c ?i k"
  have w: "with_inner c (\<lambda>i k. Ok ((), i\<lparr>parent := Some (INITPROC k)\<rparr>, k)) k = Ok ((), ?k)"
    using tcb by (simp add: with_inner_def inner_exclusive_access_def release_def put_inner_def)
  have v: "st ?k = st k" "pd ?k = pd k" "ch ?k = ch k" using views_put_inner_same [OF tcb(1), of ?i] by simp_all
  have "\<forall>d \<in> set cs. d \<notin> borrowed ?k \<and> tcbs ?k d \<noteq> None" using Cons.prems tcb by (auto simp: put_inner_def)
  from Cons.IH [OF this, of "ii\<lparr>children := children ii @ [c]\<rparr>"] obtain T where
    T: "reparent cs (ii\<lparr>children := children ii @ [c]\<rparr>) ?k = Ok (ii\<lparr>children := children ii @ c # cs\<rparr>, ?k\<lparr>tcbs := T\<rparr>)"
      "st (?k\<lparr>tcbs := T\<rparr>) = st ?k" "pd (?k\<lparr>tcbs := T\<rparr>) = pd ?k" "ch (?k\<lparr>tcbs := T\<rparr>) = ch ?k"
      "\<forall>u. u \<notin> set cs \<longrightarrow> T u = tcbs ?k u" by auto
  have e: "?k\<lparr>tcbs := T\<rparr> = k\<lparr>tcbs := T\<rparr>" by (simp add: put_inner_def)
  have "\<forall>u. u \<notin> set (c # cs) \<longrightarrow> T u = tcbs k u" using T(5) by (auto simp: put_inner_def)
  with w T(1-4) show ?case unfolding e v by (intro exI [of _ T]) simp
qed

text \<open>Everything but the release of the user memory is done without a panic.\<close>

lemma exit_eq:
  assumes inv: "tasks_inv k" and cur: "current k = Some t" and noinit: "t \<noteq> INITPROC k"
    and tcb: "tcbs k t = Some tcb" and itcb: "tcbs k (INITPROC k) = Some itcb"
  obtains T where
    "exit_current_and_run_next code k = and_then (release_areas (memory_set (inner tcb)) (k_mm k)) (\<lambda>(ms, s).
       Ok (put_inner t ((inner tcb)\<lparr>task_status := Zombie, exit_code := code, children := [], memory_set := ms\<rparr>)
          (put_inner (INITPROC k) ((inner itcb)\<lparr>children := children (inner itcb) @ children (inner tcb)\<rparr>)
            (k\<lparr>current := None, borrowed := {}, k_mm := s, PID_TO_TASK := bt_remove (getpid tcb) (PID_TO_TASK k), tcbs := T\<rparr>))))"
    "st (k\<lparr>tcbs := T\<rparr>) = st k" "pd (k\<lparr>tcbs := T\<rparr>) = pd k" "ch (k\<lparr>tcbs := T\<rparr>) = ch k" "T t = Some tcb" "T (INITPROC k) = Some itcb"
proof -
  let ?I = "INITPROC k"
  from inv have q: "queue_ok k" "pids_ok k" "family_ok k" "borrowed k = {}" by (simp_all add: tasks_inv_def)
  have stt: "st k t = Some Running" using q(1) cur unfolding queue_ok_def by blast
  have cs: "ch k t = children (inner tcb)" using tcb by (simp add: ch_def)
  have kids: "c \<noteq> t \<and> c \<noteq> ?I \<and> tcbs k c \<noteq> None" if "c \<in> set (children (inner tcb))" for c
    using q(3) that unfolding family_ok_def cs [symmetric] st_None [symmetric] by metis
  let ?k1 = "k\<lparr>current := None, borrowed := {?I, t}\<rparr>"
  let ?ii = "(inner itcb)\<lparr>children := children (inner itcb) @ children (inner tcb)\<rparr>"
  from reparent_Ok [of "children (inner tcb)" ?k1 "inner itcb"] kids obtain T where
    T: "reparent (children (inner tcb)) (inner itcb) ?k1 = Ok (?ii, ?k1\<lparr>tcbs := T\<rparr>)"
      "st (?k1\<lparr>tcbs := T\<rparr>) = st k" "pd (?k1\<lparr>tcbs := T\<rparr>) = pd k" "ch (?k1\<lparr>tcbs := T\<rparr>) = ch k"
      "\<forall>u. u \<notin> set (children (inner tcb)) \<longrightarrow> T u = tcbs k u" by auto
  have "t \<notin> set (children (inner tcb))" "?I \<notin> set (children (inner tcb))" using kids by blast+
  then have Tt: "T t = Some tcb" "T ?I = Some itcb" using T(5) tcb itcb by simp_all
  have pid: "map_of (PID_TO_TASK k) (getpid tcb) = Some t"
    using q(2) stt tcb by (auto simp: pids_ok_def pd_def)
  have empty: "{t, ?I} - {?I} - {t} = {}" by auto
  have "exit_current_and_run_next code k = and_then (release_areas (memory_set (inner tcb)) (k_mm k)) (\<lambda>(ms, s).
       Ok (put_inner t ((inner tcb)\<lparr>task_status := Zombie, exit_code := code, children := [], memory_set := ms\<rparr>)
          (put_inner ?I ?ii
            (k\<lparr>current := None, borrowed := {}, k_mm := s, PID_TO_TASK := bt_remove (getpid tcb) (PID_TO_TASK k), tcbs := T\<rparr>))))"
  proof (cases "release_areas (memory_set (inner tcb)) (k_mm k)")
    case (Ok r)
    obtain ms s where r: "r = (ms, s)" by (cases r)
    show ?thesis
      using Ok cur tcb q(4) itcb noinit T(1) Tt pid
      by (simp add: exit_current_and_run_next_def take_current_task_def with_inner_def inner_exclusive_access_def Let_def
          remove_from_pid_to_task_def release_def put_inner_def getpid_def insert_commute schedule_def r)
        (simp only: empty, simp)
  next
    case (Panic e)
    then show ?thesis
      using cur tcb q(4) itcb noinit T(1)
      by (simp add: exit_current_and_run_next_def take_current_task_def with_inner_def inner_exclusive_access_def Let_def insert_commute)
  qed
  then show thesis using that Tt T(2-4) views_cong [of "?k1\<lparr>tcbs := T\<rparr>" "k\<lparr>tcbs := T\<rparr>"] by simp
qed

lemma exit_init:
  assumes "tasks_inv k" "current k = Some (INITPROC k)"
  shows "exit_current_and_run_next code k = Panic AlreadyBorrowed"
proof -
  from assms obtain itcb where "tcbs k (INITPROC k) = Some itcb" "borrowed k = {}" by (auto simp: tasks_inv_def family_ok_def st_def)
  with assms(2) show ?thesis
    by (simp add: exit_current_and_run_next_def take_current_task_def with_inner_def inner_exclusive_access_def Let_def)
qed

lemma exit_steps:
  assumes inv: "tasks_inv k" and cur: "current k = Some t" and noinit: "t \<noteq> INITPROC k"
    and tcb: "tcbs k t = Some tcb" and rel: "release_areas (memory_set (inner tcb)) (k_mm k) = Ok (ms, s)"
  obtains k' where "exit_current_and_run_next code k = Ok k'" "borrowed k' = {}" "current k' = None" "ready_queue k' = ready_queue k"
    "PID_TO_TASK k' = bt_remove (getpid tcb) (PID_TO_TASK k)" "PID_ALLOCATOR k' = PID_ALLOCATOR k" "INITPROC k' = INITPROC k"
    "next_tcb k' = next_tcb k" "k_mm k' = s"
    "tcbs k' t = Some (tcb\<lparr>inner := (inner tcb)\<lparr>task_status := Zombie, exit_code := code, children := [], memory_set := ms\<rparr>\<rparr>)"
    "st k' = (st k)(t := Some Zombie)" "pd k' = pd k" "ch k' = (ch k)(INITPROC k := ch k (INITPROC k) @ ch k t, t := [])"
proof -
  let ?I = "INITPROC k"
  from inv obtain itcb where itcb: "tcbs k ?I = Some itcb" by (auto simp: tasks_inv_def family_ok_def st_def)
  have cs: "ch k t = children (inner tcb)" using tcb by (simp add: ch_def)
  obtain T where run: "exit_current_and_run_next code k = and_then (release_areas (memory_set (inner tcb)) (k_mm k)) (\<lambda>(ms, s).
       Ok (put_inner t ((inner tcb)\<lparr>task_status := Zombie, exit_code := code, children := [], memory_set := ms\<rparr>)
          (put_inner ?I ((inner itcb)\<lparr>children := children (inner itcb) @ children (inner tcb)\<rparr>)
            (k\<lparr>current := None, borrowed := {}, k_mm := s, PID_TO_TASK := bt_remove (getpid tcb) (PID_TO_TASK k), tcbs := T\<rparr>))))"
      and TV: "st (k\<lparr>tcbs := T\<rparr>) = st k" "pd (k\<lparr>tcbs := T\<rparr>) = pd k" "ch (k\<lparr>tcbs := T\<rparr>) = ch k"
      and Tt: "T t = Some tcb" "T ?I = Some itcb"
    by (rule exit_eq [OF inv cur noinit tcb itcb])
  let ?ii = "(inner itcb)\<lparr>children := children (inner itcb) @ children (inner tcb)\<rparr>"
  let ?i = "(inner tcb)\<lparr>task_status := Zombie, exit_code := code, children := [], memory_set := ms\<rparr>"
  let ?k2 = "k\<lparr>current := None, borrowed := {}, k_mm := s, PID_TO_TASK := bt_remove (getpid tcb) (PID_TO_TASK k), tcbs := T\<rparr>"
  let ?k3 = "put_inner t ?i (put_inner ?I ?ii ?k2)"
  have run': "exit_current_and_run_next code k = Ok ?k3" using run rel by simp
  have V: "st ?k2 = st k" "pd ?k2 = pd k" "ch ?k2 = ch k"
    using TV views_cong [of ?k2 "k\<lparr>tcbs := T\<rparr>"] by simp_all
  have t2: "tcbs ?k2 ?I = Some itcb" "tcbs (put_inner ?I ?ii ?k2) t = Some tcb" using Tt noinit by (simp_all add: put_inner_def)
  have isame: "st k ?I = Some (task_status (inner itcb))" "ch k ?I = children (inner itcb)" using itcb by (simp_all add: st_def ch_def)
  note v1 = views_put_inner [OF t2(1), of ?ii, unfolded V] and v2 = views_put_inner [OF t2(2), of ?i]
  have "st ?k3 = (st k)(t := Some Zombie)" unfolding v2 v1 using isame by (auto simp: fun_eq_iff)
  moreover have "pd ?k3 = pd k" unfolding v2 v1 by simp
  moreover have "ch ?k3 = (ch k)(?I := ch k ?I @ ch k t, t := [])" unfolding v2 v1 using isame cs by (auto simp: fun_eq_iff)
  moreover have "tcbs ?k3 t = Some (tcb\<lparr>inner := ?i\<rparr>)" using Tt noinit by (simp add: put_inner_def)
  ultimately show thesis using that [of ?k3] run' by simp
qed

lemma family_ok_exit:
  assumes "family_ok k" "st k t = Some Running" "t \<noteq> INITPROC k" "INITPROC k' = INITPROC k" "next_tcb k' = next_tcb k"
    and v: "st k' = (st k)(t := Some Zombie)" "ch k' = (ch k)(INITPROC k := ch k (INITPROC k) @ ch k t, t := [])"
  shows "family_ok k'"
proof -
  let ?I = "INITPROC k"
  from assms(1) have o: "st k ?I \<noteq> None" "\<And>u. st k u \<noteq> None \<Longrightarrow> u < next_tcb k" "\<And>u. distinct (ch k u)"
    "\<And>u x. x \<in> set (ch k u) \<Longrightarrow> st k x \<noteq> None \<and> x \<noteq> ?I \<and> x \<noteq> u" "\<And>u. st k u = Some Zombie \<Longrightarrow> ch k u = []"
    "\<And>u w x. x \<in> set (ch k u) \<Longrightarrow> x \<in> set (ch k w) \<Longrightarrow> u = w"
    "\<And>x. st k x \<noteq> None \<Longrightarrow> x \<noteq> ?I \<Longrightarrow> \<exists>u. x \<in> set (ch k u)" "st k ?I \<noteq> Some Zombie" "\<And>u x. x \<in> set (ch k u) \<Longrightarrow> u = ?I \<or> u < x"
    unfolding family_ok_def by blast+
  have in': "x \<in> set (ch k' u) \<longleftrightarrow> u \<noteq> t \<and> (x \<in> set (ch k u) \<or> (u = ?I \<and> x \<in> set (ch k t)))" for x u
    using assms(3) by (auto simp: v)
  have st': "st k' x = None \<longleftrightarrow> st k x = None" for x using assms(2) by (auto simp: v)
  have d: "distinct (ch k' u)" for u using o(3) o(6) [of _ t ?I] assms(3) by (auto simp: v)
  show ?thesis unfolding family_ok_def assms(4,5)
  proof (intro conjI allI impI)
    show "st k' ?I \<noteq> None" "st k' ?I \<noteq> Some Zombie" using o(1,8) assms(3) v by simp_all
    show "u < next_tcb k" if "st k' u \<noteq> None" for u using o(2) st' that by simp
    show "distinct (ch k' u)" for u by (rule d)
    show "st k' x \<noteq> None" "x \<noteq> ?I" if "x \<in> set (ch k' u)" for u x using that in' [of x u] o(4) [of x] st' [of x] by auto
    show "x \<noteq> u" if "x \<in> set (ch k' u)" for u x using that in' [of x u] o(4) [of x u] o(4) [of x t] by auto
    show "ch k' u = []" if "st k' u = Some Zombie" for u using that o(5) [of u] o(8) v by (auto split: if_splits)
    show "u = w" if "x \<in> set (ch k' u)" "x \<in> set (ch k' w)" for u w x using that in' [of x u] in' [of x w] o(6) [of x u w] o(6) [of x u t] o(6) [of x w t] by auto
    show "u = ?I \<or> u < x" if "x \<in> set (ch k' u)" for u x using that in' [of x u] o(9) [of x u] by auto
    show "\<exists>u. x \<in> set (ch k' u)" if x: "st k' x \<noteq> None" "x \<noteq> ?I" for x
    proof -
      from x st' o(7) obtain u where "x \<in> set (ch k u)" by meson
      then have "x \<in> set (ch k' (if u = t then ?I else u))" unfolding in' using assms(3) by auto
      then show ?thesis by blast
    qed
  qed
qed

lemma exit_inv:
  assumes inv: "tasks_inv k" and cur: "current k = Some t" and run: "exit_current_and_run_next code k = Ok k'"
  shows "tasks_inv k' \<and> current k' = None \<and> ready_queue k' = ready_queue k"
proof -
  from inv have q: "queue_ok k" "pids_ok k" "family_ok k" "borrowed k = {}" by (simp_all add: tasks_inv_def)
  have stt: "st k t = Some Running" using q(1) cur unfolding queue_ok_def by blast
  then obtain tcb where tcb: "tcbs k t = Some tcb" by (auto simp: st_Some)
  have t: "t \<noteq> INITPROC k" using exit_init [OF inv] cur run by auto
  from q(3) obtain itcb where itcb: "tcbs k (INITPROC k) = Some itcb" by (auto simp: family_ok_def st_def)
  obtain f where "exit_current_and_run_next code k = and_then (release_areas (memory_set (inner tcb)) (k_mm k)) f"
    by (rule exit_eq [OF inv cur t tcb itcb, of code])
  with run obtain r where "release_areas (memory_set (inner tcb)) (k_mm k) = Ok r" by (auto simp: and_then_eq_Ok_conv)
  then obtain ms s where rel: "release_areas (memory_set (inner tcb)) (k_mm k) = Ok (ms, s)" by (cases r) auto
  obtain k2 where k2: "exit_current_and_run_next code k = Ok k2" "borrowed k2 = {}" "current k2 = None" "ready_queue k2 = ready_queue k"
    "PID_TO_TASK k2 = bt_remove (getpid tcb) (PID_TO_TASK k)" "PID_ALLOCATOR k2 = PID_ALLOCATOR k" "INITPROC k2 = INITPROC k"
    "next_tcb k2 = next_tcb k" and v: "st k2 = (st k)(t := Some Zombie)" "pd k2 = pd k"
      "ch k2 = (ch k)(INITPROC k := ch k (INITPROC k) @ ch k t, t := [])"
    by (rule exit_steps [OF inv cur t tcb rel, of code]) blast
  have "family_ok k2" using family_ok_exit [OF q(3) stt t k2(7,8) v(1,3)] .
  moreover have "queue_ok k2" using q(1) stt cur unfolding queue_ok_def by (auto simp: v k2)
  moreover have "pids_ok k2"
  proof -
    have "pd k t = Some (getpid tcb)" using tcb by (simp add: pd_def)
    moreover have "sorted (map fst (bt_remove p xs)) \<and> distinct (map fst (bt_remove p xs))"
      if "sorted (map fst xs)" "distinct (map fst xs)" for p and xs :: "(usize \<times> nat) list"
      using that unfolding bt_remove_def by (simp add: sorted_filter distinct_map_filter)
    ultimately show ?thesis using q(2) stt unfolding pids_ok_def k2 v map_of_bt_remove by auto
  qed
  ultimately show ?thesis using k2 run by (simp add: tasks_inv_def)
qed

section \<open>Fork\<close>

lemma pid_alloc_eq: "pid_alloc k = (h, k') \<longleftrightarrow> (\<exists>a. PidAllocator_alloc (PID_ALLOCATOR k) = (h, a) \<and> k' = k\<lparr>PID_ALLOCATOR := a\<rparr>)"
  by (auto simp: pid_alloc_def split: prod.splits)

text \<open>The inner part of a new child.\<close>

definition forked_inner :: "kernel_env \<Rightarrow> nat \<Rightarrow> TaskControlBlockInner \<Rightarrow> MemorySet \<Rightarrow> PhysPageNum \<Rightarrow> usize \<Rightarrow> TaskControlBlockInner" where
  "forked_inner env self p ms ppn ktop =
     \<lparr>trap_cx_ppn = ppn, base_size = base_size p, task_status = Ready, task_cx = goto_trap_return (env_trap_return env) ktop,
       memory_set = ms, parent = Some self, children = [], exit_code = 0, fd_table = fd_table p,
       signals = 0, signal_mask = signal_mask p, handling_sig = - 1, signal_actions = signal_actions p,
       killed = False, frozen = False, trap_ctx_backup = None\<rparr>"

text \<open>What a successful fork changes: a new block, a new child of the parent, the pid and memory.\<close>

lemma fork_Ok:
  assumes run: "fork env self k = Ok (t, k')" and tcb: "tcbs k self = Some tcb" and fresh: "tcbs k (next_tcb k) = None"
    and free: "borrowed k = {}"
  obtains h a ks KS s0 ms s1 ppn where "t = next_tcb k" "PidAllocator_alloc (PID_ALLOCATOR k) = (h, a)"
    "KernelStack_new h (KERNEL_SPACE k) (k_mm k) = Ok (ks, KS, s0)"
    "from_existed_user (env_trampoline env) (memory_set (inner tcb)) s0 = Ok (ms, s1)" "trap_cx_frame ms (mem s1) = Ok ppn"
    "k' = put_inner self ((inner tcb)\<lparr>children := children (inner tcb) @ [t]\<rparr>)
       (k\<lparr>PID_ALLOCATOR := a, KERNEL_SPACE := KS,
          tcbs := (tcbs k)(t \<mapsto> \<lparr>pid = h, kernel_stack = ks, inner = forked_inner env self (inner tcb) ms ppn (KernelStack_get_top ks)\<rparr>),
          next_tcb := Suc (next_tcb k),
          k_mm := s1\<lparr>mem := store_trap_cx (mem s1) ppn ((load_trap_cx (mem s1) ppn)\<lparr>kernel_sp := KernelStack_get_top ks\<rparr>)\<rparr>, borrowed := {}\<rparr>)"
proof -
  have fds: "map (\<lambda>fd. case fd of Some file \<Rightarrow> Some file | None \<Rightarrow> None) xs = xs" for xs :: "file_ref option list"
    by (rule map_idI) (simp split: option.splits)
  from run tcb fresh free obtain h a ks KS s0 ms s1 ppn where
    "t = next_tcb k" "PidAllocator_alloc (PID_ALLOCATOR k) = (h, a)" "KernelStack_new h (KERNEL_SPACE k) (k_mm k) = Ok (ks, KS, s0)"
    "from_existed_user (env_trampoline env) (memory_set (inner tcb)) s0 = Ok (ms, s1)" "trap_cx_frame ms (mem s1) = Ok ppn"
    "k' = put_inner self ((inner tcb)\<lparr>children := children (inner tcb) @ [next_tcb k]\<rparr>)
       (k\<lparr>PID_ALLOCATOR := a, KERNEL_SPACE := KS,
          tcbs := (tcbs k)(next_tcb k \<mapsto> \<lparr>pid = h, kernel_stack = ks, inner = forked_inner env self (inner tcb) ms ppn (KernelStack_get_top ks)\<rparr>),
          next_tcb := Suc (next_tcb k),
          k_mm := s1\<lparr>mem := store_trap_cx (mem s1) ppn ((load_trap_cx (mem s1) ppn)\<lparr>kernel_sp := KernelStack_get_top ks\<rparr>)\<rparr>, borrowed := {}\<rparr>)"
    by (auto simp: fork_def with_inner_Ok Let_def and_then_eq_Ok_conv new_tcb_def access_Ok pid_alloc_eq fds set_mem_def release_def
        new_kernel_stack_def forked_inner_def split: prod.splits)
  then show thesis using that [of h a ks KS s0 ms s1 ppn] by simp
qed

text \<open>The state after the system call: the child has also been given its result and put into the queue.\<close>

lemma sys_fork_Ok:
  assumes inv: "tasks_inv k" and cur: "current k = Some p" and run: "sys_fork env k = Ok (r, k')"
  obtains tcb c h a ks KS s0 ms s1 ppn where "tcbs k p = Some tcb" "c = next_tcb k" "c \<noteq> p" "tcbs k c = None"
    "PidAllocator_alloc (PID_ALLOCATOR k) = (h, a)" "r = handle_pid h"
    "KernelStack_new h (KERNEL_SPACE k) (k_mm k) = Ok (ks, KS, s0)"
    "from_existed_user (env_trampoline env) (memory_set (inner tcb)) s0 = Ok (ms, s1)" "trap_cx_frame ms (mem s1) = Ok ppn"
    "tcbs k' = (tcbs k)(c \<mapsto> \<lparr>pid = h, kernel_stack = ks, inner = forked_inner env p (inner tcb) ms ppn (KernelStack_get_top ks)\<rparr>,
       p \<mapsto> tcb\<lparr>inner := (inner tcb)\<lparr>children := children (inner tcb) @ [c]\<rparr>\<rparr>)"
    "load_trap_cx (mem (k_mm k')) ppn =
       (let cx = load_trap_cx (mem s1) ppn in cx\<lparr>kernel_sp := KernelStack_get_top ks, regs := (regs cx)[10 := 0]\<rparr>)"
    "\<forall>x. x < PhysPageNum_get_mut ppn \<or> PhysPageNum_get_mut ppn + TRAP_CONTEXT_SIZE \<le> x \<longrightarrow> mem (k_mm k') x = mem s1 x"
    "next_tcb k' = Suc (next_tcb k)" "PID_ALLOCATOR k' = a" "ready_queue k' = ready_queue k @ [c]" "current k' = current k" "borrowed k' = {}"
    "INITPROC k' = INITPROC k" "PID_TO_TASK k' = bt_insert (handle_pid h) c (PID_TO_TASK k)"
proof -
  from inv have q: "queue_ok k" "family_ok k" "borrowed k = {}" by (simp_all add: tasks_inv_def)
  have "st k p = Some Running" using q(1) cur unfolding queue_ok_def by blast
  then obtain tcb where tcb: "tcbs k p = Some tcb" by (auto simp: st_Some)
  have "st k (next_tcb k) = None" using q(2) unfolding family_ok_def by blast
  then have fresh: "tcbs k (next_tcb k) = None" by (simp add: st_None)
  then have np: "next_tcb k \<noteq> p" using tcb by auto
  from run cur obtain c k1 where f: "fork env p k = Ok (c, k1)" by (auto simp: sys_fork_def current_task_def and_then_eq_Ok_conv)
  from fork_Ok [OF f tcb fresh q(3)] obtain h a ks KS s0 ms s1 ppn where
    o: "c = next_tcb k" "PidAllocator_alloc (PID_ALLOCATOR k) = (h, a)" "KernelStack_new h (KERNEL_SPACE k) (k_mm k) = Ok (ks, KS, s0)"
      "from_existed_user (env_trampoline env) (memory_set (inner tcb)) s0 = Ok (ms, s1)" "trap_cx_frame ms (mem s1) = Ok ppn"
    and k1: "k1 = put_inner p ((inner tcb)\<lparr>children := children (inner tcb) @ [c]\<rparr>)
       (k\<lparr>PID_ALLOCATOR := a, KERNEL_SPACE := KS,
          tcbs := (tcbs k)(c \<mapsto> \<lparr>pid = h, kernel_stack = ks, inner = forked_inner env p (inner tcb) ms ppn (KernelStack_get_top ks)\<rparr>),
          next_tcb := Suc (next_tcb k),
          k_mm := s1\<lparr>mem := store_trap_cx (mem s1) ppn ((load_trap_cx (mem s1) ppn)\<lparr>kernel_sp := KernelStack_get_top ks\<rparr>)\<rparr>, borrowed := {}\<rparr>)"
    by blast
  let ?i = "forked_inner env p (inner tcb) ms ppn (KernelStack_get_top ks)"
  let ?cx = "(load_trap_cx (mem s1) ppn)\<lparr>kernel_sp := KernelStack_get_top ks\<rparr>"
  have c: "tcbs k1 c = Some \<lparr>pid = h, kernel_stack = ks, inner = ?i\<rparr>" using np o(1) by (simp add: k1 put_inner_def)
  have m: "mem (k_mm k1) = store_trap_cx (mem s1) ppn ?cx" "borrowed k1 = {}" "trap_cx_ppn ?i = ppn"
    by (simp_all add: k1 forked_inner_def)
  have r: "r = handle_pid h" and k': "k' = (set_mem (store_trap_cx (mem (k_mm k1)) ppn (?cx\<lparr>regs := (regs ?cx)[10 := 0]\<rparr>)) k1)
      \<lparr>PID_TO_TASK := bt_insert (handle_pid h) c (PID_TO_TASK k1), ready_queue := ready_queue k1 @ [c]\<rparr>"
    using run cur f c m
    by (auto simp: sys_fork_def current_task_def inner_exclusive_access_def Let_def get_trap_cx_def add_task_def getpid_def)
  have L: "load_trap_cx (mem (k_mm k')) ppn = (let cx = load_trap_cx (mem s1) ppn in cx\<lparr>kernel_sp := KernelStack_get_top ks, regs := (regs cx)[10 := 0]\<rparr>)"
    by (simp add: k' Let_def)
  have M: "\<forall>x. x < PhysPageNum_get_mut ppn \<or> PhysPageNum_get_mut ppn + TRAP_CONTEXT_SIZE \<le> x \<longrightarrow> mem (k_mm k') x = mem s1 x"
    by (simp add: k' m store_trap_cx_other)
  have T: "tcbs k' = (tcbs k)(c \<mapsto> \<lparr>pid = h, kernel_stack = ks, inner = ?i\<rparr>,
       p \<mapsto> tcb\<lparr>inner := (inner tcb)\<lparr>children := children (inner tcb) @ [c]\<rparr>\<rparr>)"
    using tcb np o(1) by (simp add: k' k1 put_inner_def)
  show thesis
  proof (rule that [OF tcb o(1) _ _ o(2) r o(3-5) T L M])
    show "c \<noteq> p" "tcbs k c = None" using np fresh o(1) by simp_all
  qed (simp_all add: k' k1)
qed

lemma family_ok_fork:
  assumes "family_ok k" "st k p \<noteq> None" "st k p \<noteq> Some Zombie" "c = next_tcb k" "INITPROC k' = INITPROC k" "next_tcb k' = Suc (next_tcb k)"
    and v: "st k' = (st k)(c := Some Ready)" "ch k' = (ch k)(c := [], p := ch k p @ [c])"
  shows "family_ok k'"
proof -
  let ?I = "INITPROC k"
  from assms(1) have o: "st k ?I \<noteq> None" "\<And>u. st k u \<noteq> None \<Longrightarrow> u < next_tcb k" "\<And>u. distinct (ch k u)"
    "\<And>u x. x \<in> set (ch k u) \<Longrightarrow> st k x \<noteq> None \<and> x \<noteq> ?I \<and> x \<noteq> u" "\<And>u. st k u = Some Zombie \<Longrightarrow> ch k u = []"
    "\<And>u w x. x \<in> set (ch k u) \<Longrightarrow> x \<in> set (ch k w) \<Longrightarrow> u = w"
    "\<And>x. st k x \<noteq> None \<Longrightarrow> x \<noteq> ?I \<Longrightarrow> \<exists>u. x \<in> set (ch k u)" "st k ?I \<noteq> Some Zombie" "\<And>u x. x \<in> set (ch k u) \<Longrightarrow> u = ?I \<or> u < x"
    unfolding family_ok_def by blast+
  have "st k c = None" using o(2) [of c] assms(4) by (cases "st k c") auto
  with o(1) assms(2) have new: "st k c = None" "c \<noteq> ?I" "c \<noteq> p" by auto
  have cc: "ch k c = []" using new(1) by (simp add: st_None ch_def)
  have noc: "c \<notin> set (ch k u)" for u using o(4) [of c u] new(1) by blast
  have in': "x \<in> set (ch k' u) \<longleftrightarrow> x \<in> set (ch k u) \<or> (u = p \<and> x = c)" for x u
    using new cc by (auto simp: v)
  have st': "st k' x = None \<longleftrightarrow> st k x = None \<and> x \<noteq> c" for x by (auto simp: v)
  show ?thesis unfolding family_ok_def assms(5,6)
  proof (intro conjI allI impI)
    show "st k' ?I \<noteq> None" "st k' ?I \<noteq> Some Zombie" using o(1,8) v by (auto split: if_splits)
    show "u < Suc (next_tcb k)" if "st k' u \<noteq> None" for u using o(2) [of u] st' [of u] that assms(4) by auto
    show "distinct (ch k' u)" for u using o(3) [of u] o(3) [of p] noc by (auto simp: v)
    show "st k' x \<noteq> None" "x \<noteq> ?I" "x \<noteq> u" if "x \<in> set (ch k' u)" for u x
      using that in' [of x u] o(4) [of x u] st' [of x] new by auto
    show "ch k' u = []" if "st k' u = Some Zombie" for u using that o(5) [of u] assms(3) v by (auto split: if_splits)
    show "u = w" if "x \<in> set (ch k' u)" "x \<in> set (ch k' w)" for u w x
      using that in' [of x u] in' [of x w] o(6) [of x u w] noc by auto
    show "u = ?I \<or> u < x" if "x \<in> set (ch k' u)" for u x using that in' [of x u] o(9) [of x u] o(2) [of p] assms(2,4) by auto
    show "\<exists>u. x \<in> set (ch k' u)" if x: "st k' x \<noteq> None" "x \<noteq> ?I" for x
    proof (cases "x = c")
      case True
      then have "x \<in> set (ch k' p)" by (simp add: in')
      then show ?thesis by blast
    next
      case False
      with x st' o(7) obtain u where "x \<in> set (ch k u)" by meson
      then show ?thesis using in' by blast
    qed
  qed
qed

lemma sys_fork_inv:
  assumes inv: "tasks_inv k" and cur: "current k = Some p" and room: "pid_room (PID_ALLOCATOR k)" and run: "sys_fork env k = Ok (r, k')"
  shows "tasks_inv k' \<and> current k' = Some p \<and> (\<exists>c. ready_queue k' = ready_queue k @ [c])"
proof -
  from inv have q: "queue_ok k" "pids_ok k" "family_ok k" "borrowed k = {}" by (simp_all add: tasks_inv_def)
  from sys_fork_Ok [OF inv cur run] obtain tcb c h a ks ms ppn where
    o: "tcbs k p = Some tcb" "c = next_tcb k" "c \<noteq> p" "tcbs k c = None" "PidAllocator_alloc (PID_ALLOCATOR k) = (h, a)"
    and T: "tcbs k' = (tcbs k)(c \<mapsto> \<lparr>pid = h, kernel_stack = ks, inner = forked_inner env p (inner tcb) ms ppn (KernelStack_get_top ks)\<rparr>,
       p \<mapsto> tcb\<lparr>inner := (inner tcb)\<lparr>children := children (inner tcb) @ [c]\<rparr>\<rparr>)"
    and k': "next_tcb k' = Suc (next_tcb k)" "PID_ALLOCATOR k' = a" "ready_queue k' = ready_queue k @ [c]" "current k' = current k"
      "borrowed k' = {}" "INITPROC k' = INITPROC k" "PID_TO_TASK k' = bt_insert (handle_pid h) c (PID_TO_TASK k)"
    by metis
  have v: "st k' = (st k)(c := Some Ready)" "pd k' = (pd k)(c := Some (handle_pid h))" "ch k' = (ch k)(c := [], p := ch k p @ [c])"
    using o by (auto simp: st_def pd_def ch_def T forked_inner_def getpid_def fun_eq_iff)
  have stp: "st k p = Some Running" using q(1) cur unfolding queue_ok_def by blast
  have stc: "st k c = None" "pd k c = None" using o by (simp_all add: st_def pd_def)
  have "family_ok k'" using stp by (intro family_ok_fork [OF q(3) _ _ o(2) k'(6,1) v(1,3)]) simp_all
  moreover have "queue_ok k'" using q(1) stc cur unfolding queue_ok_def by (auto simp: v k')
  moreover have "pids_ok k'"
  proof -
    have pa: "pid_inv (PID_ALLOCATOR k)" using q(2) by (simp add: pids_ok_def)
    note fresh = pid_alloc_fresh [OF pa room o(5)]
    have new: "pd k t \<noteq> Some (handle_pid h)" for t using q(2) fresh(1) unfolding pids_ok_def by blast
    have "map_of (PID_TO_TASK k) x \<noteq> Some c" for x using q(2) stc unfolding pids_ok_def by simp
    with q(2) bt_insert_sorted [of "PID_TO_TASK k" "handle_pid h" c] new stc fresh show ?thesis
      unfolding pids_ok_def k' v by (auto split: if_splits) (metis option.distinct(1))
  qed
  ultimately show ?thesis using k' cur by (simp add: tasks_inv_def)
qed

end
