(* ===== verification/Task_Steps.thy ===== *)
theory Task_Steps
  imports Task_Invariant
begin

text \<open>
  The processes as a transition system: each system call and each turn of the idle loop is a step,
  every reachable state satisfies the invariant of \<open>Task_Invariant\<close>, and from it follow the
  properties of \<^verbatim>\<open>fork\<close>, \<^verbatim>\<open>exit\<close>, \<^verbatim>\<open>waitpid\<close> and of the scheduler.
\<close>

section \<open>Waiting for a child\<close>

definition waits_for :: "isize \<Rightarrow> kernel \<Rightarrow> nat \<Rightarrow> bool" where
  "waits_for p k c \<longleftrightarrow> p = ANY_PROCESS \<or> pd k c = Some p"

definition reapable :: "isize \<Rightarrow> kernel \<Rightarrow> nat \<Rightarrow> bool" where
  "reapable p k c \<longleftrightarrow> st k c = Some Zombie \<and> waits_for p k c"

lemma is_child_iff: "is_child p cs k \<longleftrightarrow> (\<exists>c \<in> set cs. waits_for p k c)"
proof -
  have "(p = ANY_PROCESS \<or> (case tcbs k c of Some tcb \<Rightarrow> p = getpid tcb | None \<Rightarrow> False)) \<longleftrightarrow> waits_for p k c" for c
    by (auto simp: waits_for_def pd_def split: option.splits)
  then show ?thesis by (simp add: is_child_def list_ex_iff)
qed

lemma find_zombie_Ok:
  assumes "\<forall>c \<in> set cs. c \<notin> borrowed k \<and> tcbs k c \<noteq> None"
  obtains "find_zombie p cs k = Ok None" "\<forall>c \<in> set cs. \<not> reapable p k c"
  | i where "find_zombie p cs k = Ok (Some i)" "i < length cs" "reapable p k (cs ! i)" "\<forall>j < i. \<not> reapable p k (cs ! j)"
proof -
  have "(find_zombie p cs k = Ok None \<and> (\<forall>c \<in> set cs. \<not> reapable p k c))
    \<or> (\<exists>i. find_zombie p cs k = Ok (Some i) \<and> i < length cs \<and> reapable p k (cs ! i) \<and> (\<forall>j < i. \<not> reapable p k (cs ! j)))"
    using assms
  proof (induction cs)
    case (Cons c cs)
    from Cons.prems obtain tcb where tcb: "tcbs k c = Some tcb" "c \<notin> borrowed k" by auto
    have z: "find_zombie p (c # cs) k = (if reapable p k c then Ok (Some 0) else and_then (find_zombie p cs k) (\<lambda>r. Ok (map_option Suc r)))"
      using tcb by (auto simp: inner_exclusive_access_def is_zombie_def get_status_def reapable_def waits_for_def st_def pd_def)
    show ?case
    proof (cases "reapable p k c")
      case True
      then show ?thesis unfolding z by (intro disjI2 exI [of _ 0]) simp
    next
      case False
      have IH: "(find_zombie p cs k = Ok None \<and> (\<forall>c \<in> set cs. \<not> reapable p k c))
        \<or> (\<exists>i. find_zombie p cs k = Ok (Some i) \<and> i < length cs \<and> reapable p k (cs ! i) \<and> (\<forall>j < i. \<not> reapable p k (cs ! j)))"
        using Cons.prems by (intro Cons.IH) simp
      then show ?thesis
      proof
        assume "find_zombie p cs k = Ok None \<and> (\<forall>c \<in> set cs. \<not> reapable p k c)"
        with False show ?thesis unfolding z by simp
      next
        assume "\<exists>i. find_zombie p cs k = Ok (Some i) \<and> i < length cs \<and> reapable p k (cs ! i) \<and> (\<forall>j < i. \<not> reapable p k (cs ! j))"
        then obtain i where "find_zombie p cs k = Ok (Some i)" "i < length cs" "reapable p k (cs ! i)" "\<forall>j < i. \<not> reapable p k (cs ! j)"
          by blast
        with False show ?thesis unfolding z by (intro disjI2 exI [of _ "Suc i"]) (auto simp: nth_Cons split: nat.split)
      qed
    qed
  qed simp
  then show thesis using that by blast
qed

text \<open>A zombie is referenced by its parent only.\<close>

lemma strong_refs_reaped:
  assumes inv: "tasks_inv k" and tcb: "tcbs k t = Some tcb" and i: "i < length (children (inner tcb))"
    and z: "st k (children (inner tcb) ! i) = Some Zombie"
  shows "strong_refs (children (inner tcb) ! i)
    (put_inner t ((inner tcb)\<lparr>children := take i (children (inner tcb)) @ drop (Suc i) (children (inner tcb))\<rparr>) (k\<lparr>borrowed := b\<rparr>)) = 0"
proof -
  let ?cs = "children (inner tcb)"
  let ?c = "?cs ! i" and ?ds = "take i ?cs @ drop (Suc i) ?cs"
  let ?k = "put_inner t ((inner tcb)\<lparr>children := ?ds\<rparr>) (k\<lparr>borrowed := b\<rparr>)"
  from inv have q: "queue_ok k" "pids_ok k" "family_ok k" by (simp_all add: tasks_inv_def)
  have ch: "ch k t = ?cs" using tcb by (simp add: ch_def)
  have mem: "?c \<in> set (ch k t)" using i by (simp add: ch)
  have "?c \<notin> set (ready_queue k)" "current k \<noteq> Some ?c" using q(1) z unfolding queue_ok_def by auto
  moreover have "INITPROC k \<noteq> ?c" using q(3) mem unfolding family_ok_def by metis
  moreover have "filter (\<lambda>(p, u). u = ?c) (PID_TO_TASK k) = []"
  proof -
    have "u \<noteq> ?c" if "(p, u) \<in> set (PID_TO_TASK k)" for p u
    proof -
      have "map_of (PID_TO_TASK k) p = Some u" using that q(2) by (simp add: pids_ok_def)
      with q(2) z show ?thesis unfolding pids_ok_def by auto
    qed
    then show ?thesis by (auto simp: filter_empty_conv)
  qed
  moreover have "(case tcbs ?k j of None \<Rightarrow> 0 | Some tcb \<Rightarrow> count_list (children (inner tcb)) ?c) = 0" for j
  proof (cases "j = t")
    case True
    have "distinct ?cs" using q(3) unfolding family_ok_def ch [symmetric] by blast
    moreover have "?cs = take i ?cs @ ?c # drop (Suc i) ?cs" using i by (rule id_take_nth_drop)
    ultimately have "?c \<notin> set ?ds" by (metis not_distinct_conv_prefix distinct_append distinct.simps(2) disjoint_iff set_append Un_iff list.set_intros(1))
    with True tcb show ?thesis by (simp add: put_inner_def count_list_0_iff)
  next
    case False
    have "?c \<notin> set (ch k j)" using q(3) mem False unfolding family_ok_def by metis
    with False show ?thesis by (auto simp: put_inner_def count_list_0_iff ch_def split: option.splits)
  qed
  ultimately show ?thesis by (simp add: strong_refs_def count_list_0_iff)
qed

lemma release_same:
  assumes "tcbs k t = Some tcb" "borrowed k = {}"
  shows "release t (inner tcb) (k\<lparr>borrowed := {t}\<rparr>) = k"
proof -
  have "(tcbs k)(t := Some tcb) = tcbs k" using assms(1) by auto
  with assms show ?thesis by (cases k) (simp add: release_def put_inner_def)
qed

definition without :: "nat \<Rightarrow> TaskControlBlockInner \<Rightarrow> TaskControlBlockInner" where
  "without idx i = i\<lparr>children := take idx (children i) @ drop (Suc idx) (children i)\<rparr>"

text \<open>The three outcomes of \<^verbatim>\<open>sys_waitpid\<close>; the assertion on the reference count holds.\<close>

lemma sys_waitpid_outcomes:
  assumes inv: "tasks_inv k" and cur: "current k = Some t" and tcb: "tcbs k t = Some tcb"
  obtains "\<not> (\<exists>c \<in> set (ch k t). waits_for p k c)" "sys_waitpid p ptr k = Ok (NO_CHILDREN_RUNNING, k)"
  | "\<exists>c \<in> set (ch k t). waits_for p k c" "\<forall>c \<in> set (ch k t). \<not> reapable p k c" "sys_waitpid p ptr k = Ok (CHILDREN_RUNNING, k)"
  | idx c ctcb where "idx < length (ch k t)" "c = ch k t ! idx" "reapable p k c" "\<forall>j < idx. \<not> reapable p k (ch k t ! j)"
      "tcbs k c = Some ctcb" "c \<noteq> t"
      "sys_waitpid p ptr k =
         and_then (translated_ref_mut (get_user_token (inner tcb)) ptr (mem (k_mm k))) (\<lambda>a.
         and_then (drop_tcb c (set_mem (store_bytes (mem (k_mm k)) a (nat_le 4 (unat (exit_code (inner ctcb))))) (k\<lparr>borrowed := {t}\<rparr>)))
           (\<lambda>k'. Ok (getpid ctcb, release t (without idx (inner tcb)) k')))"
proof -
  from inv have q: "family_ok k" "borrowed k = {}" by (simp_all add: tasks_inv_def)
  let ?k = "k\<lparr>borrowed := {t}\<rparr>" and ?cs = "children (inner tcb)"
  have ch: "ch k t = ?cs" using tcb by (simp add: ch_def)
  have kids: "\<forall>c \<in> set ?cs. c \<notin> borrowed ?k \<and> tcbs ?k c \<noteq> None"
    using q(1) unfolding family_ok_def ch [symmetric] st_None by auto
  have views: "waits_for p ?k c = waits_for p k c" "reapable p ?k c = reapable p k c" for c
    by (simp_all add: waits_for_def reapable_def)
  show thesis
  proof (cases "\<exists>c \<in> set ?cs. waits_for p k c")
    case False
    then have "sys_waitpid p ptr k = Ok (NO_CHILDREN_RUNNING, k)"
      using cur tcb q(2) release_same [OF tcb q(2)]
      by (simp add: sys_waitpid_def current_task_def with_inner_def inner_exclusive_access_def is_child_iff views)
    with False that(1) show thesis by (simp add: ch)
  next
    case True
    show thesis
    proof (rule find_zombie_Ok [OF kids, of p])
      assume f: "find_zombie p ?cs ?k = Ok None" "\<forall>c \<in> set ?cs. \<not> reapable p ?k c"
      then have "sys_waitpid p ptr k = Ok (CHILDREN_RUNNING, k)"
        using True cur tcb q(2) release_same [OF tcb q(2)]
        by (auto simp: sys_waitpid_def current_task_def with_inner_def inner_exclusive_access_def is_child_iff views)
      with True f that(2) show thesis by (simp add: ch views)
    next
      fix idx
      assume f: "find_zombie p ?cs ?k = Ok (Some idx)" "idx < length ?cs" "reapable p ?k (?cs ! idx)" "\<forall>j < idx. \<not> reapable p ?k (?cs ! j)"
      let ?c = "?cs ! idx"
      have "?c \<in> set ?cs" using f(2) by simp
      with kids obtain ctcb where c: "tcbs k ?c = Some ctcb" "?c \<noteq> t" by auto
      have z: "st k ?c = Some Zombie" using f(3) by (simp add: reapable_def)
      note refs = strong_refs_reaped [OF inv tcb f(2) z, of "{t}"]
      have "sys_waitpid p ptr k =
         and_then (translated_ref_mut (get_user_token (inner tcb)) ptr (mem (k_mm k))) (\<lambda>a.
         and_then (drop_tcb ?c (set_mem (store_bytes (mem (k_mm k)) a (nat_le 4 (unat (exit_code (inner ctcb))))) ?k))
           (\<lambda>k'. Ok (getpid ctcb, release t (without idx (inner tcb)) k')))"
        using True cur tcb q(2) f(1,2) refs c
        by (simp add: sys_waitpid_def current_task_def with_inner_def inner_exclusive_access_def is_child_iff views Let_def
            and_then_assoc get_user_token_def without_def) blast
      with f c that(3) [of idx ?c ctcb] show thesis by (simp add: ch views)
    qed
  qed
qed

lemma drop_tcb_Ok:
  assumes "drop_tcb c k = Ok k'" "tcbs k c = Some ctcb"
  obtains a KS s where "PidHandle_drop (pid ctcb) (PID_ALLOCATOR k) = Ok a"
    "k' = k\<lparr>PID_ALLOCATOR := a, KERNEL_SPACE := KS, k_mm := s, tcbs := (tcbs k)(c := None)\<rparr>"
  using assms by (auto simp: drop_tcb_def and_then_eq_Ok_conv)

lemma set_without_idx: "distinct xs \<Longrightarrow> i < length xs \<Longrightarrow>
    set (take i xs @ drop (Suc i) xs) = set xs - {xs ! i} \<and> distinct (take i xs @ drop (Suc i) xs)"
proof -
  assume d: "distinct xs" and i: "i < length xs"
  have e: "xs = take i xs @ xs ! i # drop (Suc i) xs" using i by (rule id_take_nth_drop)
  have "distinct (take i xs @ xs ! i # drop (Suc i) xs)" using d e by simp
  moreover have "set xs = set (take i xs @ xs ! i # drop (Suc i) xs)" using e by (rule arg_cong)
  ultimately show ?thesis by auto
qed

lemma family_ok_reap:
  assumes "family_ok k" "st k t \<noteq> Some Zombie" "c = ch k t ! i" "i < length (ch k t)" "st k c = Some Zombie"
    "INITPROC k' = INITPROC k" "next_tcb k' = next_tcb k"
    and v: "st k' = (st k)(c := None)" "ch k' = (ch k)(t := take i (ch k t) @ drop (Suc i) (ch k t))"
  shows "family_ok k'"
proof -
  let ?I = "INITPROC k"
  from assms(1) have o: "st k ?I \<noteq> None" "\<And>u. st k u \<noteq> None \<Longrightarrow> u < next_tcb k" "\<And>u. distinct (ch k u)"
    "\<And>u x. x \<in> set (ch k u) \<Longrightarrow> st k x \<noteq> None \<and> x \<noteq> ?I \<and> x \<noteq> u" "\<And>u. st k u = Some Zombie \<Longrightarrow> ch k u = []"
    "\<And>u w x. x \<in> set (ch k u) \<Longrightarrow> x \<in> set (ch k w) \<Longrightarrow> u = w"
    "\<And>x. st k x \<noteq> None \<Longrightarrow> x \<noteq> ?I \<Longrightarrow> \<exists>u. x \<in> set (ch k u)" "st k ?I \<noteq> Some Zombie" "\<And>u x. x \<in> set (ch k u) \<Longrightarrow> u = ?I \<or> u < x"
    unfolding family_ok_def by blast+
  have c: "c \<in> set (ch k t)" "c \<noteq> ?I" using assms(3,4) o(4) [of c t] by auto
  note w = set_without_idx [OF o(3) assms(4), folded assms(3)]
  have "c \<in> set (ch k u) \<longleftrightarrow> u = t" for u using o(6) [of c u t] c(1) by blast
  then have in': "x \<in> set (ch k' u) \<longleftrightarrow> x \<in> set (ch k u) \<and> x \<noteq> c" for x u
    using w [THEN conjunct1] unfolding v by (cases "u = t") auto
  have st': "st k' x = None \<longleftrightarrow> st k x = None \<or> x = c" for x by (auto simp: v)
  show ?thesis unfolding family_ok_def assms(6,7)
  proof (intro conjI allI impI)
    show "st k' ?I \<noteq> None" "st k' ?I \<noteq> Some Zombie" using o(1,8) v c by (auto split: if_splits)
    show "u < next_tcb k" if "st k' u \<noteq> None" for u using o(2) [of u] st' [of u] that by auto
    show "distinct (ch k' u)" for u using o(3) [of u] w [THEN conjunct2] unfolding v by (cases "u = t") simp_all
    show "st k' x \<noteq> None" "x \<noteq> ?I" "x \<noteq> u" if "x \<in> set (ch k' u)" for u x
      using that in' [of x u] o(4) [of x u] st' [of x] by auto
    show "ch k' u = []" if "st k' u = Some Zombie" for u using that o(5) [of u] assms(2) v by (auto split: if_splits)
    show "u = w" if "x \<in> set (ch k' u)" "x \<in> set (ch k' w)" for u w x
      using that in' [of x u] in' [of x w] o(6) [of x u w] by auto
    show "u = ?I \<or> u < x" if "x \<in> set (ch k' u)" for u x using that in' [of x u] o(9) [of x u] by auto
    show "\<exists>u. x \<in> set (ch k' u)" if x: "st k' x \<noteq> None" "x \<noteq> ?I" for x
    proof -
      from x st' [of x] o(7) [of x] obtain u where "x \<in> set (ch k u)" "x \<noteq> c" by auto
      then show ?thesis using in' by blast
    qed
  qed
qed

lemma sys_waitpid_inv:
  assumes inv: "tasks_inv k" and cur: "current k = Some t" and run: "sys_waitpid p ptr k = Ok (r, k')"
  shows "tasks_inv k' \<and> current k' = Some t \<and> ready_queue k' = ready_queue k"
proof -
  from inv have q: "queue_ok k" "pids_ok k" "family_ok k" "borrowed k = {}" by (simp_all add: tasks_inv_def)
  have stt: "st k t = Some Running" using q(1) cur unfolding queue_ok_def by blast
  then obtain tcb where tcb: "tcbs k t = Some tcb" by (auto simp: st_Some)
  show ?thesis
  proof (rule sys_waitpid_outcomes [OF inv cur tcb, of p ptr])
    fix idx c ctcb
    assume idx: "idx < length (ch k t)" "c = ch k t ! idx" "reapable p k c" and c: "tcbs k c = Some ctcb" "c \<noteq> t"
      and w: "sys_waitpid p ptr k =
         and_then (translated_ref_mut (get_user_token (inner tcb)) ptr (mem (k_mm k))) (\<lambda>a.
         and_then (drop_tcb c (set_mem (store_bytes (mem (k_mm k)) a (nat_le 4 (unat (exit_code (inner ctcb))))) (k\<lparr>borrowed := {t}\<rparr>)))
           (\<lambda>k'. Ok (getpid ctcb, release t (without idx (inner tcb)) k')))"
    have z: "st k c = Some Zombie" using idx by (simp add: reapable_def)
    from run [unfolded w] obtain m k1 where d: "drop_tcb c (set_mem m (k\<lparr>borrowed := {t}\<rparr>)) = Ok k1" and k': "k' = release t (without idx (inner tcb)) k1"
      by (auto simp: and_then_eq_Ok_conv)
    obtain a KS s where a: "PidHandle_drop (pid ctcb) (PID_ALLOCATOR k) = Ok a"
      and k1: "k1 = (set_mem m (k\<lparr>borrowed := {t}\<rparr>))\<lparr>PID_ALLOCATOR := a, KERNEL_SPACE := KS, k_mm := s, tcbs := (tcbs k)(c := None)\<rparr>"
      by (rule drop_tcb_Ok [OF d, of ctcb]) (use c in simp_all)
    have T: "tcbs k' = (tcbs k)(c := None, t \<mapsto> tcb\<lparr>inner := without idx (inner tcb)\<rparr>)"
      and f: "ready_queue k' = ready_queue k" "current k' = current k" "PID_TO_TASK k' = PID_TO_TASK k" "PID_ALLOCATOR k' = a"
        "INITPROC k' = INITPROC k" "next_tcb k' = next_tcb k" "borrowed k' = {}"
      using c tcb by (simp_all add: k' k1 release_def put_inner_def set_mem_def)
    have "ch k c = []" using q(3) z unfolding family_ok_def by blast
    then have v: "st k' = (st k)(c := None)" "pd k' = (pd k)(c := None)"
      "ch k' = (ch k)(t := take idx (ch k t) @ drop (Suc idx) (ch k t))"
      using c tcb by (auto simp: st_def pd_def ch_def T without_def getpid_def fun_eq_iff)
    have "family_ok k'" using stt by (intro family_ok_reap [OF q(3) _ idx(2,1) z f(5,6) v(1,3)]) simp
    moreover have "queue_ok k'" using q(1) z unfolding queue_ok_def by (auto simp: v f)
    moreover have "pids_ok k'"
    proof -
      have pdc: "pd k c = Some (getpid ctcb)" using c by (simp add: pd_def)
      have pa: "pid_inv (PID_ALLOCATOR k)" and live: "getpid ctcb \<in> pid_live (PID_ALLOCATOR k)" using q(2) pdc by (auto simp: pids_ok_def)
      from pid_dealloc_live [OF pa live] a have al: "pid_inv a" "pid_live a = pid_live (PID_ALLOCATOR k) - {getpid ctcb}"
        by (auto simp: PidHandle_drop_def getpid_def)
      have uniq: "u = c" if "pd k u = Some (getpid ctcb)" for u using q(2) that pdc unfolding pids_ok_def by blast
      from q(2) have o: "\<And>x u. map_of (PID_TO_TASK k) x = Some u \<longleftrightarrow> pd k u = Some x \<and> st k u \<noteq> Some Zombie"
        "\<And>x u w. pd k u = Some x \<Longrightarrow> pd k w = Some x \<Longrightarrow> u = w" "\<And>x. x \<in> pid_live (PID_ALLOCATOR k) \<longleftrightarrow> (\<exists>u. pd k u = Some x)"
        unfolding pids_ok_def by blast+
      have "x \<in> pid_live a \<longleftrightarrow> (\<exists>u. ((pd k)(c := None)) u = Some x)" for x
      proof -
        have "(\<exists>u. ((pd k)(c := None)) u = Some x) \<longleftrightarrow> (\<exists>u. pd k u = Some x \<and> u \<noteq> c)" by auto
        also have "\<dots> \<longleftrightarrow> (\<exists>u. pd k u = Some x) \<and> x \<noteq> getpid ctcb" using uniq pdc by (metis option.inject)
        finally show ?thesis using o(3) [of x] by (simp add: al(2))
      qed
      moreover have "map_of (PID_TO_TASK k) x = Some u \<longleftrightarrow> ((pd k)(c := None)) u = Some x \<and> ((st k)(c := None)) u \<noteq> Some Zombie" for x u
        using o(1) [of x u] z by auto
      moreover have "u = w" if "((pd k)(c := None)) u = Some x" "((pd k)(c := None)) w = Some x" for x u w
        using that o(2) [of u x w] by (auto split: if_splits)
      ultimately show ?thesis using q(2) al(1) unfolding pids_ok_def f v by blast
    qed
    ultimately show ?thesis using f cur by (simp add: tasks_inv_def)
  qed (use inv cur run in auto)
qed

section \<open>Properties\<close>

text \<open>
  C7. The outcomes of \<^verbatim>\<open>sys_waitpid\<close>: without a matching child the result is \<^verbatim>\<open>-1\<close>, with matching
  children none of which has exited it is \<^verbatim>\<open>-2\<close>, and the state is unchanged; otherwise the first
  matching zombie is taken from the children, its exit code is written to the user's variable and its
  control block is dropped. In particular the assertion that the zombie has no other reference never fails.
\<close>

theorem sys_waitpid_spec:
  assumes "tasks_inv k" "current k = Some t" "tcbs k t = Some tcb"
  shows "((\<forall>c \<in> set (ch k t). \<not> waits_for p k c) \<longrightarrow> sys_waitpid p ptr k = Ok (- 1, k))
    \<and> ((\<exists>c \<in> set (ch k t). waits_for p k c) \<and> (\<forall>c \<in> set (ch k t). \<not> reapable p k c) \<longrightarrow> sys_waitpid p ptr k = Ok (- 2, k))
    \<and> (\<forall>idx ctcb. idx < length (ch k t) \<and> reapable p k (ch k t ! idx) \<and> (\<forall>j < idx. \<not> reapable p k (ch k t ! j))
         \<and> tcbs k (ch k t ! idx) = Some ctcb \<longrightarrow>
       sys_waitpid p ptr k =
         and_then (translated_ref_mut (get_user_token (inner tcb)) ptr (mem (k_mm k))) (\<lambda>a.
         and_then (drop_tcb (ch k t ! idx)
             (set_mem (store_bytes (mem (k_mm k)) a (nat_le 4 (unat (exit_code (inner ctcb))))) (k\<lparr>borrowed := {t}\<rparr>)))
           (\<lambda>k'. Ok (getpid ctcb, release t (without idx (inner tcb)) k'))))"
proof (rule sys_waitpid_outcomes [OF assms, of p ptr])
  assume "\<not> (\<exists>c \<in> set (ch k t). waits_for p k c)" "sys_waitpid p ptr k = Ok (NO_CHILDREN_RUNNING, k)"
  then show ?thesis by (auto simp: NO_CHILDREN_RUNNING_def reapable_def)
next
  assume "\<exists>c \<in> set (ch k t). waits_for p k c" "\<forall>c \<in> set (ch k t). \<not> reapable p k c" "sys_waitpid p ptr k = Ok (CHILDREN_RUNNING, k)"
  then show ?thesis by (auto simp: CHILDREN_RUNNING_def)
next
  fix idx c ctcb
  assume i: "idx < length (ch k t)" "c = ch k t ! idx" "reapable p k c" "\<forall>j < idx. \<not> reapable p k (ch k t ! j)" "tcbs k c = Some ctcb"
    and e: "sys_waitpid p ptr k =
         and_then (translated_ref_mut (get_user_token (inner tcb)) ptr (mem (k_mm k))) (\<lambda>a.
         and_then (drop_tcb c (set_mem (store_bytes (mem (k_mm k)) a (nat_le 4 (unat (exit_code (inner ctcb))))) (k\<lparr>borrowed := {t}\<rparr>)))
           (\<lambda>k'. Ok (getpid ctcb, release t (without idx (inner tcb)) k')))"
  have "c \<in> set (ch k t)" using i(1,2) by simp
  then have some: "\<not> (\<forall>c \<in> set (ch k t). \<not> reapable p k c)" "\<not> (\<forall>c \<in> set (ch k t). \<not> waits_for p k c)"
    using i(3) reapable_def by blast+
  have same: "idx' = idx" if "reapable p k (ch k t ! idx')" "\<forall>j < idx'. \<not> reapable p k (ch k t ! j)" for idx'
    using that i(2-4) by (metis nat_neq_iff)
  show ?thesis
  proof (intro conjI allI impI)
    fix idx' ctcb'
    assume h: "idx' < length (ch k t) \<and> reapable p k (ch k t ! idx') \<and> (\<forall>j < idx'. \<not> reapable p k (ch k t ! j))
      \<and> tcbs k (ch k t ! idx') = Some ctcb'"
    then have "idx' = idx" using same by blast
    moreover from this h i(2,5) have "ctcb' = ctcb" by simp
    ultimately show "sys_waitpid p ptr k =
         and_then (translated_ref_mut (get_user_token (inner tcb)) ptr (mem (k_mm k))) (\<lambda>a.
         and_then (drop_tcb (ch k t ! idx')
             (set_mem (store_bytes (mem (k_mm k)) a (nat_le 4 (unat (exit_code (inner ctcb'))))) (k\<lparr>borrowed := {t}\<rparr>)))
           (\<lambda>k'. Ok (getpid ctcb', release t (without idx' (inner tcb)) k')))"
      using e unfolding i(2) by simp
  qed (use some in blast)+
qed

text \<open>
  C13. A process other than \<^verbatim>\<open>INITPROC\<close> that exits becomes a zombie with its exit code; it stays a child
  of its parent, its own children become children of \<^verbatim>\<open>INITPROC\<close>, it can no longer be scheduled or
  found by its pid, its segments are given back, and the invariant holds again.
\<close>

theorem exit_spec:
  assumes "tasks_inv k" "current k = Some t" "t \<noteq> INITPROC k" "tcbs k t = Some tcb"
    and "release_areas (memory_set (inner tcb)) (k_mm k) = Ok (ms, s)"
  shows "\<exists>k' tcb'. exit_current_and_run_next code k = Ok k' \<and> tasks_inv k'
    \<and> tcbs k' t = Some tcb' \<and> is_zombie (inner tcb') \<and> exit_code (inner tcb') = code \<and> getpid tcb' = getpid tcb \<and> k_mm k' = s
    \<and> (\<forall>u. u \<noteq> t \<longrightarrow> u \<noteq> INITPROC k \<longrightarrow> ch k' u = ch k u) \<and> ch k' t = []
    \<and> ch k' (INITPROC k) = ch k (INITPROC k) @ ch k t
    \<and> current k' = None \<and> t \<notin> set (ready_queue k') \<and> get_task_by_pid (getpid tcb) k' = None"
proof -
  obtain k' where k': "exit_current_and_run_next code k = Ok k'" "PID_TO_TASK k' = bt_remove (getpid tcb) (PID_TO_TASK k)" "k_mm k' = s"
    "tcbs k' t = Some (tcb\<lparr>inner := (inner tcb)\<lparr>task_status := Zombie, exit_code := code, children := [], memory_set := ms\<rparr>\<rparr>)"
    and ch: "ch k' = (ch k)(INITPROC k := ch k (INITPROC k) @ ch k t, t := [])"
    by (rule exit_steps [OF assms, of code]) blast
  have inv: "tasks_inv k'" "current k' = None" using exit_inv [OF assms(1,2) k'(1)] by simp_all
  have "st k' t = Some Zombie" using k'(4) by (simp add: st_def)
  then have "t \<notin> set (ready_queue k')" using inv(1) by (simp add: tasks_inv_def queue_ok_def)
  moreover have "get_task_by_pid (getpid tcb) k' = None" by (simp add: get_task_by_pid_def k'(2) map_of_bt_remove)
  ultimately show ?thesis using k' inv ch assms(3) by (auto simp: is_zombie_def get_status_def getpid_def)
qed

text \<open>
  C32. When \<^verbatim>\<open>INITPROC\<close> itself exits, or is killed, the kernel panics: its inner part is borrowed twice.
\<close>

theorem initproc_exit_panics:
  assumes "tasks_inv k" "current k = Some (INITPROC k)"
  shows "exit_current_and_run_next code k = Panic AlreadyBorrowed"
  using assms by (rule exit_init)

section \<open>Witnesses\<close>

text \<open>\<^verbatim>\<open>INITPROC\<close> is ready, its child is running, and a child of that one has exited.\<close>

definition tcb_example :: "usize \<Rightarrow> TaskStatus \<Rightarrow> nat list \<Rightarrow> TaskControlBlock" where
  "tcb_example p status cs =
     \<lparr>pid = PidHandle p, kernel_stack = \<lparr>ks_pid = p\<rparr>, inner = inner_example\<lparr>task_status := status, children := cs, exit_code := 7\<rparr>\<rparr>"

definition k_example :: kernel where
  "k_example =
     \<lparr>k_mm = mm_example1, KERNEL_SPACE = ms_example0, PID_ALLOCATOR = \<lparr>pa_current = 3, pa_recycled = []\<rparr>,
      tcbs = [0 \<mapsto> tcb_example 0 Ready [1], 1 \<mapsto> tcb_example 1 Running [2], 2 \<mapsto> tcb_example 2 Zombie []],
      next_tcb = 3, borrowed = {}, ready_queue = [0], PID_TO_TASK = [(0, 0), (1, 1)], current = Some 1, INITPROC = 0\<rparr>"

lemma views_example:
  "st k_example = [0 \<mapsto> Ready, 1 \<mapsto> Running, 2 \<mapsto> Zombie]" "pd k_example = [0 \<mapsto> 0, 1 \<mapsto> 1, 2 \<mapsto> 2]"
  "ch k_example = (\<lambda>_. [])(0 := [1], 1 := [2])"
  by (auto simp: st_def pd_def ch_def k_example_def tcb_example_def getpid_def fun_eq_iff)

lemma word_less_3: "p < 3 \<longleftrightarrow> p = 0 \<or> p = 1 \<or> p = (2 :: usize)"
proof -
  have "p < 3 \<longleftrightarrow> p < 2 \<or> p = 2" "p < 2 \<longleftrightarrow> p < 1 \<or> p = 1" "p < 1 \<longleftrightarrow> p = 0"
    using word_less_Suc [of 2 p] word_less_Suc [of 1 p] by simp_all
  then show ?thesis by blast
qed

lemma tasks_inv_example: "tasks_inv k_example"
proof -
  have "queue_ok k_example" unfolding queue_ok_def views_example by (auto simp: k_example_def split: if_splits)
  moreover have "pids_ok k_example" unfolding pids_ok_def views_example
  proof (intro conjI allI impI)
    have P: "PID_TO_TASK k_example = [(0, 0), (1, 1)]" "PID_ALLOCATOR k_example = \<lparr>pa_current = 3, pa_recycled = []\<rparr>"
      by (simp_all add: k_example_def)
    show "sorted (map fst (PID_TO_TASK k_example))" "distinct (map fst (PID_TO_TASK k_example))" "pid_inv (PID_ALLOCATOR k_example)"
      by (simp_all add: P pid_inv_def)
    show "map_of (PID_TO_TASK k_example) p = Some t \<longleftrightarrow> [0 \<mapsto> 0, 1 \<mapsto> 1, 2 \<mapsto> 2] t = Some p \<and> [0 \<mapsto> Ready, 1 \<mapsto> Running, 2 \<mapsto> Zombie] t \<noteq> Some Zombie"
      for p and t :: nat
      by (cases "t = 0"; cases "t = 1"; cases "t = 2") (auto simp: P)
    show "t = u" if "[0 \<mapsto> 0, 1 \<mapsto> 1, 2 \<mapsto> 2] t = Some p" "[0 \<mapsto> 0, 1 \<mapsto> 1, 2 \<mapsto> 2] u = Some p" for t u :: nat and p :: usize
      using that by (auto split: if_splits)
    show "p \<in> pid_live (PID_ALLOCATOR k_example) \<longleftrightarrow> (\<exists>t :: nat. [0 \<mapsto> 0, 1 \<mapsto> 1, 2 \<mapsto> 2] t = Some p)" for p
    proof -
      have "(\<exists>t :: nat. [0 \<mapsto> 0, 1 \<mapsto> 1, 2 \<mapsto> 2] t = Some p) \<longleftrightarrow> p \<in> ran [0 :: nat \<mapsto> 0, 1 \<mapsto> 1, 2 \<mapsto> 2]" by (simp add: ran_def)
      also have "\<dots> \<longleftrightarrow> p = 0 \<or> p = 1 \<or> p = 2" by auto
      finally show ?thesis by (simp add: P pid_live_def word_less_3)
    qed
  qed
  moreover have "family_ok k_example" unfolding family_ok_def views_example by (auto simp: k_example_def split: if_splits)
  ultimately show ?thesis by (simp add: tasks_inv_def k_example_def)
qed

lemma current_example: "current k_example = Some 1" "tcbs k_example 1 = Some (tcb_example 1 Running [2])" "1 \<noteq> INITPROC k_example"
  by (simp_all add: k_example_def)

theorem sys_waitpid_spec_witness:
  "sys_waitpid 5 0 k_example = Ok (- 1, k_example)
   \<and> sys_waitpid 2 0 k_example =
       and_then (translated_ref_mut (get_user_token inner_example) 0 (mem mm_example1)) (\<lambda>a.
       and_then (drop_tcb 2 (set_mem (store_bytes (mem mm_example1) a [7, 0, 0, 0]) (k_example\<lparr>borrowed := {1}\<rparr>)))
         (\<lambda>k'. Ok (2, release 1 (inner_example\<lparr>task_status := Running, children := [], exit_code := 7\<rparr>) k')))"
proof
  have "nat_le (Suc (Suc (Suc (Suc 0)))) 7 = [7, 0, 0, 0]" "4 = Suc (Suc (Suc (Suc 0)))" by simp_all
  then have "nat_le 4 7 = [7, 0, 0, 0]" by (simp only:)
  then have code: "nat_le 4 (unat (exit_code (inner (tcb_example p status cs)))) = [7, 0, 0, 0]" for p status cs by (simp add: tcb_example_def)
  have parts: "ch k_example 1 ! 0 = 2" "k_mm k_example = mm_example1"
    "get_user_token (inner (tcb_example 1 Running [2])) = get_user_token inner_example" "getpid (tcb_example 2 Zombie []) = 2"
    "without 0 (inner (tcb_example 1 Running [2])) = inner_example\<lparr>task_status := Running, children := [], exit_code := 7\<rparr>"
    by (simp_all add: views_example tcb_example_def getpid_def get_user_token_def without_def) (simp add: k_example_def)
  note w = sys_waitpid_spec [OF tasks_inv_example current_example(1,2)]
  have "\<forall>c \<in> set (ch k_example 1). \<not> waits_for 5 k_example c" by (simp add: views_example waits_for_def ANY_PROCESS_def)
  with w [of 5 0] show "sys_waitpid 5 0 k_example = Ok (- 1, k_example)" by blast
  have "0 < length (ch k_example 1) \<and> reapable 2 k_example (ch k_example 1 ! 0) \<and> (\<forall>j < 0. \<not> reapable 2 k_example (ch k_example 1 ! j))
      \<and> tcbs k_example (ch k_example 1 ! 0) = Some (tcb_example 2 Zombie [])"
    by (simp add: views_example reapable_def waits_for_def) (simp add: k_example_def)
  from w [of 2 0, THEN conjunct2, THEN conjunct2, THEN spec, THEN spec, THEN mp, OF this]
  show "sys_waitpid 2 0 k_example =
       and_then (translated_ref_mut (get_user_token inner_example) 0 (mem mm_example1)) (\<lambda>a.
       and_then (drop_tcb 2 (set_mem (store_bytes (mem mm_example1) a [7, 0, 0, 0]) (k_example\<lparr>borrowed := {1}\<rparr>)))
         (\<lambda>k'. Ok (2, release 1 (inner_example\<lparr>task_status := Running, children := [], exit_code := 7\<rparr>) k')))"
    unfolding code parts .
qed

theorem exit_spec_witness:
  "\<exists>k' tcb'. exit_current_and_run_next 9 k_example = Ok k' \<and> tcbs k' 1 = Some tcb' \<and> exit_code (inner tcb') = 9 \<and> ch k' 0 = [1, 2]"
proof -
  have r: "release_areas (memory_set (inner (tcb_example 1 Running [2]))) (k_mm k_example) = Ok (memory_set inner_example, mm_example1)"
    by (simp add: release_areas_def tcb_example_def inner_example_def k_example_def)
  have i: "INITPROC k_example = 0" by (simp add: k_example_def)
  from exit_spec [OF tasks_inv_example current_example(1,3,2) r, of 9] show ?thesis
    unfolding i views_example by auto
qed

definition k_init :: kernel where
  "k_init = k_example\<lparr>PID_ALLOCATOR := \<lparr>pa_current = 1, pa_recycled = []\<rparr>, tcbs := [0 \<mapsto> tcb_example 0 Running []],
      next_tcb := 1, ready_queue := [], PID_TO_TASK := [(0, 0)], current := Some 0\<rparr>"

lemma tasks_inv_init: "tasks_inv k_init"
proof -
  have v: "st k_init = [0 \<mapsto> Running]" "pd k_init = [0 \<mapsto> 0]" "ch k_init = (\<lambda>_. [])"
    by (auto simp: st_def pd_def ch_def k_init_def tcb_example_def getpid_def fun_eq_iff)
  have "queue_ok k_init" unfolding queue_ok_def v by (auto simp: k_init_def k_example_def split: if_splits)
  moreover have "pids_ok k_init" unfolding pids_ok_def v by (auto simp: k_init_def pid_inv_def pid_live_def split: if_splits)
  moreover have "family_ok k_init" unfolding family_ok_def v by (auto simp: k_init_def k_example_def split: if_splits)
  ultimately show ?thesis by (simp add: tasks_inv_def k_init_def k_example_def)
qed

theorem initproc_exit_panics_witness: "exit_current_and_run_next 0 k_init = Panic AlreadyBorrowed"
  by (rule initproc_exit_panics [OF tasks_inv_init]) (simp add: k_init_def k_example_def)

end
