(* ===== verification/Block_Cache.thy ===== *)
theory Block_Cache
  imports Prelude
begin

text \<open>
  The block device interface and the block cache of easy-fs,
  \<^verbatim>\<open>src/src/easy-fs/src/block_dev.rs\<close> and \<^verbatim>\<open>block_cache.rs\<close>, and the file-backed device of
  \<^verbatim>\<open>src/src/easy-fs-fuse/src/main.rs\<close>. A device is a parameter: a record of the two trait methods
  over a state type. A cached block carries its reference count and whether its mutex is
  held, so that eviction of blocks in use and re-locking are branches of the model.

  Every client uses a block in the form \<^verbatim>\<open>get_block_cache(id, dev).lock().read(off, f)\<close> or
  \<^verbatim>\<open>.modify(off, f)\<close>: the reference and the lock are held while \<open>f\<close> runs, and \<open>f\<close> may use other
  blocks. This is the pair \<open>bc_read\<close>, \<open>bc_modify\<close> below.
\<close>

section \<open>Model\<close>

definition BLOCK_SIZE :: nat where "BLOCK_SIZE = 512"
definition BLOCK_CACHE_SIZE :: nat where "BLOCK_CACHE_SIZE = 16"

record 'd BlockDevice =
  read_block :: "nat \<Rightarrow> 'd \<Rightarrow> u8 list outcome"
  write_block :: "nat \<Rightarrow> u8 list \<Rightarrow> 'd \<Rightarrow> 'd outcome"

record BlockCache =
  cache :: "u8 list"
  bc_block_id :: nat
  modified :: bool
  strong_count :: nat
  locked :: bool

text \<open>The global \<^verbatim>\<open>BLOCK_CACHE_MANAGER\<close> and the device behind it.\<close>

record 'd bc_state =
  queue :: "(nat \<times> BlockCache) list"
  device :: 'd

definition BlockCache_new :: "'d BlockDevice \<Rightarrow> nat \<Rightarrow> 'd \<Rightarrow> BlockCache outcome" where
  "BlockCache_new D block_id d =
     and_then (read_block D block_id d) (\<lambda>b.
       Ok \<lparr>cache = b, bc_block_id = block_id, modified = False, strong_count = 1, locked = False\<rparr>)"

definition BlockCache_sync :: "'d BlockDevice \<Rightarrow> BlockCache \<Rightarrow> 'd \<Rightarrow> (BlockCache \<times> 'd) outcome" where
  "BlockCache_sync D c d =
     (if modified c then
        and_then (write_block D (bc_block_id c) (cache c) d) (\<lambda>d'. Ok (c\<lparr>modified := False\<rparr>, d'))
      else Ok (c, d))"

text \<open>\<^verbatim>\<open>Drop for BlockCache\<close>.\<close>

definition BlockCache_drop :: "'d BlockDevice \<Rightarrow> BlockCache \<Rightarrow> 'd \<Rightarrow> 'd outcome" where
  "BlockCache_drop D c d = and_then (BlockCache_sync D c d) (\<lambda>(_, d'). Ok d')"

text \<open>Removing the first block that only the queue refers to.\<close>

fun evict :: "'d BlockDevice \<Rightarrow> (nat \<times> BlockCache) list \<Rightarrow> 'd \<Rightarrow> ((nat \<times> BlockCache) list \<times> 'd) outcome" where
  "evict D [] d = Panic ExplicitPanic"
| "evict D ((i, c) # q) d =
     (if strong_count c = 1 then and_then (BlockCache_drop D c d) (\<lambda>d'. Ok (q, d'))
      else and_then (evict D q d) (\<lambda>(q', d'). Ok ((i, c) # q', d')))"

definition update_cache :: "nat \<Rightarrow> (BlockCache \<Rightarrow> BlockCache) \<Rightarrow> 'd bc_state \<Rightarrow> 'd bc_state" where
  "update_cache block_id f s = s\<lparr>queue := map (\<lambda>(i, c). (i, if i = block_id then f c else c)) (queue s)\<rparr>"

text \<open>After \<^verbatim>\<open>get_block_cache\<close> the block is in the queue, with one reference more than before.\<close>

definition get_block_cache :: "'d BlockDevice \<Rightarrow> nat \<Rightarrow> 'd bc_state \<Rightarrow> 'd bc_state outcome" where
  "get_block_cache D block_id s =
     (case map_of (queue s) block_id of
        Some c \<Rightarrow> Ok (update_cache block_id (\<lambda>c. c\<lparr>strong_count := strong_count c + 1\<rparr>) s)
      | None \<Rightarrow>
          and_then (assert_that (length (queue s) \<le> BLOCK_CACHE_SIZE)) (\<lambda>_.
          and_then (if length (queue s) = BLOCK_CACHE_SIZE then evict D (queue s) (device s)
                    else Ok (queue s, device s)) (\<lambda>(q, d).
          and_then (BlockCache_new D block_id d) (\<lambda>c.
          Ok \<lparr>queue = q @ [(block_id, c\<lparr>strong_count := strong_count c + 1\<rparr>)], device = d\<rparr>))))"

definition lock_cache :: "nat \<Rightarrow> 'd bc_state \<Rightarrow> 'd bc_state outcome" where
  "lock_cache block_id s =
     and_then (unwrap (map_of (queue s) block_id)) (\<lambda>c.
       if locked c then Panic DeadLock
       else Ok (update_cache block_id (\<lambda>c. c\<lparr>locked := True\<rparr>) s))"

text \<open>The mutex guard and the reference are dropped at the end of the statement.\<close>

definition release_cache :: "nat \<Rightarrow> 'd bc_state \<Rightarrow> 'd bc_state" where
  "release_cache block_id s =
     update_cache block_id (\<lambda>c. c\<lparr>locked := False, strong_count := strong_count c - 1\<rparr>) s"

definition acquire_cache :: "'d BlockDevice \<Rightarrow> nat \<Rightarrow> 'd bc_state \<Rightarrow> 'd bc_state outcome" where
  "acquire_cache D block_id s = and_then (get_block_cache D block_id s) (lock_cache block_id)"

text \<open>
  The bytes of the value of size \<open>sz\<close> at \<open>offset\<close>: \<^verbatim>\<open>get_ref\<close>. The address of the first byte is taken by
  indexing, so that an offset at the end of the block panics even for a value of size 0.
\<close>

definition cache_bytes :: "nat \<Rightarrow> nat \<Rightarrow> nat \<Rightarrow> 'd bc_state \<Rightarrow> u8 list outcome" where
  "cache_bytes block_id offset sz s =
     and_then (assert_that (offset + sz \<le> BLOCK_SIZE)) (\<lambda>_.
     and_then (unwrap (map_of (queue s) block_id)) (\<lambda>c.
     and_then (index (cache c) offset) (\<lambda>_.
     slice (cache c) offset (offset + sz))))"

definition splice :: "nat \<Rightarrow> 'a list \<Rightarrow> 'a list \<Rightarrow> 'a list" where
  "splice offset bs xs = take offset xs @ bs @ drop (offset + length bs) xs"

definition bc_read ::
    "'d BlockDevice \<Rightarrow> nat \<Rightarrow> nat \<Rightarrow> nat \<Rightarrow> (u8 list \<Rightarrow> 'd bc_state \<Rightarrow> ('r \<times> 'd bc_state) outcome)
      \<Rightarrow> 'd bc_state \<Rightarrow> ('r \<times> 'd bc_state) outcome" where
  "bc_read D block_id offset sz f s =
     and_then (acquire_cache D block_id s) (\<lambda>s1.
     and_then (cache_bytes block_id offset sz s1) (\<lambda>bs.
     and_then (f bs s1) (\<lambda>(r, s2).
     Ok (r, release_cache block_id s2))))"

definition bc_modify ::
    "'d BlockDevice \<Rightarrow> nat \<Rightarrow> nat \<Rightarrow> nat \<Rightarrow> (u8 list \<Rightarrow> 'd bc_state \<Rightarrow> ('r \<times> u8 list \<times> 'd bc_state) outcome)
      \<Rightarrow> 'd bc_state \<Rightarrow> ('r \<times> 'd bc_state) outcome" where
  "bc_modify D block_id offset sz f s =
     and_then (acquire_cache D block_id s) (\<lambda>s1.
     and_then (cache_bytes block_id offset sz s1) (\<lambda>bs.
     and_then (f bs (update_cache block_id (\<lambda>c. c\<lparr>modified := True\<rparr>) s1)) (\<lambda>(r, bs', s2).
     Ok (r, release_cache block_id (update_cache block_id (\<lambda>c. c\<lparr>cache := splice offset bs' (cache c)\<rparr>) s2)))))"

fun sync_queue :: "'d BlockDevice \<Rightarrow> (nat \<times> BlockCache) list \<Rightarrow> 'd \<Rightarrow> ((nat \<times> BlockCache) list \<times> 'd) outcome" where
  "sync_queue D [] d = Ok ([], d)"
| "sync_queue D ((i, c) # q) d =
     (if locked c then Panic DeadLock
      else and_then (BlockCache_sync D c d) (\<lambda>(c', d').
           and_then (sync_queue D q d') (\<lambda>(q', d''). Ok ((i, c') # q', d''))))"

definition block_cache_sync_all :: "'d BlockDevice \<Rightarrow> 'd bc_state \<Rightarrow> 'd bc_state outcome" where
  "block_cache_sync_all D s =
     and_then (sync_queue D (queue s) (device s)) (\<lambda>(q, d). Ok \<lparr>queue = q, device = d\<rparr>)"

text \<open>
  \<^verbatim>\<open>BlockFile\<close> of \<^verbatim>\<open>easy-fs-fuse\<close>: a regular file, whose read returns what there is and whose
  write fills a gap with zeros and extends the file.
\<close>

definition BlockFile_read_block :: "nat \<Rightarrow> u8 list \<Rightarrow> u8 list outcome" where
  "BlockFile_read_block block_id file =
     (let buf = take BLOCK_SIZE (drop (block_id * BLOCK_SIZE) file)
      in and_then (assert_that (length buf = BLOCK_SIZE)) (\<lambda>_. Ok buf))"

definition BlockFile_write_block :: "nat \<Rightarrow> u8 list \<Rightarrow> u8 list \<Rightarrow> u8 list outcome" where
  "BlockFile_write_block block_id buf file =
     (let pos = block_id * BLOCK_SIZE; padded = file @ replicate (pos - length file) 0
      in and_then (assert_that (length buf = BLOCK_SIZE)) (\<lambda>_. Ok (splice pos buf padded)))"

definition BlockFile :: "u8 list BlockDevice" where
  "BlockFile = \<lparr>read_block = BlockFile_read_block, write_block = BlockFile_write_block\<rparr>"

section \<open>The contract of a device\<close>

locale block_device =
  fixes D :: "'d BlockDevice" and N :: nat and dev_ok :: "'d \<Rightarrow> bool"
  assumes read_ok: "dev_ok d \<Longrightarrow> i < N \<Longrightarrow> \<exists>b. read_block D i d = Ok b \<and> length b = BLOCK_SIZE"
    and write_ok: "dev_ok d \<Longrightarrow> i < N \<Longrightarrow> length b = BLOCK_SIZE \<Longrightarrow>
      \<exists>d'. write_block D i b d = Ok d' \<and> dev_ok d'
        \<and> (\<forall>j < N. read_block D j d' = (if j = i then Ok b else read_block D j d))"

text \<open>
  What the clients see: the contents of every block, cached or not. The invariant relates
  the cache to the device; \<open>bc_locks\<close> are the blocks in use.
\<close>

definition view :: "'d BlockDevice \<Rightarrow> nat \<Rightarrow> 'd bc_state \<Rightarrow> nat \<Rightarrow> u8 list" where
  "view D N s i =
     (if i < N then
        case map_of (queue s) i of
          Some c \<Rightarrow> cache c
        | None \<Rightarrow> (case read_block D i (device s) of Ok b \<Rightarrow> b | Panic _ \<Rightarrow> [])
      else [])"

definition bc_locks :: "'d bc_state \<Rightarrow> nat set" where
  "bc_locks s = {i. \<exists>c. map_of (queue s) i = Some c \<and> locked c}"

definition bc_dirty :: "'d bc_state \<Rightarrow> nat set" where
  "bc_dirty s = {i. \<exists>c. map_of (queue s) i = Some c \<and> locked c \<and> modified c}"

definition cache_ok :: "'d BlockDevice \<Rightarrow> nat \<Rightarrow> 'd \<Rightarrow> nat \<Rightarrow> BlockCache \<Rightarrow> bool" where
  "cache_ok D N d i c \<longleftrightarrow> bc_block_id c = i \<and> i < N \<and> length (cache c) = BLOCK_SIZE
     \<and> (\<not> modified c \<longrightarrow> read_block D i d = Ok (cache c))
     \<and> strong_count c = (if locked c then 2 else 1)"

definition bc_inv :: "'d BlockDevice \<Rightarrow> nat \<Rightarrow> ('d \<Rightarrow> bool) \<Rightarrow> 'd bc_state \<Rightarrow> bool" where
  "bc_inv D N dev_ok s \<longleftrightarrow>
     dev_ok (device s) \<and> distinct (map fst (queue s)) \<and> length (queue s) \<le> BLOCK_CACHE_SIZE
     \<and> (\<forall>i c. map_of (queue s) i = Some c \<longrightarrow> cache_ok D N (device s) i c)"

text \<open>
  \<open>fs_at s L M w\<close>: a good state in which the blocks \<open>L\<close> are locked, those in \<open>M\<close> for modification, and
  the blocks have the contents \<open>w\<close>.
\<close>

definition fs_at ::
    "'d BlockDevice \<Rightarrow> nat \<Rightarrow> ('d \<Rightarrow> bool) \<Rightarrow> 'd bc_state \<Rightarrow> nat set \<Rightarrow> nat set \<Rightarrow> (nat \<Rightarrow> u8 list) \<Rightarrow> bool" where
  "fs_at D N dev_ok s L M w \<longleftrightarrow>
     bc_inv D N dev_ok s \<and> bc_locks s = L \<and> M \<subseteq> bc_dirty s \<and> view D N s = w"

section \<open>Lemmas on the queue\<close>

declare map_of_eq_Some_iff [simp del]

lemma map_of_update_cache [simp]:
  "map_of (queue (update_cache i f s)) j = map_option (\<lambda>c. if j = i then f c else c) (map_of (queue s) j)"
proof -
  have "map_of (map (\<lambda>(k, c). (k, if k = i then f c else c)) q) j
      = map_option (\<lambda>c. if j = i then f c else c) (map_of q j)" for q
    by (induction q) auto
  then show ?thesis by (simp add: update_cache_def)
qed

lemma update_cache_simps [simp]:
  "device (update_cache i f s) = device s"
  "map fst (queue (update_cache i f s)) = map fst (queue s)"
  "length (queue (update_cache i f s)) = length (queue s)"
  by (auto simp: update_cache_def)

lemma bc_locks_update:
  "bc_locks (update_cache i f s) =
     {j. \<exists>c. map_of (queue s) j = Some c \<and> locked (if j = i then f c else c)}"
  by (auto simp: bc_locks_def)

lemma bc_inv_update:
  assumes "bc_inv D N dev_ok s" "\<And>c. map_of (queue s) i = Some c \<Longrightarrow> cache_ok D N (device s) i (f c)"
  shows "bc_inv D N dev_ok (update_cache i f s)"
proof -
  have "cache_ok D N (device s) j c" if mo: "map_of (queue (update_cache i f s)) j = Some c" for j c
  proof -
    from mo obtain e where e: "map_of (queue s) j = Some e" "c = (if j = i then f e else e)" by auto
    show ?thesis
    proof (cases "j = i")
      case True
      with e assms(2) show ?thesis by simp
    next
      case False
      with e assms(1) show ?thesis by (auto simp: bc_inv_def)
    qed
  qed
  with assms(1) show ?thesis by (auto simp: bc_inv_def)
qed

lemma bc_inv_cache: "bc_inv D N dev_ok s \<Longrightarrow> map_of (queue s) i = Some c \<Longrightarrow> cache_ok D N (device s) i c"
  by (simp add: bc_inv_def)

lemma bc_dirty_update:
  "bc_dirty (update_cache i f s) =
     {j. \<exists>c. map_of (queue s) j = Some c \<and> locked (if j = i then f c else c) \<and> modified (if j = i then f c else c)}"
  by (auto simp: bc_dirty_def)

lemma finite_bc_locks: "finite (bc_locks s)" and card_bc_locks: "card (bc_locks s) \<le> length (queue s)"
proof -
  have sub: "bc_locks s \<subseteq> set (map fst (queue s))"
    by (auto simp: bc_locks_def dest!: map_of_SomeD intro: rev_image_eqI)
  then show "finite (bc_locks s)" by (rule finite_subset) simp
  show "card (bc_locks s) \<le> length (queue s)"
    using card_mono [OF _ sub] card_length [of "map fst (queue s)"] by simp
qed

lemma splice_length: "offset + length bs \<le> length xs \<Longrightarrow> length (splice offset bs xs) = length xs"
  by (simp add: splice_def)

lemma splice_bytes: "offset + length bs \<le> length xs \<Longrightarrow> take (length bs) (drop offset (splice offset bs xs)) = bs"
  by (simp add: splice_def)

lemma splice_all: "length bs = length xs \<Longrightarrow> splice 0 bs xs = bs"
  by (simp add: splice_def)

lemma map_of_append_None: "map_of (xs @ [(i, c)]) j = (case map_of xs j of Some x \<Rightarrow> Some x | None \<Rightarrow> if j = i then Some c else None)"
  by (auto simp: map_add_def split: option.splits)

section \<open>The cache is transparent\<close>

context block_device
begin

lemma sync_ok:
  assumes "dev_ok d" "cache_ok D N d i c"
  shows "\<exists>d'. BlockCache_sync D c d = Ok (c\<lparr>modified := False\<rparr>, d') \<and> dev_ok d'
    \<and> (\<forall>j < N. read_block D j d' = (if j = i then Ok (cache c) else read_block D j d))"
proof (cases "modified c")
  case True
  with assms write_ok [of d i "cache c"] show ?thesis by (auto simp: BlockCache_sync_def cache_ok_def)
next
  case False
  then have "c\<lparr>modified := False\<rparr> = c" by (cases c) simp
  with False assms show ?thesis by (auto simp: BlockCache_sync_def cache_ok_def)
qed

lemma evict_ok:
  assumes "dev_ok d" "distinct (map fst q)" "\<forall>i c. map_of q i = Some c \<longrightarrow> cache_ok D N d i c"
    and "\<exists>i c. map_of q i = Some c \<and> \<not> locked c"
  shows "\<exists>q' d' i0 c0. evict D q d = Ok (q', d') \<and> dev_ok d' \<and> map_of q i0 = Some c0 \<and> \<not> locked c0
    \<and> map_of q' = (map_of q)(i0 := None) \<and> distinct (map fst q') \<and> set (map fst q') \<subseteq> set (map fst q)
    \<and> Suc (length q') = length q
    \<and> (\<forall>j < N. read_block D j d' = (if j = i0 then Ok (cache c0) else read_block D j d))"
  using assms(2-)
proof (induction q)
  case (Cons x q)
  obtain i c where x: "x = (i, c)" by (cases x)
  have ic: "cache_ok D N d i c" using Cons.prems(2) x by auto
  have notin: "map_of q i = None" using Cons.prems(1) x by (simp add: map_of_eq_None_iff)
  show ?case
  proof (cases "locked c")
    case False
    with ic have "strong_count c = 1" by (simp add: cache_ok_def)
    moreover from sync_ok [OF assms(1) ic] obtain d' where "BlockCache_sync D c d = Ok (c\<lparr>modified := False\<rparr>, d')"
      "dev_ok d'" "\<forall>j < N. read_block D j d' = (if j = i then Ok (cache c) else read_block D j d)" by blast
    ultimately show ?thesis
      using Cons.prems(1) False x
      by (intro exI [of _ q] exI [of _ d'] exI [of _ i] exI [of _ c]) (auto simp: BlockCache_drop_def fun_eq_iff notin)
  next
    case True
    have A: "\<forall>j e. map_of q j = Some e \<longrightarrow> cache_ok D N d j e"
      using Cons.prems(2) notin x by (metis map_of_Cons_code(2) option.distinct(1))
    have B: "\<exists>j e. map_of q j = Some e \<and> \<not> locked e"
      using Cons.prems(3) True x by (auto split: if_splits)
    have "distinct (map fst q)" using Cons.prems(1) by simp
    from Cons.IH [OF this A B] obtain q' d' i0 c0 where IH: "evict D q d = Ok (q', d')" "dev_ok d'" "map_of q i0 = Some c0" "\<not> locked c0"
      "map_of q' = (map_of q)(i0 := None)" "distinct (map fst q')" "set (map fst q') \<subseteq> set (map fst q)"
      "Suc (length q') = length q"
      "\<forall>j < N. read_block D j d' = (if j = i0 then Ok (cache c0) else read_block D j d)"
      by blast
    have "strong_count c \<noteq> 1" using ic True by (simp add: cache_ok_def)
    moreover have "i0 \<noteq> i" using IH(3) notin by auto
    moreover have "i \<notin> set (map fst q')" using IH(7) Cons.prems(1) x by auto
    ultimately show ?thesis
      using IH x by (intro exI [of _ "x # q'"] exI [of _ d'] exI [of _ i0] exI [of _ c0]) auto
  qed
qed simp

lemma view_length: "bc_inv D N dev_ok s \<Longrightarrow> i < N \<Longrightarrow> length (view D N s i) = BLOCK_SIZE"
  using read_ok [of "device s" i] by (auto simp: view_def bc_inv_def cache_ok_def split: option.splits)

lemma acquire_hit:
  assumes inv: "bc_inv D N dev_ok s" and c: "map_of (queue s) i = Some c" "\<not> locked c"
  shows "\<exists>s'. acquire_cache D i s = Ok s' \<and> bc_inv D N dev_ok s' \<and> view D N s' = view D N s
    \<and> bc_locks s' = insert i (bc_locks s) \<and> bc_dirty s \<subseteq> bc_dirty s'"
proof -
  let ?s' = "update_cache i (\<lambda>c. c\<lparr>strong_count := strong_count c + 1, locked := True\<rparr>) s"
  have "update_cache i (\<lambda>c. c\<lparr>locked := True\<rparr>) (update_cache i (\<lambda>c. c\<lparr>strong_count := strong_count c + 1\<rparr>) s) = ?s'"
    by (simp add: update_cache_def split_def comp_def)
  then have "acquire_cache D i s = Ok ?s'"
    using c by (simp add: acquire_cache_def get_block_cache_def lock_cache_def)
  moreover have "bc_inv D N dev_ok ?s'"
  proof (rule bc_inv_update [OF inv])
    fix e assume "map_of (queue s) i = Some e"
    with bc_inv_cache [OF inv this] c show "cache_ok D N (device s) i (e\<lparr>strong_count := strong_count e + 1, locked := True\<rparr>)"
      by (simp add: cache_ok_def)
  qed
  moreover have "view D N ?s' = view D N s"
    by (auto simp: view_def fun_eq_iff split: option.splits)
  moreover have "bc_locks ?s' = insert i (bc_locks s)"
    using c unfolding bc_locks_update by (auto simp: bc_locks_def split: if_splits)
  moreover have "bc_dirty s \<subseteq> bc_dirty ?s'"
    unfolding bc_dirty_update by (auto simp: bc_dirty_def)
  ultimately show ?thesis by blast
qed

lemma acquire_miss:
  assumes inv: "bc_inv D N dev_ok s" and miss: "map_of (queue s) i = None" and i: "i < N"
    and room: "card (bc_locks s) < BLOCK_CACHE_SIZE"
  shows "\<exists>s'. acquire_cache D i s = Ok s' \<and> bc_inv D N dev_ok s' \<and> view D N s' = view D N s
    \<and> bc_locks s' = insert i (bc_locks s) \<and> bc_dirty s \<subseteq> bc_dirty s'"
proof -
  have dev: "dev_ok (device s)" "distinct (map fst (queue s))" "length (queue s) \<le> BLOCK_CACHE_SIZE"
    "\<forall>j c. map_of (queue s) j = Some c \<longrightarrow> cache_ok D N (device s) j c"
    using inv by (auto simp: bc_inv_def)
  have "\<exists>q d. (if length (queue s) = BLOCK_CACHE_SIZE then evict D (queue s) (device s) else Ok (queue s, device s)) = Ok (q, d)
    \<and> dev_ok d \<and> distinct (map fst q) \<and> length q < BLOCK_CACHE_SIZE \<and> i \<notin> set (map fst q)
    \<and> (\<forall>j c. map_of q j = Some c \<longrightarrow> map_of (queue s) j = Some c)
    \<and> (\<forall>j c. map_of (queue s) j = Some c \<longrightarrow> map_of q j = None \<longrightarrow> \<not> locked c \<and> read_block D j d = Ok (cache c))
    \<and> (\<forall>j < N. map_of (queue s) j = None \<or> map_of q j \<noteq> None \<longrightarrow> read_block D j d = read_block D j (device s))"
  proof (cases "length (queue s) = BLOCK_CACHE_SIZE")
    case False
    have "i \<notin> set (map fst (queue s))" using miss by (simp add: map_of_eq_None_iff)
    then show ?thesis using False dev by (intro exI [of _ "queue s"] exI [of _ "device s"]) simp
  next
    case True
    have "\<exists>j c. map_of (queue s) j = Some c \<and> \<not> locked c"
    proof (rule ccontr)
      assume "\<nexists>j c. map_of (queue s) j = Some c \<and> \<not> locked c"
      then have "bc_locks s = dom (map_of (queue s))" by (auto simp: bc_locks_def)
      then have "bc_locks s = set (map fst (queue s))" by (simp add: dom_map_of_conv_image_fst)
      then have "card (bc_locks s) = length (queue s)" using dev(2) distinct_card by fastforce
      with room True show False by simp
    qed
    from evict_ok [OF dev(1,2,4) this] obtain q d i0 c0 where ev: "evict D (queue s) (device s) = Ok (q, d)" "dev_ok d"
      "map_of (queue s) i0 = Some c0" "\<not> locked c0" "map_of q = (map_of (queue s))(i0 := None)" "distinct (map fst q)"
      "set (map fst q) \<subseteq> set (map fst (queue s))" "Suc (length q) = length (queue s)"
      "\<forall>j < N. read_block D j d = (if j = i0 then Ok (cache c0) else read_block D j (device s))" by blast
    have "i0 < N" using dev(4) ev(3) by (auto simp: cache_ok_def)
    moreover have "i \<notin> set (map fst q)" using ev(7) miss by (auto simp: map_of_eq_None_iff)
    ultimately show ?thesis
      using ev True by (intro exI [of _ q] exI [of _ d]) (auto split: if_splits)
  qed
  then obtain q d where qd:
    "(if length (queue s) = BLOCK_CACHE_SIZE then evict D (queue s) (device s) else Ok (queue s, device s)) = Ok (q, d)"
    "dev_ok d" "distinct (map fst q)" "length q < BLOCK_CACHE_SIZE" "i \<notin> set (map fst q)"
    "\<forall>j c. map_of q j = Some c \<longrightarrow> map_of (queue s) j = Some c"
    "\<forall>j c. map_of (queue s) j = Some c \<longrightarrow> map_of q j = None \<longrightarrow> \<not> locked c \<and> read_block D j d = Ok (cache c)"
    "\<forall>j < N. map_of (queue s) j = None \<or> map_of q j \<noteq> None \<longrightarrow> read_block D j d = read_block D j (device s)" by blast
  obtain b where b: "read_block D i d = Ok b" "length b = BLOCK_SIZE" using read_ok [OF qd(2) i] by blast
  have b': "read_block D i (device s) = Ok b" using qd(8) i miss b(1) by simp
  define c where "c = \<lparr>cache = b, bc_block_id = i, modified = False, strong_count = 2, locked = True\<rparr>"
  define s' where "s' = \<lparr>queue = q @ [(i, c)], device = d\<rparr>"
  have mo: "map_of (queue s') j = (case map_of q j of Some x \<Rightarrow> Some x | None \<Rightarrow> if j = i then Some c else None)" for j
    by (simp only: s'_def bc_state.select_convs map_of_append_None)
  have qi: "map_of q i = None" using qd(5) by (simp add: map_of_eq_None_iff)
  have "acquire_cache D i s = Ok s'"
  proof -
    let ?c = "\<lparr>cache = b, bc_block_id = i, modified = False, strong_count = 2, locked = False\<rparr>"
    have "get_block_cache D i s = Ok \<lparr>queue = q @ [(i, ?c)], device = d\<rparr>"
      using miss dev(3) qd(1) b(1) by (simp add: get_block_cache_def BlockCache_new_def)
    moreover have "map (\<lambda>(k, c). (k, if k = i then c\<lparr>locked := True\<rparr> else c)) q = q"
      using qd(5) by (intro map_idI) force
    ultimately show ?thesis
      using qi by (simp add: acquire_cache_def lock_cache_def map_add_def update_cache_def s'_def c_def)
  qed
  moreover have "bc_inv D N dev_ok s'"
  proof -
    have "cache_ok D N d j e" if "map_of q j = Some e" for j e
    proof -
      have "cache_ok D N (device s) j e" using that qd(6) dev(4) by blast
      moreover from this have "read_block D j d = read_block D j (device s)"
        using that qd(8) by (auto simp: cache_ok_def)
      ultimately show ?thesis by (simp add: cache_ok_def)
    qed
    moreover have "cache_ok D N d i c" using b i by (simp add: cache_ok_def c_def)
    moreover have "device s' = d" "length (queue s') = Suc (length q)" "map fst (queue s') = map fst q @ [i]"
      by (simp_all add: s'_def)
    ultimately show ?thesis
      using qd(2-5) unfolding bc_inv_def mo by (auto split: option.splits if_splits)
  qed
  moreover have "view D N s' = view D N s"
  proof
    fix j
    show "view D N s' j = view D N s j"
      using miss qi b b' qd(6-8) unfolding view_def mo
      by (cases "map_of q j"; cases "map_of (queue s) j") (auto simp: s'_def c_def)
  qed
  moreover have "bc_locks s' = insert i (bc_locks s)"
    using qd(6,7) qi miss unfolding bc_locks_def mo
    by (auto simp: c_def split: option.splits if_splits)
  moreover have "bc_dirty s \<subseteq> bc_dirty s'"
  proof
    fix j assume "j \<in> bc_dirty s"
    then obtain e where e: "map_of (queue s) j = Some e" "locked e" "modified e" by (auto simp: bc_dirty_def)
    with qd(7) obtain e' where "map_of q j = Some e'" by (cases "map_of q j") auto
    moreover from this qd(6) e(1) have "e' = e" by fastforce
    ultimately show "j \<in> bc_dirty s'" using e unfolding bc_dirty_def mo by simp
  qed
  ultimately show ?thesis by blast
qed

lemma acquire_ok:
  assumes "fs_at D N dev_ok s L M w" "i < N" "i \<notin> L" "card L < BLOCK_CACHE_SIZE"
  shows "\<exists>s'. acquire_cache D i s = Ok s' \<and> fs_at D N dev_ok s' (insert i L) M w"
proof (cases "map_of (queue s) i")
  case None
  with acquire_miss [of s i] assms show ?thesis by (auto simp: fs_at_def)
next
  case (Some c)
  moreover have "\<not> locked c" using assms(1,3) Some by (auto simp: fs_at_def bc_locks_def)
  ultimately show ?thesis using acquire_hit [of s i c] assms by (auto simp: fs_at_def)
qed

lemma cache_bytes_ok:
  assumes "fs_at D N dev_ok s L M w" "i \<in> L" "off + sz \<le> BLOCK_SIZE" "off < BLOCK_SIZE"
  shows "cache_bytes i off sz s = Ok (take sz (drop off (w i)))"
proof -
  from assms obtain c where c: "map_of (queue s) i = Some c" "cache_ok D N (device s) i c"
    by (auto simp: fs_at_def bc_locks_def bc_inv_def)
  then have "w i = cache c" using assms(1) by (auto simp: fs_at_def view_def cache_ok_def)
  with c assms(3,4) show ?thesis by (simp add: cache_bytes_def index_def slice_def cache_ok_def)
qed

lemma release_ok:
  assumes "fs_at D N dev_ok s (insert i L) M w" "i \<notin> L"
  shows "fs_at D N dev_ok (release_cache i s) L (M - {i}) w"
proof -
  from assms(1) have inv: "bc_inv D N dev_ok s" and i: "i \<in> bc_locks s" by (auto simp: fs_at_def)
  have "bc_inv D N dev_ok (release_cache i s)"
    unfolding release_cache_def
  proof (rule bc_inv_update [OF inv])
    fix c assume c: "map_of (queue s) i = Some c"
    with i have "locked c" by (auto simp: bc_locks_def)
    with bc_inv_cache [OF inv c] show "cache_ok D N (device s) i (c\<lparr>locked := False, strong_count := strong_count c - 1\<rparr>)"
      by (simp add: cache_ok_def)
  qed
  moreover have "bc_locks (release_cache i s) = bc_locks s - {i}"
    unfolding release_cache_def bc_locks_update by (auto simp: bc_locks_def split: if_splits)
  moreover have "bc_dirty s - {i} \<subseteq> bc_dirty (release_cache i s)"
    unfolding release_cache_def bc_dirty_update by (auto simp: bc_dirty_def)
  moreover have "view D N (release_cache i s) = view D N s"
    by (auto simp: release_cache_def view_def fun_eq_iff split: option.splits)
  ultimately show ?thesis using assms by (auto simp: fs_at_def)
qed

lemma update_modified:
  assumes "fs_at D N dev_ok s L M w" "i \<in> L"
  shows "fs_at D N dev_ok (update_cache i (\<lambda>c. c\<lparr>modified := True\<rparr>) s) L (insert i M) w"
proof -
  let ?s' = "update_cache i (\<lambda>c. c\<lparr>modified := True\<rparr>) s"
  have inv: "bc_inv D N dev_ok s" using assms by (simp add: fs_at_def)
  have "bc_inv D N dev_ok ?s'"
  proof (rule bc_inv_update [OF inv])
    fix c assume "map_of (queue s) i = Some c"
    from bc_inv_cache [OF inv this] show "cache_ok D N (device s) i (c\<lparr>modified := True\<rparr>)"
      by (simp add: cache_ok_def)
  qed
  moreover have "bc_locks ?s' = bc_locks s"
    unfolding bc_locks_update by (auto simp: bc_locks_def split: if_splits)
  moreover have "insert i M \<subseteq> bc_dirty ?s'"
    using assms unfolding bc_dirty_update by (auto simp: fs_at_def bc_locks_def bc_dirty_def)
  moreover have "view D N ?s' = view D N s"
    by (auto simp: view_def fun_eq_iff split: option.splits)
  ultimately show ?thesis using assms by (simp add: fs_at_def)
qed

lemma update_splice:
  assumes "fs_at D N dev_ok s L M w" "i \<in> M" "off + length bs \<le> BLOCK_SIZE"
  shows "fs_at D N dev_ok (update_cache i (\<lambda>c. c\<lparr>cache := splice off bs (cache c)\<rparr>) s) L M (w(i := splice off bs (w i)))"
proof -
  let ?s' = "update_cache i (\<lambda>c. c\<lparr>cache := splice off bs (cache c)\<rparr>) s"
  from assms have inv: "bc_inv D N dev_ok s" and L: "L = bc_locks s" and w: "w = view D N s" by (auto simp: fs_at_def)
  obtain c where c: "map_of (queue s) i = Some c" "cache_ok D N (device s) i c" "modified c"
    using assms(1,2) bc_inv_cache [OF inv] by (auto simp: fs_at_def bc_dirty_def)
  have "bc_inv D N dev_ok ?s'"
  proof (rule bc_inv_update [OF inv])
    fix e assume e: "map_of (queue s) i = Some e"
    with bc_inv_cache [OF inv e] c assms(3)
    show "cache_ok D N (device s) i (e\<lparr>cache := splice off bs (cache e)\<rparr>)"
      by (simp add: cache_ok_def splice_length)
  qed
  moreover have "bc_locks ?s' = bc_locks s"
    unfolding bc_locks_update by (auto simp: bc_locks_def split: if_splits)
  moreover have "bc_dirty s \<subseteq> bc_dirty ?s'"
    unfolding bc_dirty_update by (auto simp: bc_dirty_def)
  moreover have "view D N ?s' = (view D N s)(i := splice off bs (view D N s i))"
    using c by (auto simp: view_def fun_eq_iff cache_ok_def split: option.splits)
  ultimately show ?thesis using assms(1) by (auto simp: fs_at_def L w)
qed

text \<open>
  The rules for the two client operations: the closure runs with the block locked, and may
  use other blocks.
\<close>

lemma bc_read_rule:
  assumes at: "fs_at D N dev_ok s L M w" and i: "i < N" "i \<notin> L" "i \<notin> M" "card L < BLOCK_CACHE_SIZE"
    and off: "off + sz \<le> BLOCK_SIZE"
    and f: "\<And>s1. fs_at D N dev_ok s1 (insert i L) M w \<Longrightarrow>
      \<exists>s2. f (take sz (drop off (w i))) s1 = Ok (r, s2) \<and> fs_at D N dev_ok s2 (insert i L) M w'"
    and lt: "off < BLOCK_SIZE"
  shows "\<exists>s'. bc_read D i off sz f s = Ok (r, s') \<and> fs_at D N dev_ok s' L M w'"
proof -
  from acquire_ok [OF at i(1,2,4)] obtain s1 where s1: "acquire_cache D i s = Ok s1"
    "fs_at D N dev_ok s1 (insert i L) M w" by blast
  from f [OF s1(2)] obtain s2 where s2: "f (take sz (drop off (w i))) s1 = Ok (r, s2)"
    "fs_at D N dev_ok s2 (insert i L) M w'" by blast
  have "M - {i} = M" using i(3) by simp
  with release_ok [OF s2(2) i(2)] s1(1) s2(1) cache_bytes_ok [OF s1(2) _ off lt] show ?thesis
    by (simp add: bc_read_def)
qed

lemma bc_modify_rule:
  assumes at: "fs_at D N dev_ok s L M w" and i: "i < N" "i \<notin> L" "i \<notin> M" "card L < BLOCK_CACHE_SIZE"
    and off: "off + sz \<le> BLOCK_SIZE" "length bs = sz"
    and f: "\<And>s1. fs_at D N dev_ok s1 (insert i L) (insert i M) w \<Longrightarrow>
      \<exists>s2. f (take sz (drop off (w i))) s1 = Ok (r, bs, s2) \<and> fs_at D N dev_ok s2 (insert i L) (insert i M) w'"
    and lt: "off < BLOCK_SIZE"
  shows "\<exists>s'. bc_modify D i off sz f s = Ok (r, s') \<and> fs_at D N dev_ok s' L M (w'(i := splice off bs (w' i)))"
proof -
  from acquire_ok [OF at i(1,2,4)] obtain s1 where s1: "acquire_cache D i s = Ok s1"
    "fs_at D N dev_ok s1 (insert i L) M w" by blast
  from f [OF update_modified [OF s1(2)]] obtain s2
    where s2: "f (take sz (drop off (w i))) (update_cache i (\<lambda>c. c\<lparr>modified := True\<rparr>) s1) = Ok (r, bs, s2)"
      "fs_at D N dev_ok s2 (insert i L) (insert i M) w'" by auto
  have "off + length bs \<le> BLOCK_SIZE" using off by simp
  from release_ok [OF update_splice [OF s2(2) _ this] i(2)] i(3) s1(1) s2(1) cache_bytes_ok [OF s1(2) _ off(1) lt]
  show ?thesis by (simp add: bc_modify_def)
qed

text \<open>The same rules where the outcome of the closure is only known to satisfy \<open>P\<close>.\<close>

lemma bc_read_ex:
  assumes at: "fs_at D N dev_ok s L M w" and i: "i < N" "i \<notin> L" "i \<notin> M" "card L < BLOCK_CACHE_SIZE"
    and off: "off + sz \<le> BLOCK_SIZE"
    and f: "\<And>s1. fs_at D N dev_ok s1 (insert i L) M w \<Longrightarrow>
      \<exists>r s2. f (take sz (drop off (w i))) s1 = Ok (r, s2) \<and> fs_at D N dev_ok s2 (insert i L) M w \<and> P r"
    and lt: "off < BLOCK_SIZE"
  shows "\<exists>r s'. bc_read D i off sz f s = Ok (r, s') \<and> fs_at D N dev_ok s' L M w \<and> P r"
proof -
  from acquire_ok [OF at i(1,2,4)] obtain s1 where s1: "acquire_cache D i s = Ok s1"
    "fs_at D N dev_ok s1 (insert i L) M w" by blast
  from f [OF s1(2)] obtain r s2 where s2: "f (take sz (drop off (w i))) s1 = Ok (r, s2)"
    "fs_at D N dev_ok s2 (insert i L) M w" "P r" by blast
  have "M - {i} = M" using i(3) by simp
  with release_ok [OF s2(2) i(2)] s1(1) s2(1,3) cache_bytes_ok [OF s1(2) _ off lt] show ?thesis
    by (simp add: bc_read_def)
qed

lemma bc_modify_ex:
  assumes at: "fs_at D N dev_ok s L M w" and i: "i < N" "i \<notin> L" "i \<notin> M" "card L < BLOCK_CACHE_SIZE"
    and off: "off + sz \<le> BLOCK_SIZE"
    and f: "\<And>s1. fs_at D N dev_ok s1 (insert i L) (insert i M) w \<Longrightarrow>
      \<exists>r bs s2 w'. f (take sz (drop off (w i))) s1 = Ok (r, bs, s2) \<and> length bs = sz
        \<and> fs_at D N dev_ok s2 (insert i L) (insert i M) w' \<and> P r bs w'"
    and lt: "off < BLOCK_SIZE"
  shows "\<exists>r bs s' w'. bc_modify D i off sz f s = Ok (r, s') \<and> length bs = sz
    \<and> fs_at D N dev_ok s' L M (w'(i := splice off bs (w' i))) \<and> P r bs w'"
proof -
  from acquire_ok [OF at i(1,2,4)] obtain s1 where s1: "acquire_cache D i s = Ok s1"
    "fs_at D N dev_ok s1 (insert i L) M w" by blast
  from f [OF update_modified [OF s1(2)]] obtain r bs s2 w'
    where s2: "f (take sz (drop off (w i))) (update_cache i (\<lambda>c. c\<lparr>modified := True\<rparr>) s1) = Ok (r, bs, s2)"
      "length bs = sz" "fs_at D N dev_ok s2 (insert i L) (insert i M) w'" "P r bs w'" by auto
  have "off + length bs \<le> BLOCK_SIZE" using off s2(2) by simp
  from release_ok [OF update_splice [OF s2(3) insertI1 this] i(2)] i(3)
  have "fs_at D N dev_ok (release_cache i (update_cache i (\<lambda>c. c\<lparr>cache := splice off bs (cache c)\<rparr>) s2)) L M
      (w'(i := splice off bs (w' i)))" by simp
  moreover have "bc_modify D i off sz f s = Ok (r, release_cache i (update_cache i (\<lambda>c. c\<lparr>cache := splice off bs (cache c)\<rparr>) s2))"
    using s1(1) s2(1) cache_bytes_ok [OF s1(2) insertI1 off lt] by (simp add: bc_modify_def)
  ultimately show ?thesis using s2(2,4) by blast
qed

lemma bc_read_pure:
  assumes "fs_at D N dev_ok s L M w" "i < N" "i \<notin> L" "i \<notin> M" "card L < BLOCK_CACHE_SIZE" "off + sz \<le> BLOCK_SIZE" "off < BLOCK_SIZE"
  shows "\<exists>s'. bc_read D i off sz (\<lambda>bs s. Ok (g bs, s)) s = Ok (g (take sz (drop off (w i))), s') \<and> fs_at D N dev_ok s' L M w"
  by (rule bc_read_rule [OF assms(1-6)]) (use assms(7) in simp_all)

lemma bc_modify_pure:
  assumes "fs_at D N dev_ok s L M w" "i < N" "i \<notin> L" "i \<notin> M" "card L < BLOCK_CACHE_SIZE" "off + sz \<le> BLOCK_SIZE"
    and "length (h (take sz (drop off (w i)))) = sz" "off < BLOCK_SIZE"
  shows "\<exists>s'. bc_modify D i off sz (\<lambda>bs s. Ok (g bs, h bs, s)) s = Ok (g (take sz (drop off (w i))), s')
    \<and> fs_at D N dev_ok s' L M (w(i := splice off (h (take sz (drop off (w i)))) (w i)))"
  by (rule bc_modify_rule [OF assms(1-6)]) (use assms(7,8) in simp_all)

lemma fs_at_length: "fs_at D N dev_ok s L M w \<Longrightarrow> i < N \<Longrightarrow> length (w i) = BLOCK_SIZE"
  using view_length by (auto simp: fs_at_def)

lemma sync_queue_ok:
  assumes "dev_ok d" "distinct (map fst q)" "\<forall>(i, c) \<in> set q. cache_ok D N d i c \<and> \<not> locked c"
  shows "\<exists>d'. sync_queue D q d = Ok (map (\<lambda>(i, c). (i, c\<lparr>modified := False\<rparr>)) q, d') \<and> dev_ok d'
    \<and> (\<forall>j < N. read_block D j d' = (case map_of q j of Some c \<Rightarrow> Ok (cache c) | None \<Rightarrow> read_block D j d))"
  using assms
proof (induction q arbitrary: d)
  case (Cons x q)
  obtain i c where x: "x = (i, c)" by (cases x)
  from Cons.prems x have ic: "cache_ok D N d i c" "\<not> locked c" and notin: "i \<notin> fst ` set q" by auto
  from sync_ok [OF Cons.prems(1) ic(1)] obtain d1 where d1: "BlockCache_sync D c d = Ok (c\<lparr>modified := False\<rparr>, d1)"
    "dev_ok d1" "\<forall>j < N. read_block D j d1 = (if j = i then Ok (cache c) else read_block D j d)" by blast
  have "cache_ok D N d1 j e \<and> \<not> locked e" if "(j, e) \<in> set q" for j e
  proof -
    have "cache_ok D N d j e \<and> \<not> locked e" "j \<noteq> i" using Cons.prems(3) that notin by (auto intro: rev_image_eqI)
    with d1(3) show ?thesis by (auto simp: cache_ok_def)
  qed
  with Cons.IH [OF d1(2)] Cons.prems(2) x obtain d' where
    d': "sync_queue D q d1 = Ok (map (\<lambda>(i, c). (i, c\<lparr>modified := False\<rparr>)) q, d')" "dev_ok d'"
      "\<forall>j < N. read_block D j d' = (case map_of q j of Some c \<Rightarrow> Ok (cache c) | None \<Rightarrow> read_block D j d1)" by auto
  have "map_of q i = None" using notin by (simp add: map_of_eq_None_iff)
  with d1 d' ic x show ?case by (auto split: option.splits)
qed simp

lemma sync_all_ok:
  assumes "fs_at D N dev_ok s {} M w"
  shows "\<exists>s'. block_cache_sync_all D s = Ok s' \<and> fs_at D N dev_ok s' {} {} w
    \<and> (\<forall>j < N. read_block D j (device s') = Ok (w j))"
proof -
  from assms have inv: "bc_inv D N dev_ok s" and locks: "bc_locks s = {}" and w: "w = view D N s" by (auto simp: fs_at_def)
  have dev: "dev_ok (device s)" "distinct (map fst (queue s))" using inv by (simp_all add: bc_inv_def)
  have "\<forall>(i, c) \<in> set (queue s). cache_ok D N (device s) i c \<and> \<not> locked c"
    using inv locks dev(2) by (auto simp: bc_inv_def bc_locks_def map_of_eq_Some_iff)
  from sync_queue_ok [OF dev this] obtain d' where
    d': "sync_queue D (queue s) (device s) = Ok (map (\<lambda>(i, c). (i, c\<lparr>modified := False\<rparr>)) (queue s), d')" "dev_ok d'"
      "\<forall>j < N. read_block D j d' = (case map_of (queue s) j of Some c \<Rightarrow> Ok (cache c) | None \<Rightarrow> read_block D j (device s))"
    by blast
  let ?s' = "\<lparr>queue = map (\<lambda>(i, c). (i, c\<lparr>modified := False\<rparr>)) (queue s), device = d'\<rparr>"
  have mo: "map_of (queue ?s') j = map_option (\<lambda>c. c\<lparr>modified := False\<rparr>) (map_of (queue s) j)" for j
    by (simp add: map_of_map)
  have reads: "read_block D j d' = Ok (w j)" if "j < N" for j
    using d'(3) that read_ok [OF dev(1) that] by (auto simp: w view_def split: option.splits)
  have "bc_inv D N dev_ok ?s'"
  proof -
    have "cache_ok D N d' j e" if e: "map_of (queue ?s') j = Some e" for j e
    proof -
      from e obtain c where c: "map_of (queue s) j = Some c" "e = c\<lparr>modified := False\<rparr>" unfolding mo by auto
      from bc_inv_cache [OF inv c(1)] have ok: "cache_ok D N (device s) j c" .
      with d'(3) c show ?thesis by (auto simp: cache_ok_def)
    qed
    moreover have "distinct (map fst (queue ?s'))" using dev(2) by (simp add: comp_def split_def)
    moreover have "length (queue ?s') \<le> BLOCK_CACHE_SIZE" using inv by (simp add: bc_inv_def)
    ultimately show ?thesis using d'(2) unfolding bc_inv_def by (simp only: bc_state.select_convs) blast
  qed
  moreover have "bc_locks ?s' = {}" using locks unfolding bc_locks_def mo by auto
  moreover have "view D N ?s' = w"
  proof
    fix j show "view D N ?s' j = w j"
      using reads unfolding view_def mo by (auto simp: w view_def split: option.splits)
  qed
  ultimately show ?thesis
    using d'(1) reads by (intro exI [of _ ?s']) (auto simp: block_cache_sync_all_def fs_at_def)
qed

end

section \<open>The file-backed device\<close>

lemma splice_drop_other:
  assumes "pos + length bs \<le> length xs" "a + n \<le> pos \<or> pos + length bs \<le> a"
  shows "take n (drop a (splice pos bs xs)) = take n (drop a xs)"
proof (cases "a + n \<le> pos")
  case True
  then show ?thesis using assms(1) by (intro nth_equalityI) (auto simp: splice_def nth_append)
next
  case False
  then have "pos + length bs \<le> a" using assms(2) by simp
  then show ?thesis using assms(1) by (simp add: splice_def add.commute)
qed

lemma block_range_disjoint:
  "(j::nat) \<noteq> i \<Longrightarrow> j * n + n \<le> i * n \<or> i * n + n \<le> j * n"
proof -
  assume "j \<noteq> i"
  then have "Suc j \<le> i \<or> Suc i \<le> j" by linarith
  then show ?thesis using mult_le_mono1 [of "Suc j" i n] mult_le_mono1 [of "Suc i" j n] by auto
qed

lemma block_in_range: "i < N \<Longrightarrow> N * n \<le> (m::nat) \<Longrightarrow> i * n + n \<le> m"
  using mult_le_mono1 [of "Suc i" N n] by simp

interpretation block_file: block_device BlockFile N "\<lambda>f. N * BLOCK_SIZE \<le> length f" for N
proof
  fix d :: "u8 list" and i
  assume d: "N * BLOCK_SIZE \<le> length d" and i: "i < N"
  have fits: "i * BLOCK_SIZE + BLOCK_SIZE \<le> length d" by (rule block_in_range [OF i d])
  then show "\<exists>b. read_block BlockFile i d = Ok b \<and> length b = BLOCK_SIZE"
    by (simp add: BlockFile_def BlockFile_read_block_def)
  fix b :: "u8 list"
  assume b: "length b = BLOCK_SIZE"
  have same: "take BLOCK_SIZE (drop (i * BLOCK_SIZE) (splice (i * BLOCK_SIZE) b d)) = b"
    using splice_bytes [of "i * BLOCK_SIZE" b d] fits b by simp
  have len: "length (splice (i * BLOCK_SIZE) b d) = length d" using fits b by (simp add: splice_length)
  have other: "take BLOCK_SIZE (drop (j * BLOCK_SIZE) (splice (i * BLOCK_SIZE) b d))
      = take BLOCK_SIZE (drop (j * BLOCK_SIZE) d)" if "j \<noteq> i" for j
    using splice_drop_other [of "i * BLOCK_SIZE" b d "j * BLOCK_SIZE" BLOCK_SIZE]
      block_range_disjoint [OF that, of BLOCK_SIZE] fits b by simp
  have "i * BLOCK_SIZE - length d = 0" using fits by simp
  moreover have "min (length d - i * BLOCK_SIZE) BLOCK_SIZE = BLOCK_SIZE" using fits by simp
  ultimately show "\<exists>d'. write_block BlockFile i b d = Ok d' \<and> N * BLOCK_SIZE \<le> length d'
      \<and> (\<forall>j < N. read_block BlockFile j d' = (if j = i then Ok b else read_block BlockFile j d))"
    using b d len same other by (auto simp: BlockFile_def BlockFile_write_block_def BlockFile_read_block_def)
qed

section \<open>Transparency of the cache\<close>

text \<open>A client's use of the cache, and the same operations on an array of blocks.\<close>

datatype block_op =
    BlockRead nat nat nat
  | BlockModify nat nat "u8 list"
  | SyncAll

fun block_op_ok :: "nat \<Rightarrow> block_op \<Rightarrow> bool" where
  "block_op_ok N (BlockRead i off sz) \<longleftrightarrow> i < N \<and> off < BLOCK_SIZE \<and> off + sz \<le> BLOCK_SIZE"
| "block_op_ok N (BlockModify i off bs) \<longleftrightarrow> i < N \<and> off < BLOCK_SIZE \<and> off + length bs \<le> BLOCK_SIZE"
| "block_op_ok N SyncAll \<longleftrightarrow> True"

fun cache_op :: "'d BlockDevice \<Rightarrow> block_op \<Rightarrow> 'd bc_state \<Rightarrow> (u8 list \<times> 'd bc_state) outcome" where
  "cache_op D (BlockRead i off sz) s = bc_read D i off sz (\<lambda>bs s. Ok (bs, s)) s"
| "cache_op D (BlockModify i off bs) s = bc_modify D i off (length bs) (\<lambda>_ s. Ok ([], bs, s)) s"
| "cache_op D SyncAll s = and_then (block_cache_sync_all D s) (\<lambda>s. Ok ([], s))"

fun array_op :: "block_op \<Rightarrow> (nat \<Rightarrow> u8 list) \<Rightarrow> u8 list \<times> (nat \<Rightarrow> u8 list)" where
  "array_op (BlockRead i off sz) w = (take sz (drop off (w i)), w)"
| "array_op (BlockModify i off bs) w = ([], w(i := splice off bs (w i)))"
| "array_op SyncAll w = ([], w)"

fun cache_ops :: "'d BlockDevice \<Rightarrow> block_op list \<Rightarrow> 'd bc_state \<Rightarrow> (u8 list list \<times> 'd bc_state) outcome" where
  "cache_ops D [] s = Ok ([], s)"
| "cache_ops D (op # ops) s =
     and_then (cache_op D op s) (\<lambda>(r, s). and_then (cache_ops D ops s) (\<lambda>(rs, s). Ok (r # rs, s)))"

fun array_ops :: "block_op list \<Rightarrow> (nat \<Rightarrow> u8 list) \<Rightarrow> u8 list list \<times> (nat \<Rightarrow> u8 list)" where
  "array_ops [] w = ([], w)"
| "array_ops (op # ops) w =
     (let (r, w) = array_op op w; (rs, w) = array_ops ops w in (r # rs, w))"

context block_device
begin

lemma cache_op_ok:
  assumes at: "fs_at D N dev_ok s {} {} w" and op: "block_op_ok N op"
  shows "\<exists>s'. cache_op D op s = Ok (fst (array_op op w), s') \<and> fs_at D N dev_ok s' {} {} (snd (array_op op w))"
proof (cases op)
  case (BlockRead i off sz)
  then show ?thesis
    using bc_read_pure [OF at, of i off sz "\<lambda>bs. bs"] op by (auto simp: BLOCK_CACHE_SIZE_def)
next
  case (BlockModify i off bs)
  then show ?thesis
    using bc_modify_pure [OF at, of i off "length bs" "\<lambda>_. bs" "\<lambda>_. []"] op by (auto simp: BLOCK_CACHE_SIZE_def)
next
  case SyncAll
  then show ?thesis using sync_all_ok [OF at] by auto
qed

lemma cache_ops_ok:
  assumes "fs_at D N dev_ok s {} {} w" "list_all (block_op_ok N) ops"
  shows "\<exists>s'. cache_ops D ops s = Ok (fst (array_ops ops w), s') \<and> fs_at D N dev_ok s' {} {} (snd (array_ops ops w))"
  using assms
proof (induction ops arbitrary: s w)
  case (Cons op ops)
  from Cons.prems cache_op_ok [of s w op] obtain s1 where
    s1: "cache_op D op s = Ok (fst (array_op op w), s1)" "fs_at D N dev_ok s1 {} {} (snd (array_op op w))" by auto
  from Cons.IH [OF s1(2)] Cons.prems(2) s1(1) show ?case
    by (auto simp: Let_def split: prod.splits)
qed auto

lemma empty_cache_at:
  assumes "dev_ok d"
  shows "fs_at D N dev_ok \<lparr>queue = [], device = d\<rparr> {} {} (view D N \<lparr>queue = [], device = d\<rparr>)"
  using assms by (simp add: fs_at_def bc_inv_def bc_locks_def)

end

text \<open>
  C16. The cache is transparent: any sequence of reads, modifications and syncs through it,
  starting with an empty cache, returns without a panic exactly what the same operations
  return on the blocks of the device, whatever was evicted in between; and once
  \<^verbatim>\<open>block_cache_sync_all\<close> has run, every block of the device holds the final contents. The
  device is any one that returns what was last written to a block.
\<close>

theorem block_cache_transparent:
  assumes "block_device D N dev_ok" "dev_ok d" "list_all (block_op_ok N) ops"
    and "\<forall>i < N. read_block D i d = Ok (w i)" "\<forall>i \<ge> N. w i = []"
  shows "\<exists>s' s''. cache_ops D ops \<lparr>queue = [], device = d\<rparr> = Ok (fst (array_ops ops w), s')
    \<and> block_cache_sync_all D s' = Ok s''
    \<and> (\<forall>i < N. read_block D i (device s'') = Ok (snd (array_ops ops w) i))"
proof -
  have w: "view D N \<lparr>queue = [], device = d\<rparr> = w"
    using assms(4,5) by (auto simp: view_def fun_eq_iff)
  from block_device.cache_ops_ok [OF assms(1) block_device.empty_cache_at [OF assms(1,2)] assms(3)]
  obtain s' where s': "cache_ops D ops \<lparr>queue = [], device = d\<rparr> = Ok (fst (array_ops ops w), s')"
    "fs_at D N dev_ok s' {} {} (snd (array_ops ops w))" unfolding w by blast
  with block_device.sync_all_ok [OF assms(1) s'(2)] show ?thesis by blast
qed

definition two_blocks :: "u8 list" where
  "two_blocks = replicate 512 0 @ replicate 512 7"

theorem block_cache_transparent_witness:
  "\<exists>s' s''. cache_ops BlockFile [BlockModify 1 3 [9, 8], BlockRead 1 2 4] \<lparr>queue = [], device = two_blocks\<rparr>
      = Ok ([[], [7, 9, 8, 7]], s')
    \<and> block_cache_sync_all BlockFile s' = Ok s''
    \<and> read_block BlockFile 1 (device s'') = Ok (replicate 3 7 @ [9, 8] @ replicate 507 7)"
proof -
  let ?w = "\<lambda>i::nat. if i = 0 then replicate 512 (0::u8) else if i = 1 then replicate 512 7 else []"
  have dev: "block_device BlockFile 2 (\<lambda>f. 2 * BLOCK_SIZE \<le> length f)" ..
  have rd: "read_block BlockFile 0 two_blocks = Ok (replicate 512 0)" "read_block BlockFile 1 two_blocks = Ok (replicate 512 7)"
    by (simp_all add: BlockFile_def BlockFile_read_block_def BLOCK_SIZE_def two_blocks_def)
  have "read_block BlockFile i two_blocks = Ok (?w i)" if "i < 2" for i
  proof -
    from that have "i = 0 \<or> i = 1" by linarith
    with rd show ?thesis by auto
  qed
  then have reads: "\<forall>i < 2. read_block BlockFile i two_blocks = Ok (?w i)" by blast
  have sp: "splice 3 [9, 8] (replicate 512 (7::u8)) = replicate 3 7 @ [9, 8] @ replicate 507 7"
    by (simp add: splice_def numeral_eq_Suc)
  let ?ops = "[BlockModify 1 3 [9, 8], BlockRead 1 2 4]"
  have res: "fst (array_ops ?ops ?w) = [[], [7, 9, 8, 7]]" "snd (array_ops ?ops ?w) 1 = replicate 3 7 @ [9, 8] @ replicate 507 7"
    using sp by (simp_all add: numeral_eq_Suc)
  have "2 * BLOCK_SIZE \<le> length two_blocks" "list_all (block_op_ok 2) ?ops" "\<forall>i \<ge> 2. ?w i = []"
    by (simp_all add: two_blocks_def BLOCK_SIZE_def)
  from block_cache_transparent [OF dev this(1,2) reads this(3)] obtain s' s''
    where run: "cache_ops BlockFile ?ops \<lparr>queue = [], device = two_blocks\<rparr> = Ok ([[], [7, 9, 8, 7]], s')"
      "block_cache_sync_all BlockFile s' = Ok s''"
      "\<forall>i < 2. read_block BlockFile i (device s'') = Ok (snd (array_ops ?ops ?w) i)"
    unfolding res(1) by blast
  from run(3) have "read_block BlockFile 1 (device s'') = Ok (snd (array_ops ?ops ?w) 1)" by fastforce
  with run(1,2) show ?thesis unfolding res(2) by blast
qed

text \<open>
  Until then a modification need not reach the device: the manager is a static that is never
  dropped, so what no eviction and no \<^verbatim>\<open>block_cache_sync_all\<close> wrote back is lost when the program
  ends.
\<close>

lemma modify_not_durable:
  "\<exists>s'. cache_ops BlockFile [BlockModify 1 0 [1]] \<lparr>queue = [], device = two_blocks\<rparr> = Ok ([[]], s')
    \<and> device s' = two_blocks \<and> read_block BlockFile 1 (device s') = Ok (replicate 512 7)
    \<and> view BlockFile 2 s' 1 = 1 # replicate 511 7"
proof -
  have rd: "read_block BlockFile 1 two_blocks = Ok (replicate 512 7)"
    by (simp add: BlockFile_def BlockFile_read_block_def BLOCK_SIZE_def two_blocks_def)
  then have rd': "read_block BlockFile (Suc 0) two_blocks = Ok (replicate 512 7)" by simp
  have "splice 0 [1] (replicate 512 (7::u8)) = 1 # replicate 511 7"
    by (simp add: splice_def)
  then show ?thesis
    using rd rd' by (simp add: bc_modify_def acquire_cache_def get_block_cache_def lock_cache_def BLOCK_CACHE_SIZE_def
        BLOCK_SIZE_def BlockCache_new_def update_cache_def release_cache_def cache_bytes_def slice_def view_def)
qed

end
