(* ===== verification/Bitmap.thy ===== *)
theory Bitmap
  imports Block_Cache Id_Allocator
begin

text \<open>
  The on-disk bitmaps of easy-fs, \<^verbatim>\<open>src/src/easy-fs/src/bitmap.rs\<close>: allocation of the lowest clear
  bit, deallocation, and the decomposition of a bit number. Block numbers and bit numbers
  are \<^verbatim>\<open>usize\<close> values derived from \<^verbatim>\<open>u32\<close> counts and stay far below the width.

  \<open>bm_alloc\<close> and \<open>bm_dealloc\<close> are the same operations on plain blocks; the operations on the cache
  refine them, and they are an allocator in the sense of \<open>Id_Allocator\<close>.
\<close>

section \<open>Model\<close>

definition BLOCK_BITS :: nat where "BLOCK_BITS = BLOCK_SIZE * 8"
definition BITMAP_SIZE :: nat where "BITMAP_SIZE = 64"
definition BITMAP_BLOCK_SIZE :: nat where "BITMAP_BLOCK_SIZE = 64"

record Bitmap =
  start_block_id :: nat
  blocks :: nat

definition Bitmap_new :: "nat \<Rightarrow> nat \<Rightarrow> Bitmap" where
  "Bitmap_new start n = \<lparr>start_block_id = start, blocks = n\<rparr>"

definition trailing_ones :: "u64 \<Rightarrow> nat" where
  "trailing_ones b = length (takeWhile (bit b) [0..<64])"

text \<open>The search of the closure of \<^verbatim>\<open>alloc\<close>.\<close>

fun find_bitmap :: "nat \<Rightarrow> u64 list \<Rightarrow> (nat \<times> nat) option" where
  "find_bitmap pos [] = None"
| "find_bitmap pos (b # bs) =
     (if b \<noteq> -1 then Some (pos, trailing_ones b) else find_bitmap (Suc pos) bs)"

definition alloc_in_block :: "nat \<Rightarrow> u64 list \<Rightarrow> nat option \<times> u64 list" where
  "alloc_in_block bitmap_block_id bitmap_block =
     (case find_bitmap 0 bitmap_block of
        Some (pos, inner_pos) \<Rightarrow>
          (Some (bitmap_block_id * BLOCK_BITS + pos * BITMAP_SIZE + inner_pos),
           bitmap_block[pos := bitmap_block ! pos OR push_bit inner_pos 1])
      | None \<Rightarrow> (None, bitmap_block))"

fun Bitmap_alloc_loop ::
    "'d BlockDevice \<Rightarrow> Bitmap \<Rightarrow> nat \<Rightarrow> nat \<Rightarrow> 'd bc_state \<Rightarrow> (nat option \<times> 'd bc_state) outcome" where
  "Bitmap_alloc_loop D bm bitmap_block_id 0 s = Ok (None, s)"
| "Bitmap_alloc_loop D bm bitmap_block_id (Suc n) s =
     and_then (bc_modify D (start_block_id bm + bitmap_block_id) 0 BLOCK_SIZE (\<lambda>bs s.
         let (r, ws) = alloc_in_block bitmap_block_id (le_words 8 bs) in Ok (r, words_le 8 ws, s)) s)
       (\<lambda>(r, s). if r \<noteq> None then Ok (r, s) else Bitmap_alloc_loop D bm (Suc bitmap_block_id) n s)"

definition Bitmap_alloc :: "'d BlockDevice \<Rightarrow> Bitmap \<Rightarrow> 'd bc_state \<Rightarrow> (nat option \<times> 'd bc_state) outcome" where
  "Bitmap_alloc D bm s = Bitmap_alloc_loop D bm 0 (blocks bm) s"

definition decomposition :: "nat \<Rightarrow> nat \<times> nat \<times> nat" where
  "decomposition k = (k div BLOCK_BITS, (k mod BLOCK_BITS) div 64, (k mod BLOCK_BITS) mod 64)"

definition dealloc_in_block :: "nat \<Rightarrow> nat \<Rightarrow> u64 list \<Rightarrow> u64 list outcome" where
  "dealloc_in_block bitmap_pos bit_pos bitmap_block =
     and_then (index bitmap_block bitmap_pos) (\<lambda>b.
     and_then (assert_that (0 < b AND push_bit bit_pos 1)) (\<lambda>_.
     Ok (bitmap_block[bitmap_pos := b - push_bit bit_pos 1])))"

definition Bitmap_dealloc :: "'d BlockDevice \<Rightarrow> Bitmap \<Rightarrow> nat \<Rightarrow> 'd bc_state \<Rightarrow> (unit \<times> 'd bc_state) outcome" where
  "Bitmap_dealloc D bm k s =
     (let (block_id, bitmap_pos, bit_pos) = decomposition k
      in bc_modify D (block_id + start_block_id bm) 0 BLOCK_SIZE (\<lambda>bs s.
           and_then (dealloc_in_block bitmap_pos bit_pos (le_words 8 bs)) (\<lambda>ws. Ok ((), words_le 8 ws, s))) s)"

definition Bitmap_maximum :: "Bitmap \<Rightarrow> nat" where
  "Bitmap_maximum bm = blocks bm * BLOCK_BITS"

section \<open>Reference operations on blocks\<close>

type_synonym disk = "nat \<Rightarrow> u8 list"

definition bitmap_block :: "disk \<Rightarrow> nat \<Rightarrow> u64 list" where
  "bitmap_block w i = le_words 8 (w i)"

definition bm_bit :: "disk \<Rightarrow> Bitmap \<Rightarrow> nat \<Rightarrow> bool" where
  "bm_bit w bm k =
     (let (block_id, bitmap_pos, bit_pos) = decomposition k
      in bit (bitmap_block w (start_block_id bm + block_id) ! bitmap_pos) bit_pos)"

definition bm_bits :: "Bitmap \<Rightarrow> disk \<Rightarrow> nat set" where
  "bm_bits bm w = {k. k < Bitmap_maximum bm \<and> bm_bit w bm k}"

definition bm_blocks :: "Bitmap \<Rightarrow> nat set" where
  "bm_blocks bm = {start_block_id bm..<start_block_id bm + blocks bm}"

definition bm_ok :: "Bitmap \<Rightarrow> disk \<Rightarrow> bool" where
  "bm_ok bm w \<longleftrightarrow> (\<forall>i \<in> bm_blocks bm. length (w i) = BLOCK_SIZE)"

fun bm_alloc_loop :: "Bitmap \<Rightarrow> nat \<Rightarrow> nat \<Rightarrow> disk \<Rightarrow> nat option \<times> disk" where
  "bm_alloc_loop bm b 0 w = (None, w)"
| "bm_alloc_loop bm b (Suc n) w =
     (let i = start_block_id bm + b; (r, ws) = alloc_in_block b (bitmap_block w i)
      in if r \<noteq> None then (r, w(i := words_le 8 ws)) else bm_alloc_loop bm (Suc b) n w)"

definition bm_alloc :: "Bitmap \<Rightarrow> disk \<Rightarrow> nat option \<times> disk" where
  "bm_alloc bm w = bm_alloc_loop bm 0 (blocks bm) w"

definition bm_dealloc :: "Bitmap \<Rightarrow> nat \<Rightarrow> disk \<Rightarrow> disk outcome" where
  "bm_dealloc bm k w =
     (let (b, bitmap_pos, bit_pos) = decomposition k; i = b + start_block_id bm
      in and_then (dealloc_in_block bitmap_pos bit_pos (bitmap_block w i)) (\<lambda>ws. Ok (w(i := words_le 8 ws))))"

section \<open>Lemmas on one block\<close>

lemma trailing_ones_spec:
  assumes "b \<noteq> -1"
  shows "trailing_ones b < 64" "\<not> bit b (trailing_ones b)" "j < trailing_ones b \<Longrightarrow> bit b j"
proof -
  let ?n = "length (takeWhile (bit b) [0..<64])"
  have "\<exists>k < 64. \<not> bit b k"
  proof (rule ccontr)
    assume "\<not> ?thesis"
    then have "b = -1" by (intro bit_word_eqI) simp
    with assms show False by simp
  qed
  then have "takeWhile (bit b) [0..<64] \<noteq> [0..<64]" by (auto simp: takeWhile_eq_all_conv)
  then have less: "?n < length [0..<64]"
    by (metis length_takeWhile_le linorder_neqE_nat not_le takeWhile_eq_take take_all_iff)
  then show "trailing_ones b < 64" by (simp add: trailing_ones_def)
  from nth_length_takeWhile [OF less] less show "\<not> bit b (trailing_ones b)" by (simp add: trailing_ones_def)
  assume j: "j < trailing_ones b"
  then have "takeWhile (bit b) [0..<64] ! j \<in> set (takeWhile (bit b) [0..<64])"
    by (intro nth_mem) (simp add: trailing_ones_def)
  then have "bit b (takeWhile (bit b) [0..<64] ! j)" by (auto dest: set_takeWhileD)
  with j less show "bit b j" by (simp add: trailing_ones_def takeWhile_nth)
qed

lemma find_bitmap_None: "find_bitmap p bs = None \<longleftrightarrow> (\<forall>b \<in> set bs. b = -1)"
  by (induction bs arbitrary: p) auto

lemma find_bitmap_Some:
  assumes "find_bitmap p bs = Some (pos, ip)"
  shows "p \<le> pos \<and> pos - p < length bs \<and> bs ! (pos - p) \<noteq> -1 \<and> ip = trailing_ones (bs ! (pos - p))
    \<and> (\<forall>j < pos - p. bs ! j = -1)"
  using assms
proof (induction bs arbitrary: p)
  case (Cons b bs)
  show ?case
  proof (cases "b = -1")
    case True
    with Cons have IH: "Suc p \<le> pos" "pos - Suc p < length bs" "bs ! (pos - Suc p) \<noteq> -1"
      "ip = trailing_ones (bs ! (pos - Suc p))" "\<forall>j < pos - Suc p. bs ! j = -1" by auto
    then have "pos - p = Suc (pos - Suc p)" by simp
    with IH True show ?thesis by (auto simp: nth_Cons split: nat.splits)
  qed (use Cons.prems in auto)
qed simp

lemma bit_push_1: "bit (push_bit p (1 :: u64)) n \<longleftrightarrow> n = p \<and> p < 64"
  unfolding bit_push_bit_iff bit_1_iff by auto

lemma and_push_bit_pos: "0 < (b :: u64) AND push_bit p 1 \<longleftrightarrow> p < 64 \<and> bit b p"
proof -
  have "bit (b AND push_bit p 1) p \<longleftrightarrow> p < 64 \<and> bit b p"
    unfolding bit_and_iff bit_push_1 by auto
  moreover have "b AND push_bit p 1 = 0" if "\<not> bit (b AND push_bit p 1) p"
    using that unfolding bit_and_iff bit_push_1
    by (intro bit_word_eqI) (unfold bit_and_iff bit_push_1, auto)
  moreover have "b AND push_bit p 1 \<noteq> 0" if "bit (b AND push_bit p 1) p"
    using that by (metis bit_0_eq bot_apply bot_bool_def)
  ultimately show ?thesis by (metis word_gt_0)
qed

lemma minus_push_bit:
  fixes b :: u64
  assumes "bit b p"
  shows "b - push_bit p 1 = unset_bit p b"
proof -
  have p: "p < 64" using assms bit_imp_le_length by fastforce
  have "b = unset_bit p b OR push_bit p 1"
    using assms p by (intro bit_word_eqI) (unfold bit_or_iff bit_unset_bit_iff bit_push_1, auto)
  also have "\<dots> = unset_bit p b + push_bit p 1"
    by (rule disjunctive_add [symmetric]) (unfold bit_unset_bit_iff bit_push_1, auto)
  finally show ?thesis by (metis add_diff_cancel_right')
qed

definition blk_bit :: "u64 list \<Rightarrow> nat \<Rightarrow> bool" where
  "blk_bit ws k = bit (ws ! (k div 64)) (k mod 64)"

lemma bit_ones: "p < 64 \<Longrightarrow> bit (-1 :: u64) p"
  by simp

lemma div_mod_64: "(q * 64 + r) div 64 = q" "(q * 64 + r) mod 64 = r" if "r < 64" for q r :: nat
  using that by simp_all

lemma alloc_in_block_None:
  assumes "alloc_in_block b ws = (None, ws')" "length ws = 64"
  shows "ws' = ws \<and> (\<forall>j < 4096. blk_bit ws j)"
proof -
  from assms(1) have "find_bitmap 0 ws = None" "ws' = ws"
    by (auto simp: alloc_in_block_def split: option.splits)
  moreover have "ws ! (j div 64) = -1" if "j < 4096" for j
    using calculation(1) that assms(2) by (simp add: find_bitmap_None)
  ultimately show ?thesis by (simp add: blk_bit_def)
qed

lemma alloc_in_block_Some:
  assumes "alloc_in_block b ws = (Some x, ws')" "length ws = 64"
  shows "\<exists>k < 4096. x = b * 4096 + k \<and> \<not> blk_bit ws k \<and> (\<forall>j < k. blk_bit ws j) \<and> length ws' = 64
    \<and> (\<forall>j < 4096. blk_bit ws' j \<longleftrightarrow> j = k \<or> blk_bit ws j)"
proof -
  from assms(1) obtain pos ip where f: "find_bitmap 0 ws = Some (pos, ip)"
    and x: "x = b * 4096 + pos * 64 + ip" and ws': "ws' = ws[pos := ws ! pos OR push_bit ip 1]"
    by (auto simp: alloc_in_block_def BLOCK_BITS_def BLOCK_SIZE_def BITMAP_SIZE_def split: option.splits)
  from find_bitmap_Some [OF f] assms(2) have pos: "pos < 64" "ws ! pos \<noteq> -1" "ip = trailing_ones (ws ! pos)"
    "\<forall>j < pos. ws ! j = -1" by auto
  note ip = trailing_ones_spec [OF pos(2), folded pos(3)]
  let ?k = "pos * 64 + ip"
  have "?k < 4096" using pos(1) ip(1) by simp
  moreover have "\<not> blk_bit ws ?k" using ip(1,2) by (simp add: blk_bit_def div_mod_64)
  moreover have "blk_bit ws j" if "j < ?k" for j
  proof (cases "j div 64 < pos")
    case True
    then show ?thesis using pos(4) by (simp add: blk_bit_def)
  next
    case False
    then have "j div 64 = pos" using that ip(1) by linarith
    moreover from this have "j mod 64 < ip" using that div_mult_mod_eq [of j 64] by simp
    ultimately show ?thesis using ip(3) by (simp add: blk_bit_def)
  qed
  moreover have "blk_bit ws' j \<longleftrightarrow> j = ?k \<or> blk_bit ws j" if "j < 4096" for j
  proof (cases "j div 64 = pos")
    case True
    then have "j = ?k \<longleftrightarrow> j mod 64 = ip" using ip(1) by (metis div_mod_64(2) div_mult_mod_eq)
    with True show ?thesis
      using pos(1) assms(2) ip(1) unfolding blk_bit_def ws' by (simp only: nth_list_update_eq bit_or_iff bit_push_1) auto
  next
    case False
    then have "j \<noteq> ?k" using ip(1) by (auto simp: div_mod_64)
    with False show ?thesis by (simp add: blk_bit_def ws')
  qed
  ultimately show ?thesis using x assms(2) ws' by (intro exI [of _ ?k]) simp
qed

lemma dealloc_in_block_eq:
  assumes "length ws = 64" "k < 4096"
  shows "dealloc_in_block (k div 64) (k mod 64) ws =
    (if blk_bit ws k then Ok (ws[k div 64 := unset_bit (k mod 64) (ws ! (k div 64))]) else Panic AssertFailed)"
  using assms by (simp add: dealloc_in_block_def blk_bit_def and_push_bit_pos minus_push_bit del: push_bit_of_1 push_bit_eq_0_iff)

lemma blk_bit_unset:
  assumes "length ws = 64" "k < 4096" "j < 4096"
  shows "blk_bit (ws[k div 64 := unset_bit (k mod 64) (ws ! (k div 64))]) j \<longleftrightarrow> j \<noteq> k \<and> blk_bit ws j"
proof (cases "j div 64 = k div 64")
  case True
  then have "j = k \<longleftrightarrow> j mod 64 = k mod 64" by (metis div_mult_mod_eq)
  with True assms show ?thesis by (auto simp: blk_bit_def bit_unset_bit_iff)
qed (use assms in \<open>auto simp: blk_bit_def\<close>)

section \<open>The bitmap as an allocator\<close>

lemma bm_bit_blk: "j < 4096 \<Longrightarrow> bm_bit w bm (b * 4096 + j) = blk_bit (bitmap_block w (start_block_id bm + b)) j"
  by (simp add: bm_bit_def decomposition_def blk_bit_def BLOCK_BITS_def BLOCK_SIZE_def)

lemma bm_bit_div_mod: "bm_bit w bm k = blk_bit (bitmap_block w (start_block_id bm + k div 4096)) (k mod 4096)"
  using bm_bit_blk [of "k mod 4096" w bm "k div 4096"] by simp

lemma bm_ok_block: "bm_ok bm w \<Longrightarrow> b < blocks bm \<Longrightarrow> length (bitmap_block w (start_block_id bm + b)) = 64"
  by (simp add: bm_ok_def bm_blocks_def bitmap_block_def BLOCK_SIZE_def)

lemma bitmap_block_update: "bitmap_block (w(i := words_le 8 ws)) j = (if j = i then ws else bitmap_block w j)"
  by (simp add: bitmap_block_def le_words_words_le)

lemma Bitmap_maximum_eq: "Bitmap_maximum bm = blocks bm * 4096"
  by (simp add: Bitmap_maximum_def BLOCK_BITS_def BLOCK_SIZE_def)

lemma bm_alloc_loop_spec:
  assumes "bm_ok bm w" "b + n \<le> blocks bm" "\<forall>j < b * 4096. bm_bit w bm j" "bm_alloc_loop bm b n w = (r, w')"
  shows "case r of
      None \<Rightarrow> w' = w \<and> (\<forall>j < (b + n) * 4096. bm_bit w bm j)
    | Some k \<Rightarrow> k < (b + n) * 4096 \<and> \<not> bm_bit w bm k \<and> (\<forall>j < k. bm_bit w bm j) \<and> bm_ok bm w'
        \<and> (\<forall>j. bm_bit w' bm j \<longleftrightarrow> j = k \<or> bm_bit w bm j) \<and> (\<forall>i. i \<notin> bm_blocks bm \<longrightarrow> w' i = w i)"
  using assms
proof (induction n arbitrary: b)
  case (Suc n)
  let ?i = "start_block_id bm + b"
  obtain q ws where al: "alloc_in_block b (bitmap_block w ?i) = (q, ws)" by (cases "alloc_in_block b (bitmap_block w ?i)")
  have len: "length (bitmap_block w ?i) = 64" using Suc.prems by (intro bm_ok_block) auto
  show ?case
  proof (cases q)
    case None
    with alloc_in_block_None [OF _ len] al have full: "\<forall>j < 4096. blk_bit (bitmap_block w ?i) j" by blast
    have "bm_bit w bm j" if "j < Suc b * 4096" for j
    proof (cases "j < b * 4096")
      case False
      then have "j div 4096 = b" using that by (intro div_nat_eqI) simp_all
      with full show ?thesis by (simp add: bm_bit_div_mod)
    qed (use Suc.prems in blast)
    with Suc.IH [of "Suc b"] Suc.prems None al show ?thesis by (auto split: option.splits)
  next
    case (Some x)
    with alloc_in_block_Some [OF _ len] al obtain k where k: "k < 4096" "x = b * 4096 + k"
      "\<not> blk_bit (bitmap_block w ?i) k" "\<forall>j < k. blk_bit (bitmap_block w ?i) j" "length ws = 64"
      "\<forall>j < 4096. blk_bit ws j \<longleftrightarrow> j = k \<or> blk_bit (bitmap_block w ?i) j" by blast
    from Suc.prems(4) al Some have r: "r = Some x" and w': "w' = w(?i := words_le 8 ws)" by auto
    have "bm_bit w bm j" if "j < x" for j
    proof (cases "j < b * 4096")
      case False
      then have "j = b * 4096 + (j - b * 4096)" "j - b * 4096 < k" using that k(2) by simp_all
      with k(1,4) bm_bit_blk [of "j - b * 4096" w bm b] show ?thesis by simp
    qed (use Suc.prems in blast)
    moreover have "bm_bit w' bm j \<longleftrightarrow> j = x \<or> bm_bit w bm j" for j
    proof (cases "j div 4096 = b")
      case True
      then have "j = b * 4096 + j mod 4096" using div_mult_mod_eq [of j 4096] by simp
      then have "j = x \<longleftrightarrow> j mod 4096 = k" unfolding k(2) by linarith
      with True k(6) show ?thesis by (simp add: bm_bit_div_mod w' bitmap_block_update)
    next
      case False
      then have "j \<noteq> x" using k(1,2) by auto
      with False show ?thesis by (simp add: bm_bit_div_mod w' bitmap_block_update)
    qed
    moreover have "?i \<in> bm_blocks bm" using Suc.prems(2) by (simp add: bm_blocks_def)
    moreover have "bm_ok bm w'" using Suc.prems(1) k(5) by (simp add: bm_ok_def w' BLOCK_SIZE_def)
    moreover have "\<not> bm_bit w bm x" using k(1-3) bm_bit_blk by simp
    ultimately show ?thesis using k(1,2) r by (auto simp: w')
  qed
qed auto

lemma bm_alloc_spec:
  assumes "bm_ok bm w" "bm_alloc bm w = (r, w')"
  shows "case r of
      None \<Rightarrow> w' = w \<and> bm_bits bm w = {..<Bitmap_maximum bm}
    | Some k \<Rightarrow> k < Bitmap_maximum bm \<and> k \<notin> bm_bits bm w \<and> {..<k} \<subseteq> bm_bits bm w \<and> bm_ok bm w'
        \<and> bm_bits bm w' = insert k (bm_bits bm w) \<and> (\<forall>i. i \<notin> bm_blocks bm \<longrightarrow> w' i = w i)"
  using bm_alloc_loop_spec [of bm w 0 "blocks bm" r w'] assms
  by (auto simp: bm_alloc_def bm_bits_def Bitmap_maximum_eq split: option.splits)

lemma bm_dealloc_spec:
  assumes ok: "bm_ok bm w" and k: "k < Bitmap_maximum bm"
  shows "if k \<in> bm_bits bm w
    then \<exists>w'. bm_dealloc bm k w = Ok w' \<and> bm_bits bm w' = bm_bits bm w - {k} \<and> bm_ok bm w'
      \<and> (\<forall>i. i \<notin> bm_blocks bm \<longrightarrow> w' i = w i)
    else bm_dealloc bm k w = Panic AssertFailed"
proof -
  let ?b = "k div 4096" and ?k = "k mod 4096"
  let ?i = "start_block_id bm + ?b"
  let ?ws = "bitmap_block w ?i"
  let ?ws' = "?ws[?k div 64 := unset_bit (?k mod 64) (?ws ! (?k div 64))]"
  have b: "?b < blocks bm" using k by (simp add: Bitmap_maximum_eq less_mult_imp_div_less)
  have len: "length ?ws = 64" by (rule bm_ok_block [OF ok b])
  have eq: "bm_dealloc bm k w = (if bm_bit w bm k then Ok (w(?i := words_le 8 ?ws')) else Panic AssertFailed)"
    using dealloc_in_block_eq [OF len, of ?k]
    by (simp add: bm_dealloc_def decomposition_def BLOCK_BITS_def BLOCK_SIZE_def bm_bit_div_mod add.commute Let_def)
  have "bm_bit (w(?i := words_le 8 ?ws')) bm j \<longleftrightarrow> j \<noteq> k \<and> bm_bit w bm j" for j
  proof (cases "j div 4096 = ?b")
    case True
    then have "j = k \<longleftrightarrow> j mod 4096 = ?k" by (metis div_mult_mod_eq)
    with True blk_bit_unset [OF len, of ?k "j mod 4096"] show ?thesis by (simp add: bm_bit_div_mod bitmap_block_update)
  qed (auto simp: bm_bit_div_mod bitmap_block_update)
  moreover have "?i \<in> bm_blocks bm" using b by (simp add: bm_blocks_def)
  moreover have "bm_ok bm (w(?i := words_le 8 ?ws'))" using ok len by (simp add: bm_ok_def BLOCK_SIZE_def)
  ultimately show ?thesis using k by (auto simp: eq bm_bits_def)
qed

interpretation bitmap: bounded_allocator "bm_alloc bm" "bm_dealloc bm" "bm_bits bm" "bm_ok bm" "\<lambda>_. True"
    "{..<Bitmap_maximum bm}" for bm
proof
  fix w w' k
  assume ok: "bm_ok bm w"
  show "k \<notin> bm_bits bm w \<and> bm_bits bm w' = insert k (bm_bits bm w) \<and> bm_ok bm w'" if "bm_alloc bm w = (Some k, w')"
    using bm_alloc_spec [OF ok that] by simp
  show "w' = w" if "bm_alloc bm w = (None, w')"
    using bm_alloc_spec [OF ok that] by simp
  show "\<exists>w'. bm_dealloc bm k w = Ok w' \<and> bm_bits bm w' = bm_bits bm w - {k} \<and> bm_ok bm w'" if "k \<in> bm_bits bm w"
    using bm_dealloc_spec [OF ok, of k] that by (auto simp: bm_bits_def)
  show "bm_bits bm w \<subseteq> {..<Bitmap_maximum bm}" by (auto simp: bm_bits_def)
  show "fst (bm_alloc bm w) = None \<longleftrightarrow> bm_bits bm w = {..<Bitmap_maximum bm}"
    using bm_alloc_spec [OF ok, of "fst (bm_alloc bm w)" "snd (bm_alloc bm w)"] by (auto split: option.splits)
qed simp_all

section \<open>The operations on the cache refine them\<close>

context block_device
begin

lemma Bitmap_alloc_loop_at:
  assumes "fs_at D N dev_ok s L M w" "M \<subseteq> L" "card L < BLOCK_CACHE_SIZE" "bm_blocks bm \<inter> L = {}" "bm_blocks bm \<subseteq> {..<N}"
    "b + n \<le> blocks bm"
  shows "\<exists>s'. Bitmap_alloc_loop D bm b n s = Ok (fst (bm_alloc_loop bm b n w), s')
    \<and> fs_at D N dev_ok s' L M (snd (bm_alloc_loop bm b n w))"
  using assms
proof (induction n arbitrary: b s)
  case (Suc n)
  let ?i = "start_block_id bm + b"
  have mem: "?i \<in> bm_blocks bm" using Suc.prems by (simp add: bm_blocks_def)
  with Suc.prems have i: "?i < N" "?i \<notin> L" "?i \<notin> M" by auto
  have len: "length (w ?i) = 512" using fs_at_length [OF Suc.prems(1) i(1)] by (simp add: BLOCK_SIZE_def)
  obtain r ws where al: "alloc_in_block b (bitmap_block w ?i) = (r, ws)" by (cases "alloc_in_block b (bitmap_block w ?i)")
  have len64: "length (bitmap_block w ?i) = 64" using len by (simp add: bitmap_block_def)
  have lws: "length ws = 64"
    using alloc_in_block_None [of b _ ws, OF _ len64] alloc_in_block_Some [of b _ _ ws, OF _ len64] al len64
    by (cases r) auto
  let ?f = "\<lambda>bs s. let (r, ws) = alloc_in_block b (le_words 8 bs) in Ok (r, words_le 8 ws, s)"
  have "\<exists>s'. bc_modify D ?i 0 BLOCK_SIZE ?f s = Ok (r, s')
      \<and> fs_at D N dev_ok s' L M (w(?i := splice 0 (words_le 8 ws) (w ?i)))"
    using al lws len
    by (intro bc_modify_rule [OF Suc.prems(1) i Suc.prems(3)]) (simp_all add: bitmap_block_def BLOCK_SIZE_def)
  then obtain s1 where s1: "bc_modify D ?i 0 BLOCK_SIZE ?f s = Ok (r, s1)" "fs_at D N dev_ok s1 L M (w(?i := words_le 8 ws))"
    using lws len by (auto simp: splice_all)
  show ?case
  proof (cases r)
    case None
    with alloc_in_block_None [OF _ len64] al have "ws = bitmap_block w ?i" by blast
    then have "w(?i := words_le 8 ws) = w" using len by (simp add: bitmap_block_def words_le_le_words [where k = 64])
    with Suc.IH [of s1 "Suc b"] Suc.prems s1 al None show ?thesis by simp
  next
    case (Some k)
    with s1 al show ?thesis by (simp add: fun_upd_def)
  qed
qed auto

lemma Bitmap_alloc_at:
  assumes "fs_at D N dev_ok s L M w" "M \<subseteq> L" "card L < BLOCK_CACHE_SIZE" "bm_blocks bm \<inter> L = {}" "bm_blocks bm \<subseteq> {..<N}"
  shows "\<exists>s'. Bitmap_alloc D bm s = Ok (fst (bm_alloc bm w), s') \<and> fs_at D N dev_ok s' L M (snd (bm_alloc bm w))"
  using Bitmap_alloc_loop_at [OF assms, of 0 "blocks bm"] by (simp add: Bitmap_alloc_def bm_alloc_def)

lemma Bitmap_dealloc_at:
  assumes "fs_at D N dev_ok s L M w" "M \<subseteq> L" "card L < BLOCK_CACHE_SIZE" "bm_blocks bm \<inter> L = {}" "bm_blocks bm \<subseteq> {..<N}"
    "k < Bitmap_maximum bm" "bm_dealloc bm k w = Ok w'"
  shows "\<exists>s'. Bitmap_dealloc D bm k s = Ok ((), s') \<and> fs_at D N dev_ok s' L M w'"
proof -
  let ?i = "k div BLOCK_BITS + start_block_id bm" and ?p = "(k mod BLOCK_BITS) div 64" and ?q = "(k mod BLOCK_BITS) mod 64"
  have "k div 4096 < blocks bm" using assms(6) by (simp add: Bitmap_maximum_eq less_mult_imp_div_less)
  then have "?i \<in> bm_blocks bm" by (simp add: bm_blocks_def BLOCK_BITS_def BLOCK_SIZE_def)
  with assms have i: "?i < N" "?i \<notin> L" "?i \<notin> M" by auto
  from assms(7) obtain ws where ws: "dealloc_in_block ?p ?q (bitmap_block w ?i) = Ok ws" "w' = w(?i := words_le 8 ws)"
    by (auto simp: bm_dealloc_def decomposition_def Let_def elim!: and_then_OkE)
  have len: "length (w ?i) = 512" using fs_at_length [OF assms(1) i(1)] by (simp add: BLOCK_SIZE_def)
  have lws: "length ws = 64"
    using ws(1) len by (auto simp: dealloc_in_block_def bitmap_block_def elim!: and_then_OkE)
  let ?f = "\<lambda>bs s. and_then (dealloc_in_block ?p ?q (le_words 8 bs)) (\<lambda>ws. Ok ((), words_le 8 ws, s))"
  have "\<exists>s'. bc_modify D ?i 0 BLOCK_SIZE ?f s = Ok ((), s')
      \<and> fs_at D N dev_ok s' L M (w(?i := splice 0 (words_le 8 ws) (w ?i)))"
    using ws(1) lws len
    by (intro bc_modify_rule [OF assms(1) i assms(3)]) (simp_all add: bitmap_block_def BLOCK_SIZE_def)
  with lws len ws(2) show ?thesis by (auto simp: splice_all Bitmap_dealloc_def decomposition_def)
qed

end

section \<open>Properties\<close>

text \<open>
  Allocation in an on-disk bitmap, through the cache and on any device: it never panics,
  returns \<^verbatim>\<open>None\<close> exactly when every bit of the bitmap is set, and otherwise the lowest clear
  bit, which is then set and which no other block and no other bit notices; giving the bit
  back restores the set of allocated bits, and giving back a clear bit fails the assertion.
\<close>

theorem Bitmap_alloc_lowest:
  assumes dev: "block_device D N dev_ok" and at: "fs_at D N dev_ok s {} {} w" and bm: "bm_blocks bm \<subseteq> {..<N}"
  shows "\<exists>r s' w'. Bitmap_alloc D bm s = Ok (r, s') \<and> fs_at D N dev_ok s' {} {} w'
    \<and> (\<forall>i. i \<notin> bm_blocks bm \<longrightarrow> w' i = w i)
    \<and> (case r of
         None \<Rightarrow> bm_bits bm w = {..<Bitmap_maximum bm} \<and> w' = w
       | Some k \<Rightarrow> k < Bitmap_maximum bm \<and> k \<notin> bm_bits bm w \<and> {..<k} \<subseteq> bm_bits bm w
           \<and> bm_bits bm w' = insert k (bm_bits bm w)
           \<and> bm_dealloc bm k w = Panic AssertFailed
           \<and> (\<exists>s'' w''. Bitmap_dealloc D bm k s' = Ok ((), s'') \<and> fs_at D N dev_ok s'' {} {} w''
                \<and> bm_bits bm w'' = bm_bits bm w))"
proof -
  obtain r w' where al: "bm_alloc bm w = (r, w')" by (cases "bm_alloc bm w")
  have ok: "bm_ok bm w" using block_device.fs_at_length [OF dev at] bm by (auto simp: bm_ok_def)
  have hyps: "card {} < BLOCK_CACHE_SIZE" "bm_blocks bm \<inter> {} = {}" by (simp_all add: BLOCK_CACHE_SIZE_def)
  obtain s' where s': "Bitmap_alloc D bm s = Ok (r, s')" "fs_at D N dev_ok s' {} {} w'"
    using block_device.Bitmap_alloc_at [OF dev at subset_refl hyps bm] al by auto
  note spec = bm_alloc_spec [OF ok al]
  show ?thesis
  proof (cases r)
    case None
    with s' spec show ?thesis by (intro exI [of _ r] exI [of _ s'] exI [of _ w']) auto
  next
    case (Some k)
    with spec have k: "k < Bitmap_maximum bm" "k \<notin> bm_bits bm w" "bm_ok bm w'" "bm_bits bm w' = insert k (bm_bits bm w)" by auto
    from bm_dealloc_spec [OF k(3,1)] k(4) obtain w'' where w'': "bm_dealloc bm k w' = Ok w''" "bm_bits bm w'' = bm_bits bm w' - {k}" by auto
    from block_device.Bitmap_dealloc_at [OF dev s'(2) subset_refl hyps bm k(1) w''(1)] obtain s''
      where "Bitmap_dealloc D bm k s' = Ok ((), s'')" "fs_at D N dev_ok s'' {} {} w''" by blast
    moreover have "bm_bits bm w'' = bm_bits bm w" using w''(2) k(2,4) by auto
    moreover have "bm_dealloc bm k w = Panic AssertFailed" using bm_dealloc_spec [OF ok k(1)] k(2) by auto
    ultimately show ?thesis using s' spec Some by (intro exI [of _ r] exI [of _ s'] exI [of _ w']) auto
  qed
qed

theorem Bitmap_alloc_lowest_witness:
  "\<exists>r s' w'. Bitmap_alloc BlockFile (Bitmap_new 1 1) \<lparr>queue = [], device = two_blocks\<rparr> = Ok (r, s')
    \<and> fs_at BlockFile 2 (\<lambda>f. 2 * BLOCK_SIZE \<le> length f) s' {} {} w'
    \<and> w' 0 = view BlockFile 2 \<lparr>queue = [], device = two_blocks\<rparr> 0"
proof -
  have dev: "block_device BlockFile 2 (\<lambda>f. 2 * BLOCK_SIZE \<le> length f)" ..
  have "2 * BLOCK_SIZE \<le> length two_blocks" by (simp add: two_blocks_def BLOCK_SIZE_def)
  note at = block_device.empty_cache_at [OF dev this]
  have bm: "bm_blocks (Bitmap_new 1 1) \<subseteq> {..<2}" and out: "0 \<notin> bm_blocks (Bitmap_new 1 1)"
    by (auto simp: bm_blocks_def Bitmap_new_def)
  from Bitmap_alloc_lowest [OF dev at bm] out show ?thesis by blast
qed

text \<open>
  \<^verbatim>\<open>decomposition\<close> inverts the bit number that \<^verbatim>\<open>alloc\<close> composes, for every position of a
  bit in a bitmap of any size.
\<close>

theorem decomposition_inverse:
  assumes "pos < BITMAP_BLOCK_SIZE" "inner_pos < BITMAP_SIZE"
  shows "decomposition (bitmap_block_id * BLOCK_BITS + pos * BITMAP_SIZE + inner_pos) = (bitmap_block_id, pos, inner_pos)"
proof -
  have "pos * 64 + inner_pos < 4096" using assms by (simp add: BITMAP_BLOCK_SIZE_def BITMAP_SIZE_def)
  then have "(bitmap_block_id * 4096 + (pos * 64 + inner_pos)) div 4096 = bitmap_block_id"
    "(bitmap_block_id * 4096 + (pos * 64 + inner_pos)) mod 4096 = pos * 64 + inner_pos" by simp_all
  with assms(2) show ?thesis
    by (simp add: decomposition_def BLOCK_BITS_def BLOCK_SIZE_def BITMAP_SIZE_def add.assoc)
qed

theorem decomposition_inverse_witness: "decomposition (2 * BLOCK_BITS + 63 * BITMAP_SIZE + 5) = (2, 63, 5)"
  by (rule decomposition_inverse) (simp_all add: BITMAP_BLOCK_SIZE_def BITMAP_SIZE_def)

end
