(* ===== verification/Layout.thy ===== *)
theory Layout
  imports Bitmap
begin

text \<open>
  The on-disk structures of easy-fs, \<^verbatim>\<open>src/src/easy-fs/src/layout.rs\<close>: super block, inodes with
  direct, indirect and doubly indirect block lists, directory entries, and the operations of
  an inode that follow, extend, clear, read and write these lists through the block cache.

  Sizes and block numbers in the structures are \<^verbatim>\<open>u32\<close> words, with the wrapping arithmetic of
  the source. Loop counters and \<^verbatim>\<open>usize\<close> positions are natural numbers where the source keeps
  them below \<open>2\<^sup>3\<^sup>3\<close> (at most one past a \<^verbatim>\<open>u32\<close> size); the one sum of a caller's offset and length is
  reduced modulo \<open>2\<^sup>6\<^sup>4\<close>.
\<close>

section \<open>Constants and structures\<close>

definition EFS_MAGIC :: u32 where "EFS_MAGIC = 0x3b800001"
definition INODE_DIRECT_COUNT :: nat where "INODE_DIRECT_COUNT = 28"
definition INODE_INDIRECT1_COUNT :: nat where "INODE_INDIRECT1_COUNT = BLOCK_SIZE div 4"
definition INODE_INDIRECT2_COUNT :: nat where "INODE_INDIRECT2_COUNT = INODE_INDIRECT1_COUNT * INODE_INDIRECT1_COUNT"
definition DIRECT_BOUND :: nat where "DIRECT_BOUND = INODE_DIRECT_COUNT"
definition INDIRECT1_BOUND :: nat where "INDIRECT1_BOUND = DIRECT_BOUND + INODE_INDIRECT1_COUNT"
definition INDIRECT2_BOUND :: nat where "INDIRECT2_BOUND = INDIRECT1_BOUND + INODE_INDIRECT2_COUNT"
definition NAME_LENGTH_LIMIT :: nat where "NAME_LENGTH_LIMIT = 27"
definition DIR_ENTRY_SIZE :: nat where "DIR_ENTRY_SIZE = 32"

lemmas layout_consts = BLOCK_SIZE_def INODE_DIRECT_COUNT_def INODE_INDIRECT1_COUNT_def INODE_INDIRECT2_COUNT_def
  DIRECT_BOUND_def INDIRECT1_BOUND_def INDIRECT2_BOUND_def NAME_LENGTH_LIMIT_def DIR_ENTRY_SIZE_def

record SuperBlock =
  magic :: u32
  sb_total_blocks :: u32
  inode_bitmap_blocks :: u32
  inode_area_blocks :: u32
  data_bitmap_blocks :: u32
  data_area_blocks :: u32

definition SUPER_BLOCK_SIZE :: nat where "SUPER_BLOCK_SIZE = 24"

definition SuperBlock_of_bytes :: "u8 list \<Rightarrow> SuperBlock" where
  "SuperBlock_of_bytes bs =
     (let ws = le_words 4 bs
      in \<lparr>magic = ws ! 0, sb_total_blocks = ws ! 1, inode_bitmap_blocks = ws ! 2, inode_area_blocks = ws ! 3,
          data_bitmap_blocks = ws ! 4, data_area_blocks = ws ! 5\<rparr>)"

definition SuperBlock_bytes :: "SuperBlock \<Rightarrow> u8 list" where
  "SuperBlock_bytes sb =
     words_le 4 [magic sb, sb_total_blocks sb, inode_bitmap_blocks sb, inode_area_blocks sb,
                 data_bitmap_blocks sb, data_area_blocks sb]"

definition SuperBlock_initialize :: "u32 \<Rightarrow> u32 \<Rightarrow> u32 \<Rightarrow> u32 \<Rightarrow> u32 \<Rightarrow> SuperBlock" where
  "SuperBlock_initialize tb ibm ia dbm da =
     \<lparr>magic = EFS_MAGIC, sb_total_blocks = tb, inode_bitmap_blocks = ibm, inode_area_blocks = ia,
      data_bitmap_blocks = dbm, data_area_blocks = da\<rparr>"

definition SuperBlock_is_valid :: "SuperBlock \<Rightarrow> bool" where
  "SuperBlock_is_valid sb \<longleftrightarrow> magic sb = EFS_MAGIC"

datatype DiskInodeType = File | Directory

text \<open>
  \<^verbatim>\<open>#[repr(C)]\<close>: 31 words, the byte of the type (0 or 1, any other value is undefined behaviour) and
  three bytes of padding, which the field assignments of the source leave alone.
\<close>

record DiskInode =
  di_size :: u32
  direct :: "u32 list"
  indirect1 :: u32
  indirect2 :: u32
  di_type :: DiskInodeType

definition DISK_INODE_SIZE :: nat where "DISK_INODE_SIZE = 128"

definition DiskInode_of_bytes :: "u8 list \<Rightarrow> DiskInode" where
  "DiskInode_of_bytes bs =
     (let ws = le_words 4 (take 124 bs)
      in \<lparr>di_size = ws ! 0, direct = take 28 (drop 1 ws), indirect1 = ws ! 29, indirect2 = ws ! 30,
          di_type = (if bs ! 124 = 0 then File else Directory)\<rparr>)"

definition DiskInode_bytes :: "DiskInode \<Rightarrow> u8 list \<Rightarrow> u8 list" where
  "DiskInode_bytes di old =
     words_le 4 (di_size di # direct di @ [indirect1 di, indirect2 di])
       @ [case di_type di of File \<Rightarrow> 0 | Directory \<Rightarrow> 1] @ drop 125 old"

text \<open>\<^verbatim>\<open>IndirectBlock\<close> is an array of 128 block numbers.\<close>

definition indirect_block :: "u8 list \<Rightarrow> u32 list" where
  "indirect_block bs = le_words 4 bs"

definition indirect_bytes :: "u32 list \<Rightarrow> u8 list" where
  "indirect_bytes ents = words_le 4 ents"

section \<open>Inode operations\<close>

definition DiskInode_initialize :: "DiskInodeType \<Rightarrow> DiskInode \<Rightarrow> DiskInode" where
  "DiskInode_initialize t di =
     di\<lparr>di_size := 0, direct := replicate INODE_DIRECT_COUNT 0, indirect1 := 0, indirect2 := 0, di_type := t\<rparr>"

definition is_dir :: "DiskInode \<Rightarrow> bool" where
  "is_dir di \<longleftrightarrow> di_type di = Directory"

definition is_file :: "DiskInode \<Rightarrow> bool" where
  "is_file di \<longleftrightarrow> di_type di = File"

text \<open>Reading entry \<open>i\<close> of the indirect block \<open>b\<close>.\<close>

definition read_entry :: "'d BlockDevice \<Rightarrow> nat \<Rightarrow> nat \<Rightarrow> 'd bc_state \<Rightarrow> (u32 \<times> 'd bc_state) outcome" where
  "read_entry D b i s =
     bc_read D b 0 BLOCK_SIZE (\<lambda>bs s. and_then (index (indirect_block bs) i) (\<lambda>x. Ok (x, s))) s"

definition get_block_id :: "'d BlockDevice \<Rightarrow> DiskInode \<Rightarrow> u32 \<Rightarrow> 'd bc_state \<Rightarrow> (u32 \<times> 'd bc_state) outcome" where
  "get_block_id D di inner s =
     (let inner_id = unat inner
      in and_then (assert_that (inner_id < INDIRECT2_BOUND)) (\<lambda>_.
         if inner_id < DIRECT_BOUND then and_then (index (direct di) inner_id) (\<lambda>x. Ok (x, s))
         else if inner_id < INDIRECT1_BOUND then read_entry D (unat (indirect1 di)) (inner_id - DIRECT_BOUND) s
         else
           let inner_id = inner_id - INDIRECT1_BOUND
           in and_then (read_entry D (unat (indirect2 di)) (inner_id div INODE_INDIRECT1_COUNT) s) (\<lambda>(b, s).
              read_entry D (unat b) (inner_id mod INODE_INDIRECT1_COUNT) s)))"

definition data_blocks_of :: "u32 \<Rightarrow> u32" where
  "data_blocks_of sz = (sz + of_nat BLOCK_SIZE - 1) div of_nat BLOCK_SIZE"

definition data_blocks :: "DiskInode \<Rightarrow> u32" where
  "data_blocks di = data_blocks_of (di_size di)"

definition total_blocks :: "u32 \<Rightarrow> u32" where
  "total_blocks sz =
     (let data_blocks = unat (data_blocks_of sz);
          t = data_blocks;
          t = (if DIRECT_BOUND < data_blocks then t + 1 else t);
          t = (if INDIRECT1_BOUND < data_blocks
                   then t + 1 + (data_blocks - INDIRECT1_BOUND + INODE_INDIRECT1_COUNT - 1) div INODE_INDIRECT1_COUNT
                   else t)
      in of_nat t)"

definition blocks_num_needed :: "DiskInode \<Rightarrow> u32 \<Rightarrow> u32 outcome" where
  "blocks_num_needed di new_size =
     and_then (assert_that (di_size di \<le> new_size)) (\<lambda>_.
     Ok (total_blocks new_size - total_blocks (di_size di)))"

text \<open>\<^verbatim>\<open>entries[cur] = new_blocks_iter.next().unwrap()\<close> while \<open>cur < bound\<close>.\<close>

function fill_entries :: "nat \<Rightarrow> nat \<Rightarrow> u32 list \<Rightarrow> u32 list \<Rightarrow> (nat \<times> u32 list \<times> u32 list) outcome" where
  "fill_entries cur bound ents iter =
     (if cur < bound then
        case iter of
          [] \<Rightarrow> Panic UnwrapNone
        | x # iter' \<Rightarrow>
            if cur < length ents then fill_entries (Suc cur) bound (ents[cur := x]) iter' else Panic OutOfBounds
      else Ok (cur, ents, iter))"
  by pat_completeness auto
termination by (relation "measure (\<lambda>(cur, bound, _, _). bound - cur)") auto

text \<open>
  The doubly indirect part of \<^verbatim>\<open>increase_size\<close>, inside the closure that modifies the indirect2
  block. The bounds check of \<^verbatim>\<open>indirect1_block[b0]\<close> has already failed where the last branch
  stops.
\<close>

function fill_indirect2 ::
    "'d BlockDevice \<Rightarrow> nat \<Rightarrow> nat \<Rightarrow> nat \<Rightarrow> nat \<Rightarrow> u32 list \<Rightarrow> u32 list \<Rightarrow> 'd bc_state \<Rightarrow> (u32 list \<times> u32 list \<times> 'd bc_state) outcome" where
  "fill_indirect2 D a0 b0 a1 b1 ents iter s =
     (if a0 < a1 \<or> a0 = a1 \<and> b0 < b1 then
        and_then
          (if b0 = 0 then
             case iter of
               [] \<Rightarrow> Panic UnwrapNone
             | x # iter \<Rightarrow> if a0 < length ents then Ok (ents[a0 := x], iter) else Panic OutOfBounds
           else Ok (ents, iter)) (\<lambda>(ents, iter).
        and_then (index ents a0) (\<lambda>b.
        and_then
          (bc_modify D (unat b) 0 BLOCK_SIZE (\<lambda>bs s.
             case iter of
               [] \<Rightarrow> Panic UnwrapNone
             | x # iter \<Rightarrow>
                 if b0 < length (indirect_block bs) then Ok (iter, indirect_bytes ((indirect_block bs)[b0 := x]), s)
                 else Panic OutOfBounds) s) (\<lambda>(iter, s).
        if Suc b0 = INODE_INDIRECT1_COUNT then fill_indirect2 D (Suc a0) 0 a1 b1 ents iter s
        else if Suc b0 < INODE_INDIRECT1_COUNT then fill_indirect2 D a0 (Suc b0) a1 b1 ents iter s
        else Panic OutOfBounds)))
      else Ok (ents, iter, s))"
  by pat_completeness auto
termination
  by (relation "measures [\<lambda>(D, a0, b0, a1, _). Suc a1 - a0, \<lambda>(D, a0, b0, a1, _). INODE_INDIRECT1_COUNT - b0]") auto

definition increase_size ::
    "'d BlockDevice \<Rightarrow> u32 \<Rightarrow> u32 list \<Rightarrow> DiskInode \<Rightarrow> 'd bc_state \<Rightarrow> (DiskInode \<times> 'd bc_state) outcome" where
  "increase_size D new_size new_blocks di s =
     (let current_blocks = unat (data_blocks di);
          di = di\<lparr>di_size := new_size\<rparr>;
          total_blocks = unat (data_blocks di)
      in and_then (fill_entries current_blocks (min total_blocks INODE_DIRECT_COUNT) (direct di) new_blocks)
           (\<lambda>(current_blocks, ds, iter).
         let di = di\<lparr>direct := ds\<rparr>
         in if total_blocks \<le> INODE_DIRECT_COUNT then Ok (di, s)
         else and_then
           (if current_blocks = INODE_DIRECT_COUNT
            then case iter of [] \<Rightarrow> Panic UnwrapNone | x # iter \<Rightarrow> Ok (di\<lparr>indirect1 := x\<rparr>, iter)
            else Ok (di, iter)) (\<lambda>(di, iter).
         let current_blocks = current_blocks - INODE_DIRECT_COUNT;
             total_blocks = total_blocks - INODE_DIRECT_COUNT
         in and_then
           (bc_modify D (unat (indirect1 di)) 0 BLOCK_SIZE (\<lambda>bs s.
              and_then (fill_entries current_blocks (min total_blocks INODE_INDIRECT1_COUNT) (indirect_block bs) iter)
                (\<lambda>(current_blocks, ents, iter). Ok ((current_blocks, iter), indirect_bytes ents, s))) s)
           (\<lambda>((current_blocks, iter), s).
         if total_blocks \<le> INODE_INDIRECT1_COUNT then Ok (di, s)
         else and_then
           (if current_blocks = INODE_INDIRECT1_COUNT
            then case iter of [] \<Rightarrow> Panic UnwrapNone | x # iter \<Rightarrow> Ok (di\<lparr>indirect2 := x\<rparr>, iter)
            else Ok (di, iter)) (\<lambda>(di, iter).
         let current_blocks = current_blocks - INODE_INDIRECT1_COUNT;
             total_blocks = total_blocks - INODE_INDIRECT1_COUNT;
             a0 = current_blocks div INODE_INDIRECT1_COUNT;
             b0 = current_blocks mod INODE_INDIRECT1_COUNT;
             a1 = total_blocks div INODE_INDIRECT1_COUNT;
             b1 = total_blocks mod INODE_INDIRECT1_COUNT
         in and_then
           (bc_modify D (unat (indirect2 di)) 0 BLOCK_SIZE (\<lambda>bs s.
              and_then (fill_indirect2 D a0 b0 a1 b1 (indirect_block bs) iter s)
                (\<lambda>(ents, iter, s). Ok ((), indirect_bytes ents, s))) s)
           (\<lambda>(_, s). Ok (di, s)))))))"

text \<open>Taking and zeroing the first \<open>bound\<close> entries, as \<^verbatim>\<open>clear_size\<close> does.\<close>

function take_entries :: "nat \<Rightarrow> nat \<Rightarrow> u32 list \<Rightarrow> u32 list \<Rightarrow> (u32 list \<times> u32 list) outcome" where
  "take_entries cur bound ents v =
     (if cur < bound then
        if cur < length ents then take_entries (Suc cur) bound (ents[cur := 0]) (v @ [ents ! cur]) else Panic OutOfBounds
      else Ok (ents, v))"
  by pat_completeness auto
termination by (relation "measure (\<lambda>(cur, bound, _, _). bound - cur)") auto

text \<open>Collecting the first \<open>n\<close> entries of the indirect1 blocks that \<open>es\<close> names, with their own numbers.\<close>

fun collect_indirect1 ::
    "'d BlockDevice \<Rightarrow> nat \<Rightarrow> u32 list \<Rightarrow> u32 list \<Rightarrow> 'd bc_state \<Rightarrow> (u32 list \<times> 'd bc_state) outcome" where
  "collect_indirect1 D n [] v s = Ok (v, s)"
| "collect_indirect1 D n (e # es) v s =
     and_then (bc_modify D (unat e) 0 BLOCK_SIZE (\<lambda>bs s. Ok (v @ [e] @ take n (indirect_block bs), bs, s)) s)
       (\<lambda>(v, s). collect_indirect1 D n es v s)"

definition clear_size :: "'d BlockDevice \<Rightarrow> DiskInode \<Rightarrow> 'd bc_state \<Rightarrow> ((u32 list \<times> DiskInode) \<times> 'd bc_state) outcome" where
  "clear_size D di s =
     (let data_blocks = unat (data_blocks di);
          di = di\<lparr>di_size := 0\<rparr>
      in and_then (take_entries 0 (min data_blocks INODE_DIRECT_COUNT) (direct di) []) (\<lambda>(ds, v).
         let di = di\<lparr>direct := ds\<rparr>
         in if data_blocks \<le> INODE_DIRECT_COUNT then Ok ((v, di), s)
         else
           let v = v @ [indirect1 di]; data_blocks = data_blocks - INODE_DIRECT_COUNT
           in and_then
             (bc_modify D (unat (indirect1 di)) 0 BLOCK_SIZE (\<lambda>bs s.
                and_then (take_entries 0 (min data_blocks INODE_INDIRECT1_COUNT) (indirect_block bs) v)
                  (\<lambda>(ents, v). Ok (v, indirect_bytes ents, s))) s) (\<lambda>(v, s).
           let di = di\<lparr>indirect1 := 0\<rparr>
           in if data_blocks \<le> INODE_INDIRECT1_COUNT then Ok ((v, di), s)
           else
             let v = v @ [indirect2 di]; data_blocks = data_blocks - INODE_INDIRECT1_COUNT
             in and_then (assert_that (data_blocks \<le> INODE_INDIRECT2_COUNT)) (\<lambda>_.
             let a1 = data_blocks div INODE_INDIRECT1_COUNT; b1 = data_blocks mod INODE_INDIRECT1_COUNT
             in and_then
               (bc_modify D (unat (indirect2 di)) 0 BLOCK_SIZE (\<lambda>bs s.
                  and_then (collect_indirect1 D INODE_INDIRECT1_COUNT (take a1 (indirect_block bs)) v s) (\<lambda>(v, s).
                  and_then
                    (if 0 < b1 then
                       and_then (index (indirect_block bs) a1) (\<lambda>e. collect_indirect1 D b1 [e] v s)
                     else Ok (v, s)) (\<lambda>(v, s). Ok (v, bs, s)))) s) (\<lambda>(v, s).
             Ok ((v, di\<lparr>indirect2 := 0\<rparr>), s))))))"

text \<open>The loops of \<^verbatim>\<open>read_at\<close> and \<^verbatim>\<open>write_at\<close>, block by block.\<close>

function read_at_loop ::
    "'d BlockDevice \<Rightarrow> DiskInode \<Rightarrow> nat \<Rightarrow> nat \<Rightarrow> nat \<Rightarrow> nat \<Rightarrow> u8 list \<Rightarrow> 'd bc_state
      \<Rightarrow> ((nat \<times> u8 list) \<times> 'd bc_state) outcome" where
  "read_at_loop D di end_pos start_block start read_size buf s =
     (let end_current_block = min ((start_block + 1) * BLOCK_SIZE) end_pos;
          block_read_size = end_current_block - start
      in and_then (slice buf read_size (read_size + block_read_size)) (\<lambda>_.
         and_then (get_block_id D di (of_nat start_block) s) (\<lambda>(b, s).
         and_then (bc_read D (unat b) 0 BLOCK_SIZE (\<lambda>bs s.
           and_then (slice bs (start mod BLOCK_SIZE) (start mod BLOCK_SIZE + block_read_size)) (\<lambda>src. Ok (src, s))) s)
           (\<lambda>(src, s).
         let buf = splice read_size src buf; read_size = read_size + block_read_size
         in if end_current_block = end_pos then Ok ((read_size, buf), s)
            else read_at_loop D di end_pos (start_block + 1) end_current_block read_size buf s))))"
  by pat_completeness auto
termination
  by (relation "measure (\<lambda>(D, di, end_pos, start_block, _). end_pos - start_block * BLOCK_SIZE)") (auto simp: BLOCK_SIZE_def min_def split: if_splits)

definition DiskInode_read_at ::
    "'d BlockDevice \<Rightarrow> DiskInode \<Rightarrow> nat \<Rightarrow> u8 list \<Rightarrow> 'd bc_state \<Rightarrow> ((nat \<times> u8 list) \<times> 'd bc_state) outcome" where
  "DiskInode_read_at D di offset buf s =
     (let end_pos = min ((offset + length buf) mod 2 ^ 64) (unat (di_size di))
      in if end_pos \<le> offset then Ok ((0, buf), s)
         else read_at_loop D di end_pos (offset div BLOCK_SIZE) offset 0 buf s)"

function write_at_loop ::
    "'d BlockDevice \<Rightarrow> DiskInode \<Rightarrow> nat \<Rightarrow> nat \<Rightarrow> nat \<Rightarrow> nat \<Rightarrow> u8 list \<Rightarrow> 'd bc_state
      \<Rightarrow> (nat \<times> 'd bc_state) outcome" where
  "write_at_loop D di end_pos start_block start write_size buf s =
     (let end_current_block = min ((start_block + 1) * BLOCK_SIZE) end_pos;
          block_write_size = end_current_block - start
      in and_then (get_block_id D di (of_nat start_block) s) (\<lambda>(b, s).
         and_then (bc_modify D (unat b) 0 BLOCK_SIZE (\<lambda>bs s.
           and_then (slice buf write_size (write_size + block_write_size)) (\<lambda>src.
           and_then (slice bs (start mod BLOCK_SIZE) (start mod BLOCK_SIZE + block_write_size)) (\<lambda>_.
           Ok ((), splice (start mod BLOCK_SIZE) src bs, s)))) s) (\<lambda>(_, s).
         let write_size = write_size + block_write_size
         in if end_current_block = end_pos then Ok (write_size, s)
            else write_at_loop D di end_pos (start_block + 1) end_current_block write_size buf s)))"
  by pat_completeness auto
termination
  by (relation "measure (\<lambda>(D, di, end_pos, start_block, _). end_pos - start_block * BLOCK_SIZE)") (auto simp: BLOCK_SIZE_def min_def split: if_splits)

definition DiskInode_write_at ::
    "'d BlockDevice \<Rightarrow> DiskInode \<Rightarrow> nat \<Rightarrow> u8 list \<Rightarrow> 'd bc_state \<Rightarrow> (nat \<times> 'd bc_state) outcome" where
  "DiskInode_write_at D di offset buf s =
     (let end_pos = min ((offset + length buf) mod 2 ^ 64) (unat (di_size di))
      in if end_pos \<le> offset then Ok (0, s)
         else write_at_loop D di end_pos (offset div BLOCK_SIZE) offset 0 buf s)"

section \<open>Directory entries\<close>

text \<open>Well-formed UTF-8, what \<^verbatim>\<open>core::str::from_utf8\<close> accepts. A \<^verbatim>\<open>&str\<close> is such a byte list.\<close>

definition utf8_cont :: "u8 \<Rightarrow> bool" where
  "utf8_cont b \<longleftrightarrow> 0x80 \<le> b \<and> b \<le> 0xBF"

fun utf8_valid :: "u8 list \<Rightarrow> bool" where
  "utf8_valid [] = True"
| "utf8_valid (a # xs) =
     (if a \<le> 0x7F then utf8_valid xs
      else case xs of
        [] \<Rightarrow> False
      | b # ys \<Rightarrow>
          if 0xC2 \<le> a \<and> a \<le> 0xDF then utf8_cont b \<and> utf8_valid ys
          else case ys of
            [] \<Rightarrow> False
          | c # zs \<Rightarrow>
              if 0xE0 \<le> a \<and> a \<le> 0xEF then
                utf8_cont b \<and> (a = 0xE0 \<longrightarrow> 0xA0 \<le> b) \<and> (a = 0xED \<longrightarrow> b \<le> 0x9F) \<and> utf8_cont c \<and> utf8_valid zs
              else case zs of
                [] \<Rightarrow> False
              | d # us \<Rightarrow>
                  0xF0 \<le> a \<and> a \<le> 0xF4 \<and> utf8_cont b \<and> (a = 0xF0 \<longrightarrow> 0x90 \<le> b) \<and> (a = 0xF4 \<longrightarrow> b \<le> 0x8F)
                    \<and> utf8_cont c \<and> utf8_cont d \<and> utf8_valid us)"

record DirEntry =
  de_name :: "u8 list"
  de_inode_number :: u32

definition DirEntry_empty :: DirEntry where
  "DirEntry_empty = \<lparr>de_name = replicate (NAME_LENGTH_LIMIT + 1) 0, de_inode_number = 0\<rparr>"

definition DirEntry_new :: "u8 list \<Rightarrow> u32 \<Rightarrow> DirEntry outcome" where
  "DirEntry_new name inode_number =
     and_then (assert_that (length name \<le> NAME_LENGTH_LIMIT)) (\<lambda>_.
     Ok \<lparr>de_name = (splice 0 name (replicate (NAME_LENGTH_LIMIT + 1) 0))[length name := 0],
         de_inode_number = inode_number\<rparr>)"

definition DirEntry_as_bytes :: "DirEntry \<Rightarrow> u8 list" where
  "DirEntry_as_bytes e = de_name e @ nat_le 4 (unat (de_inode_number e))"

text \<open>What the entry is after its 32 bytes were overwritten through \<^verbatim>\<open>as_bytes_mut\<close>.\<close>

definition DirEntry_of_bytes :: "u8 list \<Rightarrow> DirEntry" where
  "DirEntry_of_bytes bs =
     \<lparr>de_name = take (NAME_LENGTH_LIMIT + 1) bs,
      de_inode_number = of_nat (le_nat (take 4 (drop (NAME_LENGTH_LIMIT + 1) bs)))\<rparr>"

text \<open>The search for the terminating zero runs over the array's end when there is none.\<close>

definition DirEntry_name :: "DirEntry \<Rightarrow> u8 list outcome" where
  "DirEntry_name e =
     (let name = takeWhile (\<lambda>b. b \<noteq> 0) (de_name e)
      in if length name = length (de_name e) then Panic OutOfBounds
         else if utf8_valid name then Ok name else Panic UnwrapNone)"

section \<open>Encodings\<close>

lemma SuperBlock_roundtrip: "SuperBlock_of_bytes (SuperBlock_bytes sb) = sb"
  by (simp add: SuperBlock_of_bytes_def SuperBlock_bytes_def le_words_words_le)

lemma length_SuperBlock_bytes [simp]: "length (SuperBlock_bytes sb) = 24"
  by (simp add: SuperBlock_bytes_def)

lemma length_DiskInode_bytes: "length (direct di) = 28 \<Longrightarrow> length old = 128 \<Longrightarrow> length (DiskInode_bytes di old) = 128"
  by (simp add: DiskInode_bytes_def)

lemma DiskInode_roundtrip:
  assumes "length (direct di) = 28"
  shows "DiskInode_of_bytes (DiskInode_bytes di old) = di"
proof -
  let ?ws = "di_size di # direct di @ [indirect1 di, indirect2 di]"
  let ?t = "[case di_type di of File \<Rightarrow> 0 | Directory \<Rightarrow> 1] @ drop 125 old"
  have len: "length (words_le 4 ?ws) = 124" using assms by simp
  then have "take 124 (DiskInode_bytes di old) = words_le 4 ?ws" unfolding DiskInode_bytes_def by simp
  moreover have "DiskInode_bytes di old ! 124 = (case di_type di of File \<Rightarrow> 0 | Directory \<Rightarrow> 1)"
    using nth_append_length [of "words_le 4 ?ws" "case di_type di of File \<Rightarrow> 0 | Directory \<Rightarrow> 1" "drop 125 old"] len
    by (simp add: DiskInode_bytes_def)
  ultimately show ?thesis
    using assms by (cases "di_type di") (simp_all add: DiskInode_of_bytes_def le_words_words_le nth_append)
qed

lemma length_DirEntry_as_bytes: "length (de_name e) = 28 \<Longrightarrow> length (DirEntry_as_bytes e) = DIR_ENTRY_SIZE"
  by (simp add: DirEntry_as_bytes_def DIR_ENTRY_SIZE_def)

lemma DirEntry_roundtrip:
  assumes "length (de_name e) = 28"
  shows "DirEntry_of_bytes (DirEntry_as_bytes e) = e"
proof -
  have "unat (de_inode_number e) < 256 ^ 4" using unat_u32_bound [of "de_inode_number e"] by simp
  with assms show ?thesis
    by (simp add: DirEntry_of_bytes_def DirEntry_as_bytes_def NAME_LENGTH_LIMIT_def le_nat_nat_le)
qed

lemma length_indirect_block [simp]: "length bs = 512 \<Longrightarrow> length (indirect_block bs) = 128"
  by (simp add: indirect_block_def)

lemma length_indirect_bytes [simp]: "length (indirect_bytes ents) = 4 * length ents"
  by (simp add: indirect_bytes_def)

lemma indirect_roundtrip [simp]: "indirect_block (indirect_bytes ents) = ents"
  by (simp add: indirect_block_def indirect_bytes_def le_words_words_le)

lemma DirEntry_new_name:
  assumes "length name \<le> NAME_LENGTH_LIMIT" "utf8_valid name" "0 \<notin> set name"
  shows "\<exists>e. DirEntry_new name i = Ok e \<and> DirEntry_name e = Ok name \<and> de_inode_number e = i \<and> length (de_name e) = 28"
proof -
  let ?n = "(splice 0 name (replicate (NAME_LENGTH_LIMIT + 1) 0))[length name := 0]"
  have len: "length name \<le> 27" using assms(1) by (simp add: NAME_LENGTH_LIMIT_def)
  then have "28 - length name = Suc (27 - length name)" by simp
  then have n: "?n = name @ 0 # replicate (27 - length name) 0"
    using len by (simp add: splice_def NAME_LENGTH_LIMIT_def list_update_append)
  have "takeWhile (\<lambda>b. b \<noteq> 0) ?n = name"
    unfolding n using assms(3) by (subst takeWhile_append2) auto
  moreover have "length ?n = 28" unfolding n using len by simp
  ultimately show ?thesis
    using assms len by (intro exI [of _ "\<lparr>de_name = ?n, de_inode_number = i\<rparr>"]) (simp add: DirEntry_new_def DirEntry_name_def)
qed

section \<open>Properties\<close>

text \<open>
  The on-disk encodings lose nothing: a super block, an inode and a directory entry read
  back from the bytes they were written as, and a name of at most 27 bytes without a zero
  byte is what \<^verbatim>\<open>name()\<close> returns for the entry that \<^verbatim>\<open>DirEntry::new\<close> builds, also after the entry
  went through the disk.
\<close>

theorem layout_roundtrip:
  assumes "length (direct di) = INODE_DIRECT_COUNT" "length old = DISK_INODE_SIZE"
    and "length name \<le> NAME_LENGTH_LIMIT" "utf8_valid name" "0 \<notin> set name"
  shows "SuperBlock_of_bytes (SuperBlock_bytes sb) = sb
    \<and> DiskInode_of_bytes (DiskInode_bytes di old) = di \<and> length (DiskInode_bytes di old) = DISK_INODE_SIZE
    \<and> drop 125 (DiskInode_bytes di old) = drop 125 old
    \<and> (\<exists>e. DirEntry_new name i = Ok e \<and> DirEntry_of_bytes (DirEntry_as_bytes e) = e
         \<and> length (DirEntry_as_bytes e) = DIR_ENTRY_SIZE \<and> DirEntry_name e = Ok name \<and> de_inode_number e = i)"
proof -
  have "drop 125 (DiskInode_bytes di old) = drop 125 old"
    using assms(1) by (simp add: DiskInode_bytes_def INODE_DIRECT_COUNT_def)
  moreover have "\<exists>e. DirEntry_new name i = Ok e \<and> DirEntry_of_bytes (DirEntry_as_bytes e) = e
       \<and> length (DirEntry_as_bytes e) = DIR_ENTRY_SIZE \<and> DirEntry_name e = Ok name \<and> de_inode_number e = i"
    using DirEntry_new_name [OF assms(3-5)] DirEntry_roundtrip length_DirEntry_as_bytes by metis
  ultimately show ?thesis
    using assms(1,2) SuperBlock_roundtrip DiskInode_roundtrip [of di old] length_DiskInode_bytes [of di old]
    by (simp add: INODE_DIRECT_COUNT_def DISK_INODE_SIZE_def)
qed

definition inode_example :: DiskInode where
  "inode_example = \<lparr>di_size = 700, direct = [3, 9] @ replicate 26 0, indirect1 = 0, indirect2 = 0, di_type = File\<rparr>"

theorem layout_roundtrip_witness:
  "DiskInode_of_bytes (DiskInode_bytes inode_example (replicate 128 0)) = inode_example
    \<and> (\<exists>e. DirEntry_new [115, 104] 7 = Ok e \<and> DirEntry_of_bytes (DirEntry_as_bytes e) = e
         \<and> DirEntry_name e = Ok [115, 104] \<and> de_inode_number e = 7)"
proof -
  have "length (direct inode_example) = INODE_DIRECT_COUNT" "length (replicate 128 (0::u8)) = DISK_INODE_SIZE"
    "length [115, 104 :: u8] \<le> NAME_LENGTH_LIMIT" "utf8_valid [115, 104]" "0 \<notin> set [115, 104 :: u8]"
    by (simp_all add: inode_example_def INODE_DIRECT_COUNT_def DISK_INODE_SIZE_def NAME_LENGTH_LIMIT_def)
  from layout_roundtrip [OF this, of _ 7] show ?thesis by blast
qed

end
