(* ===== verification/Inode_Tree.thy ===== *)
theory Inode_Tree
  imports Layout
begin

text \<open>
  What the operations of \<^verbatim>\<open>layout.rs\<close> do to the contents of the disk. An inode with \<open>n\<close> data blocks
  owns the blocks \<open>data_ids\<close> that hold its contents and the blocks \<open>meta_ids\<close> that hold block
  numbers: the indirect1 block beyond 28 data blocks, and beyond 156 the indirect2 block and
  one indirect1 block for every 128 data blocks.
\<close>

section \<open>The blocks of an inode\<close>

definition block_at :: "disk \<Rightarrow> DiskInode \<Rightarrow> nat \<Rightarrow> u32" where
  "block_at w di k =
     (if k < 28 then direct di ! k
      else if k < 156 then indirect_block (w (unat (indirect1 di))) ! (k - 28)
      else indirect_block (w (unat (indirect_block (w (unat (indirect2 di))) ! ((k - 156) div 128)))) ! ((k - 156) mod 128))"

definition data_ids :: "disk \<Rightarrow> DiskInode \<Rightarrow> nat \<Rightarrow> nat list" where
  "data_ids w di n = map (\<lambda>k. unat (block_at w di k)) [0..<n]"

definition index_count :: "nat \<Rightarrow> nat" where
  "index_count n = (n - 156 + 127) div 128"

definition metas :: "disk \<Rightarrow> DiskInode \<Rightarrow> bool \<Rightarrow> bool \<Rightarrow> nat \<Rightarrow> nat list" where
  "metas w di h1 h2 nx =
     (if h1 then [unat (indirect1 di)] else []) @ (if h2 then [unat (indirect2 di)] else [])
     @ map (\<lambda>a. unat (indirect_block (w (unat (indirect2 di))) ! a)) [0..<nx]"

definition meta_ids :: "disk \<Rightarrow> DiskInode \<Rightarrow> nat \<Rightarrow> nat list" where
  "meta_ids w di n = metas w di (28 < n) (156 < n) (index_count n)"

definition tree_ids :: "disk \<Rightarrow> DiskInode \<Rightarrow> nat \<Rightarrow> nat list" where
  "tree_ids w di n = data_ids w di n @ meta_ids w di n"

text \<open>The blocks of the inode are distinct, exist, and are none of the blocks \<open>L\<close> in use.\<close>

definition tree_ok :: "nat \<Rightarrow> nat set \<Rightarrow> disk \<Rightarrow> DiskInode \<Rightarrow> nat \<Rightarrow> bool" where
  "tree_ok N L w di n \<longleftrightarrow> n \<le> INDIRECT2_BOUND \<and> length (direct di) = 28 \<and> distinct (tree_ids w di n)
     \<and> (\<forall>b \<in> set (tree_ids w di n). b < N \<and> b \<notin> L)"

lemma length_data_ids [simp]: "length (data_ids w di n) = n"
  by (simp add: data_ids_def)

lemma data_ids_nth: "k < n \<Longrightarrow> data_ids w di n ! k = unat (block_at w di k)"
  by (simp add: data_ids_def)

lemma data_ids_Suc: "data_ids w di (Suc n) = data_ids w di n @ [unat (block_at w di n)]"
  by (simp add: data_ids_def)

lemma length_meta_ids: "length (meta_ids w di n) = (if 28 < n then 1 else 0) + (if 156 < n then 1 else 0) + index_count n"
  by (simp add: meta_ids_def metas_def)

lemma index_count_bound: "n \<le> 16540 \<Longrightarrow> index_count n \<le> 128"
  unfolding index_count_def by linarith

lemma index_count_less: "156 \<le> k \<Longrightarrow> k < n \<Longrightarrow> (k - 156) div 128 < index_count n"
  unfolding index_count_def by linarith

lemma index_count_small: "n \<le> 156 \<Longrightarrow> index_count n = 0"
  by (simp add: index_count_def)

lemma metas_cong:
  assumes "h2 \<or> nx = 0" "h2 \<Longrightarrow> w' (unat (indirect2 di)) = w (unat (indirect2 di))"
    "indirect1 di' = indirect1 di" "indirect2 di' = indirect2 di"
  shows "metas w' di' h1 h2 nx = metas w di h1 h2 nx"
  using assms by (auto simp: metas_def)

lemma meta_ids_cong:
  assumes "\<forall>b \<in> set (meta_ids w di n). w' b = w b" "indirect1 di' = indirect1 di" "indirect2 di' = indirect2 di"
  shows "meta_ids w' di' n = meta_ids w di n"
  unfolding meta_ids_def
proof (rule metas_cong)
  show "156 < n \<or> index_count n = 0" using index_count_small [of n] by (cases "156 < n") simp_all
  assume "156 < n"
  with assms(1) show "w' (unat (indirect2 di)) = w (unat (indirect2 di))" by (simp add: meta_ids_def metas_def)
qed (use assms in simp_all)

lemma meta_ids_mem:
  "28 < n \<Longrightarrow> unat (indirect1 di) \<in> set (meta_ids w di n)"
  "156 < n \<Longrightarrow> unat (indirect2 di) \<in> set (meta_ids w di n)"
  "a < index_count n \<Longrightarrow> unat (indirect_block (w (unat (indirect2 di))) ! a) \<in> set (meta_ids w di n)"
  by (auto simp: meta_ids_def metas_def)

lemma block_at_cong:
  assumes "\<forall>b \<in> set (meta_ids w di n). w' b = w b" "indirect1 di' = indirect1 di" "indirect2 di' = indirect2 di"
    "direct di' = direct di" "k < n"
  shows "block_at w' di' k = block_at w di k"
proof -
  have "w' (unat (indirect1 di)) = w (unat (indirect1 di))" if "28 \<le> k"
    using assms(1,5) that by (intro bspec [OF assms(1)] meta_ids_mem) simp
  moreover have "w' (unat (indirect2 di)) = w (unat (indirect2 di))" if "156 \<le> k"
    using assms(5) that by (intro bspec [OF assms(1)] meta_ids_mem) simp
  moreover have "w' (unat (indirect_block (w (unat (indirect2 di))) ! ((k - 156) div 128)))
      = w (unat (indirect_block (w (unat (indirect2 di))) ! ((k - 156) div 128)))" if "156 \<le> k"
    using assms(5) that by (intro bspec [OF assms(1)] meta_ids_mem index_count_less)
  ultimately show ?thesis using assms(2-4) by (simp add: block_at_def)
qed

lemma data_ids_cong:
  assumes "\<forall>b \<in> set (meta_ids w di n). w' b = w b" "indirect1 di' = indirect1 di" "indirect2 di' = indirect2 di"
    "direct di' = direct di"
  shows "data_ids w' di' n = data_ids w di n"
  using block_at_cong [OF assms] by (simp add: data_ids_def)

lemma tree_ids_cong:
  assumes "\<forall>b \<in> set (meta_ids w di n). w' b = w b" "indirect1 di' = indirect1 di" "indirect2 di' = indirect2 di"
    "direct di' = direct di"
  shows "tree_ids w' di' n = tree_ids w di n"
  using data_ids_cong [OF assms] meta_ids_cong [OF assms(1-3)] by (simp add: tree_ids_def)

lemma tree_ok_meta: "tree_ok N L w di n \<Longrightarrow> b \<in> set (meta_ids w di n) \<Longrightarrow> b < N \<and> b \<notin> L"
  by (simp add: tree_ok_def tree_ids_def)

lemma tree_ok_data: "tree_ok N L w di n \<Longrightarrow> k < n \<Longrightarrow>
    unat (block_at w di k) < N \<and> unat (block_at w di k) \<notin> L \<and> unat (block_at w di k) \<notin> set (meta_ids w di n)"
  using nth_mem [of k "data_ids w di n"] by (auto simp: tree_ok_def tree_ids_def data_ids_nth)

lemma tree_size_irrelevant [simp]:
  "data_ids w (di\<lparr>di_size := z\<rparr>) n = data_ids w di n"
  "metas w (di\<lparr>di_size := z\<rparr>) h1 h2 nx = metas w di h1 h2 nx"
  "meta_ids w (di\<lparr>di_size := z\<rparr>) n = meta_ids w di n"
  "tree_ids w (di\<lparr>di_size := z\<rparr>) n = tree_ids w di n"
  by (simp_all add: data_ids_def block_at_def metas_def meta_ids_def tree_ids_def)

section \<open>Sizes\<close>

lemma data_blocks_of_eq:
  assumes "unat sz + 511 < 2 ^ 32"
  shows "unat (data_blocks_of sz) = (unat sz + 511) div 512"
proof -
  have "sz + of_nat BLOCK_SIZE - 1 = sz + 511" by (simp add: BLOCK_SIZE_def)
  moreover have "unat (sz + 511) = unat sz + 511" using assms by (subst unat_add_no_wrap) simp_all
  ultimately show ?thesis unfolding data_blocks_of_def by (simp only: unat_div) (simp add: BLOCK_SIZE_def)
qed

lemma data_blocks_of_bounds:
  assumes "unat sz + 511 < 2 ^ 32"
  shows "unat sz \<le> unat (data_blocks_of sz) * 512" "unat (data_blocks_of sz) * 512 < unat sz + 512"
  unfolding data_blocks_of_eq [OF assms] by linarith+

lemma total_blocks_eq:
  assumes "unat (data_blocks_of sz) \<le> INDIRECT2_BOUND"
  shows "unat (total_blocks sz) = length (tree_ids w di (unat (data_blocks_of sz)))"
proof -
  let ?n = "unat (data_blocks_of sz)"
  have ic: "index_count ?n \<le> 128" using assms by (intro index_count_bound) (simp add: layout_consts)
  define t where "t = ?n + (if 28 < ?n then 1 else 0) + (if 156 < ?n then 1 else 0) + index_count ?n"
  have "total_blocks sz = of_nat t"
    using index_count_small [of ?n]
    by (auto simp: t_def total_blocks_def layout_consts index_count_def Let_def)
  moreover have "t < 2 ^ 32" using ic assms by (simp add: layout_consts t_def)
  ultimately have "unat (total_blocks sz) = t" by (simp add: unat_of_nat)
  then show ?thesis by (simp add: tree_ids_def length_meta_ids t_def)
qed

text \<open>
  The arithmetic of \<^verbatim>\<open>total_blocks\<close> on 32-bit words agrees with the tree that it is about: it
  yields the number of data and index blocks that an inode of that size owns, for every size that
  the three levels of an inode can hold.
\<close>

theorem total_blocks_counts_tree:
  assumes "unat (data_blocks_of sz) \<le> INDIRECT2_BOUND"
  shows "unat (total_blocks sz) = length (tree_ids w di (unat (data_blocks_of sz)))"
  using assms by (rule total_blocks_eq)

theorem total_blocks_counts_tree_witness:
  "unat (total_blocks 102400) = length (tree_ids (\<lambda>_. []) inode_example 200) \<and> unat (total_blocks 102400) = 203"
proof -
  have n: "unat (data_blocks_of 102400) = 200" by (simp add: data_blocks_of_eq)
  have t: "unat (total_blocks 102400) = length (tree_ids (\<lambda>_. []) inode_example 200)"
    using total_blocks_counts_tree [of 102400 "\<lambda>_. []" inode_example] unfolding n by (simp add: layout_consts)
  moreover have "length (tree_ids (\<lambda>_. []) inode_example 200) = 203"
    by (simp add: tree_ids_def length_meta_ids index_count_def)
  ultimately show ?thesis by simp
qed

section \<open>Reading the block list\<close>

context block_device
begin

lemma read_entry_at:
  assumes "fs_at D N dev_ok s L M w" "M \<subseteq> L" "card L < BLOCK_CACHE_SIZE" "b < N" "b \<notin> L" "i < 128"
  shows "\<exists>s'. read_entry D b i s = Ok (indirect_block (w b) ! i, s') \<and> fs_at D N dev_ok s' L M w"
proof -
  have "length (w b) = 512" using fs_at_length [OF assms(1,4)] by (simp add: BLOCK_SIZE_def)
  with assms show ?thesis
    unfolding read_entry_def by (intro bc_read_rule) (auto simp: BLOCK_SIZE_def)
qed

lemma get_block_id_at:
  assumes at: "fs_at D N dev_ok s L M w" "M \<subseteq> L" "card L < BLOCK_CACHE_SIZE"
    and tree: "tree_ok N L w di n" "k < n"
  shows "\<exists>s'. get_block_id D di (of_nat k) s = Ok (block_at w di k, s') \<and> fs_at D N dev_ok s' L M w"
proof -
  have k: "k < 16540" using tree by (simp add: tree_ok_def layout_consts)
  then have u: "unat (of_nat k :: u32) = k" by (simp add: unat_of_nat)
  consider "k < 28" | "28 \<le> k" "k < 156" | "156 \<le> k" by linarith
  then show ?thesis
  proof cases
    case 1
    then show ?thesis using at tree by (simp add: get_block_id_def u layout_consts block_at_def tree_ok_def)
  next
    case 2
    then have "unat (indirect1 di) \<in> set (meta_ids w di n)" using tree(2) by (intro meta_ids_mem) simp
    with tree_ok_meta [OF tree(1)] have b: "unat (indirect1 di) < N" "unat (indirect1 di) \<notin> L" by blast+
    from read_entry_at [OF at b, of "k - 28"] 2 show ?thesis
      by (simp add: get_block_id_def u layout_consts block_at_def)
  next
    case 3
    let ?e = "indirect_block (w (unat (indirect2 di))) ! ((k - 156) div 128)"
    have "unat (indirect2 di) \<in> set (meta_ids w di n)" using tree(2) 3 by (intro meta_ids_mem) simp
    with tree_ok_meta [OF tree(1)] have b: "unat (indirect2 di) < N" "unat (indirect2 di) \<notin> L" by blast+
    have "(k - 156) div 128 < 128" using k by linarith
    from read_entry_at [OF at b this] obtain s1 where
      s1: "read_entry D (unat (indirect2 di)) ((k - 156) div 128) s = Ok (?e, s1)" "fs_at D N dev_ok s1 L M w" by blast
    have "unat ?e \<in> set (meta_ids w di n)" by (rule meta_ids_mem(3) [OF index_count_less [OF 3 tree(2)]])
    with tree_ok_meta [OF tree(1)] have e: "unat ?e < N" "unat ?e \<notin> L" by blast+
    from read_entry_at [OF s1(2) at(2,3) e, of "(k - 156) mod 128"] s1(1) 3 k show ?thesis
      by (simp add: get_block_id_def u layout_consts block_at_def Let_def)
  qed
qed

end

section \<open>Files as byte sequences\<close>

lemma length_concat_blocks: "\<forall>x \<in> set xss. length x = B \<Longrightarrow> length (concat xss) = length xss * B"
  by (induction xss) auto

lemma take_drop_concat:
  assumes "\<forall>x \<in> set xss. length x = B" "i < length xss" "j + m \<le> B"
  shows "take m (drop (i * B + j) (concat xss)) = take m (drop j (xss ! i))"
  using assms
proof (induction xss arbitrary: i)
  case (Cons x xss)
  then show ?case
  proof (cases i)
    case (Suc k)
    with Cons have "take m (drop (k * B + j) (concat xss)) = take m (drop j (xss ! k))" by simp
    moreover have "drop (i * B + j) (x @ concat xss) = drop (k * B + j) (concat xss)"
      using Cons.prems Suc by (simp add: add.assoc)
    ultimately show ?thesis using Suc by simp
  qed simp
qed simp

lemma splice_concat:
  assumes "\<forall>x \<in> set xss. length x = B" "i < length xss" "j + length bs \<le> B"
  shows "concat (xss[i := splice j bs (xss ! i)]) = splice (i * B + j) bs (concat xss)"
  using assms
proof (induction xss arbitrary: i)
  case (Cons x xss)
  then show ?case
  proof (cases i)
    case 0
    with Cons.prems show ?thesis by (simp add: splice_def)
  next
    case (Suc k)
    with Cons have "concat (xss[k := splice j bs (xss ! k)]) = splice (k * B + j) bs (concat xss)" by simp
    moreover have "splice (i * B + j) bs (x @ concat xss) = x @ splice (k * B + j) bs (concat xss)"
      using Cons.prems Suc by (simp add: splice_def add.assoc)
    ultimately show ?thesis using Suc by simp
  qed
qed simp

lemma map_fun_upd_nth:
  assumes "distinct ids" "i < length ids"
  shows "map (f(ids ! i := v)) ids = (map f ids)[i := v]"
  using assms by (intro nth_equalityI) (auto simp: nth_list_update nth_eq_iff_index_eq)

lemma splice_append:
  assumes "a + length xs \<le> length zs"
  shows "splice (a + length xs) ys (splice a xs zs) = splice a (xs @ ys) zs"
  using assms by (simp add: splice_def ac_simps)

lemma mod_BLOCK_SIZE: "k mod BLOCK_SIZE = k mod 512"
  by (simp add: BLOCK_SIZE_def)

lemma splice_nil [simp]: "splice a [] zs = zs"
  by (simp add: splice_def)

text \<open>The contents of the data blocks, and the file: as much of them as the size says.\<close>

definition raw_bytes :: "disk \<Rightarrow> DiskInode \<Rightarrow> nat \<Rightarrow> u8 list" where
  "raw_bytes w di n = concat (map w (data_ids w di n))"

definition file_bytes :: "disk \<Rightarrow> DiskInode \<Rightarrow> u8 list" where
  "file_bytes w di = take (unat (di_size di)) (raw_bytes w di (unat (data_blocks di)))"

lemma raw_bytes_block:
  assumes "\<forall>b < N. length (w b) = 512" "tree_ok N L w di n" "k < n" "j + m \<le> 512"
  shows "take m (drop (k * 512 + j) (raw_bytes w di n)) = take m (drop j (w (unat (block_at w di k))))"
    and length_raw_bytes: "length (raw_bytes w di n) = n * 512"
proof -
  have all: "\<forall>x \<in> set (map w (data_ids w di n)). length x = 512"
    using assms(1,2) by (auto simp: tree_ok_def tree_ids_def)
  from take_drop_concat [OF all _ assms(4), of k] assms(3)
  show "take m (drop (k * 512 + j) (raw_bytes w di n)) = take m (drop j (w (unat (block_at w di k))))"
    by (simp add: raw_bytes_def data_ids_nth)
  show "length (raw_bytes w di n) = n * 512"
    using length_concat_blocks [OF all] by (simp add: raw_bytes_def)
qed

lemma raw_bytes_splice:
  assumes "\<forall>b < N. length (w b) = 512" "tree_ok N L w di n" "k < n" "j + length bs \<le> 512"
  defines "w' \<equiv> w(unat (block_at w di k) := splice j bs (w (unat (block_at w di k))))"
  shows "raw_bytes w' di n = splice (k * 512 + j) bs (raw_bytes w di n)"
    and "tree_ids w' di n = tree_ids w di n" and "block_at w' di k' = block_at w di k' \<or> n \<le> k'"
proof -
  have all: "\<forall>x \<in> set (map w (data_ids w di n)). length x = 512"
    using assms(1,2) by (auto simp: tree_ok_def tree_ids_def)
  have same: "\<forall>b \<in> set (meta_ids w di n). w' b = w b"
    using tree_ok_data [OF assms(2,3)] by (auto simp: w'_def)
  from tree_ids_cong [OF same] show "tree_ids w' di n = tree_ids w di n" by simp
  from block_at_cong [OF same refl refl refl, of k'] show "block_at w' di k' = block_at w di k' \<or> n \<le> k'"
    by (cases "k' < n") simp_all
  have ids: "data_ids w' di n = data_ids w di n" using data_ids_cong [OF same] by simp
  have "distinct (data_ids w di n)" using assms(2) by (simp add: tree_ok_def tree_ids_def)
  from map_fun_upd_nth [OF this, of k w "splice j bs (w (unat (block_at w di k)))"] assms(3)
  have "map w' (data_ids w di n) = (map w (data_ids w di n))[k := splice j bs (map w (data_ids w di n) ! k)]"
    by (simp add: w'_def data_ids_nth)
  with splice_concat [OF all _ assms(4), of k] assms(3)
  show "raw_bytes w' di n = splice (k * 512 + j) bs (raw_bytes w di n)"
    by (simp add: raw_bytes_def ids)
qed

declare read_at_loop.simps [simp del] write_at_loop.simps [simp del] fill_entries.simps [simp del]
  fill_indirect2.simps [simp del] take_entries.simps [simp del]

context block_device
begin

lemma fs_at_lengths: "fs_at D N dev_ok s L M w \<Longrightarrow> \<forall>b < N. length (w b) = 512"
  using fs_at_length by (auto simp: BLOCK_SIZE_def)

lemma read_block_at:
  assumes at: "fs_at D N dev_ok s L M w" "M \<subseteq> L" "card L < BLOCK_CACHE_SIZE"
    and tree: "tree_ok N L w di n" "k < n" and fit: "j + m \<le> 512"
  shows "\<exists>s'. bc_read D (unat (block_at w di k)) 0 BLOCK_SIZE
      (\<lambda>bs s. and_then (slice bs j (j + m)) (\<lambda>src. Ok (src, s))) s
        = Ok (take m (drop (k * 512 + j) (raw_bytes w di n)), s') \<and> fs_at D N dev_ok s' L M w"
proof -
  let ?b = "unat (block_at w di k)"
  from tree_ok_data [OF tree] at(2) have b: "?b < N" "?b \<notin> L" "?b \<notin> M" by auto
  have len: "length (w ?b) = 512" using fs_at_lengths [OF at(1)] b(1) by blast
  have eq: "take m (drop (k * 512 + j) (raw_bytes w di n)) = take m (drop j (w ?b))"
    by (rule raw_bytes_block [OF fs_at_lengths [OF at(1)] tree fit])
  show ?thesis unfolding eq
    by (rule bc_read_rule [OF at(1) b at(3)]) (use len fit in \<open>simp_all add: BLOCK_SIZE_def slice_def\<close>)
qed

lemma read_at_loop_at:
  assumes at: "fs_at D N dev_ok s L M w" "M \<subseteq> L" "card L < BLOCK_CACHE_SIZE"
    and tree: "tree_ok N L w di n" "end_pos \<le> n * 512"
    and pos: "start < end_pos" "offset \<le> start" "start div 512 = start_block" "end_pos \<le> offset + length buf0"
    and buf: "buf = splice 0 (take (start - offset) (drop offset (raw_bytes w di n))) buf0"
  shows "\<exists>s'. read_at_loop D di end_pos start_block start (start - offset) buf s
      = Ok ((end_pos - offset, splice 0 (take (end_pos - offset) (drop offset (raw_bytes w di n))) buf0), s')
    \<and> fs_at D N dev_ok s' L M w"
  using at(1) pos buf
proof (induction "end_pos - start" arbitrary: s start start_block buf rule: less_induct)
  case less
  let ?F = "raw_bytes w di n"
  define e where "e = min ((start_block + 1) * BLOCK_SIZE) end_pos"
  define m where "m = e - start"
  have sb: "start_block * 512 + start mod 512 = start" using less.prems(4) by (metis div_mult_mod_eq)
  have e: "start < e" "e \<le> end_pos" "start mod 512 + m \<le> 512" "e = start + m"
    using sb less.prems(2) unfolding e_def m_def BLOCK_SIZE_def by (auto simp: min_def)
  have k: "start_block < n" using less.prems(2,4) tree(2) by auto
  have lenF: "length ?F = n * 512" by (rule length_raw_bytes [OF fs_at_lengths [OF at(1)] tree(1) k, of 0 0]) simp
  from get_block_id_at [OF less.prems(1) at(2,3) tree(1) k] obtain s1 where
    s1: "get_block_id D di (of_nat start_block) s = Ok (block_at w di start_block, s1)" "fs_at D N dev_ok s1 L M w" by blast
  from read_block_at [OF s1(2) at(2,3) tree(1) k e(3)] obtain s2 where
    s2: "bc_read D (unat (block_at w di start_block)) 0 BLOCK_SIZE
      (\<lambda>bs s. and_then (slice bs (start mod 512) (start mod 512 + m)) (\<lambda>src. Ok (src, s))) s1
        = Ok (take m (drop start ?F), s2)" "fs_at D N dev_ok s2 L M w" unfolding sb by blast
  define buf' where "buf' = splice (start - offset) (take m (drop start ?F)) buf"
  have lenb: "length buf = length buf0" using less.prems(2,3,5,6) by (simp add: splice_length lenF)
  have part: "length (take (start - offset) (drop offset ?F)) = start - offset"
    using lenF tree(2) less.prems(2,3) by simp
  have buf': "buf' = splice 0 (take (e - offset) (drop offset ?F)) buf0"
  proof -
    have "take (e - offset) (drop offset ?F) = take (start - offset) (drop offset ?F) @ take m (drop start ?F)"
      using e(4) less.prems(3) take_add [of "start - offset" m "drop offset ?F"] by simp
    with splice_append [of 0 "take (start - offset) (drop offset ?F)" buf0 "take m (drop start ?F)"] part less.prems(2,3,5)
    show ?thesis by (simp add: buf'_def less.prems(6))
  qed
  have sl: "slice buf (start - offset) (start - offset + m) \<noteq> Panic x" "is_ok (slice buf (start - offset) (start - offset + m))" for x
    using e less.prems(3,5) lenb by (auto simp: slice_def)
  then obtain y where y: "slice buf (start - offset) (start - offset + m) = Ok y" by (auto simp: is_ok_conv)
  have step: "read_at_loop D di end_pos start_block start (start - offset) buf s =
      (if e = end_pos then Ok ((start - offset + m, buf'), s2)
       else read_at_loop D di end_pos (start_block + 1) e (start - offset + m) buf' s2)"
    by (subst read_at_loop.simps)
      (simp only: Let_def e_def [symmetric] m_def [symmetric] mod_BLOCK_SIZE y s1(1) s2(1) and_then_simps prod.case buf'_def)
  show ?case
  proof (cases "e = end_pos")
    case True
    then show ?thesis using step s2(2) buf' e less.prems(3) by simp
  next
    case False
    then have e': "e = (start_block + 1) * 512" "e < end_pos" using e(2) by (auto simp: e_def BLOCK_SIZE_def min_def split: if_splits)
    have "start - offset + m = e - offset" using e(4) less.prems(3) by simp
    with step False less.hyps [OF _ s2(2) e'(2) _ _ less.prems(5) buf', of "start_block + 1"] e e' less.prems(2,3)
    show ?thesis by simp
  qed
qed

lemma DiskInode_read_at_at:
  assumes at: "fs_at D N dev_ok s L M w" "M \<subseteq> L" "card L < BLOCK_CACHE_SIZE"
    and tree: "tree_ok N L w di (unat (data_blocks di))" and sz: "unat (di_size di) + 511 < 2 ^ 32"
    and off: "offset + length buf < 2 ^ 64"
  shows "\<exists>s'. DiskInode_read_at D di offset buf s
      = Ok ((min (length buf) (unat (di_size di) - offset), splice 0 (take (length buf) (drop offset (file_bytes w di))) buf), s')
    \<and> fs_at D N dev_ok s' L M w"
proof -
  let ?n = "unat (data_blocks di)" and ?sz = "unat (di_size di)"
  let ?F = "raw_bytes w di ?n"
  define e where "e = min (offset + length buf) ?sz"
  have sz_n: "?sz \<le> ?n * 512" using data_blocks_of_bounds [OF sz] by (simp add: data_blocks_def)
  have me: "min (length buf) (?sz - offset) = e - offset" unfolding e_def by linarith
  have f: "take (length buf) (drop offset (file_bytes w di)) = take (e - offset) (drop offset ?F)"
    unfolding file_bytes_def drop_take take_take me ..
  have unf: "DiskInode_read_at D di offset buf s =
      (if e \<le> offset then Ok ((0, buf), s) else read_at_loop D di e (offset div BLOCK_SIZE) offset 0 buf s)"
    using off by (simp add: DiskInode_read_at_def e_def)
  show ?thesis
  proof (cases "e \<le> offset")
    case True
    then show ?thesis using at(1) unfolding unf f me by simp
  next
    case False
    then have pos: "offset < e" "e \<le> ?n * 512" "e \<le> offset + length buf" using sz_n by (auto simp: e_def)
    with read_at_loop_at [OF at tree pos(2,1) order_refl _ pos(3), of "offset div 512" buf] False show ?thesis
      unfolding unf f me by (simp add: BLOCK_SIZE_def)
  qed
qed

lemma write_block_at:
  assumes at: "fs_at D N dev_ok s L M w" "M \<subseteq> L" "card L < BLOCK_CACHE_SIZE"
    and tree: "tree_ok N L w di n" "k < n" and fit: "j + m \<le> 512" and buf: "p + m \<le> length buf"
  defines "b \<equiv> unat (block_at w di k)"
  shows "\<exists>s'. bc_modify D b 0 BLOCK_SIZE (\<lambda>bs s.
           and_then (slice buf p (p + m)) (\<lambda>src.
           and_then (slice bs j (j + m)) (\<lambda>_. Ok ((), splice j src bs, s)))) s = Ok ((), s')
      \<and> fs_at D N dev_ok s' L M (w(b := splice j (take m (drop p buf)) (w b)))"
proof -
  from tree_ok_data [OF tree] at(2) have b: "b < N" "b \<notin> L" "b \<notin> M" by (auto simp: b_def)
  have len: "length (w b) = 512" using fs_at_lengths [OF at(1)] b(1) by blast
  let ?bs = "splice j (take m (drop p buf)) (w b)"
  have lbs: "length ?bs = 512" using len fit buf by (simp add: splice_length)
  have "\<exists>s'. bc_modify D b 0 BLOCK_SIZE (\<lambda>bs s.
           and_then (slice buf p (p + m)) (\<lambda>src.
           and_then (slice bs j (j + m)) (\<lambda>_. Ok ((), splice j src bs, s)))) s = Ok ((), s')
      \<and> fs_at D N dev_ok s' L M (w(b := splice 0 ?bs (w b)))"
    by (rule bc_modify_rule [OF at(1) b at(3)]) (use len lbs fit buf in \<open>simp_all add: BLOCK_SIZE_def slice_def\<close>)
  with lbs len show ?thesis by (simp add: splice_all)
qed

lemma write_at_loop_at:
  assumes at: "fs_at D N dev_ok s L M w" "M \<subseteq> L" "card L < BLOCK_CACHE_SIZE"
    and tree: "tree_ok N L w0 di n" "end_pos \<le> n * 512" "\<forall>b < N. length (w0 b) = 512"
    and pos: "start < end_pos" "offset \<le> start" "start div 512 = start_block" "end_pos \<le> offset + length buf"
    and w: "raw_bytes w di n = splice offset (take (start - offset) buf) (raw_bytes w0 di n)"
      "\<forall>b. b \<notin> set (data_ids w0 di n) \<longrightarrow> w b = w0 b"
  shows "\<exists>s' w'. write_at_loop D di end_pos start_block start (start - offset) buf s = Ok (end_pos - offset, s')
    \<and> fs_at D N dev_ok s' L M w'
    \<and> raw_bytes w' di n = splice offset (take (end_pos - offset) buf) (raw_bytes w0 di n)
    \<and> (\<forall>b. b \<notin> set (data_ids w0 di n) \<longrightarrow> w' b = w0 b)"
  using at(1) pos w
proof (induction "end_pos - start" arbitrary: s start start_block w rule: less_induct)
  case less
  have "\<forall>b \<in> set (meta_ids w0 di n). w b = w0 b" using tree(1) less.prems(7) by (auto simp: tree_ok_def tree_ids_def)
  then have ids: "tree_ids w di n = tree_ids w0 di n" "data_ids w di n = data_ids w0 di n"
    using tree_ids_cong [of w0 di n w di] data_ids_cong [of w0 di n w di] by simp_all
  with tree(1) have ok: "tree_ok N L w di n" by (simp add: tree_ok_def)
  define e where "e = min ((start_block + 1) * BLOCK_SIZE) end_pos"
  define m where "m = e - start"
  have sb: "start_block * 512 + start mod 512 = start" using less.prems(4) by (metis div_mult_mod_eq)
  have e: "start < e" "e \<le> end_pos" "start mod 512 + m \<le> 512" "e = start + m"
    using sb less.prems(2) unfolding e_def m_def BLOCK_SIZE_def by (auto simp: min_def)
  have k: "start_block < n" using less.prems(2,4) tree(2) by auto
  from get_block_id_at [OF less.prems(1) at(2,3) ok k] obtain s1 where
    s1: "get_block_id D di (of_nat start_block) s = Ok (block_at w di start_block, s1)" "fs_at D N dev_ok s1 L M w" by blast
  have p: "start - offset + m \<le> length buf" using e less.prems(3,5) by simp
  let ?b = "unat (block_at w di start_block)"
  define w1 where "w1 = w(?b := splice (start mod 512) (take m (drop (start - offset) buf)) (w ?b))"
  from write_block_at [OF s1(2) at(2,3) ok k e(3) p] obtain s2 where
    s2: "bc_modify D ?b 0 BLOCK_SIZE (\<lambda>bs s.
           and_then (slice buf (start - offset) (start - offset + m)) (\<lambda>src.
           and_then (slice bs (start mod 512) (start mod 512 + m)) (\<lambda>_. Ok ((), splice (start mod 512) src bs, s)))) s1 = Ok ((), s2)"
      "fs_at D N dev_ok s2 L M w1" unfolding w1_def by blast
  have src: "start mod 512 + length (take m (drop (start - offset) buf)) \<le> 512" using e(3) by simp
  have lenF: "length (raw_bytes w0 di n) = n * 512" using k by (intro length_raw_bytes [OF tree(3,1) k, of 0 0]) simp
  have "raw_bytes w1 di n = splice start (take m (drop (start - offset) buf)) (raw_bytes w di n)"
    using raw_bytes_splice(1) [OF fs_at_lengths [OF less.prems(1)] ok k src] by (simp add: w1_def sb)
  also have "\<dots> = splice offset (take (e - offset) buf) (raw_bytes w0 di n)"
  proof -
    have "take (e - offset) buf = take (start - offset) buf @ take m (drop (start - offset) buf)"
      using e(4) less.prems(3) take_add [of "start - offset" m buf] by simp
    moreover have "length (take (start - offset) buf) = start - offset" using less.prems(2,5) by simp
    ultimately show ?thesis
      using splice_append [of offset "take (start - offset) buf" "raw_bytes w0 di n"] less.prems(2,3,6) tree(2) lenF by simp
  qed
  finally have raw1: "raw_bytes w1 di n = splice offset (take (e - offset) buf) (raw_bytes w0 di n)" .
  have "?b \<in> set (data_ids w0 di n)" using nth_mem [of start_block "data_ids w di n"] k
    by (simp only: length_data_ids data_ids_nth) (simp only: ids(2))
  then have out1: "\<forall>b. b \<notin> set (data_ids w0 di n) \<longrightarrow> w1 b = w0 b" using less.prems(7) by (auto simp: w1_def)
  have step: "write_at_loop D di end_pos start_block start (start - offset) buf s =
      (if e = end_pos then Ok (start - offset + m, s2)
       else write_at_loop D di end_pos (start_block + 1) e (start - offset + m) buf s2)"
    by (subst write_at_loop.simps)
      (simp only: Let_def e_def [symmetric] m_def [symmetric] mod_BLOCK_SIZE s1(1) s2(1) and_then_simps prod.case)
  have prog: "start - offset + m = e - offset" using e(4) less.prems(3) by simp
  show ?case
  proof (cases "e = end_pos")
    case True
    then show ?thesis using step s2(2) raw1 out1 prog by auto
  next
    case False
    then have e': "e = (start_block + 1) * 512" "e < end_pos" using e(2) by (auto simp: e_def BLOCK_SIZE_def min_def split: if_splits)
    have "end_pos - e < end_pos - start" "offset \<le> e" "e div 512 = start_block + 1" using e e' less.prems(2,3) by simp_all
    with less.hyps [OF this(1) s2(2) e'(2) this(2,3) less.prems(5) raw1 out1] step False prog
    show ?thesis by simp
  qed
qed

lemma DiskInode_write_at_at:
  assumes at: "fs_at D N dev_ok s L M w" "M \<subseteq> L" "card L < BLOCK_CACHE_SIZE"
    and tree: "tree_ok N L w di (unat (data_blocks di))" and sz: "unat (di_size di) + 511 < 2 ^ 32"
    and off: "offset + length buf \<le> unat (di_size di)"
  shows "\<exists>s' w'. DiskInode_write_at D di offset buf s = Ok (length buf, s') \<and> fs_at D N dev_ok s' L M w'
    \<and> raw_bytes w' di (unat (data_blocks di)) = splice offset buf (raw_bytes w di (unat (data_blocks di)))
    \<and> (\<forall>b. b \<notin> set (data_ids w di (unat (data_blocks di))) \<longrightarrow> w' b = w b)"
proof -
  let ?n = "unat (data_blocks di)" and ?e = "offset + length buf"
  have sz_n: "?e \<le> ?n * 512" using data_blocks_of_bounds [OF sz] off by (simp add: data_blocks_def)
  have unf: "DiskInode_write_at D di offset buf s =
      (if ?e \<le> offset then Ok (0, s) else write_at_loop D di ?e (offset div BLOCK_SIZE) offset 0 buf s)"
  proof -
    have "?e mod 2 ^ 64 = ?e" using off unat_u32_bound [of "di_size di"] by simp
    with off show ?thesis unfolding DiskInode_write_at_def by (simp only: min_absorb1 Let_def)
  qed
  show ?thesis
  proof (cases "buf = []")
    case True
    then show ?thesis using at(1) unfolding unf by auto
  next
    case False
    then have "offset < ?e" by simp
    from write_at_loop_at [OF at tree sz_n fs_at_lengths [OF at(1)] this order_refl refl order_refl] False show ?thesis
      unfolding unf by (simp add: BLOCK_SIZE_def)
  qed
qed

end

end
