(* ===== verification/Inode_Grow.thy ===== *)
theory Inode_Grow
  imports Inode_Tree "HOL-Library.Multiset"
begin

text \<open>
  What \<^verbatim>\<open>DiskInode::increase_size\<close> and \<^verbatim>\<open>DiskInode::clear_size\<close> do to the blocks of an inode. Growth is a
  sequence of steps, each of which puts one new block into the tree; the relation \<open>grow\<close> between
  the tree at the start and the present one is what every step keeps: the old data blocks
  stay first and in order, the blocks of numbers stay such blocks, the tree owns exactly the old blocks and those used so far, and
  only blocks that hold block numbers were written.
\<close>

section \<open>Steps of growth\<close>

definition grow ::
    "disk \<Rightarrow> nat list \<Rightarrow> nat set \<Rightarrow> nat list \<Rightarrow> u32 list \<Rightarrow> disk \<Rightarrow> DiskInode \<Rightarrow> nat \<Rightarrow> bool \<Rightarrow> bool \<Rightarrow> nat \<Rightarrow> bool" where
  "grow w0 ids0 m0 t0 used w di cur h1 h2 nx \<longleftrightarrow>
     length (direct di) = 28 \<and> (\<exists>xs. data_ids w di cur = ids0 @ xs) \<and> m0 \<subseteq> set (metas w di h1 h2 nx)
     \<and> mset (data_ids w di cur @ metas w di h1 h2 nx) = mset (t0 @ map unat used)
     \<and> (\<forall>b. b \<notin> set (metas w di h1 h2 nx) \<longrightarrow> w b = w0 b)"

lemma grow_data:
  assumes "grow w0 ids0 m0 t0 used w di cur h1 h2 nx" "length (direct di') = 28"
    and "data_ids w' di' cur' = data_ids w di cur @ map unat xs" "metas w' di' h1 h2 nx = metas w di h1 h2 nx"
    and "\<forall>b. b \<notin> set (metas w di h1 h2 nx) \<longrightarrow> w' b = w b"
  shows "grow w0 ids0 m0 t0 (used @ xs) w' di' cur' h1 h2 nx"
  using assms by (auto simp: grow_def)

lemma grow_direct_length: "grow w0 ids0 m0 t0 used w di cur h1 h2 nx \<Longrightarrow> length (direct di) = 28"
  by (simp add: grow_def)

lemma grow_meta:
  assumes "grow w0 ids0 m0 t0 used w di cur h1 h2 nx" "length (direct di') = 28"
    and "data_ids w' di' cur = data_ids w di cur" "metas w' di' h1' h2' nx' = metas w di h1 h2 nx @ [unat x]"
    and "\<forall>b. b \<notin> set (metas w di h1 h2 nx) \<longrightarrow> w' b = w b"
  shows "grow w0 ids0 m0 t0 (used @ [x]) w' di' cur h1' h2' nx'"
  using assms by (auto simp: grow_def)

lemma data_ids_append:
  assumes "\<And>k. k < cur \<Longrightarrow> block_at w' di' k = block_at w di k"
    and "\<And>j. j < length xs \<Longrightarrow> block_at w' di' (cur + j) = xs ! j"
  shows "data_ids w' di' (cur + length xs) = data_ids w di cur @ map unat xs"
proof (rule nth_equalityI)
  fix i assume "i < length (data_ids w' di' (cur + length xs))"
  then show "data_ids w' di' (cur + length xs) ! i = (data_ids w di cur @ map unat xs) ! i"
    using assms(1) [of i] assms(2) [of "i - cur"] by (cases "i < cur") (simp_all add: data_ids_nth nth_append)
qed simp

lemma data_ids_eq:
  assumes "\<And>k. k < cur \<Longrightarrow> block_at w' di' k = block_at w di k"
  shows "data_ids w' di' cur = data_ids w di cur"
  using assms by (simp add: data_ids_def)

definition put_entries :: "nat \<Rightarrow> u32 list \<Rightarrow> u32 list \<Rightarrow> u32 list" where
  "put_entries cur xs ents = take cur ents @ xs @ drop (cur + length xs) ents"

lemma put_entries_nth:
  assumes "cur + length xs \<le> length ents"
  shows "k < cur \<Longrightarrow> put_entries cur xs ents ! k = ents ! k" "j < length xs \<Longrightarrow> put_entries cur xs ents ! (cur + j) = xs ! j"
    "length (put_entries cur xs ents) = length ents"
  using assms by (auto simp: put_entries_def nth_append)

lemma grow_direct:
  assumes "grow w0 ids0 m0 t0 used w di cur False False 0" "cur + length xs \<le> 28"
  shows "grow w0 ids0 m0 t0 (used @ xs) w (di\<lparr>direct := put_entries cur xs (direct di)\<rparr>) (cur + length xs) False False 0"
proof (rule grow_data [OF assms(1)])
  have len: "cur + length xs \<le> length (direct di)" using assms by (simp add: grow_def)
  note put = put_entries_nth [OF len]
  show "length (direct (di\<lparr>direct := put_entries cur xs (direct di)\<rparr>)) = 28"
    using assms put(3) by (simp add: grow_def)
  show "data_ids w (di\<lparr>direct := put_entries cur xs (direct di)\<rparr>) (cur + length xs) = data_ids w di cur @ map unat xs"
    using assms(2) put by (intro data_ids_append) (auto simp: block_at_def)
qed (simp_all add: metas_def)

lemma grow_set_indirect1:
  assumes "grow w0 ids0 m0 t0 used w di 28 False False 0"
  shows "grow w0 ids0 m0 t0 (used @ [x]) w (di\<lparr>indirect1 := x\<rparr>) 28 True False 0"
proof (rule grow_meta [OF assms])
  show "data_ids w (di\<lparr>indirect1 := x\<rparr>) 28 = data_ids w di 28" by (rule data_ids_eq) (simp add: block_at_def)
qed (use grow_direct_length [OF assms] in \<open>simp_all add: metas_def\<close>)

lemma grow_indirect1:
  assumes "grow w0 ids0 m0 t0 used w di cur True False 0" "28 \<le> cur" "cur + length xs \<le> 156"
    and "length (w (unat (indirect1 di))) = 512"
  defines "i1 \<equiv> unat (indirect1 di)"
  shows "grow w0 ids0 m0 t0 (used @ xs) (w(i1 := indirect_bytes (put_entries (cur - 28) xs (indirect_block (w i1))))) di
    (cur + length xs) True False 0"
proof (rule grow_data [OF assms(1)])
  have len: "cur - 28 + length xs \<le> length (indirect_block (w i1))" using assms(2-4) by (simp add: i1_def)
  note put = put_entries_nth [OF len]
  let ?w' = "w(i1 := indirect_bytes (put_entries (cur - 28) xs (indirect_block (w i1))))"
  show "data_ids ?w' di (cur + length xs) = data_ids w di cur @ map unat xs"
  proof (rule data_ids_append)
    show "block_at ?w' di k = block_at w di k" if "k < cur" for k
      using that assms(2,3) put(1) by (auto simp: block_at_def i1_def)
    fix j assume j: "j < length xs"
    obtain c where c: "cur = 28 + c" using assms(2) le_Suc_ex by blast
    show "block_at ?w' di (cur + j) = xs ! j"
      using put(2) [OF j] j assms(3) by (simp add: block_at_def i1_def c)
  qed
qed (use grow_direct_length [OF assms(1)] in \<open>simp_all add: metas_def i1_def\<close>)

lemma grow_set_indirect2:
  assumes "grow w0 ids0 m0 t0 used w di 156 True False 0"
  shows "grow w0 ids0 m0 t0 (used @ [x]) w (di\<lparr>indirect2 := x\<rparr>) 156 True True 0"
proof (rule grow_meta [OF assms])
  show "data_ids w (di\<lparr>indirect2 := x\<rparr>) 156 = data_ids w di 156" by (rule data_ids_eq) (simp add: block_at_def)
qed (use grow_direct_length [OF assms] in \<open>simp_all add: metas_def\<close>)

text \<open>In the doubly indirect part \<open>ix\<close> are the entries of the indirect2 block.\<close>

lemma metas_distinctD:
  assumes "distinct (metas w di True True nx)"
  defines "ix \<equiv> \<lambda>a. unat (indirect_block (w (unat (indirect2 di))) ! a)"
  shows "unat (indirect1 di) \<noteq> unat (indirect2 di)"
    and "a < nx \<Longrightarrow> ix a \<noteq> unat (indirect1 di)" "a < nx \<Longrightarrow> ix a \<noteq> unat (indirect2 di)"
    and "a < nx \<Longrightarrow> c < nx \<Longrightarrow> ix a = ix c \<Longrightarrow> a = c"
proof -
  have d: "unat (indirect1 di) \<notin> set (unat (indirect2 di) # map ix [0..<nx])"
    "unat (indirect2 di) \<notin> set (map ix [0..<nx])" "distinct (map ix [0..<nx])"
    using assms(1) unfolding metas_def ix_def by simp_all
  then show "unat (indirect1 di) \<noteq> unat (indirect2 di)" by simp
  show "ix a \<noteq> unat (indirect1 di)" "ix a \<noteq> unat (indirect2 di)" if "a < nx" using d(1,2) that by force+
  from d(3) have "inj_on ix {0..<nx}" by (simp add: distinct_map)
  then show "a = c" if "a < nx" "c < nx" "ix a = ix c" using that by (simp add: inj_on_def)
qed

lemma grow_set_index:
  assumes "grow w0 ids0 m0 t0 used w di cur True True nx" "cur \<le> 156 + 128 * nx" "nx < 128"
    and "distinct (metas w di True True nx)" "length (w (unat (indirect2 di))) = 512"
  defines "i2 \<equiv> unat (indirect2 di)"
  shows "grow w0 ids0 m0 t0 (used @ [x]) (w(i2 := indirect_bytes ((indirect_block (w i2))[nx := x]))) di cur True True (Suc nx)"
proof (rule grow_meta [OF assms(1)])
  let ?w' = "w(i2 := indirect_bytes ((indirect_block (w i2))[nx := x]))"
  note d = metas_distinctD [OF assms(4)]
  have len: "nx < length (indirect_block (w i2))" using assms(3,5) by (simp add: i2_def)
  show "data_ids ?w' di cur = data_ids w di cur"
  proof (rule data_ids_eq)
    fix k assume k: "k < cur"
    show "block_at ?w' di k = block_at w di k"
    proof (cases "k < 156")
      case True
      then show ?thesis using d(1) by (simp add: block_at_def i2_def)
    next
      case False
      then have a: "(k - 156) div 128 < nx" using k assms(2) by (simp add: less_mult_imp_div_less)
      with d(3) [OF a] False show ?thesis by (simp add: block_at_def i2_def)
    qed
  qed
  show "metas ?w' di True True (Suc nx) = metas w di True True nx @ [unat x]"
    using len by (simp add: metas_def i2_def)
qed (use grow_direct_length [OF assms(1)] in \<open>simp_all add: metas_def i2_def\<close>)

lemma grow_index:
  assumes "grow w0 ids0 m0 t0 used w di cur True True nx" "156 \<le> cur" "(cur - 156) div 128 < nx" "nx \<le> 128"
    and last: "cur < 156 + 128 * nx"
    and "distinct (metas w di True True nx)"
  defines "b \<equiv> unat (indirect_block (w (unat (indirect2 di))) ! ((cur - 156) div 128))"
  assumes "length (w b) = 512"
  shows "grow w0 ids0 m0 t0 (used @ [x]) (w(b := indirect_bytes ((indirect_block (w b))[(cur - 156) mod 128 := x]))) di
    (Suc cur) True True nx"
proof (rule grow_data [OF assms(1)])
  let ?w' = "w(b := indirect_bytes ((indirect_block (w b))[(cur - 156) mod 128 := x]))"
  note d = metas_distinctD [OF assms(6)]
  have b: "b \<noteq> unat (indirect1 di)" "b \<noteq> unat (indirect2 di)"
    using d(2,3) [OF assms(3)] unfolding b_def by blast+
  have len: "(cur - 156) mod 128 < length (indirect_block (w b))" using assms(8) by simp
  have "data_ids ?w' di (cur + length [x]) = data_ids w di cur @ map unat [x]"
  proof (rule data_ids_append)
    fix k assume k: "k < cur"
    show "block_at ?w' di k = block_at w di k"
    proof (cases "k < 156")
      case True
      then show ?thesis using b by (simp add: block_at_def)
    next
      case False
      let ?c = "unat (indirect_block (w (unat (indirect2 di))) ! ((k - 156) div 128))"
      show ?thesis
      proof (cases "?c = b")
        case True
        have "(k - 156) div 128 \<le> (cur - 156) div 128" using k by (intro div_le_mono) simp
        then have "(k - 156) div 128 < nx" using assms(3) by linarith
        then have "(k - 156) div 128 = (cur - 156) div 128" using d(4) [OF _ assms(3)] True by (simp add: b_def)
        moreover have "k - 156 \<noteq> cur - 156" using k False by simp
        ultimately have "(k - 156) mod 128 \<noteq> (cur - 156) mod 128" by (metis div_mult_mod_eq)
        with True False b show ?thesis by (simp add: block_at_def)
      next
        case neq: False
        with False b show ?thesis by (simp add: block_at_def)
      qed
    qed
  next
    fix j assume "j < length [x]"
    then show "block_at ?w' di (cur + j) = [x] ! j" using assms(2) b len by (simp add: block_at_def b_def)
  qed
  then show "data_ids ?w' di (Suc cur) = data_ids w di cur @ map unat [x]" by simp
  show "metas ?w' di True True nx = metas w di True True nx" using b by (simp add: metas_def)
  show "\<forall>c. c \<notin> set (metas w di True True nx) \<longrightarrow> ?w' c = w c"
    using assms(3) by (auto simp: metas_def b_def)
qed (use grow_direct_length [OF assms(1)] in simp)

lemma grow_distinct:
  assumes "grow w0 ids0 m0 t0 used w di cur h1 h2 nx" "distinct (t0 @ map unat used)"
  shows "distinct (data_ids w di cur @ metas w di h1 h2 nx)"
proof -
  have "mset (data_ids w di cur @ metas w di h1 h2 nx) = mset (t0 @ map unat used)" using assms(1) by (simp add: grow_def)
  from mset_eq_imp_distinct_iff [OF this] assms(2) show ?thesis by simp
qed

lemma grow_set:
  assumes "grow w0 ids0 m0 t0 used w di cur h1 h2 nx"
  shows "set (data_ids w di cur) \<union> set (metas w di h1 h2 nx) = set t0 \<union> unat ` set used"
proof -
  have "mset (data_ids w di cur @ metas w di h1 h2 nx) = mset (t0 @ map unat used)" using assms by (simp add: grow_def)
  from mset_eq_setD [OF this] show ?thesis by simp
qed

lemma put_entries_Cons:
  assumes "cur + length (x # xs) \<le> length ents"
  shows "put_entries (Suc cur) xs (ents[cur := x]) = put_entries cur (x # xs) ents"
  using assms by (simp add: put_entries_def take_Suc_conv_app_nth drop_update_cancel)

lemma fill_entries_eq:
  assumes "bound \<le> length ents" "bound - cur \<le> length iter"
  shows "fill_entries cur bound ents iter
    = Ok (max cur bound, put_entries cur (take (bound - cur) iter) ents, drop (bound - cur) iter)"
  using assms
proof (induction cur bound ents iter rule: fill_entries.induct)
  case (1 cur bound ents iter)
  show ?case
  proof (cases "cur < bound")
    case True
    with "1.prems" obtain x iter' where iter: "iter = x # iter'" by (cases iter) auto
    have sub: "bound - cur = Suc (bound - Suc cur)" using True by simp
    have "fill_entries (Suc cur) bound (ents[cur := x]) iter'
        = Ok (max (Suc cur) bound, put_entries (Suc cur) (take (bound - Suc cur) iter') (ents[cur := x]), drop (bound - Suc cur) iter')"
      using "1.prems" True iter by (intro "1.IH") auto
    with True "1.prems" iter put_entries_Cons [of cur x "take (bound - Suc cur) iter'" ents] show ?thesis
      by (subst fill_entries.simps) (simp add: sub)
  next
    case False
    then show ?thesis by (subst fill_entries.simps) (simp add: put_entries_def)
  qed
qed

lemma index_count_pos: "b < 128 \<Longrightarrow> index_count (156 + a * 128 + b) = (if b = 0 then a else Suc a)"
  unfolding index_count_def by auto

text \<open>The blocks that the tree owns and those still to be used are distinct, exist, and are free to be locked.\<close>

definition supplied :: "nat \<Rightarrow> nat set \<Rightarrow> nat list \<Rightarrow> u32 list \<Rightarrow> bool" where
  "supplied N K t0 bs \<longleftrightarrow> distinct (t0 @ map unat bs) \<and> set (t0 @ map unat bs) \<subseteq> {..<N} - K"

lemma suppliedD:
  assumes "supplied N K t0 (used @ iter)" "grow w0 ids0 m0 t0 used w di cur h1 h2 nx"
  shows "distinct (data_ids w di cur @ metas w di h1 h2 nx)" "b \<in> set (metas w di h1 h2 nx) \<Longrightarrow> b < N \<and> b \<notin> K"
proof -
  show "distinct (data_ids w di cur @ metas w di h1 h2 nx)"
    by (rule grow_distinct [OF assms(2)]) (use assms(1) in \<open>auto simp: supplied_def\<close>)
  show "b < N \<and> b \<notin> K" if "b \<in> set (metas w di h1 h2 nx)"
  proof -
    have "b \<in> set t0 \<union> unat ` set used" using that grow_set [OF assms(2)] by blast
    moreover have "set t0 \<union> unat ` set used \<subseteq> {..<N} - K" using assms(1) by (simp add: supplied_def)
    ultimately show ?thesis by blast
  qed
qed

text \<open>The first half of an iteration of the doubly indirect loop: a new index block when needed.\<close>

lemma next_index:
  assumes g: "grow w0 ids0 m0 t0 used (w(i2 := indirect_bytes ents)) di cur True True (index_count cur)"
    and pos: "cur = 156 + a0 * 128 + b0" "b0 < 128" "a0 < 128" and i2: "i2 = unat (indirect2 di)" and len: "length ents = 128"
    and sup: "supplied N K t0 (used @ iter)" and iter: "(if b0 = 0 then 2 else 1) \<le> length iter"
  shows "\<exists>ents' used' iter'.
    (if b0 = 0 then case iter of [] \<Rightarrow> Panic UnwrapNone
        | x # iter \<Rightarrow> if a0 < length ents then Ok (ents[a0 := x], iter) else Panic OutOfBounds
     else Ok (ents, iter)) = Ok (ents', iter')
    \<and> used @ iter = used' @ iter' \<and> length iter' = length iter - (if b0 = 0 then 1 else 0) \<and> length ents' = 128
    \<and> grow w0 ids0 m0 t0 used' (w(i2 := indirect_bytes ents')) di cur True True (Suc a0)"
proof (cases "b0 = 0")
  case True
  with iter obtain x iter' where x: "iter = x # iter'" by (cases iter) auto
  have ic: "index_count cur = a0" using pos True index_count_pos [of 0 a0] by simp
  have "grow w0 ids0 m0 t0 (used @ [x]) ((w(i2 := indirect_bytes ents))(i2 := indirect_bytes
      ((indirect_block ((w(i2 := indirect_bytes ents)) i2))[a0 := x]))) di cur True True (Suc a0)"
    unfolding i2
  proof (rule grow_set_index)
    show "grow w0 ids0 m0 t0 used (w(unat (indirect2 di) := indirect_bytes ents)) di cur True True a0" using g ic i2 by simp
    show "distinct (metas (w(unat (indirect2 di) := indirect_bytes ents)) di True True a0)"
      using suppliedD(1) [OF sup g] ic i2 by simp
  qed (use pos True len in simp_all)
  with True x pos(3) len show ?thesis
    by (intro exI [of _ "ents[a0 := x]"] exI [of _ "used @ [x]"] exI [of _ iter']) simp
next
  case False
  then have ic: "index_count cur = Suc a0" using pos(1,2) index_count_pos [of b0 a0] by simp
  with False g len show ?thesis by (intro exI [of _ ents] exI [of _ used] exI [of _ iter]) simp
qed

context block_device
begin

text \<open>The second half: the next block number goes into the index block.\<close>

lemma put_index:
  assumes at: "fs_at D N dev_ok s L M w" "M \<subseteq> L" "card L < BLOCK_CACHE_SIZE"
    and g: "grow w0 ids0 m0 t0 used (w(i2 := indirect_bytes ents)) di cur True True (Suc a0)"
    and pos: "cur = 156 + a0 * 128 + b0" "b0 < 128" "a0 < 128" and i2: "i2 = unat (indirect2 di)" and len: "length ents = 128"
    and sup: "supplied N (L - {i2}) t0 (used @ x # iter)"
  shows "\<exists>s' w'. bc_modify D (unat (ents ! a0)) 0 BLOCK_SIZE (\<lambda>bs s.
             case x # iter of
               [] \<Rightarrow> Panic UnwrapNone
             | x # iter \<Rightarrow>
                 if b0 < length (indirect_block bs) then Ok (iter, indirect_bytes ((indirect_block bs)[b0 := x]), s)
                 else Panic OutOfBounds) s = Ok (iter, s')
    \<and> fs_at D N dev_ok s' L M w'
    \<and> grow w0 ids0 m0 t0 (used @ [x]) (w'(i2 := indirect_bytes ents)) di (Suc cur) True True (Suc a0)"
proof -
  let ?v = "w(i2 := indirect_bytes ents)"
  let ?b = "unat (ents ! a0)"
  have bv: "unat (indirect_block (?v (unat (indirect2 di))) ! a0) = ?b" by (simp add: i2)
  have dist: "distinct (metas ?v di True True (Suc a0))" using suppliedD(1) [OF sup g] by simp
  have "?b \<noteq> i2" using metas_distinctD(3) [OF dist, of a0] bv i2 by simp
  moreover have "?b \<in> set (metas ?v di True True (Suc a0))" using bv by (simp add: metas_def)
  ultimately have b: "?b < N" "?b \<notin> L" "?b \<noteq> i2" using suppliedD(2) [OF sup g, of ?b] by auto
  have bM: "?b \<notin> M" using b(2) at(2) by auto
  have lb: "length (w ?b) = 512" using fs_at_lengths [OF at(1)] b(1) by blast
  let ?bs = "indirect_bytes ((indirect_block (w ?b))[b0 := x])"
  have lbs: "length ?bs = 512" using lb by simp
  have run: "\<exists>s'. bc_modify D ?b 0 BLOCK_SIZE (\<lambda>bs s.
             case x # iter of
               [] \<Rightarrow> Panic UnwrapNone
             | x # iter \<Rightarrow>
                 if b0 < length (indirect_block bs) then Ok (iter, indirect_bytes ((indirect_block bs)[b0 := x]), s)
                 else Panic OutOfBounds) s = Ok (iter, s')
    \<and> fs_at D N dev_ok s' L M (w(?b := splice 0 ?bs (w ?b)))"
    by (rule bc_modify_rule [OF at(1) b(1,2) bM at(3)]) (use lb lbs pos in \<open>simp_all add: BLOCK_SIZE_def\<close>)
  have sp: "splice 0 ?bs (w ?b) = ?bs" using lb lbs by (intro splice_all) simp
  have g': "grow w0 ids0 m0 t0 (used @ [x]) (?v(?b := ?bs)) di (Suc cur) True True (Suc a0)"
  proof -
    have dm: "(cur - 156) div 128 = a0" "(cur - 156) mod 128 = b0" using pos by simp_all
    have vb: "?v ?b = w ?b" using b(3) by simp
    from grow_index [OF g _ _ _ _ dist, of x, unfolded dm bv vb] pos lb show ?thesis by simp
  qed
  have tw: "?v(?b := ?bs) = w(?b := ?bs, i2 := indirect_bytes ents)" using b(3) by (rule fun_upd_twist [OF not_sym])
  from run g' show ?thesis unfolding sp tw by blast
qed

lemma fill_indirect2_at:
  assumes "fs_at D N dev_ok s L M w" "M \<subseteq> L" "card L < BLOCK_CACHE_SIZE"
    and "grow w0 ids0 m0 t0 used (w(i2 := indirect_bytes ents)) di cur True True (index_count cur)"
    and "cur = 156 + a0 * 128 + b0" "b0 < 128" "tgt = 156 + a1 * 128 + b1" "b1 < 128" "tgt \<le> INDIRECT2_BOUND" "cur \<le> tgt"
    and "i2 = unat (indirect2 di)" "length ents = 128"
    and "supplied N (L - {i2}) t0 (used @ iter)" "length iter = (tgt - cur) + (index_count tgt - index_count cur)"
  shows "\<exists>s' w' ents'. fill_indirect2 D a0 b0 a1 b1 ents iter s = Ok (ents', [], s') \<and> fs_at D N dev_ok s' L M w'
    \<and> length ents' = 128
    \<and> grow w0 ids0 m0 t0 (used @ iter) (w'(i2 := indirect_bytes ents')) di tgt True True (index_count tgt)"
  using assms
proof (induction "tgt - cur" arbitrary: s w used ents cur a0 b0 iter rule: less_induct)
  case less
  note prems = less.prems
  show ?case
  proof (cases "cur = tgt")
    case True
    then have "\<not> (a0 < a1 \<or> a0 = a1 \<and> b0 < b1)" using prems(5-8) by linarith
    moreover have "iter = []" using prems(14) True by simp
    ultimately show ?thesis using prems(1,4,12) True by (subst fill_indirect2.simps) auto
  next
    case False
    then have lt: "cur < tgt" using prems(10) by simp
    then have cond: "a0 < a1 \<or> a0 = a1 \<and> b0 < b1" using prems(5-8) by linarith
    have a0: "a0 < 128" using lt prems(5,9) by (simp add: layout_consts)
    have ic: "index_count cur = (if b0 = 0 then a0 else Suc a0)" "index_count (Suc cur) = Suc a0"
      using prems(5,6) index_count_pos [of b0 a0] by (simp_all add: index_count_def)
    have mono: "index_count (Suc cur) \<le> index_count tgt" using lt by (simp add: index_count_def div_le_mono)
    have need: "(if b0 = 0 then 2 else 1) \<le> length iter" using prems(14) lt ic mono by auto
    from next_index [OF prems(4-6) a0 prems(11-13) need] obtain ents' used' iter' where
      n1: "(if b0 = 0 then case iter of [] \<Rightarrow> Panic UnwrapNone
          | x # iter \<Rightarrow> if a0 < length ents then Ok (ents[a0 := x], iter) else Panic OutOfBounds
        else Ok (ents, iter)) = Ok (ents', iter')"
      and n2: "used @ iter = used' @ iter'" "length iter' = length iter - (if b0 = 0 then 1 else 0)" "length ents' = 128"
      and n3: "grow w0 ids0 m0 t0 used' (w(i2 := indirect_bytes ents')) di cur True True (Suc a0)" by blast
    from n2(2) need obtain x iter2 where x: "iter' = x # iter2" by (cases iter') (auto split: if_splits)
    have sup': "supplied N (L - {i2}) t0 (used' @ x # iter2)" using prems(13) n2(1) x by simp
    from put_index [OF prems(1-3) n3 prems(5,6) a0 prems(11) n2(3) sup'] obtain s1 w1 where
      p1: "bc_modify D (unat (ents' ! a0)) 0 BLOCK_SIZE (\<lambda>bs s.
             case x # iter2 of
               [] \<Rightarrow> Panic UnwrapNone
             | x # iter \<Rightarrow>
                 if b0 < length (indirect_block bs) then Ok (iter, indirect_bytes ((indirect_block bs)[b0 := x]), s)
                 else Panic OutOfBounds) s = Ok (iter2, s1)"
      and p2: "fs_at D N dev_ok s1 L M w1"
        "grow w0 ids0 m0 t0 (used' @ [x]) (w1(i2 := indirect_bytes ents')) di (Suc cur) True True (Suc a0)" by blast
    have step: "fill_indirect2 D a0 b0 a1 b1 ents iter s =
        (if Suc b0 = INODE_INDIRECT1_COUNT then fill_indirect2 D (Suc a0) 0 a1 b1 ents' iter2 s1
         else if Suc b0 < INODE_INDIRECT1_COUNT then fill_indirect2 D a0 (Suc b0) a1 b1 ents' iter2 s1 else Panic OutOfBounds)"
    proof -
      have "index ents' a0 = Ok (ents' ! a0)" using n2(3) a0 by simp
      with cond show ?thesis
        by (subst fill_indirect2.simps) (simp only: n1 and_then_simps prod.case x p1 if_True)
    qed
    define a b where "a = (if Suc b0 = 128 then Suc a0 else a0)" and "b = (if Suc b0 = 128 then 0 else Suc b0)"
    have ab: "Suc cur = 156 + a * 128 + b" "b < 128" using prems(5,6) by (auto simp: a_def b_def)
    have step': "fill_indirect2 D a0 b0 a1 b1 ents iter s = fill_indirect2 D a b a1 b1 ents' iter2 s1"
      using step prems(6) by (auto simp: a_def b_def layout_consts)
    have "tgt - Suc cur < tgt - cur" "Suc cur \<le> tgt" using lt by simp_all
    moreover have "supplied N (L - {i2}) t0 ((used' @ [x]) @ iter2)" using sup' by simp
    moreover have "length iter2 = tgt - Suc cur + (index_count tgt - index_count (Suc cur))"
    proof -
      have "length iter2 = length iter - (if b0 = 0 then 2 else 1)" using n2(2) x by auto
      then show ?thesis using prems(14) lt ic mono by (auto split: if_splits)
    qed
    moreover have "(used' @ [x]) @ iter2 = used @ iter" using n2(1) x by simp
    ultimately show ?thesis
      using less.hyps [OF _ p2(1) prems(2,3) p2(2) [folded ic(2)] ab prems(7-9) _ prems(11) n2(3)] step' by metis
  qed
qed

lemma put_indirect1:
  assumes at: "fs_at D N dev_ok s L M w" "M \<subseteq> L" "card L < BLOCK_CACHE_SIZE"
    and g: "grow w0 ids0 m0 t0 used w di cur True h2 nx" "28 \<le> cur" "cur < 156 \<longrightarrow> \<not> h2 \<and> nx = 0"
    and sup: "supplied N L t0 (used @ iter)" and bound: "bound \<le> 128"
  defines "m \<equiv> bound - (cur - 28)"
  assumes m: "m \<le> length iter"
  shows "\<exists>s' w'. bc_modify D (unat (indirect1 di)) 0 BLOCK_SIZE (\<lambda>bs s.
      and_then (fill_entries (cur - 28) bound (indirect_block bs) iter)
        (\<lambda>(c, ents, iter). Ok ((c, iter), indirect_bytes ents, s))) s = Ok ((max (cur - 28) bound, drop m iter), s')
    \<and> fs_at D N dev_ok s' L M w' \<and> grow w0 ids0 m0 t0 (used @ take m iter) w' di (cur + m) True h2 nx"
proof -
  let ?i = "unat (indirect1 di)"
  have "?i \<in> set (metas w di True h2 nx)" by (simp add: metas_def)
  with suppliedD(2) [OF sup g(1)] at(2) have i: "?i < N" "?i \<notin> L" "?i \<notin> M" by auto
  have len: "length (w ?i) = 512" using fs_at_lengths [OF at(1)] i(1) by blast
  define bs where "bs = indirect_bytes (put_entries (cur - 28) (take m iter) (indirect_block (w ?i)))"
  have fill: "fill_entries (cur - 28) bound (indirect_block (w ?i)) iter
      = Ok (max (cur - 28) bound, put_entries (cur - 28) (take m iter) (indirect_block (w ?i)), drop m iter)"
    using bound m len unfolding m_def by (intro fill_entries_eq) simp_all
  have lbs: "length bs = 512"
  proof (cases "m = 0")
    case False
    then have "cur - 28 + length (take m iter) \<le> length (indirect_block (w ?i))" using bound m len by (simp add: m_def)
    from put_entries_nth(3) [OF this] len show ?thesis by (simp add: bs_def)
  qed (use len in \<open>simp add: bs_def put_entries_def\<close>)
  have "\<exists>s'. bc_modify D ?i 0 BLOCK_SIZE (\<lambda>bs s.
      and_then (fill_entries (cur - 28) bound (indirect_block bs) iter)
        (\<lambda>(c, ents, iter). Ok ((c, iter), indirect_bytes ents, s))) s = Ok ((max (cur - 28) bound, drop m iter), s')
    \<and> fs_at D N dev_ok s' L M (w(?i := splice 0 bs (w ?i)))"
    by (rule bc_modify_rule [OF at(1) i at(3)]) (use len lbs fill in \<open>simp_all add: BLOCK_SIZE_def bs_def\<close>)
  moreover have "splice 0 bs (w ?i) = bs" using len lbs by (intro splice_all) simp
  moreover have "grow w0 ids0 m0 t0 (used @ take m iter) (w(?i := bs)) di (cur + m) True h2 nx"
  proof (cases "m = 0")
    case True
    have "bs = w ?i" using len True words_le_le_words [of 4 "w ?i" 128, where 'a = 32]
      by (simp add: bs_def put_entries_def indirect_bytes_def indirect_block_def)
    with True g(1) show ?thesis by simp
  next
    case False
    then have "cur < 156" "\<not> h2" "nx = 0" "cur + length (take m iter) \<le> 156"
      using bound m g(2,3) by (auto simp: m_def)
    with grow_indirect1 [of w0 ids0 m0 t0 used w di cur "take m iter"] g(1,2) len m show ?thesis
      by (simp add: bs_def)
  qed
  ultimately show ?thesis by auto
qed

lemma put_indirect2:
  assumes at: "fs_at D N dev_ok s L M w" "M \<subseteq> L" "card L + 1 < BLOCK_CACHE_SIZE"
    and g: "grow w0 ids0 m0 t0 used w di cur True True (index_count cur)"
    and pos: "156 \<le> cur" "cur \<le> tgt" "tgt \<le> INDIRECT2_BOUND"
    and sup: "supplied N L t0 (used @ iter)" "length iter = (tgt - cur) + (index_count tgt - index_count cur)"
  shows "\<exists>s' w'. bc_modify D (unat (indirect2 di)) 0 BLOCK_SIZE (\<lambda>bs s.
      and_then (fill_indirect2 D ((cur - 156) div 128) ((cur - 156) mod 128) ((tgt - 156) div 128) ((tgt - 156) mod 128)
          (indirect_block bs) iter s)
        (\<lambda>(ents, iter, s). Ok ((), indirect_bytes ents, s))) s = Ok ((), s')
    \<and> fs_at D N dev_ok s' L M w' \<and> grow w0 ids0 m0 t0 (used @ iter) w' di tgt True True (index_count tgt)"
proof -
  let ?i = "unat (indirect2 di)"
  have "?i \<in> set (metas w di True True (index_count cur))" by (simp add: metas_def)
  with suppliedD(2) [OF sup(1) g] at(2) have i: "?i < N" "?i \<notin> L" "?i \<notin> M" by auto
  have card: "card L < BLOCK_CACHE_SIZE" using at(3) by simp
  have len: "length (w ?i) = 512" using fs_at_lengths [OF at(1)] i(1) by blast
  let ?f = "fill_indirect2 D ((cur - 156) div 128) ((cur - 156) mod 128) ((tgt - 156) div 128) ((tgt - 156) mod 128)
          (indirect_block (w ?i)) iter"
  from acquire_ok [OF at(1) i(1,2) card] obtain s1 where s1: "acquire_cache D ?i s = Ok s1"
    "fs_at D N dev_ok s1 (insert ?i L) M w" by blast
  let ?s1 = "update_cache ?i (\<lambda>c. c\<lparr>modified := True\<rparr>) s1"
  have at1: "fs_at D N dev_ok ?s1 (insert ?i L) (insert ?i M) w" by (rule update_modified [OF s1(2)]) simp
  have M1: "insert ?i M \<subseteq> insert ?i L" using at(2) by auto
  have c1: "card (insert ?i L) < BLOCK_CACHE_SIZE"
    using at(3) finite_bc_locks [of s] at(1) i(2) by (simp add: fs_at_def)
  have same: "w(?i := indirect_bytes (indirect_block (w ?i))) = w"
    using len words_le_le_words [of 4 "w ?i" 128, where 'a = 32] by (simp add: indirect_bytes_def indirect_block_def)
  have sup1: "supplied N (insert ?i L - {?i}) t0 (used @ iter)" using sup(1) by (auto simp: supplied_def)
  have "\<exists>s' w' ents'. ?f ?s1 = Ok (ents', [], s') \<and> fs_at D N dev_ok s' (insert ?i L) (insert ?i M) w'
    \<and> length ents' = 128 \<and> grow w0 ids0 m0 t0 (used @ iter) (w'(?i := indirect_bytes ents')) di tgt True True (index_count tgt)"
    by (rule fill_indirect2_at [OF at1 M1 c1 _ _ _ _ _ pos(3,2) refl _ sup1 sup(2)]) (use g len pos in \<open>simp_all add: same\<close>)
  then obtain s2 w2 ents where s2: "?f ?s1 = Ok (ents, [], s2)" "fs_at D N dev_ok s2 (insert ?i L) (insert ?i M) w2"
    "length ents = 128" "grow w0 ids0 m0 t0 (used @ iter) (w2(?i := indirect_bytes ents)) di tgt True True (index_count tgt)" by blast
  have l2: "length (w2 ?i) = 512" using fs_at_lengths [OF s2(2)] i(1) by blast
  let ?s3 = "release_cache ?i (update_cache ?i (\<lambda>c. c\<lparr>cache := splice 0 (indirect_bytes ents) (cache c)\<rparr>) s2)"
  have "fs_at D N dev_ok ?s3 L (insert ?i M - {?i}) (w2(?i := splice 0 (indirect_bytes ents) (w2 ?i)))"
    by (rule release_ok [OF update_splice [OF s2(2)] i(2)]) (use s2(3) in \<open>simp_all add: BLOCK_SIZE_def\<close>)
  then have "fs_at D N dev_ok ?s3 L M (w2(?i := indirect_bytes ents))" using i(3) s2(3) l2 by (simp add: splice_all)
  moreover have "cache_bytes ?i 0 BLOCK_SIZE s1 = Ok (w ?i)"
    using cache_bytes_ok [OF s1(2), of ?i 0 BLOCK_SIZE] len by (simp add: BLOCK_SIZE_def)
  ultimately show ?thesis using s1(1) s2(1,4) by (intro exI [of _ ?s3] exI [of _ "w2(?i := indirect_bytes ents)"]) (simp add: bc_modify_def)
qed

text \<open>
  The phases of \<^verbatim>\<open>increase_size\<close> put together. \<open>n0\<close> and \<open>n1\<close> are the numbers of data blocks before and
  after, and there are exactly as many new blocks as the tree needs.
\<close>

lemma direct_phase:
  assumes "tree_ok N L w di n0" "n0 \<le> n1" "supplied N L (tree_ids w di n0) bs" "min n1 28 - n0 \<le> length bs"
  defines "m \<equiv> min n1 28 - n0"
  shows "\<exists>ds. fill_entries n0 (min n1 28) (direct di) bs = Ok (max n0 (min n1 28), ds, drop m bs)
    \<and> grow w (data_ids w di n0) (set (meta_ids w di n0)) (tree_ids w di n0) (take m bs) w (di\<lparr>di_size := sz, direct := ds\<rparr>)
        (max n0 (min n1 28)) (28 < n0) (156 < n0) (index_count n0)"
proof -
  let ?ds = "put_entries n0 (take m bs) (direct di)"
  have len: "length (direct di) = 28" using assms(1) by (simp add: tree_ok_def)
  have fill: "fill_entries n0 (min n1 28) (direct di) bs = Ok (max n0 (min n1 28), ?ds, drop m bs)"
    using assms(4) len unfolding m_def by (intro fill_entries_eq) simp_all
  have g0: "grow w (data_ids w di n0) (set (meta_ids w di n0)) (tree_ids w di n0) [] w (di\<lparr>di_size := sz\<rparr>) n0 (28 < n0) (156 < n0) (index_count n0)"
    using len by (simp add: grow_def tree_ids_def meta_ids_def)
  show ?thesis
  proof (cases "m = 0")
    case True
    then have "?ds = direct di" "max n0 (min n1 28) = n0" using assms(2) by (auto simp: put_entries_def m_def)
    moreover have "di\<lparr>di_size := sz, direct := direct di\<rparr> = di\<lparr>di_size := sz\<rparr>" by simp
    ultimately show ?thesis using fill g0 True by (intro exI [of _ ?ds]) simp
  next
    case False
    then have n0: "n0 < 28" "max n0 (min n1 28) = n0 + length (take m bs)" "index_count n0 = 0" "n0 + length (take m bs) \<le> 28"
      using assms(4) by (auto simp: m_def index_count_small)
    from grow_direct [of w _ _ _ "[]" w "di\<lparr>di_size := sz\<rparr>" n0 "take m bs"] g0 n0 fill show ?thesis
      by (intro exI [of _ ?ds]) simp
  qed
qed

lemma take_drop_Cons:
  assumes "drop m bs = x # r"
  shows "take (m + 1) bs = take m bs @ [x]" "drop (m + 1) bs = r"
proof -
  have "m < length bs" using assms by (cases "m < length bs") simp_all
  with assms show "take (m + 1) bs = take m bs @ [x]" by (simp add: take_Suc_conv_app_nth nth_via_drop)
  have "drop (m + 1) bs = tl (drop m bs)" by (simp add: drop_Suc tl_drop)
  with assms show "drop (m + 1) bs = r" by simp
qed

lemma indirect1_phase:
  assumes g: "grow w0 ids0 m0 t0 (take m bs) w di c (28 < n0) (156 < n0) (index_count n0)"
    and "c = max n0 28" "h = (if n0 \<le> 28 then 1 else 0)" "m + h \<le> length bs"
  shows "\<exists>di1. (if c = INODE_DIRECT_COUNT
        then case drop m bs of [] \<Rightarrow> Panic UnwrapNone | x # iter \<Rightarrow> Ok (di\<lparr>indirect1 := x\<rparr>, iter)
        else Ok (di, drop m bs)) = Ok (di1, drop (m + h) bs)
    \<and> grow w0 ids0 m0 t0 (take (m + h) bs) w di1 c True (156 < n0) (index_count n0)
    \<and> di_size di1 = di_size di \<and> di_type di1 = di_type di"
proof (cases "n0 \<le> 28")
  case True
  with assms(3,4) obtain x r where x: "drop m bs = x # r" by (cases "drop m bs") auto
  have c: "c = 28" "index_count n0 = 0" "h = 1" using True assms(2,3) by (simp_all add: index_count_small)
  with g True have "grow w0 ids0 m0 t0 (take m bs) w di 28 False False 0" by simp
  from grow_set_indirect1 [OF this, of x] x c True take_drop_Cons [OF x] show ?thesis
    by (intro exI [of _ "di\<lparr>indirect1 := x\<rparr>"]) (simp add: layout_consts)
next
  case False
  with g assms(2,3) show ?thesis by (intro exI [of _ di]) (simp add: layout_consts)
qed

lemma indirect2_phase:
  assumes g: "grow w0 ids0 m0 t0 (take m bs) w di c True (156 < n0) (index_count n0)"
    and "c = max n0 156" "h = (if n0 \<le> 156 then 1 else 0)" "m + h \<le> length bs"
  shows "\<exists>di1. (if c - 28 = INODE_INDIRECT1_COUNT
        then case drop m bs of [] \<Rightarrow> Panic UnwrapNone | x # iter \<Rightarrow> Ok (di\<lparr>indirect2 := x\<rparr>, iter)
        else Ok (di, drop m bs)) = Ok (di1, drop (m + h) bs)
    \<and> grow w0 ids0 m0 t0 (take (m + h) bs) w di1 c True True (index_count c)
    \<and> di_size di1 = di_size di \<and> di_type di1 = di_type di"
proof (cases "n0 \<le> 156")
  case True
  with assms(3,4) obtain x r where x: "drop m bs = x # r" by (cases "drop m bs") auto
  have c: "c = 156" "index_count n0 = 0" "h = 1" "index_count c = 0" using True assms(2,3) by (simp_all add: index_count_small)
  with g True have "grow w0 ids0 m0 t0 (take m bs) w di 156 True False 0" by simp
  from grow_set_indirect2 [OF this, of x] x c True take_drop_Cons [OF x] show ?thesis
    by (intro exI [of _ "di\<lparr>indirect2 := x\<rparr>"]) (simp add: layout_consts)
next
  case False
  with g assms(2,3) show ?thesis by (intro exI [of _ di]) (simp add: layout_consts)
qed

lemma increase_size_at:
  assumes at: "fs_at D N dev_ok s L M w" "M \<subseteq> L" "card L + 1 < BLOCK_CACHE_SIZE"
    and n0: "n0 = unat (data_blocks di)" and n1: "n1 = unat (data_blocks_of new_size)"
    and tree: "tree_ok N L w di n0" "n0 \<le> n1" "n1 \<le> INDIRECT2_BOUND"
    and sup: "supplied N L (tree_ids w di n0) nb"
    and count: "length (tree_ids w di n0) + length nb = length (tree_ids w di n1)"
  shows "\<exists>s' w' di'. increase_size D new_size nb di s = Ok (di', s') \<and> fs_at D N dev_ok s' L M w'
    \<and> di_size di' = new_size \<and> di_type di' = di_type di
    \<and> grow w (data_ids w di n0) (set (meta_ids w di n0)) (tree_ids w di n0) nb w' di' n1 (28 < n1) (156 < n1) (index_count n1)"
proof -
  let ?t0 = "tree_ids w di n0" and ?ids = "data_ids w di n0" and ?m0 = "set (meta_ids w di n0)"
  define m where "m = min n1 28 - n0"
  have cnt: "n0 + (if 28 < n0 then 1 else 0) + (if 156 < n0 then 1 else 0) + index_count n0 + length nb
      = n1 + (if 28 < n1 then 1 else 0) + (if 156 < n1 then 1 else 0) + index_count n1"
    using count by (simp add: tree_ids_def length_meta_ids)
  have icm: "index_count n0 \<le> index_count n1" using tree(2) by (simp add: index_count_def div_le_mono)
  have m: "m \<le> length nb" unfolding m_def using cnt icm tree(2) by (auto split: if_splits)
  from direct_phase [OF tree(1,2) sup m [unfolded m_def], of new_size] obtain ds where
    ds: "fill_entries n0 (min n1 28) (direct di) nb = Ok (max n0 (min n1 28), ds, drop m nb)" and
    g1: "grow w ?ids ?m0 ?t0 (take m nb) w (di\<lparr>di_size := new_size, direct := ds\<rparr>)
        (max n0 (min n1 28)) (28 < n0) (156 < n0) (index_count n0)" unfolding m_def by blast
  let ?di = "di\<lparr>di_size := new_size, direct := ds\<rparr>"
  have db: "data_blocks (di\<lparr>di_size := new_size\<rparr>) = data_blocks_of new_size" by (simp add: data_blocks_def)
  show ?thesis
  proof (cases "n1 \<le> 28")
    case True
    then have "length nb = m" using cnt tree(2) by (simp add: m_def index_count_small)
    with True g1 tree(2) have "grow w ?ids ?m0 ?t0 nb w ?di n1 (28 < n1) (156 < n1) (index_count n1)"
      by (simp add: index_count_small max_def split: if_splits)
    with at(1) True ds show ?thesis
      by (intro exI [of _ s] exI [of _ w] exI [of _ ?di]) (simp add: increase_size_def layout_consts Let_def db flip: n0 n1)
  next
    case big: False
    define c where "c = max n0 28"
    have c: "max n0 (min n1 28) = c" "28 \<le> c" "c \<le> n1" using big tree(2) by (auto simp: c_def)
    define h where "h = (if n0 \<le> 28 then 1 else 0 :: nat)"
    have h: "m + h \<le> length nb" using cnt icm big tree(2) by (auto simp: m_def h_def split: if_splits)
    from indirect1_phase [OF g1 [unfolded c(1)] c_def h_def h] obtain di1 where
      di1: "(if c = INODE_DIRECT_COUNT
        then case drop m nb of [] \<Rightarrow> Panic UnwrapNone | x # iter \<Rightarrow> Ok (?di\<lparr>indirect1 := x\<rparr>, iter)
        else Ok (?di, drop m nb)) = Ok (di1, drop (m + h) nb)"
      and g2: "grow w ?ids ?m0 ?t0 (take (m + h) nb) w di1 c True (156 < n0) (index_count n0)"
      and f1: "di_size di1 = new_size" "di_type di1 = di_type di" by auto
    define bound where "bound = min (n1 - 28) 128"
    define m2 where "m2 = bound - (c - 28)"
    have hc: "c < 156 \<longrightarrow> \<not> 156 < n0 \<and> index_count n0 = 0" by (auto simp: c_def index_count_small)
    have sup2: "supplied N L ?t0 (take (m + h) nb @ drop (m + h) nb)" using sup by simp
    have m2: "m2 \<le> length (drop (m + h) nb)"
      using cnt icm big tree(2) by (auto simp: m2_def bound_def m_def h_def c_def split: if_splits)
    have "bound \<le> 128" "card L < BLOCK_CACHE_SIZE" using at(3) by (simp_all add: bound_def)
    from put_indirect1 [OF at(1,2) this(2) g2 c(2) hc sup2 this(1) m2 [unfolded m2_def], folded m2_def] obtain s2 w2 where
      p1: "bc_modify D (unat (indirect1 di1)) 0 BLOCK_SIZE (\<lambda>bs s.
        and_then (fill_entries (c - 28) bound (indirect_block bs) (drop (m + h) nb))
          (\<lambda>(c, ents, iter). Ok ((c, iter), indirect_bytes ents, s))) s = Ok ((max (c - 28) bound, drop m2 (drop (m + h) nb)), s2)"
      and at2: "fs_at D N dev_ok s2 L M w2"
      and g3: "grow w ?ids ?m0 ?t0 (take (m + h) nb @ take m2 (drop (m + h) nb)) w2 di1 (c + m2) True (156 < n0) (index_count n0)" by blast
    let ?rest = "\<lambda>di c iter s.
      and_then (if c = 128 then case iter of [] \<Rightarrow> Panic UnwrapNone | x # iter \<Rightarrow> Ok (di\<lparr>indirect2 := x\<rparr>, iter) else Ok (di, iter))
        (\<lambda>(di, iter). and_then
           (bc_modify D (unat (indirect2 di)) 0 BLOCK_SIZE (\<lambda>bs s.
              and_then (fill_indirect2 D ((c - 128) div 128) ((c - 128) mod 128) ((n1 - 28 - 128) div 128) ((n1 - 28 - 128) mod 128)
                  (indirect_block bs) iter s)
                (\<lambda>(ents, iter, s). Ok ((), indirect_bytes ents, s))) s)
           (\<lambda>(_, s). Ok (di, s)))"
    have run: "increase_size D new_size nb di s =
        (if n1 - 28 \<le> 128 then Ok (di1, s2) else ?rest di1 (max (c - 28) bound) (drop m2 (drop (m + h) nb)) s2)"
    proof -
      have K: "INODE_DIRECT_COUNT = 28" "INODE_INDIRECT1_COUNT = 128" by (simp_all add: layout_consts)
      have sel: "direct (di\<lparr>di_size := new_size\<rparr>) = direct di" "(n1 \<le> 28) = False" using big by simp_all
      show ?thesis
        unfolding increase_size_def Let_def db
        by (simp only: K n0 [symmetric] n1 [symmetric] sel ds di1 [unfolded K] p1 [unfolded bound_def] c(1) bound_def
            and_then_simps prod.case if_False)
    qed
    show ?thesis
    proof (cases "n1 \<le> 156")
      case True
      have all: "m + h + m2 = length nb" "c + m2 = n1"
        using cnt icm big tree(2) True by (auto simp: m2_def bound_def m_def h_def c_def index_count_small split: if_splits)
      have "take (m + h) nb @ take m2 (drop (m + h) nb) = nb" using all(1) by (simp flip: take_add)
      with g3 all(2) big True tree(2) have "grow w ?ids ?m0 ?t0 nb w2 di1 n1 (28 < n1) (156 < n1) (index_count n1)"
        by (simp add: index_count_small)
      moreover have "(n1 - 28 \<le> 128) = True" using True by simp
      then have "increase_size D new_size nb di s = Ok (di1, s2)" by (simp only: run if_True)
      ultimately show ?thesis using at2 f1 by blast
    next
      case False
      define d where "d = max n0 156"
      define h' where "h' = (if n0 \<le> 156 then 1 else 0 :: nat)"
      have d: "c + m2 = d" "max (c - 28) bound = d - 28" "156 \<le> d" "d \<le> n1"
        using False tree(2) by (auto simp: m2_def bound_def c_def d_def)
      have h': "m + h + m2 + h' \<le> length nb"
        using cnt icm False tree(2) by (auto simp: m2_def bound_def m_def h_def h'_def c_def split: if_splits)
      from indirect2_phase [OF g3 [unfolded d(1), folded take_add] d_def h'_def h'] obtain di2 where
        di2: "(if d - 28 = INODE_INDIRECT1_COUNT
          then case drop (m + h + m2) nb of [] \<Rightarrow> Panic UnwrapNone | x # iter \<Rightarrow> Ok (di1\<lparr>indirect2 := x\<rparr>, iter)
          else Ok (di1, drop (m + h + m2) nb)) = Ok (di2, drop (m + h + m2 + h') nb)"
        and g4: "grow w ?ids ?m0 ?t0 (take (m + h + m2 + h') nb) w2 di2 d True True (index_count d)"
        and f2: "di_size di2 = new_size" "di_type di2 = di_type di" using f1 by auto
      have sup4: "supplied N L ?t0 (take (m + h + m2 + h') nb @ drop (m + h + m2 + h') nb)" using sup by simp
      have left: "length (drop (m + h + m2 + h') nb) = (n1 - d) + (index_count n1 - index_count d)"
        using cnt icm False tree(2) index_count_small [of n0]
        by (auto simp: m2_def bound_def m_def h_def h'_def c_def d_def index_count_small max_def split: if_splits)
      from put_indirect2 [OF at2 at(2,3) g4 d(3,4) tree(3) sup4 left] obtain s3 w3 where
        p2: "bc_modify D (unat (indirect2 di2)) 0 BLOCK_SIZE (\<lambda>bs s.
          and_then (fill_indirect2 D ((d - 156) div 128) ((d - 156) mod 128) ((n1 - 156) div 128) ((n1 - 156) mod 128)
              (indirect_block bs) (drop (m + h + m2 + h') nb) s)
            (\<lambda>(ents, iter, s). Ok ((), indirect_bytes ents, s))) s2 = Ok ((), s3)"
        and at3: "fs_at D N dev_ok s3 L M w3"
        and g5: "grow w ?ids ?m0 ?t0 nb w3 di2 n1 True True (index_count n1)" by auto
      have dr: "drop m2 (drop (m + h) nb) = drop (m + h + m2) nb" by (simp add: add.commute)
      have K: "INODE_INDIRECT1_COUNT = 128" "(n1 - 28 \<le> 128) = False" "d - 28 - 128 = d - 156" "n1 - 28 - 128 = n1 - 156"
        using False by (simp_all add: layout_consts)
      have "increase_size D new_size nb di s = Ok (di2, s3)"
        by (simp only: run K if_False d(2) dr di2 [unfolded K] p2 and_then_simps prod.case)
      then show ?thesis using at3 g5 f2 False big by auto
    qed
  qed
qed

end

section \<open>Clearing an inode\<close>

lemma take_entries_eq:
  assumes "bound \<le> length ents"
  shows "take_entries cur bound ents v
    = Ok (put_entries cur (replicate (bound - cur) 0) ents, v @ take (bound - cur) (drop cur ents))"
  using assms
proof (induction cur bound ents v rule: take_entries.induct)
  case (1 cur bound ents v)
  show ?case
  proof (cases "cur < bound")
    case True
    with "1.prems" have cur: "cur < length ents" by simp
    have sub: "bound - cur = Suc (bound - Suc cur)" using True by simp
    have "take_entries (Suc cur) bound (ents[cur := 0]) (v @ [ents ! cur])
        = Ok (put_entries (Suc cur) (replicate (bound - Suc cur) 0) (ents[cur := 0]),
            (v @ [ents ! cur]) @ take (bound - Suc cur) (drop (Suc cur) (ents[cur := 0])))"
      using "1.prems" True cur by (intro "1.IH") auto
    moreover have "drop cur ents = ents ! cur # drop (Suc cur) ents" using cur by (simp add: Cons_nth_drop_Suc)
    ultimately show ?thesis
      using True cur "1.prems" put_entries_Cons [of cur 0 "replicate (bound - Suc cur) 0" ents]
      by (subst take_entries.simps) (simp add: sub)
  next
    case False
    then show ?thesis by (subst take_entries.simps) (simp add: put_entries_def)
  qed
qed

lemma block_grid:
  assumes "\<forall>a < a1. length (f a) = 128" "0 < b1 \<longrightarrow> length (f a1) = 128" "b1 < 128"
  shows "map (\<lambda>j. f (j div 128) ! (j mod 128)) [0..<a1 * 128 + b1] = concat (map f [0..<a1]) @ (if 0 < b1 then take b1 (f a1) else [])"
proof -
  have full: "map (\<lambda>j. f (j div 128) ! (j mod 128)) [0..<a * 128] = concat (map f [0..<a])" if "a \<le> a1" for a
    using that
  proof (induction a)
    case (Suc a)
    have "map (\<lambda>j. f (j div 128) ! (j mod 128)) [a * 128..<a * 128 + 128] = f a"
      using assms(1) Suc.prems by (intro nth_equalityI) simp_all
    moreover have "[0..<Suc a * 128] = [0..<a * 128] @ [a * 128..<a * 128 + 128]"
      using upt_add_eq_append [of 0 "a * 128" 128] by (simp add: add.commute)
    ultimately show ?case using Suc by simp
  qed simp
  have "map (\<lambda>j. f (j div 128) ! (j mod 128)) [a1 * 128..<a1 * 128 + b1] = (if 0 < b1 then take b1 (f a1) else [])"
    using assms(2,3) by (auto intro!: nth_equalityI)
  moreover have "[0..<a1 * 128 + b1] = [0..<a1 * 128] @ [a1 * 128..<a1 * 128 + b1]"
    using upt_add_eq_append [of 0 "a1 * 128" b1] by simp
  ultimately show ?thesis using full [of a1] by simp
qed

text \<open>The block numbers of the three regions of the list.\<close>

definition blocks_at :: "disk \<Rightarrow> DiskInode \<Rightarrow> nat \<Rightarrow> u32 list" where
  "blocks_at w di n = map (block_at w di) [0..<n]"

lemma data_ids_blocks_at: "data_ids w di n = map unat (blocks_at w di n)"
  by (simp add: data_ids_def blocks_at_def)

lemma blocks_at_direct: "n \<le> 28 \<Longrightarrow> length (direct di) = 28 \<Longrightarrow> blocks_at w di n = take n (direct di)"
  by (intro nth_equalityI) (auto simp: blocks_at_def block_at_def)

lemma blocks_at_split: "m \<le> n \<Longrightarrow> blocks_at w di n = blocks_at w di m @ map (\<lambda>j. block_at w di (m + j)) [0..<n - m]"
  by (intro nth_equalityI) (auto simp: blocks_at_def nth_append)

lemma blocks_at_indirect1:
  assumes "28 \<le> n" "n \<le> 156" "length (direct di) = 28" "length (w (unat (indirect1 di))) = 512"
  shows "blocks_at w di n = direct di @ take (n - 28) (indirect_block (w (unat (indirect1 di))))"
proof -
  have "map (\<lambda>j. block_at w di (28 + j)) [0..<n - 28] = take (n - 28) (indirect_block (w (unat (indirect1 di))))"
    using assms by (intro nth_equalityI) (auto simp: block_at_def)
  with blocks_at_split [OF assms(1)] blocks_at_direct [of 28 di w] assms(3) show ?thesis by simp
qed

lemma blocks_at_indirect2:
  assumes "n = 156 + a1 * 128 + b1" "b1 < 128" "length (direct di) = 28" "length (w (unat (indirect1 di))) = 512"
  defines "ents \<equiv> indirect_block (w (unat (indirect2 di)))"
  defines "f \<equiv> \<lambda>a. indirect_block (w (unat (ents ! a)))"
  assumes "\<forall>a < a1. length (f a) = 128" "0 < b1 \<longrightarrow> length (f a1) = 128"
  shows "blocks_at w di n = direct di @ indirect_block (w (unat (indirect1 di)))
    @ concat (map f [0..<a1]) @ (if 0 < b1 then take b1 (f a1) else [])"
proof -
  have "map (\<lambda>j. block_at w di (156 + j)) [0..<n - 156] = map (\<lambda>j. f (j div 128) ! (j mod 128)) [0..<a1 * 128 + b1]"
    using assms(1) by (simp add: block_at_def f_def ents_def)
  also have "\<dots> = concat (map f [0..<a1]) @ (if 0 < b1 then take b1 (f a1) else [])"
    by (rule block_grid [OF assms(7,8,2)])
  finally show ?thesis
    using blocks_at_split [of 156 n w di] blocks_at_indirect1 [of 156 di w] assms(1,3,4) by simp
qed

lemma mset_concat_Cons: "mset (concat (map (\<lambda>e. e # f e) es)) = mset es + mset (concat (map f es))"
  by (induction es) simp_all

context block_device
begin

lemma collect_indirect1_at:
  assumes "fs_at D N dev_ok s L M w" "M \<subseteq> L" "card L < BLOCK_CACHE_SIZE" "\<forall>e \<in> set es. unat e < N \<and> unat e \<notin> L"
  shows "\<exists>s'. collect_indirect1 D n es v s
      = Ok (v @ concat (map (\<lambda>e. e # take n (indirect_block (w (unat e)))) es), s') \<and> fs_at D N dev_ok s' L M w"
  using assms(1,4)
proof (induction es arbitrary: v s)
  case (Cons e es)
  then have e: "unat e < N" "unat e \<notin> L" "unat e \<notin> M" using assms(2) by auto
  have len: "length (w (unat e)) = 512" using fs_at_lengths [OF Cons.prems(1)] e(1) by blast
  have "\<exists>s'. bc_modify D (unat e) 0 BLOCK_SIZE (\<lambda>bs s. Ok (v @ [e] @ take n (indirect_block bs), bs, s)) s
      = Ok (v @ [e] @ take n (indirect_block (w (unat e))), s') \<and> fs_at D N dev_ok s' L M (w(unat e := splice 0 (w (unat e)) (w (unat e))))"
    by (rule bc_modify_rule [OF Cons.prems(1) e assms(3)]) (use len in \<open>simp_all add: BLOCK_SIZE_def\<close>)
  then obtain s1 where s1: "bc_modify D (unat e) 0 BLOCK_SIZE (\<lambda>bs s. Ok (v @ [e] @ take n (indirect_block bs), bs, s)) s
      = Ok (v @ [e] @ take n (indirect_block (w (unat e))), s1)" "fs_at D N dev_ok s1 L M w"
    by (auto simp: splice_all)
  from Cons.IH [OF s1(2), of "v @ [e] @ take n (indirect_block (w (unat e)))"] Cons.prems(2) s1(1) show ?case by simp
qed simp

lemma clear_indirect1:
  assumes at: "fs_at D N dev_ok s L M w" "M \<subseteq> L" "card L < BLOCK_CACHE_SIZE"
    and i: "i < N" "i \<notin> L" and bound: "bound \<le> 128"
  shows "\<exists>s' w'. bc_modify D i 0 BLOCK_SIZE (\<lambda>bs s.
      and_then (take_entries 0 bound (indirect_block bs) v) (\<lambda>(ents, v). Ok (v, indirect_bytes ents, s))) s
        = Ok (v @ take bound (indirect_block (w i)), s')
    \<and> fs_at D N dev_ok s' L M w' \<and> (\<forall>b. b \<noteq> i \<longrightarrow> w' b = w b)"
proof -
  have len: "length (w i) = 512" using fs_at_lengths [OF at(1)] i(1) by blast
  have iM: "i \<notin> M" using i(2) at(2) by auto
  let ?bs = "indirect_bytes (put_entries 0 (replicate bound 0) (indirect_block (w i)))"
  have "\<exists>s'. bc_modify D i 0 BLOCK_SIZE (\<lambda>bs s.
      and_then (take_entries 0 bound (indirect_block bs) v) (\<lambda>(ents, v). Ok (v, indirect_bytes ents, s))) s
        = Ok (v @ take bound (indirect_block (w i)), s')
    \<and> fs_at D N dev_ok s' L M (w(i := splice 0 ?bs (w i)))"
    by (rule bc_modify_rule [OF at(1) i iM at(3)])
      (use len bound in \<open>simp_all add: BLOCK_SIZE_def take_entries_eq put_entries_def\<close>)
  moreover have "\<forall>b. b \<noteq> i \<longrightarrow> (w(i := splice 0 ?bs (w i))) b = w b" by simp
  ultimately show ?thesis by blast
qed

lemma clear_indirect2:
  assumes at: "fs_at D N dev_ok s L M w" "M \<subseteq> L" "card L + 1 < BLOCK_CACHE_SIZE"
    and i: "i < N" "i \<notin> L" and ents: "ents = indirect_block (w i)" and a1: "a1 + (if 0 < b1 then 1 else 0) \<le> 128"
    and es: "\<forall>a < a1 + (if 0 < b1 then 1 else 0). unat (ents ! a) < N \<and> unat (ents ! a) \<notin> insert i L"
  shows "\<exists>s'. bc_modify D i 0 BLOCK_SIZE (\<lambda>bs s.
      and_then (collect_indirect1 D INODE_INDIRECT1_COUNT (take a1 (indirect_block bs)) v s) (\<lambda>(v, s).
      and_then (if 0 < b1 then and_then (index (indirect_block bs) a1) (\<lambda>e. collect_indirect1 D b1 [e] v s) else Ok (v, s))
        (\<lambda>(v, s). Ok (v, bs, s)))) s
      = Ok (v @ concat (map (\<lambda>e. e # indirect_block (w (unat e))) (take a1 ents))
          @ (if 0 < b1 then ents ! a1 # take b1 (indirect_block (w (unat (ents ! a1)))) else []), s')
    \<and> fs_at D N dev_ok s' L M w"
proof -
  have lenw: "\<forall>b < N. length (w b) = 512" by (rule fs_at_lengths [OF at(1)])
  with i(1) have len: "length (w i) = 512" by blast
  then have le: "length ents = 128" using ents by simp
  have iM: "i \<notin> M" using i(2) at(2) by auto
  have card: "card L < BLOCK_CACHE_SIZE" "card (insert i L) < BLOCK_CACHE_SIZE"
    using at(3) finite_bc_locks [of s] at(1) i(2) by (simp_all add: fs_at_def)
  have tk: "\<forall>e \<in> set (take a1 ents). unat e < N \<and> unat e \<notin> insert i L"
  proof
    fix e assume "e \<in> set (take a1 ents)"
    then obtain k where "k < a1" "e = ents ! k" by (auto simp: in_set_conv_nth)
    with es show "unat e < N \<and> unat e \<notin> insert i L" by simp
  qed
  let ?v1 = "v @ concat (map (\<lambda>e. e # take INODE_INDIRECT1_COUNT (indirect_block (w (unat e)))) (take a1 ents))"
  let ?v2 = "?v1 @ (if 0 < b1 then ents ! a1 # take b1 (indirect_block (w (unat (ents ! a1)))) else [])"
  let ?f = "\<lambda>bs s. and_then (collect_indirect1 D INODE_INDIRECT1_COUNT (take a1 (indirect_block bs)) v s) (\<lambda>(v, s).
      and_then (if 0 < b1 then and_then (index (indirect_block bs) a1) (\<lambda>e. collect_indirect1 D b1 [e] v s) else Ok (v, s))
        (\<lambda>(v, s). Ok (v, bs, s)))"
  have f: "\<exists>s2. ?f (w i) s1 = Ok (?v2, w i, s2) \<and> fs_at D N dev_ok s2 (insert i L) (insert i M) w"
    if s1: "fs_at D N dev_ok s1 (insert i L) (insert i M) w" for s1
  proof -
    have sub: "insert i M \<subseteq> insert i L" using at(2) by auto
    from collect_indirect1_at [OF s1 sub card(2) tk] obtain s2 where
      s2: "collect_indirect1 D INODE_INDIRECT1_COUNT (take a1 ents) v s1 = Ok (?v1, s2)"
        "fs_at D N dev_ok s2 (insert i L) (insert i M) w" by blast
    show ?thesis
    proof (cases "0 < b1")
      case True
      with es have "\<forall>e \<in> set [ents ! a1]. unat e < N \<and> unat e \<notin> insert i L" by simp
      from collect_indirect1_at [OF s2(2) sub card(2) this, of b1 ?v1] s2(1) True a1 le show ?thesis
        by (auto simp: ents [symmetric])
    qed (use s2 in \<open>simp add: ents [symmetric]\<close>)
  qed
  have "\<exists>s'. bc_modify D i 0 BLOCK_SIZE ?f s = Ok (?v2, s') \<and> fs_at D N dev_ok s' L M (w(i := splice 0 (w i) (w i)))"
  proof (rule bc_modify_rule [OF at(1) i iM card(1)])
    have all: "take BLOCK_SIZE (drop 0 (w i)) = w i" using len by (simp add: BLOCK_SIZE_def)
    show "\<exists>s2. ?f (take BLOCK_SIZE (drop 0 (w i))) s1 = Ok (?v2, w i, s2) \<and> fs_at D N dev_ok s2 (insert i L) (insert i M) w"
      if "fs_at D N dev_ok s1 (insert i L) (insert i M) w" for s1
      unfolding all by (rule f [OF that])
  qed (use len in \<open>simp_all add: BLOCK_SIZE_def\<close>)
  moreover have "w(i := splice 0 (w i) (w i)) = w" by (simp add: splice_all)
  moreover have "map (\<lambda>e. e # take INODE_INDIRECT1_COUNT (indirect_block (w (unat e)))) (take a1 ents)
      = map (\<lambda>e. e # indirect_block (w (unat e))) (take a1 ents)"
  proof (rule map_cong [OF refl])
    fix e assume "e \<in> set (take a1 ents)"
    with tk have "unat e < N" by blast
    with lenw show "e # take INODE_INDIRECT1_COUNT (indirect_block (w (unat e))) = e # indirect_block (w (unat e))"
      by (simp add: layout_consts)
  qed
  ultimately show ?thesis by simp
qed

lemma clear_size_at:
  assumes at: "fs_at D N dev_ok s L M w" "M \<subseteq> L" "card L + 1 < BLOCK_CACHE_SIZE"
    and n: "n = unat (data_blocks di)" and tree: "tree_ok N L w di n"
  shows "\<exists>v di' s' w'. clear_size D di s = Ok ((v, di'), s') \<and> fs_at D N dev_ok s' L M w'
    \<and> mset (map unat v) = mset (tree_ids w di n) \<and> di_size di' = 0 \<and> di_type di' = di_type di \<and> length (direct di') = 28
    \<and> (\<forall>b. b \<notin> set (tree_ids w di n) \<longrightarrow> w' b = w b)"
proof -
  have len: "length (direct di) = 28" "n \<le> 16540" using tree by (simp_all add: tree_ok_def layout_consts)
  let ?ds = "put_entries 0 (replicate (min n 28) 0) (direct di)"
  let ?di = "di\<lparr>di_size := 0, direct := ?ds\<rparr>"
  have dir: "take_entries 0 (min n 28) (direct di) [] = Ok (?ds, take n (direct di))"
    using take_entries_eq [of "min n 28" "direct di" 0 "[]"] len(1) by (simp add: min_def split: if_splits)
  have lds: "length ?ds = 28" using len(1) by (simp add: put_entries_def)
  have card: "card L < BLOCK_CACHE_SIZE" using at(3) by simp
  note unf = clear_size_def [of D di s, folded n]
  show ?thesis
  proof (cases "n \<le> 28")
    case True
    then have "clear_size D di s = Ok ((take n (direct di), ?di), s)"
      using dir by (simp add: unf layout_consts Let_def)
    moreover have "map unat (take n (direct di)) = tree_ids w di n"
      using True len(1) by (simp add: tree_ids_def data_ids_blocks_at blocks_at_direct meta_ids_def metas_def index_count_small)
    ultimately show ?thesis using at(1) lds by (intro exI [of _ "take n (direct di)"] exI [of _ ?di] exI [of _ s] exI [of _ w]) simp
  next
    case big: False
    let ?i1 = "unat (indirect1 di)" and ?i2 = "unat (indirect2 di)"
    have m1: "?i1 \<in> set (meta_ids w di n)" using big by (intro meta_ids_mem) simp
    from tree_ok_meta [OF tree m1] have i1: "?i1 < N" "?i1 \<notin> L" by auto
    have l1: "length (w ?i1) = 512" using fs_at_lengths [OF at(1)] i1(1) by blast
    let ?v1 = "take n (direct di) @ [indirect1 di]"
    from clear_indirect1 [OF at(1,2) card i1, of "min (n - 28) 128" ?v1] obtain s1 w1 where
      c1: "bc_modify D ?i1 0 BLOCK_SIZE (\<lambda>bs s.
          and_then (take_entries 0 (min (n - 28) 128) (indirect_block bs) ?v1) (\<lambda>(ents, v). Ok (v, indirect_bytes ents, s))) s
        = Ok (?v1 @ take (min (n - 28) 128) (indirect_block (w ?i1)), s1)"
      and at1: "fs_at D N dev_ok s1 L M w1" and w1: "\<forall>b. b \<noteq> ?i1 \<longrightarrow> w1 b = w b" by auto
    let ?v2 = "?v1 @ take (min (n - 28) 128) (indirect_block (w ?i1))"
    let ?di1 = "?di\<lparr>indirect1 := 0\<rparr>"
    have out1: "\<forall>b. b \<notin> set (tree_ids w di n) \<longrightarrow> w1 b = w b"
    proof (intro allI impI)
      fix b assume "b \<notin> set (tree_ids w di n)"
      then have "b \<noteq> ?i1" using m1 by (auto simp: tree_ids_def)
      with w1 show "w1 b = w b" by blast
    qed
    have td: "take n (direct di) = direct di" using big len(1) by simp
    let ?f = "\<lambda>a1 b1 v bs s. and_then (collect_indirect1 D INODE_INDIRECT1_COUNT (take a1 (indirect_block bs)) v s) (\<lambda>(v, s).
      and_then (if 0 < b1 then and_then (index (indirect_block bs) a1) (\<lambda>e. collect_indirect1 D b1 [e] v s) else Ok (v, s))
        (\<lambda>(v, s). Ok (v, bs, s)))"
    have run: "clear_size D di s = (if n - 28 \<le> 128 then Ok ((?v2, ?di1), s1) else
        and_then (assert_that (n - 28 - 128 \<le> INODE_INDIRECT2_COUNT)) (\<lambda>_. and_then
          (bc_modify D ?i2 0 BLOCK_SIZE (?f ((n - 28 - 128) div 128) ((n - 28 - 128) mod 128) (?v2 @ [indirect2 di])) s1)
          (\<lambda>(v, s). Ok ((v, ?di1\<lparr>indirect2 := 0\<rparr>), s))))"
    proof -
      have K: "INODE_DIRECT_COUNT = 28" "INODE_INDIRECT1_COUNT = 128" by (simp_all add: layout_consts)
      have sel: "direct (di\<lparr>di_size := 0\<rparr>) = direct di" "(n \<le> 28) = False" "indirect1 ?di = indirect1 di"
        "indirect2 ?di1 = indirect2 di" using big by simp_all
      show ?thesis unfolding unf Let_def
        by (simp only: K sel dir c1 and_then_simps prod.case if_False)
    qed
    show ?thesis
    proof (cases "n \<le> 156")
      case True
      then have tr: "(n - 28 \<le> 128) = True" and mn: "min (n - 28) 128 = n - 28" by simp_all
      have "mset (map unat ?v2) = mset (tree_ids w di n)"
        using True big len(1) l1 blocks_at_indirect1 [of n di w]
        by (simp add: tree_ids_def data_ids_blocks_at meta_ids_def metas_def index_count_small td mn)
      moreover have "clear_size D di s = Ok ((?v2, ?di1), s1)" by (simp only: run tr if_True)
      ultimately show ?thesis using at1 out1 lds by (intro exI [of _ ?v2] exI [of _ ?di1] exI [of _ s1] exI [of _ w1]) simp
    next
      case False
      define a1 b1 where "a1 = (n - 156) div 128" and "b1 = (n - 156) mod 128"
      have ab: "n = 156 + a1 * 128 + b1" "b1 < 128" using False by (simp_all add: a1_def b1_def)
      have ic: "index_count n = a1 + (if 0 < b1 then 1 else 0)" using index_count_pos [OF ab(2), of a1] ab(1) by simp
      have dist: "distinct (metas w di True True (index_count n))" and meta: "meta_ids w di n = metas w di True True (index_count n)"
        using tree False by (simp_all add: tree_ok_def tree_ids_def meta_ids_def)
      note d = metas_distinctD [OF dist]
      have m2: "?i2 \<in> set (meta_ids w di n)" using False by (intro meta_ids_mem) simp
      from tree_ok_meta [OF tree m2] have i2: "?i2 < N" "?i2 \<notin> L" by auto
      define ents where "ents = indirect_block (w ?i2)"
      have w12: "w1 ?i2 = w ?i2" using w1 d(1) by fastforce
      have ents1: "ents = indirect_block (w1 ?i2)" by (simp add: ents_def w12)
      have ent: "unat (ents ! a) < N \<and> unat (ents ! a) \<notin> insert ?i2 L \<and> w1 (unat (ents ! a)) = w (unat (ents ! a))"
        if "a < index_count n" for a
      proof -
        have "unat (ents ! a) \<in> set (meta_ids w di n)" unfolding ents_def by (rule meta_ids_mem(3) [OF that])
        with tree_ok_meta [OF tree this] d(2,3) [OF that] w1 show ?thesis by (auto simp: ents_def)
      qed
      have a1: "a1 + (if 0 < b1 then 1 else 0) \<le> 128" using index_count_bound [OF len(2)] ic by simp
      have es: "\<forall>a < a1 + (if 0 < b1 then 1 else 0). unat (ents ! a) < N \<and> unat (ents ! a) \<notin> insert ?i2 L"
        using ent unfolding ic by blast
      let ?v = "(?v2 @ [indirect2 di]) @ concat (map (\<lambda>e. e # indirect_block (w1 (unat e))) (take a1 ents))
          @ (if 0 < b1 then ents ! a1 # take b1 (indirect_block (w1 (unat (ents ! a1)))) else [])"
      from clear_indirect2 [OF at1 at(2,3) i2 ents1 a1 es, of "?v2 @ [indirect2 di]"] obtain s2 where
        c2: "bc_modify D ?i2 0 BLOCK_SIZE (?f a1 b1 (?v2 @ [indirect2 di])) s1 = Ok (?v, s2)" "fs_at D N dev_ok s2 L M w1" by blast
      have K: "(n - 28 \<le> 128) = False" "(n - 28 - 128 \<le> INODE_INDIRECT2_COUNT) = True" "(n - 28 - 128) div 128 = a1" "(n - 28 - 128) mod 128 = b1"
        using False len(2) by (simp_all add: layout_consts a1_def b1_def)
      have res: "clear_size D di s = Ok ((?v, ?di1\<lparr>indirect2 := 0\<rparr>), s2)"
        by (simp only: run K if_False assert_that_simps and_then_simps c2(1) prod.case)
      define f where "f = (\<lambda>a. indirect_block (w (unat (ents ! a))))"
      have tk: "take a1 ents = map ((!) ents) [0..<a1]"
        using a1 fs_at_lengths [OF at(1)] i2(1) by (intro nth_equalityI) (simp_all add: ents_def split: if_splits)
      have cc: "concat (map (\<lambda>e. e # indirect_block (w1 (unat e))) (take a1 ents)) = concat (map (\<lambda>a. ents ! a # f a) [0..<a1])"
        unfolding tk map_map using ent ic by (intro arg_cong [where f = concat]) (auto simp: f_def)
      have last: "(if 0 < b1 then ents ! a1 # take b1 (indirect_block (w1 (unat (ents ! a1)))) else [])
          = (if 0 < b1 then ents ! a1 # take b1 (f a1) else [])" using ent ic by (simp add: f_def)
      have lf: "\<forall>a < a1. length (f a) = 128" "0 < b1 \<longrightarrow> length (f a1) = 128"
        using ent fs_at_lengths [OF at(1)] ic by (simp_all add: f_def)
      have blocks: "blocks_at w di n = direct di @ indirect_block (w ?i1) @ concat (map f [0..<a1]) @ (if 0 < b1 then take b1 (f a1) else [])"
        using blocks_at_indirect2 [of n a1 b1 di w] ab len(1) l1 lf unfolding f_def ents_def by blast
      have e1: "take (min (n - 28) 128) (indirect_block (w ?i1)) = indirect_block (w ?i1)" using False l1 by simp
      have "mset (map unat ?v) = mset (tree_ids w di n)"
      proof -
        have "mset (concat (map (\<lambda>a. ents ! a # f a) [0..<a1])) = mset (map ((!) ents) [0..<a1]) + mset (concat (map f [0..<a1]))"
          by (induction a1) simp_all
        then have "mset ?v = mset (blocks_at w di n @ [indirect1 di, indirect2 di] @ map ((!) ents) [0..<index_count n])"
          unfolding cc last e1 td blocks ic by (simp add: atLeast0_lessThan_Suc)
        then have "mset (map unat ?v) = mset (map unat (blocks_at w di n @ [indirect1 di, indirect2 di] @ map ((!) ents) [0..<index_count n]))"
          by (simp only: mset_map)
        also have "\<dots> = mset (tree_ids w di n)"
          by (simp add: tree_ids_def data_ids_blocks_at meta metas_def ents_def comp_def)
        finally show ?thesis .
      qed
      with res c2(2) out1 lds show ?thesis
        by (intro exI [of _ ?v] exI [of _ "?di1\<lparr>indirect2 := 0\<rparr>"] exI [of _ s2] exI [of _ w1]) simp
    qed
  qed
qed

end

end
