(* ===== verification/Efs.thy ===== *)
theory Efs
  imports Inode_Grow
begin

text \<open>
  The file system object of easy-fs, \<^verbatim>\<open>src/src/easy-fs/src/efs.rs\<close>: formatting and opening a disk, the
  position of an inode, and allocation of inodes and data blocks. Its fields never change
  after \<^verbatim>\<open>create\<close> or \<^verbatim>\<open>open\<close>; what changes is the disk, so the operations take the object and pass on
  the state of the block cache. All arithmetic on \<^verbatim>\<open>u32\<close> fields wraps.
\<close>

section \<open>Model\<close>

record EasyFileSystem =
  inode_bitmap :: Bitmap
  data_bitmap :: Bitmap
  inode_area_start_block :: u32
  data_area_start_block :: u32

definition get_disk_inode_pos :: "EasyFileSystem \<Rightarrow> u32 \<Rightarrow> u32 \<times> nat" where
  "get_disk_inode_pos e inode_id =
     (let inodes_pre_block = of_nat (BLOCK_SIZE div DISK_INODE_SIZE) :: u32
      in (inode_area_start_block e + inode_id div inodes_pre_block, unat (inode_id mod inodes_pre_block) * DISK_INODE_SIZE))"

definition get_data_block_id :: "EasyFileSystem \<Rightarrow> u32 \<Rightarrow> u32" where
  "get_data_block_id e data_block_id = data_area_start_block e + data_block_id"

definition alloc_inode :: "'d BlockDevice \<Rightarrow> EasyFileSystem \<Rightarrow> 'd bc_state \<Rightarrow> (u32 \<times> 'd bc_state) outcome" where
  "alloc_inode D e s =
     and_then (Bitmap_alloc D (inode_bitmap e) s) (\<lambda>(r, s). and_then (unwrap r) (\<lambda>k. Ok (of_nat k, s)))"

definition alloc_data :: "'d BlockDevice \<Rightarrow> EasyFileSystem \<Rightarrow> 'd bc_state \<Rightarrow> (u32 \<times> 'd bc_state) outcome" where
  "alloc_data D e s =
     and_then (Bitmap_alloc D (data_bitmap e) s) (\<lambda>(r, s).
     and_then (unwrap r) (\<lambda>k. Ok (get_data_block_id e (of_nat k), s)))"

text \<open>\<^verbatim>\<open>for byte in data_block.iter_mut() { *byte = 0; }\<close>\<close>

definition zero_block :: "'d BlockDevice \<Rightarrow> nat \<Rightarrow> 'd bc_state \<Rightarrow> (unit \<times> 'd bc_state) outcome" where
  "zero_block D block_id s =
     bc_modify D block_id 0 BLOCK_SIZE (\<lambda>bs s. Ok ((), map (\<lambda>_. 0) bs, s)) s"

definition dealloc_data :: "'d BlockDevice \<Rightarrow> EasyFileSystem \<Rightarrow> u32 \<Rightarrow> 'd bc_state \<Rightarrow> (unit \<times> 'd bc_state) outcome" where
  "dealloc_data D e block_id s =
     and_then (zero_block D (unat block_id) s) (\<lambda>(_, s).
     Bitmap_dealloc D (data_bitmap e) (unat (block_id - data_area_start_block e)) s)"

text \<open>The loop of \<^verbatim>\<open>create\<close> over all blocks: \<open>n\<close> blocks from \<open>block_id\<close> on.\<close>

fun clean_blocks :: "'d BlockDevice \<Rightarrow> nat \<Rightarrow> nat \<Rightarrow> 'd bc_state \<Rightarrow> 'd bc_state outcome" where
  "clean_blocks D block_id 0 s = Ok s"
| "clean_blocks D block_id (Suc n) s =
     and_then (zero_block D block_id s) (\<lambda>(_, s). clean_blocks D (Suc block_id) n s)"

definition efs_create :: "'d BlockDevice \<Rightarrow> u32 \<Rightarrow> u32 \<Rightarrow> 'd bc_state \<Rightarrow> (EasyFileSystem \<times> 'd bc_state) outcome" where
  "efs_create D tb ibm s =
     (let ibitmap = Bitmap_new 1 (unat ibm);
          inode_num = Bitmap_maximum ibitmap;
          ia = of_nat ((inode_num * DISK_INODE_SIZE + BLOCK_SIZE - 1) div BLOCK_SIZE) :: u32;
          inode_total_block = ibm + ia;
          data_total_blocks = tb - 1 - inode_total_block;
          dbm = (data_total_blocks + of_nat BLOCK_BITS) div (of_nat BLOCK_BITS + 1);
          da = data_total_blocks - dbm;
          dbitmap = Bitmap_new (unat (1 + ibm + ia)) (unat dbm);
          e = \<lparr>inode_bitmap = ibitmap, data_bitmap = dbitmap, inode_area_start_block = 1 + ibm,
               data_area_start_block = 1 + inode_total_block + dbm\<rparr>
      in and_then (clean_blocks D 0 (unat tb) s) (\<lambda>s.
         and_then (bc_modify D 0 0 SUPER_BLOCK_SIZE (\<lambda>_ s.
             Ok ((), SuperBlock_bytes (SuperBlock_initialize tb ibm ia dbm da), s)) s) (\<lambda>(_, s).
         and_then (alloc_inode D e s) (\<lambda>(i, s).
         and_then (assert_that (i = 0)) (\<lambda>_.
         let (root_inode_block_id, root_inode_offset) = get_disk_inode_pos e 0
         in and_then (bc_modify D (unat root_inode_block_id) root_inode_offset DISK_INODE_SIZE (\<lambda>bs s.
              Ok ((), DiskInode_bytes (DiskInode_initialize Directory (DiskInode_of_bytes bs)) bs, s)) s) (\<lambda>(_, s).
            and_then (block_cache_sync_all D s) (\<lambda>s. Ok (e, s))))))))"

text \<open>The object that \<^verbatim>\<open>open\<close> builds from the super block.\<close>

definition efs_of_super :: "SuperBlock \<Rightarrow> EasyFileSystem" where
  "efs_of_super super_block =
     (let inode_total_blocks = inode_bitmap_blocks super_block + inode_area_blocks super_block
      in \<lparr>inode_bitmap = Bitmap_new 1 (unat (inode_bitmap_blocks super_block)),
          data_bitmap = Bitmap_new (unat (1 + inode_total_blocks)) (unat (data_bitmap_blocks super_block)),
          inode_area_start_block = 1 + inode_bitmap_blocks super_block,
          data_area_start_block = 1 + inode_total_blocks + data_bitmap_blocks super_block\<rparr>)"

definition efs_open :: "'d BlockDevice \<Rightarrow> 'd bc_state \<Rightarrow> (EasyFileSystem \<times> 'd bc_state) outcome" where
  "efs_open D s =
     bc_read D 0 0 SUPER_BLOCK_SIZE (\<lambda>bs s.
       let super_block = SuperBlock_of_bytes bs
       in and_then (assert_that (SuperBlock_is_valid super_block)) (\<lambda>_. Ok (efs_of_super super_block, s))) s"

section \<open>Geometry of the disk\<close>

text \<open>
  Super block, inode bitmap, inode area, data bitmap and data area follow each other; the
  bitmap of the data area covers it and the disk has \<open>N\<close> blocks.
\<close>

definition ia_start :: "EasyFileSystem \<Rightarrow> nat" where "ia_start e = unat (inode_area_start_block e)"
definition da_start :: "EasyFileSystem \<Rightarrow> nat" where "da_start e = unat (data_area_start_block e)"

definition geometry :: "nat \<Rightarrow> EasyFileSystem \<Rightarrow> bool" where
  "geometry N e \<longleftrightarrow>
     start_block_id (inode_bitmap e) = 1 \<and> 0 < blocks (inode_bitmap e)
     \<and> ia_start e = 1 + blocks (inode_bitmap e)
     \<and> start_block_id (data_bitmap e) = ia_start e + blocks (inode_bitmap e) * 1024
     \<and> da_start e = start_block_id (data_bitmap e) + blocks (data_bitmap e)
     \<and> Bitmap_maximum (inode_bitmap e) < 2 ^ 32
     \<and> da_start e \<le> N \<and> N - da_start e \<le> Bitmap_maximum (data_bitmap e) \<and> N < 2 ^ 32"

text \<open>The block and offset of an inode, and the blocks of the data area that are free.\<close>

definition iblock :: "EasyFileSystem \<Rightarrow> nat \<Rightarrow> nat" where "iblock e i = ia_start e + i div 4"
definition ioffset :: "nat \<Rightarrow> nat" where "ioffset i = i mod 4 * 128"

definition data_used :: "EasyFileSystem \<Rightarrow> disk \<Rightarrow> nat set" where
  "data_used e w = (\<lambda>k. da_start e + k) ` bm_bits (data_bitmap e) w"

definition data_free :: "nat \<Rightarrow> EasyFileSystem \<Rightarrow> disk \<Rightarrow> nat set" where
  "data_free N e w = {da_start e..<N} - data_used e w"

lemma geometry_blocks:
  assumes "geometry N e"
  shows "bm_blocks (inode_bitmap e) \<subseteq> {..<ia_start e}" "bm_blocks (data_bitmap e) \<subseteq> {..<da_start e}"
    "bm_blocks (data_bitmap e) \<inter> {..<start_block_id (data_bitmap e)} = {}"
    "ia_start e \<le> start_block_id (data_bitmap e)" "start_block_id (data_bitmap e) \<le> da_start e" "da_start e \<le> N"
    "0 \<notin> bm_blocks (inode_bitmap e)" "0 < ia_start e"
  using assms by (auto simp: geometry_def bm_blocks_def)

lemma geometry_iblock:
  assumes "geometry N e" "i < Bitmap_maximum (inode_bitmap e)"
  shows "ia_start e \<le> iblock e i" "iblock e i < start_block_id (data_bitmap e)"
    "iblock e i < da_start e" "iblock e i < N" "iblock e i \<notin> bm_blocks (data_bitmap e)" "iblock e i \<notin> bm_blocks (inode_bitmap e)"
proof -
  have "i div 4 < blocks (inode_bitmap e) * 1024" using assms(2) by (simp add: Bitmap_maximum_eq)
  then show lt: "iblock e i < start_block_id (data_bitmap e)" using assms(1) by (simp add: iblock_def geometry_def)
  show "ia_start e \<le> iblock e i" by (simp add: iblock_def)
  then show "iblock e i \<notin> bm_blocks (inode_bitmap e)" using geometry_blocks(1) [OF assms(1)] by auto
  show "iblock e i < da_start e" "iblock e i < N" using lt geometry_blocks(5,6) [OF assms(1)] by simp_all
  show "iblock e i \<notin> bm_blocks (data_bitmap e)" using lt by (simp add: bm_blocks_def)
qed

lemma get_disk_inode_pos_eq:
  assumes "geometry N e" "i < Bitmap_maximum (inode_bitmap e)"
  shows "get_disk_inode_pos e (of_nat i) = (of_nat (iblock e i), ioffset i)" "unat (of_nat (iblock e i) :: u32) = iblock e i"
    "unat (of_nat i :: u32) = i"
proof -
  have "iblock e i < 2 ^ 32" using geometry_iblock(4) [OF assms] assms(1) by (simp add: geometry_def)
  then show "unat (of_nat (iblock e i) :: u32) = iblock e i" by (simp add: unat_of_nat)
  have "i < 2 ^ 32" using assms by (simp add: geometry_def)
  then show i: "unat (of_nat i :: u32) = i" by (simp add: unat_of_nat)
  have "unat ((of_nat i :: u32) div 4) = i div 4" "unat ((of_nat i :: u32) mod 4) = i mod 4"
    using i by (simp_all add: unat_div unat_mod)
  moreover have "inode_area_start_block e + (of_nat i :: u32) div 4 = of_nat (iblock e i)"
  proof -
    have "inode_area_start_block e = of_nat (ia_start e)" by (simp add: ia_start_def)
    moreover have "(of_nat i :: u32) div 4 = of_nat (i div 4)"
      using \<open>unat ((of_nat i :: u32) div 4) = i div 4\<close> \<open>i < 2 ^ 32\<close> by (simp only: word_unat_eq_iff unat_of_nat) simp
    ultimately show ?thesis by (simp add: iblock_def)
  qed
  ultimately show "get_disk_inode_pos e (of_nat i) = (of_nat (iblock e i), ioffset i)"
    by (simp add: get_disk_inode_pos_def BLOCK_SIZE_def DISK_INODE_SIZE_def ioffset_def)
qed

section \<open>Allocation of data blocks\<close>

lemma bm_bits_cong: "\<forall>b \<in> bm_blocks bm. w' b = w b \<Longrightarrow> bm_bits bm w' = bm_bits bm w"
proof -
  assume same: "\<forall>b \<in> bm_blocks bm. w' b = w b"
  have "bm_bit w' bm k = bm_bit w bm k" if "k < Bitmap_maximum bm" for k
  proof -
    have "k div 4096 < blocks bm" using that by (simp add: Bitmap_maximum_eq less_mult_imp_div_less)
    then have "start_block_id bm + k div 4096 \<in> bm_blocks bm" by (simp add: bm_blocks_def)
    with same show ?thesis by (simp add: bm_bit_div_mod bitmap_block_def)
  qed
  then show ?thesis by (auto simp: bm_bits_def)
qed

lemma data_used_cong: "\<forall>b \<in> bm_blocks (data_bitmap e). w' b = w b \<Longrightarrow> data_used e w' = data_used e w"
  using bm_bits_cong [of "data_bitmap e" w' w] by (simp add: data_used_def)

lemma finite_data_free: "finite (data_free N e w)"
  by (simp add: data_free_def)

context block_device
begin

lemma fs_at_bm_ok: "fs_at D N dev_ok s L M w \<Longrightarrow> bm_blocks bm \<subseteq> {..<N} \<Longrightarrow> bm_ok bm w"
  unfolding bm_ok_def using fs_at_length by blast

text \<open>
  A data block can be allocated as long as one of the data area is free: the lowest clear bit
  is then inside the area, although the bitmap may have bits beyond it.
\<close>

lemma alloc_data_at:
  assumes at: "fs_at D N dev_ok s L M w" "M \<subseteq> L" "card L < BLOCK_CACHE_SIZE"
    and geo: "geometry N e" "bm_blocks (data_bitmap e) \<inter> L = {}" and free: "data_free N e w \<noteq> {}"
  shows "\<exists>s' w' b. alloc_data D e s = Ok (b, s') \<and> fs_at D N dev_ok s' L M w'
    \<and> unat b \<in> data_free N e w \<and> data_used e w' = insert (unat b) (data_used e w)
    \<and> (\<forall>i. i \<notin> bm_blocks (data_bitmap e) \<longrightarrow> w' i = w i)"
proof -
  let ?bm = "data_bitmap e"
  have sub: "bm_blocks ?bm \<subseteq> {..<N}" using geometry_blocks(2,6) [OF geo(1)] by auto
  obtain r w' where al: "bm_alloc ?bm w = (r, w')" by (cases "bm_alloc ?bm w")
  have ok: "bm_ok ?bm w" by (rule fs_at_bm_ok [OF at(1) sub])
  note spec = bm_alloc_spec [OF ok al]
  from free obtain x where "x \<in> data_free N e w" by blast
  then have x: "da_start e \<le> x" "x < N" "x \<notin> data_used e w" by (simp_all add: data_free_def)
  then obtain j where j: "x = da_start e + j" using le_Suc_ex by blast
  with x have j': "j < N - da_start e" "j \<notin> bm_bits ?bm w" by (auto simp: data_used_def)
  moreover have "N - da_start e \<le> Bitmap_maximum ?bm" "N < 2 ^ 32" using geo(1) unfolding geometry_def by blast+
  ultimately have "j < Bitmap_maximum ?bm" by linarith
  then have "bm_bits ?bm w \<noteq> {..<Bitmap_maximum ?bm}" using j'(2) by auto
  with spec obtain k where k: "r = Some k" by (cases r) auto
  with spec have kk: "k \<notin> bm_bits ?bm w" "{..<k} \<subseteq> bm_bits ?bm w" "bm_bits ?bm w' = insert k (bm_bits ?bm w)"
    "\<forall>i. i \<notin> bm_blocks ?bm \<longrightarrow> w' i = w i" by auto
  have kj: "k \<le> j" using kk(2) j'(2) by (meson lessThan_iff not_le subsetD)
  from Bitmap_alloc_at [OF at geo(2) sub] al k obtain s' where
    s': "Bitmap_alloc D ?bm s = Ok (Some k, s')" "fs_at D N dev_ok s' L M w'" by auto
  let ?b = "get_data_block_id e (of_nat k)"
  have "da_start e + k < 2 ^ 32" using kj j' \<open>N < 2 ^ 32\<close> by linarith
  then have b: "unat ?b = da_start e + k"
    unfolding get_data_block_id_def da_start_def by (subst unat_add_no_wrap) (simp_all add: unat_of_nat)
  have "unat ?b \<in> data_free N e w" using b kj j' kk(1) by (auto simp: data_free_def data_used_def)
  moreover have "data_used e w' = insert (unat ?b) (data_used e w)" by (simp add: data_used_def kk(3) b)
  ultimately show ?thesis using s' kk(4) by (intro exI [of _ s'] exI [of _ w'] exI [of _ ?b]) (simp add: alloc_data_def)
qed

lemma zero_block_at:
  assumes at: "fs_at D N dev_ok s L M w" "M \<subseteq> L" "card L < BLOCK_CACHE_SIZE" and b: "b < N" "b \<notin> L"
  shows "\<exists>s'. zero_block D b s = Ok ((), s') \<and> fs_at D N dev_ok s' L M (w(b := replicate 512 0))"
proof -
  have len: "length (w b) = 512" using fs_at_lengths [OF at(1)] b(1) by blast
  have bM: "b \<notin> M" using b(2) at(2) by auto
  have "\<exists>s'. zero_block D b s = Ok ((), s') \<and> fs_at D N dev_ok s' L M (w(b := splice 0 (replicate 512 0) (w b)))"
    unfolding zero_block_def
    by (rule bc_modify_rule [OF at(1) b bM at(3)]) (use len in \<open>simp_all add: BLOCK_SIZE_def map_replicate_const\<close>)
  then show ?thesis using len by (simp add: splice_all)
qed

lemma dealloc_data_at:
  assumes at: "fs_at D N dev_ok s L M w" "M \<subseteq> L" "card L < BLOCK_CACHE_SIZE"
    and geo: "geometry N e" "bm_blocks (data_bitmap e) \<inter> L = {}"
    and b: "unat b \<in> data_used e w" "unat b < N" "unat b \<notin> L"
  shows "\<exists>s' w'. dealloc_data D e b s = Ok ((), s') \<and> fs_at D N dev_ok s' L M w'
    \<and> w' (unat b) = replicate 512 0 \<and> data_used e w' = data_used e w - {unat b}
    \<and> (\<forall>i. i \<notin> bm_blocks (data_bitmap e) \<longrightarrow> i \<noteq> unat b \<longrightarrow> w' i = w i)"
proof -
  let ?bm = "data_bitmap e" and ?w = "w(unat b := replicate 512 0)"
  from b(1) obtain k where k: "unat b = da_start e + k" "k \<in> bm_bits ?bm w" by (auto simp: data_used_def)
  have sub: "bm_blocks ?bm \<subseteq> {..<N}" and out: "unat b \<notin> bm_blocks ?bm"
    using geometry_blocks(2,6) [OF geo(1)] k(1) by auto
  have bits: "bm_bits ?bm ?w = bm_bits ?bm w" using out by (intro bm_bits_cong) auto
  from zero_block_at [OF at b(2,3)] obtain s1 where
    s1: "zero_block D (unat b) s = Ok ((), s1)" "fs_at D N dev_ok s1 L M ?w" by blast
  have ok: "bm_ok ?bm ?w" by (rule fs_at_bm_ok [OF s1(2) sub])
  have kmax: "k < Bitmap_maximum ?bm" using k(2) by (simp add: bm_bits_def)
  from bm_dealloc_spec [OF ok kmax] k(2) bits obtain w' where
    w': "bm_dealloc ?bm k ?w = Ok w'" "bm_bits ?bm w' = bm_bits ?bm w - {k}" "\<forall>i. i \<notin> bm_blocks ?bm \<longrightarrow> w' i = ?w i" by auto
  have "unat (b - data_area_start_block e) = k"
    using k(1) by (simp add: da_start_def unat_sub word_le_nat_alt)
  with Bitmap_dealloc_at [OF s1(2) at(2,3) geo(2) sub kmax w'(1)] s1(1) obtain s' where
    s': "dealloc_data D e b s = Ok ((), s')" "fs_at D N dev_ok s' L M w'" by (auto simp: dealloc_data_def)
  have "data_used e w' = data_used e w - {unat b}"
    unfolding data_used_def w'(2) k(1) by (subst image_set_diff) (auto simp: inj_def)
  with s' w'(3) out show ?thesis by (intro exI [of _ s'] exI [of _ w']) auto
qed

lemma clean_blocks_at:
  assumes "fs_at D N dev_ok s {} {} w" "b + n \<le> N"
  shows "\<exists>s'. clean_blocks D b n s = Ok s' \<and> fs_at D N dev_ok s' {} {} (\<lambda>i. if b \<le> i \<and> i < b + n then replicate 512 0 else w i)"
  using assms
proof (induction n arbitrary: b s w)
  case 0
  have "(\<lambda>i. if b \<le> i \<and> i < b + 0 then replicate 512 0 else w i) = w" by (rule ext) auto
  with 0 show ?case by simp
next
  case (Suc n)
  from zero_block_at [OF Suc.prems(1), of b] Suc.prems(2) obtain s1 where
    s1: "zero_block D b s = Ok ((), s1)" "fs_at D N dev_ok s1 {} {} (w(b := replicate 512 0))" by (auto simp: BLOCK_CACHE_SIZE_def)
  have "(\<lambda>i. if Suc b \<le> i \<and> i < Suc b + n then replicate 512 0 else (w(b := replicate 512 0)) i)
      = (\<lambda>i. if b \<le> i \<and> i < b + Suc n then replicate 512 0 else w i)" by (auto simp: fun_eq_iff)
  with Suc.IH [OF s1(2), of "Suc b"] Suc.prems(2) s1(1) show ?case by simp
qed

end

end
