(* ===== verification/Fs_Invariant.thy ===== *)
theory Fs_Invariant
  imports Efs
begin

text \<open>
  The invariant of a mounted easy-fs disk: the inodes that the inode bitmap marks have
  well-formed, pairwise disjoint trees; the data bitmap marks exactly the blocks of these
  trees, so that no block is shared and none is lost; free data blocks are zero, and so are
  the bytes of the last block of a file beyond its size. Every operation of the virtual file
  system changes one inode and its tree: \<open>fs_inv_update\<close> and \<open>fs_inv_new\<close> say once what such a change has
  to respect.
\<close>

section \<open>The invariant\<close>

definition dinode :: "EasyFileSystem \<Rightarrow> disk \<Rightarrow> nat \<Rightarrow> DiskInode" where
  "dinode e w i = DiskInode_of_bytes (take 128 (drop (ioffset i) (w (iblock e i))))"

definition own_blocks :: "disk \<Rightarrow> DiskInode \<Rightarrow> nat list" where
  "own_blocks w di = tree_ids w di (unat (data_blocks di))"

definition live_inodes :: "EasyFileSystem \<Rightarrow> disk \<Rightarrow> nat set" where
  "live_inodes e w = bm_bits (inode_bitmap e) w"

definition max_file_size :: nat where
  "max_file_size = INDIRECT2_BOUND * BLOCK_SIZE"

definition inode_wf :: "nat \<Rightarrow> EasyFileSystem \<Rightarrow> disk \<Rightarrow> DiskInode \<Rightarrow> bool" where
  "inode_wf N e w di \<longleftrightarrow>
     unat (di_size di) \<le> max_file_size \<and> length (direct di) = 28
     \<and> distinct (own_blocks w di) \<and> set (own_blocks w di) \<subseteq> {da_start e..<N}
     \<and> (\<forall>x \<in> set (drop (unat (di_size di)) (raw_bytes w di (unat (data_blocks di)))). x = 0)"

definition fs_inv :: "nat \<Rightarrow> EasyFileSystem \<Rightarrow> disk \<Rightarrow> bool" where
  "fs_inv N e w \<longleftrightarrow>
     geometry N e \<and> (\<forall>b < N. length (w b) = 512)
     \<and> (\<forall>i \<in> live_inodes e w. inode_wf N e w (dinode e w i))
     \<and> (\<forall>i \<in> live_inodes e w. \<forall>j \<in> live_inodes e w. i \<noteq> j \<longrightarrow>
          set (own_blocks w (dinode e w i)) \<inter> set (own_blocks w (dinode e w j)) = {})
     \<and> (\<Union>i \<in> live_inodes e w. set (own_blocks w (dinode e w i))) = data_used e w
     \<and> (\<forall>b \<in> data_free N e w. w b = replicate 512 0)"

definition icontent :: "EasyFileSystem \<Rightarrow> disk \<Rightarrow> nat \<Rightarrow> u8 list" where
  "icontent e w i = file_bytes w (dinode e w i)"

lemma max_file_size_eq: "max_file_size = 8468480"
  by (simp add: max_file_size_def layout_consts)

lemma size_blocks:
  assumes "unat sz \<le> max_file_size"
  shows "unat sz + 511 < 2 ^ 32" "unat (data_blocks_of sz) = (unat sz + 511) div 512" "unat (data_blocks_of sz) \<le> INDIRECT2_BOUND"
    "unat sz \<le> unat (data_blocks_of sz) * 512"
proof -
  show b: "unat sz + 511 < 2 ^ 32" using assms by (simp add: max_file_size_eq)
  from data_blocks_of_eq [OF b] show eq: "unat (data_blocks_of sz) = (unat sz + 511) div 512" .
  have "(unat sz + 511) div 512 \<le> (8468480 + 511) div 512"
    using assms by (intro div_le_mono) (simp add: max_file_size_eq)
  then show "unat (data_blocks_of sz) \<le> INDIRECT2_BOUND" unfolding eq by (simp add: layout_consts)
  show "unat sz \<le> unat (data_blocks_of sz) * 512" by (rule data_blocks_of_bounds [OF b])
qed

lemma inode_wf_tree:
  assumes "inode_wf N e w di" "L \<inter> {da_start e..<N} = {}"
  shows "tree_ok N L w di (unat (data_blocks di))"
proof -
  have "unat (data_blocks di) \<le> INDIRECT2_BOUND"
    unfolding data_blocks_def by (rule size_blocks(3)) (use assms(1) in \<open>simp add: inode_wf_def\<close>)
  moreover have "b < N \<and> b \<notin> L" if "b \<in> set (own_blocks w di)" for b
    using assms that unfolding inode_wf_def by auto
  ultimately show ?thesis using assms(1) unfolding tree_ok_def inode_wf_def own_blocks_def by blast
qed

lemma fs_invD:
  assumes "fs_inv N e w"
  shows "geometry N e" "b < N \<Longrightarrow> length (w b) = 512" "i \<in> live_inodes e w \<Longrightarrow> inode_wf N e w (dinode e w i)"
    "i \<in> live_inodes e w \<Longrightarrow> j \<in> live_inodes e w \<Longrightarrow> i \<noteq> j \<Longrightarrow>
       set (own_blocks w (dinode e w i)) \<inter> set (own_blocks w (dinode e w j)) = {}"
    "(\<Union>i \<in> live_inodes e w. set (own_blocks w (dinode e w i))) = data_used e w"
    "b \<in> data_free N e w \<Longrightarrow> w b = replicate 512 0"
proof -
  note A = assms [unfolded fs_inv_def]
  show "geometry N e" by (rule A [THEN conjunct1])
  show "length (w b) = 512" if "b < N" by (rule A [THEN conjunct2, THEN conjunct1, rule_format, OF that])
  show "inode_wf N e w (dinode e w i)" if "i \<in> live_inodes e w"
    by (rule A [THEN conjunct2, THEN conjunct2, THEN conjunct1, rule_format, OF that])
  show "set (own_blocks w (dinode e w i)) \<inter> set (own_blocks w (dinode e w j)) = {}"
    if "i \<in> live_inodes e w" "j \<in> live_inodes e w" "i \<noteq> j"
    by (rule A [THEN conjunct2, THEN conjunct2, THEN conjunct2, THEN conjunct1, rule_format, OF that])
  show "(\<Union>i \<in> live_inodes e w. set (own_blocks w (dinode e w i))) = data_used e w"
    by (rule A [THEN conjunct2, THEN conjunct2, THEN conjunct2, THEN conjunct2, THEN conjunct1])
  show "w b = replicate 512 0" if "b \<in> data_free N e w"
    by (rule A [THEN conjunct2, THEN conjunct2, THEN conjunct2, THEN conjunct2, THEN conjunct2, rule_format, OF that])
qed

lemma live_inode_pos:
  assumes "geometry N e" "i \<in> live_inodes e w"
  shows "i < Bitmap_maximum (inode_bitmap e)"
  using assms by (simp add: live_inodes_def bm_bits_def)

lemma own_subset_used: "fs_inv N e w \<Longrightarrow> i \<in> live_inodes e w \<Longrightarrow> set (own_blocks w (dinode e w i)) \<subseteq> data_used e w"
  using fs_invD(5) by blast

lemma own_area: "inode_wf N e w di \<Longrightarrow> b \<in> set (own_blocks w di) \<Longrightarrow> da_start e \<le> b \<and> b < N"
  by (auto simp: inode_wf_def)

text \<open>The slot of an inode and those of the others.\<close>

lemma inode_slots_disjoint:
  assumes "i \<noteq> j" "iblock e i = iblock e j"
  shows "ioffset j + 128 \<le> ioffset i \<or> ioffset i + 128 \<le> ioffset j"
proof -
  have "i div 4 = j div 4" using assms(2) by (simp add: iblock_def)
  then have "i mod 4 \<noteq> j mod 4" using assms(1) by (metis div_mult_mod_eq)
  then show ?thesis using block_range_disjoint [of "j mod 4" "i mod 4" 128] by (simp add: ioffset_def)
qed

lemma ioffset_bound: "ioffset i + 128 \<le> 512"
proof -
  have "i mod 4 < 4" by simp
  then show ?thesis unfolding ioffset_def by linarith
qed

lemma ioffset_lt [simp]: "ioffset i < BLOCK_SIZE"
  using ioffset_bound [of i] by (simp add: BLOCK_SIZE_def)

lemma dinode_splice:
  assumes "length (w (iblock e i)) = 512" "length bs = 128" "w' (iblock e i) = splice (ioffset i) bs (w (iblock e i))"
  shows "dinode e w' i = DiskInode_of_bytes bs"
  using splice_bytes [of "ioffset i" bs "w (iblock e i)"] ioffset_bound [of i] assms by (simp add: dinode_def)

lemma dinode_other:
  assumes "length (w (iblock e i)) = 512" "length bs = 128" "w' (iblock e i) = splice (ioffset i) bs (w (iblock e i))"
    and "j \<noteq> i" "iblock e j \<noteq> iblock e i \<Longrightarrow> w' (iblock e j) = w (iblock e j)"
  shows "dinode e w' j = dinode e w j"
proof (cases "iblock e j = iblock e i")
  case True
  from inode_slots_disjoint [OF assms(4) True] True
  have "take 128 (drop (ioffset j) (splice (ioffset i) bs (w (iblock e i)))) = take 128 (drop (ioffset j) (w (iblock e i)))"
    using ioffset_bound [of i] assms(1,2) by (intro splice_drop_other) auto
  with True assms(3) show ?thesis by (simp add: dinode_def)
qed (use assms(5) in \<open>simp add: dinode_def\<close>)

lemma own_blocks_cong:
  assumes "\<forall>b \<in> set (own_blocks w di). w' b = w b"
  shows "own_blocks w' di = own_blocks w di" "raw_bytes w' di (unat (data_blocks di)) = raw_bytes w di (unat (data_blocks di))"
    "file_bytes w' di = file_bytes w di"
proof -
  let ?n = "unat (data_blocks di)"
  have m: "\<forall>b \<in> set (meta_ids w di ?n). w' b = w b" using assms by (simp add: own_blocks_def tree_ids_def)
  from tree_ids_cong [OF m] show "own_blocks w' di = own_blocks w di" by (simp add: own_blocks_def)
  have "map w' (data_ids w di ?n) = map w (data_ids w di ?n)" using assms by (simp add: own_blocks_def tree_ids_def)
  then show raw: "raw_bytes w' di ?n = raw_bytes w di ?n"
    unfolding raw_bytes_def data_ids_cong [OF m refl refl refl] by (rule arg_cong)
  then show "file_bytes w' di = file_bytes w di" by (simp add: file_bytes_def)
qed

lemma inode_wf_cong:
  assumes "inode_wf N e w di" "\<forall>b \<in> set (own_blocks w di). w' b = w b"
  shows "inode_wf N e w' di"
  using assms(1) own_blocks_cong [OF assms(2)] by (simp add: inode_wf_def)

section \<open>Changing one inode\<close>

definition inode_change :: "nat \<Rightarrow> EasyFileSystem \<Rightarrow> disk \<Rightarrow> disk \<Rightarrow> nat \<Rightarrow> u8 list \<Rightarrow> bool" where
  "inode_change N e w w' i bs \<longleftrightarrow>
     i < Bitmap_maximum (inode_bitmap e) \<and> (\<forall>b < N. length (w' b) = 512)
     \<and> length bs = 128 \<and> w' (iblock e i) = splice (ioffset i) bs (w (iblock e i))
     \<and> (\<forall>b. ia_start e \<le> b \<longrightarrow> b < start_block_id (data_bitmap e) \<longrightarrow> b \<noteq> iblock e i \<longrightarrow> w' b = w b)"

lemma change_this:
  assumes "fs_inv N e w" "inode_change N e w w' i bs"
  shows "dinode e w' i = DiskInode_of_bytes bs"
proof (rule dinode_splice)
  show "length (w (iblock e i)) = 512"
    using fs_invD(2) [OF assms(1) geometry_iblock(4) [OF fs_invD(1) [OF assms(1)]]] assms(2) by (simp add: inode_change_def)
qed (use assms(2) in \<open>simp_all add: inode_change_def\<close>)

lemma change_other:
  assumes "fs_inv N e w" "inode_change N e w w' i bs" "j \<in> live_inodes e w" "j \<noteq> i"
  shows "dinode e w' j = dinode e w j"
proof (rule dinode_other)
  have geo: "geometry N e" by (rule fs_invD(1) [OF assms(1)])
  show "length (w (iblock e i)) = 512"
    using fs_invD(2) [OF assms(1) geometry_iblock(4) [OF geo]] assms(2) by (simp add: inode_change_def)
  show "length bs = 128" "w' (iblock e i) = splice (ioffset i) bs (w (iblock e i))" "j \<noteq> i"
    using assms(2,4) by (simp_all add: inode_change_def)
  note j = geometry_iblock [OF geo live_inode_pos [OF geo assms(3)]]
  show "w' (iblock e j) = w (iblock e j)" if "iblock e j \<noteq> iblock e i"
    using j(1,2) that assms(2) by (simp add: inode_change_def)
qed

lemma fs_inv_update:
  assumes inv: "fs_inv N e w" and change: "inode_change N e w w' i bs" and i: "i \<in> live_inodes e w"
    and bitmap: "\<forall>b \<in> bm_blocks (inode_bitmap e). w' b = w b"
  defines "T \<equiv> set (own_blocks w (dinode e w i))" and "T' \<equiv> set (own_blocks w' (dinode e w' i))"
  assumes wf: "inode_wf N e w' (dinode e w' i)"
    and fresh: "T' - T \<subseteq> data_free N e w"
    and used: "data_used e w' = (data_used e w - T) \<union> T'"
    and keep: "\<forall>b. da_start e \<le> b \<longrightarrow> b < N \<longrightarrow> b \<notin> T \<union> T' \<longrightarrow> w' b = w b"
    and zero: "\<forall>b \<in> T - T'. w' b = replicate 512 0"
  shows "fs_inv N e w'" "live_inodes e w' = live_inodes e w"
    "\<forall>j \<in> live_inodes e w. j \<noteq> i \<longrightarrow> dinode e w' j = dinode e w j \<and> icontent e w' j = icontent e w j"
proof -
  note D = fs_invD [OF inv]
  let ?own = "\<lambda>w j. set (own_blocks w (dinode e w j))"
  show live: "live_inodes e w' = live_inodes e w" using bm_bits_cong [OF bitmap] by (simp add: live_inodes_def)
  have same: "dinode e w' j = dinode e w j \<and> ?own w' j = ?own w j \<and> inode_wf N e w' (dinode e w' j) \<and> icontent e w' j = icontent e w j"
    if j: "j \<in> live_inodes e w" "j \<noteq> i" for j
  proof -
    have d: "dinode e w' j = dinode e w j" by (rule change_other [OF inv change j])
    have "w' b = w b" if b: "b \<in> ?own w j" for b
    proof -
      have "b \<notin> T" using D(4) [OF i j(1)] j(2) b by (auto simp: T_def)
      moreover have "b \<in> data_used e w" using own_subset_used [OF inv j(1)] b by blast
      then have "b \<notin> T' - T" using fresh by (auto simp: data_free_def)
      moreover have "da_start e \<le> b" "b < N" using own_area [OF D(3) [OF j(1)] b] by simp_all
      ultimately show ?thesis using keep by blast
    qed
    then have s: "\<forall>b \<in> ?own w j. w' b = w b" by blast
    note own_blocks_cong [OF s] inode_wf_cong [OF D(3) [OF j(1)] s]
    with d show ?thesis by (simp add: icontent_def)
  qed
  then show "\<forall>j \<in> live_inodes e w. j \<noteq> i \<longrightarrow> dinode e w' j = dinode e w j \<and> icontent e w' j = icontent e w j" by blast
  have TT: "T' \<inter> ?own w j = {}" if j: "j \<in> live_inodes e w" "j \<noteq> i" for j
    using fresh D(4) [OF i j(1)] j(2) own_subset_used [OF inv j(1)] by (auto simp: T_def data_free_def)
  have all_wf: "\<forall>j \<in> live_inodes e w'. inode_wf N e w' (dinode e w' j)" using same wf unfolding live by blast
  have disj: "?own w' j \<inter> ?own w' k = {}" if "j \<in> live_inodes e w" "k \<in> live_inodes e w" "j \<noteq> k" for j k
  proof (cases "j = i \<or> k = i")
    case True
    with that TT same show ?thesis unfolding T'_def by blast
  next
    case False
    then have "?own w' j = ?own w j" "?own w' k = ?own w k" using that same by blast+
    with that D(4) show ?thesis by simp
  qed
  have union: "(\<Union>j \<in> live_inodes e w. ?own w' j) = data_used e w'"
  proof -
    have "(\<Union>j \<in> live_inodes e w. ?own w' j) = T' \<union> (\<Union>j \<in> live_inodes e w - {i}. ?own w j)"
      using i same by (auto simp: T'_def)
    also have "(\<Union>j \<in> live_inodes e w - {i}. ?own w j) = data_used e w - T"
      unfolding D(5) [symmetric] T_def using D(4) [OF i] by blast
    finally show ?thesis using used by auto
  qed
  have "w' b = replicate 512 0" if b: "b \<in> data_free N e w'" for b
  proof (cases "b \<in> T")
    case True
    with b used zero show ?thesis by (auto simp: data_free_def)
  next
    case False
    then have "b \<in> data_free N e w" "b \<notin> T'" using b used by (auto simp: data_free_def)
    moreover have "da_start e \<le> b" "b < N" using b by (simp_all add: data_free_def)
    ultimately show ?thesis using keep False D(6) by simp
  qed
  with D(1) change all_wf disj union show "fs_inv N e w'" unfolding fs_inv_def live inode_change_def by blast
qed

text \<open>A new inode: its bit was clear, and it owns nothing.\<close>

lemma fs_inv_new:
  assumes inv: "fs_inv N e w" and change: "inode_change N e w w' i bs" and i: "i \<notin> live_inodes e w"
    and live: "live_inodes e w' = insert i (live_inodes e w)"
    and empty: "di_size (DiskInode_of_bytes bs) = 0" "length (direct (DiskInode_of_bytes bs)) = 28"
    and keep: "\<forall>b. start_block_id (data_bitmap e) \<le> b \<longrightarrow> b < N \<longrightarrow> w' b = w b"
  shows "fs_inv N e w'"
    "\<forall>j \<in> live_inodes e w. dinode e w' j = dinode e w j \<and> icontent e w' j = icontent e w j" "icontent e w' i = []"
proof -
  note D = fs_invD [OF inv]
  let ?own = "\<lambda>w j. set (own_blocks w (dinode e w j))"
  have di: "dinode e w' i = DiskInode_of_bytes bs" by (rule change_this [OF inv change])
  have db: "unat (data_blocks (dinode e w' i)) = 0" using empty(1) by (simp add: di data_blocks_def data_blocks_of_eq)
  have own_i: "own_blocks w' (dinode e w' i) = []"
    using db by (simp add: own_blocks_def tree_ids_def data_ids_def meta_ids_def metas_def index_count_def)
  have wf_i: "inode_wf N e w' (dinode e w' i)"
    using empty own_i db by (simp add: inode_wf_def di raw_bytes_def data_ids_def)
  show "icontent e w' i = []" using db by (simp add: icontent_def file_bytes_def raw_bytes_def data_ids_def)
  have same: "dinode e w' j = dinode e w j \<and> ?own w' j = ?own w j \<and> inode_wf N e w' (dinode e w' j) \<and> icontent e w' j = icontent e w j"
    if j: "j \<in> live_inodes e w" for j
  proof -
    have d: "dinode e w' j = dinode e w j" using j i by (intro change_other [OF inv change]) auto
    have s: "\<forall>b \<in> ?own w j. w' b = w b"
      using own_area [OF D(3) [OF j]] geometry_blocks(5) [OF D(1)] keep by (meson order_trans)
    from own_blocks_cong [OF s] inode_wf_cong [OF D(3) [OF j] s] d show ?thesis by (simp add: icontent_def)
  qed
  then show "\<forall>j \<in> live_inodes e w. dinode e w' j = dinode e w j \<and> icontent e w' j = icontent e w j" by blast
  have used: "data_used e w' = data_used e w"
    using keep geometry_blocks(2,6) [OF D(1)] by (intro data_used_cong) (auto simp: bm_blocks_def)
  have "\<forall>j \<in> live_inodes e w'. inode_wf N e w' (dinode e w' j)" using same wf_i unfolding live by blast
  moreover have "?own w' j \<inter> ?own w' k = {}" if jk: "j \<in> live_inodes e w'" "k \<in> live_inodes e w'" "j \<noteq> k" for j k
  proof (cases "j = i \<or> k = i")
    case False
    then have jk': "j \<in> live_inodes e w" "k \<in> live_inodes e w" using jk unfolding live by auto
    then have "?own w' j = ?own w j" "?own w' k = ?own w k" using same by blast+
    with jk' jk(3) D(4) show ?thesis by simp
  qed (use own_i in auto)
  moreover have "(\<Union>j \<in> live_inodes e w'. ?own w' j) = data_used e w'"
  proof -
    have "(\<Union>j \<in> live_inodes e w. ?own w' j) = (\<Union>j \<in> live_inodes e w. ?own w j)" using same by blast
    then show ?thesis using own_i D(5) unfolding live used by simp
  qed
  moreover have "w' b = replicate 512 0" if "b \<in> data_free N e w'" for b
    using that D(6) [of b] keep geometry_blocks(5) [OF D(1)] by (auto simp: data_free_def used)
  ultimately show "fs_inv N e w'" using D(1) change unfolding fs_inv_def inode_change_def by blast
qed

end
