(* ===== verification/Vfs.thy ===== *)
theory Vfs
  imports Fs_Invariant
begin

text \<open>
  The virtual file system of easy-fs, \<^verbatim>\<open>src/src/easy-fs/src/vfs.rs\<close>: looking up, listing, creating,
  clearing, reading and writing files. Every operation holds the mutex of the file system
  object while it runs and takes it exactly once, so the operations are atomic; the inode's
  block stays locked in the cache while the closure on the inode runs.
\<close>

section \<open>Model\<close>

record Inode =
  ino_block_id :: nat
  ino_block_offset :: nat

definition Inode_new :: "u32 \<Rightarrow> nat \<Rightarrow> Inode" where
  "Inode_new b off = \<lparr>ino_block_id = unat b, ino_block_offset = off\<rparr>"

text \<open>\<^verbatim>\<open>EasyFileSystem::root_inode\<close>.\<close>

definition root_inode :: "EasyFileSystem \<Rightarrow> Inode" where
  "root_inode e = (let (b, off) = get_disk_inode_pos e 0 in Inode_new b off)"

definition read_disk_inode ::
    "'d BlockDevice \<Rightarrow> Inode \<Rightarrow> (DiskInode \<Rightarrow> 'd bc_state \<Rightarrow> ('r \<times> 'd bc_state) outcome) \<Rightarrow> 'd bc_state \<Rightarrow> ('r \<times> 'd bc_state) outcome" where
  "read_disk_inode D ino f s =
     bc_read D (ino_block_id ino) (ino_block_offset ino) DISK_INODE_SIZE (\<lambda>bs. f (DiskInode_of_bytes bs)) s"

definition modify_disk_inode ::
    "'d BlockDevice \<Rightarrow> Inode \<Rightarrow> (DiskInode \<Rightarrow> 'd bc_state \<Rightarrow> ('r \<times> DiskInode \<times> 'd bc_state) outcome) \<Rightarrow> 'd bc_state \<Rightarrow> ('r \<times> 'd bc_state) outcome" where
  "modify_disk_inode D ino f s =
     bc_modify D (ino_block_id ino) (ino_block_offset ino) DISK_INODE_SIZE (\<lambda>bs s.
       and_then (f (DiskInode_of_bytes bs) s) (\<lambda>(r, di, s). Ok (r, DiskInode_bytes di bs, s))) s"

text \<open>The loop of \<^verbatim>\<open>find_inode_id\<close> over \<open>n\<close> entries from number \<open>i\<close> on, with the entry it reuses.\<close>

fun find_inode_id_loop ::
    "'d BlockDevice \<Rightarrow> u8 list \<Rightarrow> DiskInode \<Rightarrow> nat \<Rightarrow> nat \<Rightarrow> DirEntry \<Rightarrow> 'd bc_state \<Rightarrow> (u32 option \<times> 'd bc_state) outcome" where
  "find_inode_id_loop D name di i 0 dirent s = Ok (None, s)"
| "find_inode_id_loop D name di i (Suc n) dirent s =
     and_then (DiskInode_read_at D di (DIR_ENTRY_SIZE * i) (DirEntry_as_bytes dirent) s) (\<lambda>((k, buf), s).
     and_then (assert_that (k = DIR_ENTRY_SIZE)) (\<lambda>_.
     let dirent = DirEntry_of_bytes buf
     in and_then (DirEntry_name dirent) (\<lambda>nm.
        if nm = name then Ok (Some (de_inode_number dirent), s)
        else find_inode_id_loop D name di (Suc i) n dirent s)))"

definition find_inode_id ::
    "'d BlockDevice \<Rightarrow> u8 list \<Rightarrow> DiskInode \<Rightarrow> 'd bc_state \<Rightarrow> (u32 option \<times> 'd bc_state) outcome" where
  "find_inode_id D name di s =
     and_then (assert_that (is_dir di)) (\<lambda>_.
     find_inode_id_loop D name di 0 (unat (di_size di) div DIR_ENTRY_SIZE) DirEntry_empty s)"

definition Inode_find :: "'d BlockDevice \<Rightarrow> EasyFileSystem \<Rightarrow> Inode \<Rightarrow> u8 list \<Rightarrow> 'd bc_state \<Rightarrow> (Inode option \<times> 'd bc_state) outcome" where
  "Inode_find D e ino name s =
     read_disk_inode D ino (\<lambda>di s.
       and_then (find_inode_id D name di s) (\<lambda>(r, s).
       Ok (map_option (\<lambda>k. let (b, off) = get_disk_inode_pos e k in Inode_new b off) r, s))) s"

fun ls_loop ::
    "'d BlockDevice \<Rightarrow> DiskInode \<Rightarrow> nat \<Rightarrow> nat \<Rightarrow> DirEntry \<Rightarrow> u8 list list \<Rightarrow> 'd bc_state \<Rightarrow> (u8 list list \<times> 'd bc_state) outcome" where
  "ls_loop D di i 0 dirent filenames s = Ok (filenames, s)"
| "ls_loop D di i (Suc n) dirent filenames s =
     and_then (DiskInode_read_at D di (DIR_ENTRY_SIZE * i) (DirEntry_as_bytes dirent) s) (\<lambda>((k, buf), s).
     and_then (assert_that (k = DIR_ENTRY_SIZE)) (\<lambda>_.
     let dirent = DirEntry_of_bytes buf
     in and_then (DirEntry_name dirent) (\<lambda>nm. ls_loop D di (Suc i) n dirent (filenames @ [nm]) s)))"

definition Inode_ls :: "'d BlockDevice \<Rightarrow> Inode \<Rightarrow> 'd bc_state \<Rightarrow> (u8 list list \<times> 'd bc_state) outcome" where
  "Inode_ls D ino s =
     read_disk_inode D ino (\<lambda>di s. ls_loop D di 0 (unat (di_size di) div DIR_ENTRY_SIZE) DirEntry_empty [] s) s"

text \<open>\<^verbatim>\<open>for _ in 0..blocks_needed { new_blocks.push(fs.alloc_data()) }\<close>\<close>

fun alloc_blocks :: "'d BlockDevice \<Rightarrow> EasyFileSystem \<Rightarrow> nat \<Rightarrow> u32 list \<Rightarrow> 'd bc_state \<Rightarrow> (u32 list \<times> 'd bc_state) outcome" where
  "alloc_blocks D e 0 new_blocks s = Ok (new_blocks, s)"
| "alloc_blocks D e (Suc n) new_blocks s =
     and_then (alloc_data D e s) (\<lambda>(b, s). alloc_blocks D e n (new_blocks @ [b]) s)"

definition Inode_increase_size ::
    "'d BlockDevice \<Rightarrow> EasyFileSystem \<Rightarrow> u32 \<Rightarrow> DiskInode \<Rightarrow> 'd bc_state \<Rightarrow> (DiskInode \<times> 'd bc_state) outcome" where
  "Inode_increase_size D e new_size di s =
     (if new_size < di_size di then Ok (di, s)
      else and_then (blocks_num_needed di new_size) (\<lambda>blocks_needed.
           and_then (alloc_blocks D e (unat blocks_needed) [] s) (\<lambda>(new_blocks, s).
           increase_size D new_size new_blocks di s)))"

definition Inode_create :: "'d BlockDevice \<Rightarrow> EasyFileSystem \<Rightarrow> Inode \<Rightarrow> u8 list \<Rightarrow> 'd bc_state \<Rightarrow> (Inode option \<times> 'd bc_state) outcome" where
  "Inode_create D e ino name s =
     and_then (read_disk_inode D ino (\<lambda>root s.
         and_then (assert_that (is_dir root)) (\<lambda>_. find_inode_id D name root s)) s) (\<lambda>(found, s).
     if found \<noteq> None then Ok (None, s)
     else
       and_then (alloc_inode D e s) (\<lambda>(inode_number, s).
       let (block_id, block_offset) = get_disk_inode_pos e inode_number
       in and_then (bc_modify D (unat block_id) block_offset DISK_INODE_SIZE (\<lambda>bs s.
            Ok ((), DiskInode_bytes (DiskInode_initialize File (DiskInode_of_bytes bs)) bs, s)) s) (\<lambda>(_, s).
          and_then (modify_disk_inode D ino (\<lambda>root s.
            let offset = di_size root; new_size = di_size root + of_nat DIR_ENTRY_SIZE
            in and_then (Inode_increase_size D e new_size root s) (\<lambda>(root, s).
               and_then (DirEntry_new name inode_number) (\<lambda>dirent.
               and_then (DiskInode_write_at D root (unat offset) (DirEntry_as_bytes dirent) s) (\<lambda>(_, s).
               Ok ((), root, s))))) s) (\<lambda>(_, s).
          and_then (block_cache_sync_all D s) (\<lambda>s. Ok (Some (Inode_new block_id block_offset), s))))))"

fun dealloc_blocks :: "'d BlockDevice \<Rightarrow> EasyFileSystem \<Rightarrow> u32 list \<Rightarrow> 'd bc_state \<Rightarrow> (unit \<times> 'd bc_state) outcome" where
  "dealloc_blocks D e [] s = Ok ((), s)"
| "dealloc_blocks D e (b # bs) s = and_then (dealloc_data D e b s) (\<lambda>(_, s). dealloc_blocks D e bs s)"

definition Inode_clear :: "'d BlockDevice \<Rightarrow> EasyFileSystem \<Rightarrow> Inode \<Rightarrow> 'd bc_state \<Rightarrow> (unit \<times> 'd bc_state) outcome" where
  "Inode_clear D e ino s =
     modify_disk_inode D ino (\<lambda>di s.
       let sz = di_size di
       in and_then (clear_size D di s) (\<lambda>((data_blocks_dealloc, di), s).
          and_then (assert_that (length data_blocks_dealloc = unat (total_blocks sz))) (\<lambda>_.
          and_then (dealloc_blocks D e data_blocks_dealloc s) (\<lambda>(_, s). Ok ((), di, s))))) s"

definition Inode_read_at :: "'d BlockDevice \<Rightarrow> Inode \<Rightarrow> nat \<Rightarrow> u8 list \<Rightarrow> 'd bc_state \<Rightarrow> ((nat \<times> u8 list) \<times> 'd bc_state) outcome" where
  "Inode_read_at D ino offset buf s =
     read_disk_inode D ino (\<lambda>di s. DiskInode_read_at D di offset buf s) s"

definition Inode_write_at :: "'d BlockDevice \<Rightarrow> EasyFileSystem \<Rightarrow> Inode \<Rightarrow> nat \<Rightarrow> u8 list \<Rightarrow> 'd bc_state \<Rightarrow> (nat \<times> 'd bc_state) outcome" where
  "Inode_write_at D e ino offset buf s =
     modify_disk_inode D ino (\<lambda>di s.
       and_then (Inode_increase_size D e (of_nat (offset + length buf)) di s) (\<lambda>(di, s).
       and_then (DiskInode_write_at D di offset buf s) (\<lambda>(n, s). Ok (n, di, s)))) s"

section \<open>Growing an inode\<close>

text \<open>The number of blocks a file of \<open>n\<close> bytes occupies, and the handle of an inode.\<close>

definition blocks_for :: "nat \<Rightarrow> nat" where
  "blocks_for n = (let k = (n + 511) div 512 in k + (if 28 < k then 1 else 0) + (if 156 < k then 1 else 0) + index_count k)"

definition handle :: "EasyFileSystem \<Rightarrow> nat \<Rightarrow> Inode" where
  "handle e i = \<lparr>ino_block_id = iblock e i, ino_block_offset = ioffset i\<rparr>"

lemma length_tree_ids:
  assumes "unat sz \<le> max_file_size"
  shows "length (tree_ids w di (unat (data_blocks_of sz))) = blocks_for (unat sz)"
  unfolding tree_ids_def length_append length_data_ids length_meta_ids blocks_for_def size_blocks(2) [OF assms] Let_def
  by (simp only: add.assoc)

lemma blocks_for_mono: "m \<le> n \<Longrightarrow> blocks_for m \<le> blocks_for n"
proof -
  assume "m \<le> n"
  then have k: "(m + 511) div 512 \<le> (n + 511) div 512" by (intro div_le_mono) simp
  then have "index_count ((m + 511) div 512) \<le> index_count ((n + 511) div 512)" by (simp add: index_count_def div_le_mono)
  with k show ?thesis by (auto simp: blocks_for_def Let_def)
qed

lemma unat_total_blocks:
  assumes "unat sz \<le> max_file_size"
  shows "unat (total_blocks sz) = blocks_for (unat sz)"
  using total_blocks_eq [OF size_blocks(3) [OF assms], of "\<lambda>_. []" inode_example]
  unfolding length_tree_ids [OF assms] .

context block_device
begin

lemma alloc_blocks_at:
  assumes "fs_at D N dev_ok s L M w" "M \<subseteq> L" "card L < BLOCK_CACHE_SIZE"
    and "geometry N e" "bm_blocks (data_bitmap e) \<inter> L = {}" "n \<le> card (data_free N e w)"
  shows "\<exists>s' w' bs. alloc_blocks D e n acc s = Ok (acc @ bs, s') \<and> fs_at D N dev_ok s' L M w' \<and> length bs = n
    \<and> distinct (map unat bs) \<and> unat ` set bs \<subseteq> data_free N e w \<and> data_used e w' = data_used e w \<union> unat ` set bs
    \<and> (\<forall>i. i \<notin> bm_blocks (data_bitmap e) \<longrightarrow> w' i = w i)"
  using assms(1,6)
proof (induction n arbitrary: s w acc)
  case 0
  then show ?case by (intro exI [of _ s] exI [of _ w] exI [of _ "[]"]) simp
next
  case (Suc n)
  then have "data_free N e w \<noteq> {}" by (metis card.empty not_less_eq_eq zero_le)
  from alloc_data_at [OF Suc.prems(1) assms(2-5) this] obtain s1 w1 b where
    b: "alloc_data D e s = Ok (b, s1)" "fs_at D N dev_ok s1 L M w1" "unat b \<in> data_free N e w"
      "data_used e w1 = insert (unat b) (data_used e w)" "\<forall>i. i \<notin> bm_blocks (data_bitmap e) \<longrightarrow> w1 i = w i" by blast
  have free1: "data_free N e w1 = data_free N e w - {unat b}" using b(4) by (auto simp: data_free_def)
  have "n \<le> card (data_free N e w1)" using Suc.prems(2) b(3) finite_data_free by (simp add: free1)
  from Suc.IH [OF b(2) this, of "acc @ [b]"] obtain s' w' bs where
    r: "alloc_blocks D e n (acc @ [b]) s1 = Ok ((acc @ [b]) @ bs, s')" "fs_at D N dev_ok s' L M w'" "length bs = n"
      "distinct (map unat bs)" "unat ` set bs \<subseteq> data_free N e w1" "data_used e w' = data_used e w1 \<union> unat ` set bs"
      "\<forall>i. i \<notin> bm_blocks (data_bitmap e) \<longrightarrow> w' i = w1 i" by blast
  have "unat b \<notin> unat ` set bs" "unat ` set bs \<subseteq> data_free N e w" using r(5) unfolding free1 by blast+
  then have d: "distinct (map unat (b # bs))" "unat ` set (b # bs) \<subseteq> data_free N e w" using r(4) b(3) by simp_all
  have u: "data_used e w' = data_used e w \<union> unat ` set (b # bs)" unfolding r(6) b(4) by simp
  have o: "\<forall>i. i \<notin> bm_blocks (data_bitmap e) \<longrightarrow> w' i = w i" using r(7) b(5) by simp
  have "alloc_blocks D e (Suc n) acc s = Ok (acc @ (b # bs), s')" using b(1) r(1) by simp
  moreover have "length (b # bs) = Suc n" using r(3) by simp
  ultimately show ?case using r(2) d u o by blast
qed

text \<open>What the growth of a tree means for the contents.\<close>

lemma grow_contents:
  assumes g: "grow w (data_ids w di n0) (set (meta_ids w di n0)) (tree_ids w di n0) bs w' di' n1 (28 < n1) (156 < n1) (index_count n1)"
    and dist: "distinct (tree_ids w di n0 @ map unat bs)" and zero: "\<forall>b \<in> set bs. w (unat b) = replicate 512 0" and n: "n0 \<le> n1"
  shows "distinct (tree_ids w' di' n1)" "set (tree_ids w' di' n1) = set (tree_ids w di n0) \<union> unat ` set bs"
    "raw_bytes w' di' n1 = raw_bytes w di n0 @ replicate ((n1 - n0) * 512) 0"
    "b \<notin> set (tree_ids w' di' n1) \<Longrightarrow> w' b = w b"
proof -
  let ?m' = "meta_ids w' di' n1"
  have tree: "tree_ids w' di' n1 = data_ids w' di' n1 @ metas w' di' (28 < n1) (156 < n1) (index_count n1)"
    by (simp add: tree_ids_def meta_ids_def)
  show d': "distinct (tree_ids w' di' n1)" unfolding tree by (rule grow_distinct [OF g dist])
  show s': "set (tree_ids w' di' n1) = set (tree_ids w di n0) \<union> unat ` set bs" unfolding tree using grow_set [OF g] by simp
  have out: "w' b = w b" if "b \<notin> set ?m'" for b using g that by (simp add: grow_def meta_ids_def)
  then show "w' b = w b" if "b \<notin> set (tree_ids w' di' n1)" using that by (simp add: tree_ids_def)
  from g obtain xs where xs: "data_ids w' di' n1 = data_ids w di n0 @ xs" by (auto simp: grow_def)
  have m: "set (meta_ids w di n0) \<subseteq> set ?m'" using g by (simp add: grow_def meta_ids_def)
  have dd: "distinct (data_ids w di n0 @ xs)" "set (data_ids w di n0 @ xs) \<inter> set ?m' = {}"
    using d' unfolding tree_ids_def xs distinct_append by auto
  have same: "w' b = w b" if "b \<in> set (data_ids w di n0 @ xs)" for b using dd(2) that by (intro out) blast
  have "x \<in> unat ` set bs" if x: "x \<in> set xs" for x
  proof -
    have "x \<in> set (tree_ids w' di' n1)" using x by (simp add: tree_ids_def xs)
    moreover have "x \<notin> set (data_ids w di n0)" using dd(1) x by auto
    moreover have "x \<notin> set (meta_ids w di n0)" using dd(2) x m by auto
    ultimately show ?thesis unfolding s' by (auto simp: tree_ids_def)
  qed
  then have z: "\<forall>x \<in> set xs. w' x = replicate 512 0" using zero same by fastforce
  have len: "length xs = n1 - n0" using arg_cong [OF xs, of length] n by simp
  have cz: "concat (map w' xs) = replicate (length xs * 512) 0" using z
  proof (induction xs)
    case (Cons x xs)
    then show ?case by (simp flip: replicate_add)
  qed simp
  have "map w' (data_ids w di n0) = map w (data_ids w di n0)" using same by simp
  then show "raw_bytes w' di' n1 = raw_bytes w di n0 @ replicate ((n1 - n0) * 512) 0"
    unfolding raw_bytes_def xs map_append concat_append cz len by (simp only:)
qed

lemma increase_at:
  assumes at: "fs_at D N dev_ok s L M w" "M \<subseteq> L" "card L + 1 < BLOCK_CACHE_SIZE" "L \<subseteq> {..<start_block_id (data_bitmap e)}"
    and inv: "fs_inv N e w" and i: "i \<in> live_inodes e w" and di: "di = dinode e w i"
    and sz: "di_size di \<le> new_size" "unat new_size \<le> max_file_size"
    and room: "blocks_for (unat new_size) - blocks_for (unat (di_size di)) \<le> card (data_free N e w)"
  shows "\<exists>s' w' di'. Inode_increase_size D e new_size di s = Ok (di', s') \<and> fs_at D N dev_ok s' L M w'
    \<and> inode_wf N e w' di' \<and> di_size di' = new_size \<and> di_type di' = di_type di
    \<and> set (own_blocks w di) \<subseteq> set (own_blocks w' di') \<and> set (own_blocks w' di') - set (own_blocks w di) \<subseteq> data_free N e w
    \<and> data_used e w' = data_used e w \<union> set (own_blocks w' di')
    \<and> raw_bytes w' di' (unat (data_blocks di')) = raw_bytes w di (unat (data_blocks di))
        @ replicate ((unat (data_blocks di') - unat (data_blocks di)) * 512) 0
    \<and> (\<forall>b. b \<notin> bm_blocks (data_bitmap e) \<longrightarrow> b \<notin> set (own_blocks w' di') \<longrightarrow> w' b = w b)"
proof -
  note D = fs_invD [OF inv]
  have wf: "inode_wf N e w di" using D(3) [OF i] by (simp add: di)
  have osz: "unat (di_size di) \<le> unat new_size" using sz(1) by (simp add: word_le_nat_alt)
  define n0 n1 where "n0 = unat (data_blocks di)" and "n1 = unat (data_blocks_of new_size)"
  have sz0: "unat (di_size di) \<le> max_file_size" using osz sz(2) by simp
  have n0: "n0 = (unat (di_size di) + 511) div 512" and n1: "n1 = (unat new_size + 511) div 512" "n1 \<le> INDIRECT2_BOUND"
    using size_blocks [OF sz0] size_blocks [OF sz(2)] by (simp_all add: n0_def n1_def data_blocks_def)
  have n01: "n0 \<le> n1" unfolding n0 n1 using osz by (intro div_le_mono) simp
  have Larea: "L \<inter> {da_start e..<N} = {}" "bm_blocks (data_bitmap e) \<inter> L = {}"
    using at(4) geometry_blocks(5) [OF D(1)] by (auto simp: bm_blocks_def)
  note tree = inode_wf_tree [OF wf Larea(1), folded n0_def]
  define need where "need = blocks_for (unat new_size) - blocks_for (unat (di_size di))"
  have card: "card L < BLOCK_CACHE_SIZE" using at(3) by simp
  from alloc_blocks_at [OF at(1,2) card D(1) Larea(2) room [folded need_def], of "[]"] obtain s1 w1 bs where
    a: "alloc_blocks D e need [] s = Ok (bs, s1)" "fs_at D N dev_ok s1 L M w1" "length bs = need" "distinct (map unat bs)"
      "unat ` set bs \<subseteq> data_free N e w" "data_used e w1 = data_used e w \<union> unat ` set bs"
      "\<forall>i. i \<notin> bm_blocks (data_bitmap e) \<longrightarrow> w1 i = w i" by auto
  have notDB: "b \<notin> bm_blocks (data_bitmap e)" if "da_start e \<le> b" for b
    using geometry_blocks(2) [OF D(1)] that by auto
  have own: "da_start e \<le> b \<and> b < N" if "b \<in> set (own_blocks w di)" for b by (rule own_area [OF wf that])
  have same: "\<forall>b \<in> set (own_blocks w di). w1 b = w b" using own notDB a(7) by blast
  note cong = own_blocks_cong [OF same]
  have tree1: "tree_ids w1 di n0 = tree_ids w di n0" using cong(1) by (simp add: own_blocks_def n0_def)
  with tree have ok1: "tree_ok N L w1 di n0" by (simp add: tree_ok_def)
  have used: "set (tree_ids w di n0) \<subseteq> data_used e w" using own_subset_used [OF inv i] by (simp add: own_blocks_def n0_def di)
  have bsN: "b \<in> {..<N} - L" if "b \<in> unat ` set bs" for b
    using a(5) that Larea(1) by (fastforce simp: data_free_def)
  have dist: "distinct (tree_ids w1 di n0 @ map unat bs)"
    using ok1 a(4,5) used unfolding tree1 by (auto simp: tree_ok_def tree1 data_free_def)
  have sup: "supplied N L (tree_ids w1 di n0) bs"
    unfolding supplied_def using dist bsN ok1 by (auto simp: tree_ok_def)
  have count: "length (tree_ids w1 di n0) + length bs = length (tree_ids w1 di n1)"
    unfolding n0_def n1_def data_blocks_def length_tree_ids [OF sz0] length_tree_ids [OF sz(2)] a(3) need_def
    using blocks_for_mono [OF osz] by simp
  from increase_size_at [OF a(2) at(2,3) n0_def n1_def ok1 n01 n1(2) sup count] obtain s2 w2 di2 where
    g: "increase_size D new_size bs di s1 = Ok (di2, s2)" "fs_at D N dev_ok s2 L M w2" "di_size di2 = new_size" "di_type di2 = di_type di"
      "grow w1 (data_ids w1 di n0) (set (meta_ids w1 di n0)) (tree_ids w1 di n0) bs w2 di2 n1 (28 < n1) (156 < n1) (index_count n1)" by blast
  have zero: "\<forall>b \<in> set bs. w1 (unat b) = replicate 512 0"
  proof
    fix b assume "b \<in> set bs"
    then have "unat b \<in> data_free N e w" using a(5) by blast
    then show "w1 (unat b) = replicate 512 0" using D(6) notDB a(7) by (simp add: data_free_def)
  qed
  note gc = grow_contents [OF g(5) dist zero n01]
  have n1': "unat (data_blocks di2) = n1" by (simp add: data_blocks_def g(3) n1_def)
  have own2: "set (own_blocks w2 di2) = set (own_blocks w di) \<union> unat ` set bs"
    using gc(2) by (simp add: own_blocks_def n1' tree1 flip: n0_def)
  have raw: "raw_bytes w2 di2 n1 = raw_bytes w di n0 @ replicate ((n1 - n0) * 512) 0"
    using gc(3) cong(2) by (simp add: n0_def)
  have wf2: "inode_wf N e w2 di2"
    unfolding inode_wf_def
  proof (intro conjI)
    show "distinct (own_blocks w2 di2)" using gc(1) by (simp add: own_blocks_def n1')
    show "set (own_blocks w2 di2) \<subseteq> {da_start e..<N}" unfolding own2 using own a(5) by (auto simp: data_free_def)
    have "drop (unat new_size) (raw_bytes w di n0) = drop (unat new_size - unat (di_size di)) (drop (unat (di_size di)) (raw_bytes w di n0))"
      using osz by simp
    then have "set (drop (unat new_size) (raw_bytes w di n0)) \<subseteq> set (drop (unat (di_size di)) (raw_bytes w di n0))"
      by (metis set_drop_subset)
    then show "\<forall>x \<in> set (drop (unat (di_size di2)) (raw_bytes w2 di2 (unat (data_blocks di2)))). x = 0"
      using wf unfolding n1' raw g(3) inode_wf_def n0_def [symmetric] by (auto simp: in_set_conv_nth)
  qed (use sz(2) g(3) grow_direct_length [OF g(5)] in simp_all)
  have "blocks_num_needed di new_size = Ok (total_blocks new_size - total_blocks (di_size di))"
    using sz(1) by (simp add: blocks_num_needed_def)
  moreover have "unat (total_blocks new_size - total_blocks (di_size di)) = need"
    using unat_total_blocks [OF sz0] unat_total_blocks [OF sz(2)] blocks_for_mono [OF osz]
    by (simp add: need_def unat_sub word_le_nat_alt)
  ultimately have run: "Inode_increase_size D e new_size di s = Ok (di2, s2)"
    using sz(1) a(1) g(1) by (simp add: Inode_increase_size_def)
  have keep: "\<forall>b. b \<notin> bm_blocks (data_bitmap e) \<longrightarrow> b \<notin> set (own_blocks w2 di2) \<longrightarrow> w2 b = w b"
    using gc(4) a(7) by (simp add: own_blocks_def n1')
  have "data_used e w2 = data_used e w1"
  proof (rule data_used_cong, rule ballI)
    fix b assume b: "b \<in> bm_blocks (data_bitmap e)"
    then have "b \<notin> set (own_blocks w2 di2)" using notDB wf2 by (auto simp: inode_wf_def)
    then show "w2 b = w1 b" using gc(4) by (simp add: own_blocks_def n1')
  qed
  then have used2: "data_used e w2 = data_used e w \<union> set (own_blocks w2 di2)"
    using a(6) used unfolding own2 by (auto simp: own_blocks_def n0_def)
  have raw2: "raw_bytes w2 di2 (unat (data_blocks di2)) = raw_bytes w di (unat (data_blocks di))
        @ replicate ((unat (data_blocks di2) - unat (data_blocks di)) * 512) 0"
    unfolding n1' n0_def [symmetric] by (rule raw)
  have sub: "set (own_blocks w di) \<subseteq> set (own_blocks w2 di2)" "set (own_blocks w2 di2) - set (own_blocks w di) \<subseteq> data_free N e w"
    unfolding own2 using a(5) by blast+
  from run g(2-4) wf2 sub used2 raw2 keep show ?thesis by blast
qed

end

section \<open>Operations on one inode\<close>

text \<open>What a closure on an inode may do to the disk: from \<open>w\<close> and \<open>di\<close> to \<open>w'\<close> and \<open>di'\<close>.\<close>

definition inode_step :: "nat \<Rightarrow> EasyFileSystem \<Rightarrow> disk \<Rightarrow> DiskInode \<Rightarrow> disk \<Rightarrow> DiskInode \<Rightarrow> bool" where
  "inode_step N e w di w' di' \<longleftrightarrow>
     inode_wf N e w' di' \<and> set (own_blocks w' di') - set (own_blocks w di) \<subseteq> data_free N e w
     \<and> data_used e w' = (data_used e w - set (own_blocks w di)) \<union> set (own_blocks w' di')
     \<and> (\<forall>b. b \<notin> bm_blocks (data_bitmap e) \<longrightarrow> b \<notin> set (own_blocks w di) \<union> set (own_blocks w' di') \<longrightarrow> w' b = w b)
     \<and> (\<forall>b \<in> set (own_blocks w di) - set (own_blocks w' di'). w' b = replicate 512 0)"

text \<open>The super block and the other inodes are as before.\<close>

definition others_same :: "EasyFileSystem \<Rightarrow> disk \<Rightarrow> disk \<Rightarrow> nat \<Rightarrow> bool" where
  "others_same e w w' i \<longleftrightarrow>
     w' 0 = w 0 \<and> (\<forall>j \<in> live_inodes e w. j \<noteq> i \<longrightarrow> dinode e w' j = dinode e w j \<and> icontent e w' j = icontent e w j)"

lemma inode_stepD:
  assumes "inode_step N e w di w' di'"
  shows "inode_wf N e w' di'" "set (own_blocks w' di') - set (own_blocks w di) \<subseteq> data_free N e w"
    "data_used e w' = (data_used e w - set (own_blocks w di)) \<union> set (own_blocks w' di')"
    "b \<notin> bm_blocks (data_bitmap e) \<Longrightarrow> b \<notin> set (own_blocks w di) \<union> set (own_blocks w' di') \<Longrightarrow> w' b = w b"
    "b \<in> set (own_blocks w di) - set (own_blocks w' di') \<Longrightarrow> w' b = replicate 512 0"
proof -
  note A = assms [unfolded inode_step_def]
  show "inode_wf N e w' di'" by (rule A [THEN conjunct1])
  show "set (own_blocks w' di') - set (own_blocks w di) \<subseteq> data_free N e w" by (rule A [THEN conjunct2, THEN conjunct1])
  show "data_used e w' = (data_used e w - set (own_blocks w di)) \<union> set (own_blocks w' di')"
    by (rule A [THEN conjunct2, THEN conjunct2, THEN conjunct1])
  show "w' b = w b" if "b \<notin> bm_blocks (data_bitmap e)" "b \<notin> set (own_blocks w di) \<union> set (own_blocks w' di')"
    by (rule A [THEN conjunct2, THEN conjunct2, THEN conjunct2, THEN conjunct1, rule_format, OF that])
  show "w' b = replicate 512 0" if "b \<in> set (own_blocks w di) - set (own_blocks w' di')"
    by (rule A [THEN conjunct2, THEN conjunct2, THEN conjunct2, THEN conjunct2, rule_format, OF that])
qed

lemma inode_step_inv:
  assumes inv: "fs_inv N e w" and i: "i \<in> live_inodes e w" and len: "\<forall>b < N. length (w2 b) = 512"
    and step: "inode_step N e w (dinode e w i) w2 di'" and bs: "length bs = 128" "DiskInode_of_bytes bs = di'"
  defines "w' \<equiv> w2(iblock e i := splice (ioffset i) bs (w2 (iblock e i)))"
  shows "fs_inv N e w' \<and> live_inodes e w' = live_inodes e w \<and> dinode e w' i = di' \<and> icontent e w' i = file_bytes w2 di'
    \<and> others_same e w w' i \<and> data_used e w' = data_used e w2"
proof -
  note D = fs_invD [OF inv]
  note geo = geometry_blocks [OF D(1)]
  note pos = geometry_iblock [OF D(1) live_inode_pos [OF D(1) i]]
  let ?T = "set (own_blocks w (dinode e w i))" and ?T2 = "set (own_blocks w2 di')"
  note S = inode_stepD [OF step]
  have area: "da_start e \<le> b \<and> b < N" if "b \<in> ?T \<union> ?T2" for b
    using that own_area [OF D(3) [OF i]] own_area [OF S(1)] by blast
  have low: "w2 b = w b" if "b < da_start e" "b \<notin> bm_blocks (data_bitmap e)" for b
  proof (rule S(4) [OF that(2)])
    show "b \<notin> ?T \<union> ?T2" using area [of b] that(1) by auto
  qed
  have ib: "w2 (iblock e i) = w (iblock e i)" using low pos(3,5) by blast
  have same: "\<forall>b \<in> ?T2. w' b = w2 b" using area pos(3) by (fastforce simp: w'_def)
  note cong = own_blocks_cong [OF same]
  have change: "inode_change N e w w' i bs"
    unfolding inode_change_def
  proof (intro conjI allI impI)
    show "i < Bitmap_maximum (inode_bitmap e)" by (rule live_inode_pos [OF D(1) i])
    show "length (w' b) = 512" if "b < N" for b
      using len that bs(1) ioffset_bound [of i] by (simp add: w'_def splice_length)
    show "w' b = w b" if "ia_start e \<le> b" "b < start_block_id (data_bitmap e)" "b \<noteq> iblock e i" for b
      using that geo(3,5) by (auto simp: w'_def intro!: low)
  qed (use bs ib in \<open>simp_all add: w'_def\<close>)
  have di': "dinode e w' i = di'" using change_this [OF inv change] bs(2) by simp
  have used: "data_used e w' = data_used e w2" using pos(5) by (intro data_used_cong) (auto simp: w'_def)
  have bitmap: "\<forall>b \<in> bm_blocks (inode_bitmap e). w' b = w b"
  proof
    fix b assume b: "b \<in> bm_blocks (inode_bitmap e)"
    then have "b < ia_start e" using geo(1) by blast
    moreover from this have "b \<notin> bm_blocks (data_bitmap e)" "b < da_start e" using geo(3-5) by auto
    ultimately show "w' b = w b" using low pos(1) by (simp add: w'_def)
  qed
  have up: "fs_inv N e w'" "live_inodes e w' = live_inodes e w"
    "\<forall>j \<in> live_inodes e w. j \<noteq> i \<longrightarrow> dinode e w' j = dinode e w j \<and> icontent e w' j = icontent e w j"
  proof (atomize (full), intro conjI)
    have a: "inode_wf N e w' (dinode e w' i)" unfolding di' by (rule inode_wf_cong [OF S(1) same])
    have b: "set (own_blocks w' (dinode e w' i)) - ?T \<subseteq> data_free N e w" unfolding di' cong(1) by (rule S(2))
    have c: "data_used e w' = (data_used e w - ?T) \<union> set (own_blocks w' (dinode e w' i))"
      unfolding di' cong(1) used by (rule S(3))
    have d: "\<forall>b. da_start e \<le> b \<longrightarrow> b < N \<longrightarrow> b \<notin> ?T \<union> set (own_blocks w' (dinode e w' i)) \<longrightarrow> w' b = w b"
    proof (intro allI impI)
      fix b assume b: "da_start e \<le> b" "b \<notin> ?T \<union> set (own_blocks w' (dinode e w' i))"
      then have "w2 b = w b" using geo(2) unfolding di' cong(1) by (intro S(4)) auto
      with b(1) pos(3) show "w' b = w b" by (simp add: w'_def)
    qed
    have f: "\<forall>b \<in> ?T - set (own_blocks w' (dinode e w' i)). w' b = replicate 512 0"
    proof
      fix b assume b: "b \<in> ?T - set (own_blocks w' (dinode e w' i))"
      then have "w2 b = replicate 512 0" unfolding di' cong(1) by (rule S(5))
      with area [of b] b pos(3) show "w' b = replicate 512 0" by (simp add: w'_def)
    qed
    note u = fs_inv_update [OF inv change i bitmap a b c d f]
    show "fs_inv N e w'" by (rule u(1))
    show "live_inodes e w' = live_inodes e w" by (rule u(2))
    show "\<forall>j \<in> live_inodes e w. j \<noteq> i \<longrightarrow> dinode e w' j = dinode e w j \<and> icontent e w' j = icontent e w j" by (rule u(3))
  qed
  have "icontent e w' i = file_bytes w2 di'" using di' cong(3) by (simp add: icontent_def)
  moreover have "0 \<in> {..<start_block_id (data_bitmap e)}" using geo(4,8) by simp
  then have "0 \<notin> bm_blocks (data_bitmap e)" "0 < da_start e" using geo(3,5) by auto
  then have "w' 0 = w 0" using low [of 0] pos(1) geo(8) by (simp add: w'_def)
  ultimately show ?thesis using up di' used unfolding others_same_def by blast
qed

context block_device
begin

lemma modify_inode_at:
  assumes at: "fs_at D N dev_ok s {} {} w" and inv: "fs_inv N e w" and i: "i \<in> live_inodes e w"
    and f: "\<And>s1. fs_at D N dev_ok s1 {iblock e i} {iblock e i} w \<Longrightarrow>
      \<exists>r di' s2 w2. f (dinode e w i) s1 = Ok (r, di', s2) \<and> fs_at D N dev_ok s2 {iblock e i} {iblock e i} w2
        \<and> inode_step N e w (dinode e w i) w2 di' \<and> P r di' w2"
  shows "\<exists>r di' s' w' w2. modify_disk_inode D (handle e i) f s = Ok (r, s') \<and> fs_at D N dev_ok s' {} {} w'
    \<and> fs_inv N e w' \<and> live_inodes e w' = live_inodes e w \<and> dinode e w' i = di' \<and> icontent e w' i = file_bytes w2 di'
    \<and> others_same e w w' i \<and> data_used e w' = data_used e w2 \<and> P r di' w2"
proof -
  note D = fs_invD [OF inv]
  note pos = geometry_iblock [OF D(1) live_inode_pos [OF D(1) i]]
  have off: "ioffset i + DISK_INODE_SIZE \<le> BLOCK_SIZE" using ioffset_bound [of i] by (simp add: DISK_INODE_SIZE_def BLOCK_SIZE_def)
  let ?old = "take DISK_INODE_SIZE (drop (ioffset i) (w (iblock e i)))"
  have old: "length ?old = 128" using D(2) [OF pos(4)] ioffset_bound [of i] by (simp add: DISK_INODE_SIZE_def)
  have di: "DiskInode_of_bytes ?old = dinode e w i" by (simp add: dinode_def DISK_INODE_SIZE_def)
  let ?P = "\<lambda>r bs w2. \<exists>di'. DiskInode_of_bytes bs = di' \<and> inode_step N e w (dinode e w i) w2 di' \<and> P r di' w2
      \<and> (\<forall>b < N. length (w2 b) = 512)"
  have "\<exists>r bs s' w2. bc_modify D (iblock e i) (ioffset i) DISK_INODE_SIZE (\<lambda>bs s.
       and_then (f (DiskInode_of_bytes bs) s) (\<lambda>(r, di, s). Ok (r, DiskInode_bytes di bs, s))) s = Ok (r, s')
    \<and> length bs = DISK_INODE_SIZE \<and> fs_at D N dev_ok s' {} {} (w2(iblock e i := splice (ioffset i) bs (w2 (iblock e i)))) \<and> ?P r bs w2"
  proof (rule bc_modify_ex [OF at pos(4) _ _ _ off])
    fix s1 assume s1: "fs_at D N dev_ok s1 (insert (iblock e i) {}) (insert (iblock e i) {}) w"
    from f [OF s1] obtain r di' s2 w2 where r: "f (dinode e w i) s1 = Ok (r, di', s2)" "fs_at D N dev_ok s2 {iblock e i} {iblock e i} w2"
      "inode_step N e w (dinode e w i) w2 di'" "P r di' w2" by blast
    have l28: "length (direct di') = 28" using inode_stepD(1) [OF r(3)] by (simp add: inode_wf_def)
    have "?P r (DiskInode_bytes di' ?old) w2" using DiskInode_roundtrip [OF l28] r(3,4) fs_at_lengths [OF r(2)] by simp
    with r(1,2) length_DiskInode_bytes [OF l28 old] di
    show "\<exists>r bs s2 w2. and_then (f (DiskInode_of_bytes ?old) s1) (\<lambda>(r, di, s). Ok (r, DiskInode_bytes di ?old, s)) = Ok (r, bs, s2)
        \<and> length bs = DISK_INODE_SIZE \<and> fs_at D N dev_ok s2 (insert (iblock e i) {}) (insert (iblock e i) {}) w2 \<and> ?P r bs w2"
      by (intro exI [of _ r] exI [of _ "DiskInode_bytes di' ?old"] exI [of _ s2] exI [of _ w2]) (simp add: DISK_INODE_SIZE_def)
  qed (simp_all add: BLOCK_CACHE_SIZE_def)
  then obtain r bs s' w2 di' where res: "modify_disk_inode D (handle e i) f s = Ok (r, s')"
    and fin: "fs_at D N dev_ok s' {} {} (w2(iblock e i := splice (ioffset i) bs (w2 (iblock e i))))"
    and st: "length bs = 128" "DiskInode_of_bytes bs = di'" "inode_step N e w (dinode e w i) w2 di'" "P r di' w2" "\<forall>b < N. length (w2 b) = 512"
    by (auto simp: modify_disk_inode_def handle_def DISK_INODE_SIZE_def)
  from inode_step_inv [OF inv i st(5,3,1,2)] res fin st(4) show ?thesis by blast
qed

lemma read_inode_at:
  assumes at: "fs_at D N dev_ok s {} {} w" and inv: "fs_inv N e w" and i: "i \<in> live_inodes e w"
    and f: "\<And>s1. fs_at D N dev_ok s1 {iblock e i} {} w \<Longrightarrow>
      \<exists>s2. f (dinode e w i) s1 = Ok (r, s2) \<and> fs_at D N dev_ok s2 {iblock e i} {} w"
  shows "\<exists>s'. read_disk_inode D (handle e i) f s = Ok (r, s') \<and> fs_at D N dev_ok s' {} {} w"
proof -
  note D = fs_invD [OF inv]
  note pos = geometry_iblock [OF D(1) live_inode_pos [OF D(1) i]]
  have off: "ioffset i + DISK_INODE_SIZE \<le> BLOCK_SIZE" using ioffset_bound [of i] by (simp add: DISK_INODE_SIZE_def BLOCK_SIZE_def)
  have "\<exists>s'. bc_read D (iblock e i) (ioffset i) DISK_INODE_SIZE (\<lambda>bs. f (DiskInode_of_bytes bs)) s = Ok (r, s')
    \<and> fs_at D N dev_ok s' {} {} w"
    by (rule bc_read_rule [OF at pos(4) _ _ _ off]) (use f in \<open>simp_all add: BLOCK_CACHE_SIZE_def dinode_def DISK_INODE_SIZE_def\<close>)
  then show ?thesis by (simp add: read_disk_inode_def handle_def)
qed

end

section \<open>Contents of files\<close>

text \<open>Writing into a file: a gap between its end and the offset is filled with zeros.\<close>

definition file_write :: "u8 list \<Rightarrow> nat \<Rightarrow> u8 list \<Rightarrow> u8 list" where
  "file_write c offset buf = splice offset buf (c @ replicate (offset + length buf - length c) 0)"

lemma take_splice: "off + length bs \<le> k \<Longrightarrow> k \<le> length xs \<Longrightarrow> take k (splice off bs xs) = splice off bs (take k xs)"
  by (cases "k = off") (auto simp: splice_def min_def take_drop)

lemma drop_splice: "off + length bs \<le> k \<Longrightarrow> k \<le> length xs \<Longrightarrow> drop k (splice off bs xs) = drop k xs"
  by (simp add: splice_def)

lemma inode_wf_raw:
  assumes "inode_wf N e w di" "\<forall>b < N. length (w b) = 512"
  defines "n \<equiv> unat (data_blocks di)"
  shows "length (raw_bytes w di n) = n * 512" "unat (di_size di) \<le> n * 512"
    "raw_bytes w di n = file_bytes w di @ replicate (n * 512 - unat (di_size di)) 0" "length (file_bytes w di) = unat (di_size di)"
proof -
  have sz: "unat (di_size di) \<le> max_file_size" using assms(1) by (simp add: inode_wf_def)
  have "\<forall>x \<in> set (map w (data_ids w di n)). length x = 512"
    using assms by (auto simp: inode_wf_def own_blocks_def tree_ids_def)
  from length_concat_blocks [OF this] show len: "length (raw_bytes w di n) = n * 512" by (simp add: raw_bytes_def)
  show le: "unat (di_size di) \<le> n * 512" using size_blocks(4) [OF sz] by (simp add: n_def data_blocks_def)
  have "\<forall>x \<in> set (drop (unat (di_size di)) (raw_bytes w di n)). x = 0" using assms(1) by (simp add: inode_wf_def n_def)
  then have "drop (unat (di_size di)) (raw_bytes w di n) = replicate (n * 512 - unat (di_size di)) 0"
    using len by (simp add: replicate_eqI)
  then show "raw_bytes w di n = file_bytes w di @ replicate (n * 512 - unat (di_size di)) 0"
    unfolding file_bytes_def n_def [symmetric] by (metis append_take_drop_id)
  show "length (file_bytes w di) = unat (di_size di)" using len le by (simp add: file_bytes_def n_def)
qed

lemma card_free_step:
  assumes "inode_step N e w di w' di'" "set (own_blocks w di) \<subseteq> data_used e w" "set (own_blocks w di) \<subseteq> set (own_blocks w' di')"
    and "distinct (own_blocks w di)" "length (own_blocks w di) = a" "length (own_blocks w' di') = b"
  shows "card (data_free N e w') + (b - a) = card (data_free N e w)"
proof -
  note S = inode_stepD [OF assms(1)]
  let ?T = "set (own_blocks w di)" and ?T' = "set (own_blocks w' di')"
  have used: "data_used e w' = data_used e w \<union> ?T'" unfolding S(3) using assms(3) by blast
  have "data_free N e w' = data_free N e w - (?T' - ?T)" unfolding data_free_def used using assms(2) by blast
  moreover have "card (?T' - ?T) = b - a"
    using assms(3-6) S(1) by (simp add: card_Diff_subset distinct_card inode_wf_def)
  moreover have "card (data_free N e w - (?T' - ?T)) = card (data_free N e w) - card (?T' - ?T)"
    using S(2) by (intro card_Diff_subset) simp_all
  moreover have "card (?T' - ?T) \<le> card (data_free N e w)" using S(2) finite_data_free by (rule card_mono [rotated])
  ultimately show ?thesis by simp
qed

context block_device
begin

lemma prepare_at:
  assumes at: "fs_at D N dev_ok s {iblock e i} {iblock e i} w"
    and inv: "fs_inv N e w" and i: "i \<in> live_inodes e w" and di: "di = dinode e w i"
    and m: "m \<le> max_file_size"
    and room: "blocks_for m - blocks_for (unat (di_size di)) \<le> card (data_free N e w)"
  shows "\<exists>s' w' di'. Inode_increase_size D e (of_nat m) di s = Ok (di', s') \<and> fs_at D N dev_ok s' {iblock e i} {iblock e i} w'
    \<and> inode_step N e w di w' di' \<and> unat (di_size di') = max m (unat (di_size di)) \<and> di_type di' = di_type di
    \<and> file_bytes w' di' = file_bytes w di @ replicate (m - unat (di_size di)) 0
    \<and> card (data_free N e w') + (blocks_for m - blocks_for (unat (di_size di))) = card (data_free N e w)"
proof -
  note D = fs_invD [OF inv]
  note pos = geometry_iblock [OF D(1) live_inode_pos [OF D(1) i]]
  have wf: "inode_wf N e w di" using D(3) [OF i] by (simp add: di)
  have used: "set (own_blocks w di) \<subseteq> data_used e w" using own_subset_used [OF inv i] by (simp add: di)
  have um: "unat (of_nat m :: u32) = m" using m by (simp add: unat_of_nat max_file_size_eq)
  show ?thesis
  proof (cases "m < unat (di_size di)")
    case True
    then have "(of_nat m :: u32) < di_size di" using um by (simp add: word_less_nat_alt)
    then have "Inode_increase_size D e (of_nat m) di s = Ok (di, s)" by (simp add: Inode_increase_size_def)
    moreover have "inode_step N e w di w di" using wf used by (auto simp: inode_step_def)
    moreover have "blocks_for m \<le> blocks_for (unat (di_size di))" using True by (intro blocks_for_mono) simp
    ultimately show ?thesis using at True by auto
  next
    case False
    have le: "di_size di \<le> of_nat m" using False um by (simp add: word_le_nat_alt)
    have L: "{iblock e i} \<subseteq> {..<start_block_id (data_bitmap e)}" using pos(2) by simp
    have c: "card {iblock e i} + 1 < BLOCK_CACHE_SIZE" by (simp add: BLOCK_CACHE_SIZE_def)
    from increase_at [OF at subset_refl c L inv i di le] um m room obtain s' w' di' where
      r: "Inode_increase_size D e (of_nat m) di s = Ok (di', s')" "fs_at D N dev_ok s' {iblock e i} {iblock e i} w'"
      "inode_wf N e w' di'" "di_size di' = of_nat m" "di_type di' = di_type di"
      "set (own_blocks w di) \<subseteq> set (own_blocks w' di')" "set (own_blocks w' di') - set (own_blocks w di) \<subseteq> data_free N e w"
      "data_used e w' = data_used e w \<union> set (own_blocks w' di')"
      "raw_bytes w' di' (unat (data_blocks di')) = raw_bytes w di (unat (data_blocks di))
        @ replicate ((unat (data_blocks di') - unat (data_blocks di)) * 512) 0"
      "\<forall>b. b \<notin> bm_blocks (data_bitmap e) \<longrightarrow> b \<notin> set (own_blocks w' di') \<longrightarrow> w' b = w b" by auto
    have step: "inode_step N e w di w' di'"
      unfolding inode_step_def using r(3,6,7,8,10) by (intro conjI) blast+
    have "unat (di_size di) \<le> max_file_size" using wf by (simp add: inode_wf_def)
    then have lens: "length (own_blocks w di) = blocks_for (unat (di_size di))" "length (own_blocks w' di') = blocks_for m"
      using length_tree_ids [of "di_size di" w di] length_tree_ids [of "of_nat m" w' di'] um m r(4)
      by (simp_all add: own_blocks_def data_blocks_def)
    have "distinct (own_blocks w di)" using wf by (simp add: inode_wf_def)
    note free = card_free_step [OF step used r(6) this lens]
    have fb: "file_bytes w' di' = file_bytes w di @ replicate (m - unat (di_size di)) 0"
    proof -
      note R = inode_wf_raw [OF wf fs_at_lengths [OF at]] and R' = inode_wf_raw [OF r(3) fs_at_lengths [OF r(2)]]
      let ?z = "unat (data_blocks di) * 512 - unat (di_size di) + (unat (data_blocks di') - unat (data_blocks di)) * 512"
      have raw: "raw_bytes w' di' (unat (data_blocks di')) = file_bytes w di @ replicate ?z 0"
        unfolding r(9) R(3) by (simp add: replicate_add)
      have "m \<le> unat (di_size di) + ?z" using R'(1,2) R(4) arg_cong [OF raw, of length] um r(4) by simp
      then show ?thesis
        unfolding file_bytes_def [of w' di'] raw r(4) um using R(4) False by (simp add: min_def)
    qed
    show ?thesis using r(1,2,4,5) step fb free um False by (intro exI [of _ s'] exI [of _ w'] exI [of _ di']) (simp add: max_def)
  qed
qed

text \<open>Writing inside the size of an inode changes its data blocks only.\<close>

lemma write_step_at:
  assumes at: "fs_at D N dev_ok s {iblock e i} {iblock e i} w1" and inv: "fs_inv N e w" and i: "i \<in> live_inodes e w"
    and step: "inode_step N e w di w1 di1" and off: "offset + length buf \<le> unat (di_size di1)"
  shows "\<exists>s' w'. DiskInode_write_at D di1 offset buf s = Ok (length buf, s') \<and> fs_at D N dev_ok s' {iblock e i} {iblock e i} w'
    \<and> inode_step N e w di w' di1 \<and> file_bytes w' di1 = splice offset buf (file_bytes w1 di1) \<and> data_used e w' = data_used e w1"
proof -
  note D = fs_invD [OF inv]
  note pos = geometry_iblock [OF D(1) live_inode_pos [OF D(1) i]]
  note S = inode_stepD [OF step]
  let ?n = "unat (data_blocks di1)" and ?sz = "unat (di_size di1)"
  have L: "{iblock e i} \<inter> {da_start e..<N} = {}" using pos(3) by simp
  note tree = inode_wf_tree [OF S(1) L]
  have sz: "?sz + 511 < 2 ^ 32" using S(1) by (intro size_blocks(1)) (simp add: inode_wf_def)
  have card: "card {iblock e i} < BLOCK_CACHE_SIZE" by (simp add: BLOCK_CACHE_SIZE_def)
  from DiskInode_write_at_at [OF at subset_refl card tree sz off] obtain s' w' where
    r: "DiskInode_write_at D di1 offset buf s = Ok (length buf, s')" "fs_at D N dev_ok s' {iblock e i} {iblock e i} w'"
      "raw_bytes w' di1 ?n = splice offset buf (raw_bytes w1 di1 ?n)" "\<forall>b. b \<notin> set (data_ids w1 di1 ?n) \<longrightarrow> w' b = w1 b" by blast
  note R = inode_wf_raw [OF S(1) fs_at_lengths [OF at]]
  have meta: "\<forall>b \<in> set (meta_ids w1 di1 ?n). w' b = w1 b"
    using r(4) tree by (auto simp: tree_ok_def tree_ids_def)
  have own: "own_blocks w' di1 = own_blocks w1 di1" using tree_ids_cong [OF meta] by (simp add: own_blocks_def)
  have data: "set (data_ids w1 di1 ?n) \<subseteq> set (own_blocks w1 di1)" by (auto simp: own_blocks_def tree_ids_def)
  have area: "set (own_blocks w1 di1) \<subseteq> {da_start e..<N}" using S(1) by (simp add: inode_wf_def)
  have used: "data_used e w' = data_used e w1"
  proof (rule data_used_cong, rule ballI)
    fix b assume "b \<in> bm_blocks (data_bitmap e)"
    then have "b < da_start e" using geometry_blocks(2) [OF D(1)] by auto
    then have "b \<notin> set (own_blocks w1 di1)" using area by auto
    then show "w' b = w1 b" using r(4) data by blast
  qed
  have slack: "drop ?sz (raw_bytes w' di1 ?n) = drop ?sz (raw_bytes w1 di1 ?n)"
    unfolding r(3) using off R(1,2) by (intro drop_splice) simp_all
  have wf': "inode_wf N e w' di1" using S(1) unfolding inode_wf_def own slack .
  have st: "inode_step N e w di w' di1"
    unfolding inode_step_def own used
  proof (intro conjI allI impI ballI)
    show "w' b = w b" if "b \<notin> bm_blocks (data_bitmap e)" "b \<notin> set (own_blocks w di) \<union> set (own_blocks w1 di1)" for b
      using S(4) [OF that] r(4) data that(2) by auto
    show "w' b = replicate 512 0" if "b \<in> set (own_blocks w di) - set (own_blocks w1 di1)" for b
      using S(5) [OF that] r(4) data that by auto
  qed (rule wf' S(2,3))+
  have "file_bytes w' di1 = splice offset buf (file_bytes w1 di1)"
    unfolding file_bytes_def r(3) using off R(1,2) by (intro take_splice) simp_all
  with r(1,2) st used show ?thesis by blast
qed

text \<open>Growing an inode as far as needed and then writing, the closure of \<^verbatim>\<open>write_at\<close> and of \<^verbatim>\<open>create\<close>.\<close>

lemma grow_write_at:
  assumes s1: "fs_at D N dev_ok s1 {iblock e i} {iblock e i} w" and inv: "fs_inv N e w" and i: "i \<in> live_inodes e w"
    and m: "offset + length buf \<le> max_file_size"
    and room: "blocks_for (offset + length buf) - blocks_for (length (icontent e w i)) \<le> card (data_free N e w)"
  shows "\<exists>di2 s2 s3 w3. Inode_increase_size D e (of_nat (offset + length buf)) (dinode e w i) s1 = Ok (di2, s2)
    \<and> DiskInode_write_at D di2 offset buf s2 = Ok (length buf, s3) \<and> fs_at D N dev_ok s3 {iblock e i} {iblock e i} w3
    \<and> inode_step N e w (dinode e w i) w3 di2 \<and> di_type di2 = di_type (dinode e w i)
    \<and> file_bytes w3 di2 = file_write (icontent e w i) offset buf
    \<and> card (data_free N e w3) + (blocks_for (offset + length buf) - blocks_for (length (icontent e w i))) = card (data_free N e w)"
proof -
  let ?di = "dinode e w i" and ?m = "offset + length buf"
  have csz: "length (icontent e w i) = unat (di_size ?di)"
    unfolding icontent_def by (rule inode_wf_raw(4) [OF fs_invD(3) [OF inv i] fs_at_lengths [OF s1]])
  from prepare_at [OF s1 inv i refl m] room csz obtain s2 w2 di2 where
    p: "Inode_increase_size D e (of_nat ?m) ?di s1 = Ok (di2, s2)" "fs_at D N dev_ok s2 {iblock e i} {iblock e i} w2"
      "inode_step N e w ?di w2 di2" "unat (di_size di2) = max ?m (unat (di_size ?di))" "di_type di2 = di_type ?di"
      "file_bytes w2 di2 = file_bytes w ?di @ replicate (?m - unat (di_size ?di)) 0"
      "card (data_free N e w2) + (blocks_for ?m - blocks_for (unat (di_size ?di))) = card (data_free N e w)" by auto
  have "offset + length buf \<le> unat (di_size di2)" using p(4) by simp
  from write_step_at [OF p(2) inv i p(3) this] obtain s3 w3 where
    q: "DiskInode_write_at D di2 offset buf s2 = Ok (length buf, s3)" "fs_at D N dev_ok s3 {iblock e i} {iblock e i} w3"
      "inode_step N e w ?di w3 di2" "file_bytes w3 di2 = splice offset buf (file_bytes w2 di2)" "data_used e w3 = data_used e w2" by blast
  have "file_bytes w3 di2 = file_write (icontent e w i) offset buf"
    using q(4) p(6) csz by (simp add: file_write_def icontent_def)
  moreover have "data_free N e w3 = data_free N e w2" using q(5) by (simp add: data_free_def)
  then have "card (data_free N e w3) + (blocks_for ?m - blocks_for (length (icontent e w i))) = card (data_free N e w)"
    using p(7) csz by simp
  ultimately show ?thesis using p(1,5) q(1-3) by blast
qed

lemma Inode_write_at_at:
  assumes at: "fs_at D N dev_ok s {} {} w" and inv: "fs_inv N e w" and i: "i \<in> live_inodes e w"
    and m: "offset + length buf \<le> max_file_size"
    and room: "blocks_for (offset + length buf) - blocks_for (length (icontent e w i)) \<le> card (data_free N e w)"
  shows "\<exists>s' w'. Inode_write_at D e (handle e i) offset buf s = Ok (length buf, s') \<and> fs_at D N dev_ok s' {} {} w'
    \<and> fs_inv N e w' \<and> live_inodes e w' = live_inodes e w \<and> icontent e w' i = file_write (icontent e w i) offset buf
    \<and> di_type (dinode e w' i) = di_type (dinode e w i) \<and> others_same e w w' i
    \<and> card (data_free N e w') + (blocks_for (offset + length buf) - blocks_for (length (icontent e w i))) = card (data_free N e w)"
proof -
  let ?di = "dinode e w i" and ?m = "offset + length buf"
  let ?P = "\<lambda>r di' w2. r = length buf \<and> di_type di' = di_type ?di \<and> file_bytes w2 di' = file_write (icontent e w i) offset buf
    \<and> card (data_free N e w2) + (blocks_for ?m - blocks_for (length (icontent e w i))) = card (data_free N e w)"
  have "\<exists>r di' s' w' w2. modify_disk_inode D (handle e i) (\<lambda>di s.
       and_then (Inode_increase_size D e (of_nat (offset + length buf)) di s) (\<lambda>(di, s).
       and_then (DiskInode_write_at D di offset buf s) (\<lambda>(n, s). Ok (n, di, s)))) s = Ok (r, s') \<and> fs_at D N dev_ok s' {} {} w'
    \<and> fs_inv N e w' \<and> live_inodes e w' = live_inodes e w \<and> dinode e w' i = di' \<and> icontent e w' i = file_bytes w2 di'
    \<and> others_same e w w' i \<and> data_used e w' = data_used e w2 \<and> ?P r di' w2"
  proof (rule modify_inode_at [OF at inv i])
    fix s1 assume s1: "fs_at D N dev_ok s1 {iblock e i} {iblock e i} w"
    from grow_write_at [OF s1 inv i m room] obtain di2 s2 s3 w3 where
      p: "Inode_increase_size D e (of_nat ?m) ?di s1 = Ok (di2, s2)" "DiskInode_write_at D di2 offset buf s2 = Ok (length buf, s3)"
      and q: "fs_at D N dev_ok s3 {iblock e i} {iblock e i} w3" "inode_step N e w ?di w3 di2" "?P (length buf) di2 w3" by auto
    from p have "and_then (Inode_increase_size D e (of_nat ?m) ?di s1) (\<lambda>(di, s).
       and_then (DiskInode_write_at D di offset buf s) (\<lambda>(n, s). Ok (n, di, s))) = Ok (length buf, di2, s3)" by simp
    with q show "\<exists>r di' s2 w2. and_then (Inode_increase_size D e (of_nat (offset + length buf)) ?di s1) (\<lambda>(di, s).
       and_then (DiskInode_write_at D di offset buf s) (\<lambda>(n, s). Ok (n, di, s))) = Ok (r, di', s2)
      \<and> fs_at D N dev_ok s2 {iblock e i} {iblock e i} w2 \<and> inode_step N e w ?di w2 di' \<and> ?P r di' w2" by blast
  qed
  then obtain r di' s' w' w2 where
    res: "Inode_write_at D e (handle e i) offset buf s = Ok (r, s')" "fs_at D N dev_ok s' {} {} w'" "fs_inv N e w'"
      "live_inodes e w' = live_inodes e w" "dinode e w' i = di'" "icontent e w' i = file_bytes w2 di'" "others_same e w w' i"
      "data_used e w' = data_used e w2" "?P r di' w2" unfolding Inode_write_at_def by blast
  have "data_free N e w' = data_free N e w2" using res(8) by (simp add: data_free_def)
  with res show ?thesis by (intro exI [of _ s'] exI [of _ w']) simp
qed

lemma Inode_read_at_at:
  assumes at: "fs_at D N dev_ok s {} {} w" and inv: "fs_inv N e w" and i: "i \<in> live_inodes e w"
    and off: "offset + length buf < 2 ^ 64"
  shows "\<exists>s'. Inode_read_at D (handle e i) offset buf s
      = Ok ((min (length buf) (length (icontent e w i) - offset), splice 0 (take (length buf) (drop offset (icontent e w i))) buf), s')
    \<and> fs_at D N dev_ok s' {} {} w"
  unfolding Inode_read_at_def
proof (rule read_inode_at [OF at inv i])
  fix s1 assume s1: "fs_at D N dev_ok s1 {iblock e i} {} w"
  note D = fs_invD [OF inv]
  note pos = geometry_iblock [OF D(1) live_inode_pos [OF D(1) i]]
  have L: "{iblock e i} \<inter> {da_start e..<N} = {}" using pos(3) by simp
  have sz: "unat (di_size (dinode e w i)) + 511 < 2 ^ 32" using D(3) [OF i] by (intro size_blocks(1)) (simp add: inode_wf_def)
  have len: "length (icontent e w i) = unat (di_size (dinode e w i))"
    unfolding icontent_def by (rule inode_wf_raw(4) [OF D(3) [OF i] fs_at_lengths [OF at]])
  from DiskInode_read_at_at [OF s1 _ _ inode_wf_tree [OF D(3) [OF i] L] sz off] len
  show "\<exists>s2. DiskInode_read_at D (dinode e w i) offset buf s1
      = Ok ((min (length buf) (length (icontent e w i) - offset), splice 0 (take (length buf) (drop offset (icontent e w i))) buf), s2)
    \<and> fs_at D N dev_ok s2 {iblock e i} {} w"
    by (simp add: BLOCK_CACHE_SIZE_def icontent_def)
qed

lemma dealloc_blocks_at:
  assumes "fs_at D N dev_ok s L M w" "M \<subseteq> L" "card L < BLOCK_CACHE_SIZE"
    and geo: "geometry N e" and L: "bm_blocks (data_bitmap e) \<inter> L = {}"
    and "distinct (map unat bs)" "unat ` set bs \<subseteq> data_used e w" "unat ` set bs \<subseteq> {..<N} - L"
  shows "\<exists>s' w'. dealloc_blocks D e bs s = Ok ((), s') \<and> fs_at D N dev_ok s' L M w'
    \<and> (\<forall>b \<in> unat ` set bs. w' b = replicate 512 0) \<and> data_used e w' = data_used e w - unat ` set bs
    \<and> (\<forall>b. b \<notin> bm_blocks (data_bitmap e) \<longrightarrow> b \<notin> unat ` set bs \<longrightarrow> w' b = w b)"
  using assms(1,6-8)
proof (induction bs arbitrary: s w)
  case (Cons x bs)
  then have x: "unat x \<in> data_used e w" "unat x < N" "unat x \<notin> L" "unat x \<notin> unat ` set bs" by auto
  from dealloc_data_at [OF Cons.prems(1) assms(2,3) geo L x(1-3)] obtain s1 w1 where
    d: "dealloc_data D e x s = Ok ((), s1)" "fs_at D N dev_ok s1 L M w1" "w1 (unat x) = replicate 512 0"
      "data_used e w1 = data_used e w - {unat x}" "\<forall>i. i \<notin> bm_blocks (data_bitmap e) \<longrightarrow> i \<noteq> unat x \<longrightarrow> w1 i = w i" by blast
  have sub: "unat ` set bs \<subseteq> data_used e w1" "unat ` set bs \<subseteq> {..<N} - L" "distinct (map unat bs)"
    using Cons.prems(2-4) x(4) unfolding d(4) by (simp_all add: subset_Diff_insert)
  from Cons.IH [OF d(2) sub(3,1,2)] obtain s' w' where
    r: "dealloc_blocks D e bs s1 = Ok ((), s')" "fs_at D N dev_ok s' L M w'" "\<forall>b \<in> unat ` set bs. w' b = replicate 512 0"
      "data_used e w' = data_used e w1 - unat ` set bs" "\<forall>b. b \<notin> bm_blocks (data_bitmap e) \<longrightarrow> b \<notin> unat ` set bs \<longrightarrow> w' b = w1 b" by blast
  obtain k where "unat x = da_start e + k" using x(1) by (auto simp: data_used_def)
  then have "unat x \<notin> bm_blocks (data_bitmap e)" using geometry_blocks(2) [OF geo] by auto
  then have "w' (unat x) = replicate 512 0" using r(5) x(4) d(3) by simp
  with r(3) have zero: "\<forall>b \<in> unat ` set (x # bs). w' b = replicate 512 0" by simp
  have used: "data_used e w' = data_used e w - unat ` set (x # bs)" unfolding r(4) d(4) by auto
  have keep: "\<forall>b. b \<notin> bm_blocks (data_bitmap e) \<longrightarrow> b \<notin> unat ` set (x # bs) \<longrightarrow> w' b = w b" using r(5) d(5) by simp
  have "dealloc_blocks D e (x # bs) s = Ok ((), s')" using d(1) r(1) by simp
  with r(2) zero used keep show ?case by blast
qed (simp, blast)

lemma Inode_clear_at:
  assumes at: "fs_at D N dev_ok s {} {} w" and inv: "fs_inv N e w" and i: "i \<in> live_inodes e w"
  shows "\<exists>s' w'. Inode_clear D e (handle e i) s = Ok ((), s') \<and> fs_at D N dev_ok s' {} {} w'
    \<and> fs_inv N e w' \<and> live_inodes e w' = live_inodes e w \<and> icontent e w' i = []
    \<and> di_type (dinode e w' i) = di_type (dinode e w i) \<and> others_same e w w' i
    \<and> card (data_free N e w') = card (data_free N e w) + blocks_for (length (icontent e w i))"
proof -
  note D = fs_invD [OF inv]
  note pos = geometry_iblock [OF D(1) live_inode_pos [OF D(1) i]]
  let ?di = "dinode e w i"
  have wf: "inode_wf N e w ?di" by (rule D(3) [OF i])
  have sz: "unat (di_size ?di) \<le> max_file_size" using wf by (simp add: inode_wf_def)
  have csz: "length (icontent e w i) = unat (di_size ?di)"
    unfolding icontent_def by (rule inode_wf_raw(4) [OF wf fs_at_lengths [OF at]])
  have lown: "length (own_blocks w ?di) = blocks_for (unat (di_size ?di))"
    unfolding own_blocks_def data_blocks_def by (rule length_tree_ids [OF sz])
  have L: "{iblock e i} \<inter> {da_start e..<N} = {}" "bm_blocks (data_bitmap e) \<inter> {iblock e i} = {}" using pos(3,5) by auto
  have used: "set (own_blocks w ?di) \<subseteq> data_used e w" by (rule own_subset_used [OF inv i])
  have area: "set (own_blocks w ?di) \<subseteq> {da_start e..<N}" "distinct (own_blocks w ?di)" using wf by (simp_all add: inode_wf_def)
  let ?P = "\<lambda>r di' w2. file_bytes w2 di' = [] \<and> di_type di' = di_type ?di \<and> data_used e w2 = data_used e w - set (own_blocks w ?di)"
  let ?f = "\<lambda>di s. let sz = di_size di
       in and_then (clear_size D di s) (\<lambda>((data_blocks_dealloc, di), s).
          and_then (assert_that (length data_blocks_dealloc = unat (total_blocks sz))) (\<lambda>_.
          and_then (dealloc_blocks D e data_blocks_dealloc s) (\<lambda>(_, s). Ok ((), di, s))))"
  have "\<exists>r di' s' w' w2. modify_disk_inode D (handle e i) ?f s = Ok (r, s') \<and> fs_at D N dev_ok s' {} {} w'
    \<and> fs_inv N e w' \<and> live_inodes e w' = live_inodes e w \<and> dinode e w' i = di' \<and> icontent e w' i = file_bytes w2 di'
    \<and> others_same e w w' i \<and> data_used e w' = data_used e w2 \<and> ?P r di' w2"
  proof (rule modify_inode_at [OF at inv i])
    fix s1 assume s1: "fs_at D N dev_ok s1 {iblock e i} {iblock e i} w"
    have c: "card {iblock e i} + 1 < BLOCK_CACHE_SIZE" "card {iblock e i} < BLOCK_CACHE_SIZE" by (simp_all add: BLOCK_CACHE_SIZE_def)
    from clear_size_at [OF s1 subset_refl c(1) refl inode_wf_tree [OF wf L(1)]] obtain v di2 s2 w2 where
      p: "clear_size D ?di s1 = Ok ((v, di2), s2)" "fs_at D N dev_ok s2 {iblock e i} {iblock e i} w2"
        "mset (map unat v) = mset (own_blocks w ?di)" "di_size di2 = 0" "di_type di2 = di_type ?di" "length (direct di2) = 28"
        "\<forall>b. b \<notin> set (own_blocks w ?di) \<longrightarrow> w2 b = w b" unfolding own_blocks_def by blast
    have setv: "unat ` set v = set (own_blocks w ?di)" using mset_eq_setD [OF p(3)] by simp
    have dv: "distinct (map unat v)" using mset_eq_imp_distinct_iff [OF p(3)] area(2) by simp
    have "length v = length (own_blocks w ?di)" using mset_eq_length [OF p(3)] by simp
    then have lv: "length v = unat (total_blocks (di_size ?di))" using lown unat_total_blocks [OF sz] by simp
    have used2: "data_used e w2 = data_used e w"
    proof (rule data_used_cong, rule ballI)
      fix b assume "b \<in> bm_blocks (data_bitmap e)"
      then have "b \<notin> set (own_blocks w ?di)" using geometry_blocks(2) [OF D(1)] area(1) by fastforce
      then show "w2 b = w b" using p(7) by blast
    qed
    have sub: "unat ` set v \<subseteq> data_used e w2" "unat ` set v \<subseteq> {..<N} - {iblock e i}"
      unfolding setv used2 using used area(1) pos(3) by fastforce+
    from dealloc_blocks_at [OF p(2) subset_refl c(2) D(1) L(2) dv sub] obtain s3 w3 where
      q: "dealloc_blocks D e v s2 = Ok ((), s3)" "fs_at D N dev_ok s3 {iblock e i} {iblock e i} w3"
        "\<forall>b \<in> set (own_blocks w ?di). w3 b = replicate 512 0" "data_used e w3 = data_used e w - set (own_blocks w ?di)"
        "\<forall>b. b \<notin> bm_blocks (data_bitmap e) \<longrightarrow> b \<notin> set (own_blocks w ?di) \<longrightarrow> w3 b = w2 b" unfolding setv used2 by blast
    have db: "unat (data_blocks di2) = 0" using p(4) by (simp add: data_blocks_def data_blocks_of_eq)
    have own2: "own_blocks w3 di2 = []"
      using db by (simp add: own_blocks_def tree_ids_def data_ids_def meta_ids_def metas_def index_count_def)
    have wf2: "inode_wf N e w3 di2" using own2 db p(4,6) by (simp add: inode_wf_def raw_bytes_def data_ids_def)
    have st: "inode_step N e w ?di w3 di2" unfolding inode_step_def own2
    proof (intro conjI allI impI ballI)
      show "w3 b = w b" if "b \<notin> bm_blocks (data_bitmap e)" "b \<notin> set (own_blocks w ?di) \<union> set []" for b
        using that q(5) p(7) by simp
    qed (use wf2 q(3,4) in simp_all)
    have "?P () di2 w3" using db p(5) q(4) by (simp add: file_bytes_def raw_bytes_def data_ids_def)
    with p(1) lv q(1,2) st show "\<exists>r di' s2 w2. ?f ?di s1 = Ok (r, di', s2) \<and> fs_at D N dev_ok s2 {iblock e i} {iblock e i} w2
        \<and> inode_step N e w ?di w2 di' \<and> ?P r di' w2"
      by (intro exI [of _ "()"] exI [of _ di2] exI [of _ s3] exI [of _ w3]) simp
  qed
  then obtain r di' s' w' w2 where
    res: "Inode_clear D e (handle e i) s = Ok (r, s')" "fs_at D N dev_ok s' {} {} w'" "fs_inv N e w'"
      "live_inodes e w' = live_inodes e w" "dinode e w' i = di'" "icontent e w' i = file_bytes w2 di'" "others_same e w w' i"
      "data_used e w' = data_used e w2" "?P r di' w2" unfolding Inode_clear_def by blast
  have "data_free N e w' = data_free N e w \<union> set (own_blocks w ?di)"
    unfolding data_free_def using res(8,9) area(1) used by auto
  moreover have "data_free N e w \<inter> set (own_blocks w ?di) = {}" using used by (auto simp: data_free_def)
  ultimately have "card (data_free N e w') = card (data_free N e w) + length (own_blocks w ?di)"
    using area(2) finite_data_free by (simp add: card_Un_disjoint distinct_card)
  with res lown csz show ?thesis by (intro exI [of _ s'] exI [of _ w']) simp
qed

end

end
