(* ===== verification/Directory.thy ===== *)
theory Directory
  imports Vfs
begin

text \<open>
  The root directory of easy-fs: the entries that its contents encode, what \<^verbatim>\<open>find\<close>, \<^verbatim>\<open>ls\<close> and
  \<^verbatim>\<open>create\<close> do to them, and the abstract file system \<open>files\<close> (names to contents) that all operations
  refine.
\<close>

section \<open>Entries\<close>

definition entry :: "u8 list \<Rightarrow> nat \<Rightarrow> DirEntry" where
  "entry c k = DirEntry_of_bytes (take DIR_ENTRY_SIZE (drop (DIR_ENTRY_SIZE * k) c))"

definition entries :: "u8 list \<Rightarrow> DirEntry list" where
  "entries c = map (entry c) [0..<length c div DIR_ENTRY_SIZE]"

definition entry_name :: "DirEntry \<Rightarrow> u8 list" where
  "entry_name d = (case DirEntry_name d of Ok nm \<Rightarrow> nm | Panic _ \<Rightarrow> [])"

definition entry_pair :: "DirEntry \<Rightarrow> u8 list \<times> nat" where
  "entry_pair d = (entry_name d, unat (de_inode_number d))"

definition dir_pairs :: "EasyFileSystem \<Rightarrow> disk \<Rightarrow> (u8 list \<times> nat) list" where
  "dir_pairs e w = map entry_pair (entries (icontent e w 0))"

definition dir_lookup :: "EasyFileSystem \<Rightarrow> disk \<Rightarrow> u8 list \<Rightarrow> nat option" where
  "dir_lookup e w name = map_of (dir_pairs e w) name"

text \<open>The root inode is a directory of whole entries with different names and different inodes in use.\<close>

definition dir_ok :: "EasyFileSystem \<Rightarrow> disk \<Rightarrow> bool" where
  "dir_ok e w \<longleftrightarrow>
     0 \<in> live_inodes e w \<and> is_dir (dinode e w 0) \<and> length (icontent e w 0) mod DIR_ENTRY_SIZE = 0
     \<and> (\<forall>d \<in> set (entries (icontent e w 0)). is_ok (DirEntry_name d))
     \<and> distinct (map fst (dir_pairs e w)) \<and> distinct (map snd (dir_pairs e w))
     \<and> set (map snd (dir_pairs e w)) \<subseteq> live_inodes e w - {0}"

definition files :: "EasyFileSystem \<Rightarrow> disk \<Rightarrow> u8 list \<Rightarrow> u8 list option" where
  "files e w name = map_option (icontent e w) (dir_lookup e w name)"

text \<open>
  The super block describes the file system, so that it can be opened again; a mounted file
  system between two operations.
\<close>

definition super_ok :: "EasyFileSystem \<Rightarrow> disk \<Rightarrow> bool" where
  "super_ok e w \<longleftrightarrow> (let sb = SuperBlock_of_bytes (take SUPER_BLOCK_SIZE (w 0)) in SuperBlock_is_valid sb \<and> efs_of_super sb = e)"

definition efs_at :: "'d BlockDevice \<Rightarrow> nat \<Rightarrow> ('d \<Rightarrow> bool) \<Rightarrow> EasyFileSystem \<Rightarrow> 'd bc_state \<Rightarrow> disk \<Rightarrow> bool" where
  "efs_at D N dev_ok e s w \<longleftrightarrow> fs_at D N dev_ok s {} {} w \<and> fs_inv N e w \<and> dir_ok e w \<and> super_ok e w"

lemma super_ok_cong: "w' 0 = w 0 \<Longrightarrow> super_ok e w' = super_ok e w"
  by (simp add: super_ok_def)

lemma efs_atD:
  assumes "efs_at D N dev_ok e s w"
  shows "fs_at D N dev_ok s {} {} w" "fs_inv N e w" "dir_ok e w" "super_ok e w" "geometry N e" "0 \<in> live_inodes e w"
  using assms fs_invD(1) unfolding efs_at_def dir_ok_def by blast+

lemma efs_at_same: "efs_at D N dev_ok e s w \<Longrightarrow> fs_at D N dev_ok s' {} {} w \<Longrightarrow> efs_at D N dev_ok e s' w"
  by (simp add: efs_at_def)

lemma length_entries [simp]: "length (entries c) = length c div DIR_ENTRY_SIZE"
  by (simp add: entries_def)

lemma entry_pos: "k < length c div DIR_ENTRY_SIZE \<Longrightarrow> DIR_ENTRY_SIZE * k + DIR_ENTRY_SIZE \<le> length c"
proof -
  assume "k < length c div DIR_ENTRY_SIZE"
  then have "Suc k * DIR_ENTRY_SIZE \<le> length c div DIR_ENTRY_SIZE * DIR_ENTRY_SIZE" by (intro mult_le_mono1) simp
  also have "\<dots> \<le> length c" by simp
  finally show ?thesis by (simp add: algebra_simps)
qed

lemma entries_append:
  assumes "length c mod DIR_ENTRY_SIZE = 0" "length b = DIR_ENTRY_SIZE"
  shows "entries (c @ b) = entries c @ [DirEntry_of_bytes b]"
proof -
  let ?n = "length c div DIR_ENTRY_SIZE"
  have len: "length c = DIR_ENTRY_SIZE * ?n" using assms(1) mult_div_mod_eq [of DIR_ENTRY_SIZE "length c"] by simp
  have "0 < DIR_ENTRY_SIZE" by (simp add: DIR_ENTRY_SIZE_def)
  then have "length (c @ b) div DIR_ENTRY_SIZE = Suc ?n" using len assms(2) by (metis add.commute div_mult_self2 div_self length_append less_not_refl3 plus_1_eq_Suc mult.commute)
  moreover have "entry (c @ b) k = entry c k" if "k < ?n" for k
    using entry_pos [OF that] by (simp add: entry_def)
  moreover have "entry (c @ b) ?n = DirEntry_of_bytes b" using len assms(2) by (simp add: entry_def)
  ultimately show ?thesis by (simp add: entries_def)
qed

lemma lookup_live: "dir_ok e w \<Longrightarrow> dir_lookup e w name = Some i \<Longrightarrow> i \<in> live_inodes e w \<and> i \<noteq> 0"
proof -
  assume ok: "dir_ok e w" and "dir_lookup e w name = Some i"
  then have "(name, i) \<in> set (dir_pairs e w)" unfolding dir_lookup_def by (auto dest: map_of_SomeD)
  from imageI [OF this, of snd] have "i \<in> set (map snd (dir_pairs e w))" by simp
  moreover have "set (map snd (dir_pairs e w)) \<subseteq> live_inodes e w - {0}" using ok unfolding dir_ok_def by (elim conjE)
  ultimately have "i \<in> live_inodes e w - {0}" by (rule rev_subsetD)
  then show ?thesis by simp
qed

section \<open>Looking names up\<close>

context block_device
begin

text \<open>One turn of the loops of \<^verbatim>\<open>find_inode_id\<close> and \<^verbatim>\<open>ls\<close>.\<close>

lemma read_entry_ok:
  assumes at: "fs_at D N dev_ok s {iblock e 0} {} w" and inv: "fs_inv N e w" and root: "0 \<in> live_inodes e w"
    and k: "k < length (icontent e w 0) div DIR_ENTRY_SIZE" and d: "length (de_name d) = 28"
  shows "\<exists>s' buf. DiskInode_read_at D (dinode e w 0) (DIR_ENTRY_SIZE * k) (DirEntry_as_bytes d) s = Ok ((DIR_ENTRY_SIZE, buf), s')
    \<and> fs_at D N dev_ok s' {iblock e 0} {} w \<and> DirEntry_of_bytes buf = entry (icontent e w 0) k
    \<and> length (de_name (DirEntry_of_bytes buf)) = 28"
proof -
  note D = fs_invD [OF inv]
  note pos = geometry_iblock [OF D(1) live_inode_pos [OF D(1) root]]
  let ?c = "icontent e w 0"
  have L: "{iblock e 0} \<inter> {da_start e..<N} = {}" using pos(3) by simp
  have sz: "unat (di_size (dinode e w 0)) + 511 < 2 ^ 32" using D(3) [OF root] by (intro size_blocks(1)) (simp add: inode_wf_def)
  have len: "length ?c = unat (di_size (dinode e w 0))"
    unfolding icontent_def by (rule inode_wf_raw(4) [OF D(3) [OF root] fs_at_lengths [OF at]])
  have lb: "length (DirEntry_as_bytes d) = DIR_ENTRY_SIZE" by (rule length_DirEntry_as_bytes [OF d])
  note fit = entry_pos [OF k]
  have bound: "length ?c < 2 ^ 32" using sz len by simp
  have off: "DIR_ENTRY_SIZE * k + length (DirEntry_as_bytes d) < 2 ^ 64" using fit bound lb by simp
  have card: "card {iblock e 0} < BLOCK_CACHE_SIZE" by (simp add: BLOCK_CACHE_SIZE_def)
  let ?b = "take DIR_ENTRY_SIZE (drop (DIR_ENTRY_SIZE * k) ?c)"
  have l: "length ?b = DIR_ENTRY_SIZE" using fit by simp
  from DiskInode_read_at_at [OF at empty_subsetI card inode_wf_tree [OF D(3) [OF root] L] sz off] obtain s' where
    s': "DiskInode_read_at D (dinode e w 0) (DIR_ENTRY_SIZE * k) (DirEntry_as_bytes d) s
      = Ok ((min DIR_ENTRY_SIZE (length ?c - DIR_ENTRY_SIZE * k), splice 0 ?b (DirEntry_as_bytes d)), s')"
    "fs_at D N dev_ok s' {iblock e 0} {} w" unfolding lb len icontent_def [symmetric] by blast
  have "splice 0 ?b (DirEntry_as_bytes d) = ?b" using l lb by (intro splice_all) simp
  moreover have "min DIR_ENTRY_SIZE (length ?c - DIR_ENTRY_SIZE * k) = DIR_ENTRY_SIZE" using fit by simp
  moreover have "length (de_name (DirEntry_of_bytes ?b)) = 28"
    using l by (simp add: DirEntry_of_bytes_def NAME_LENGTH_LIMIT_def DIR_ENTRY_SIZE_def)
  ultimately show ?thesis using s' by (simp add: entry_def)
qed

lemma find_loop_at:
  assumes "fs_at D N dev_ok s {iblock e 0} {} w" "fs_inv N e w" "dir_ok e w"
    and "k + n = length (icontent e w 0) div DIR_ENTRY_SIZE" "length (de_name d) = 28"
  shows "\<exists>s'. find_inode_id_loop D name (dinode e w 0) k n d s
      = Ok (map_option of_nat (map_of (map entry_pair (drop k (entries (icontent e w 0)))) name), s')
    \<and> fs_at D N dev_ok s' {iblock e 0} {} w"
  using assms(1,4,5)
proof (induction n arbitrary: s k d)
  case (Suc n)
  let ?c = "icontent e w 0" and ?d = "entry (icontent e w 0) k"
  have k: "k < length ?c div DIR_ENTRY_SIZE" using Suc.prems(2) by simp
  have root: "0 \<in> live_inodes e w" using assms(3) by (simp add: dir_ok_def)
  from read_entry_ok [OF Suc.prems(1) assms(2) root k Suc.prems(3)] obtain s1 buf where
    r: "DiskInode_read_at D (dinode e w 0) (DIR_ENTRY_SIZE * k) (DirEntry_as_bytes d) s = Ok ((DIR_ENTRY_SIZE, buf), s1)"
      "fs_at D N dev_ok s1 {iblock e 0} {} w" "DirEntry_of_bytes buf = ?d" "length (de_name ?d) = 28" by auto
  have mem: "?d \<in> set (entries ?c)" using k by (auto simp: entries_def)
  then obtain nm where nm: "DirEntry_name ?d = Ok nm" using assms(3) by (auto simp: dir_ok_def is_ok_conv)
  have dr: "drop k (entries ?c) = ?d # drop (Suc k) (entries ?c)"
    using k by (subst Cons_nth_drop_Suc [symmetric]) (simp_all add: entries_def)
  have pair: "entry_pair ?d = (nm, unat (de_inode_number ?d))" by (simp add: entry_pair_def entry_name_def nm)
  have step: "find_inode_id_loop D name (dinode e w 0) k (Suc n) d s =
      (if nm = name then Ok (Some (de_inode_number ?d), s1) else find_inode_id_loop D name (dinode e w 0) (Suc k) n ?d s1)"
    using r(1,3) nm by simp
  show ?case
  proof (cases "nm = name")
    case True
    then show ?thesis using step r(2) by (simp add: dr pair)
  next
    case False
    from Suc.IH [OF r(2), of "Suc k" ?d] Suc.prems(2) r(4) step False show ?thesis by (simp add: dr pair)
  qed
qed simp

lemma find_inode_id_at:
  assumes "fs_at D N dev_ok s {iblock e 0} {} w" "fs_inv N e w" "dir_ok e w"
  shows "\<exists>s'. find_inode_id D name (dinode e w 0) s = Ok (map_option of_nat (dir_lookup e w name), s')
    \<and> fs_at D N dev_ok s' {iblock e 0} {} w"
proof -
  have root: "0 \<in> live_inodes e w" "is_dir (dinode e w 0)" using assms(3) by (simp_all add: dir_ok_def)
  have len: "length (icontent e w 0) = unat (di_size (dinode e w 0))"
    unfolding icontent_def by (rule inode_wf_raw(4) [OF fs_invD(3) [OF assms(2) root(1)] fs_at_lengths [OF assms(1)]])
  have "length (de_name DirEntry_empty) = 28" by (simp add: DirEntry_empty_def NAME_LENGTH_LIMIT_def)
  from find_loop_at [OF assms, of 0 _ _ name, simplified, OF refl this] root(2) len show ?thesis
    by (simp add: find_inode_id_def dir_lookup_def dir_pairs_def)
qed

lemma root_handle: "geometry N e \<Longrightarrow> root_inode e = handle e 0"
proof -
  assume geo: "geometry N e"
  have "0 < Bitmap_maximum (inode_bitmap e)" using geo by (simp add: geometry_def Bitmap_maximum_eq)
  from get_disk_inode_pos_eq [OF geo this] show ?thesis by (simp add: root_inode_def Inode_new_def handle_def)
qed

lemma pos_handle: "geometry N e \<Longrightarrow> i < Bitmap_maximum (inode_bitmap e) \<Longrightarrow>
    (let (b, off) = get_disk_inode_pos e (of_nat i) in Inode_new b off) = handle e i"
  using get_disk_inode_pos_eq [of N e i] by (simp add: Inode_new_def handle_def)

lemma Inode_find_at:
  assumes "efs_at D N dev_ok e s w"
  shows "\<exists>s'. Inode_find D e (root_inode e) name s = Ok (map_option (handle e) (dir_lookup e w name), s')
    \<and> efs_at D N dev_ok e s' w"
proof -
  from assms have at: "fs_at D N dev_ok s {} {} w" and inv: "fs_inv N e w" and dir: "dir_ok e w" by (simp_all add: efs_at_def)
  have root: "0 \<in> live_inodes e w" using dir by (simp add: dir_ok_def)
  note geo = fs_invD(1) [OF inv]
  let ?h = "\<lambda>k :: u32. let (b, off) = get_disk_inode_pos e k in Inode_new b off"
  have "?h (of_nat i) = handle e i" if "dir_lookup e w name = Some i" for i
    using pos_handle [OF geo live_inode_pos [OF geo]] lookup_live [OF dir that] by blast
  then have h: "map_option ?h (map_option of_nat (dir_lookup e w name)) = map_option (handle e) (dir_lookup e w name)"
    by (cases "dir_lookup e w name") simp_all
  have "\<exists>s'. Inode_find D e (handle e 0) name s = Ok (map_option (handle e) (dir_lookup e w name), s') \<and> fs_at D N dev_ok s' {} {} w"
    unfolding Inode_find_def
  proof (rule read_inode_at [OF at inv root])
    fix s1 assume "fs_at D N dev_ok s1 {iblock e 0} {} w"
    from find_inode_id_at [OF this inv dir, of name] h
    show "\<exists>s2. and_then (find_inode_id D name (dinode e w 0) s1) (\<lambda>(r, s). Ok (map_option ?h r, s))
        = Ok (map_option (handle e) (dir_lookup e w name), s2) \<and> fs_at D N dev_ok s2 {iblock e 0} {} w" by auto
  qed
  then show ?thesis using assms root_handle [OF geo] by (auto simp: efs_at_def)
qed

lemma ls_loop_at:
  assumes "fs_at D N dev_ok s {iblock e 0} {} w" "fs_inv N e w" "dir_ok e w"
    and "k + n = length (icontent e w 0) div DIR_ENTRY_SIZE" "length (de_name d) = 28"
  shows "\<exists>s'. ls_loop D (dinode e w 0) k n d acc s
      = Ok (acc @ map (fst \<circ> entry_pair) (drop k (entries (icontent e w 0))), s') \<and> fs_at D N dev_ok s' {iblock e 0} {} w"
  using assms(1,4,5)
proof (induction n arbitrary: s k d acc)
  case (Suc n)
  let ?c = "icontent e w 0" and ?d = "entry (icontent e w 0) k"
  have k: "k < length ?c div DIR_ENTRY_SIZE" using Suc.prems(2) by simp
  have root: "0 \<in> live_inodes e w" using assms(3) by (simp add: dir_ok_def)
  from read_entry_ok [OF Suc.prems(1) assms(2) root k Suc.prems(3)] obtain s1 buf where
    r: "DiskInode_read_at D (dinode e w 0) (DIR_ENTRY_SIZE * k) (DirEntry_as_bytes d) s = Ok ((DIR_ENTRY_SIZE, buf), s1)"
      "fs_at D N dev_ok s1 {iblock e 0} {} w" "DirEntry_of_bytes buf = ?d" "length (de_name ?d) = 28" by auto
  have "?d \<in> set (entries ?c)" using k by (auto simp: entries_def)
  then obtain nm where nm: "DirEntry_name ?d = Ok nm" using assms(3) by (auto simp: dir_ok_def is_ok_conv)
  have dr: "drop k (entries ?c) = ?d # drop (Suc k) (entries ?c)"
    using k by (subst Cons_nth_drop_Suc [symmetric]) (simp_all add: entries_def)
  from Suc.IH [OF r(2), of "Suc k" ?d "acc @ [nm]"] Suc.prems(2) r nm show ?case
    by (simp add: dr entry_pair_def entry_name_def)
qed simp

lemma Inode_ls_at:
  assumes "efs_at D N dev_ok e s w"
  shows "\<exists>s'. Inode_ls D (root_inode e) s = Ok (map fst (dir_pairs e w), s') \<and> efs_at D N dev_ok e s' w"
proof -
  from assms have at: "fs_at D N dev_ok s {} {} w" and inv: "fs_inv N e w" and dir: "dir_ok e w" by (simp_all add: efs_at_def)
  have root: "0 \<in> live_inodes e w" using dir by (simp add: dir_ok_def)
  have len: "length (icontent e w 0) = unat (di_size (dinode e w 0))"
    unfolding icontent_def by (rule inode_wf_raw(4) [OF fs_invD(3) [OF inv root] fs_at_lengths [OF at]])
  have "\<exists>s'. Inode_ls D (handle e 0) s = Ok (map fst (dir_pairs e w), s') \<and> fs_at D N dev_ok s' {} {} w"
    unfolding Inode_ls_def
  proof (rule read_inode_at [OF at inv root])
    fix s1 assume s1: "fs_at D N dev_ok s1 {iblock e 0} {} w"
    have "length (de_name DirEntry_empty) = 28" by (simp add: DirEntry_empty_def NAME_LENGTH_LIMIT_def)
    from ls_loop_at [OF s1 inv dir, of 0 _ _ "[]", simplified, OF refl this] len
    show "\<exists>s2. ls_loop D (dinode e w 0) 0 (unat (di_size (dinode e w 0)) div DIR_ENTRY_SIZE) DirEntry_empty [] s1
        = Ok (map fst (dir_pairs e w), s2) \<and> fs_at D N dev_ok s2 {iblock e 0} {} w"
      by (simp add: dir_pairs_def)
  qed
  then show ?thesis using assms root_handle [OF fs_invD(1) [OF inv]] by (auto simp: efs_at_def)
qed

end

section \<open>Operations on a file refine updates of the abstract file system\<close>

lemma dir_pairs_cong: "icontent e w' 0 = icontent e w 0 \<Longrightarrow> dir_pairs e w' = dir_pairs e w"
  by (simp add: dir_pairs_def)

lemma file_update:
  assumes dir: "dir_ok e w" and name: "dir_lookup e w name = Some i"
    and live: "live_inodes e w' = live_inodes e w" and same: "others_same e w w' i"
  shows "dir_ok e w'" "dir_lookup e w' = dir_lookup e w" "files e w' = (files e w)(name \<mapsto> icontent e w' i)"
proof -
  note i = lookup_live [OF dir name]
  have root: "0 \<in> live_inodes e w" using dir by (simp add: dir_ok_def)
  have zero: "dinode e w' 0 = dinode e w 0" "icontent e w' 0 = icontent e w 0"
    using same root i unfolding others_same_def by auto
  note pairs = dir_pairs_cong [OF zero(2)]
  show "dir_ok e w'" using dir unfolding dir_ok_def pairs live zero .
  show lk: "dir_lookup e w' = dir_lookup e w" unfolding dir_lookup_def pairs ..
  show "files e w' = (files e w)(name \<mapsto> icontent e w' i)"
  proof
    fix nm
    show "files e w' nm = ((files e w)(name \<mapsto> icontent e w' i)) nm"
    proof (cases "dir_lookup e w nm")
      case None
      with name have "nm \<noteq> name" by auto
      with None show ?thesis by (simp add: files_def lk)
    next
      case (Some j)
      show ?thesis
      proof (cases "nm = name")
        case True
        then show ?thesis using name by (simp add: files_def lk)
      next
        case False
        have "j \<noteq> i"
        proof
          assume "j = i"
          with Some name have "(nm, i) \<in> set (dir_pairs e w)" "(name, i) \<in> set (dir_pairs e w)"
            unfolding dir_lookup_def by (auto dest: map_of_SomeD)
          moreover have "distinct (map snd (dir_pairs e w))" using dir by (simp add: dir_ok_def)
          ultimately have "nm = name" by (metis (mono_tags, lifting) distinct_map inj_onD prod.inject snd_conv)
          with False show False by simp
        qed
        with same lookup_live [OF dir Some] have "icontent e w' j = icontent e w j" unfolding others_same_def by blast
        with Some False show ?thesis by (simp add: files_def lk)
      qed
    qed
  qed
qed

section \<open>Creating a file\<close>

text \<open>Room for one more directory entry.\<close>

definition entry_room :: "nat \<Rightarrow> EasyFileSystem \<Rightarrow> disk \<Rightarrow> bool" where
  "entry_room N e w \<longleftrightarrow> (let n = length (icontent e w 0) in
     live_inodes e w \<noteq> {..<Bitmap_maximum (inode_bitmap e)} \<and> n + DIR_ENTRY_SIZE \<le> max_file_size
     \<and> blocks_for (n + DIR_ENTRY_SIZE) - blocks_for n \<le> card (data_free N e w))"

lemma dir_append:
  assumes dir: "dir_ok e w" and c: "icontent e w' 0 = icontent e w 0 @ DirEntry_as_bytes d"
    and t: "di_type (dinode e w' 0) = di_type (dinode e w 0)"
    and d: "DirEntry_name d = Ok name" "unat (de_inode_number d) = k" "length (de_name d) = 28"
    and live: "live_inodes e w' = insert k (live_inodes e w)" "k \<notin> live_inodes e w"
    and fresh: "dir_lookup e w name = None" and content: "icontent e w' k = []"
    and same: "\<forall>j \<in> live_inodes e w. j \<noteq> 0 \<longrightarrow> icontent e w' j = icontent e w j"
  shows "dir_ok e w'" "dir_pairs e w' = dir_pairs e w @ [(name, k)]" "files e w' = (files e w)(name \<mapsto> [])"
proof -
  have mod: "length (icontent e w 0) mod DIR_ENTRY_SIZE = 0" and root: "0 \<in> live_inodes e w"
    and sub: "set (map snd (dir_pairs e w)) \<subseteq> live_inodes e w - {0}" using dir unfolding dir_ok_def by blast+
  have len: "length (DirEntry_as_bytes d) = DIR_ENTRY_SIZE" by (rule length_DirEntry_as_bytes [OF d(3)])
  have es: "entries (icontent e w' 0) = entries (icontent e w 0) @ [d]"
    unfolding c entries_append [OF mod len] DirEntry_roundtrip [OF d(3)] ..
  have pair: "entry_pair d = (name, k)" by (simp add: entry_pair_def entry_name_def d)
  show pairs: "dir_pairs e w' = dir_pairs e w @ [(name, k)]" by (simp add: dir_pairs_def es pair)
  have nm: "name \<notin> set (map fst (dir_pairs e w))" using fresh by (simp add: dir_lookup_def map_of_eq_None_iff)
  have kn: "k \<notin> set (map snd (dir_pairs e w))" "k \<noteq> 0" using sub live(2) root by (blast, metis)
  have "is_dir (dinode e w' 0)" using dir t by (simp add: dir_ok_def is_dir_def)
  moreover have "length (icontent e w' 0) mod DIR_ENTRY_SIZE = 0" using mod len by (simp add: c)
  moreover have "\<forall>x \<in> set (entries (icontent e w' 0)). is_ok (DirEntry_name x)"
    using dir d(1) by (simp add: es dir_ok_def)
  moreover have "set (map snd (dir_pairs e w')) \<subseteq> live_inodes e w' - {0}"
    using sub kn(2) unfolding pairs live(1) by auto
  ultimately show "dir_ok e w'"
    using dir nm kn root unfolding dir_ok_def pairs live(1) by simp
  show "files e w' = (files e w)(name \<mapsto> [])"
  proof
    fix x
    show "files e w' x = ((files e w)(name \<mapsto> [])) x"
    proof (cases "dir_lookup e w x")
      case None
      then show ?thesis using content by (simp add: files_def dir_lookup_def pairs map_add_def)
    next
      case (Some j)
      from lookup_live [OF dir Some] same have j: "icontent e w' j = icontent e w j" by simp
      have "x \<noteq> name" using Some fresh by auto
      with Some j show ?thesis by (simp add: files_def dir_lookup_def pairs map_add_def)
    qed
  qed
qed

context block_device
begin

lemma alloc_inode_at:
  assumes at: "fs_at D N dev_ok s {} {} w" and geo: "geometry N e"
    and free: "live_inodes e w \<noteq> {..<Bitmap_maximum (inode_bitmap e)}"
  shows "\<exists>s' w' k. alloc_inode D e s = Ok (of_nat k, s') \<and> fs_at D N dev_ok s' {} {} w'
    \<and> k < Bitmap_maximum (inode_bitmap e) \<and> k \<notin> live_inodes e w \<and> {..<k} \<subseteq> live_inodes e w
    \<and> live_inodes e w' = insert k (live_inodes e w) \<and> (\<forall>b. b \<notin> bm_blocks (inode_bitmap e) \<longrightarrow> w' b = w b)"
proof -
  let ?bm = "inode_bitmap e"
  have sub: "bm_blocks ?bm \<subseteq> {..<N}" using geometry_blocks(1,4,5,6) [OF geo] by fastforce
  obtain r w' where al: "bm_alloc ?bm w = (r, w')" by (cases "bm_alloc ?bm w")
  note spec = bm_alloc_spec [OF fs_at_bm_ok [OF at sub] al]
  from spec free obtain k where k: "r = Some k" by (cases r) (auto simp: live_inodes_def)
  with spec have kk: "k < Bitmap_maximum ?bm" "k \<notin> bm_bits ?bm w" "{..<k} \<subseteq> bm_bits ?bm w"
    "bm_bits ?bm w' = insert k (bm_bits ?bm w)" "\<forall>i. i \<notin> bm_blocks ?bm \<longrightarrow> w' i = w i" by auto
  have "card {} < BLOCK_CACHE_SIZE" by (simp add: BLOCK_CACHE_SIZE_def)
  from Bitmap_alloc_at [OF at empty_subsetI this Int_empty_right sub] al k obtain s' where
    "Bitmap_alloc D ?bm s = Ok (Some k, s')" "fs_at D N dev_ok s' {} {} w'" by auto
  with kk show ?thesis
    by (intro exI [of _ s'] exI [of _ w'] exI [of _ k]) (simp add: alloc_inode_def live_inodes_def)
qed

text \<open>Initialising the slot of an inode.\<close>

lemma init_inode_at:
  assumes at: "fs_at D N dev_ok s {} {} w" and geo: "geometry N e" and k: "k < Bitmap_maximum (inode_bitmap e)"
  shows "\<exists>s' bs. bc_modify D (iblock e k) (ioffset k) DISK_INODE_SIZE (\<lambda>bs s.
        Ok ((), DiskInode_bytes (DiskInode_initialize t (DiskInode_of_bytes bs)) bs, s)) s = Ok ((), s')
    \<and> fs_at D N dev_ok s' {} {} (w(iblock e k := splice (ioffset k) bs (w (iblock e k)))) \<and> length bs = 128
    \<and> di_size (DiskInode_of_bytes bs) = 0 \<and> length (direct (DiskInode_of_bytes bs)) = 28 \<and> di_type (DiskInode_of_bytes bs) = t"
proof -
  let ?b = "iblock e k" and ?old = "take DISK_INODE_SIZE (drop (ioffset k) (w (iblock e k)))"
  have b: "?b < N" by (rule geometry_iblock(4) [OF geo k])
  have old: "length ?old = 128" using fs_at_lengths [OF at] b ioffset_bound [of k] by (simp add: DISK_INODE_SIZE_def)
  let ?di = "DiskInode_initialize t (DiskInode_of_bytes ?old)"
  have l28: "length (direct ?di) = 28" by (simp add: DiskInode_initialize_def INODE_DIRECT_COUNT_def)
  note rt = DiskInode_roundtrip [OF l28] and len = length_DiskInode_bytes [OF l28 old]
  have off: "ioffset k + DISK_INODE_SIZE \<le> BLOCK_SIZE" using ioffset_bound [of k] by (simp add: DISK_INODE_SIZE_def BLOCK_SIZE_def)
  have "\<exists>s'. bc_modify D ?b (ioffset k) DISK_INODE_SIZE (\<lambda>bs s.
        Ok ((), DiskInode_bytes (DiskInode_initialize t (DiskInode_of_bytes bs)) bs, s)) s = Ok ((), s')
    \<and> fs_at D N dev_ok s' {} {} (w(?b := splice (ioffset k) (DiskInode_bytes ?di ?old) (w ?b)))"
    by (rule bc_modify_rule [OF at b _ _ _ off]) (use len in \<open>simp_all add: BLOCK_CACHE_SIZE_def DISK_INODE_SIZE_def\<close>)
  then obtain s' where "bc_modify D ?b (ioffset k) DISK_INODE_SIZE (\<lambda>bs s.
        Ok ((), DiskInode_bytes (DiskInode_initialize t (DiskInode_of_bytes bs)) bs, s)) s = Ok ((), s')"
    "fs_at D N dev_ok s' {} {} (w(?b := splice (ioffset k) (DiskInode_bytes ?di ?old) (w ?b)))" by blast
  moreover have "di_size ?di = 0" "di_type ?di = t" by (simp_all add: DiskInode_initialize_def)
  ultimately show ?thesis using len rt l28 by (intro exI [of _ s'] exI [of _ "DiskInode_bytes ?di ?old"]) simp
qed

lemma new_inode_at:
  assumes at: "fs_at D N dev_ok s {} {} w" and inv: "fs_inv N e w"
    and free: "live_inodes e w \<noteq> {..<Bitmap_maximum (inode_bitmap e)}"
  shows "\<exists>k s1 s' w'. alloc_inode D e s = Ok (of_nat k, s1)
    \<and> bc_modify D (iblock e k) (ioffset k) DISK_INODE_SIZE (\<lambda>bs s.
        Ok ((), DiskInode_bytes (DiskInode_initialize t (DiskInode_of_bytes bs)) bs, s)) s1 = Ok ((), s')
    \<and> fs_at D N dev_ok s' {} {} w' \<and> fs_inv N e w' \<and> k < Bitmap_maximum (inode_bitmap e) \<and> k \<notin> live_inodes e w
    \<and> live_inodes e w' = insert k (live_inodes e w) \<and> icontent e w' k = [] \<and> di_type (dinode e w' k) = t \<and> {..<k} \<subseteq> live_inodes e w \<and> w' 0 = w 0
    \<and> (\<forall>j \<in> live_inodes e w. dinode e w' j = dinode e w j \<and> icontent e w' j = icontent e w j)
    \<and> data_free N e w' = data_free N e w"
proof -
  note D = fs_invD [OF inv]
  note geo = geometry_blocks [OF D(1)]
  from alloc_inode_at [OF at D(1) free] obtain s1 w1 k where
    a: "alloc_inode D e s = Ok (of_nat k, s1)" "fs_at D N dev_ok s1 {} {} w1" "k < Bitmap_maximum (inode_bitmap e)"
      "k \<notin> live_inodes e w" "live_inodes e w1 = insert k (live_inodes e w)" "{..<k} \<subseteq> live_inodes e w" "\<forall>b. b \<notin> bm_blocks (inode_bitmap e) \<longrightarrow> w1 b = w b" by blast
  note pos = geometry_iblock [OF D(1) a(3)]
  from init_inode_at [OF a(2) D(1) a(3), of t] obtain s2 bs where
    i: "bc_modify D (iblock e k) (ioffset k) DISK_INODE_SIZE (\<lambda>bs s.
        Ok ((), DiskInode_bytes (DiskInode_initialize t (DiskInode_of_bytes bs)) bs, s)) s1 = Ok ((), s2)"
      "fs_at D N dev_ok s2 {} {} (w1(iblock e k := splice (ioffset k) bs (w1 (iblock e k))))" "length bs = 128"
      "di_size (DiskInode_of_bytes bs) = 0" "length (direct (DiskInode_of_bytes bs)) = 28" "di_type (DiskInode_of_bytes bs) = t" by blast
  define w2 where "w2 = w1(iblock e k := splice (ioffset k) bs (w1 (iblock e k)))"
  have high: "w1 b = w b" if "ia_start e \<le> b" for b using a(7) geo(1) that by (meson lessThan_iff not_le subsetD)
  have change: "inode_change N e w w2 k bs"
    unfolding inode_change_def using a(3) i(3) fs_at_lengths [OF i(2)] high pos(1) by (simp add: w2_def)
  have keep: "\<forall>b. start_block_id (data_bitmap e) \<le> b \<longrightarrow> b < N \<longrightarrow> w2 b = w b"
    using high geo(4) pos(2) by (simp add: w2_def)
  have live: "live_inodes e w2 = insert k (live_inodes e w)"
    using bm_bits_cong [of "inode_bitmap e" w2 w1] pos(6) a(5) by (auto simp: live_inodes_def w2_def)
  note new = fs_inv_new [OF inv change a(4) live i(4,5) keep]
  have "di_type (dinode e w2 k) = t" using change_this [OF inv change] i(6) by simp
  moreover have "w2 0 = w 0" using a(7) geo(7,8) pos(1) by (simp add: w2_def)
  moreover have "data_used e w2 = data_used e w"
    using keep geo(2,6) by (intro data_used_cong) (auto simp: bm_blocks_def)
  then have "data_free N e w2 = data_free N e w" by (simp add: data_free_def)
  moreover have "fs_at D N dev_ok s2 {} {} w2" using i(2) by (simp add: w2_def)
  ultimately show ?thesis using a(1,3,4,6) i(1) new live by blast
qed

lemma append_entry_at:
  assumes at: "fs_at D N dev_ok s {} {} w" and inv: "fs_inv N e w" and root: "0 \<in> live_inodes e w"
    and m: "length (icontent e w 0) + DIR_ENTRY_SIZE \<le> max_file_size"
    and room: "blocks_for (length (icontent e w 0) + DIR_ENTRY_SIZE) - blocks_for (length (icontent e w 0)) \<le> card (data_free N e w)"
    and d: "DirEntry_new name n = Ok d" "length (de_name d) = 28"
  shows "\<exists>s' w'. modify_disk_inode D (handle e 0) (\<lambda>root s.
      let offset = di_size root; new_size = di_size root + of_nat DIR_ENTRY_SIZE
      in and_then (Inode_increase_size D e new_size root s) (\<lambda>(root, s).
         and_then (DirEntry_new name n) (\<lambda>dirent.
         and_then (DiskInode_write_at D root (unat offset) (DirEntry_as_bytes dirent) s) (\<lambda>(_, s).
         Ok ((), root, s))))) s = Ok ((), s')
    \<and> fs_at D N dev_ok s' {} {} w' \<and> fs_inv N e w' \<and> live_inodes e w' = live_inodes e w
    \<and> icontent e w' 0 = icontent e w 0 @ DirEntry_as_bytes d \<and> di_type (dinode e w' 0) = di_type (dinode e w 0)
    \<and> others_same e w w' 0
    \<and> card (data_free N e w') + (blocks_for (length (icontent e w 0) + DIR_ENTRY_SIZE) - blocks_for (length (icontent e w 0)))
        = card (data_free N e w)"
proof -
  let ?di = "dinode e w 0" and ?c = "icontent e w 0" and ?b = "DirEntry_as_bytes d"
  have lb: "length ?b = DIR_ENTRY_SIZE" by (rule length_DirEntry_as_bytes [OF d(2)])
  have csz: "length ?c = unat (di_size ?di)"
    unfolding icontent_def by (rule inode_wf_raw(4) [OF fs_invD(3) [OF inv root] fs_at_lengths [OF at]])
  have fw: "file_write ?c (length ?c) ?b = ?c @ ?b" by (simp add: file_write_def splice_def)
  have ns: "di_size ?di + of_nat DIR_ENTRY_SIZE = of_nat (length ?c + DIR_ENTRY_SIZE)" unfolding csz by simp
  let ?k = "blocks_for (length ?c + DIR_ENTRY_SIZE) - blocks_for (length ?c)"
  let ?P = "\<lambda>r di' w2. di_type di' = di_type ?di \<and> file_bytes w2 di' = ?c @ ?b \<and> card (data_free N e w2) + ?k = card (data_free N e w)"
  let ?f = "\<lambda>root s. let offset = di_size root; new_size = di_size root + of_nat DIR_ENTRY_SIZE
      in and_then (Inode_increase_size D e new_size root s) (\<lambda>(root, s).
         and_then (DirEntry_new name n) (\<lambda>dirent.
         and_then (DiskInode_write_at D root (unat offset) (DirEntry_as_bytes dirent) s) (\<lambda>(_, s).
         Ok ((), root, s))))"
  have "\<exists>r di' s' w' w2. modify_disk_inode D (handle e 0) ?f s = Ok (r, s') \<and> fs_at D N dev_ok s' {} {} w'
    \<and> fs_inv N e w' \<and> live_inodes e w' = live_inodes e w \<and> dinode e w' 0 = di' \<and> icontent e w' 0 = file_bytes w2 di'
    \<and> others_same e w w' 0 \<and> data_used e w' = data_used e w2 \<and> ?P r di' w2"
  proof (rule modify_inode_at [OF at inv root])
    fix s1 assume s1: "fs_at D N dev_ok s1 {iblock e 0} {iblock e 0} w"
    from grow_write_at [OF s1 inv root, of "length ?c" ?b] m room obtain di2 s2 s3 w3 where
      p: "Inode_increase_size D e (of_nat (length ?c + DIR_ENTRY_SIZE)) ?di s1 = Ok (di2, s2)"
        "DiskInode_write_at D di2 (length ?c) ?b s2 = Ok (length ?b, s3)"
      and q: "fs_at D N dev_ok s3 {iblock e 0} {iblock e 0} w3" "inode_step N e w ?di w3 di2" "?P () di2 w3"
      unfolding lb fw by blast
    have "?f ?di s1 = Ok ((), di2, s3)"
      unfolding Let_def ns using p d(1) by (simp add: csz)
    with q show "\<exists>r di' s2 w2. ?f ?di s1 = Ok (r, di', s2) \<and> fs_at D N dev_ok s2 {iblock e 0} {iblock e 0} w2
        \<and> inode_step N e w ?di w2 di' \<and> ?P r di' w2" by blast
  qed
  then obtain r di' s' w' w2 where
    res: "modify_disk_inode D (handle e 0) ?f s = Ok (r, s')" "fs_at D N dev_ok s' {} {} w'" "fs_inv N e w'"
      "live_inodes e w' = live_inodes e w" "dinode e w' 0 = di'" "icontent e w' 0 = file_bytes w2 di'" "others_same e w w' 0"
      "data_used e w' = data_used e w2" "?P r di' w2" by blast
  have "data_free N e w' = data_free N e w2" using res(8) by (simp add: data_free_def)
  with res show ?thesis by (intro exI [of _ s'] exI [of _ w']) simp
qed

text \<open>\<^verbatim>\<open>create\<close> of a name that exists changes nothing; of a new name it adds an empty file.\<close>

lemma create_lookup_at:
  assumes at: "fs_at D N dev_ok s {} {} w" and inv: "fs_inv N e w" and dir: "dir_ok e w"
  shows "\<exists>s'. read_disk_inode D (handle e 0) (\<lambda>root s. and_then (assert_that (is_dir root)) (\<lambda>_. find_inode_id D name root s)) s
      = Ok (map_option of_nat (dir_lookup e w name), s') \<and> fs_at D N dev_ok s' {} {} w"
proof (rule read_inode_at [OF at inv])
  show "0 \<in> live_inodes e w" using dir by (simp add: dir_ok_def)
  fix s1 assume "fs_at D N dev_ok s1 {iblock e 0} {} w"
  from find_inode_id_at [OF this inv dir, of name] dir
  show "\<exists>s2. and_then (assert_that (is_dir (dinode e w 0))) (\<lambda>_. find_inode_id D name (dinode e w 0) s1)
      = Ok (map_option of_nat (dir_lookup e w name), s2) \<and> fs_at D N dev_ok s2 {iblock e 0} {} w"
    by (simp add: dir_ok_def)
qed

lemma Inode_create_exists_at:
  assumes "efs_at D N dev_ok e s w" "dir_lookup e w name \<noteq> None"
  shows "\<exists>s'. Inode_create D e (root_inode e) name s = Ok (None, s') \<and> efs_at D N dev_ok e s' w"
proof -
  from assms have at: "fs_at D N dev_ok s {} {} w" and inv: "fs_inv N e w" and dir: "dir_ok e w" by (simp_all add: efs_at_def)
  from create_lookup_at [OF at inv dir, of name] assms show ?thesis
    unfolding root_handle [OF fs_invD(1) [OF inv]] by (auto simp: Inode_create_def efs_at_def)
qed

lemma Inode_create_at:
  assumes efs: "efs_at D N dev_ok e s w" and new: "dir_lookup e w name = None"
    and name: "length name \<le> NAME_LENGTH_LIMIT" "utf8_valid name" "0 \<notin> set name" and room: "entry_room N e w"
  shows "\<exists>k s' w'. Inode_create D e (root_inode e) name s = Ok (Some (handle e k), s') \<and> efs_at D N dev_ok e s' w'
    \<and> dir_pairs e w' = dir_pairs e w @ [(name, k)] \<and> files e w' = (files e w)(name \<mapsto> [])
    \<and> k \<notin> live_inodes e w \<and> live_inodes e w' = insert k (live_inodes e w)
    \<and> (\<forall>j < N. read_block D j (device s') = Ok (w' j))
    \<and> card (data_free N e w') + (blocks_for (length (icontent e w 0) + DIR_ENTRY_SIZE) - blocks_for (length (icontent e w 0)))
        = card (data_free N e w)"
proof -
  from efs have at: "fs_at D N dev_ok s {} {} w" and inv: "fs_inv N e w" and dir: "dir_ok e w" by (simp_all add: efs_at_def)
  note geo = fs_invD(1) [OF inv]
  have root: "0 \<in> live_inodes e w" using dir by (simp add: dir_ok_def)
  let ?n = "length (icontent e w 0)"
  from room have free: "live_inodes e w \<noteq> {..<Bitmap_maximum (inode_bitmap e)}" and m: "?n + DIR_ENTRY_SIZE \<le> max_file_size"
    and cap: "blocks_for (?n + DIR_ENTRY_SIZE) - blocks_for ?n \<le> card (data_free N e w)" unfolding entry_room_def Let_def by blast+
  from create_lookup_at [OF at inv dir, of name] new obtain s0 where
    s0: "read_disk_inode D (handle e 0) (\<lambda>root s. and_then (assert_that (is_dir root)) (\<lambda>_. find_inode_id D name root s)) s = Ok (None, s0)"
      "fs_at D N dev_ok s0 {} {} w" by auto
  from new_inode_at [OF s0(2) inv free, of File] obtain k s1 s2 w1 where
    a: "alloc_inode D e s0 = Ok (of_nat k, s1)"
      "bc_modify D (iblock e k) (ioffset k) DISK_INODE_SIZE (\<lambda>bs s.
        Ok ((), DiskInode_bytes (DiskInode_initialize File (DiskInode_of_bytes bs)) bs, s)) s1 = Ok ((), s2)"
      "fs_at D N dev_ok s2 {} {} w1" "fs_inv N e w1" "k < Bitmap_maximum (inode_bitmap e)" "k \<notin> live_inodes e w"
      "live_inodes e w1 = insert k (live_inodes e w)" "icontent e w1 k = []"
      "\<forall>j \<in> live_inodes e w. dinode e w1 j = dinode e w j \<and> icontent e w1 j = icontent e w j" "data_free N e w1 = data_free N e w" "w1 0 = w 0"
    by blast
  have zero: "dinode e w1 0 = dinode e w 0" "icontent e w1 0 = icontent e w 0" and root1: "0 \<in> live_inodes e w1"
    using a(7,9) root by simp_all
  have k0: "k \<noteq> 0" using a(6) root by metis
  obtain d where d: "DirEntry_new name (of_nat k) = Ok d" "DirEntry_name d = Ok name" "de_inode_number d = of_nat k" "length (de_name d) = 28"
    using DirEntry_new_name [OF name] by blast
  note pos = get_disk_inode_pos_eq [OF geo a(5)]
  from append_entry_at [OF a(3,4) root1 _ _ d(1,4)] m cap obtain s3 w2 where
    b: "modify_disk_inode D (handle e 0) (\<lambda>root s.
      let offset = di_size root; new_size = di_size root + of_nat DIR_ENTRY_SIZE
      in and_then (Inode_increase_size D e new_size root s) (\<lambda>(root, s).
         and_then (DirEntry_new name (of_nat k)) (\<lambda>dirent.
         and_then (DiskInode_write_at D root (unat offset) (DirEntry_as_bytes dirent) s) (\<lambda>(_, s).
         Ok ((), root, s))))) s2 = Ok ((), s3)"
      "fs_at D N dev_ok s3 {} {} w2" "fs_inv N e w2" "live_inodes e w2 = live_inodes e w1"
      "icontent e w2 0 = icontent e w 0 @ DirEntry_as_bytes d" "di_type (dinode e w2 0) = di_type (dinode e w 0)" "others_same e w1 w2 0"
      "card (data_free N e w2) + (blocks_for (?n + DIR_ENTRY_SIZE) - blocks_for ?n) = card (data_free N e w)"
    unfolding zero a(10) by blast
  from sync_all_ok [OF b(2)] obtain s4 where
    c: "block_cache_sync_all D s3 = Ok s4" "fs_at D N dev_ok s4 {} {} w2" "\<forall>j < N. read_block D j (device s4) = Ok (w2 j)" by blast
  have "Inode_create D e (handle e 0) name s = Ok (Some (Inode_new (of_nat (iblock e k)) (ioffset k)), s4)"
    unfolding Inode_create_def using s0(1) a(1,2) b(1) c(1) pos by simp
  then have run: "Inode_create D e (root_inode e) name s = Ok (Some (handle e k), s4)"
    using pos(2) by (simp add: root_handle [OF geo] Inode_new_def handle_def)
  have live: "live_inodes e w2 = insert k (live_inodes e w)" using b(4) a(7) by simp
  have "icontent e w2 k = []" "\<forall>j \<in> live_inodes e w. j \<noteq> 0 \<longrightarrow> icontent e w2 j = icontent e w j"
    using b(7) a(7-9) k0 unfolding others_same_def by auto
  moreover have "super_ok e w2" using efs super_ok_cong [of w2 w e] b(7) a(11) by (simp add: others_same_def efs_at_def)
  ultimately have "efs_at D N dev_ok e s4 w2" "dir_pairs e w2 = dir_pairs e w @ [(name, k)]" "files e w2 = (files e w)(name \<mapsto> [])"
    using dir_append [OF dir b(5,6) d(2) _ d(4) live a(6) new] pos(3) d(3) c b(3) by (simp_all add: efs_at_def)
  with run a(6) live c(3) b(8) show ?thesis by blast
qed

end

end
