(* ===== verification/Format.thy ===== *)
theory Format
  imports Directory
begin

text \<open>
  Formatting and opening a disk: \<^verbatim>\<open>EasyFileSystem::create\<close> leaves an empty file system that satisfies
  the invariant and is already on the device, and \<^verbatim>\<open>EasyFileSystem::open\<close> finds again the file system
  object of a disk whose super block is intact.
\<close>

section \<open>The geometry that \<^verbatim>\<open>create\<close> computes\<close>

text \<open>The sizes that can be formatted: no 32-bit computation wraps and the inode area fits.\<close>

definition format_ok :: "u32 \<Rightarrow> u32 \<Rightarrow> bool" where
  "format_ok tb ibm \<longleftrightarrow> 0 < unat ibm \<and> unat ibm < 2 ^ 20 \<and> 1 + 1025 * unat ibm \<le> unat tb \<and> unat tb + 4096 < 2 ^ 32"

text \<open>The number of data blocks of a formatted disk.\<close>

definition fs_capacity :: "u32 \<Rightarrow> u32 \<Rightarrow> nat" where
  "fs_capacity tb ibm = (let T = unat tb - 1 - 1025 * unat ibm in T - (T + 4096) div 4097)"

lemma inode_area_size:
  assumes "format_ok tb ibm"
  shows "unat (of_nat ((Bitmap_maximum (Bitmap_new 1 (unat ibm)) * DISK_INODE_SIZE + BLOCK_SIZE - 1) div BLOCK_SIZE) :: u32) = 1024 * unat ibm"
proof -
  have "(Bitmap_maximum (Bitmap_new 1 (unat ibm)) * DISK_INODE_SIZE + BLOCK_SIZE - 1) div BLOCK_SIZE = 1024 * unat ibm"
    by (simp add: Bitmap_maximum_eq Bitmap_new_def DISK_INODE_SIZE_def BLOCK_SIZE_def)
  moreover have "1024 * unat ibm < 2 ^ 32" using assms by (simp add: format_ok_def)
  ultimately show ?thesis by (simp only: unat_of_nat) simp
qed

lemma create_geometry:
  fixes ia :: u32
  assumes ok: "format_ok tb ibm" and ia: "unat ia = 1024 * unat ibm"
  defines "T \<equiv> tb - 1 - (ibm + ia)"
  defines "dbm \<equiv> (T + of_nat BLOCK_BITS) div (of_nat BLOCK_BITS + 1)"
  shows "geometry (unat tb) (efs_of_super (SuperBlock_initialize tb ibm ia dbm da))"
    "unat tb - da_start (efs_of_super (SuperBlock_initialize tb ibm ia dbm da)) = fs_capacity tb ibm"
proof -
  have bounds: "0 < unat ibm" "unat ibm < 2 ^ 20" "1 + 1025 * unat ibm \<le> unat tb" "unat tb + 4096 < 2 ^ 32"
    using ok by (simp_all add: format_ok_def)
  have tot: "unat (ibm + ia) = 1025 * unat ibm"
    using ia bounds by (subst unat_add_no_wrap) simp_all
  have t1: "unat (tb - 1) = unat tb - 1" using bounds by (subst unat_sub) (simp_all add: word_le_nat_alt)
  have T: "unat T = unat tb - 1 - 1025 * unat ibm"
    unfolding T_def using bounds tot t1 by (subst unat_sub) (simp_all add: word_le_nat_alt)
  have bb: "(of_nat BLOCK_BITS :: u32) = 4096" by (simp add: BLOCK_BITS_def BLOCK_SIZE_def)
  have "unat (T + 4096) = unat T + 4096" using T bounds by (subst unat_add_no_wrap) simp_all
  then have dbm: "unat dbm = (unat T + 4096) div 4097" unfolding dbm_def bb by (simp add: unat_div)
  have le: "unat dbm \<le> unat T" unfolding dbm by (cases "unat T = 0") linarith+
  have cover: "unat T \<le> 4097 * unat dbm" unfolding dbm by linarith
  have ias: "unat (1 + ibm) = 1 + unat ibm" using bounds by (subst unat_add_no_wrap) simp_all
  have s1: "unat (1 + (ibm + ia)) = 1 + 1025 * unat ibm" using bounds tot by (subst unat_add_no_wrap) simp_all
  have s2: "unat (1 + (ibm + ia) + dbm) = 1 + 1025 * unat ibm + unat dbm"
    using s1 le T bounds by (subst unat_add_no_wrap) simp_all
  have fits: "1 + 1025 * unat ibm + unat dbm \<le> unat tb" "unat tb - (1 + 1025 * unat ibm + unat dbm) \<le> unat dbm * 4096"
    using le cover T bounds by linarith+
  show "unat tb - da_start (efs_of_super (SuperBlock_initialize tb ibm ia dbm da)) = fs_capacity tb ibm"
    using s2 T dbm by (simp add: da_start_def efs_of_super_def SuperBlock_initialize_def fs_capacity_def Let_def)
  show "geometry (unat tb) (efs_of_super (SuperBlock_initialize tb ibm ia dbm da))"
    unfolding geometry_def efs_of_super_def Let_def Bitmap_maximum_eq ia_start_def da_start_def
    using bounds ias s1 s2 fits by (simp add: SuperBlock_initialize_def Bitmap_new_def add.assoc)
qed

text \<open>A zeroed disk with a super block has no inode and no data block in use.\<close>

lemma bm_bits_zero:
  assumes "\<forall>b \<in> bm_blocks bm. w b = replicate 512 0"
  shows "bm_bits bm w = {}"
proof -
  have "bitmap_block w b = replicate 64 0" if "b \<in> bm_blocks bm" for b
    using assms that by (simp add: bitmap_block_def le_words_def le_nat_replicate_0 map_replicate_const)
  then have "\<not> bm_bit w bm k" if "k < Bitmap_maximum bm" for k
    using that by (auto simp: bm_bit_div_mod Bitmap_maximum_eq bm_blocks_def blk_bit_def less_mult_imp_div_less)
  then show ?thesis by (auto simp: bm_bits_def)
qed

lemma fs_inv_zero:
  assumes geo: "geometry N e" and zero: "\<forall>b < N. 0 < b \<longrightarrow> w b = replicate 512 0" and len: "length (w 0) = 512"
  shows "fs_inv N e w" "live_inodes e w = {}" "data_used e w = {}"
proof -
  note g = geometry_blocks [OF geo]
  have "\<forall>b \<in> bm_blocks (inode_bitmap e). w b = replicate 512 0" using zero g(1,4-7) by (metis gr0I lessThan_iff order_less_le_trans subsetD)
  then show live: "live_inodes e w = {}" unfolding live_inodes_def by (rule bm_bits_zero)
  have "\<forall>b \<in> bm_blocks (data_bitmap e). w b = replicate 512 0"
  proof
    fix b assume b: "b \<in> bm_blocks (data_bitmap e)"
    then have "b < N" "0 < b" using g by (auto simp: bm_blocks_def)
    then show "w b = replicate 512 0" using zero by blast
  qed
  then show used: "data_used e w = {}" unfolding data_used_def using bm_bits_zero by blast
  have "\<forall>b < N. length (w b) = 512" using zero len by (metis gr0I length_replicate)
  moreover have "w b = replicate 512 0" if "b \<in> data_free N e w" for b
    using that zero g(4,5,8) by (auto simp: data_free_def)
  ultimately show "fs_inv N e w" unfolding fs_inv_def live used using geo by simp
qed

context block_device
begin

lemma super_block_at:
  assumes at: "fs_at D N dev_ok s {} {} w" and n: "0 < N"
  shows "\<exists>s'. bc_modify D 0 0 SUPER_BLOCK_SIZE (\<lambda>_ s. Ok ((), SuperBlock_bytes sb, s)) s = Ok ((), s')
    \<and> fs_at D N dev_ok s' {} {} (w(0 := splice 0 (SuperBlock_bytes sb) (w 0)))"
  by (rule bc_modify_rule [OF at n]) (simp_all add: BLOCK_CACHE_SIZE_def SUPER_BLOCK_SIZE_def BLOCK_SIZE_def)

lemma efs_open_at:
  assumes at: "fs_at D N dev_ok s {} {} w" and n: "0 < N" and super: "super_ok e w"
  shows "\<exists>s'. efs_open D s = Ok (e, s') \<and> fs_at D N dev_ok s' {} {} w"
  unfolding efs_open_def
  by (rule bc_read_rule [OF at n])
    (use super in \<open>simp_all add: BLOCK_CACHE_SIZE_def SUPER_BLOCK_SIZE_def BLOCK_SIZE_def super_ok_def Let_def\<close>)

lemma efs_create_at:
  assumes at: "fs_at D N dev_ok s {} {} w0" and N: "unat tb = N" and ok: "format_ok tb ibm"
  shows "\<exists>e s' w. efs_create D tb ibm s = Ok (e, s') \<and> efs_at D N dev_ok e s' w \<and> dir_pairs e w = [] \<and> live_inodes e w = {0}
    \<and> blocks (inode_bitmap e) = unat ibm \<and> N - da_start e = fs_capacity tb ibm \<and> data_free N e w = {da_start e..<N} \<and> (\<forall>j < N. read_block D j (device s') = Ok (w j))"
proof -
  define ia :: u32 where "ia = of_nat ((Bitmap_maximum (Bitmap_new 1 (unat ibm)) * DISK_INODE_SIZE + BLOCK_SIZE - 1) div BLOCK_SIZE)"
  define T where "T = tb - 1 - (ibm + ia)"
  define dbm where "dbm = (T + of_nat BLOCK_BITS) div (of_nat BLOCK_BITS + 1)"
  define sb where "sb = SuperBlock_initialize tb ibm ia dbm (T - dbm)"
  define e where "e = efs_of_super sb"
  have geo: "geometry N e"
    using create_geometry(1) [OF ok inode_area_size [OF ok]] unfolding N e_def sb_def dbm_def T_def ia_def .
  have cap: "N - da_start e = fs_capacity tb ibm"
    using create_geometry(2) [OF ok inode_area_size [OF ok]] unfolding N e_def sb_def dbm_def T_def ia_def .
  have n: "0 < N" using ok N by (simp add: format_ok_def)
  let ?w1 = "\<lambda>i. if i < N then replicate 512 0 else w0 i"
  let ?w2 = "?w1(0 := splice 0 (SuperBlock_bytes sb) (replicate 512 0))"
  from clean_blocks_at [OF at, of 0 N] obtain s1 where
    s1: "clean_blocks D 0 (unat tb) s = Ok s1" "fs_at D N dev_ok s1 {} {} ?w1" by (auto simp: N)
  from super_block_at [OF s1(2) n, of sb] n obtain s2 where
    s2: "bc_modify D 0 0 SUPER_BLOCK_SIZE (\<lambda>_ s. Ok ((), SuperBlock_bytes sb, s)) s1 = Ok ((), s2)" "fs_at D N dev_ok s2 {} {} ?w2" by auto
  have len: "length (?w2 0) = 512" by (simp add: splice_length)
  have inv: "fs_inv N e ?w2" "live_inodes e ?w2 = {}" "data_used e ?w2 = {}"
    using fs_inv_zero [of N e ?w2] geo len by simp_all
  have maxpos: "0 < Bitmap_maximum (inode_bitmap e)" using geo by (simp add: geometry_def Bitmap_maximum_eq)
  then have "live_inodes e ?w2 \<noteq> {..<Bitmap_maximum (inode_bitmap e)}" unfolding inv(2) by auto
  from new_inode_at [OF s2(2) inv(1) this, of Directory] obtain k s3 s4 w where
    k: "alloc_inode D e s2 = Ok (of_nat k, s3)" "bc_modify D (iblock e k) (ioffset k) DISK_INODE_SIZE (\<lambda>bs s.
        Ok ((), DiskInode_bytes (DiskInode_initialize Directory (DiskInode_of_bytes bs)) bs, s)) s3 = Ok ((), s4)"
      "fs_at D N dev_ok s4 {} {} w" "fs_inv N e w" "live_inodes e w = insert k (live_inodes e ?w2)" "icontent e w k = []"
      "di_type (dinode e w k) = Directory" "{..<k} \<subseteq> live_inodes e ?w2" "w 0 = ?w2 0" "data_free N e w = data_free N e ?w2" by blast
  have k0: "k = 0" using k(8) unfolding inv(2) by auto
  from sync_all_ok [OF k(3)] obtain s5 where
    s5: "block_cache_sync_all D s4 = Ok s5" "fs_at D N dev_ok s5 {} {} w" "\<forall>j < N. read_block D j (device s5) = Ok (w j)" by blast
  note pos = get_disk_inode_pos_eq [OF geo maxpos]
  have e_eq: "\<lparr>inode_bitmap = Bitmap_new 1 (unat ibm), data_bitmap = Bitmap_new (unat (1 + ibm + ia)) (unat dbm),
      inode_area_start_block = 1 + ibm, data_area_start_block = 1 + (ibm + ia) + dbm\<rparr> = e"
    by (simp add: e_def efs_of_super_def sb_def SuperBlock_initialize_def Let_def add.assoc)
  have run: "efs_create D tb ibm s = Ok (e, s5)"
    unfolding efs_create_def Let_def ia_def [symmetric] T_def [symmetric] dbm_def [symmetric] e_eq sb_def [symmetric]
    using s1(1) s2(1) k(1,2) s5(1) pos by (simp add: k0)
  have "super_ok e w"
    using SuperBlock_roundtrip [of sb] unfolding super_ok_def k(9)
    by (simp add: splice_def SUPER_BLOCK_SIZE_def e_def Let_def sb_def SuperBlock_initialize_def SuperBlock_is_valid_def)
  moreover have pairs: "dir_pairs e w = []" using k(6) by (simp add: k0 dir_pairs_def entries_def)
  moreover have "dir_ok e w" using k(5-7) pairs by (simp add: k0 dir_ok_def is_dir_def entries_def)
  moreover have "data_free N e w = {da_start e..<N}" using k(10) unfolding data_free_def [of N e ?w2] inv(3) by simp
  moreover have "blocks (inode_bitmap e) = unat ibm" by (simp add: e_eq [symmetric] Bitmap_new_def)
  ultimately show ?thesis using run s5 k(4,5) inv(2) cap unfolding efs_at_def k0 by blast
qed

end

end
