(* ===== verification/File_System.thy ===== *)
theory File_System
  imports Format
begin

text \<open>
  easy-fs as a whole: its operations, composed as the kernel and the image builder call them (find
  the inode of a name, then work on it), refine a list of named byte sequences. The only
  resources are the data blocks and the inodes, which the abstract state accounts for.
\<close>

section \<open>The abstract file system\<close>

type_synonym fs_model = "(u8 list \<times> u8 list) list"

datatype fs_op =
  CreateFile "u8 list"
| WriteFile "u8 list" nat "u8 list"
| ReadFile "u8 list" nat "u8 list"
| ClearFile "u8 list"
| ListFiles

datatype fs_result = Created bool | Written "nat option" | Data "(nat \<times> u8 list) option" | Cleared bool | Names "u8 list list"

definition set_file :: "u8 list \<Rightarrow> u8 list \<Rightarrow> fs_model \<Rightarrow> fs_model" where
  "set_file nm c st = map (\<lambda>(n, b). if n = nm then (n, c) else (n, b)) st"

fun spec_op :: "fs_op \<Rightarrow> fs_model \<Rightarrow> fs_result \<times> fs_model" where
  "spec_op (CreateFile nm) st = (case map_of st nm of Some _ \<Rightarrow> (Created False, st) | None \<Rightarrow> (Created True, st @ [(nm, [])]))"
| "spec_op (WriteFile nm off buf) st =
     (case map_of st nm of None \<Rightarrow> (Written None, st) | Some c \<Rightarrow> (Written (Some (length buf)), set_file nm (file_write c off buf) st))"
| "spec_op (ReadFile nm off buf) st =
     (case map_of st nm of None \<Rightarrow> (Data None, st)
      | Some c \<Rightarrow> (Data (Some (min (length buf) (length c - off), splice 0 (take (length buf) (drop off c)) buf)), st))"
| "spec_op (ClearFile nm) st = (case map_of st nm of None \<Rightarrow> (Cleared False, st) | Some c \<Rightarrow> (Cleared True, set_file nm [] st))"
| "spec_op ListFiles st = (Names (map fst st), st)"

text \<open>The data blocks that the files and the directory occupy.\<close>

definition fs_need :: "fs_model \<Rightarrow> nat" where
  "fs_need st = blocks_for (DIR_ENTRY_SIZE * length st) + (\<Sum>(n, c) \<leftarrow> st. blocks_for (length c))"

definition valid_name :: "u8 list \<Rightarrow> bool" where
  "valid_name nm \<longleftrightarrow> length nm \<le> NAME_LENGTH_LIMIT \<and> utf8_valid nm \<and> 0 \<notin> set nm"

text \<open>What an operation needs in a file system with \<open>cap\<close> data blocks and \<open>imax\<close> inodes.\<close>

fun op_fits :: "nat \<Rightarrow> nat \<Rightarrow> fs_op \<Rightarrow> fs_model \<Rightarrow> bool" where
  "op_fits cap imax (CreateFile nm) st =
     (map_of st nm \<noteq> None \<or> valid_name nm \<and> Suc (length st) < imax \<and> DIR_ENTRY_SIZE * Suc (length st) \<le> max_file_size
        \<and> fs_need (st @ [(nm, [])]) \<le> cap)"
| "op_fits cap imax (WriteFile nm off buf) st =
     (off + length buf \<le> max_file_size \<and> fs_need (snd (spec_op (WriteFile nm off buf) st)) \<le> cap)"
| "op_fits cap imax (ReadFile nm off buf) st = (off + length buf < 2 ^ 64)"
| "op_fits cap imax (ClearFile nm) st = True"
| "op_fits cap imax ListFiles st = True"

fun spec_ops :: "fs_op list \<Rightarrow> fs_model \<Rightarrow> fs_result list \<times> fs_model" where
  "spec_ops [] st = ([], st)"
| "spec_ops (op # ops) st = (let (r, st) = spec_op op st; (rs, st) = spec_ops ops st in (r # rs, st))"

fun ops_fit :: "nat \<Rightarrow> nat \<Rightarrow> fs_op list \<Rightarrow> fs_model \<Rightarrow> bool" where
  "ops_fit cap imax [] st = True"
| "ops_fit cap imax (op # ops) st = (op_fits cap imax op st \<and> ops_fit cap imax ops (snd (spec_op op st)))"

section \<open>The operations of easy-fs by name\<close>

fun run_op :: "'d BlockDevice \<Rightarrow> EasyFileSystem \<Rightarrow> fs_op \<Rightarrow> 'd bc_state \<Rightarrow> (fs_result \<times> 'd bc_state) outcome" where
  "run_op D e (CreateFile nm) s = and_then (Inode_create D e (root_inode e) nm s) (\<lambda>(r, s). Ok (Created (r \<noteq> None), s))"
| "run_op D e (WriteFile nm off buf) s =
     and_then (Inode_find D e (root_inode e) nm s) (\<lambda>(r, s).
     case r of None \<Rightarrow> Ok (Written None, s)
     | Some ino \<Rightarrow> and_then (Inode_write_at D e ino off buf s) (\<lambda>(n, s). Ok (Written (Some n), s)))"
| "run_op D e (ReadFile nm off buf) s =
     and_then (Inode_find D e (root_inode e) nm s) (\<lambda>(r, s).
     case r of None \<Rightarrow> Ok (Data None, s)
     | Some ino \<Rightarrow> and_then (Inode_read_at D ino off buf s) (\<lambda>(n, s). Ok (Data (Some n), s)))"
| "run_op D e (ClearFile nm) s =
     and_then (Inode_find D e (root_inode e) nm s) (\<lambda>(r, s).
     case r of None \<Rightarrow> Ok (Cleared False, s)
     | Some ino \<Rightarrow> and_then (Inode_clear D e ino s) (\<lambda>(_, s). Ok (Cleared True, s)))"
| "run_op D e ListFiles s = and_then (Inode_ls D (root_inode e) s) (\<lambda>(ns, s). Ok (Names ns, s))"

fun run_ops :: "'d BlockDevice \<Rightarrow> EasyFileSystem \<Rightarrow> fs_op list \<Rightarrow> 'd bc_state \<Rightarrow> (fs_result list \<times> 'd bc_state) outcome" where
  "run_ops D e [] s = Ok ([], s)"
| "run_ops D e (op # ops) s = and_then (run_op D e op s) (\<lambda>(r, s). and_then (run_ops D e ops s) (\<lambda>(rs, s). Ok (r # rs, s)))"

section \<open>The refinement relation\<close>

definition fs_model_of :: "EasyFileSystem \<Rightarrow> disk \<Rightarrow> fs_model" where
  "fs_model_of e w = map (\<lambda>(nm, i). (nm, icontent e w i)) (dir_pairs e w)"

definition fs_refines :: "'d BlockDevice \<Rightarrow> nat \<Rightarrow> ('d \<Rightarrow> bool) \<Rightarrow> EasyFileSystem \<Rightarrow> 'd bc_state \<Rightarrow> fs_model \<Rightarrow> bool" where
  "fs_refines D N dev_ok e s st \<longleftrightarrow> (\<exists>w. efs_at D N dev_ok e s w \<and> fs_model_of e w = st
     \<and> card (data_free N e w) + fs_need st = N - da_start e \<and> card (live_inodes e w) = Suc (length st))"

lemma set_file_simps [simp]: "map fst (set_file nm c st) = map fst st" "length (set_file nm c st) = length st"
  by (auto simp: set_file_def)

lemma map_of_model: "map_of (fs_model_of e w) nm = map_option (icontent e w) (dir_lookup e w nm)"
proof -
  have "map_of (map (\<lambda>(n, i). (n, icontent e w i)) ps) nm = map_option (icontent e w) (map_of ps nm)" for ps
    by (induction ps) auto
  then show ?thesis by (simp add: fs_model_of_def dir_lookup_def)
qed

lemma length_model [simp]: "length (fs_model_of e w) = length (dir_pairs e w)"
  by (simp add: fs_model_of_def)

lemma map_of_set_file: "map_of st nm = Some c \<Longrightarrow> map_of (set_file nm c' st) nm = Some c'"
  by (induction st) (auto simp: set_file_def split: if_splits)

lemma read_file_write:
  shows "take (length buf) (drop off (file_write c off buf)) = buf"
    "take (length c) (file_write c off buf) = take off c @ take (length c - off) buf @ drop (off + length buf) c"
proof -
  let ?x = "c @ replicate (off + length buf - length c) 0"
  have x: "off + length buf \<le> length ?x" by simp
  show "take (length buf) (drop off (file_write c off buf)) = buf"
    unfolding file_write_def using x by (simp add: splice_bytes)
  show "take (length c) (file_write c off buf) = take off c @ take (length c - off) buf @ drop (off + length buf) c"
    by (cases "length c \<le> off"; cases "off + length buf \<le> length c"; cases "buf = []")
      (auto simp: file_write_def splice_def min_def neq_Nil_conv)
qed

lemma need_set_file:
  assumes "distinct (map fst st)" "map_of st nm = Some c"
  shows "fs_need (set_file nm c' st) + blocks_for (length c) = fs_need st + blocks_for (length c')"
proof -
  have "(\<Sum>(n, b) \<leftarrow> set_file nm c' st. blocks_for (length b)) + blocks_for (length c)
      = (\<Sum>(n, b) \<leftarrow> st. blocks_for (length b)) + blocks_for (length c')"
    using assms
  proof (induction st)
    case (Cons p st)
    obtain n b where p: "p = (n, b)" by (cases p)
    show ?case
    proof (cases "n = nm")
      case True
      then have "nm \<notin> fst ` set st" using Cons.prems(1) by (simp add: p)
      then have "set_file nm c' st = st" unfolding set_file_def by (intro map_idI) force
      with True Cons.prems(2) show ?thesis by (simp add: p set_file_def)
    next
      case False
      with Cons show ?thesis by (auto simp: p set_file_def)
    qed
  qed simp
  then show ?thesis by (simp add: fs_need_def)
qed

lemma need_create: "fs_need (st @ [(nm, [])]) = fs_need st
    + (blocks_for (DIR_ENTRY_SIZE * length st + DIR_ENTRY_SIZE) - blocks_for (DIR_ENTRY_SIZE * length st))"
proof -
  have "blocks_for (DIR_ENTRY_SIZE * length st) \<le> blocks_for (DIR_ENTRY_SIZE * length st + DIR_ENTRY_SIZE)" by (rule blocks_for_mono) simp
  moreover have "blocks_for 0 = 0" by (simp add: blocks_for_def index_count_def)
  ultimately show ?thesis by (simp add: fs_need_def algebra_simps)
qed

lemma length_file_write: "length (file_write c off buf) = max (length c) (off + length buf)"
  by (simp add: file_write_def splice_length)

text \<open>The model after a change of one file.\<close>

lemma model_update:
  assumes dir: "dir_ok e w" and i: "dir_lookup e w nm = Some i" and live: "live_inodes e w' = live_inodes e w"
    and same: "others_same e w w' i"
  shows "fs_model_of e w' = set_file nm (icontent e w' i) (fs_model_of e w)"
proof -
  have zero: "icontent e w' 0 = icontent e w 0"
    using same lookup_live [OF dir i] dir unfolding others_same_def dir_ok_def by auto
  have d: "distinct (map snd (dir_pairs e w))" "distinct (map fst (dir_pairs e w))"
    "set (map snd (dir_pairs e w)) \<subseteq> live_inodes e w - {0}" using dir unfolding dir_ok_def by blast+
  have mem: "(nm, i) \<in> set (dir_pairs e w)" using i unfolding dir_lookup_def by (rule map_of_SomeD)
  have "(n, icontent e w' j) = (if n = nm then (n, icontent e w' i) else (n, icontent e w j))"
    if p: "(n, j) \<in> set (dir_pairs e w)" for n j
  proof (cases "n = nm")
    case True
    with d(2) p mem have "j = i" by (metis eq_key_imp_eq_value)
    with True show ?thesis by simp
  next
    case False
    with d(1) p mem have "j \<noteq> i" by (metis (mono_tags, lifting) distinct_map inj_onD prod.inject snd_conv)
    moreover have "j \<in> set (map snd (dir_pairs e w))" using p by force
    with d(3) have "j \<in> live_inodes e w" by blast
    ultimately show ?thesis using same False unfolding others_same_def by simp
  qed
  then show ?thesis unfolding fs_model_of_def set_file_def dir_pairs_cong [OF zero] by (auto simp: comp_def)
qed

lemma model_append:
  assumes at: "efs_at D N dev_ok e s w" "efs_at D N dev_ok e s' w'" and pairs: "dir_pairs e w' = dir_pairs e w @ [(nm, k)]"
    and fs: "files e w' = (files e w)(nm \<mapsto> [])" and new: "dir_lookup e w nm = None"
  shows "fs_model_of e w' = fs_model_of e w @ [(nm, [])]"
proof -
  have d: "distinct (map fst (dir_pairs e w'))" using efs_atD(3) [OF at(2)] unfolding dir_ok_def by blast
  then have d0: "distinct (map fst (dir_pairs e w))" using pairs by simp
  have look: "files e w' n = Some (icontent e w' j)" if "(n, j) \<in> set (dir_pairs e w')" for n j
    using map_of_is_SomeI [OF d that] by (simp add: files_def dir_lookup_def)
  have "icontent e w' k = []" using look [of nm k] fs pairs by simp
  moreover have "icontent e w' j = icontent e w j" if p: "(n, j) \<in> set (dir_pairs e w)" for n j
  proof -
    have "n \<noteq> nm" using new map_of_is_SomeI [OF d0 p] by (auto simp: dir_lookup_def)
    with look [of n j] p fs pairs map_of_is_SomeI [OF d0 p] show ?thesis by (simp add: files_def dir_lookup_def)
  qed
  ultimately show ?thesis unfolding fs_model_of_def pairs by auto
qed

lemma fs_refinesE:
  assumes "fs_refines D N dev_ok e s st"
  obtains w where "efs_at D N dev_ok e s w" "fs_model_of e w = st" "card (data_free N e w) + fs_need st = N - da_start e"
    "card (live_inodes e w) = Suc (length st)" "distinct (map fst st)"
proof -
  from assms obtain w where w: "efs_at D N dev_ok e s w" "fs_model_of e w = st"
    "card (data_free N e w) + fs_need st = N - da_start e" "card (live_inodes e w) = Suc (length st)" unfolding fs_refines_def by blast
  have "map fst (fs_model_of e w) = map fst (dir_pairs e w)" by (auto simp: fs_model_of_def)
  then have "distinct (map fst st)" using efs_atD(3) [OF w(1)] w(2) unfolding dir_ok_def by metis
  with w that show thesis by blast
qed

text \<open>Replacing the contents of one file, with the exact use of data blocks.\<close>

lemma refines_set_file:
  assumes w: "efs_at D N dev_ok e s w" "fs_model_of e w = st" "card (data_free N e w) + fs_need st = N - da_start e"
      "card (live_inodes e w) = Suc (length st)" "distinct (map fst st)"
    and i: "dir_lookup e w nm = Some i" and at: "fs_at D N dev_ok s' {} {} w'" "fs_inv N e w'"
    and live: "live_inodes e w' = live_inodes e w" and same: "others_same e w w' i"
    and free: "card (data_free N e w') + blocks_for (length (icontent e w' i)) = card (data_free N e w) + blocks_for (length (icontent e w i))"
  shows "fs_refines D N dev_ok e s' (set_file nm (icontent e w' i) st)"
proof -
  have c: "map_of st nm = Some (icontent e w i)" using map_of_model [of e w nm] i w(2) by simp
  have "w' 0 = w 0" using same by (simp add: others_same_def)
  then have "efs_at D N dev_ok e s' w'"
    using at file_update(1) [OF efs_atD(3) [OF w(1)] i live same] efs_atD(4) [OF w(1)] super_ok_cong [of w' w e] by (simp add: efs_at_def)
  moreover have "card (data_free N e w') + fs_need (set_file nm (icontent e w' i) st) = N - da_start e"
    using need_set_file [OF w(5) c, of "icontent e w' i"] free w(3) by linarith
  ultimately show ?thesis
    using model_update [OF efs_atD(3) [OF w(1)] i live same] w(2,4) live unfolding fs_refines_def by auto
qed

section \<open>Every operation refines its specification\<close>

context block_device
begin

text \<open>Writing through the handle of a file.\<close>

lemma write_handle:
  assumes w: "efs_at D N dev_ok e s w" "fs_model_of e w = st" "card (data_free N e w) + fs_need st = N - da_start e"
      "card (live_inodes e w) = Suc (length st)" "distinct (map fst st)"
    and i: "dir_lookup e w nm = Some i" and m: "off + length buf \<le> max_file_size"
    and need: "fs_need (set_file nm (file_write (icontent e w i) off buf) st) \<le> N - da_start e"
  shows "\<exists>s'. Inode_write_at D e (handle e i) off buf s = Ok (length buf, s')
    \<and> fs_refines D N dev_ok e s' (set_file nm (file_write (icontent e w i) off buf) st)"
proof -
  let ?c = "icontent e w i" and ?m = "off + length buf"
  have c: "map_of st nm = Some ?c" using map_of_model [of e w nm] w(2) i by simp
  note d = efs_atD [OF w(1)]
  have live: "i \<in> live_inodes e w" using lookup_live [OF d(3) i] by simp
  have bl: "blocks_for (max (length ?c) ?m) = blocks_for (length ?c) + (blocks_for ?m - blocks_for (length ?c))"
    using blocks_for_mono [of "length ?c" ?m] blocks_for_mono [of ?m "length ?c"] by (cases "length ?c \<le> ?m") (simp_all add: max_def)
  have room: "blocks_for ?m - blocks_for (length ?c) \<le> card (data_free N e w)"
    using need need_set_file [OF w(5) c, of "file_write ?c off buf"] w(3) bl by (simp add: length_file_write)
  from Inode_write_at_at [OF d(1,2) live m room] obtain s' w' where
    r: "Inode_write_at D e (handle e i) off buf s = Ok (length buf, s')" "fs_at D N dev_ok s' {} {} w'" "fs_inv N e w'"
      "live_inodes e w' = live_inodes e w" "icontent e w' i = file_write ?c off buf" "others_same e w w' i"
      "card (data_free N e w') + (blocks_for ?m - blocks_for (length ?c)) = card (data_free N e w)" by blast
  have "card (data_free N e w') + blocks_for (length (icontent e w' i)) = card (data_free N e w) + blocks_for (length ?c)"
    using r(5,7) bl by (simp add: length_file_write)
  from refines_set_file [OF w i r(2-4,6) this] r(1,5) show ?thesis by simp
qed

lemma run_write:
  assumes ref: "fs_refines D N dev_ok e s st" and fits: "op_fits (N - da_start e) imax (WriteFile nm off buf) st"
  shows "\<exists>s'. run_op D e (WriteFile nm off buf) s = Ok (fst (spec_op (WriteFile nm off buf) st), s')
    \<and> fs_refines D N dev_ok e s' (snd (spec_op (WriteFile nm off buf) st))"
proof -
  from ref obtain w where w: "efs_at D N dev_ok e s w" "fs_model_of e w = st" "card (data_free N e w) + fs_need st = N - da_start e"
    "card (live_inodes e w) = Suc (length st)" "distinct (map fst st)" by (rule fs_refinesE)
  from Inode_find_at [OF w(1), of nm] obtain s1 where
    s1: "Inode_find D e (root_inode e) nm s = Ok (map_option (handle e) (dir_lookup e w nm), s1)" "efs_at D N dev_ok e s1 w" by blast
  show ?thesis
  proof (cases "dir_lookup e w nm")
    case None
    then have "map_of st nm = None" using map_of_model [of e w nm] w(2) by simp
    with None s1 w show ?thesis unfolding fs_refines_def by auto
  next
    case (Some i)
    then have c: "map_of st nm = Some (icontent e w i)" using map_of_model [of e w nm] w(2) by simp
    from write_handle [OF s1(2) w(2-5) Some, of off buf] fits c s1(1) Some show ?thesis by auto
  qed
qed

lemma run_clear:
  assumes ref: "fs_refines D N dev_ok e s st"
  shows "\<exists>s'. run_op D e (ClearFile nm) s = Ok (fst (spec_op (ClearFile nm) st), s')
    \<and> fs_refines D N dev_ok e s' (snd (spec_op (ClearFile nm) st))"
proof -
  from ref obtain w where w: "efs_at D N dev_ok e s w" "fs_model_of e w = st" "card (data_free N e w) + fs_need st = N - da_start e"
    "card (live_inodes e w) = Suc (length st)" "distinct (map fst st)" by (rule fs_refinesE)
  from Inode_find_at [OF w(1), of nm] obtain s1 where
    s1: "Inode_find D e (root_inode e) nm s = Ok (map_option (handle e) (dir_lookup e w nm), s1)" "efs_at D N dev_ok e s1 w" by blast
  note w1 = s1(2) w(2-5)
  show ?thesis
  proof (cases "dir_lookup e w nm")
    case None
    then have "map_of st nm = None" using map_of_model [of e w nm] w(2) by simp
    with None s1 w show ?thesis unfolding fs_refines_def by auto
  next
    case (Some i)
    have c: "map_of st nm = Some (icontent e w i)" using map_of_model [of e w nm] w(2) Some by simp
    note d = efs_atD [OF s1(2)]
    have i: "i \<in> live_inodes e w" using lookup_live [OF d(3) Some] by simp
    from Inode_clear_at [OF d(1,2) i] obtain s' w' where
      r: "Inode_clear D e (handle e i) s1 = Ok ((), s')" "fs_at D N dev_ok s' {} {} w'" "fs_inv N e w'"
        "live_inodes e w' = live_inodes e w" "icontent e w' i = []" "others_same e w w' i"
        "card (data_free N e w') = card (data_free N e w) + blocks_for (length (icontent e w i))" by blast
    have "blocks_for 0 = 0" by (simp add: blocks_for_def index_count_def)
    then have "card (data_free N e w') + blocks_for (length (icontent e w' i)) = card (data_free N e w) + blocks_for (length (icontent e w i))"
      using r(5,7) by simp
    from refines_set_file [OF w1 Some r(2-4,6) this] r(1,5) s1(1) Some c show ?thesis by simp
  qed
qed

lemma run_read:
  assumes ref: "fs_refines D N dev_ok e s st" and fits: "off + length buf < 2 ^ 64"
  shows "\<exists>s'. run_op D e (ReadFile nm off buf) s = Ok (fst (spec_op (ReadFile nm off buf) st), s') \<and> fs_refines D N dev_ok e s' st"
proof -
  from ref obtain w where w: "efs_at D N dev_ok e s w" "fs_model_of e w = st" "card (data_free N e w) + fs_need st = N - da_start e"
    "card (live_inodes e w) = Suc (length st)" "distinct (map fst st)" by (rule fs_refinesE)
  from Inode_find_at [OF w(1), of nm] obtain s1 where
    s1: "Inode_find D e (root_inode e) nm s = Ok (map_option (handle e) (dir_lookup e w nm), s1)" "efs_at D N dev_ok e s1 w" by blast
  have keep: "fs_refines D N dev_ok e s' st" if "fs_at D N dev_ok s' {} {} w" for s'
    using efs_at_same [OF w(1) that] w unfolding fs_refines_def by blast
  show ?thesis
  proof (cases "dir_lookup e w nm")
    case None
    then have "map_of st nm = None" using map_of_model [of e w nm] w(2) by simp
    with None s1(1) keep [OF efs_atD(1) [OF s1(2)]] show ?thesis by auto
  next
    case (Some i)
    have c: "map_of st nm = Some (icontent e w i)" using map_of_model [of e w nm] w(2) Some by simp
    note d = efs_atD [OF s1(2)]
    have i: "i \<in> live_inodes e w" using lookup_live [OF d(3) Some] by simp
    from Inode_read_at_at [OF d(1,2) i fits] s1(1) Some c keep show ?thesis by auto
  qed
qed

text \<open>A new file, with the handle that \<^verbatim>\<open>create\<close> returns.\<close>

lemma create_handle:
  assumes w: "efs_at D N dev_ok e s w" "fs_model_of e w = st" "card (data_free N e w) + fs_need st = N - da_start e"
      "card (live_inodes e w) = Suc (length st)" "distinct (map fst st)"
    and new: "dir_lookup e w nm = None" and name: "valid_name nm"
    and lim: "Suc (length st) < Bitmap_maximum (inode_bitmap e)" "DIR_ENTRY_SIZE * Suc (length st) \<le> max_file_size"
      "fs_need (st @ [(nm, [])]) \<le> N - da_start e"
  shows "\<exists>k s' w'. Inode_create D e (root_inode e) nm s = Ok (Some (handle e k), s') \<and> dir_lookup e w' nm = Some k
    \<and> efs_at D N dev_ok e s' w' \<and> fs_model_of e w' = st @ [(nm, [])] \<and> card (live_inodes e w') = Suc (Suc (length st))
    \<and> card (data_free N e w') + fs_need (st @ [(nm, [])]) = N - da_start e"
proof -
  note d = efs_atD [OF w(1)]
  have mod: "length (icontent e w 0) mod DIR_ENTRY_SIZE = 0" using d(3) unfolding dir_ok_def by blast
  have len: "length (icontent e w 0) = DIR_ENTRY_SIZE * length st"
    using mod mult_div_mod_eq [of DIR_ENTRY_SIZE "length (icontent e w 0)"] w(2) by (auto simp: dir_pairs_def fs_model_of_def)
  have nm: "length nm \<le> NAME_LENGTH_LIMIT" "utf8_valid nm" "0 \<notin> set nm" using name by (simp_all add: valid_name_def)
  have "live_inodes e w \<noteq> {..<Bitmap_maximum (inode_bitmap e)}" using w(4) lim(1) by (metis card_lessThan less_irrefl)
  moreover have "blocks_for (length (icontent e w 0) + DIR_ENTRY_SIZE) - blocks_for (length (icontent e w 0)) \<le> card (data_free N e w)"
    using lim(3) w(3) need_create [of st nm] unfolding len by linarith
  ultimately have "entry_room N e w" using lim(2) unfolding entry_room_def Let_def len by simp
  from Inode_create_at [OF w(1) new nm this] obtain k s' w' where
    r: "Inode_create D e (root_inode e) nm s = Ok (Some (handle e k), s')" "efs_at D N dev_ok e s' w'"
      "dir_pairs e w' = dir_pairs e w @ [(nm, k)]" "files e w' = (files e w)(nm \<mapsto> [])" "k \<notin> live_inodes e w"
      "live_inodes e w' = insert k (live_inodes e w)"
      "card (data_free N e w') + (blocks_for (length (icontent e w 0) + DIR_ENTRY_SIZE) - blocks_for (length (icontent e w 0)))
        = card (data_free N e w)" by (elim exE conjE)
  have "fs_model_of e w' = st @ [(nm, [])]" using model_append [OF w(1) r(2,3,4) new] w(2) by simp
  moreover have "card (live_inodes e w') = Suc (Suc (length st))" using r(5,6) w(4) by (simp add: live_inodes_def bm_bits_def)
  moreover have "card (data_free N e w') + fs_need (st @ [(nm, [])]) = N - da_start e"
    using r(7) w(3) need_create [of st nm] unfolding len by linarith
  moreover have "dir_lookup e w' nm = Some k" using new by (simp add: dir_lookup_def r(3) map_add_def)
  ultimately show ?thesis using r(1,2) by blast
qed

lemma run_create:
  assumes ref: "fs_refines D N dev_ok e s st" and fits: "op_fits (N - da_start e) (Bitmap_maximum (inode_bitmap e)) (CreateFile nm) st"
  shows "\<exists>s'. run_op D e (CreateFile nm) s = Ok (fst (spec_op (CreateFile nm) st), s')
    \<and> fs_refines D N dev_ok e s' (snd (spec_op (CreateFile nm) st))"
proof -
  from ref obtain w where w: "efs_at D N dev_ok e s w" "fs_model_of e w = st" "card (data_free N e w) + fs_need st = N - da_start e"
    "card (live_inodes e w) = Suc (length st)" "distinct (map fst st)" by (rule fs_refinesE)
  show ?thesis
  proof (cases "dir_lookup e w nm")
    case (Some i)
    then have "map_of st nm = Some (icontent e w i)" using map_of_model [of e w nm] w(2) by simp
    with Inode_create_exists_at [OF w(1), of nm] Some w show ?thesis unfolding fs_refines_def by auto
  next
    case None
    then have c: "map_of st nm = None" using map_of_model [of e w nm] w(2) by simp
    from fits c have "valid_name nm" "Suc (length st) < Bitmap_maximum (inode_bitmap e)" "DIR_ENTRY_SIZE * Suc (length st) \<le> max_file_size"
      "fs_need (st @ [(nm, [])]) \<le> N - da_start e" by simp_all
    from create_handle [OF w None this] obtain k s' w' where
      "Inode_create D e (root_inode e) nm s = Ok (Some (handle e k), s')" "efs_at D N dev_ok e s' w'" "fs_model_of e w' = st @ [(nm, [])]"
      "card (live_inodes e w') = Suc (Suc (length st))" "card (data_free N e w') + fs_need (st @ [(nm, [])]) = N - da_start e" by blast
    with c show ?thesis unfolding fs_refines_def by auto
  qed
qed

lemma run_op_refines:
  assumes ref: "fs_refines D N dev_ok e s st" and fits: "op_fits (N - da_start e) (Bitmap_maximum (inode_bitmap e)) op st"
  shows "\<exists>s'. run_op D e op s = Ok (fst (spec_op op st), s') \<and> fs_refines D N dev_ok e s' (snd (spec_op op st))"
proof (cases op)
  case (CreateFile nm)
  with run_create ref fits show ?thesis by blast
next
  case (WriteFile nm off buf)
  with run_write ref fits show ?thesis by blast
next
  case (ReadFile nm off buf)
  with run_read [OF ref, of off buf nm] fits show ?thesis by (auto split: option.splits)
next
  case (ClearFile nm)
  with run_clear ref show ?thesis by blast
next
  case ListFiles
  from ref obtain w where w: "efs_at D N dev_ok e s w" "fs_model_of e w = st" "card (data_free N e w) + fs_need st = N - da_start e"
    "card (live_inodes e w) = Suc (length st)" by (rule fs_refinesE)
  have "map fst st = map fst (dir_pairs e w)" using w(2) by (auto simp: fs_model_of_def)
  with Inode_ls_at [OF w(1)] w ListFiles show ?thesis unfolding fs_refines_def by auto
qed

lemma run_ops_refines:
  assumes "fs_refines D N dev_ok e s st" "ops_fit (N - da_start e) (Bitmap_maximum (inode_bitmap e)) ops st"
  shows "\<exists>s'. run_ops D e ops s = Ok (fst (spec_ops ops st), s') \<and> fs_refines D N dev_ok e s' (snd (spec_ops ops st))"
  using assms
proof (induction ops arbitrary: s st)
  case (Cons op ops)
  from run_op_refines [OF Cons.prems(1), of op] Cons.prems(2) obtain s1 where
    s1: "run_op D e op s = Ok (fst (spec_op op st), s1)" "fs_refines D N dev_ok e s1 (snd (spec_op op st))" by auto
  from Cons.IH [OF s1(2)] Cons.prems(2) s1(1) show ?case by (auto simp: split_beta Let_def)
qed simp

lemma cold_cache_at:
  assumes at: "fs_at D N dev_ok s {} {} w" and dev: "\<forall>j < N. read_block D j (device s) = Ok (w j)"
  shows "fs_at D N dev_ok \<lparr>queue = [], device = device s\<rparr> {} {} w"
proof -
  have "dev_ok (device s)" and w: "w = view D N s" using at by (auto simp: fs_at_def bc_inv_def)
  have "view D N \<lparr>queue = [], device = device s\<rparr> i = w i" for i
  proof (cases "i < N")
    case True
    with dev show ?thesis by (simp add: view_def)
  qed (simp add: view_def w)
  then have "view D N \<lparr>queue = [], device = device s\<rparr> = w" by blast
  with empty_cache_at [OF \<open>dev_ok (device s)\<close>] show ?thesis by simp
qed

lemma efs_create_refines:
  assumes "dev_ok d" "unat tb = N" "format_ok tb ibm"
  shows "\<exists>e s. efs_create D tb ibm \<lparr>queue = [], device = d\<rparr> = Ok (e, s) \<and> fs_refines D N dev_ok e s []
    \<and> N - da_start e = fs_capacity tb ibm \<and> Bitmap_maximum (inode_bitmap e) = 4096 * unat ibm"
proof -
  from efs_create_at [OF empty_cache_at [OF assms(1)] assms(2,3)] obtain e s w where
    r: "efs_create D tb ibm \<lparr>queue = [], device = d\<rparr> = Ok (e, s)" "efs_at D N dev_ok e s w" "dir_pairs e w = []"
      "live_inodes e w = {0}" "blocks (inode_bitmap e) = unat ibm" "N - da_start e = fs_capacity tb ibm"
      "data_free N e w = {da_start e..<N}" by blast
  have "fs_need [] = 0" by (simp add: fs_need_def blocks_for_def index_count_def)
  then have "fs_refines D N dev_ok e s []"
    using r(2-4,7) unfolding fs_refines_def by (intro exI [of _ w]) (simp add: fs_model_of_def)
  with r(1,5,6) show ?thesis by (simp add: Bitmap_maximum_eq)
qed

lemma efs_reopen_refines:
  assumes "fs_refines D N dev_ok e s st"
  shows "\<exists>s1 s2. block_cache_sync_all D s = Ok s1 \<and> efs_open D \<lparr>queue = [], device = device s1\<rparr> = Ok (e, s2)
    \<and> fs_refines D N dev_ok e s2 st"
proof -
  from assms obtain w where w: "efs_at D N dev_ok e s w" "fs_model_of e w = st" "card (data_free N e w) + fs_need st = N - da_start e"
    "card (live_inodes e w) = Suc (length st)" by (rule fs_refinesE)
  note d = efs_atD [OF w(1)]
  from sync_all_ok [OF d(1)] obtain s1 where
    s1: "block_cache_sync_all D s = Ok s1" "fs_at D N dev_ok s1 {} {} w" "\<forall>j < N. read_block D j (device s1) = Ok (w j)" by blast
  have "0 < N" using geometry_blocks(4-6,8) [OF d(5)] by linarith
  from efs_open_at [OF cold_cache_at [OF s1(2,3)] this d(4)] obtain s2 where
    s2: "efs_open D \<lparr>queue = [], device = device s1\<rparr> = Ok (e, s2)" "fs_at D N dev_ok s2 {} {} w" by blast
  have "fs_refines D N dev_ok e s2 st" using efs_at_same [OF w(1) s2(2)] w(2-4) unfolding fs_refines_def by blast
  with s1(1) s2(1) show ?thesis by blast
qed

end

section \<open>Properties\<close>

text \<open>
  C2. easy-fs refines the abstract file system: any sequence of creating, writing, reading,
  clearing and listing files that fits the disk runs without a panic and returns exactly what
  the list of named byte sequences returns, on any block device that reads back what was
  written, whatever the block cache evicts in between.
\<close>

theorem easy_fs_refines:
  assumes "block_device D N dev_ok" "fs_refines D N dev_ok e s st"
    and "ops_fit (N - da_start e) (Bitmap_maximum (inode_bitmap e)) ops st"
  shows "\<exists>s'. run_ops D e ops s = Ok (fst (spec_ops ops st), s') \<and> fs_refines D N dev_ok e s' (snd (spec_ops ops st))"
  by (rule block_device.run_ops_refines [OF assms])

text \<open>
  C6. Files survive a restart: a disk formatted by \<^verbatim>\<open>EasyFileSystem::create\<close>, used by any fitting sequence
  of operations and synchronised, is opened again by \<^verbatim>\<open>EasyFileSystem::open\<close> with a cold cache as the same
  file system object with the same files. The capacity in data blocks and inodes is the
  one computed from the two sizes given to \<^verbatim>\<open>create\<close>.
\<close>

theorem easy_fs_durable:
  assumes dev: "block_device D (unat tb) dev_ok" and d: "dev_ok d" and ok: "format_ok tb ibm"
    and fits: "ops_fit (fs_capacity tb ibm) (4096 * unat ibm) ops []"
  shows "\<exists>e s s' s1 s2. efs_create D tb ibm \<lparr>queue = [], device = d\<rparr> = Ok (e, s)
    \<and> run_ops D e ops s = Ok (fst (spec_ops ops []), s') \<and> block_cache_sync_all D s' = Ok s1
    \<and> efs_open D \<lparr>queue = [], device = device s1\<rparr> = Ok (e, s2)
    \<and> fs_refines D (unat tb) dev_ok e s2 (snd (spec_ops ops []))"
proof -
  from block_device.efs_create_refines [OF dev d refl ok] obtain e s where
    c: "efs_create D tb ibm \<lparr>queue = [], device = d\<rparr> = Ok (e, s)" "fs_refines D (unat tb) dev_ok e s []"
      "unat tb - da_start e = fs_capacity tb ibm" "Bitmap_maximum (inode_bitmap e) = 4096 * unat ibm" by blast
  from block_device.run_ops_refines [OF dev c(2)] fits c(3,4) obtain s' where
    s': "run_ops D e ops s = Ok (fst (spec_ops ops []), s')" "fs_refines D (unat tb) dev_ok e s' (snd (spec_ops ops []))" by auto
  from block_device.efs_reopen_refines [OF dev s'(2)] c(1) s'(1) show ?thesis by blast
qed

text \<open>
  C14. No data block is shared and none is lost: after any fitting sequence of operations the trees
  of different inodes in use are disjoint, the data bitmap marks exactly the blocks of these
  trees, and every free data block is zero.
\<close>

theorem easy_fs_blocks_partitioned:
  assumes "block_device D N dev_ok" "fs_refines D N dev_ok e s st"
    and "ops_fit (N - da_start e) (Bitmap_maximum (inode_bitmap e)) ops st"
    and "run_ops D e ops s = Ok (rs, s')" "w = view D N s'"
  shows "(\<forall>i \<in> live_inodes e w. distinct (own_blocks w (dinode e w i)) \<and> set (own_blocks w (dinode e w i)) \<subseteq> {da_start e..<N})
    \<and> (\<forall>i \<in> live_inodes e w. \<forall>j \<in> live_inodes e w. i \<noteq> j \<longrightarrow>
         set (own_blocks w (dinode e w i)) \<inter> set (own_blocks w (dinode e w j)) = {})
    \<and> (\<Union>i \<in> live_inodes e w. set (own_blocks w (dinode e w i))) = data_used e w
    \<and> (\<forall>b \<in> data_free N e w. w b = replicate 512 0)"
proof -
  from block_device.run_ops_refines [OF assms(1-3)] assms(4) have "fs_refines D N dev_ok e s' (snd (spec_ops ops st))" by simp
  then obtain w' where w': "efs_at D N dev_ok e s' w'" by (rule fs_refinesE)
  have "w = w'" using efs_atD(1) [OF w'] assms(5) by (simp add: fs_at_def)
  with efs_atD(2) [OF w'] have inv: "fs_inv N e w" by simp
  note D = fs_invD [OF inv]
  show ?thesis
    by (intro conjI ballI impI D(4-6)) (use D(3) in \<open>simp_all add: inode_wf_def\<close>)
qed

text \<open>
  C23. Reading back what was written: a write of \<open>buf\<close> at an offset of an existing file, also one
  beyond its end, and a read of as many bytes at that offset return \<open>buf\<close>; the bytes before
  and after are those of the old contents.
\<close>

theorem easy_fs_write_read:
  assumes "block_device D N dev_ok" "fs_refines D N dev_ok e s st" "map_of st nm = Some c"
    and "off + length buf \<le> max_file_size" "fs_need (set_file nm (file_write c off buf) st) \<le> N - da_start e"
    and "length dst = length buf" "length dst0 = length c" "length c + off < 2 ^ 63"
  shows "\<exists>s'. run_ops D e [WriteFile nm off buf, ReadFile nm off dst, ReadFile nm 0 dst0] s
      = Ok ([Written (Some (length buf)), Data (Some (length buf, buf)),
             Data (Some (length c, take off c @ take (length c - off) buf @ drop (off + length buf) c))], s')"
proof -
  let ?c = "file_write c off buf"
  have fits: "ops_fit (N - da_start e) (Bitmap_maximum (inode_bitmap e)) [WriteFile nm off buf, ReadFile nm off dst, ReadFile nm 0 dst0] st"
    using assms(3-8) max_file_size_eq by simp
  have "min (length buf) (length ?c - off) = length buf" "min (length c) (length ?c) = length c" by (simp_all add: length_file_write)
  then have "fst (spec_ops [WriteFile nm off buf, ReadFile nm off dst, ReadFile nm 0 dst0] st)
      = [Written (Some (length buf)), Data (Some (length buf, buf)),
         Data (Some (length c, take off c @ take (length c - off) buf @ drop (off + length buf) c))]"
    using assms(3,6,7) map_of_set_file [OF assms(3), of ?c] read_file_write(1) [of buf off c] read_file_write(2) [of c off buf]
    by (simp add: splice_all length_file_write)
  with block_device.run_ops_refines [OF assms(1,2) fits] show ?thesis by auto
qed

section \<open>Witnesses\<close>

text \<open>A file of 1100 zero blocks, and a few operations on the file system created in it.\<close>

definition disk_example :: "u8 list" where "disk_example = replicate (1100 * 512) 0"

definition ops_example :: "fs_op list" where
  "ops_example = [CreateFile [97], WriteFile [97] 2 [7, 8, 9], ReadFile [97] 1 [1, 1, 1], CreateFile [97], ListFiles]"

lemma disk_example_ok:
  "block_device BlockFile 1100 (\<lambda>f. 1100 * BLOCK_SIZE \<le> length f)" "1100 * BLOCK_SIZE \<le> length disk_example"
  "unat (1100 :: u32) = 1100" "format_ok 1100 1" "fs_capacity 1100 1 = 73"
  by (rule block_file.block_device_axioms) (simp_all add: disk_example_def BLOCK_SIZE_def format_ok_def fs_capacity_def)

lemma ops_example_ok:
  "ops_fit 73 4096 ops_example []"
  "spec_ops ops_example [] = ([Created True, Written (Some 3), Data (Some (3, [0, 7, 8])), Created False, Names [[97]]], [([97], [0, 0, 7, 8, 9])])"
proof -
  have two: "replicate 2 (0 :: u8) = [0, 0]" by (simp add: numeral_2_eq_2)
  show "ops_fit 73 4096 ops_example []"
    "spec_ops ops_example [] = ([Created True, Written (Some 3), Data (Some (3, [0, 7, 8])), Created False, Names [[97]]], [([97], [0, 0, 7, 8, 9])])"
    by (simp_all add: two ops_example_def valid_name_def NAME_LENGTH_LIMIT_def DIR_ENTRY_SIZE_def max_file_size_eq fs_need_def
        blocks_for_def index_count_def set_file_def file_write_def splice_def)
qed

lemma fs_example: "\<exists>e s. efs_create BlockFile 1100 1 \<lparr>queue = [], device = disk_example\<rparr> = Ok (e, s)
    \<and> fs_refines BlockFile 1100 (\<lambda>f. 1100 * BLOCK_SIZE \<le> length f) e s []
    \<and> 1100 - da_start e = 73 \<and> Bitmap_maximum (inode_bitmap e) = 4096"
  using block_device.efs_create_refines [OF disk_example_ok(1,2,3,4)] disk_example_ok(5) by simp

theorem easy_fs_refines_witness:
  "\<exists>e s s'. efs_create BlockFile 1100 1 \<lparr>queue = [], device = disk_example\<rparr> = Ok (e, s) \<and> run_ops BlockFile e ops_example s
    = Ok ([Created True, Written (Some 3), Data (Some (3, [0, 7, 8])), Created False, Names [[97]]], s')"
proof -
  from fs_example obtain e s where e: "efs_create BlockFile 1100 1 \<lparr>queue = [], device = disk_example\<rparr> = Ok (e, s)"
    "fs_refines BlockFile 1100 (\<lambda>f. 1100 * BLOCK_SIZE \<le> length f) e s []" "1100 - da_start e = 73" "Bitmap_maximum (inode_bitmap e) = 4096" by blast
  from easy_fs_refines [OF disk_example_ok(1) e(2), unfolded e(3,4), OF ops_example_ok(1)] e(1) show ?thesis
    unfolding ops_example_ok(2) by auto
qed

theorem easy_fs_durable_witness:
  "\<exists>e s s' s1 s2. efs_create BlockFile 1100 1 \<lparr>queue = [], device = disk_example\<rparr> = Ok (e, s)
    \<and> run_ops BlockFile e ops_example s = Ok ([Created True, Written (Some 3), Data (Some (3, [0, 7, 8])), Created False, Names [[97]]], s')
    \<and> block_cache_sync_all BlockFile s' = Ok s1 \<and> efs_open BlockFile \<lparr>queue = [], device = device s1\<rparr> = Ok (e, s2)
    \<and> fs_refines BlockFile 1100 (\<lambda>f. 1100 * BLOCK_SIZE \<le> length f) e s2 [([97], [0, 0, 7, 8, 9])]"
proof -
  have "ops_fit (fs_capacity 1100 1) (4096 * unat (1 :: u32)) ops_example []" using ops_example_ok(1) disk_example_ok(5) by simp
  moreover have "block_device BlockFile (unat (1100 :: u32)) (\<lambda>f. 1100 * BLOCK_SIZE \<le> length f)"
    unfolding disk_example_ok(3) by (rule disk_example_ok(1))
  ultimately show ?thesis
    using easy_fs_durable [of BlockFile 1100 "\<lambda>f. 1100 * BLOCK_SIZE \<le> length f" disk_example 1 ops_example] disk_example_ok(2,4)
    unfolding ops_example_ok(2) disk_example_ok(3) fst_conv snd_conv by blast
qed

theorem easy_fs_blocks_partitioned_witness:
  "\<exists>e s rs s'. efs_create BlockFile 1100 1 \<lparr>queue = [], device = disk_example\<rparr> = Ok (e, s) \<and> run_ops BlockFile e ops_example s = Ok (rs, s')
    \<and> (\<forall>b \<in> data_free 1100 e (view BlockFile 1100 s'). view BlockFile 1100 s' b = replicate 512 0)"
proof -
  from fs_example obtain e s where e: "efs_create BlockFile 1100 1 \<lparr>queue = [], device = disk_example\<rparr> = Ok (e, s)"
    "fs_refines BlockFile 1100 (\<lambda>f. 1100 * BLOCK_SIZE \<le> length f) e s []" "1100 - da_start e = 73" "Bitmap_maximum (inode_bitmap e) = 4096" by blast
  have fits: "ops_fit (1100 - da_start e) (Bitmap_maximum (inode_bitmap e)) ops_example []" unfolding e(3,4) by (rule ops_example_ok(1))
  from block_device.run_ops_refines [OF disk_example_ok(1) e(2) fits] obtain rs s' where
    run: "run_ops BlockFile e ops_example s = Ok (rs, s')" by blast
  from easy_fs_blocks_partitioned [OF disk_example_ok(1) e(2) fits run refl, THEN conjunct2, THEN conjunct2, THEN conjunct2] e(1) run
  show ?thesis by (intro exI conjI)
qed

theorem easy_fs_write_read_witness:
  "\<exists>e s s1 s'. efs_create BlockFile 1100 1 \<lparr>queue = [], device = disk_example\<rparr> = Ok (e, s) \<and> run_ops BlockFile e ops_example s = Ok s1
    \<and> run_ops BlockFile e [WriteFile [97] 4 [5, 6], ReadFile [97] 4 [0, 0], ReadFile [97] 0 [0, 0, 0, 0, 0]] (snd s1)
      = Ok ([Written (Some 2), Data (Some (2, [5, 6])), Data (Some (5, [0, 0, 7, 8, 5]))], s')"
proof -
  let ?ok = "\<lambda>f :: u8 list. 1100 * BLOCK_SIZE \<le> length f"
  from fs_example obtain e s where e: "efs_create BlockFile 1100 1 \<lparr>queue = [], device = disk_example\<rparr> = Ok (e, s)"
    "fs_refines BlockFile 1100 ?ok e s []" "1100 - da_start e = 73" "Bitmap_maximum (inode_bitmap e) = 4096" by blast
  have fits: "ops_fit (1100 - da_start e) (Bitmap_maximum (inode_bitmap e)) ops_example []" unfolding e(3,4) by (rule ops_example_ok(1))
  from block_device.run_ops_refines [OF disk_example_ok(1) e(2) fits] obtain rs s1 where
    run: "run_ops BlockFile e ops_example s = Ok (rs, s1)" "fs_refines BlockFile 1100 ?ok e s1 [([97], [0, 0, 7, 8, 9])]"
    unfolding ops_example_ok(2) by auto
  have "fs_need (set_file [97] (file_write [0, 0, 7, 8, 9] 4 [5, 6]) [([97], [0, 0, 7, 8, 9])]) \<le> 1100 - da_start e"
    by (simp add: e(3) fs_need_def set_file_def length_file_write DIR_ENTRY_SIZE_def blocks_for_def index_count_def)
  from easy_fs_write_read [OF disk_example_ok(1) run(2) _ _ this, of "[0, 0]" "[0, 0, 0, 0, 0]"] e(1) run(1) show ?thesis
    by (auto simp: max_file_size_eq)
qed

end
