(* ===== verification/Byte_Queue.thy ===== *)
theory Byte_Queue
  imports Prelude
begin

text \<open>
  The contract of a bounded first-in-first-out queue, which the ring buffer of a pipe
  (\<^verbatim>\<open>fs/pipe.rs\<close>) promises to the two ends of the pipe. The abstract value of a queue is
  the list of its elements, oldest first; taking from a non-empty queue and putting into
  one with room always succeed. Runs of such operations are treated once, in the locale.
\<close>

fun deq_seq :: "('q \<Rightarrow> ('b \<times> 'q) outcome) \<Rightarrow> nat \<Rightarrow> 'q \<Rightarrow> ('b list \<times> 'q) outcome" where
  "deq_seq deq 0 q = Ok ([], q)"
| "deq_seq deq (Suc n) q =
     and_then (deq q) (\<lambda>(b, q'). and_then (deq_seq deq n q') (\<lambda>(bs, q''). Ok (b # bs, q'')))"

fun enq_seq :: "('b \<Rightarrow> 'q \<Rightarrow> 'q outcome) \<Rightarrow> 'b list \<Rightarrow> 'q \<Rightarrow> 'q outcome" where
  "enq_seq enq [] q = Ok q"
| "enq_seq enq (b # bs) q = and_then (enq b q) (enq_seq enq bs)"

locale bounded_queue =
  fixes enq :: "'b \<Rightarrow> 'q \<Rightarrow> 'q outcome"
    and deq :: "'q \<Rightarrow> ('b \<times> 'q) outcome"
    and contents :: "'q \<Rightarrow> 'b list"
    and inv :: "'q \<Rightarrow> bool"
    and cap :: nat
  assumes contents_cap: "inv q \<Longrightarrow> length (contents q) \<le> cap"
    and deq_law: "inv q \<Longrightarrow> contents q = b # bs \<Longrightarrow> \<exists>q'. deq q = Ok (b, q') \<and> inv q' \<and> contents q' = bs"
    and enq_law: "inv q \<Longrightarrow> length (contents q) < cap \<Longrightarrow>
      \<exists>q'. enq b q = Ok q' \<and> inv q' \<and> contents q' = contents q @ [b]"
begin

lemma deq_seq_law:
  assumes "inv q" and "n \<le> length (contents q)"
  shows "\<exists>q'. deq_seq deq n q = Ok (take n (contents q), q') \<and> inv q' \<and> contents q' = drop n (contents q)"
  using assms
proof (induction n arbitrary: q)
  case (Suc n)
  then obtain b bs where bs: "contents q = b # bs" by (cases "contents q") auto
  with deq_law [OF Suc.prems(1)] obtain q1 where q1: "deq q = Ok (b, q1)" "inv q1" "contents q1 = bs"
    by blast
  with Suc.IH [of q1] Suc.prems(2) bs show ?case by auto
qed simp

lemma enq_seq_law:
  assumes "inv q" and "length (contents q) + length bs \<le> cap"
  shows "\<exists>q'. enq_seq enq bs q = Ok q' \<and> inv q' \<and> contents q' = contents q @ bs"
  using assms
proof (induction bs arbitrary: q)
  case (Cons b bs)
  then obtain q1 where q1: "enq b q = Ok q1" "inv q1" "contents q1 = contents q @ [b]"
    using enq_law [of q b] by auto
  with Cons.IH [of q1] Cons.prems(2) show ?case by auto
qed simp

lemma enq_deq_seq:
  assumes "inv q" and "length (contents q) + length bs \<le> cap"
  shows "\<exists>q1 q2. enq_seq enq bs q = Ok q1
    \<and> deq_seq deq (length (contents q) + length bs) q1 = Ok (contents q @ bs, q2)
    \<and> inv q2 \<and> contents q2 = []"
proof -
  from enq_seq_law [OF assms] obtain q1
    where q1: "enq_seq enq bs q = Ok q1" "inv q1" "contents q1 = contents q @ bs" by blast
  from deq_seq_law [OF q1(2), of "length (contents q) + length bs"] q1(3)
  obtain q2 where "deq_seq deq (length (contents q) + length bs) q1 = Ok (contents q @ bs, q2)"
    "inv q2" "contents q2 = []" by auto
  with q1 show ?thesis by blast
qed

end

end
