(* ===== verification/Pipe.thy ===== *)
theory Pipe
  imports User_Buffer Byte_Queue
begin

text \<open>
  Pipes, \<^verbatim>\<open>src/src/os/src/fs/pipe.rs\<close>: a ring buffer of 32 bytes shared by a read end and a
  write end. A call of \<^verbatim>\<open>read\<close> or \<^verbatim>\<open>write\<close> runs in rounds of its outer loop; between two
  rounds it may be suspended and other processes run, so a round is the unit of
  interleaving. Positions in the buffer are below 32 and are natural numbers here.
  The weak reference to the write end is the identifier of the write end, together with the
  number of strong references to each pipe end.
\<close>

section \<open>Model\<close>

definition RING_BUFFER_SIZE :: nat where "RING_BUFFER_SIZE = 32"

datatype RingBufferStatus = Full | Empty | Normal

record PipeRingBuffer =
  arr :: "u8 list"
  head :: nat
  tail :: nat
  status :: RingBufferStatus
  write_end :: "nat option"

definition PipeRingBuffer_new :: PipeRingBuffer where
  "PipeRingBuffer_new =
     \<lparr>arr = replicate RING_BUFFER_SIZE 0, head = 0, tail = 0, status = Empty, write_end = None\<rparr>"

definition read_byte :: "PipeRingBuffer \<Rightarrow> (u8 \<times> PipeRingBuffer) outcome" where
  "read_byte q =
     and_then (index (arr q) (head q)) (\<lambda>b.
       let q1 = q\<lparr>status := Normal, head := (head q + 1) mod RING_BUFFER_SIZE\<rparr>
       in Ok (b, if head q1 = tail q1 then q1\<lparr>status := Empty\<rparr> else q1))"

definition write_byte :: "u8 \<Rightarrow> PipeRingBuffer \<Rightarrow> PipeRingBuffer outcome" where
  "write_byte b q =
     (if tail q < length (arr q) then
        let q1 = q\<lparr>status := Normal, arr := (arr q)[tail q := b],
                   tail := (tail q + 1) mod RING_BUFFER_SIZE\<rparr>
        in Ok (if head q1 = tail q1 then q1\<lparr>status := Full\<rparr> else q1)
      else Panic OutOfBounds)"

definition available_read :: "PipeRingBuffer \<Rightarrow> nat" where
  "available_read q =
     (if status q = Empty then 0
      else if tail q > head q then tail q - head q
      else RING_BUFFER_SIZE - head q + tail q)"

definition available_write :: "PipeRingBuffer \<Rightarrow> nat" where
  "available_write q =
     (if status q = Full then 0 else RING_BUFFER_SIZE - available_read q)"

text \<open>\<open>strong p\<close> is the number of strong references to pipe end \<open>p\<close>; \<^verbatim>\<open>upgrade\<close> fails when it is 0.\<close>

definition all_write_ends_closed :: "(nat \<Rightarrow> nat) \<Rightarrow> PipeRingBuffer \<Rightarrow> bool outcome" where
  "all_write_ends_closed strong q = and_then (unwrap (write_end q)) (\<lambda>w. Ok (strong w = 0))"

definition set_write_end :: "nat \<Rightarrow> PipeRingBuffer \<Rightarrow> PipeRingBuffer" where
  "set_write_end w q = q\<lparr>write_end := Some w\<rparr>"

text \<open>A pipe end; the shared buffer is named by a number.\<close>

record Pipe =
  pipe_readable :: bool
  pipe_writable :: bool
  pipe_buffer :: nat

definition read_end_with_buffer :: "nat \<Rightarrow> Pipe" where
  "read_end_with_buffer buf = \<lparr>pipe_readable = True, pipe_writable = False, pipe_buffer = buf\<rparr>"

definition write_end_with_buffer :: "nat \<Rightarrow> Pipe" where
  "write_end_with_buffer buf = \<lparr>pipe_readable = False, pipe_writable = True, pipe_buffer = buf\<rparr>"

text \<open>
  \<^verbatim>\<open>make_pipe\<close> with the identifier \<open>buf\<close> for the new shared buffer and \<open>w\<close> for the new write end.
\<close>

definition make_pipe :: "nat \<Rightarrow> nat \<Rightarrow> Pipe \<times> Pipe \<times> PipeRingBuffer" where
  "make_pipe buf w =
     (read_end_with_buffer buf, write_end_with_buffer buf, set_write_end w PipeRingBuffer_new)"

text \<open>The local state of a call together with the shared buffer and the memory it works on.\<close>

record pipe_call =
  pc_buf :: PipeRingBuffer
  pc_mem :: memory
  pc_iter :: UserBufferIterator
  pc_size :: nat

datatype round = Returned | Continue | Suspended

fun Pipe_read_for :: "nat \<Rightarrow> pipe_call \<Rightarrow> (round \<times> pipe_call) outcome" where
  "Pipe_read_for 0 c = Ok (Continue, c)"
| "Pipe_read_for (Suc n) c =
     and_then (UserBufferIterator_next (pc_iter c)) (\<lambda>(r, it).
       case r of
         None \<Rightarrow> Ok (Returned, c\<lparr>pc_iter := it\<rparr>)
       | Some byte_ref \<Rightarrow>
           and_then (read_byte (pc_buf c)) (\<lambda>(b, q).
             Pipe_read_for n (c\<lparr>pc_buf := q, pc_mem := (pc_mem c)(byte_ref := b),
                                pc_iter := it, pc_size := pc_size c + 1\<rparr>)))"

definition Pipe_read_round :: "(nat \<Rightarrow> nat) \<Rightarrow> pipe_call \<Rightarrow> (round \<times> pipe_call) outcome" where
  "Pipe_read_round strong c =
     (let loop_read_size = available_read (pc_buf c) in
      if loop_read_size = 0 then
        and_then (all_write_ends_closed strong (pc_buf c)) (\<lambda>closed.
          Ok (if closed then Returned else Suspended, c))
      else Pipe_read_for loop_read_size c)"

fun Pipe_write_for :: "nat \<Rightarrow> pipe_call \<Rightarrow> (round \<times> pipe_call) outcome" where
  "Pipe_write_for 0 c = Ok (Continue, c)"
| "Pipe_write_for (Suc n) c =
     and_then (UserBufferIterator_next (pc_iter c)) (\<lambda>(r, it).
       case r of
         None \<Rightarrow> Ok (Returned, c\<lparr>pc_iter := it\<rparr>)
       | Some byte_ptr \<Rightarrow>
           and_then (write_byte (pc_mem c byte_ptr) (pc_buf c)) (\<lambda>q.
             Pipe_write_for n (c\<lparr>pc_buf := q, pc_iter := it, pc_size := pc_size c + 1\<rparr>)))"

definition Pipe_write_round :: "pipe_call \<Rightarrow> (round \<times> pipe_call) outcome" where
  "Pipe_write_round c =
     (let loop_write_size = available_write (pc_buf c) in
      if loop_write_size = 0 then Ok (Suspended, c)
      else Pipe_write_for loop_write_size c)"

text \<open>The beginning of a call, before its first round.\<close>

definition Pipe_read_start :: "Pipe \<Rightarrow> PipeRingBuffer \<Rightarrow> memory \<Rightarrow> UserBuffer \<Rightarrow> pipe_call outcome" where
  "Pipe_read_start p q m buf =
     and_then (assert_that (pipe_readable p)) (\<lambda>_.
       Ok \<lparr>pc_buf = q, pc_mem = m, pc_iter = UserBuffer_into_iter buf, pc_size = 0\<rparr>)"

definition Pipe_write_start :: "Pipe \<Rightarrow> PipeRingBuffer \<Rightarrow> memory \<Rightarrow> UserBuffer \<Rightarrow> pipe_call outcome" where
  "Pipe_write_start p q m buf =
     and_then (assert_that (pipe_writable p)) (\<lambda>_.
       Ok \<lparr>pc_buf = q, pc_mem = m, pc_iter = UserBuffer_into_iter buf, pc_size = 0\<rparr>)"

section \<open>The ring buffer is a bounded queue\<close>

definition rb_contents :: "PipeRingBuffer \<Rightarrow> u8 list" where
  "rb_contents q = map (\<lambda>i. arr q ! ((head q + i) mod 32)) [0..<available_read q]"

definition rb_inv :: "PipeRingBuffer \<Rightarrow> bool" where
  "rb_inv q \<longleftrightarrow> length (arr q) = 32 \<and> head q < 32 \<and> tail q < 32
     \<and> (status q = Normal \<longleftrightarrow> head q \<noteq> tail q)"

lemma rb_inv_new: "rb_inv (set_write_end w PipeRingBuffer_new)" "rb_contents (set_write_end w PipeRingBuffer_new) = []"
  by (simp_all add: rb_inv_def rb_contents_def PipeRingBuffer_new_def set_write_end_def available_read_def
      RING_BUFFER_SIZE_def)

lemma length_rb_contents [simp]: "length (rb_contents q) = available_read q"
  by (simp add: rb_contents_def)

lemma available_read_le: "rb_inv q \<Longrightarrow> available_read q \<le> 32"
  by (cases "status q") (auto simp: rb_inv_def available_read_def RING_BUFFER_SIZE_def)

lemma available_write_eq: "rb_inv q \<Longrightarrow> available_write q = 32 - available_read q"
  by (cases "status q") (auto simp: rb_inv_def available_write_def available_read_def RING_BUFFER_SIZE_def)

lemma available_read_tail: "rb_inv q \<Longrightarrow> (head q + available_read q) mod 32 = tail q"
  by (cases "status q") (auto simp: rb_inv_def available_read_def RING_BUFFER_SIZE_def)

lemma Suc_mod_32: "n < 32 \<Longrightarrow> Suc n mod 32 = (if n = 31 then 0 else Suc n)"
  by auto

lemma read_byte_law:
  assumes inv: "rb_inv q" and cons: "rb_contents q = b # bs"
  shows "\<exists>q'. read_byte q = Ok (b, q') \<and> rb_inv q' \<and> rb_contents q' = bs \<and> write_end q' = write_end q"
proof -
  obtain n where n: "available_read q = Suc n" using arg_cong [OF cons, of length] by auto
  define q1 where "q1 = q\<lparr>status := Normal, head := (head q + 1) mod RING_BUFFER_SIZE\<rparr>"
  define q' where "q' = (if head q1 = tail q1 then q1\<lparr>status := Empty\<rparr> else q1)"
  have b: "b = arr q ! head q" and bs: "bs = map (\<lambda>i. arr q ! ((head q + Suc i) mod 32)) [0..<n]"
    using cons inv by (auto simp: rb_contents_def n rb_inv_def upt_conv_Cons map_Suc_upt [symmetric] simp del: upt_Suc)
  have read: "read_byte q = Ok (b, q')"
    using inv b by (simp add: read_byte_def q'_def q1_def Let_def rb_inv_def)
  have ar: "available_read q' = n"
    using inv n by (cases "status q")
      (auto simp: q'_def q1_def available_read_def rb_inv_def RING_BUFFER_SIZE_def Suc_mod_32 split: if_splits)
  have q': "arr q' = arr q" "head q' = Suc (head q) mod 32"
    by (simp_all add: q'_def q1_def RING_BUFFER_SIZE_def)
  have "rb_contents q' = bs"
    unfolding rb_contents_def ar bs q' by (simp add: mod_simps)
  moreover have "rb_inv q'" using inv by (auto simp: q'_def q1_def rb_inv_def RING_BUFFER_SIZE_def)
  ultimately show ?thesis using read by (simp add: q'_def q1_def)
qed

lemma write_byte_law:
  assumes inv: "rb_inv q" and room: "available_read q < 32"
  shows "\<exists>q'. write_byte b q = Ok q' \<and> rb_inv q' \<and> rb_contents q' = rb_contents q @ [b]
    \<and> write_end q' = write_end q"
proof -
  define q1 where "q1 = q\<lparr>status := Normal, arr := (arr q)[tail q := b], tail := (tail q + 1) mod RING_BUFFER_SIZE\<rparr>"
  define q' where "q' = (if head q1 = tail q1 then q1\<lparr>status := Full\<rparr> else q1)"
  have wr: "write_byte b q = Ok q'"
    using inv by (simp add: write_byte_def q'_def q1_def Let_def rb_inv_def)
  have ar: "available_read q' = Suc (available_read q)"
    using inv room by (cases "status q")
      (auto simp: q'_def q1_def available_read_def rb_inv_def RING_BUFFER_SIZE_def Suc_mod_32 split: if_splits)
  have arr': "arr q' = (arr q)[tail q := b]" "head q' = head q" by (simp_all add: q'_def q1_def)
  have old: "(arr q)[tail q := b] ! ((head q + i) mod 32) = arr q ! ((head q + i) mod 32)"
    if "i < available_read q" for i
  proof -
    have "(head q + i) mod 32 \<noteq> (head q + available_read q) mod 32"
    proof
      assume "(head q + i) mod 32 = (head q + available_read q) mod 32"
      then have "32 dvd (head q + available_read q) - (head q + i)"
        using that mod_eq_dvd_iff_nat [of "head q + i" "head q + available_read q" 32] by simp
      with that room show False by (auto dest: dvd_imp_le)
    qed
    then show ?thesis using available_read_tail [OF inv] by simp
  qed
  have "rb_contents q' = rb_contents q @ [b]"
    using old inv available_read_tail [OF inv]
    by (simp add: rb_contents_def ar arr' rb_inv_def)
  moreover have "rb_inv q'" using inv by (auto simp: q'_def q1_def rb_inv_def RING_BUFFER_SIZE_def)
  ultimately show ?thesis using wr by (simp add: q'_def q1_def)
qed

interpretation ring: bounded_queue write_byte read_byte rb_contents rb_inv 32
proof unfold_locales
  show "\<And>q. rb_inv q \<Longrightarrow> length (rb_contents q) \<le> 32" by (simp add: available_read_le)
  show "\<And>q b bs. rb_inv q \<Longrightarrow> rb_contents q = b # bs \<Longrightarrow>
      \<exists>q'. read_byte q = Ok (b, q') \<and> rb_inv q' \<and> rb_contents q' = bs"
    using read_byte_law by blast
  show "\<And>q b. rb_inv q \<Longrightarrow> length (rb_contents q) < 32 \<Longrightarrow>
      \<exists>q'. write_byte b q = Ok q' \<and> rb_inv q' \<and> rb_contents q' = rb_contents q @ [b]"
    using write_byte_law by fastforce
qed

section \<open>The rounds of a call\<close>

definition store_list :: "memory \<Rightarrow> nat list \<Rightarrow> u8 list \<Rightarrow> memory" where
  "store_list m as bs = fold (\<lambda>(a, b) m. m(a := b)) (zip as bs) m"

lemma store_list_simps [simp]:
  "store_list m [] bs = m"
  "store_list m as [] = m"
  "store_list m (a # as) (b # bs) = store_list (m(a := b)) as bs"
  by (simp_all add: store_list_def)

lemma store_list_other: "x \<notin> set as \<Longrightarrow> store_list m as bs x = m x"
proof (induction as arbitrary: m bs)
  case (Cons a as)
  then show ?case by (cases bs) auto
qed simp

lemma map_store_list:
  "distinct as \<Longrightarrow> length as = length bs \<Longrightarrow> map (store_list m as bs) as = bs"
proof (induction as arbitrary: m bs)
  case (Cons a as)
  then obtain b bs' where "bs = b # bs'" by (cases bs) auto
  with Cons show ?case by (simp add: store_list_other)
qed simp

text \<open>
  \<open>moved k c c'\<close>: the call has advanced by \<open>k\<close> bytes of its user buffer and the ring buffer is
  still well formed, with the same write end.
\<close>

definition moved :: "nat \<Rightarrow> pipe_call \<Rightarrow> pipe_call \<Rightarrow> bool" where
  "moved k c c' \<longleftrightarrow>
     k \<le> length (ubi_rest (pc_iter c)) \<and> pc_size c' = pc_size c + k
     \<and> ubi_ok (pc_iter c') \<and> ubi_rest (pc_iter c') = drop k (ubi_rest (pc_iter c))
     \<and> rb_inv (pc_buf c') \<and> write_end (pc_buf c') = write_end (pc_buf c)"

definition call_ok :: "pipe_call \<Rightarrow> bool" where
  "call_ok c \<longleftrightarrow> rb_inv (pc_buf c) \<and> ubi_ok (pc_iter c)"

lemma Pipe_read_for_law:
  assumes "call_ok c" and "n \<le> available_read (pc_buf c)" and "k = min n (length (ubi_rest (pc_iter c)))"
  shows "\<exists>c'. Pipe_read_for n c = Ok (if length (ubi_rest (pc_iter c)) < n then Returned else Continue, c')
    \<and> moved k c c' \<and> rb_contents (pc_buf c') = drop k (rb_contents (pc_buf c))
    \<and> pc_mem c' = store_list (pc_mem c) (take k (ubi_rest (pc_iter c))) (take k (rb_contents (pc_buf c)))"
  using assms
proof (induction n arbitrary: c k)
  case 0
  then show ?case by (auto simp: moved_def call_ok_def)
next
  case (Suc n)
  from UserBufferIterator_next_Ok [of "pc_iter c"] Suc.prems(1) obtain it
    where it: "UserBufferIterator_next (pc_iter c) = Ok (case ubi_rest (pc_iter c) of [] \<Rightarrow> None | x # _ \<Rightarrow> Some x, it)"
      "ubi_ok it" "ubi_rest it = tl (ubi_rest (pc_iter c))"
    by (auto simp: call_ok_def)
  show ?case
  proof (cases "ubi_rest (pc_iter c)")
    case Nil
    with it Suc.prems show ?thesis by (auto simp: moved_def call_ok_def)
  next
    case (Cons a as)
    obtain b bs where bs: "rb_contents (pc_buf c) = b # bs"
      using Suc.prems(2) length_rb_contents [of "pc_buf c"] by (cases "rb_contents (pc_buf c)") auto
    with read_byte_law [of "pc_buf c"] Suc.prems(1) obtain q
      where q: "read_byte (pc_buf c) = Ok (b, q)" "rb_inv q" "rb_contents q = bs" "write_end q = write_end (pc_buf c)"
      by (auto simp: call_ok_def)
    define c1 where "c1 = c\<lparr>pc_buf := q, pc_mem := (pc_mem c)(a := b), pc_iter := it, pc_size := pc_size c + 1\<rparr>"
    have c1: "call_ok c1" "pc_buf c1 = q" "pc_mem c1 = (pc_mem c)(a := b)" "ubi_rest (pc_iter c1) = as"
      "pc_size c1 = pc_size c + 1"
      using q(2) it Cons by (simp_all add: c1_def call_ok_def)
    have "available_read q = length bs" using q(3) length_rb_contents [of q] by simp
    moreover have "available_read (pc_buf c) = Suc (length bs)"
      using bs length_rb_contents [of "pc_buf c"] by simp
    ultimately have "n \<le> available_read (pc_buf c1)" using Suc.prems(2) c1(2) by simp
    from Suc.IH [OF c1(1) this refl] obtain c' where
      c': "Pipe_read_for n c1 = Ok (if length as < n then Returned else Continue, c')"
        "moved (min n (length as)) c1 c'" "rb_contents (pc_buf c') = drop (min n (length as)) bs"
        "pc_mem c' = store_list ((pc_mem c)(a := b)) (take (min n (length as)) as) (take (min n (length as)) bs)"
      unfolding c1 q(3) by blast
    moreover have "Pipe_read_for (Suc n) c = Pipe_read_for n c1" using it q(1) Cons by (simp add: c1_def)
    ultimately show ?thesis
      using Suc.prems(3) Cons bs c1 q(4) by (auto simp: moved_def)
  qed
qed

lemma Pipe_write_for_law:
  assumes "call_ok c" and "n + available_read (pc_buf c) \<le> 32" and "k = min n (length (ubi_rest (pc_iter c)))"
  shows "\<exists>c'. Pipe_write_for n c = Ok (if length (ubi_rest (pc_iter c)) < n then Returned else Continue, c')
    \<and> moved k c c' \<and> pc_mem c' = pc_mem c
    \<and> rb_contents (pc_buf c') = rb_contents (pc_buf c) @ map (pc_mem c) (take k (ubi_rest (pc_iter c)))"
  using assms
proof (induction n arbitrary: c k)
  case 0
  then show ?case by (auto simp: moved_def call_ok_def)
next
  case (Suc n)
  from UserBufferIterator_next_Ok [of "pc_iter c"] Suc.prems(1) obtain it
    where it: "UserBufferIterator_next (pc_iter c) = Ok (case ubi_rest (pc_iter c) of [] \<Rightarrow> None | x # _ \<Rightarrow> Some x, it)"
      "ubi_ok it" "ubi_rest it = tl (ubi_rest (pc_iter c))"
    by (auto simp: call_ok_def)
  show ?case
  proof (cases "ubi_rest (pc_iter c)")
    case Nil
    with it Suc.prems show ?thesis by (auto simp: moved_def call_ok_def)
  next
    case (Cons a as)
    from write_byte_law [of "pc_buf c" "pc_mem c a"] Suc.prems(1,2) obtain q
      where q: "write_byte (pc_mem c a) (pc_buf c) = Ok q" "rb_inv q"
        "rb_contents q = rb_contents (pc_buf c) @ [pc_mem c a]" "write_end q = write_end (pc_buf c)"
      by (auto simp: call_ok_def)
    define c1 where "c1 = c\<lparr>pc_buf := q, pc_iter := it, pc_size := pc_size c + 1\<rparr>"
    have c1: "call_ok c1" "pc_buf c1 = q" "pc_mem c1 = pc_mem c" "ubi_rest (pc_iter c1) = as"
      "pc_size c1 = pc_size c + 1"
      using q(2) it Cons by (simp_all add: c1_def call_ok_def)
    have "available_read q = Suc (available_read (pc_buf c))"
      using arg_cong [OF q(3), of length] by simp
    then have "n + available_read (pc_buf c1) \<le> 32" using Suc.prems(2) c1(2) by simp
    from Suc.IH [OF c1(1) this refl] obtain c' where
      c': "Pipe_write_for n c1 = Ok (if length as < n then Returned else Continue, c')"
        "moved (min n (length as)) c1 c'" "pc_mem c' = pc_mem c"
        "rb_contents (pc_buf c') = (rb_contents (pc_buf c) @ [pc_mem c a]) @ map (pc_mem c) (take (min n (length as)) as)"
      unfolding c1 q(3) by blast
    moreover have "Pipe_write_for (Suc n) c = Pipe_write_for n c1" using it q(1) Cons by (simp add: c1_def)
    ultimately show ?thesis
      using Suc.prems(3) Cons c1 q(4) by (auto simp: moved_def)
  qed
qed

lemma Pipe_read_round_law:
  assumes ok: "call_ok c" and w: "write_end (pc_buf c) = Some w"
    and k: "k = min (available_read (pc_buf c)) (length (ubi_rest (pc_iter c)))"
  shows "\<exists>r c'. Pipe_read_round strong c = Ok (r, c') \<and> moved k c c'
    \<and> rb_contents (pc_buf c') = drop k (rb_contents (pc_buf c))
    \<and> pc_mem c' = store_list (pc_mem c) (take k (ubi_rest (pc_iter c))) (take k (rb_contents (pc_buf c)))
    \<and> r = (if available_read (pc_buf c) = 0 then (if strong w = 0 then Returned else Suspended)
           else if length (ubi_rest (pc_iter c)) < available_read (pc_buf c) then Returned else Continue)"
proof (cases "available_read (pc_buf c) = 0")
  case True
  then have "rb_contents (pc_buf c) = []" by (simp add: rb_contents_def)
  with True k w ok show ?thesis
    by (auto simp: Pipe_read_round_def all_write_ends_closed_def moved_def call_ok_def)
next
  case False
  with Pipe_read_for_law [OF ok order_refl k] show ?thesis
    by (auto simp: Pipe_read_round_def Let_def)
qed

lemma Pipe_write_round_law:
  assumes ok: "call_ok c"
    and k: "k = min (32 - available_read (pc_buf c)) (length (ubi_rest (pc_iter c)))"
  shows "\<exists>r c'. Pipe_write_round c = Ok (r, c') \<and> moved k c c' \<and> pc_mem c' = pc_mem c
    \<and> rb_contents (pc_buf c') = rb_contents (pc_buf c) @ map (pc_mem c) (take k (ubi_rest (pc_iter c)))
    \<and> r = (if available_read (pc_buf c) = 32 then Suspended
           else if length (ubi_rest (pc_iter c)) < 32 - available_read (pc_buf c) then Returned else Continue)"
proof -
  have inv: "rb_inv (pc_buf c)" using ok by (simp add: call_ok_def)
  note av = available_write_eq [OF inv] available_read_le [OF inv]
  show ?thesis
  proof (cases "available_read (pc_buf c) = 32")
    case True
    with k av ok show ?thesis by (auto simp: Pipe_write_round_def moved_def call_ok_def)
  next
    case False
    have "32 - available_read (pc_buf c) + available_read (pc_buf c) \<le> 32" using av(2) by simp
    from Pipe_write_for_law [OF ok this k] False av show ?thesis
      by (auto simp: Pipe_write_round_def Let_def)
  qed
qed

section \<open>Interleaved readers and writers\<close>

text \<open>
  Any number of processes read from and write to a pipe, one round at a time. The history
  variables hold the bytes that writers have taken from their buffers and the bytes that
  readers find in theirs.
\<close>

record pipe_sys =
  ps_ring :: PipeRingBuffer
  ps_sent :: "u8 list"
  ps_received :: "u8 list"

inductive pipe_step :: "pipe_sys \<Rightarrow> pipe_sys \<Rightarrow> bool" where
  reader: "\<lbrakk>pc_buf c = ps_ring s; ubi_ok (pc_iter c); distinct (ubi_rest (pc_iter c));
          Pipe_read_round strong c = Ok (r, c')\<rbrakk>
    \<Longrightarrow> pipe_step s (s\<lparr>ps_ring := pc_buf c',
          ps_received := ps_received s
            @ map (pc_mem c') (take (pc_size c' - pc_size c) (ubi_rest (pc_iter c)))\<rparr>)"
| writer: "\<lbrakk>pc_buf c = ps_ring s; ubi_ok (pc_iter c); Pipe_write_round c = Ok (r, c')\<rbrakk>
    \<Longrightarrow> pipe_step s (s\<lparr>ps_ring := pc_buf c',
          ps_sent := ps_sent s
            @ map (pc_mem c) (take (pc_size c' - pc_size c) (ubi_rest (pc_iter c)))\<rparr>)"

definition pipe_init :: "nat \<Rightarrow> pipe_sys" where
  "pipe_init w = \<lparr>ps_ring = snd (snd (make_pipe 0 w)), ps_sent = [], ps_received = []\<rparr>"

definition pipe_inv :: "pipe_sys \<Rightarrow> bool" where
  "pipe_inv s \<longleftrightarrow> rb_inv (ps_ring s) \<and> write_end (ps_ring s) \<noteq> None
     \<and> ps_sent s = ps_received s @ rb_contents (ps_ring s)"

lemma pipe_inv_init: "pipe_inv (pipe_init w)"
  by (simp add: pipe_inv_def pipe_init_def make_pipe_def rb_inv_new) (simp add: set_write_end_def)

lemma pipe_inv_step:
  assumes "pipe_step s s'" and "pipe_inv s"
  shows "pipe_inv s'"
  using assms
proof cases
  case (reader c strong r c')
  have ok: "call_ok c" using reader assms(2) by (simp add: call_ok_def pipe_inv_def)
  obtain w where w: "write_end (pc_buf c) = Some w" using reader assms(2) by (auto simp: pipe_inv_def)
  define k where "k = min (available_read (pc_buf c)) (length (ubi_rest (pc_iter c)))"
  from Pipe_read_round_law [OF ok w k_def, of strong] reader(5)
  have m: "moved k c c'" "rb_contents (pc_buf c') = drop k (rb_contents (pc_buf c))"
    "pc_mem c' = store_list (pc_mem c) (take k (ubi_rest (pc_iter c))) (take k (rb_contents (pc_buf c)))"
    by auto
  have "map (pc_mem c') (take k (ubi_rest (pc_iter c))) = take k (rb_contents (pc_buf c))"
    unfolding m(3) using reader(4) by (intro map_store_list) (simp_all add: k_def)
  then show ?thesis
    using m(1,2) assms(2) reader(1,2) w by (auto simp: pipe_inv_def moved_def)
next
  case (writer c r c')
  have ok: "call_ok c" using writer assms(2) by (simp add: call_ok_def pipe_inv_def)
  from Pipe_write_round_law [OF ok refl] writer(4) show ?thesis
    using assms(2) writer(1,2) by (auto simp: pipe_inv_def moved_def)
qed

section \<open>Properties\<close>

text \<open>
  The ring buffer is a faithful bounded queue: bytes written to it while they fit, after
  what it already holds, are read back in the order of writing, and the buffer is then
  empty. No read or write of this kind panics.
\<close>

theorem ring_buffer_fifo:
  assumes "rb_inv q" and "length (rb_contents q) + length bs \<le> 32"
  shows "\<exists>q1 q2. enq_seq write_byte bs q = Ok q1
    \<and> deq_seq read_byte (length (rb_contents q) + length bs) q1 = Ok (rb_contents q @ bs, q2)
    \<and> rb_inv q2 \<and> rb_contents q2 = []"
  using assms by (rule ring.enq_deq_seq)

text \<open>
  C12. A pipe loses, duplicates and reorders nothing: however the rounds of any number of
  reading and writing calls are interleaved, the bytes taken from the writers' buffers are
  the bytes delivered to the readers followed by the bytes still in the ring buffer, of
  which there are at most 32.
\<close>

theorem pipe_stream_integrity:
  assumes "pipe_step\<^sup>*\<^sup>* (pipe_init w) s"
  shows "ps_sent s = ps_received s @ rb_contents (ps_ring s) \<and> available_read (ps_ring s) \<le> 32"
proof -
  from assms have "pipe_inv s"
    by (induction rule: rtranclp_induct) (auto intro: pipe_inv_init pipe_inv_step)
  then show ?thesis by (auto simp: pipe_inv_def intro: available_read_le)
qed

text \<open>
  One round of a reading call on a pipe with a write end: it never panics, moves as many
  bytes as are available and fit into the user buffer, stores them there in order, and
  touches no other memory. It returns to the caller only if the user buffer is full, or the
  pipe is empty and every write end is closed; it is suspended only if the pipe is empty and
  a write end is open.
\<close>

theorem Pipe_read_round_spec:
  assumes "rb_inv (pc_buf c)" and "ubi_ok (pc_iter c)" and "write_end (pc_buf c) = Some w"
    and "k = min (available_read (pc_buf c)) (length (ubi_rest (pc_iter c)))"
  shows "\<exists>r c'. Pipe_read_round strong c = Ok (r, c')
    \<and> pc_size c' = pc_size c + k
    \<and> rb_contents (pc_buf c') = drop k (rb_contents (pc_buf c))
    \<and> ubi_rest (pc_iter c') = drop k (ubi_rest (pc_iter c))
    \<and> (distinct (ubi_rest (pc_iter c)) \<longrightarrow>
         map (pc_mem c') (take k (ubi_rest (pc_iter c))) = take k (rb_contents (pc_buf c)))
    \<and> (\<forall>x. x \<notin> set (take k (ubi_rest (pc_iter c))) \<longrightarrow> pc_mem c' x = pc_mem c x)
    \<and> (r = Returned \<longrightarrow> ubi_rest (pc_iter c') = [] \<or> available_read (pc_buf c) = 0 \<and> strong w = 0)
    \<and> (r = Suspended \<longrightarrow> available_read (pc_buf c) = 0 \<and> 0 < strong w)"
proof -
  have ok: "call_ok c" using assms by (simp add: call_ok_def)
  from Pipe_read_round_law [OF ok assms(3,4), of strong] obtain r c'
    where m: "Pipe_read_round strong c = Ok (r, c')" "moved k c c'"
      "rb_contents (pc_buf c') = drop k (rb_contents (pc_buf c))"
      "pc_mem c' = store_list (pc_mem c) (take k (ubi_rest (pc_iter c))) (take k (rb_contents (pc_buf c)))"
      "r = (if available_read (pc_buf c) = 0 then (if strong w = 0 then Returned else Suspended)
           else if length (ubi_rest (pc_iter c)) < available_read (pc_buf c) then Returned else Continue)"
    by blast
  have "map (pc_mem c') (take k (ubi_rest (pc_iter c))) = take k (rb_contents (pc_buf c))"
    if "distinct (ubi_rest (pc_iter c))"
    unfolding m(4) using that assms(4) by (intro map_store_list) simp_all
  moreover have "\<forall>x. x \<notin> set (take k (ubi_rest (pc_iter c))) \<longrightarrow> pc_mem c' x = pc_mem c x"
    unfolding m(4) by (simp add: store_list_other)
  ultimately show ?thesis
    using m(1-3) assms(4) by (intro exI [of _ r] exI [of _ c']) (auto simp: moved_def m(5))
qed

section \<open>Examples\<close>

definition pipe_example :: "nat list list \<Rightarrow> PipeRingBuffer \<Rightarrow> pipe_call" where
  "pipe_example bufs q =
     \<lparr>pc_buf = q, pc_mem = (\<lambda>a. of_nat (a mod 256)), pc_iter = UserBuffer_into_iter (UserBuffer_new bufs), pc_size = 0\<rparr>"

definition ring_example :: PipeRingBuffer where
  "ring_example = \<lparr>arr = replicate 30 0 @ [5, 6], head = 30, tail = 0, status = Normal, write_end = Some 9\<rparr>"

lemma ring_example_ok: "rb_inv ring_example" "rb_contents ring_example = [5, 6]"
  by (simp_all add: ring_example_def rb_inv_def rb_contents_def available_read_def RING_BUFFER_SIZE_def
      upt_rec nth_append)

theorem ring_buffer_fifo_witness:
  "\<exists>q1 q2. enq_seq write_byte [7, 8] ring_example = Ok q1
     \<and> deq_seq read_byte 4 q1 = Ok ([5, 6, 7, 8], q2) \<and> rb_contents q2 = []"
proof -
  have n: "length (rb_contents ring_example) + length [7, 8 :: u8] = 4"
    unfolding ring_example_ok(2) by simp
  then have le: "length (rb_contents ring_example) + length [7, 8 :: u8] \<le> 32" by simp
  show ?thesis
    using ring_buffer_fifo [OF ring_example_ok(1) le, unfolded n]
    unfolding ring_example_ok(2) append.simps by blast
qed

theorem pipe_stream_integrity_witness:
  "\<exists>s. pipe_step\<^sup>*\<^sup>* (pipe_init 9) s \<and> ps_sent s = [100, 101] \<and> ps_received s @ rb_contents (ps_ring s) = [100, 101]"
proof -
  let ?c = "pipe_example [[100], [101]] (ps_ring (pipe_init 9))"
  have it: "ubi_ok (pc_iter ?c)" "ubi_rest (pc_iter ?c) = [100, 101]"
    by (simp_all add: pipe_example_def ubi_into_iter UserBuffer_new_def)
  have ok: "call_ok ?c" using it pipe_inv_init [of 9] by (simp add: call_ok_def pipe_inv_def pipe_example_def)
  have "available_read (pc_buf ?c) = 0"
    by (simp add: pipe_example_def pipe_init_def make_pipe_def set_write_end_def PipeRingBuffer_new_def available_read_def)
  with Pipe_write_round_law [OF ok refl] it(2) obtain r c'
    where c': "Pipe_write_round ?c = Ok (r, c')" "moved 2 ?c c'" by (auto simp: numeral_2_eq_2)
  have "pipe_step (pipe_init 9) (pipe_init 9\<lparr>ps_ring := pc_buf c', ps_sent := ps_sent (pipe_init 9)
      @ map (pc_mem ?c) (take (pc_size c' - pc_size ?c) (ubi_rest (pc_iter ?c)))\<rparr>)"
    by (rule pipe_step.writer [OF _ it(1) c'(1)]) (simp add: pipe_example_def)
  then have step: "pipe_step\<^sup>*\<^sup>* (pipe_init 9) (pipe_init 9\<lparr>ps_ring := pc_buf c', ps_sent := [100, 101]\<rparr>)"
    using c'(2) it(2) by (auto simp: moved_def pipe_init_def pipe_example_def)
  from pipe_stream_integrity [OF step] step show ?thesis by (intro exI) auto
qed

theorem Pipe_read_round_spec_witness:
  "case Pipe_read_round (\<lambda>_. 1) (pipe_example [[200]] ring_example) of
     Ok (r, c') \<Rightarrow> pc_mem c' 200 = 5 \<and> rb_contents (pc_buf c') = [6]
   | Panic _ \<Rightarrow> False"
proof -
  let ?c = "pipe_example [[200]] ring_example"
  have c: "rb_inv (pc_buf ?c)" "ubi_ok (pc_iter ?c)" "write_end (pc_buf ?c) = Some 9"
    "ubi_rest (pc_iter ?c) = [200]" "rb_contents (pc_buf ?c) = [5, 6]"
    by (simp_all add: pipe_example_def ubi_into_iter UserBuffer_new_def ring_example_ok)
      (simp add: ring_example_def)
  have "available_read (pc_buf ?c) = 2" using c(5) length_rb_contents [of "pc_buf ?c"] by simp
  with Pipe_read_round_spec [OF c(1-3) refl, of "\<lambda>_. 1"] c(4,5) show ?thesis by auto
qed

section \<open>Exactly fitting transfers block\<close>

text \<open>
  A call notices that its user buffer is exhausted only when it asks for the next byte. A
  read that is satisfied by exactly the bytes available therefore goes back to the loop
  head and is suspended there, with its buffer already full, until another process writes
  more bytes or the last write end is closed.
\<close>

lemma Pipe_read_exact_suspends:
  assumes "call_ok c" and "write_end (pc_buf c) = Some w" and "0 < strong w"
    and "available_read (pc_buf c) = length (ubi_rest (pc_iter c))" and "ubi_rest (pc_iter c) \<noteq> []"
  shows "\<exists>c'. Pipe_read_round strong c = Ok (Continue, c') \<and> ubi_rest (pc_iter c') = []
    \<and> Pipe_read_round strong c' = Ok (Suspended, c')"
proof -
  from Pipe_read_round_law [OF assms(1,2) refl, of strong] assms(4,5) obtain c'
    where c': "Pipe_read_round strong c = Ok (Continue, c')" "moved (available_read (pc_buf c)) c c'"
      "rb_contents (pc_buf c') = drop (available_read (pc_buf c)) (rb_contents (pc_buf c))"
    by auto
  then have "available_read (pc_buf c') = 0"
    by (metis diff_self_eq_0 length_drop length_rb_contents)
  moreover have "write_end (pc_buf c') = Some w" "ubi_rest (pc_iter c') = []"
    using c'(2) assms(2,4) by (simp_all add: moved_def)
  ultimately show ?thesis
    using c'(1) assms(3) by (simp add: Pipe_read_round_def all_write_ends_closed_def)
qed

end
