(* ===== verification/Os_Inode.thy ===== *)
theory Os_Inode
  imports File_System Pipe
begin

text \<open>
  The kernel's view of files, \<^verbatim>\<open>src/src/os/src/fs/inode.rs\<close>: an open file is an inode with an offset
  and two permissions. Reading and writing go slice by slice through a translated user
  buffer, a slice being the list of the physical addresses of its bytes. What this layer needs
  of the virtual file system is the locale \<open>inode_file\<close>, which easy-fs provides for every
  inode in use.
\<close>

section \<open>Model\<close>

text \<open>The cell around offset and inode is only borrowed for the duration of a call.\<close>

record OSInode =
  readable :: bool
  writable :: bool
  os_offset :: usize
  os_inode :: Inode

definition OSInode_new :: "bool \<Rightarrow> bool \<Rightarrow> Inode \<Rightarrow> OSInode" where
  "OSInode_new r w inode = \<lparr>readable = r, writable = w, os_offset = 0, os_inode = inode\<rparr>"

text \<open>
  The loops, over the \<^verbatim>\<open>read_at\<close> and \<^verbatim>\<open>write_at\<close> of the inode. \<^verbatim>\<open>read_all\<close> loops until nothing is
  read and may not end.
\<close>

partial_function (option) read_all_loop ::
    "(nat \<Rightarrow> u8 list \<Rightarrow> 's \<Rightarrow> ((nat \<times> u8 list) \<times> 's) outcome) \<Rightarrow> usize \<Rightarrow> u8 list \<Rightarrow> u8 list \<Rightarrow> 's
      \<Rightarrow> ((u8 list \<times> usize) \<times> 's) outcome option" where
  "read_all_loop read_at offset buf v s =
     (case read_at (unat offset) buf s of
        Panic p \<Rightarrow> Some (Panic p)
      | Ok ((len, buf), s) \<Rightarrow>
          if len = 0 then Some (Ok ((v, offset), s))
          else case slice buf 0 len of
                 Panic p \<Rightarrow> Some (Panic p)
               | Ok part \<Rightarrow> read_all_loop read_at (offset + of_nat len) buf (v @ part) s)"

definition OSInode_read_all :: "'d BlockDevice \<Rightarrow> OSInode \<Rightarrow> 'd bc_state \<Rightarrow> ((u8 list \<times> OSInode) \<times> 'd bc_state) outcome option" where
  "OSInode_read_all D f s =
     map_option (\<lambda>r. and_then r (\<lambda>((v, offset), s). Ok ((v, f\<lparr>os_offset := offset\<rparr>), s)))
       (read_all_loop (Inode_read_at D (os_inode f)) (os_offset f) (replicate BLOCK_SIZE 0) [] s)"

fun read_slices ::
    "(nat \<Rightarrow> u8 list \<Rightarrow> 's \<Rightarrow> ((nat \<times> u8 list) \<times> 's) outcome) \<Rightarrow> nat list list \<Rightarrow> usize \<Rightarrow> usize \<Rightarrow> memory \<Rightarrow> 's
      \<Rightarrow> ((usize \<times> usize \<times> memory) \<times> 's) outcome" where
  "read_slices read_at [] offset total_read_size m s = Ok ((total_read_size, offset, m), s)"
| "read_slices read_at (sl # slices) offset total_read_size m s =
     and_then (read_at (unat offset) (map m sl) s) (\<lambda>((read_size, bytes), s).
     let m = store_list m sl bytes
     in if read_size = 0 then Ok ((total_read_size, offset, m), s)
        else read_slices read_at slices (offset + of_nat read_size) (total_read_size + of_nat read_size) m s)"

definition OSInode_read ::
    "'d BlockDevice \<Rightarrow> OSInode \<Rightarrow> UserBuffer \<Rightarrow> memory \<Rightarrow> 'd bc_state \<Rightarrow> ((usize \<times> OSInode \<times> memory) \<times> 'd bc_state) outcome" where
  "OSInode_read D f buf m s =
     and_then (read_slices (Inode_read_at D (os_inode f)) (buffers buf) (os_offset f) 0 m s) (\<lambda>((n, offset, m), s).
     Ok ((n, f\<lparr>os_offset := offset\<rparr>, m), s))"

fun write_slices ::
    "(nat \<Rightarrow> u8 list \<Rightarrow> 's \<Rightarrow> (nat \<times> 's) outcome) \<Rightarrow> nat list list \<Rightarrow> usize \<Rightarrow> usize \<Rightarrow> memory \<Rightarrow> 's
      \<Rightarrow> ((usize \<times> usize) \<times> 's) outcome" where
  "write_slices write_at [] offset total_write_size m s = Ok ((total_write_size, offset), s)"
| "write_slices write_at (sl # slices) offset total_write_size m s =
     and_then (write_at (unat offset) (map m sl) s) (\<lambda>(write_size, s).
     and_then (assert_that (write_size = length sl)) (\<lambda>_.
     write_slices write_at slices (offset + of_nat write_size) (total_write_size + of_nat write_size) m s))"

definition OSInode_write ::
    "'d BlockDevice \<Rightarrow> EasyFileSystem \<Rightarrow> OSInode \<Rightarrow> UserBuffer \<Rightarrow> memory \<Rightarrow> 'd bc_state \<Rightarrow> ((usize \<times> OSInode) \<times> 'd bc_state) outcome" where
  "OSInode_write D e f buf m s =
     and_then (write_slices (Inode_write_at D e (os_inode f)) (buffers buf) (os_offset f) 0 m s) (\<lambda>((n, offset), s).
     Ok ((n, f\<lparr>os_offset := offset\<rparr>), s))"

text \<open>Flags of \<^verbatim>\<open>open\<close>; \<^verbatim>\<open>from_bits\<close> refuses a bit that is no flag.\<close>

type_synonym OpenFlags = u32

definition READ_ONLY :: OpenFlags where "READ_ONLY = 0"
definition WRITE_ONLY :: OpenFlags where "WRITE_ONLY = push_bit 0 1"
definition READ_WRITE :: OpenFlags where "READ_WRITE = push_bit 1 1"
definition CREATE :: OpenFlags where "CREATE = push_bit 9 1"
definition TRUNCATE :: OpenFlags where "TRUNCATE = push_bit 10 1"

lemmas open_flags = READ_ONLY_def WRITE_ONLY_def READ_WRITE_def CREATE_def TRUNCATE_def

unbundle bit_operations_syntax

definition flags_contain :: "OpenFlags \<Rightarrow> OpenFlags \<Rightarrow> bool" where
  "flags_contain flags flag \<longleftrightarrow> flags AND flag = flag"

definition OpenFlags_from_bits :: "u32 \<Rightarrow> OpenFlags option" where
  "OpenFlags_from_bits b =
     (if b AND NOT (READ_ONLY OR WRITE_ONLY OR READ_WRITE OR CREATE OR TRUNCATE) = 0 then Some b else None)"

definition read_write :: "OpenFlags \<Rightarrow> bool \<times> bool" where
  "read_write flags =
     (if flags = 0 then (True, False) else if flags_contain flags WRITE_ONLY then (False, True) else (True, True))"

definition open_file ::
    "'d BlockDevice \<Rightarrow> EasyFileSystem \<Rightarrow> u8 list \<Rightarrow> OpenFlags \<Rightarrow> 'd bc_state \<Rightarrow> (OSInode option \<times> 'd bc_state) outcome" where
  "open_file D e name flags s =
     (let (r, w) = read_write flags
      in if flags_contain flags CREATE then
           and_then (Inode_find D e (root_inode e) name s) (\<lambda>(found, s).
           case found of
             Some inode \<Rightarrow> and_then (Inode_clear D e inode s) (\<lambda>(_, s). Ok (Some (OSInode_new r w inode), s))
           | None \<Rightarrow>
               and_then (Inode_create D e (root_inode e) name s) (\<lambda>(new, s). Ok (map_option (OSInode_new r w) new, s)))
         else
           and_then (Inode_find D e (root_inode e) name s) (\<lambda>(found, s).
           case found of
             None \<Rightarrow> Ok (None, s)
           | Some inode \<Rightarrow>
               and_then (if flags_contain flags TRUNCATE then Inode_clear D e inode s else Ok ((), s)) (\<lambda>(_, s).
               Ok (Some (OSInode_new r w inode), s))))"

section \<open>The contract of an inode\<close>

locale inode_file =
  fixes file_ok :: "'s \<Rightarrow> bool" and content :: "'s \<Rightarrow> u8 list" and fits :: "'s \<Rightarrow> nat \<Rightarrow> bool"
    and frame :: "'s \<Rightarrow> 's \<Rightarrow> bool"
    and read_at :: "nat \<Rightarrow> u8 list \<Rightarrow> 's \<Rightarrow> ((nat \<times> u8 list) \<times> 's) outcome"
    and write_at :: "nat \<Rightarrow> u8 list \<Rightarrow> 's \<Rightarrow> (nat \<times> 's) outcome"
  assumes read_law: "file_ok s \<Longrightarrow> off + length buf < 2 ^ 64 \<Longrightarrow>
      \<exists>s'. read_at off buf s = Ok ((min (length buf) (length (content s) - off), splice 0 (take (length buf) (drop off (content s))) buf), s')
        \<and> file_ok s' \<and> content s' = content s \<and> frame s s'"
    and write_law: "file_ok s \<Longrightarrow> fits s (off + length buf) \<Longrightarrow>
      \<exists>s'. write_at off buf s = Ok (length buf, s') \<and> file_ok s' \<and> content s' = file_write (content s) off buf
        \<and> frame s s' \<and> (\<forall>n. fits s n \<longrightarrow> fits s' n)"
    and size_law: "file_ok s \<Longrightarrow> length (content s) < 2 ^ 32" "fits s n \<Longrightarrow> n < 2 ^ 32" "fits s n \<Longrightarrow> k \<le> n \<Longrightarrow> fits s k"
    and frame_law: "frame s s" "frame s s1 \<Longrightarrow> frame s1 s2 \<Longrightarrow> frame s s2"

lemma file_write_append:
  "file_write (file_write c off a) (off + length a) b = file_write c off (a @ b)"
proof (rule nth_equalityI)
  show len: "length (file_write (file_write c off a) (off + length a) b) = length (file_write c off (a @ b))"
    by (simp add: length_file_write)
  have nth: "file_write c off b ! i = (if i < off then if i < length c then c ! i else 0
      else if i < off + length b then b ! (i - off) else c ! i)" if "i < max (length c) (off + length b)" for c off b i
    using that by (auto simp: file_write_def splice_def nth_append min_def)
  fix i assume "i < length (file_write (file_write c off a) (off + length a) b)"
  then have i: "i < max (max (length c) (off + length a)) (off + length a + length b)" by (simp add: length_file_write)
  then have i2: "i < max (length c) (off + length (a @ b))" by auto
  show "file_write (file_write c off a) (off + length a) b ! i = file_write c off (a @ b) ! i"
    using i by (simp add: nth [OF i2] nth length_file_write nth_append) auto
qed

lemma store_list_append: "length a = length x \<Longrightarrow> store_list m (a @ b) (x @ y) = store_list (store_list m a x) b y"
  by (simp add: store_list_def)

lemma store_list_self: "store_list m as (map m as) = m"
  by (induction as) simp_all

context inode_file
begin

lemma write_slices_law:
  assumes "file_ok s" "fits s (unat offset + length (concat slices))"
  shows "\<exists>s'. write_slices write_at slices offset k m s
      = Ok ((k + of_nat (length (concat slices)), offset + of_nat (length (concat slices))), s') \<and> file_ok s' \<and> frame s s'
    \<and> content s' = (if slices = [] then content s else file_write (content s) (unat offset) (map m (concat slices)))"
  using assms
proof (induction slices arbitrary: s offset k)
  case (Cons sl slices)
  let ?n = "length sl" and ?o = "offset + of_nat (length sl)"
  have "fits s (unat offset + length (map m sl))" by (rule size_law(3) [OF Cons.prems(2)]) simp
  from write_law [OF Cons.prems(1) this] obtain s1 where
    s1: "write_at (unat offset) (map m sl) s = Ok (?n, s1)" "file_ok s1" "content s1 = file_write (content s) (unat offset) (map m sl)"
      "\<forall>n. fits s n \<longrightarrow> fits s1 n" "frame s s1" by auto
  have "unat offset + ?n < 2 ^ 32" using size_law(2) [OF Cons.prems(2)] by simp
  then have o: "unat ?o = unat offset + ?n" by (subst unat_add_no_wrap) (simp_all add: unat_of_nat)
  have "fits s1 (unat ?o + length (concat slices))" using Cons.prems(2) s1(4) o by (simp add: add.assoc)
  from Cons.IH [OF s1(2) this, of "k + of_nat ?n"] obtain s' where
    s': "write_slices write_at slices ?o (k + of_nat ?n) m s1
      = Ok ((k + of_nat ?n + of_nat (length (concat slices)), ?o + of_nat (length (concat slices))), s')" "file_ok s'"
      "content s' = (if slices = [] then content s1 else file_write (content s1) (unat ?o) (map m (concat slices)))" "frame s1 s'" by blast
  have "content s' = file_write (content s) (unat offset) (map m (concat (sl # slices)))"
    using s'(3) s1(3) o file_write_append [of "content s" "unat offset" "map m sl" "map m (concat slices)"] by auto
  with s1(1) s'(1,2) frame_law(2) [OF s1(5) s'(4)] show ?case by (simp add: add.assoc)
qed (simp add: frame_law)

lemma read_slices_law:
  assumes "file_ok s" "[] \<notin> set slices" "distinct (concat slices)" "unat offset + length (concat slices) < 2 ^ 64"
  shows "\<exists>s'. let n = min (length (concat slices)) (length (content s) - unat offset)
    in read_slices read_at slices offset k m s
      = Ok ((k + of_nat n, offset + of_nat n, store_list m (take n (concat slices)) (take n (drop (unat offset) (content s)))), s')
    \<and> file_ok s' \<and> content s' = content s \<and> frame s s'"
  using assms
proof (induction slices arbitrary: s offset k m)
  case (Cons sl slices)
  let ?c = "content s" and ?off = "unat offset"
  let ?r = "min (length sl) (length ?c - ?off)"
  have "?off + length (map m sl) < 2 ^ 64" using Cons.prems(4) by simp
  from read_law [OF Cons.prems(1) this] obtain s1 where
    s1: "read_at ?off (map m sl) s = Ok ((?r, splice 0 (take (length sl) (drop ?off ?c)) (map m sl)), s1)" "file_ok s1" "content s1 = ?c" "frame s s1" by auto
  let ?data = "take ?r (drop ?off ?c)" and ?o = "offset + of_nat ?r"
  let ?m1 = "store_list m (take ?r sl) ?data"
  have data: "take (length sl) (drop ?off ?c) = ?data" by (simp add: min_def)
  have ld: "length ?data = ?r" by simp
  have m1: "store_list m sl (splice 0 ?data (map m sl)) = ?m1"
  proof -
    have "set (take ?r sl) \<inter> set (drop ?r sl) = {}"
      using Cons.prems(3) by (intro set_take_disj_set_drop_if_distinct) auto
    then have "map m (drop ?r sl) = map ?m1 (drop ?r sl)" by (intro map_cong refl) (metis disjoint_iff store_list_other)
    then have "splice 0 ?data (map m sl) = ?data @ map ?m1 (drop ?r sl)" unfolding splice_def ld by (simp add: drop_map)
    then have "store_list m sl (splice 0 ?data (map m sl)) = store_list m (take ?r sl @ drop ?r sl) (?data @ map ?m1 (drop ?r sl))" by simp
    also have "\<dots> = ?m1" by (subst store_list_append) (simp_all add: store_list_self)
    finally show ?thesis .
  qed
  have wrap: "unat ?o = ?off + ?r" using Cons.prems(4) by (subst unat_add_no_wrap) (simp_all add: unat_of_nat)
  have rest: "unat ?o + length (concat slices) < 2 ^ 64" using Cons.prems(4) wrap by simp
  have ne: "[] \<notin> set slices" "distinct (concat slices)" "sl \<noteq> []" using Cons.prems(2,3) by auto
  let ?n = "min (length (concat (sl # slices))) (length ?c - ?off)"
  show ?case
  proof (cases "?r = 0")
    case True
    then have "?n = 0" using ne(3) by (simp add: min_def split: if_splits)
    with True s1 m1 data show ?thesis by (auto simp: Let_def)
  next
    case False
    let ?n1 = "min (length (concat slices)) (length ?c - unat ?o)"
    from Cons.IH [OF s1(2) ne(1,2) rest, of "k + of_nat ?r" ?m1] obtain s' where
      s': "read_slices read_at slices ?o (k + of_nat ?r) ?m1 s1 = Ok ((k + of_nat ?r + of_nat ?n1, ?o + of_nat ?n1,
          store_list ?m1 (take ?n1 (concat slices)) (take ?n1 (drop (unat ?o) ?c))), s')" "file_ok s'" "content s' = ?c" "frame s1 s'"
      unfolding s1(3) Let_def by blast
    have n: "?n = ?r + ?n1" unfolding wrap by auto
    have "take (?r + ?n1) (concat (sl # slices)) = take ?r sl @ take ?n1 (concat slices)"
    proof (cases "length sl \<le> length ?c - ?off")
      case True
      then have "?r = length sl" by simp
      then show ?thesis by simp
    next
      case False
      then have "?r = length ?c - ?off" "length ?c - (?off + ?r) = 0" by simp_all
      then show ?thesis unfolding wrap using False by simp
    qed
    moreover have "take (?r + ?n1) (drop ?off ?c) = ?data @ take ?n1 (drop (unat ?o) ?c)"
      unfolding wrap take_add by (simp add: add.commute)
    ultimately have st: "store_list m (take (?r + ?n1) (concat (sl # slices))) (take (?r + ?n1) (drop ?off ?c))
        = store_list ?m1 (take ?n1 (concat slices)) (take ?n1 (drop (unat ?o) ?c))"
      by (simp only: store_list_append length_take length_drop)
    have step: "read_slices read_at (sl # slices) offset k m s = read_slices read_at slices ?o (k + of_nat ?r) ?m1 s1"
      using False by (simp only: read_slices.simps s1(1) data and_then_simps Let_def prod.case m1 if_False)
    have "read_slices read_at (sl # slices) offset k m s
        = Ok ((k + of_nat ?n, offset + of_nat ?n, store_list m (take ?n (concat (sl # slices))) (take ?n (drop ?off ?c))), s')"
      by (simp only: n st step s'(1) of_nat_add add.assoc)
    with s'(2,3) frame_law(2) [OF s1(4) s'(4)] show ?thesis unfolding Let_def by (intro exI [of _ s'] conjI)
  qed
qed (auto simp: Let_def frame_law)

lemma read_all_law:
  assumes "file_ok s" "length buf = BLOCK_SIZE" "unat offset \<le> length (content s)"
  shows "\<exists>s'. read_all_loop read_at offset buf v s
      = Some (Ok ((v @ drop (unat offset) (content s), of_nat (length (content s))), s')) \<and> file_ok s' \<and> content s' = content s \<and> frame s s'"
  using assms
proof (induction "length (content s) - unat offset" arbitrary: s offset buf v rule: less_induct)
  case less
  let ?c = "content s" and ?off = "unat offset"
  note small = size_law(1) [OF less.prems(1)]
  have "?off + length buf < 2 ^ 64" using less.prems(2,3) small by (simp add: BLOCK_SIZE_def)
  from read_law [OF less.prems(1) this] obtain s1 where
    s1: "read_at ?off buf s = Ok ((min (length buf) (length ?c - ?off), splice 0 (take (length buf) (drop ?off ?c)) buf), s1)"
      "file_ok s1" "content s1 = ?c" "frame s s1" by blast
  let ?r = "min (length buf) (length ?c - ?off)" and ?d = "take (length buf) (drop ?off ?c)"
  show ?case
  proof (cases "?r = 0")
    case True
    then have eof: "?off = length ?c" using less.prems(2,3) by (auto simp: BLOCK_SIZE_def)
    then have "offset = of_nat (length ?c)" by (simp flip: eof)
    with True eof s1 show ?thesis by (subst read_all_loop.simps) simp
  next
    case False
    let ?o = "offset + of_nat ?r"
    have ld: "length ?d = ?r" and d: "?d = take ?r (drop ?off ?c)" by (simp_all add: min_def)
    have wrap: "unat ?o = ?off + ?r" using less.prems(3) small by (subst unat_add_no_wrap) (simp_all add: unat_of_nat)
    have buf1: "length (splice 0 ?d buf) = BLOCK_SIZE" using less.prems(2) by (simp add: splice_def)
    have sl: "slice (splice 0 ?d buf) 0 ?r = Ok ?d" using ld less.prems(2) unfolding d by (simp add: slice_def splice_def)
    have "length (content s1) - unat ?o < length ?c - ?off" "unat ?o \<le> length (content s1)"
      using False wrap less.prems(3) unfolding s1(3) by linarith+
    from less.hyps [OF this(1) s1(2) buf1 this(2), of "v @ ?d"] obtain s' where
      s': "read_all_loop read_at ?o (splice 0 ?d buf) (v @ ?d) s1
        = Some (Ok (((v @ ?d) @ drop (unat ?o) ?c, of_nat (length ?c)), s'))" "file_ok s'" "content s' = ?c" "frame s1 s'" unfolding s1(3) by blast
    have "?d @ drop (unat ?o) ?c = drop ?off ?c"
      using append_take_drop_id [of ?r "drop ?off ?c"] unfolding wrap by (simp add: min_def add.commute split: if_splits)
    with s' s1(1) False sl frame_law(2) [OF s1(4) s'(4)] show ?thesis by (subst read_all_loop.simps) simp
  qed
qed

end

section \<open>easy-fs provides the contract\<close>

text \<open>The file \<open>nm\<close> with inode \<open>i\<close> of a mounted file system; the other files are the frame.\<close>

definition efs_file_ok :: "'d BlockDevice \<Rightarrow> nat \<Rightarrow> ('d \<Rightarrow> bool) \<Rightarrow> EasyFileSystem \<Rightarrow> u8 list \<Rightarrow> nat \<Rightarrow> 'd bc_state \<Rightarrow> bool" where
  "efs_file_ok D N dev_ok e nm i s \<longleftrightarrow> efs_at D N dev_ok e s (view D N s) \<and> dir_lookup e (view D N s) nm = Some i"

definition efs_content :: "'d BlockDevice \<Rightarrow> nat \<Rightarrow> EasyFileSystem \<Rightarrow> nat \<Rightarrow> 'd bc_state \<Rightarrow> u8 list" where
  "efs_content D N e i s = icontent e (view D N s) i"

definition efs_fits :: "'d BlockDevice \<Rightarrow> nat \<Rightarrow> EasyFileSystem \<Rightarrow> nat \<Rightarrow> 'd bc_state \<Rightarrow> nat \<Rightarrow> bool" where
  "efs_fits D N e i s n \<longleftrightarrow> n \<le> max_file_size
     \<and> blocks_for n - blocks_for (length (efs_content D N e i s)) \<le> card (data_free N e (view D N s))"

definition efs_frame :: "'d BlockDevice \<Rightarrow> nat \<Rightarrow> EasyFileSystem \<Rightarrow> u8 list \<Rightarrow> 'd bc_state \<Rightarrow> 'd bc_state \<Rightarrow> bool" where
  "efs_frame D N e nm s s' \<longleftrightarrow> (\<forall>x. x \<noteq> nm \<longrightarrow> files e (view D N s') x = files e (view D N s) x)"

lemma efs_at_view: "efs_at D N dev_ok e s w \<Longrightarrow> view D N s = w"
  by (simp add: efs_at_def fs_at_def)

lemma efs_file_okD:
  assumes "efs_file_ok D N dev_ok e nm i s"
  shows "fs_at D N dev_ok s {} {} (view D N s)" "fs_inv N e (view D N s)" "i \<in> live_inodes e (view D N s)"
    "dir_ok e (view D N s)" "dir_lookup e (view D N s) nm = Some i" "efs_at D N dev_ok e s (view D N s)"
proof -
  from assms show at: "efs_at D N dev_ok e s (view D N s)" and nm: "dir_lookup e (view D N s) nm = Some i" by (simp_all add: efs_file_ok_def)
  show "fs_at D N dev_ok s {} {} (view D N s)" "fs_inv N e (view D N s)" "dir_ok e (view D N s)" using efs_atD [OF at] by blast+
  then show "i \<in> live_inodes e (view D N s)" using lookup_live [OF _ nm] by blast
qed

sublocale block_device \<subseteq> efs_file: inode_file "efs_file_ok D N dev_ok e nm i" "efs_content D N e i" "efs_fits D N e i"
    "efs_frame D N e nm" "Inode_read_at D (handle e i)" "Inode_write_at D e (handle e i)" for e nm i
proof
  fix s off and buf :: "u8 list"
  assume ok: "efs_file_ok D N dev_ok e nm i s" and off: "off + length buf < 2 ^ 64"
  note w = efs_file_okD [OF ok]
  from Inode_read_at_at [OF w(1-3) off] obtain s' where
    s': "Inode_read_at D (handle e i) off buf s = Ok ((min (length buf) (length (efs_content D N e i s) - off),
        splice 0 (take (length buf) (drop off (efs_content D N e i s))) buf), s')"
      "fs_at D N dev_ok s' {} {} (view D N s)" unfolding efs_content_def by blast
  have v: "view D N s' = view D N s" using s'(2) by (simp add: fs_at_def)
  have "efs_file_ok D N dev_ok e nm i s'" "efs_content D N e i s' = efs_content D N e i s" "efs_frame D N e nm s s'"
    using efs_at_same [OF w(6) s'(2)] w(5) by (simp_all add: efs_file_ok_def efs_content_def efs_frame_def v)
  with s'(1) show "\<exists>s'. Inode_read_at D (handle e i) off buf s = Ok ((min (length buf) (length (efs_content D N e i s) - off),
        splice 0 (take (length buf) (drop off (efs_content D N e i s))) buf), s')
      \<and> efs_file_ok D N dev_ok e nm i s' \<and> efs_content D N e i s' = efs_content D N e i s \<and> efs_frame D N e nm s s'" by blast
next
  fix s off and buf :: "u8 list"
  assume ok: "efs_file_ok D N dev_ok e nm i s" and fits: "efs_fits D N e i s (off + length buf)"
  let ?w = "view D N s" and ?m = "off + length buf"
  note w = efs_file_okD [OF ok]
  have f: "?m \<le> max_file_size" "blocks_for ?m - blocks_for (length (icontent e ?w i)) \<le> card (data_free N e ?w)"
    using fits by (simp_all add: efs_fits_def efs_content_def)
  from Inode_write_at_at [OF w(1-3) f] obtain s' w' where
    s': "Inode_write_at D e (handle e i) off buf s = Ok (length buf, s')" "fs_at D N dev_ok s' {} {} w'" "fs_inv N e w'"
      "live_inodes e w' = live_inodes e ?w" "icontent e w' i = file_write (icontent e ?w i) off buf" "others_same e ?w w' i"
      "card (data_free N e w') + (blocks_for ?m - blocks_for (length (icontent e ?w i))) = card (data_free N e ?w)" by blast
  have v: "view D N s' = w'" using s'(2) by (simp add: fs_at_def)
  note up = file_update [OF w(4,5) s'(4,6)]
  have content: "efs_content D N e i s' = file_write (efs_content D N e i s) off buf" using s'(5) v by (simp add: efs_content_def)
  have "blocks_for (length (icontent e ?w i)) \<le> blocks_for (length (icontent e w' i))" "blocks_for ?m \<le> blocks_for (length (icontent e w' i))"
    unfolding s'(5) length_file_write by (intro blocks_for_mono; simp)+
  then have "\<forall>n. efs_fits D N e i s n \<longrightarrow> efs_fits D N e i s' n"
    using s'(7) unfolding efs_fits_def efs_content_def v by auto
  moreover have "super_ok e w'" using efs_atD(4) [OF w(6)] super_ok_cong [of w' ?w e] s'(6) by (simp add: others_same_def)
  then have "efs_file_ok D N dev_ok e nm i s'" using s'(2,3) up(1,2) w(5) by (simp add: v efs_file_ok_def efs_at_def)
  moreover have "efs_frame D N e nm s s'" using up(3) by (simp add: efs_frame_def v)
  ultimately show "\<exists>s'. Inode_write_at D e (handle e i) off buf s = Ok (length buf, s') \<and> efs_file_ok D N dev_ok e nm i s'
      \<and> efs_content D N e i s' = file_write (efs_content D N e i s) off buf \<and> efs_frame D N e nm s s'
      \<and> (\<forall>n. efs_fits D N e i s n \<longrightarrow> efs_fits D N e i s' n)"
    using s'(1) content by blast
next
  fix s
  assume "efs_file_ok D N dev_ok e nm i s"
  note w = efs_file_okD [OF this]
  have "length (icontent e (view D N s) i) = unat (di_size (dinode e (view D N s) i))"
    unfolding icontent_def by (rule inode_wf_raw(4) [OF fs_invD(3) [OF w(2,3)] fs_at_lengths [OF w(1)]])
  moreover have "unat (di_size (dinode e (view D N s) i)) \<le> max_file_size" using fs_invD(3) [OF w(2,3)] by (simp add: inode_wf_def)
  ultimately show "length (efs_content D N e i s) < 2 ^ 32" by (simp add: efs_content_def max_file_size_eq)
next
  fix s n k
  assume n: "efs_fits D N e i s n"
  then show "n < 2 ^ 32" by (simp add: efs_fits_def max_file_size_eq)
  assume "k \<le> n"
  with n blocks_for_mono [OF this] show "efs_fits D N e i s k" unfolding efs_fits_def by linarith
next
  show "efs_frame D N e nm s s" for s by (simp add: efs_frame_def)
  show "efs_frame D N e nm s s2" if "efs_frame D N e nm s s1" "efs_frame D N e nm s1 s2" for s s1 s2
    using that by (simp add: efs_frame_def)
qed

section \<open>Opening files\<close>

context block_device
begin

lemma OSInode_write_at:
  assumes "efs_file_ok D N dev_ok e nm i s" "os_inode f = handle e i" "buffers buf \<noteq> []"
    and n: "n = length (concat (buffers buf))" and "efs_fits D N e i s (unat (os_offset f) + n)"
  shows "\<exists>s'. OSInode_write D e f buf m s = Ok ((of_nat n, f\<lparr>os_offset := os_offset f + of_nat n\<rparr>), s')
    \<and> efs_file_ok D N dev_ok e nm i s' \<and> efs_frame D N e nm s s'
    \<and> efs_content D N e i s' = file_write (efs_content D N e i s) (unat (os_offset f)) (map m (concat (buffers buf)))"
  using efs_file.write_slices_law [OF assms(1) assms(5) [unfolded n], of 0 m] assms(2,3) n by (auto simp: OSInode_write_def)

lemma OSInode_read_at:
  assumes "efs_file_ok D N dev_ok e nm i s" "os_inode f = handle e i" "[] \<notin> set (buffers buf)" "distinct (concat (buffers buf))"
    and "unat (os_offset f) + length (concat (buffers buf)) < 2 ^ 64"
    and n: "n = min (length (concat (buffers buf))) (length (efs_content D N e i s) - unat (os_offset f))"
  shows "\<exists>s'. OSInode_read D f buf m s = Ok ((of_nat n, f\<lparr>os_offset := os_offset f + of_nat n\<rparr>,
        store_list m (take n (concat (buffers buf))) (take n (drop (unat (os_offset f)) (efs_content D N e i s)))), s')
    \<and> efs_file_ok D N dev_ok e nm i s' \<and> efs_frame D N e nm s s' \<and> efs_content D N e i s' = efs_content D N e i s"
  using efs_file.read_slices_law [OF assms(1,3-5), of 0 m, unfolded Let_def, folded n] assms(2)
  by (auto simp: OSInode_read_def)

lemma OSInode_read_all_at:
  assumes "efs_file_ok D N dev_ok e nm i s" "os_inode f = handle e i" "unat (os_offset f) \<le> length (efs_content D N e i s)"
  shows "\<exists>s'. OSInode_read_all D f s = Some (Ok ((drop (unat (os_offset f)) (efs_content D N e i s),
        f\<lparr>os_offset := of_nat (length (efs_content D N e i s))\<rparr>), s'))
    \<and> efs_file_ok D N dev_ok e nm i s' \<and> efs_frame D N e nm s s' \<and> efs_content D N e i s' = efs_content D N e i s"
  using efs_file.read_all_law [OF assms(1) _ assms(3), of "replicate BLOCK_SIZE 0" "[]"] assms(2)
  by (auto simp: OSInode_read_all_def)

lemma open_clear_at:
  assumes at: "efs_at D N dev_ok e s w" and i: "dir_lookup e w nm = Some i"
  shows "\<exists>s' w'. Inode_clear D e (handle e i) s = Ok ((), s') \<and> efs_at D N dev_ok e s' w' \<and> dir_lookup e w' nm = Some i
    \<and> files e w' = (files e w)(nm \<mapsto> [])"
proof -
  note d = efs_atD [OF at]
  have "i \<in> live_inodes e w" using lookup_live [OF d(3) i] by simp
  from Inode_clear_at [OF d(1,2) this] obtain s' w' where
    r: "Inode_clear D e (handle e i) s = Ok ((), s')" "fs_at D N dev_ok s' {} {} w'" "fs_inv N e w'"
      "live_inodes e w' = live_inodes e w" "icontent e w' i = []" "others_same e w w' i" by blast
  note up = file_update [OF d(3) i r(4,6)]
  have "super_ok e w'" using d(4) super_ok_cong [of w' w e] r(6) by (simp add: others_same_def)
  with r(1-3,5) up i show ?thesis by (intro exI [of _ s'] exI [of _ w']) (simp add: efs_at_def)
qed

lemma open_file_at:
  assumes at: "efs_at D N dev_ok e s w"
    and room: "flags_contain flags CREATE \<longrightarrow> dir_lookup e w nm = None \<longrightarrow> valid_name nm \<and> entry_room N e w"
  shows "\<exists>r s' w'. open_file D e nm flags s = Ok (r, s') \<and> efs_at D N dev_ok e s' w'
    \<and> (r = None \<longleftrightarrow> dir_lookup e w nm = None \<and> \<not> flags_contain flags CREATE)
    \<and> files e w' = (if r = None \<or> \<not> flags_contain flags CREATE \<and> \<not> flags_contain flags TRUNCATE then files e w else (files e w)(nm \<mapsto> []))
    \<and> (\<forall>f. r = Some f \<longrightarrow> (readable f, writable f) = read_write flags \<and> os_offset f = 0
         \<and> (\<exists>i. os_inode f = handle e i \<and> dir_lookup e w' nm = Some i))"
proof -
  from Inode_find_at [OF at, of nm] obtain s1 where
    s1: "Inode_find D e (root_inode e) nm s = Ok (map_option (handle e) (dir_lookup e w nm), s1)" "efs_at D N dev_ok e s1 w" by blast
  obtain r w0 where rw: "read_write flags = (r, w0)" by (cases "read_write flags")
  let ?f = "\<lambda>i. OSInode_new r w0 (handle e i)"
  have new: "(readable (?f i), writable (?f i)) = read_write flags" "os_offset (?f i) = 0" "os_inode (?f i) = handle e i" for i
    by (simp_all add: OSInode_new_def rw)
  show ?thesis
  proof (cases "dir_lookup e w nm")
    case (Some i)
    show ?thesis
    proof (cases "flags_contain flags CREATE \<or> flags_contain flags TRUNCATE")
      case True
      from open_clear_at [OF s1(2) Some] obtain s' w' where
        c: "Inode_clear D e (handle e i) s1 = Ok ((), s')" "efs_at D N dev_ok e s' w'" "dir_lookup e w' nm = Some i"
          "files e w' = (files e w)(nm \<mapsto> [])" by blast
      have "open_file D e nm flags s = Ok (Some (?f i), s')" using s1(1) Some c(1) rw True by (auto simp: open_file_def)
      with c Some True new show ?thesis by (intro exI [of _ "Some (?f i)"] exI [of _ s'] exI [of _ w']) auto
    next
      case False
      then have "open_file D e nm flags s = Ok (Some (?f i), s1)" using s1(1) Some rw by (simp add: open_file_def)
      with s1(2) Some False new show ?thesis by (intro exI [of _ "Some (?f i)"] exI [of _ s1] exI [of _ w]) auto
    qed
  next
    case None
    show ?thesis
    proof (cases "flags_contain flags CREATE")
      case True
      with room None have "valid_name nm" "entry_room N e w" by simp_all
      with Inode_create_at [OF s1(2) None] obtain k s' w' where
        c: "Inode_create D e (root_inode e) nm s1 = Ok (Some (handle e k), s')" "efs_at D N dev_ok e s' w'"
          "dir_pairs e w' = dir_pairs e w @ [(nm, k)]" "files e w' = (files e w)(nm \<mapsto> [])" unfolding valid_name_def by blast
      have "dir_lookup e w' nm = Some k" using None c(3) by (simp add: dir_lookup_def map_add_def)
      moreover have "open_file D e nm flags s = Ok (Some (?f k), s')" using s1(1) None c(1) rw True by (simp add: open_file_def)
      ultimately show ?thesis using c None True new by (intro exI [of _ "Some (?f k)"] exI [of _ s'] exI [of _ w']) auto
    next
      case False
      then have "open_file D e nm flags s = Ok (None, s1)" using s1(1) None rw by (simp add: open_file_def)
      with s1(2) None False show ?thesis by (intro exI [of _ None] exI [of _ s1] exI [of _ w]) auto
    qed
  qed
qed

end

section \<open>Properties\<close>

text \<open>
  C27. Opening a file: it fails exactly when the name does not exist and \<^verbatim>\<open>CREATE\<close> is not given;
  \<^verbatim>\<open>CREATE\<close> adds an empty file or empties the existing one, \<^verbatim>\<open>TRUNCATE\<close> empties it, and no other file
  changes. The open file starts at offset 0 with the permissions of the flags and refers to the
  inode of the name.
\<close>

theorem open_file_outcome:
  assumes "block_device D N dev_ok" "efs_at D N dev_ok e s w"
    and "flags_contain flags CREATE \<longrightarrow> dir_lookup e w nm = None \<longrightarrow> valid_name nm \<and> entry_room N e w"
  shows "\<exists>r s' w'. open_file D e nm flags s = Ok (r, s') \<and> efs_at D N dev_ok e s' w'
    \<and> (r = None \<longleftrightarrow> dir_lookup e w nm = None \<and> \<not> flags_contain flags CREATE)
    \<and> files e w' = (if r = None \<or> \<not> flags_contain flags CREATE \<and> \<not> flags_contain flags TRUNCATE then files e w else (files e w)(nm \<mapsto> []))
    \<and> (\<forall>f. r = Some f \<longrightarrow> (readable f, writable f) = read_write flags \<and> os_offset f = 0
         \<and> (\<exists>i. os_inode f = handle e i \<and> dir_lookup e w' nm = Some i))"
  by (rule block_device.open_file_at [OF assms])

text \<open>
  C29. Writing a user buffer to an open file writes all its bytes, in the order of the buffer, at the
  current offset of the file and advances the offset by their number; the other files keep their
  contents and the memory of the process is only read.
\<close>

theorem OSInode_write_spec:
  assumes "block_device D N dev_ok" "efs_file_ok D N dev_ok e nm i s" "os_inode f = handle e i" "buffers buf \<noteq> []"
    and "n = length (concat (buffers buf))" "efs_fits D N e i s (unat (os_offset f) + n)"
  shows "\<exists>s'. OSInode_write D e f buf m s = Ok ((of_nat n, f\<lparr>os_offset := os_offset f + of_nat n\<rparr>), s')
    \<and> efs_file_ok D N dev_ok e nm i s' \<and> efs_frame D N e nm s s'
    \<and> efs_content D N e i s' = file_write (efs_content D N e i s) (unat (os_offset f)) (map m (concat (buffers buf)))"
  by (rule block_device.OSInode_write_at [OF assms])

text \<open>
  C30. Reading from an open file into a user buffer fills the buffer, in order, with the bytes of the
  file from the current offset on, as many as the buffer and the file have, returns their number
  and advances the offset by it; no other byte of memory and no file changes.
\<close>

theorem OSInode_read_spec:
  assumes "block_device D N dev_ok" "efs_file_ok D N dev_ok e nm i s" "os_inode f = handle e i"
    and "[] \<notin> set (buffers buf)" "distinct (concat (buffers buf))"
    and "unat (os_offset f) + length (concat (buffers buf)) < 2 ^ 64"
    and "n = min (length (concat (buffers buf))) (length (efs_content D N e i s) - unat (os_offset f))"
  shows "\<exists>s'. OSInode_read D f buf m s = Ok ((of_nat n, f\<lparr>os_offset := os_offset f + of_nat n\<rparr>,
        store_list m (take n (concat (buffers buf))) (take n (drop (unat (os_offset f)) (efs_content D N e i s)))), s')
    \<and> efs_file_ok D N dev_ok e nm i s' \<and> efs_frame D N e nm s s' \<and> efs_content D N e i s' = efs_content D N e i s"
  by (rule block_device.OSInode_read_at [OF assms])

text \<open>
  \<^verbatim>\<open>read_all\<close> ends and returns everything from the current offset to the end of the file, which is
  how programs are loaded.
\<close>

theorem OSInode_read_all_returns:
  assumes "block_device D N dev_ok" "efs_file_ok D N dev_ok e nm i s" "os_inode f = handle e i"
    and "unat (os_offset f) \<le> length (efs_content D N e i s)"
  shows "\<exists>s'. OSInode_read_all D f s = Some (Ok ((drop (unat (os_offset f)) (efs_content D N e i s),
        f\<lparr>os_offset := of_nat (length (efs_content D N e i s))\<rparr>), s'))
    \<and> efs_file_ok D N dev_ok e nm i s' \<and> efs_frame D N e nm s s' \<and> efs_content D N e i s' = efs_content D N e i s"
  by (rule block_device.OSInode_read_all_at [OF assms])

section \<open>Witnesses\<close>

abbreviation "ok_1100 \<equiv> \<lambda>f :: u8 list. 1100 * BLOCK_SIZE \<le> length f"

lemma os_example: "\<exists>e s i. efs_file_ok BlockFile 1100 ok_1100 e [97] i s
    \<and> efs_content BlockFile 1100 e i s = [0, 0, 7, 8, 9] \<and> efs_fits BlockFile 1100 e i s 100"
proof -
  from fs_example obtain e s where e: "efs_create BlockFile 1100 1 \<lparr>queue = [], device = disk_example\<rparr> = Ok (e, s)"
    "fs_refines BlockFile 1100 ok_1100 e s []" "1100 - da_start e = 73" "Bitmap_maximum (inode_bitmap e) = 4096" by blast
  have "ops_fit (1100 - da_start e) (Bitmap_maximum (inode_bitmap e)) ops_example []" unfolding e(3,4) by (rule ops_example_ok(1))
  from block_device.run_ops_refines [OF disk_example_ok(1) e(2) this] obtain s1 where
    "fs_refines BlockFile 1100 ok_1100 e s1 [([97], [0, 0, 7, 8, 9])]" unfolding ops_example_ok(2) by auto
  then obtain w where w: "efs_at BlockFile 1100 ok_1100 e s1 w" "fs_model_of e w = [([97], [0, 0, 7, 8, 9])]"
    "card (data_free 1100 e w) + fs_need [([97], [0, 0, 7, 8, 9])] = 1100 - da_start e" by (rule fs_refinesE)
  note v = efs_at_view [OF w(1)]
  from map_of_model [of e w "[97]"] w(2) obtain i where i: "dir_lookup e w [97] = Some i" "icontent e w i = [0, 0, 7, 8, 9]"
    by (cases "dir_lookup e w [97]") auto
  have "card (data_free 1100 e w) = 71"
    using w(3) e(3) by (simp add: fs_need_def blocks_for_def index_count_def DIR_ENTRY_SIZE_def)
  then have "efs_fits BlockFile 1100 e i s1 100"
    by (simp add: efs_fits_def efs_content_def v i(2) max_file_size_eq blocks_for_def index_count_def)
  moreover have "efs_file_ok BlockFile 1100 ok_1100 e [97] i s1" using w(1) i(1) by (simp add: efs_file_ok_def v)
  moreover have "efs_content BlockFile 1100 e i s1 = [0, 0, 7, 8, 9]" using i(2) by (simp add: efs_content_def v)
  ultimately show ?thesis by blast
qed

theorem open_file_outcome_witness:
  "\<exists>e s s' f. efs_create BlockFile 1100 1 \<lparr>queue = [], device = disk_example\<rparr> = Ok (e, s)
    \<and> open_file BlockFile e [98] 0x201 s = Ok (Some f, s') \<and> (readable f, writable f) = (False, True) \<and> os_offset f = 0"
proof -
  from block_device.efs_create_at [OF disk_example_ok(1) block_device.empty_cache_at [OF disk_example_ok(1,2)] disk_example_ok(3,4)]
  obtain e s w where
    e: "efs_create BlockFile 1100 1 \<lparr>queue = [], device = disk_example\<rparr> = Ok (e, s)" "efs_at BlockFile 1100 ok_1100 e s w" "dir_pairs e w = []"
      "live_inodes e w = {0}" "blocks (inode_bitmap e) = unat (1 :: u32)" "1100 - da_start e = fs_capacity 1100 1" "data_free 1100 e w = {da_start e..<1100}"
    by blast
  have empty: "icontent e w 0 = []"
  proof -
    have "length (icontent e w 0) mod DIR_ENTRY_SIZE = 0" using efs_atD(3) [OF e(2)] unfolding dir_ok_def by blast
    moreover have "length (icontent e w 0) div DIR_ENTRY_SIZE = 0" using arg_cong [OF e(3), of length] by (simp add: dir_pairs_def)
    ultimately show ?thesis by (metis length_0_conv mult_div_mod_eq mult_zero_right add_0)
  qed
  have "(1 :: nat) \<in> {..<4096}" "(1 :: nat) \<notin> {0}" by simp_all
  then have "{0} \<noteq> {..<4096 :: nat}" by blast
  then have "entry_room 1100 e w"
    using e(4,5,6,7) disk_example_ok(5)
    by (simp add: entry_room_def Let_def empty Bitmap_maximum_eq DIR_ENTRY_SIZE_def max_file_size_eq blocks_for_def index_count_def)
  moreover have "valid_name [98]" by (simp add: valid_name_def NAME_LENGTH_LIMIT_def)
  ultimately have "flags_contain 0x201 CREATE \<longrightarrow> dir_lookup e w [98] = None \<longrightarrow> valid_name [98] \<and> entry_room 1100 e w" by simp
  from open_file_outcome [OF disk_example_ok(1) e(2) this] obtain r s' where
    r: "open_file BlockFile e [98] 0x201 s = Ok (r, s')" "r = None \<longleftrightarrow> dir_lookup e w [98] = None \<and> \<not> flags_contain 0x201 CREATE"
      "\<forall>f. r = Some f \<longrightarrow> (readable f, writable f) = read_write 0x201 \<and> os_offset f = 0" by blast
  have "flags_contain 0x201 CREATE" "read_write 0x201 = (False, True)" by (simp_all add: flags_contain_def read_write_def open_flags)
  with r e(1) show ?thesis by (cases r) auto
qed

theorem OSInode_write_spec_witness:
  "\<exists>e f s s'. OSInode_write BlockFile e f \<lparr>buffers = [[100], [101, 102]]\<rparr> (\<lambda>a. of_nat a) s = Ok ((3, f\<lparr>os_offset := 6\<rparr>), s') \<and> os_offset f = 3"
proof -
  from os_example obtain e s i where ex: "efs_file_ok BlockFile 1100 ok_1100 e [97] i s" "efs_fits BlockFile 1100 e i s 100" by blast
  let ?f = "\<lparr>readable = True, writable = True, os_offset = 3, os_inode = handle e i\<rparr>"
  have "blocks_for 6 \<le> blocks_for 100" by (rule blocks_for_mono) simp
  then have "efs_fits BlockFile 1100 e i s 6" using ex(2) unfolding efs_fits_def by linarith
  then have "efs_fits BlockFile 1100 e i s (unat (os_offset ?f) + 3)" by simp
  from OSInode_write_spec [OF disk_example_ok(1) ex(1) _ _ _ this, of "\<lparr>buffers = [[100], [101, 102]]\<rparr>" "\<lambda>a. of_nat a"]
  obtain s' where "OSInode_write BlockFile e ?f \<lparr>buffers = [[100], [101, 102]]\<rparr> (\<lambda>a. of_nat a) s = Ok ((3, ?f\<lparr>os_offset := 6\<rparr>), s')" by auto
  then show ?thesis by (intro exI [of _ e] exI [of _ ?f] exI [of _ s] exI [of _ s']) simp
qed

theorem OSInode_read_spec_witness:
  "\<exists>f s s' m. OSInode_read BlockFile f \<lparr>buffers = [[100], [101, 102]]\<rparr> (\<lambda>a. 0) s = Ok ((2, f\<lparr>os_offset := 5\<rparr>, m), s')
    \<and> os_offset f = 3 \<and> m 100 = 8 \<and> m 101 = 9 \<and> m 102 = 0"
proof -
  from os_example obtain e s i where ex: "efs_file_ok BlockFile 1100 ok_1100 e [97] i s" "efs_content BlockFile 1100 e i s = [0, 0, 7, 8, 9]" by blast
  let ?f = "\<lparr>readable = True, writable = True, os_offset = 3, os_inode = handle e i\<rparr>"
  have n: "2 = min (length (concat (buffers \<lparr>buffers = [[100], [101, 102 :: nat]]\<rparr>))) (length (efs_content BlockFile 1100 e i s) - unat (os_offset ?f))"
    unfolding ex(2) by simp
  from OSInode_read_spec [OF disk_example_ok(1) ex(1) _ _ _ _ n, of "\<lambda>a. 0"]
  obtain s' where "OSInode_read BlockFile ?f \<lparr>buffers = [[100], [101, 102]]\<rparr> (\<lambda>a. 0) s
      = Ok ((2, ?f\<lparr>os_offset := 5\<rparr>, store_list (\<lambda>a. 0) [100, 101] [8, 9]), s')"
    unfolding ex(2) by auto
  then show ?thesis
    by (intro exI [of _ ?f] exI [of _ s] exI [of _ s'] exI [of _ "store_list (\<lambda>a. 0) [100, 101] [8, 9]"]) simp
qed

theorem OSInode_read_all_returns_witness:
  "\<exists>f s s'. OSInode_read_all BlockFile f s = Some (Ok (([0, 0, 7, 8, 9], f\<lparr>os_offset := 5\<rparr>), s')) \<and> os_offset f = 0"
proof -
  from os_example obtain e s i where ex: "efs_file_ok BlockFile 1100 ok_1100 e [97] i s" "efs_content BlockFile 1100 e i s = [0, 0, 7, 8, 9]" by blast
  let ?f = "OSInode_new True False (handle e i)"
  from OSInode_read_all_returns [OF disk_example_ok(1) ex(1), of ?f] ex(2) obtain s' where
    "OSInode_read_all BlockFile ?f s = Some (Ok (([0, 0, 7, 8, 9], ?f\<lparr>os_offset := 5\<rparr>), s'))" by (auto simp: OSInode_new_def)
  then show ?thesis by (intro exI [of _ ?f] exI [of _ s] exI [of _ s']) (simp add: OSInode_new_def)
qed

end
