(* ===== verification/File_Calls.thy ===== *)
theory File_Calls
  imports Process_Calls Os_Inode
begin

text \<open>
  The system calls on files (\<^verbatim>\<open>src/src/os/src/syscall/fs.rs\<close>), \<^verbatim>\<open>exec\<close>, the standard streams
  (\<^verbatim>\<open>src/src/os/src/fs/stdio.rs\<close>), the dispatcher (\<^verbatim>\<open>src/src/os/src/syscall/mod.rs\<close>) and the handler of
  traps (\<^verbatim>\<open>src/src/os/src/trap/mod.rs\<close>), on the state of the whole system.

  A call that has to wait gives the processor away and goes on when its task is chosen again; what
  its kernel stack holds meanwhile is a \<open>blocked\<close> value in \<open>frames\<close>. A call on user memory whose
  translation loop does not end is \<open>None\<close>.
\<close>

unbundle bit_operations_syntax

section \<open>The state of the system\<close>

text \<open>
  Open files, pipe ends and ring buffers are shared objects that are only referred to while they
  exist; they are named by their position. The console delivers the values of \<^verbatim>\<open>console_getchar\<close>
  that are still to come (0 when there is no input) and the clock is the register \<^verbatim>\<open>time\<close>.
\<close>

datatype blocked =
    ReadPipe nat UserBufferIterator nat
  | WritePipe nat UserBufferIterator nat
  | ReadStdin UserBuffer
  | Returning isize
  | TimerReturn
  | SignalLoop

record 'd system =
  kern :: kernel
  fs :: "'d bc_state"
  os_files :: "OSInode list"
  pipes :: "Pipe list"
  rings :: "PipeRingBuffer list"
  frames :: "nat \<Rightarrow> blocked option"
  console_in :: "usize list"
  console_out :: "u8 list"
  clock :: usize
  next_trigger :: usize

text \<open>The file system that the kernel has mounted, its device and what the linker provides.\<close>

record 'd platform =
  dev :: "'d BlockDevice"
  efs :: EasyFileSystem
  kenv :: kernel_env

text \<open>
  How a call ends for now: with a result, without one (a trap that is no system call), in another
  round of its loop, asleep, or not at all.
\<close>

datatype call_result = Ret isize | Handled | Again blocked | Sleep | NoReturn

type_synonym 'd call = "'d system \<Rightarrow> (call_result \<times> 'd system) outcome option"

definition bindo :: "'a outcome option \<Rightarrow> ('a \<Rightarrow> 'b outcome option) \<Rightarrow> 'b outcome option" where
  "bindo r f = (case r of None \<Rightarrow> None | Some (Panic p) \<Rightarrow> Some (Panic p) | Some (Ok x) \<Rightarrow> f x)"

lemma bindo_simps [simp]: "bindo None f = None" "bindo (Some (Panic p)) f = Some (Panic p)" "bindo (Some (Ok x)) f = f x"
  by (simp_all add: bindo_def)

definition s_mem :: "'d system \<Rightarrow> memory" where
  "s_mem s = mem (k_mm (kern s))"

definition put_mem :: "memory \<Rightarrow> 'd system \<Rightarrow> 'd system" where
  "put_mem m s = s\<lparr>kern := set_mem m (kern s)\<rparr>"

text \<open>A call that only concerns the kernel state.\<close>

definition kcall :: "(kernel \<Rightarrow> (isize \<times> kernel) outcome) \<Rightarrow> 'd call" where
  "kcall f s = Some (and_then (f (kern s)) (\<lambda>(r, k). Ok (Ret r, s\<lparr>kern := k\<rparr>)))"

text \<open>The current task gives the processor away and keeps \<open>b\<close> on its kernel stack.\<close>

definition sleep :: "TaskContext \<Rightarrow> blocked \<Rightarrow> 'd system \<Rightarrow> (call_result \<times> 'd system) outcome" where
  "sleep cx b s =
     and_then (unwrap (current_task (kern s))) (\<lambda>t.
     and_then (suspend_current_and_run_next cx (kern s)) (\<lambda>k. Ok (Sleep, s\<lparr>kern := k, frames := (frames s)(t \<mapsto> b)\<rparr>)))"

section \<open>Standard streams\<close>

definition console_getchar :: "'d system \<Rightarrow> usize \<times> 'd system" where
  "console_getchar s = (case console_in s of [] \<Rightarrow> (0, s) | c # cs \<Rightarrow> (c, s\<lparr>console_in := cs\<rparr>))"

text \<open>One turn of the loop of \<^verbatim>\<open>Stdin::read\<close>.\<close>

definition Stdin_read_round :: "TaskContext \<Rightarrow> UserBuffer \<Rightarrow> 'd system \<Rightarrow> (call_result \<times> 'd system) outcome" where
  "Stdin_read_round cx user_buf s =
     (case console_getchar s of (c, s) \<Rightarrow>
        if c = 0 then sleep cx (ReadStdin user_buf) s
        else
          and_then (index (buffers user_buf) 0) (\<lambda>b.
          and_then (index b 0) (\<lambda>a. Ok (Ret 1, put_mem ((s_mem s)(a := ucast c)) s))))"

text \<open>Each slice has to be valid UTF-8 of its own.\<close>

fun Stdout_print :: "nat list list \<Rightarrow> memory \<Rightarrow> u8 list outcome" where
  "Stdout_print [] m = Ok []"
| "Stdout_print (b # bs) m =
     (if utf8_valid (map m b) then and_then (Stdout_print bs m) (\<lambda>rest. Ok (map m b @ rest)) else Panic UnwrapNone)"

definition Stdout_write :: "UserBuffer \<Rightarrow> 'd system \<Rightarrow> (call_result \<times> 'd system) outcome" where
  "Stdout_write user_buf s =
     and_then (Stdout_print (buffers user_buf) (s_mem s)) (\<lambda>out.
     Ok (Ret (UserBuffer_len user_buf), s\<lparr>console_out := console_out s @ out\<rparr>))"

text \<open>A character that crosses a boundary between two slices is refused although the buffer is valid.\<close>

lemma Stdout_print_splits_character:
  assumes "m a = 0xC3" "m b = 0xA9"
  shows "utf8_valid (map m [a, b])" "Stdout_print [[a, b]] m = Ok [0xC3, 0xA9]" "Stdout_print [[a], [b]] m = Panic UnwrapNone"
  using assms by (simp_all add: utf8_cont_def)

section \<open>The files behind a descriptor\<close>

fun file_readable :: "'d system \<Rightarrow> file_ref \<Rightarrow> bool" where
  "file_readable s StdinFile = True"
| "file_readable s StdoutFile = False"
| "file_readable s (InodeFile n) = readable (os_files s ! n)"
| "file_readable s (PipeFile p) = pipe_readable (pipes s ! p)"

fun file_writable :: "'d system \<Rightarrow> file_ref \<Rightarrow> bool" where
  "file_writable s StdinFile = False"
| "file_writable s StdoutFile = True"
| "file_writable s (InodeFile n) = writable (os_files s ! n)"
| "file_writable s (PipeFile p) = pipe_writable (pipes s ! p)"

text \<open>The strong references to a pipe end: in the tables of descriptors and on the stacks of waiting calls.\<close>

definition frame_refs :: "nat \<Rightarrow> blocked option \<Rightarrow> nat" where
  "frame_refs p b = (case b of Some (ReadPipe q _ _) \<Rightarrow> (if q = p then 1 else 0) | Some (WritePipe q _ _) \<Rightarrow> (if q = p then 1 else 0) | _ \<Rightarrow> 0)"

definition pipe_strong :: "'d system \<Rightarrow> nat \<Rightarrow> nat" where
  "pipe_strong s p =
     (\<Sum>t \<leftarrow> [0..<next_tcb (kern s)].
        case tcbs (kern s) t of
          None \<Rightarrow> 0
        | Some tcb \<Rightarrow> count_list (fd_table (inner tcb)) (Some (PipeFile p)) + frame_refs p (frames s t))"

definition put_ring :: "nat \<Rightarrow> pipe_call \<Rightarrow> 'd system \<Rightarrow> 'd system" where
  "put_ring p c s = put_mem (pc_mem c) (s\<lparr>rings := (rings s)[pipe_buffer (pipes s ! p) := pc_buf c]\<rparr>)"

definition pipe_call_of :: "nat \<Rightarrow> UserBufferIterator \<Rightarrow> nat \<Rightarrow> 'd system \<Rightarrow> pipe_call" where
  "pipe_call_of p it n s = \<lparr>pc_buf = rings s ! pipe_buffer (pipes s ! p), pc_mem = s_mem s, pc_iter = it, pc_size = n\<rparr>"

definition after_round :: "TaskContext \<Rightarrow> nat \<Rightarrow> (UserBufferIterator \<Rightarrow> nat \<Rightarrow> blocked) \<Rightarrow> round \<times> pipe_call \<Rightarrow> 'd system \<Rightarrow> (call_result \<times> 'd system) outcome" where
  "after_round cx p again = (\<lambda>(r, c) s.
     let s = put_ring p c s
     in case r of
          Returned \<Rightarrow> Ok (Ret (of_nat (pc_size c)), s)
        | Continue \<Rightarrow> Ok (Again (again (pc_iter c) (pc_size c)), s)
        | Suspended \<Rightarrow> sleep cx (again (pc_iter c) (pc_size c)) s)"

text \<open>
  A task that has been chosen again goes on with what its stack holds (for a task that waits in
  \<^verbatim>\<open>handle_signals\<close> see \<open>signal_turn\<close> below).
\<close>

fun resume :: "TaskContext \<Rightarrow> blocked \<Rightarrow> 'd system \<Rightarrow> (call_result \<times> 'd system) outcome" where
  "resume cx (ReadPipe p it n) s =
     and_then (Pipe_read_round (pipe_strong s) (pipe_call_of p it n s)) (\<lambda>rc. after_round cx p (ReadPipe p) rc s)"
| "resume cx (WritePipe p it n) s =
     and_then (Pipe_write_round (pipe_call_of p it n s)) (\<lambda>rc. after_round cx p (WritePipe p) rc s)"
| "resume cx (ReadStdin buf) s = Stdin_read_round cx buf s"
| "resume cx (Returning r) s = Ok (Ret r, s)"
| "resume cx TimerReturn s = Ok (Handled, s)"
| "resume cx SignalLoop s = Ok (Handled, s)"

fun File_read :: "'d platform \<Rightarrow> file_ref \<Rightarrow> UserBuffer \<Rightarrow> 'd system \<Rightarrow> (call_result \<times> 'd system) outcome" where
  "File_read P StdinFile buf s = and_then (assert_that (UserBuffer_len buf = 1)) (\<lambda>_. Ok (Again (ReadStdin buf), s))"
| "File_read P StdoutFile buf s = Panic ExplicitPanic"
| "File_read P (InodeFile n) buf s =
     and_then (OSInode_read (dev P) (os_files s ! n) buf (s_mem s) (fs s)) (\<lambda>((k, f, m), d).
     Ok (Ret k, put_mem m (s\<lparr>os_files := (os_files s)[n := f], fs := d\<rparr>)))"
| "File_read P (PipeFile p) buf s =
     and_then (assert_that (pipe_readable (pipes s ! p))) (\<lambda>_. Ok (Again (ReadPipe p (UserBuffer_into_iter buf) 0), s))"

fun File_write :: "'d platform \<Rightarrow> file_ref \<Rightarrow> UserBuffer \<Rightarrow> 'd system \<Rightarrow> (call_result \<times> 'd system) outcome" where
  "File_write P StdinFile buf s = Panic ExplicitPanic"
| "File_write P StdoutFile buf s = Stdout_write buf s"
| "File_write P (InodeFile n) buf s =
     and_then (OSInode_write (dev P) (efs P) (os_files s ! n) buf (s_mem s) (fs s)) (\<lambda>((k, f), d).
     Ok (Ret k, s\<lparr>os_files := (os_files s)[n := f], fs := d\<rparr>))"
| "File_write P (PipeFile p) buf s =
     and_then (assert_that (pipe_writable (pipes s ! p))) (\<lambda>_. Ok (Again (WritePipe p (UserBuffer_into_iter buf) 0), s))"

section \<open>System calls on files\<close>

text \<open>The file behind a descriptor of the current task; the borrow ends before the file is used.\<close>

definition fd_file :: "usize \<Rightarrow> 'd system \<Rightarrow> file_ref option outcome" where
  "fd_file fd s =
     and_then (unwrap (current_task (kern s))) (\<lambda>t.
     and_then (inner_exclusive_access t (kern s)) (\<lambda>(i, _).
     Ok (if unat fd \<ge> length (fd_table i) then None else fd_table i ! unat fd)))"

definition sys_write :: "'d platform \<Rightarrow> usize \<Rightarrow> usize \<Rightarrow> usize \<Rightarrow> 'd call" where
  "sys_write P fd buf len s =
     bindo (Some (fd_file fd s)) (\<lambda>found.
     case found of
       None \<Rightarrow> Some (Ok (Ret (- 1), s))
     | Some file \<Rightarrow>
         if \<not> file_writable s file then Some (Ok (Ret (- 1), s))
         else
           bindo (Some (current_user_token (kern s))) (\<lambda>token.
           bindo (translated_byte_buffer token buf len (s_mem s)) (\<lambda>bs.
           Some (File_write P file (UserBuffer_new bs) s))))"

definition sys_read :: "'d platform \<Rightarrow> usize \<Rightarrow> usize \<Rightarrow> usize \<Rightarrow> 'd call" where
  "sys_read P fd buf len s =
     bindo (Some (fd_file fd s)) (\<lambda>found.
     case found of
       None \<Rightarrow> Some (Ok (Ret (- 1), s))
     | Some file \<Rightarrow>
         if \<not> file_readable s file then Some (Ok (Ret (- 1), s))
         else
           bindo (Some (current_user_token (kern s))) (\<lambda>token.
           bindo (translated_byte_buffer token buf len (s_mem s)) (\<lambda>bs.
           Some (File_read P file (UserBuffer_new bs) s))))"

text \<open>A string holds each byte as a character, which is encoded in one or two bytes.\<close>

definition char_bytes :: "u8 \<Rightarrow> u8 list" where
  "char_bytes c = (if c < 0x80 then [c] else [0xC0 OR drop_bit 6 c, 0x80 OR (c AND 0x3F)])"

definition as_bytes :: "u8 list \<Rightarrow> u8 list" where
  "as_bytes str = concat (map char_bytes str)"

definition install_fd :: "file_ref \<Rightarrow> TaskControlBlockInner \<Rightarrow> nat \<times> TaskControlBlockInner" where
  "install_fd file i = (case alloc_fd i of (fd, i) \<Rightarrow> (fd, i\<lparr>fd_table := (fd_table i)[fd := Some file]\<rparr>))"

definition sys_open :: "'d platform \<Rightarrow> usize \<Rightarrow> u32 \<Rightarrow> 'd call" where
  "sys_open P path flags s =
     bindo (Some (current_user_token (kern s))) (\<lambda>token.
     bindo (translated_str token path (s_mem s)) (\<lambda>name.
     bindo (Some (unwrap (OpenFlags_from_bits flags))) (\<lambda>flags.
     bindo (Some (open_file (dev P) (efs P) (as_bytes name) flags (fs s))) (\<lambda>(file, d).
     let s = s\<lparr>fs := d\<rparr>
     in case file of
          None \<Rightarrow> Some (Ok (Ret (- 1), s))
        | Some f \<Rightarrow>
            let n = length (os_files s); s = s\<lparr>os_files := os_files s @ [f]\<rparr>
            in kcall (\<lambda>k.
                 and_then (unwrap (current_task k)) (\<lambda>t.
                 with_inner t (\<lambda>i k. case install_fd (InodeFile n) i of (fd, i) \<Rightarrow> Ok (of_nat fd, i, k)) k)) s))))"

definition sys_close :: "usize \<Rightarrow> kernel \<Rightarrow> (isize \<times> kernel) outcome" where
  "sys_close fd k =
     and_then (unwrap (current_task k)) (\<lambda>t.
     with_inner t (\<lambda>i k.
       if unat fd \<ge> length (fd_table i) then Ok (- 1, i, k)
       else if fd_table i ! unat fd = None then Ok (- 1, i, k)
       else Ok (0, i\<lparr>fd_table := (fd_table i)[unat fd := None]\<rparr>, k)) k)"

text \<open>The token is taken while the inner part of the task is borrowed.\<close>

definition sys_pipe :: "usize \<Rightarrow> 'd call" where
  "sys_pipe pipe s =
     Some (and_then (unwrap (current_task (kern s))) (\<lambda>t.
     and_then (inner_exclusive_access t (kern s)) (\<lambda>(i, k).
     and_then (current_user_token k) (\<lambda>token.
     let b = length (rings s); rp = length (pipes s); wp = Suc (length (pipes s))
     in case make_pipe b wp of (read_p, write_p, ring) \<Rightarrow>
     case install_fd (PipeFile rp) i of (read_fd, i) \<Rightarrow>
     case install_fd (PipeFile wp) i of (write_fd, i) \<Rightarrow>
     and_then (translated_ref_mut token pipe (mem (k_mm k))) (\<lambda>a.
     let k = set_mem (store_u64 (mem (k_mm k)) a (of_nat read_fd)) k
     in and_then (translated_ref_mut token (pipe + 8) (mem (k_mm k))) (\<lambda>a.
        let k = set_mem (store_u64 (mem (k_mm k)) a (of_nat write_fd)) k
        in Ok (Ret 0, s\<lparr>kern := release t i k, pipes := pipes s @ [read_p, write_p], rings := rings s @ [ring]\<rparr>)))))))"

definition sys_dup :: "usize \<Rightarrow> kernel \<Rightarrow> (isize \<times> kernel) outcome" where
  "sys_dup fd k =
     and_then (unwrap (current_task k)) (\<lambda>t.
     with_inner t (\<lambda>i k.
       if unat fd \<ge> length (fd_table i) then Ok (- 1, i, k)
       else if fd_table i ! unat fd = None then Ok (- 1, i, k)
       else case alloc_fd i of (new_fd, i) \<Rightarrow>
         Ok (of_nat new_fd, i\<lparr>fd_table := (fd_table i)[new_fd := fd_table i ! unat fd]\<rparr>, k)) k)"

section \<open>Replacing the program\<close>

text \<open>The loop over the argument pointers, up to a null pointer.\<close>

partial_function (option) exec_args :: "usize \<Rightarrow> usize \<Rightarrow> memory \<Rightarrow> u8 list list \<Rightarrow> u8 list list outcome option" where
  "exec_args token args m v =
     (case translated_ref token args m of
        Panic p \<Rightarrow> Some (Panic p)
      | Ok a \<Rightarrow>
          let arg_str_ptr = load_u64 m a
          in if arg_str_ptr = 0 then Some (Ok v)
             else case translated_str token arg_str_ptr m of
                    None \<Rightarrow> None
                  | Some (Panic p) \<Rightarrow> Some (Panic p)
                  | Some (Ok str) \<Rightarrow> exec_args token (args + 8) m (v @ [as_bytes str]))"

definition sys_exec :: "'d platform \<Rightarrow> usize \<Rightarrow> usize \<Rightarrow> 'd call" where
  "sys_exec P path args s =
     bindo (Some (current_user_token (kern s))) (\<lambda>token.
     bindo (translated_str token path (s_mem s)) (\<lambda>app_name.
     bindo (exec_args token args (s_mem s) []) (\<lambda>args_vec.
     bindo (Some (open_file (dev P) (efs P) (as_bytes app_name) READ_ONLY (fs s))) (\<lambda>(file, d).
     case file of
       None \<Rightarrow> Some (Ok (Ret (- 1), s\<lparr>fs := d\<rparr>))
     | Some inode \<Rightarrow>
         bindo (OSInode_read_all (dev P) inode d) (\<lambda>((elf_data, _), d).
         Some (and_then (unwrap (current_task (kern s))) (\<lambda>t.
         and_then (exec (kenv P) t elf_data args_vec (kern s)) (\<lambda>k.
         Ok (Ret (of_nat (length args_vec)), s\<lparr>kern := k, fs := d\<rparr>)))))))))"

section \<open>The first process\<close>

definition INITPROC_NAME :: "u8 list" where
  "INITPROC_NAME = map of_char ''initproc''"

text \<open>The static \<^verbatim>\<open>INITPROC\<close> is initialised when it is first used, by \<^verbatim>\<open>add_initproc\<close>.\<close>

definition add_initproc :: "'d platform \<Rightarrow> 'd system \<Rightarrow> 'd system outcome option" where
  "add_initproc P s =
     bindo (Some (open_file (dev P) (efs P) INITPROC_NAME READ_ONLY (fs s))) (\<lambda>(file, d).
     bindo (Some (unwrap file)) (\<lambda>inode.
     bindo (OSInode_read_all (dev P) inode d) (\<lambda>((initproc_data, _), d).
     Some (and_then (TaskControlBlock_new (kenv P) initproc_data (kern s)) (\<lambda>(t, k).
     and_then (add_task t (k\<lparr>INITPROC := t\<rparr>)) (\<lambda>k. Ok (s\<lparr>kern := k, fs := d\<rparr>)))))))"

section \<open>The clock\<close>

definition CLOCK_FREQ :: usize where "CLOCK_FREQ = 12500000"
definition TICKS_PER_SEC :: usize where "TICKS_PER_SEC = 100"
definition MSEC_PER_SEC :: usize where "MSEC_PER_SEC = 1000"

definition get_time_ms :: "'d system \<Rightarrow> usize" where
  "get_time_ms s = clock s div (CLOCK_FREQ div MSEC_PER_SEC)"

definition set_next_trigger :: "'d system \<Rightarrow> 'd system" where
  "set_next_trigger s = s\<lparr>next_trigger := clock s + CLOCK_FREQ div TICKS_PER_SEC\<rparr>"

definition sys_get_time :: "'d system \<Rightarrow> isize" where
  "sys_get_time s = get_time_ms s"

section \<open>The dispatcher\<close>

definition SYSCALL_DUP :: usize where "SYSCALL_DUP = 24"
definition SYSCALL_OPEN :: usize where "SYSCALL_OPEN = 56"
definition SYSCALL_CLOSE :: usize where "SYSCALL_CLOSE = 57"
definition SYSCALL_PIPE :: usize where "SYSCALL_PIPE = 59"
definition SYSCALL_READ :: usize where "SYSCALL_READ = 63"
definition SYSCALL_WRITE :: usize where "SYSCALL_WRITE = 64"
definition SYSCALL_EXIT :: usize where "SYSCALL_EXIT = 93"
definition SYSCALL_YIELD :: usize where "SYSCALL_YIELD = 124"
definition SYSCALL_KILL :: usize where "SYSCALL_KILL = 129"
definition SYSCALL_SIGACTION :: usize where "SYSCALL_SIGACTION = 134"
definition SYSCALL_SIGPROCMASK :: usize where "SYSCALL_SIGPROCMASK = 135"
definition SYSCALL_SIGRETURN :: usize where "SYSCALL_SIGRETURN = 139"
definition SYSCALL_GET_TIME :: usize where "SYSCALL_GET_TIME = 169"
definition SYSCALL_GETPID :: usize where "SYSCALL_GETPID = 172"
definition SYSCALL_FORK :: usize where "SYSCALL_FORK = 220"
definition SYSCALL_EXEC :: usize where "SYSCALL_EXEC = 221"
definition SYSCALL_WAITPID :: usize where "SYSCALL_WAITPID = 260"

lemmas syscall_ids = SYSCALL_DUP_def SYSCALL_OPEN_def SYSCALL_CLOSE_def SYSCALL_PIPE_def SYSCALL_READ_def SYSCALL_WRITE_def
  SYSCALL_EXIT_def SYSCALL_YIELD_def SYSCALL_KILL_def SYSCALL_SIGACTION_def SYSCALL_SIGPROCMASK_def SYSCALL_SIGRETURN_def
  SYSCALL_GET_TIME_def SYSCALL_GETPID_def SYSCALL_FORK_def SYSCALL_EXEC_def SYSCALL_WAITPID_def

text \<open>\<open>cx\<close> is what \<^verbatim>\<open>__switch\<close> saves if the call gives the processor away.\<close>

definition syscall :: "'d platform \<Rightarrow> TaskContext \<Rightarrow> usize \<Rightarrow> usize \<Rightarrow> usize \<Rightarrow> usize \<Rightarrow> 'd call" where
  "syscall P cx syscall_id a0 a1 a2 s =
     (if syscall_id = SYSCALL_EXIT then
        Some (and_then (sys_exit (ucast a0) (kern s)) (\<lambda>k. Ok (NoReturn, s\<lparr>kern := k\<rparr>)))
      else if syscall_id = SYSCALL_WRITE then sys_write P a0 a1 a2 s
      else if syscall_id = SYSCALL_YIELD then Some (sleep cx (Returning 0) s)
      else if syscall_id = SYSCALL_GET_TIME then Some (Ok (Ret (sys_get_time s), s))
      else if syscall_id = SYSCALL_READ then sys_read P a0 a1 a2 s
      else if syscall_id = SYSCALL_GETPID then kcall (\<lambda>k. and_then (sys_getpid k) (\<lambda>r. Ok (r, k))) s
      else if syscall_id = SYSCALL_FORK then kcall (sys_fork (kenv P)) s
      else if syscall_id = SYSCALL_EXEC then sys_exec P a0 a1 s
      else if syscall_id = SYSCALL_WAITPID then kcall (sys_waitpid a0 a1) s
      else if syscall_id = SYSCALL_OPEN then sys_open P a0 (ucast a1) s
      else if syscall_id = SYSCALL_CLOSE then kcall (sys_close a0) s
      else if syscall_id = SYSCALL_PIPE then sys_pipe a0 s
      else if syscall_id = SYSCALL_DUP then kcall (sys_dup a0) s
      else if syscall_id = SYSCALL_KILL then kcall (sys_kill a0 (ucast a1)) s
      else if syscall_id = SYSCALL_SIGACTION then kcall (sys_sigaction (ucast a0) a1 a2) s
      else if syscall_id = SYSCALL_SIGRETURN then kcall sys_sigreturn s
      else if syscall_id = SYSCALL_SIGPROCMASK then kcall (sys_procmask (ucast a0)) s
      else Some (Panic ExplicitPanic))"

section \<open>Traps\<close>

datatype trap_cause = UserEnvCall | StoreFault | StorePageFault | LoadFault | LoadPageFault | IllegalInstruction
  | SupervisorTimer | OtherTrap

text \<open>The trap context of the current task, changed in place.\<close>

definition with_trap_cx :: "(TrapContext \<Rightarrow> TrapContext) \<Rightarrow> kernel \<Rightarrow> kernel outcome" where
  "with_trap_cx f k = and_then (current_trap_cx k) (\<lambda>ppn. Ok (set_mem (store_trap_cx (mem (k_mm k)) ppn (f (load_trap_cx (mem (k_mm k)) ppn))) k))"

definition add_signal :: "SignalFlags \<Rightarrow> 'd call" where
  "add_signal flag s = Some (and_then (current_add_signal flag (kern s)) (\<lambda>k. Ok (Handled, s\<lparr>kern := k\<rparr>)))"

text \<open>The first half of \<^verbatim>\<open>trap_handler\<close>, up to the result of a system call.\<close>

definition trap_enter :: "'d platform \<Rightarrow> TaskContext \<Rightarrow> trap_cause \<Rightarrow> 'd call" where
  "trap_enter P cx cause s =
     (case cause of
        UserEnvCall \<Rightarrow>
          bindo (Some (with_trap_cx (\<lambda>c. c\<lparr>sepc := sepc c + 4\<rparr>) (kern s))) (\<lambda>k.
          bindo (Some (current_trap_cx k)) (\<lambda>ppn.
          let r = regs (load_trap_cx (mem (k_mm k)) ppn)
          in syscall P cx (r ! 17) (r ! 10) (r ! 11) (r ! 12) (s\<lparr>kern := k\<rparr>)))
      | IllegalInstruction \<Rightarrow> add_signal SIGILL s
      | SupervisorTimer \<Rightarrow> Some (sleep cx TimerReturn (set_next_trigger s))
      | OtherTrap \<Rightarrow> Some (Panic ExplicitPanic)
      | _ \<Rightarrow> add_signal SIGSEGV s)"

text \<open>The result of a system call goes into the context, which \<^verbatim>\<open>exec\<close> has replaced.\<close>

definition trap_result :: "isize \<Rightarrow> kernel \<Rightarrow> kernel outcome" where
  "trap_result result k = with_trap_cx (\<lambda>c. c\<lparr>regs := (regs c)[10 := result]\<rparr>) k"

text \<open>
  The second half, after \<^verbatim>\<open>handle_signals\<close> has left its loop: a fatal signal ends the process, else
  \<^verbatim>\<open>trap_return\<close> goes back to the user with the token of its address space.
\<close>

definition trap_leave :: "kernel \<Rightarrow> (usize option \<times> kernel) outcome" where
  "trap_leave k =
     and_then (check_signals_error_of_current k) (\<lambda>r.
     case r of
       Some (errno, _) \<Rightarrow> and_then (exit_current_and_run_next errno k) (\<lambda>k. Ok (None, k))
     | None \<Rightarrow> and_then (current_user_token k) (\<lambda>token. Ok (Some token, k)))"

section \<open>The kernel code of the current task\<close>

text \<open>\<^verbatim>\<open>handle_signals\<close> begins with a check of the signals and then enters its loop.\<close>

definition enter_signals :: "nat \<Rightarrow> 'd system \<Rightarrow> 'd system outcome" where
  "enter_signals t s =
     and_then (check_pending_current (kern s)) (\<lambda>k. Ok (s\<lparr>kern := k, frames := (frames s)(t \<mapsto> SignalLoop)\<rparr>))"

definition after_call :: "nat \<Rightarrow> call_result \<times> 'd system \<Rightarrow> 'd system outcome" where
  "after_call t = (\<lambda>(r, s).
     case r of
       Ret v \<Rightarrow> and_then (trap_result v (kern s)) (\<lambda>k. enter_signals t (s\<lparr>kern := k\<rparr>))
     | Handled \<Rightarrow> enter_signals t s
     | Again b \<Rightarrow> Ok (s\<lparr>frames := (frames s)(t \<mapsto> b)\<rparr>)
     | Sleep \<Rightarrow> Ok s
     | NoReturn \<Rightarrow> Ok (s\<lparr>frames := (frames s)(t := None)\<rparr>))"

text \<open>A turn of the loop of \<^verbatim>\<open>handle_signals\<close>; when it is left, the trap ends.\<close>

definition signal_turn :: "nat \<Rightarrow> TaskContext \<Rightarrow> 'd system \<Rightarrow> 'd system outcome" where
  "signal_turn t cx s =
     and_then (handle_signals_current cx (kern s)) (\<lambda>(w, k).
     case w of
       SuspendTask \<Rightarrow> Ok (s\<lparr>kern := k\<rparr>)
     | LeaveLoop \<Rightarrow> and_then (trap_leave k) (\<lambda>(_, k). Ok (s\<lparr>kern := k, frames := (frames s)(t := None)\<rparr>)))"

text \<open>What the task does next in the kernel: it traps, goes on with a call, or waits for a signal.\<close>

definition task_turn :: "'d platform \<Rightarrow> TaskContext \<Rightarrow> trap_cause \<Rightarrow> nat \<Rightarrow> 'd system \<Rightarrow> 'd system outcome option" where
  "task_turn P cx cause t s =
     (case frames s t of
        None \<Rightarrow> bindo (trap_enter P cx cause s) (\<lambda>rs. Some (after_call t rs))
      | Some SignalLoop \<Rightarrow> Some (signal_turn t cx s)
      | Some b \<Rightarrow> Some (and_then (resume cx b s) (after_call t)))"

end
