(* ===== verification/Kernel_Steps.thy ===== *)
theory Kernel_Steps
  imports Task_Steps File_Calls
begin

text \<open>
  The running system: the idle loop, the user code of the current task and its kernel code take
  turns. Every state that is reached from a booted system satisfies the invariant of the process
  table, whatever the user programs do.
\<close>

section \<open>Calls that leave the process table as it is\<close>

text \<open>What a change under a borrow has to keep.\<close>

definition same_tasks :: "kernel \<Rightarrow> kernel \<Rightarrow> bool" where
  "same_tasks k k' \<longleftrightarrow> tcbs k' = tcbs k \<and> ready_queue k' = ready_queue k \<and> current k' = current k \<and> PID_TO_TASK k' = PID_TO_TASK k
     \<and> PID_ALLOCATOR k' = PID_ALLOCATOR k \<and> INITPROC k' = INITPROC k \<and> next_tcb k' = next_tcb k \<and> borrowed k' = borrowed k"

lemma same_tasks_simps [simp]: "same_tasks k k" "same_tasks k (set_mem m k)" "same_tasks k (k\<lparr>k_mm := s\<rparr>)"
  by (simp_all add: same_tasks_def)

lemma same_tasks_inv: "same_tasks k k' \<Longrightarrow> tasks_inv k' = tasks_inv k"
  using queue_ok_cong [of k' k] pids_ok_cong [of k' k] family_ok_cong [of k' k] views_cong [of k' k]
  by (simp add: tasks_inv_def same_tasks_def)

definition keeps :: "(TaskControlBlockInner \<Rightarrow> kernel \<Rightarrow> ('r \<times> TaskControlBlockInner \<times> kernel) outcome) \<Rightarrow> bool" where
  "keeps f \<longleftrightarrow> (\<forall>i k r i' k'. f i k = Ok (r, i', k') \<longrightarrow>
     task_status i' = task_status i \<and> children i' = children i \<and> same_tasks k k')"

lemma with_inner_tasks_inv:
  assumes inv: "tasks_inv k" and run: "with_inner t f k = Ok (r, k')" and f: "keeps f"
  shows "tasks_inv k' \<and> current k' = current k \<and> ready_queue k' = ready_queue k"
proof -
  from run obtain tcb i k1 where tcb: "tcbs k t = Some tcb" and b: "t \<notin> borrowed k"
    and f1: "f (inner tcb) (k\<lparr>borrowed := insert t (borrowed k)\<rparr>) = Ok (r, i, k1)" and k': "k' = release t i k1"
    by (auto simp: with_inner_Ok)
  from f f1 have i: "task_status i = task_status (inner tcb)" "children i = children (inner tcb)"
    and k1: "same_tasks (k\<lparr>borrowed := insert t (borrowed k)\<rparr>) k1" unfolding keeps_def by blast+
  let ?k = "k1\<lparr>borrowed := borrowed k1 - {t}\<rparr>"
  have same: "same_tasks k ?k" using k1 b by (simp add: same_tasks_def)
  then have "tasks_inv ?k" using inv same_tasks_inv by blast
  then have "tasks_inv (put_inner t i ?k)" using tcb i same by (intro tasks_inv_inner [of ?k t tcb]) (simp_all add: same_tasks_def)
  then show ?thesis using same by (simp add: k' release_def same_tasks_def)
qed

text \<open>The invariant together with a part of the ready queue that is still waiting.\<close>

definition tasks_q :: "nat list \<Rightarrow> kernel \<Rightarrow> bool" where
  "tasks_q Q k \<longleftrightarrow> tasks_inv k \<and> (\<exists>q. ready_queue k = Q @ q)"

lemma tasks_qD: "tasks_q Q k \<Longrightarrow> tasks_inv k"
  by (simp add: tasks_q_def)

lemma tasks_q_mem: "tasks_q Q (set_mem m k) = tasks_q Q k"
  by (simp add: tasks_q_def tasks_inv_mem)

lemma tasks_qI: "tasks_q Q k \<Longrightarrow> tasks_inv k' \<Longrightarrow> ready_queue k' = ready_queue k @ q \<Longrightarrow> tasks_q Q k'"
  by (auto simp: tasks_q_def)

lemma same_tasks_q: "same_tasks k k' \<Longrightarrow> tasks_q Q k' = tasks_q Q k"
  using same_tasks_inv [of k k'] by (simp add: tasks_q_def same_tasks_def)

lemma with_inner_inv:
  assumes "tasks_q Q k" "with_inner t f k = Ok (r, k')" "keeps f"
  shows "tasks_q Q k' \<and> current k' = current k"
  using with_inner_tasks_inv [OF tasks_qD [OF assms(1)] assms(2,3)] assms(1) tasks_qI [of Q k k' "[]"] by simp

text \<open>The same for an operation on the current task.\<close>

lemma current_inv:
  assumes "tasks_q Q k" "and_then (unwrap (current_task k)) (\<lambda>t. with_inner t (f t) k) = Ok (r, k')" "\<And>t. keeps (f t)"
  shows "tasks_q Q k' \<and> current k' = current k"
proof -
  from assms(2) obtain t where "with_inner t (f t) k = Ok (r, k')" by (auto simp: and_then_eq_Ok_conv)
  from with_inner_inv [OF assms(1) this assms(3)] show ?thesis .
qed

lemma keeps_user_handler: "call_user_signal_handler sig flag (t, m) = Ok (t', m') \<Longrightarrow> task_status t' = task_status t \<and> children t' = children t"
  by (auto simp: call_user_signal_handler_def and_then_eq_Ok_conv Let_def split: if_splits)

lemma keeps_kernel_handler: "task_status (call_kernel_signal_handler flag t) = task_status t \<and> children (call_kernel_signal_handler flag t) = children t"
  by (simp add: call_kernel_signal_handler_def)

lemma keeps_pending: "check_pending_loop n sig (t, m) = Ok (t', m') \<Longrightarrow> task_status t' = task_status t \<and> children t' = children t"
proof (induction n arbitrary: sig t)
  case (Suc n)
  from Suc.prems consider "check_pending_loop n (Suc sig) (t, m) = Ok (t', m')"
    | flag where "check_pending_loop n (Suc sig) (call_kernel_signal_handler flag t, m) = Ok (t', m')"
    | flag where "call_user_signal_handler sig flag (t, m) = Ok (t', m')"
    by (auto simp: and_then_eq_Ok_conv split: if_splits)
  then show ?case using Suc.IH keeps_kernel_handler keeps_user_handler by cases metis+
qed simp

lemma keeps_check_pending: "keeps (\<lambda>i k. and_then (check_pending_signals (i, mem (k_mm k))) (\<lambda>(i, m). Ok ((), i, set_mem m k)))"
  by (auto simp: keeps_def check_pending_signals_def and_then_eq_Ok_conv simp del: check_pending_loop.simps dest: keeps_pending)

lemma check_pending_current_inv:
  assumes inv: "tasks_q Q k" and run: "check_pending_current k = Ok k'"
  shows "tasks_q Q k' \<and> current k' = current k"
proof -
  from run obtain t r where
    "with_inner t (\<lambda>i k. and_then (check_pending_signals (i, mem (k_mm k))) (\<lambda>(i, m). Ok ((), i, set_mem m k))) k = Ok (r, k')"
    by (auto simp: check_pending_current_def and_then_eq_Ok_conv)
  from with_inner_inv [OF inv this keeps_check_pending] show ?thesis .
qed

lemma current_add_signal_inv:
  assumes inv: "tasks_q Q k" and run: "current_add_signal flag k = Ok k'"
  shows "tasks_q Q k' \<and> current k' = current k"
proof -
  from run obtain t r where "with_inner t (\<lambda>i k. Ok ((), i\<lparr>signals := signals i OR flag\<rparr>, k)) k = Ok (r, k')"
    by (auto simp: current_add_signal_def and_then_eq_Ok_conv)
  from with_inner_inv [OF inv this] show ?thesis by (simp add: keeps_def)
qed

lemma sys_kill_inv:
  assumes inv: "tasks_q Q k" and run: "sys_kill p signum k = Ok (r, k')"
  shows "tasks_q Q k'"
proof (cases "get_task_by_pid p k")
  case None
  with inv run show ?thesis by (simp add: sys_kill_def)
next
  case (Some t)
  with run have w: "with_inner t (\<lambda>i k. case kill_inner signum i of (r, i) \<Rightarrow> Ok (r, i, k)) k = Ok (r, k')" by (simp add: sys_kill_def)
  have "keeps (\<lambda>i k. case kill_inner signum i of (r, i) \<Rightarrow> Ok (r, i, k))" by (auto simp: keeps_def kill_inner_def split: option.splits if_splits)
  from with_inner_inv [OF inv w this] show ?thesis by blast
qed

lemma sys_procmask_inv:
  assumes inv: "tasks_q Q k" and run: "sys_procmask m k = Ok (r, k')"
  shows "tasks_q Q k'"
proof (cases "current_task k")
  case None
  with inv run show ?thesis by (simp add: sys_procmask_def)
next
  case (Some t)
  with run have w: "with_inner t (\<lambda>i k. case procmask_inner m i of (r, i) \<Rightarrow> Ok (r, i, k)) k = Ok (r, k')" by (simp add: sys_procmask_def)
  have "keeps (\<lambda>i k. case procmask_inner m i of (r, i) \<Rightarrow> Ok (r, i, k))" by (auto simp: keeps_def procmask_inner_def Let_def split: option.splits)
  from with_inner_inv [OF inv w this] show ?thesis by blast
qed

lemma sys_sigreturn_inv:
  assumes inv: "tasks_q Q k" and run: "sys_sigreturn k = Ok (r, k')"
  shows "tasks_q Q k'"
proof (cases "current_task k")
  case None
  with inv run show ?thesis by (simp add: sys_sigreturn_def)
next
  case (Some t)
  with run have w: "with_inner t (\<lambda>i k. and_then (sigreturn_inner (i, mem (k_mm k))) (\<lambda>(i, m). Ok (0 :: isize, i, set_mem m k))) k = Ok (r, k')" by (simp add: sys_sigreturn_def)
  have "keeps (\<lambda>i k. and_then (sigreturn_inner (i, mem (k_mm k))) (\<lambda>(i, m). Ok (0 :: isize, i, set_mem m k)))" by (auto simp: keeps_def sigreturn_inner_def Let_def and_then_eq_Ok_conv)
  from with_inner_inv [OF inv w this] show ?thesis by blast
qed

lemma keeps_sigaction: "keeps (sigaction_inner token signum action old)"
  by (auto simp: keeps_def sigaction_inner_def and_then_eq_Ok_conv Let_def same_tasks_def split: option.splits if_splits)

lemma sys_sigaction_inv:
  assumes inv: "tasks_q Q k" and run: "sys_sigaction signum action old k = Ok (r, k')"
  shows "tasks_q Q k'"
proof (cases "current_task k")
  case None
  with inv run show ?thesis by (auto simp: sys_sigaction_def and_then_eq_Ok_conv)
next
  case (Some t)
  with run obtain token where "with_inner t (sigaction_inner token signum action old) k = Ok (r, k')"
    by (auto simp: sys_sigaction_def and_then_eq_Ok_conv)
  from with_inner_inv [OF inv this keeps_sigaction] show ?thesis by blast
qed

lemma sys_close_inv:
  assumes inv: "tasks_q Q k" and run: "sys_close fd k = Ok (r, k')"
  shows "tasks_q Q k'"
  using current_inv [OF inv run [unfolded sys_close_def]] by (auto simp: keeps_def split: if_splits)

lemma sys_dup_inv:
  assumes inv: "tasks_q Q k" and run: "sys_dup fd k = Ok (r, k')"
  shows "tasks_q Q k'"
  using current_inv [OF inv run [unfolded sys_dup_def]]
  by (auto simp: keeps_def alloc_fd_def split: if_splits prod.splits option.splits)

lemma keeps_install: "keeps (\<lambda>i k. case install_fd file i of (fd, i) \<Rightarrow> Ok (of_nat fd, i, k))"
  by (auto simp: keeps_def install_fd_def alloc_fd_def split: prod.splits option.splits)

lemma with_trap_cx_inv: "tasks_q Q k \<Longrightarrow> with_trap_cx f k = Ok k' \<Longrightarrow> tasks_q Q k' \<and> current k' = current k"
  by (auto simp: with_trap_cx_def and_then_eq_Ok_conv tasks_q_mem)

lemma keeps_exec: "keeps (exec_inner env t ms ppn pc sp argc argv)"
  by (auto simp: keeps_def exec_inner_def and_then_eq_Ok_conv same_tasks_def Let_def)

lemma exec_inv:
  assumes inv: "tasks_q Q k" and run: "exec env t elf args k = Ok k'"
  shows "tasks_q Q k'"
proof -
  from run [unfolded exec_def Let_def case_prod_beta] obtain s ms ppn pc sp argv x
    where x: "with_inner t (exec_inner env t ms ppn pc sp (length args) argv) (k\<lparr>k_mm := s\<rparr>) = Ok x" "Ok (snd x) = Ok k'"
    by (elim and_then_OkE) (erule that, assumption)
  then have w: "with_inner t (exec_inner env t ms ppn pc sp (length args) argv) (k\<lparr>k_mm := s\<rparr>) = Ok (fst x, k')" by (cases x) simp
  have "tasks_q Q (k\<lparr>k_mm := s\<rparr>)" using inv same_tasks_q [of k "k\<lparr>k_mm := s\<rparr>" Q] by simp
  from with_inner_inv [OF this w keeps_exec] show ?thesis by blast
qed

section \<open>Turns of the system\<close>

text \<open>A call keeps the invariant when pids are left (\<open>2^64 - 1\<close> of them can be in use at a time).\<close>

definition sys_q :: "nat list \<Rightarrow> 'd system \<Rightarrow> bool" where
  "sys_q Q s \<longleftrightarrow> tasks_q Q (kern s)"

lemma sys_q_kern [simp]: "sys_q Q (s\<lparr>kern := k\<rparr>) = tasks_q Q k" "sys_q Q (s\<lparr>frames := f\<rparr>) = sys_q Q s" "sys_q Q (put_mem m s) = sys_q Q s"
  by (simp_all add: sys_q_def put_mem_def tasks_q_mem)

lemma suspend_inv:
  assumes "tasks_q Q k" "current k = Some t" "suspend_current_and_run_next cx k = Ok k'"
  shows "tasks_q Q k'"
proof -
  obtain k2 where "suspend_current_and_run_next cx k = Ok k2" "tasks_inv k2" "ready_queue k2 = ready_queue k @ [t]"
    by (rule suspend_steps [OF tasks_qD [OF assms(1)] assms(2), of cx])
  with assms tasks_qI [of Q k k' "[t]"] show ?thesis by simp
qed

lemma exit_q:
  assumes "tasks_q Q k" "exit_current_and_run_next c k = Ok k'"
  shows "tasks_q Q k'"
proof -
  from assms(2) obtain t where "current k = Some t" by (auto simp: exit_current_and_run_next_def take_current_task_def and_then_eq_Ok_conv)
  from exit_inv [OF tasks_qD [OF assms(1)] this assms(2)] assms(1) tasks_qI [of Q k k' "[]"] show ?thesis by simp
qed

lemma fork_q:
  assumes "tasks_q Q k" "pid_room (PID_ALLOCATOR k)" "sys_fork env k = Ok (v, k')"
  shows "tasks_q Q k'"
proof -
  from assms(3) obtain t where "current k = Some t" by (auto simp: sys_fork_def current_task_def and_then_eq_Ok_conv)
  from sys_fork_inv [OF tasks_qD [OF assms(1)] this assms(2,3)] assms(1) tasks_qI [of Q k k'] show ?thesis by blast
qed

lemma waitpid_q:
  assumes "tasks_q Q k" "sys_waitpid p a k = Ok (v, k')"
  shows "tasks_q Q k'"
proof -
  from assms(2) obtain t where "current k = Some t" by (auto simp: sys_waitpid_def current_task_def and_then_eq_Ok_conv)
  from sys_waitpid_inv [OF tasks_qD [OF assms(1)] this assms(2)] assms(1) tasks_qI [of Q k k' "[]"] show ?thesis by simp
qed

lemma sleep_inv: "sys_q Q s \<Longrightarrow> sleep cx b s = Ok (r, s') \<Longrightarrow> sys_q Q s'"
proof -
  assume inv: "sys_q Q s" and run: "sleep cx b s = Ok (r, s')"
  then obtain t k where cur: "current (kern s) = Some t" and k: "suspend_current_and_run_next cx (kern s) = Ok k"
    and s': "s' = s\<lparr>kern := k, frames := (frames s)(t \<mapsto> b)\<rparr>"
    by (auto simp: sleep_def and_then_eq_Ok_conv current_task_def)
  have "tasks_q Q k" using suspend_inv [OF inv [unfolded sys_q_def] cur k] .
  with s' show ?thesis by (simp add: sys_q_def)
qed

lemma kcall_inv:
  assumes "sys_q Q s" "kcall f s = Some (Ok (r, s'))" "\<And>r k. f (kern s) = Ok (r, k) \<Longrightarrow> tasks_q Q k"
  shows "sys_q Q s'"
  using assms by (auto simp: kcall_def and_then_eq_Ok_conv sys_q_def)

lemma Stdin_inv:
  assumes "sys_q Q s" "Stdin_read_round cx buf s = Ok (r, s')"
  shows "sys_q Q s'"
proof -
  obtain c s1 where g: "console_getchar s = (c, s1)" by (cases "console_getchar s")
  have "sys_q Q s1" using g assms(1) by (auto simp: console_getchar_def sys_q_def split: list.splits)
  with assms(2) g show ?thesis by (auto simp: Stdin_read_round_def and_then_eq_Ok_conv split: if_splits intro: sleep_inv)
qed

lemma after_round_inv: "sys_q Q s \<Longrightarrow> after_round cx p again (w, c) s = Ok (r, s') \<Longrightarrow> sys_q Q s'"
proof -
  assume inv: "sys_q Q s" and run: "after_round cx p again (w, c) s = Ok (r, s')"
  have "sys_q Q (put_ring p c s)" using inv by (simp add: put_ring_def) (simp add: sys_q_def)
  with run show ?thesis by (auto simp: after_round_def Let_def split: round.splits intro: sleep_inv)
qed

lemma resume_inv: "sys_q Q s \<Longrightarrow> resume cx b s = Ok (r, s') \<Longrightarrow> sys_q Q s'"
  by (cases b) (auto simp: and_then_eq_Ok_conv intro: Stdin_inv after_round_inv)

lemma File_read_inv: "sys_q Q s \<Longrightarrow> File_read P f buf s = Ok (r, s') \<Longrightarrow> sys_q Q s'"
  by (cases f) (auto simp: and_then_eq_Ok_conv sys_q_def put_mem_def tasks_q_mem)

lemma File_write_inv: "sys_q Q s \<Longrightarrow> File_write P f buf s = Ok (r, s') \<Longrightarrow> sys_q Q s'"
  by (cases f) (auto simp: and_then_eq_Ok_conv sys_q_def Stdout_write_def)

lemma bindo_Some_Ok: "bindo r f = Some (Ok y) \<longleftrightarrow> (\<exists>x. r = Some (Ok x) \<and> f x = Some (Ok y))"
  by (auto simp: bindo_def split: option.splits outcome.splits)

lemma sys_write_inv: "sys_q Q s \<Longrightarrow> sys_write P fd buf len s = Some (Ok (r, s')) \<Longrightarrow> sys_q Q s'"
  by (auto simp: sys_write_def bindo_Some_Ok split: option.splits if_splits intro: File_write_inv)

lemma sys_read_inv: "sys_q Q s \<Longrightarrow> sys_read P fd buf len s = Some (Ok (r, s')) \<Longrightarrow> sys_q Q s'"
  by (auto simp: sys_read_def bindo_Some_Ok split: option.splits if_splits intro: File_read_inv)

lemma sys_exec_inv:
  assumes "sys_q Q s" "sys_exec P path args s = Some (Ok (r, s'))"
  shows "sys_q Q s'"
proof -
  from assms(2) consider d where "s' = s\<lparr>fs := d\<rparr>"
    | t elf av k d where "exec (kenv P) t elf av (kern s) = Ok k" "s' = s\<lparr>kern := k, fs := d\<rparr>"
    by (auto simp: sys_exec_def bindo_Some_Ok and_then_eq_Ok_conv split: option.splits)
  then show ?thesis using assms(1) exec_inv [of Q "kern s"] by cases (auto simp: sys_q_def)
qed

lemma sys_open_inv:
  assumes "sys_q Q s" "sys_open P path flags s = Some (Ok (r, s'))"
  shows "sys_q Q s'"
proof -
  from assms(2) consider d where "s' = s\<lparr>fs := d\<rparr>"
    | t n v k d os where "with_inner t (\<lambda>i k. case install_fd (InodeFile n) i of (fd, i) \<Rightarrow> Ok (of_nat fd :: isize, i, k)) (kern s) = Ok (v, k)"
        "s' = s\<lparr>fs := d, os_files := os, kern := k\<rparr>"
    by (auto simp: sys_open_def bindo_Some_Ok Let_def kcall_def and_then_eq_Ok_conv split: option.splits)
  then show ?thesis
  proof cases
    case 2
    from with_inner_inv [OF assms(1) [unfolded sys_q_def] 2(1) keeps_install] 2(2) show ?thesis by (simp add: sys_q_def)
  qed (use assms(1) in \<open>simp add: sys_q_def\<close>)
qed

lemma if_eq_elim:
  assumes "(if b then x else y) = z"
  obtains "b" "x = z" | "\<not> b" "y = z"
  using assms by (cases b) simp_all

lemma sys_pipe_panics: "tasks_inv (kern s) \<Longrightarrow> current (kern s) = Some t \<Longrightarrow> sys_pipe p s = Some (Panic AlreadyBorrowed)"
proof -
  assume inv: "tasks_inv (kern s)" and cur: "current (kern s) = Some t"
  from inv have q: "queue_ok (kern s)" "borrowed (kern s) = {}" by (simp_all add: tasks_inv_def)
  then obtain tcb where "tcbs (kern s) t = Some tcb" using cur unfolding queue_ok_def st_Some by blast
  then show ?thesis using cur q(2) by (simp add: sys_pipe_def current_task_def inner_exclusive_access_def current_user_token_def)
qed

lemma syscall_inv:
  assumes inv: "sys_q Q s" and room: "pid_room (PID_ALLOCATOR (kern s))" and run: "syscall P cx n a0 a1 a2 s = Some (Ok (r, s'))"
  shows "sys_q Q s'"
proof -
  note k = inv [unfolded sys_q_def]
  have pipe: "sys_pipe a0 s \<noteq> Some (Ok (v, s'))" for v
    using sys_pipe_panics [OF tasks_qD [OF k]] by (cases "current (kern s)") (auto simp: sys_pipe_def current_task_def)
  have kc: "sys_q Q s'" if "kcall f s = Some (Ok (r, s'))" "\<And>v k'. f (kern s) = Ok (v, k') \<Longrightarrow> tasks_q Q k'" for f
    using kcall_inv [OF inv that] .
  have pid: "tasks_q Q k'" if "and_then (sys_getpid (kern s)) (\<lambda>r. Ok (r, kern s)) = Ok (v, k')" for v k'
    using that k by (auto simp: and_then_eq_Ok_conv)
  show ?thesis
    by (insert run [unfolded syscall_def], (elim if_eq_elim; (erule sys_write_inv [OF inv] | erule sys_read_inv [OF inv] | erule sys_exec_inv [OF inv] | erule sys_open_inv [OF inv]
        | erule notE [OF pipe] | (erule kc, erule fork_q [OF k room] waitpid_q [OF k] sys_close_inv [OF k] sys_dup_inv [OF k] sys_kill_inv [OF k] sys_sigaction_inv [OF k]
          sys_sigreturn_inv [OF k] sys_procmask_inv [OF k] pid) | (use inv in \<open>auto simp: sys_exit_def and_then_eq_Ok_conv intro: sleep_inv exit_q [OF k]\<close>))))
qed

lemma trap_enter_inv:
  assumes inv: "sys_q Q s" and room: "pid_room (PID_ALLOCATOR (kern s))" and run: "trap_enter P cx cause s = Some (Ok (r, s'))"
  shows "sys_q Q s'"
proof (cases "cause = UserEnvCall")
  case True
  with run obtain k n a0 a1 a2 where k: "with_trap_cx (\<lambda>c. c\<lparr>sepc := sepc c + 4\<rparr>) (kern s) = Ok k"
    and c: "syscall P cx n a0 a1 a2 (s\<lparr>kern := k\<rparr>) = Some (Ok (r, s'))"
    by (auto simp: trap_enter_def bindo_Some_Ok Let_def)
  have "tasks_q Q k" using with_trap_cx_inv [OF inv [unfolded sys_q_def] k] by blast
  moreover have "PID_ALLOCATOR k = PID_ALLOCATOR (kern s)" using k by (auto simp: with_trap_cx_def and_then_eq_Ok_conv)
  ultimately show ?thesis using room by (intro syscall_inv [OF _ _ c]) simp_all
next
  case False
  have sig: "sys_q Q s'" if "add_signal flag s = Some (Ok (r, s'))" for flag
    using that inv current_add_signal_inv [of Q "kern s" flag] by (auto simp: add_signal_def and_then_eq_Ok_conv sys_q_def)
  have "sys_q Q (set_next_trigger s)" using inv by (simp add: set_next_trigger_def sys_q_def)
  with False run show ?thesis by (cases cause) (auto simp: trap_enter_def intro: sig sleep_inv)
qed

lemma enter_signals_inv: "sys_q Q s \<Longrightarrow> enter_signals t s = Ok s' \<Longrightarrow> sys_q Q s'"
  using check_pending_current_inv [of Q "kern s"] by (auto simp: enter_signals_def and_then_eq_Ok_conv sys_q_def)

lemma after_call_inv:
  assumes "sys_q Q s" "after_call t (r, s) = Ok s'"
  shows "sys_q Q s'"
proof (cases r)
  case (Ret v)
  with assms(2) obtain k where k: "with_trap_cx (\<lambda>c. c\<lparr>regs := (regs c)[10 := v]\<rparr>) (kern s) = Ok k" "enter_signals t (s\<lparr>kern := k\<rparr>) = Ok s'"
    by (auto simp: after_call_def trap_result_def and_then_eq_Ok_conv)
  have "sys_q Q (s\<lparr>kern := k\<rparr>)" using with_trap_cx_inv [OF assms(1) [unfolded sys_q_def] k(1)] by simp
  from enter_signals_inv [OF this k(2)] show ?thesis .
qed (use assms in \<open>auto simp: after_call_def intro: enter_signals_inv\<close>)

lemma trap_leave_inv:
  assumes inv: "tasks_q Q k" and run: "trap_leave k = Ok (r, k')"
  shows "tasks_q Q k'"
proof -
  from run consider "k' = k" | e where "exit_current_and_run_next e k = Ok k'"
    by (auto simp: trap_leave_def and_then_eq_Ok_conv split: option.splits)
  then show ?thesis
  proof cases
    case 2
    from exit_q [OF inv 2] show ?thesis .
  qed (use inv in simp)
qed

lemma handle_signals_current_inv:
  assumes inv: "tasks_q Q k" and run: "handle_signals_current cx k = Ok (w, k')"
  shows "tasks_q Q k'"
proof -
  from run consider "k' = k" | k1 where "check_pending_current k = Ok k1" "suspend_current_and_run_next cx k1 = Ok k'"
    by (auto simp: handle_signals_current_def and_then_eq_Ok_conv split: if_splits)
  then show ?thesis
  proof cases
    case 2
    have k1: "tasks_q Q k1" using check_pending_current_inv [OF inv 2(1)] by blast
    from 2(2) obtain t where cur: "current k1 = Some t" by (auto simp: suspend_current_and_run_next_def take_current_task_def and_then_eq_Ok_conv)
    from suspend_inv [OF k1 cur 2(2)] show ?thesis .
  qed (use inv in simp)
qed

lemma signal_turn_inv:
  assumes inv: "sys_q Q s" and run: "signal_turn t cx s = Ok s'"
  shows "sys_q Q s'"
proof -
  from run obtain w k where w: "handle_signals_current cx (kern s) = Ok (w, k)" by (auto simp: signal_turn_def and_then_eq_Ok_conv)
  have k: "tasks_q Q k" using handle_signals_current_inv [OF inv [unfolded sys_q_def] w] .
  with run w trap_leave_inv [OF k] show ?thesis by (cases w) (auto simp: signal_turn_def and_then_eq_Ok_conv)
qed

lemma task_turn_inv:
  assumes inv: "sys_q Q s" and room: "pid_room (PID_ALLOCATOR (kern s))" and run: "task_turn P cx cause t s = Some (Ok s')"
  shows "sys_q Q s'"
proof (cases "frames s t")
  case None
  with run obtain r s1 where "trap_enter P cx cause s = Some (Ok (r, s1))" "after_call t (r, s1) = Ok s'"
    by (auto simp: task_turn_def bindo_Some_Ok)
  then show ?thesis using after_call_inv trap_enter_inv [OF inv room] by blast
next
  case (Some b)
  with run consider "signal_turn t cx s = Ok s'" | r s1 where "resume cx b s = Ok (r, s1)" "after_call t (r, s1) = Ok s'"
    by (auto simp: task_turn_def and_then_eq_Ok_conv split: blocked.splits)
  then show ?thesis using inv signal_turn_inv after_call_inv resume_inv by cases blast+
qed

section \<open>The transition system\<close>

text \<open>
  A step of the machine: a turn of the idle loop; the user code of the current task, which may write
  any memory; the kernel code of the current task, up to the next point where it may wait; the
  clock and the console.
\<close>

inductive sys_step :: "'d platform \<Rightarrow> 'd system \<Rightarrow> 'd system \<Rightarrow> bool" for P where
  idle: "current (kern s) = None \<Longrightarrow> run_tasks_turn (kern s) = Ok (cx, k) \<Longrightarrow> sys_step P s (s\<lparr>kern := k\<rparr>)"
| user: "current (kern s) = Some t \<Longrightarrow> frames s t = None \<Longrightarrow> sys_step P s (put_mem m s)"
| kernel: "current (kern s) = Some t \<Longrightarrow> pid_room (PID_ALLOCATOR (kern s)) \<Longrightarrow> task_turn P cx cause t s = Some (Ok s') \<Longrightarrow> sys_step P s s'"
| tick: "sys_step P s (s\<lparr>clock := c\<rparr>)"
| input: "sys_step P s (s\<lparr>console_in := console_in s @ cs\<rparr>)"

inductive_cases sys_stepE: "sys_step P s s'"

lemma idle_step:
  assumes inv: "tasks_inv k" and idle: "current k = None" and run: "run_tasks_turn k = Ok (cx, k')"
  shows "tasks_inv k' \<and> (case ready_queue k of [] \<Rightarrow> k' = k | t # q \<Rightarrow> current k' = Some t \<and> ready_queue k' = q)"
  using run_tasks_turn_inv [OF inv idle] run inv by (auto split: list.splits)

text \<open>A step that is no turn of the idle loop keeps the waiting tasks where they are.\<close>

lemma busy_step:
  assumes "sys_step P s s'" "tasks_inv (kern s)" "current (kern s) \<noteq> None \<or> kern s' = kern s"
  shows "tasks_q (ready_queue (kern s)) (kern s')"
proof -
  have q: "tasks_q (ready_queue (kern s)) (kern s)" using assms(2) by (simp add: tasks_q_def)
  from assms(1) show ?thesis
  proof (cases rule: sys_step.cases)
    case (kernel t cx cause)
    from task_turn_inv [OF q [folded sys_q_def] kernel(2,3)] show ?thesis by (simp add: sys_q_def)
  qed (use q assms(3) in \<open>auto simp: put_mem_def tasks_q_mem\<close>)
qed

lemma sys_step_inv: "sys_step P s s' \<Longrightarrow> tasks_inv (kern s) \<Longrightarrow> tasks_inv (kern s')"
proof -
  assume step: "sys_step P s s'" and inv: "tasks_inv (kern s)"
  show ?thesis
  proof (cases "current (kern s) \<noteq> None \<or> kern s' = kern s")
    case True
    from busy_step [OF step inv this] show ?thesis by (rule tasks_qD)
  next
    case False
    with step show ?thesis using idle_step [OF inv] by (auto elim!: sys_stepE)
  qed
qed

section \<open>Booting\<close>

text \<open>The initial values of the kernel's statics.\<close>

definition no_tasks :: "kernel \<Rightarrow> bool" where
  "no_tasks k \<longleftrightarrow> tcbs k = (\<lambda>_. None) \<and> next_tcb k = 0 \<and> borrowed k = {} \<and> ready_queue k = [] \<and> PID_TO_TASK k = []
     \<and> current k = None \<and> PID_ALLOCATOR k = PidAllocator_new"

lemma TaskControlBlock_new_first:
  assumes "no_tasks k" "TaskControlBlock_new env elf k = Ok (t, k')"
  shows "t = 0" "\<exists>tcb. tcbs k' = [0 \<mapsto> tcb] \<and> getpid tcb = 0 \<and> task_status (inner tcb) = Ready \<and> children (inner tcb) = []"
    "next_tcb k' = 1" "borrowed k' = {}" "ready_queue k' = []" "PID_TO_TASK k' = []" "current k' = None"
    "PID_ALLOCATOR k' = \<lparr>pa_current = 1, pa_recycled = []\<rparr>"
  using assms
  by (auto simp: no_tasks_def TaskControlBlock_new_def and_then_eq_Ok_conv pid_alloc_def PidAllocator_alloc_def PidAllocator_new_def
      new_kernel_stack_def Let_def new_tcb_def getpid_def)

text \<open>The system starts with a well-formed process table.\<close>

lemma add_initproc_inv:
  assumes "no_tasks (kern s)" "add_initproc P s = Some (Ok s')"
  shows "tasks_inv (kern s')"
proof -
  from assms(2) obtain elf t k where n: "TaskControlBlock_new (kenv P) elf (kern s) = Ok (t, k)"
    and a: "add_task t (k\<lparr>INITPROC := t\<rparr>) = Ok (kern s')"
    by (auto simp: add_initproc_def bindo_Some_Ok and_then_eq_Ok_conv)
  note f = TaskControlBlock_new_first [OF assms(1) n]
  from f(2) obtain tcb where tcb: "tcbs k = [0 \<mapsto> tcb]" "getpid tcb = 0" "task_status (inner tcb) = Ready" "children (inner tcb) = []" by blast
  have k': "kern s' = k\<lparr>INITPROC := 0, PID_TO_TASK := [(0, 0)], ready_queue := [0]\<rparr>"
    using a f tcb by (simp add: add_task_def)
  have v: "st (kern s') = [0 \<mapsto> Ready]" "pd (kern s') = [0 \<mapsto> 0]" "ch (kern s') = (\<lambda>_. [])"
    using tcb by (auto simp: k' st_def pd_def ch_def fun_eq_iff)
  have "queue_ok (kern s')" unfolding queue_ok_def v by (auto simp: k' f split: if_splits)
  moreover have "pids_ok (kern s')" unfolding pids_ok_def v by (auto simp: k' f pid_inv_def pid_live_def split: if_splits)
  moreover have "family_ok (kern s')" unfolding family_ok_def v by (auto simp: k' f split: if_splits)
  ultimately show ?thesis by (simp add: tasks_inv_def k' f)
qed

section \<open>Properties\<close>

text \<open>
  C3. In every state that the machine reaches from one with a well-formed process table, the table is
  well formed, whatever system calls, faults and interrupts happen and whatever the user programs
  write: no task is borrowed between two steps, the ready queue holds exactly the ready tasks and the
  processor exactly the running one, the pid map holds exactly the tasks that have not exited and the
  pids in use are those of the existing tasks, and the children form a tree below \<^verbatim>\<open>INITPROC\<close>, which
  never becomes a zombie, in which zombies have no children.
\<close>

theorem kernel_invariant:
  assumes "tasks_inv (kern s)" "(sys_step P)\<^sup>*\<^sup>* s s'"
  shows "tasks_inv (kern s')"
  using assms(2,1) by (induction rule: rtranclp_induct) (auto intro: sys_step_inv)

text \<open>How the queue changes in a step, seen from a waiting task.\<close>

lemma queue_step:
  assumes step: "sys_step P s s'" and inv: "tasks_inv (kern s)" and q: "ready_queue (kern s) = pre @ t # post"
  shows "if current (kern s) = None \<and> current (kern s') \<noteq> None
    then (case pre of [] \<Rightarrow> current (kern s') = Some t | x # pre' \<Rightarrow> \<exists>post'. ready_queue (kern s') = pre' @ t # post')
    else \<exists>post'. ready_queue (kern s') = pre @ t # post'"
proof (cases "current (kern s) \<noteq> None \<or> kern s' = kern s")
  case True
  from busy_step [OF step inv this] q True show ?thesis by (auto simp: tasks_q_def)
next
  case False
  with step obtain cx k where k: "current (kern s) = None" "run_tasks_turn (kern s) = Ok (cx, k)" "kern s' = k"
    by (auto elim!: sys_stepE)
  from idle_step [OF inv k(1,2)] q k show ?thesis by (cases pre) auto
qed

text \<open>
  C8. The scheduler is fair: a task with \<open>n\<close> tasks before it in the ready queue gets the processor at
  the latest when the idle loop chooses a task for the \<open>n + 1\<close>st time, whatever the other processes do.
\<close>

theorem scheduler_fair:
  assumes "tasks_inv (kern (run 0))" "\<forall>i < m. sys_step P (run i) (run (Suc i))" "ready_queue (kern (run 0)) = pre @ t # post"
    and "length pre < card {i. i < m \<and> current (kern (run i)) = None \<and> current (kern (run (Suc i))) \<noteq> None}"
  shows "\<exists>i \<le> m. current (kern (run i)) = Some t"
proof -
  define D where "D j = {i. i < j \<and> current (kern (run i)) = None \<and> current (kern (run (Suc i))) \<noteq> None}" for j
  have fin: "finite (D j)" for j by (simp add: D_def)
  have "tasks_inv (kern (run j)) \<and> ((\<exists>i \<le> j. current (kern (run i)) = Some t)
      \<or> (\<exists>pre' post'. ready_queue (kern (run j)) = pre' @ t # post' \<and> length pre' + card (D j) = length pre))" if "j \<le> m" for j
    using that
  proof (induction j)
    case 0
    with assms(1,3) show ?case by (auto simp: D_def)
  next
    case (Suc j)
    then have inv: "tasks_inv (kern (run j))" and step: "sys_step P (run j) (run (Suc j))" using assms(2) by simp_all
    have inv': "tasks_inv (kern (run (Suc j)))" using sys_step_inv [OF step inv] .
    show ?case
    proof (cases "\<exists>i \<le> Suc j. current (kern (run i)) = Some t")
      case False
      then have "\<not> (\<exists>i \<le> j. current (kern (run i)) = Some t)" by auto
      with Suc obtain pre' post' where q: "ready_queue (kern (run j)) = pre' @ t # post'" "length pre' + card (D j) = length pre" by auto
      let ?d = "current (kern (run j)) = None \<and> current (kern (run (Suc j))) \<noteq> None"
      have D: "D (Suc j) = (if ?d then insert j (D j) else D j)" "j \<notin> D j" by (auto simp: D_def less_Suc_eq)
      have "\<exists>pre' post'. ready_queue (kern (run (Suc j))) = pre' @ t # post' \<and> length pre' + card (D (Suc j)) = length pre"
      proof (cases ?d)
        case True
        with queue_step [OF step inv q(1)] False q(2) D fin show ?thesis by (cases pre') auto
      next
        case F: False
        then have "D (Suc j) = D j" unfolding D(1) by (rule if_not_P)
        moreover from queue_step [OF step inv q(1)] F obtain post2 where "ready_queue (kern (run (Suc j))) = pre' @ t # post2" by auto
        ultimately show ?thesis using q(2) by auto
      qed
      with inv' show ?thesis by blast
    qed (use inv' in blast)
  qed
  from this [of m] assms(4) show ?thesis by (auto simp: D_def)
qed

text \<open>
  C31. \<^verbatim>\<open>sys_pipe\<close> never returns: it asks for the token of the current task while it holds the task's
  inner part, so the second borrow panics and no process can ever create a pipe.
\<close>

theorem sys_pipe_always_panics:
  assumes "tasks_inv (kern s)" "current (kern s) = Some t"
  shows "syscall P cx SYSCALL_PIPE a0 a1 a2 s = Some (Panic AlreadyBorrowed)"
  using sys_pipe_panics [OF assms] by (simp add: syscall_def syscall_ids)

text \<open>A change of the current task under a borrow that succeeds.\<close>

lemma current_tcb:
  assumes "tasks_inv k" "current k = Some t"
  obtains tcb where "tcbs k t = Some tcb" "borrowed k = {}" "task_status (inner tcb) = Running"
proof -
  have "queue_ok k" "borrowed k = {}" using assms(1) by (simp_all add: tasks_inv_def)
  moreover have "st k t = Some Running" using \<open>queue_ok k\<close> assms(2) unfolding queue_ok_def by blast
  ultimately show thesis using that by (auto simp: st_Some)
qed

definition fd_lookup :: "file_ref option list \<Rightarrow> nat \<Rightarrow> file_ref option" where
  "fd_lookup fds i = (if i < length fds then fds ! i else None)"

lemma borrowed_idem: "borrowed k = {} \<Longrightarrow> k\<lparr>borrowed := {}\<rparr> = k"
  by (cases k) simp

lemma set_mem_idem: "mem (k_mm k) = m \<Longrightarrow> set_mem m k = k"
  by (cases k) (auto simp: set_mem_def)

lemma put_inner_twice: "put_inner t j (put_inner t i k) = put_inner t j k"
  by (simp add: put_inner_def option.map_comp comp_def)

lemma sys_close_fds:
  assumes "borrowed k = {}" "current k = Some t" "tcbs k t = Some tcb"
  shows "sys_close fd k = (if fd_lookup (fd_table (inner tcb)) (unat fd) = None then Ok (- 1, k)
    else Ok (0, put_inner t ((inner tcb)\<lparr>fd_table := (fd_table (inner tcb))[unat fd := None]\<rparr>) k))"
proof -
  note r = release_same [OF assms(3,1)] borrowed_idem [OF assms(1)]
  show ?thesis using assms r(1)
    by (auto simp: sys_close_def current_task_def with_inner_def inner_exclusive_access_def fd_lookup_def) (simp_all add: release_def r(2))
qed

lemma sys_dup_fds:
  assumes "borrowed k = {}" "current k = Some t" "tcbs k t = Some tcb" "alloc_fd (inner tcb) = (new, j)"
  shows "sys_dup fd k = (case fd_lookup (fd_table (inner tcb)) (unat fd) of None \<Rightarrow> Ok (- 1, k)
    | Some fl \<Rightarrow> Ok (of_nat new, put_inner t (j\<lparr>fd_table := (fd_table j)[new := Some fl]\<rparr>) k))"
proof -
  note r = release_same [OF assms(3,1)] borrowed_idem [OF assms(1)] and a = alloc_fd_spec(5) [OF assms(4)]
  show ?thesis using assms r(1) a
    by (auto simp: sys_dup_def current_task_def with_inner_def inner_exclusive_access_def fd_lookup_def split: option.split)
      (simp_all add: release_def r(2))
qed

text \<open>The new descriptor is the lowest free one, and the table otherwise stays the same.\<close>

lemma alloc_fd_lookup:
  assumes "alloc_fd i = (new, j)"
  shows "fd_lookup ((fd_table j)[new := x]) = (fd_lookup (fd_table i))(new := x)" "fd_lookup (fd_table i) new = None"
    "\<forall>d < new. fd_lookup (fd_table i) d \<noteq> None"
proof -
  note a = alloc_fd_spec [OF assms]
  have "fd_table j = fd_table i \<or> fd_table j = fd_table i @ [None]" using assms by (auto simp: alloc_fd_def split: option.splits)
  then have old: "fd_lookup (fd_table j) = fd_lookup (fd_table i)"
    by (elim disjE) (simp_all add: fd_lookup_def fun_eq_iff nth_append less_Suc_eq)
  show "fd_lookup ((fd_table j)[new := x]) = (fd_lookup (fd_table i))(new := x)"
    unfolding old [symmetric] using a(1) by (auto simp: fd_lookup_def fun_eq_iff)
  show "fd_lookup (fd_table i) new = None" unfolding old [symmetric] using a(1,2) by (simp add: fd_lookup_def)
  show "\<forall>d < new. fd_lookup (fd_table i) d \<noteq> None" using a(3,7) by (simp add: fd_lookup_def)
qed

text \<open>
  C20. Duplicating a descriptor: \<^verbatim>\<open>sys_dup\<close> returns the lowest free descriptor, which afterwards refers to
  the same open file, and changes no other descriptor; closing the duplicate gives back the
  table from before. A descriptor that is not open is refused with \<^verbatim>\<open>-1\<close>.
\<close>

theorem sys_dup_close:
  assumes "tasks_inv k" "current k = Some t" "tcbs k t = Some tcb" "length (fd_table (inner tcb)) < 2 ^ 64"
  shows "case fd_lookup (fd_table (inner tcb)) (unat fd) of
      None \<Rightarrow> (\<exists>k'. sys_dup fd k = Ok (- 1, k') \<and> tcbs k' = tcbs k)
    | Some file \<Rightarrow>
        (\<exists>new k1 tcb1 k2 tcb2. sys_dup fd k = Ok (of_nat new, k1) \<and> tcbs k1 t = Some tcb1
          \<and> fd_lookup (fd_table (inner tcb1)) = (fd_lookup (fd_table (inner tcb)))(new := Some file)
          \<and> fd_lookup (fd_table (inner tcb)) new = None \<and> (\<forall>i < new. fd_lookup (fd_table (inner tcb)) i \<noteq> None)
          \<and> sys_close (of_nat new) k1 = Ok (0, k2) \<and> tcbs k2 t = Some tcb2
          \<and> fd_lookup (fd_table (inner tcb2)) = fd_lookup (fd_table (inner tcb)))"
proof (cases "fd_lookup (fd_table (inner tcb)) (unat fd)")
  case None
  have "borrowed k = {}" using assms(1) by (simp add: tasks_inv_def)
  with None assms(2,3) show ?thesis by (cases "alloc_fd (inner tcb)") (auto simp: sys_dup_fds)
next
  case (Some fl)
  let ?i = "inner tcb"
  have b: "borrowed k = {}" using assms(1) by (simp add: tasks_inv_def)
  obtain new j where j: "alloc_fd ?i = (new, j)" by (cases "alloc_fd ?i")
  note a = alloc_fd_spec [OF j] and l = alloc_fd_lookup [OF j]
  let ?j1 = "j\<lparr>fd_table := (fd_table j)[new := Some fl]\<rparr>" and ?j2 = "j\<lparr>fd_table := (fd_table j)[new := None]\<rparr>"
  let ?k1 = "put_inner t ?j1 k" and ?k2 = "put_inner t ?j2 k"
  have d: "sys_dup fd k = Ok (of_nat new, ?k1)" using Some sys_dup_fds [OF b assms(2,3) j, of fd] by simp
  have new: "unat (of_nat new :: usize) = new" using a(7) assms(4) by (simp add: unat_of_nat)
  have t1: "tcbs ?k1 t = Some (tcb\<lparr>inner := ?j1\<rparr>)" "current ?k1 = Some t" "borrowed ?k1 = {}"
    using assms(2,3) b by (simp_all add: put_inner_def)
  have c: "sys_close (of_nat new) ?k1 = Ok (0, ?k2)"
    using sys_close_fds [OF t1(3,2,1), of "of_nat new"] new a(1) by (simp add: fd_lookup_def put_inner_twice)
  have t2: "tcbs ?k2 t = Some (tcb\<lparr>inner := ?j2\<rparr>)" using assms(3) by (simp add: put_inner_def)
  have "fd_lookup (fd_table ?j2) = fd_lookup (fd_table ?i)" using l(1) [of None] l(2) by (simp add: fun_upd_idem)
  with l(1) [of "Some fl"] have tabs: "fd_lookup (fd_table ?j1) = (fd_lookup (fd_table ?i))(new := Some fl)"
    "fd_lookup (fd_table ?j2) = fd_lookup (fd_table ?i)" by simp_all
  have "\<exists>new k1 tcb1 k2 tcb2. sys_dup fd k = Ok (of_nat new, k1) \<and> tcbs k1 t = Some tcb1
          \<and> fd_lookup (fd_table (inner tcb1)) = (fd_lookup (fd_table ?i))(new := Some fl)
          \<and> fd_lookup (fd_table ?i) new = None \<and> (\<forall>i < new. fd_lookup (fd_table ?i) i \<noteq> None)
          \<and> sys_close (of_nat new) k1 = Ok (0, k2) \<and> tcbs k2 t = Some tcb2
          \<and> fd_lookup (fd_table (inner tcb2)) = fd_lookup (fd_table ?i)"
    by (rule exI [of _ new], rule exI [of _ ?k1], rule exI [of _ "tcb\<lparr>inner := ?j1\<rparr>"], rule exI [of _ ?k2],
        rule exI [of _ "tcb\<lparr>inner := ?j2\<rparr>"]) (intro conjI; (rule d t1 l c t2 | (insert tabs, simp)))
  with Some show ?thesis by simp
qed

lemma SIGSEGV_flag: "SIGSEGV = signal_flag 11"
  by (simp add: signal_flags signal_flag_def)

lemma check_error_SIGSEGV: "check_error SIGSEGV = Some (- 11, ''Segmentation Fault, SIGSEGV=11'')"
  by (simp add: check_error_def has_signal_def signal_flags)

text \<open>A signal without a handler, or a masked one, stays pending.\<close>

lemma check_pending_unhandled:
  assumes "signals_ok i" "signals i = signal_flag sig" "sig < 32" "sig \<notin> kernel_sigs" "handler (table (signal_actions i) ! sig) = 0"
  shows "check_pending_signals (i, m) = Ok (i, m)"
proof -
  have d: "deliverable i x \<Longrightarrow> x = sig" for x using assms(2) by (simp add: deliverable_def bit_signal_flag)
  show ?thesis
  proof (cases "deliverable i sig")
    case True
    have "\<forall>x < sig. \<not> deliverable i x" using d by auto
    from check_pending_first [OF assms(1) this True] assms(1,3-5) show ?thesis
      by (simp add: call_user_signal_handler_def index_def signals_ok_def)
  next
    case False
    then have "\<forall>x < 32. \<not> deliverable i x" using d by auto
    then show ?thesis using check_pending_none [OF assms(1)] by blast
  qed
qed

definition memory_fault :: "trap_cause \<Rightarrow> bool" where
  "memory_fault c \<longleftrightarrow> c = StoreFault \<or> c = StorePageFault \<or> c = LoadFault \<or> c = LoadPageFault"

text \<open>
  C15. A memory fault ends the process: when a task other than \<^verbatim>\<open>INITPROC\<close> without a handler for
  \<^verbatim>\<open>SIGSEGV\<close> and without pending signals faults, the kernel adds the signal, and as the trap ends the
  task becomes a zombie with exit code -11; control never goes back to the user.
\<close>

theorem memory_fault_kills:
  assumes "tasks_inv (kern s)" "current (kern s) = Some t" "t \<noteq> INITPROC (kern s)" "frames s t = None" "memory_fault cause"
    and "tcbs (kern s) t = Some tcb" "signals_ok (inner tcb)" "signals (inner tcb) = 0" "\<not> frozen (inner tcb)"
    and "handler (table (signal_actions (inner tcb)) ! 11) = 0"
    and "release_areas (memory_set (inner tcb)) (k_mm (kern s)) = Ok (ms, mm)"
  shows "\<exists>s1 s2 tcb2. task_turn P cx cause t s = Some (Ok s1) \<and> current (kern s1) = Some t
    \<and> task_turn P cx2 cause2 t s1 = Some (Ok s2)
    \<and> current (kern s2) = None \<and> frames s2 t = None \<and> tcbs (kern s2) t = Some tcb2
    \<and> is_zombie (inner tcb2) \<and> exit_code (inner tcb2) = - 11 \<and> tasks_inv (kern s2)"
proof -
  let ?k = "kern s" and ?i = "(inner tcb)\<lparr>signals := SIGSEGV\<rparr>"
  have b: "borrowed ?k = {}" using assms(1) by (simp add: tasks_inv_def)
  let ?k1 = "put_inner t ?i ?k"
  have add: "current_add_signal SIGSEGV ?k = Ok ?k1"
    using with_inner_pure [OF assms(6), of "\<lambda>_. ()" "\<lambda>i. i\<lparr>signals := signals i OR SIGSEGV\<rparr>"] assms(2,8) b
    by (simp add: current_add_signal_def current_task_def)
  have inv1: "tasks_inv ?k1" using tasks_inv_inner [OF assms(1,6), of ?i] by simp
  have t1: "tcbs ?k1 t = Some (tcb\<lparr>inner := ?i\<rparr>)" "borrowed ?k1 = {}" "current ?k1 = Some t" "k_mm ?k1 = k_mm ?k" "INITPROC ?k1 = INITPROC ?k"
    using assms(2,6) b by (simp_all add: put_inner_def)
  have ok: "signals_ok ?i" using assms(7) by (simp add: signals_ok_def)
  have pend: "check_pending_signals (?i, m) = Ok (?i, m)" for m
    using check_pending_unhandled [OF ok, of 11] assms(10) SIGSEGV_flag by (simp add: kernel_sigs_def)
  have rel: "release t ?i (?k1\<lparr>borrowed := {t}\<rparr>) = ?k1" using release_same [OF t1(1,2)] by simp
  have sm: "set_mem (mem (k_mm ?k)) (?k1\<lparr>borrowed := {t}\<rparr>) = ?k1\<lparr>borrowed := {t}\<rparr>" by (rule set_mem_idem) simp
  have check: "check_pending_current ?k1 = Ok ?k1"
    using t1 pend by (simp add: check_pending_current_def current_task_def with_inner_def inner_exclusive_access_def) (simp only: sm rel)
  let ?s1 = "s\<lparr>kern := ?k1, frames := (frames s)(t \<mapsto> SignalLoop)\<rparr>"
  have turn1: "task_turn P cx cause t s = Some (Ok ?s1)"
    using assms(4,5) add check
    by (auto simp: task_turn_def trap_enter_def memory_fault_def add_signal_def after_call_def enter_signals_def)
  obtain k2 where k2: "exit_current_and_run_next (- 11) ?k1 = Ok k2"
    "tcbs k2 t = Some (tcb\<lparr>inner := ?i\<lparr>task_status := Zombie, exit_code := - 11, children := [], memory_set := ms\<rparr>\<rparr>)"
    by (rule exit_steps [OF inv1 t1(3) _ t1(1), of ms mm "- 11"]) (use assms(3,11) t1(4,5) in auto)
  have hs: "handle_signals_current cx2 ?k1 = Ok (LeaveLoop, ?k1)"
    using t1 assms(9) by (simp add: handle_signals_current_def current_task_def inner_exclusive_access_def)
  have leave: "trap_leave ?k1 = Ok (None, k2)"
    using t1 k2(1) by (simp add: trap_leave_def check_signals_error_of_current_def current_task_def inner_exclusive_access_def check_error_SIGSEGV)
  let ?s2 = "?s1\<lparr>kern := k2, frames := (frames ?s1)(t := None)\<rparr>"
  have turn2: "task_turn P cx2 cause2 t ?s1 = Some (Ok ?s2)"
    using hs leave by (simp add: task_turn_def signal_turn_def)
  have "tasks_inv k2" "current k2 = None" using exit_inv [OF inv1 t1(3) k2(1)] by simp_all
  then show ?thesis using turn1 turn2 k2(2) t1(3)
    by (intro exI [of _ ?s1] exI [of _ ?s2]) (simp add: is_zombie_def get_status_def)
qed

section \<open>Witnesses\<close>

definition platform_example :: "u8 list platform" where
  "platform_example =
     \<lparr>dev = BlockFile,
      efs = \<lparr>inode_bitmap = Bitmap_new 1 1, data_bitmap = Bitmap_new 1026 1, inode_area_start_block = 2, data_area_start_block = 1027\<rparr>,
      kenv = \<lparr>env_trap_return = 0, env_trap_handler = 0, env_trampoline = 0x80200000, env_status = 0, env_parse = \<lambda>_. None\<rparr>\<rparr>"

definition s_example :: "kernel \<Rightarrow> u8 list system" where
  "s_example k =
     \<lparr>kern = k, fs = \<lparr>queue = [], device = disk_example\<rparr>, os_files = [], pipes = [], rings = [], frames = (\<lambda>_. None),
      console_in = [], console_out = [], clock = 0, next_trigger = 0\<rparr>"

lemma s_example_simps [simp]: "kern (s_example k) = k" "frames (s_example k) = (\<lambda>_. None)"
  by (simp_all add: s_example_def)

text \<open>A timer interrupt: the running task goes to the end of the queue, and the first task of the queue runs.\<close>

lemma timer_example:
  obtains s1 s2 where "sys_step platform_example (s_example k_example) s1" "current (kern s1) = None" "ready_queue (kern s1) = [0, 1]"
    "sys_step platform_example s1 s2" "current (kern s2) = Some 0" "ready_queue (kern s2) = [1]"
proof -
  let ?s = "s_example k_example"
  have rq: "ready_queue k_example = [0]" "pid_room (PID_ALLOCATOR k_example)" by (simp_all add: k_example_def pid_room_def)
  obtain k1 where k1: "suspend_current_and_run_next zero_init k_example = Ok k1" "tasks_inv k1" "current k1 = None" "ready_queue k1 = [0, 1]"
    by (rule suspend_steps [OF tasks_inv_example current_example(1), of zero_init]) (simp add: rq)
  let ?s1 = "(set_next_trigger ?s)\<lparr>kern := k1, frames := (frames ?s)(1 \<mapsto> TimerReturn)\<rparr>"
  have kern: "kern (set_next_trigger ?s) = k_example" "frames (set_next_trigger ?s) = frames ?s" by (simp_all add: set_next_trigger_def)
  have "task_turn platform_example zero_init SupervisorTimer 1 ?s = Some (Ok ?s1)"
    using k1(1) current_example(1)
    by (simp add: task_turn_def trap_enter_def sleep_def kern current_task_def after_call_def)
  then have "sys_step platform_example ?s ?s1" using current_example(1) rq(2) by (intro sys_step.kernel) simp_all
  moreover obtain cx k2 where "run_tasks_turn k1 = Ok (cx, k2)" "current k2 = Some 0" "ready_queue k2 = [1]"
    using run_tasks_turn_inv [OF k1(2,3)] k1(4) by auto
  moreover from this have "sys_step platform_example ?s1 (?s1\<lparr>kern := k2\<rparr>)" using k1(3) by (intro sys_step.idle) simp_all
  ultimately show thesis using that [of ?s1 "?s1\<lparr>kern := k2\<rparr>"] k1 by simp
qed

theorem kernel_invariant_witness:
  "\<exists>s'. (sys_step platform_example)\<^sup>*\<^sup>* (s_example k_example) s' \<and> current (kern s') = Some 0 \<and> tasks_inv (kern s')"
proof -
  obtain s1 s2 where s: "sys_step platform_example (s_example k_example) s1" "sys_step platform_example s1 s2" "current (kern s2) = Some 0"
    by (rule timer_example)
  then have "(sys_step platform_example)\<^sup>*\<^sup>* (s_example k_example) s2" by simp
  with kernel_invariant [of "s_example k_example" platform_example s2] tasks_inv_example s(3) show ?thesis by auto
qed

theorem scheduler_fair_witness:
  "\<exists>run :: nat \<Rightarrow> u8 list system. run 0 = s_example k_example \<and> (\<exists>i \<le> 2. current (kern (run i)) = Some 0)"
proof -
  obtain s1 s2 where s: "sys_step platform_example (s_example k_example) s1" "current (kern s1) = None" "sys_step platform_example s1 s2"
    "current (kern s2) = Some 0" by (rule timer_example)
  define run where "run i = (if i = 0 then s_example k_example else if i = 1 then s1 else s2)" for i :: nat
  have steps: "\<forall>i < 2. sys_step platform_example (run i) (run (Suc i))" using s by (simp add: run_def less_2_cases_iff)
  have q: "ready_queue (kern (run 0)) = [] @ 0 # []" by (simp add: run_def k_example_def)
  have inv: "tasks_inv (kern (run 0))" by (simp add: run_def tasks_inv_example)
  have "{i. i < 2 \<and> current (kern (run i)) = None \<and> current (kern (run (Suc i))) \<noteq> None} = {1}"
    using s current_example(1) by (auto simp: run_def)
  then have "length ([] :: nat list) < card {i. i < 2 \<and> current (kern (run i)) = None \<and> current (kern (run (Suc i))) \<noteq> None}" by simp
  from scheduler_fair [OF inv steps q this] show ?thesis by (intro exI [of _ run]) (simp add: run_def)
qed

theorem sys_pipe_always_panics_witness:
  "syscall platform_example zero_init SYSCALL_PIPE 0 0 0 (s_example k_example) = Some (Panic AlreadyBorrowed)"
  using sys_pipe_always_panics [of "s_example k_example" 1] tasks_inv_example current_example(1) by simp

definition k_files :: kernel where
  "k_files = put_inner 1 ((inner (tcb_example 1 Running [2]))\<lparr>fd_table := [Some StdinFile, None, Some StdoutFile]\<rparr>) k_example"

lemma k_files_ok: "tasks_inv k_files" "current k_files = Some 1"
  "tcbs k_files 1 = Some ((tcb_example 1 Running [2])\<lparr>inner := (inner (tcb_example 1 Running [2]))\<lparr>fd_table := [Some StdinFile, None, Some StdoutFile]\<rparr>\<rparr>)"
  using tasks_inv_inner [OF tasks_inv_example current_example(2)] current_example by (simp_all add: k_files_def put_inner_def)

theorem sys_dup_close_witness:
  "\<exists>k1 k2. sys_dup 2 k_files = Ok (1, k1) \<and> sys_close 1 k1 = Ok (0, k2)"
proof -
  let ?fds = "[Some StdinFile, None, Some StdoutFile]"
  let ?t = "(tcb_example 1 Running [2])\<lparr>inner := (inner (tcb_example 1 Running [2]))\<lparr>fd_table := ?fds\<rparr>\<rparr>"
  have f: "fd_table (inner ?t) = ?fds" "length (fd_table (inner ?t)) < 2 ^ 64" by simp_all
  have l: "fd_lookup ?fds (unat (2 :: usize)) = Some StdoutFile" by (simp add: fd_lookup_def)
  from sys_dup_close [OF k_files_ok f(2), of 2, unfolded f(1) l option.case] obtain new k1 k2 where
    n: "sys_dup 2 k_files = Ok (of_nat new, k1)" "fd_lookup ?fds new = None" "\<forall>i < new. fd_lookup ?fds i \<noteq> None" "sys_close (of_nat new) k1 = Ok (0, k2)"
    by blast
  have "fd_lookup ?fds 1 = None" "fd_lookup ?fds 0 \<noteq> None" by (simp_all add: fd_lookup_def)
  with n(2,3) have "new = 1" by (metis less_one nat_neq_iff)
  with n(1,4) show ?thesis by auto
qed

theorem memory_fault_kills_witness:
  "\<exists>s1 s2 tcb2. task_turn platform_example zero_init LoadPageFault 1 (s_example k_example) = Some (Ok s1)
    \<and> task_turn platform_example zero_init OtherTrap 1 s1 = Some (Ok s2) \<and> tcbs (kern s2) 1 = Some tcb2 \<and> exit_code (inner tcb2) = - 11"
proof -
  let ?tcb = "tcb_example 1 Running [2]"
  have r: "release_areas (memory_set (inner ?tcb)) (k_mm k_example) = Ok (memory_set inner_example, mm_example1)"
    by (simp add: release_areas_def tcb_example_def inner_example_def k_example_def)
  have i: "signals_ok (inner ?tcb)" "signals (inner ?tcb) = 0" "\<not> frozen (inner ?tcb)" "handler (table (signal_actions (inner ?tcb)) ! 11) = 0"
    using signals_ok_example
    by (simp_all add: tcb_example_def signals_ok_def) (simp_all add: inner_example_def SignalActions_default_def SignalAction_default_def MAX_SIG_def)
  from memory_fault_kills [of "s_example k_example" 1 LoadPageFault ?tcb "memory_set inner_example" mm_example1 platform_example zero_init zero_init OtherTrap]
    tasks_inv_example current_example r i show ?thesis by (simp add: memory_fault_def) blast
qed

end
