(* ===== verification/User_Calls.thy ===== *)
theory User_Calls
  imports Kernel_Steps
begin

text \<open>
  The user library: the stubs of \<^verbatim>\<open>user/src/syscall.rs\<close>, which put a system call into registers, and
  the loops of \<^verbatim>\<open>user/src/lib.rs\<close> that wait for children or for the clock. A call that a program
  makes is served by the kernel's function of that name with the arguments of the program.
\<close>

section \<open>The stubs\<close>

text \<open>The numbers of the user library; pointers to slices and strings are their addresses.\<close>

definition user_SYSCALL_DUP :: usize where "user_SYSCALL_DUP = 24"
definition user_SYSCALL_OPEN :: usize where "user_SYSCALL_OPEN = 56"
definition user_SYSCALL_CLOSE :: usize where "user_SYSCALL_CLOSE = 57"
definition user_SYSCALL_PIPE :: usize where "user_SYSCALL_PIPE = 59"
definition user_SYSCALL_READ :: usize where "user_SYSCALL_READ = 63"
definition user_SYSCALL_WRITE :: usize where "user_SYSCALL_WRITE = 64"
definition user_SYSCALL_EXIT :: usize where "user_SYSCALL_EXIT = 93"
definition user_SYSCALL_YIELD :: usize where "user_SYSCALL_YIELD = 124"
definition user_SYSCALL_KILL :: usize where "user_SYSCALL_KILL = 129"
definition user_SYSCALL_SIGACTION :: usize where "user_SYSCALL_SIGACTION = 134"
definition user_SYSCALL_SIGPROCMASK :: usize where "user_SYSCALL_SIGPROCMASK = 135"
definition user_SYSCALL_SIGRETURN :: usize where "user_SYSCALL_SIGRETURN = 139"
definition user_SYSCALL_GET_TIME :: usize where "user_SYSCALL_GET_TIME = 169"
definition user_SYSCALL_GETPID :: usize where "user_SYSCALL_GETPID = 172"
definition user_SYSCALL_FORK :: usize where "user_SYSCALL_FORK = 220"
definition user_SYSCALL_EXEC :: usize where "user_SYSCALL_EXEC = 221"
definition user_SYSCALL_WAITPID :: usize where "user_SYSCALL_WAITPID = 260"

lemmas user_syscall_ids = user_SYSCALL_DUP_def user_SYSCALL_OPEN_def user_SYSCALL_CLOSE_def user_SYSCALL_PIPE_def user_SYSCALL_READ_def
  user_SYSCALL_WRITE_def user_SYSCALL_EXIT_def user_SYSCALL_YIELD_def user_SYSCALL_KILL_def user_SYSCALL_SIGACTION_def
  user_SYSCALL_SIGPROCMASK_def user_SYSCALL_SIGRETURN_def user_SYSCALL_GET_TIME_def user_SYSCALL_GETPID_def user_SYSCALL_FORK_def
  user_SYSCALL_EXEC_def user_SYSCALL_WAITPID_def

datatype user_call =
  CallWrite usize usize usize | CallExit i32 | CallYield | CallGetTime | CallGetpid | CallFork | CallExec usize usize
| CallWaitpid isize usize | CallRead usize usize usize | CallPipe usize | CallOpen usize OpenFlags | CallClose usize | CallDup usize
| CallKill usize i32 | CallSigaction i32 usize usize | CallSigprocmask u32 | CallSigreturn

text \<open>The casts to \<^verbatim>\<open>usize\<close> extend the sign of an \<^verbatim>\<open>i32\<close>.\<close>

fun call_args :: "user_call \<Rightarrow> usize \<times> usize list" where
  "call_args (CallWrite fd buffer len) = (user_SYSCALL_WRITE, [fd, buffer, len])"
| "call_args (CallExit code) = (user_SYSCALL_EXIT, [scast code, 0, 0])"
| "call_args CallYield = (user_SYSCALL_YIELD, [0, 0, 0])"
| "call_args CallGetTime = (user_SYSCALL_GET_TIME, [0, 0, 0])"
| "call_args CallGetpid = (user_SYSCALL_GETPID, [0, 0, 0])"
| "call_args CallFork = (user_SYSCALL_FORK, [0, 0, 0])"
| "call_args (CallExec path args) = (user_SYSCALL_EXEC, [path, args, 0])"
| "call_args (CallWaitpid p code) = (user_SYSCALL_WAITPID, [p, code, 0])"
| "call_args (CallRead fd buffer len) = (user_SYSCALL_READ, [fd, buffer, len])"
| "call_args (CallPipe pipe) = (user_SYSCALL_PIPE, [pipe, 0, 0])"
| "call_args (CallOpen path flags) = (user_SYSCALL_OPEN, [path, ucast flags, 0])"
| "call_args (CallClose fd) = (user_SYSCALL_CLOSE, [fd, 0, 0])"
| "call_args (CallDup fd) = (user_SYSCALL_DUP, [fd, 0, 0])"
| "call_args (CallKill p signal) = (user_SYSCALL_KILL, [p, scast signal, 0])"
| "call_args (CallSigaction signum action old_action) = (user_SYSCALL_SIGACTION, [scast signum, action, old_action])"
| "call_args (CallSigprocmask m) = (user_SYSCALL_SIGPROCMASK, [ucast m, 0, 0])"
| "call_args CallSigreturn = (user_SYSCALL_SIGRETURN, [0, 0, 0])"

text \<open>The registers at the \<^verbatim>\<open>ecall\<close> instruction.\<close>

definition user_syscall :: "usize \<Rightarrow> usize list \<Rightarrow> TrapContext \<Rightarrow> TrapContext" where
  "user_syscall call_id args c = c\<lparr>regs := (regs c)[10 := args ! 0, 11 := args ! 1, 12 := args ! 2, 17 := call_id]\<rparr>"

section \<open>Programs over the system calls\<close>

text \<open>
  The programs are functions of the system calls they make, a record that the kernel provides; the
  state \<open>'w\<close> is what the calls act on. \<^verbatim>\<open>exec\<close> gives \<^const>\<open>None\<close> when the program has been replaced, \<^verbatim>\<open>pipe\<close> the array that it has filled in,
  and the variable for the exit code of a child is left out.
\<close>

record 'w user_calls =
  call_open :: "string \<Rightarrow> OpenFlags \<Rightarrow> 'w \<Rightarrow> (isize \<times> 'w) outcome"
  call_close :: "usize \<Rightarrow> 'w \<Rightarrow> (isize \<times> 'w) outcome"
  call_dup :: "usize \<Rightarrow> 'w \<Rightarrow> (isize \<times> 'w) outcome"
  call_pipe :: "'w \<Rightarrow> ((usize \<times> usize) \<times> 'w) outcome"
  call_fork :: "'w \<Rightarrow> (isize \<times> 'w) outcome"
  call_exec :: "string \<Rightarrow> string option list \<Rightarrow> 'w \<Rightarrow> (isize option \<times> 'w) outcome"
  call_waitpid :: "isize \<Rightarrow> 'w \<Rightarrow> (isize \<times> 'w) outcome"
  call_yield :: "'w \<Rightarrow> 'w outcome"
  call_get_time :: "'w \<Rightarrow> (isize \<times> 'w) outcome"

definition WAITPID_ANY_PID :: isize where "WAITPID_ANY_PID = - 1"
definition WAITPID_CHILDREN_RUNNING :: isize where "WAITPID_CHILDREN_RUNNING = - 2"

partial_function (option) wait_loop :: "'w user_calls \<Rightarrow> isize \<Rightarrow> 'w \<Rightarrow> (isize \<times> 'w) outcome option" where
  "wait_loop C p w =
     (case call_waitpid C p w of
        Panic e \<Rightarrow> Some (Panic e)
      | Ok (r, w) \<Rightarrow>
          if r = WAITPID_CHILDREN_RUNNING then
            case call_yield C w of
              Panic e \<Rightarrow> Some (Panic e)
            | Ok w \<Rightarrow> wait_loop C p w
          else Some (Ok (r, w)))"

definition user_wait :: "'w user_calls \<Rightarrow> 'w \<Rightarrow> (isize \<times> 'w) outcome option" where
  "user_wait C = wait_loop C WAITPID_ANY_PID"

definition user_waitpid :: "'w user_calls \<Rightarrow> usize \<Rightarrow> 'w \<Rightarrow> (isize \<times> 'w) outcome option" where
  "user_waitpid C p = wait_loop C p"

text \<open>\<^verbatim>\<open>sleep\<close>: the difference of the times is compared as a signed number.\<close>

partial_function (option) sleep_loop :: "'w user_calls \<Rightarrow> isize \<Rightarrow> usize \<Rightarrow> 'w \<Rightarrow> 'w outcome option" where
  "sleep_loop C start duration w =
     (case call_get_time C w of
        Panic e \<Rightarrow> Some (Panic e)
      | Ok (t, w) \<Rightarrow>
          if t - start <s duration then
            case call_yield C w of
              Panic e \<Rightarrow> Some (Panic e)
            | Ok w \<Rightarrow> sleep_loop C start duration w
          else Some (Ok w))"

definition user_sleep :: "'w user_calls \<Rightarrow> usize \<Rightarrow> 'w \<Rightarrow> 'w outcome option" where
  "user_sleep C duration w = bindo (Some (call_get_time C w)) (\<lambda>(start, w). sleep_loop C start duration w)"

section \<open>A call reaches the function of its name\<close>

text \<open>The kernel's function for a call, with the arguments as the program gave them.\<close>

fun served :: "'d platform \<Rightarrow> TaskContext \<Rightarrow> user_call \<Rightarrow> 'd call" where
  "served P cx (CallWrite fd buffer len) = sys_write P fd buffer len"
| "served P cx (CallExit code) = (\<lambda>s. Some (and_then (sys_exit code (kern s)) (\<lambda>k. Ok (NoReturn, s\<lparr>kern := k\<rparr>))))"
| "served P cx CallYield = (\<lambda>s. Some (sleep cx (Returning 0) s))"
| "served P cx CallGetTime = (\<lambda>s. Some (Ok (Ret (sys_get_time s), s)))"
| "served P cx CallGetpid = kcall (\<lambda>k. and_then (sys_getpid k) (\<lambda>r. Ok (r, k)))"
| "served P cx CallFork = kcall (sys_fork (kenv P))"
| "served P cx (CallExec path args) = sys_exec P path args"
| "served P cx (CallWaitpid p code) = kcall (sys_waitpid p code)"
| "served P cx (CallRead fd buffer len) = sys_read P fd buffer len"
| "served P cx (CallPipe pipe) = sys_pipe pipe"
| "served P cx (CallOpen path flags) = sys_open P path flags"
| "served P cx (CallClose fd) = kcall (sys_close fd)"
| "served P cx (CallDup fd) = kcall (sys_dup fd)"
| "served P cx (CallKill p signal) = kcall (sys_kill p signal)"
| "served P cx (CallSigaction signum action old_action) = kcall (sys_sigaction signum action old_action)"
| "served P cx (CallSigprocmask m) = kcall (sys_procmask m)"
| "served P cx CallSigreturn = kcall sys_sigreturn"

lemma ucast_cast [simp]: "ucast (scast (x :: 32 word) :: 64 word) = x" "ucast (ucast (x :: 32 word) :: 64 word) = x"
  by (auto simp: bit_eq_iff bit_simps)

lemma syscall_served:
  "syscall P cx (fst (call_args c)) (snd (call_args c) ! 0) (snd (call_args c) ! 1) (snd (call_args c) ! 2) s = served P cx c s"
  by (cases c) (simp_all add: syscall_def syscall_ids user_syscall_ids)

text \<open>The trap handler skips the \<^verbatim>\<open>ecall\<close> and calls the function of the number in \<^verbatim>\<open>x17\<close>.\<close>

lemma trap_enter_call:
  assumes "current_trap_cx (kern s) = Ok ppn" "call_args c = (call_id, args)"
    and "load_trap_cx (mem (k_mm (kern s))) ppn = user_syscall call_id args cx0"
  shows "trap_enter P cx UserEnvCall s = served P cx c
    (s\<lparr>kern := set_mem (store_trap_cx (mem (k_mm (kern s))) ppn ((user_syscall call_id args cx0)\<lparr>sepc := sepc cx0 + 4\<rparr>)) (kern s)\<rparr>)"
proof -
  let ?c = "user_syscall call_id args cx0" and ?m = "mem (k_mm (kern s))"
  let ?c' = "?c\<lparr>sepc := sepc cx0 + 4\<rparr>"
  let ?m' = "store_trap_cx ?m ppn ?c'" 
  have len: "length (regs cx0) = 32" using length_regs_load [of ?m ppn] unfolding assms(3) by (simp add: user_syscall_def)
  then have len': "length (regs ?c') = 32" by (simp add: user_syscall_def)
  have sepc: "sepc ?c = sepc cx0" by (simp add: user_syscall_def)
  have k: "with_trap_cx (\<lambda>c. c\<lparr>sepc := sepc c + 4\<rparr>) (kern s) = Ok (set_mem ?m' (kern s))"
    using assms(1,3) by (simp add: with_trap_cx_def sepc)
  have cur: "current_trap_cx (set_mem ?m' (kern s)) = Ok ppn"
    using assms(1) by (auto simp: current_trap_cx_def set_mem_def current_task_def inner_exclusive_access_def and_then_eq_Ok_conv split: if_splits)
  have l: "load_trap_cx ?m' ppn = ?c'" using len' by simp
  have r: "regs ?c' ! 17 = call_id" "regs ?c' ! 10 = args ! 0" "regs ?c' ! 11 = args ! 1" "regs ?c' ! 12 = args ! 2"
    using len by (simp_all add: user_syscall_def)
  have "trap_enter P cx UserEnvCall s = syscall P cx call_id (args ! 0) (args ! 1) (args ! 2) (s\<lparr>kern := set_mem ?m' (kern s)\<rparr>)"
    using k cur l r by (simp add: trap_enter_def)
  also have "\<dots> = served P cx c (s\<lparr>kern := set_mem ?m' (kern s)\<rparr>)" using syscall_served [of P cx c] assms(2) by simp
  finally show ?thesis .
qed

text \<open>
  C10. A system call of a user program is served by the kernel function of that name with the
  arguments that the program gave: the stub puts them into registers, the trap handler takes them from the
  saved context, and the numbers and casts on both sides agree; the program continues after
  the \<^verbatim>\<open>ecall\<close>.
\<close>

theorem user_call_served:
  assumes "current_trap_cx (kern s) = Ok ppn" "call_args c = (call_id, args)"
    and "load_trap_cx (mem (k_mm (kern s))) ppn = user_syscall call_id args cx0"
  shows "\<exists>m. trap_enter P cx UserEnvCall s = served P cx c (s\<lparr>kern := set_mem m (kern s)\<rparr>)
    \<and> load_trap_cx m ppn = (user_syscall call_id args cx0)\<lparr>sepc := sepc cx0 + 4\<rparr>
    \<and> (\<forall>a. a < PhysPageNum_get_mut ppn \<or> PhysPageNum_get_mut ppn + TRAP_CONTEXT_SIZE \<le> a \<longrightarrow> m a = mem (k_mm (kern s)) a)"
proof -
  let ?c = "(user_syscall call_id args cx0)\<lparr>sepc := sepc cx0 + 4\<rparr>"
  have "length (regs ?c) = 32"
    using length_regs_load [of "mem (k_mm (kern s))" ppn] unfolding assms(3) by (simp add: user_syscall_def)
  then show ?thesis
    by (intro exI [of _ "store_trap_cx (mem (k_mm (kern s))) ppn ?c"])
      (simp add: trap_enter_call [OF assms] store_trap_cx_other)
qed

section \<open>Waiting\<close>

text \<open>The waiting loops end as soon as the kernel reports something else than running children.\<close>

lemma wait_loop_returns:
  assumes "\<And>j. j < n \<Longrightarrow> \<exists>v. call_waitpid C p (ws j) = Ok (WAITPID_CHILDREN_RUNNING, v) \<and> call_yield C v = Ok (ws (Suc j))"
    and "call_waitpid C p (ws n) = Ok (r, w')" "r \<noteq> WAITPID_CHILDREN_RUNNING"
  shows "wait_loop C p (ws 0) = Some (Ok (r, w'))"
  using assms
proof (induction n arbitrary: ws)
  case 0
  then show ?case by (simp add: wait_loop.simps)
next
  case (Suc n)
  from Suc.prems(1) [of 0] obtain v where v: "call_waitpid C p (ws 0) = Ok (WAITPID_CHILDREN_RUNNING, v)" "call_yield C v = Ok (ws 1)" by auto
  have "wait_loop C p (ws (Suc 0)) = Some (Ok (r, w'))"
    by (rule Suc.IH [of "\<lambda>j. ws (Suc j)"]) (use Suc.prems in auto)
  with v show ?case by (subst wait_loop.simps) simp
qed

lemma sleep_loop_returns:
  assumes "\<And>j. j < n \<Longrightarrow> \<exists>t v. call_get_time C (ws j) = Ok (t, v) \<and> t - start <s duration \<and> call_yield C v = Ok (ws (Suc j))"
    and "call_get_time C (ws n) = Ok (t, w')" "\<not> t - start <s duration"
  shows "sleep_loop C start duration (ws 0) = Some (Ok w')"
  using assms
proof (induction n arbitrary: ws)
  case 0
  then show ?case by (simp add: sleep_loop.simps)
next
  case (Suc n)
  from Suc.prems(1) [of 0] obtain u v where v: "call_get_time C (ws 0) = Ok (u, v)" "u - start <s duration" "call_yield C v = Ok (ws 1)" by auto
  have "sleep_loop C start duration (ws (Suc 0)) = Some (Ok w')"
    by (rule Suc.IH [of "\<lambda>j. ws (Suc j)"]) (use Suc.prems in auto)
  with v show ?case by (subst sleep_loop.simps) simp
qed

section \<open>A witness\<close>

text \<open>The running task asks for its pid.\<close>

definition k_getpid :: kernel where
  "k_getpid = set_mem (store_trap_cx (mem (k_mm k_example)) (trap_cx_ppn inner_example)
     (user_syscall 172 [0, 0, 0] (load_trap_cx (mem (k_mm k_example)) (trap_cx_ppn inner_example)))) k_example"

theorem user_call_served_witness: "\<exists>s'. trap_enter platform_example zero_init UserEnvCall (s_example k_getpid) = Some (Ok (Ret 1, s'))"
proof -
  let ?cx = "load_trap_cx (mem (k_mm k_example)) (trap_cx_ppn inner_example)"
  have cur: "current_trap_cx (kern (s_example k_getpid)) = Ok (trap_cx_ppn inner_example)"
    by (simp add: s_example_def k_getpid_def set_mem_def k_example_def current_trap_cx_def current_task_def inner_exclusive_access_def tcb_example_def)
  have "length (regs (user_syscall 172 [0, 0, 0] ?cx)) = 32" by (simp add: user_syscall_def)
  then have cx: "load_trap_cx (mem (k_mm (kern (s_example k_getpid)))) (trap_cx_ppn inner_example) = user_syscall 172 [0, 0, 0] ?cx"
    by (simp add: s_example_def k_getpid_def set_mem_def)
  have "call_args CallGetpid = (172, [0, 0, 0])" by (simp add: user_syscall_ids)
  from user_call_served [OF cur this cx, of platform_example zero_init] obtain m where
    "trap_enter platform_example zero_init UserEnvCall (s_example k_getpid)
      = served platform_example zero_init CallGetpid ((s_example k_getpid)\<lparr>kern := set_mem m (kern (s_example k_getpid))\<rparr>)" by blast
  then show ?thesis
    by (simp add: s_example_def k_getpid_def set_mem_def k_example_def kcall_def sys_getpid_def current_task_def getpid_def tcb_example_def)
qed

end
