(* ===== verification/User_Shell.thy ===== *)
theory User_Shell
  imports User_Calls
begin

text \<open>
  The shell (\<^verbatim>\<open>user_shell.rs\<close>) and the first process (\<^verbatim>\<open>initproc.rs\<close>), over the system calls of
  \<open>User_Calls\<close>. Messages on the console are left out. A panic ends the program: its handler prints
  and loops.
\<close>

section \<open>The command line\<close>

text \<open>\<^verbatim>\<open>str::split\<close> at a character: the empty string has one, empty, part.\<close>

fun split_on :: "char \<Rightarrow> string \<Rightarrow> string list" where
  "split_on c [] = [[]]"
| "split_on c (x # xs) = (if x = c then [] # split_on c xs else (x # hd (split_on c xs)) # tl (split_on c xs))"

definition NUL :: char where "NUL = CHR 0x00"

text \<open>The pointers \<^verbatim>\<open>args_addr\<close> are represented by the strings they point to, the null pointer by \<^const>\<open>None\<close>.\<close>

record ProcessArguments =
  pa_input :: string
  pa_output :: string
  args_copy :: "string list"
  args_addr :: "string option list"

text \<open>The first argument \<open>symbol\<close> and the one after it, a file name, are taken out.\<close>

definition take_redirection :: "string \<Rightarrow> string list \<Rightarrow> (string \<times> string list) outcome" where
  "take_redirection symbol args =
     (case find (\<lambda>(idx, arg). arg = symbol @ [NUL]) (enumerate 0 args) of
        None \<Rightarrow> Ok ([], args)
      | Some (idx, _) \<Rightarrow> and_then (index args (idx + 1)) (\<lambda>f. Ok (f, take idx args @ drop (idx + 2) args)))"

definition ProcessArguments_new :: "string \<Rightarrow> ProcessArguments outcome" where
  "ProcessArguments_new command =
     (let args = split_on (CHR '' '') command;
          args_copy = map (\<lambda>arg. arg @ [NUL]) (filter (\<lambda>arg. arg \<noteq> []) args)
      in and_then (take_redirection ''<'' args_copy) (\<lambda>(inp, args_copy).
         and_then (take_redirection ''>'' args_copy) (\<lambda>(out, args_copy).
         Ok \<lparr>pa_input = inp, pa_output = out, args_copy = args_copy, args_addr = map Some args_copy @ [None]\<rparr>)))"

fun new_all :: "string list \<Rightarrow> ProcessArguments list outcome" where
  "new_all [] = Ok []"
| "new_all (cmd # cmds) = and_then (ProcessArguments_new cmd) (\<lambda>c. and_then (new_all cmds) (\<lambda>cs. Ok (c # cs)))"

text \<open>The loop that clears \<^verbatim>\<open>valid\<close>.\<close>

definition clears_valid :: "ProcessArguments list \<Rightarrow> nat \<Rightarrow> bool" where
  "clears_valid commands i =
     (if i = 0 then pa_output (commands ! i) \<noteq> []
      else if i = length commands - 1 then pa_input (commands ! i) \<noteq> []
      else pa_input (commands ! i) \<noteq> [] \<or> pa_output (commands ! i) \<noteq> [])"

definition commands_valid :: "ProcessArguments list \<Rightarrow> bool" where
  "commands_valid commands =
     (let valid = foldl (\<lambda>valid i. if clears_valid commands i then False else valid) True [0..<length commands]
      in if length commands = 1 then True else valid)"

section \<open>A child of the shell\<close>

text \<open>\<^verbatim>\<open>close(target); assert!(dup(fd) == target)\<close>\<close>

definition rebind :: "'w user_calls \<Rightarrow> usize \<Rightarrow> usize \<Rightarrow> 'w \<Rightarrow> 'w outcome" where
  "rebind C target fd w =
     and_then (call_close C target w) (\<lambda>(_, w).
     and_then (call_dup C fd w) (\<lambda>(r, w).
     and_then (assert_that (r = target)) (\<lambda>_. Ok w)))"

text \<open>A file that cannot be opened ends the child.\<close>

definition redirect_file :: "'w user_calls \<Rightarrow> string \<Rightarrow> OpenFlags \<Rightarrow> usize \<Rightarrow> 'w \<Rightarrow> (bool \<times> 'w) outcome" where
  "redirect_file C name flags target w =
     (if name = [] then Ok (True, w)
      else and_then (call_open C name flags w) (\<lambda>(fd, w).
           if fd = - 1 then Ok (False, w)
           else and_then (rebind C target fd w) (\<lambda>w.
                and_then (call_close C fd w) (\<lambda>(_, w). Ok (True, w)))))"

fun close_pipes :: "'w user_calls \<Rightarrow> (usize \<times> usize) list \<Rightarrow> 'w \<Rightarrow> 'w outcome" where
  "close_pipes C [] w = Ok w"
| "close_pipes C ((r, wr) # ps) w =
     and_then (call_close C r w) (\<lambda>(_, w).
     and_then (call_close C wr w) (\<lambda>(_, w). close_pipes C ps w))"

definition child_files ::
    "'w user_calls \<Rightarrow> nat \<Rightarrow> nat \<Rightarrow> ProcessArguments \<Rightarrow> (usize \<times> usize) list \<Rightarrow> 'w \<Rightarrow> (bool \<times> 'w) outcome" where
  "child_files C i n cmd pipe_fd_list w =
     and_then (redirect_file C (pa_input cmd) READ_ONLY 0 w) (\<lambda>(opened, w).
     if \<not> opened then Ok (False, w)
     else and_then (redirect_file C (pa_output cmd) (CREATE OR WRITE_ONLY) 1 w) (\<lambda>(opened, w).
     if \<not> opened then Ok (False, w)
     else and_then (if 0 < i then and_then (index pipe_fd_list (i - 1)) (\<lambda>p. rebind C 0 (fst p) w) else Ok w) (\<lambda>w.
     and_then (if i < n - 1 then and_then (index pipe_fd_list i) (\<lambda>p. rebind C 1 (snd p) w) else Ok w) (\<lambda>w.
     and_then (close_pipes C pipe_fd_list w) (\<lambda>w. Ok (True, w))))))"

text \<open>How the code of a process ends: with a return code of \<^verbatim>\<open>main\<close>, or replaced by a program.\<close>

datatype program_end = Returned isize | Replaced

definition shell_child ::
    "'w user_calls \<Rightarrow> nat \<Rightarrow> nat \<Rightarrow> ProcessArguments \<Rightarrow> (usize \<times> usize) list \<Rightarrow> 'w \<Rightarrow> (program_end \<times> 'w) outcome" where
  "shell_child C i n cmd pipe_fd_list w =
     and_then (child_files C i n cmd pipe_fd_list w) (\<lambda>(ready, w).
     if \<not> ready then Ok (Returned (- 4), w)
     else and_then (index (args_copy cmd) 0) (\<lambda>name.
          and_then (call_exec C name (args_addr cmd) w) (\<lambda>(r, w).
          case r of
            None \<Rightarrow> Ok (Replaced, w)
          | Some r \<Rightarrow> if r = - 1 then Ok (Returned (- 4), w) else Panic ExplicitPanic)))"

section \<open>The shell\<close>

fun make_pipes :: "'w user_calls \<Rightarrow> nat \<Rightarrow> 'w \<Rightarrow> ((usize \<times> usize) list \<times> 'w) outcome" where
  "make_pipes C 0 w = Ok ([], w)"
| "make_pipes C (Suc n) w =
     and_then (call_pipe C w) (\<lambda>(p, w).
     and_then (make_pipes C n w) (\<lambda>(ps, w). Ok (p # ps, w)))"

text \<open>The loop over the commands from number \<open>i\<close> of \<open>n\<close> on, in the child or in the parent.\<close>

datatype spawned = InChild program_end | InParent "isize list"

fun spawn ::
    "'w user_calls \<Rightarrow> nat \<Rightarrow> nat \<Rightarrow> ProcessArguments list \<Rightarrow> (usize \<times> usize) list \<Rightarrow> isize list \<Rightarrow> 'w \<Rightarrow> (spawned \<times> 'w) outcome" where
  "spawn C i n [] pipe_fd_list pids w = Ok (InParent pids, w)"
| "spawn C i n (cmd # cmds) pipe_fd_list pids w =
     and_then (call_fork C w) (\<lambda>(p, w).
     if p = 0 then and_then (shell_child C i n cmd pipe_fd_list w) (\<lambda>(e, w). Ok (InChild e, w))
     else spawn C (Suc i) n cmds pipe_fd_list (pids @ [p]) w)"

fun wait_all :: "'w user_calls \<Rightarrow> isize list \<Rightarrow> 'w \<Rightarrow> 'w outcome option" where
  "wait_all C [] w = Some (Ok w)"
| "wait_all C (p # ps) w =
     bindo (user_waitpid C p w) (\<lambda>(exit_pid, w).
     bindo (Some (assert_that (exit_pid = p))) (\<lambda>_. wait_all C ps w))"

text \<open>A line that is not empty; \<^const>\<open>Some\<close> when \<^verbatim>\<open>main\<close> ends, which it does only in a child.\<close>

definition run_line :: "'w user_calls \<Rightarrow> string \<Rightarrow> 'w \<Rightarrow> (program_end option \<times> 'w) outcome option" where
  "run_line C line w =
     bindo (Some (new_all (split_on (CHR ''|'') line))) (\<lambda>commands.
     if \<not> commands_valid commands then Some (Ok (None, w))
     else bindo (Some (make_pipes C (length commands - 1) w)) (\<lambda>(pipe_fd_list, w).
          bindo (Some (spawn C 0 (length commands) commands pipe_fd_list [] w)) (\<lambda>(r, w).
          case r of
            InChild e \<Rightarrow> Some (Ok (Some e, w))
          | InParent pids \<Rightarrow>
              bindo (Some (close_pipes C pipe_fd_list w)) (\<lambda>w.
              bindo (wait_all C pids w) (\<lambda>w. Some (Ok (None, w)))))))"

definition LF :: char where "LF = CHR 0x0A"
definition CR :: char where "CR = CHR 0x0D"
definition DL :: char where "DL = CHR 0x7F"
definition BS :: char where "BS = CHR 0x08"

text \<open>One turn of the loop of \<^verbatim>\<open>main\<close>: the character that was read, and the line so far.\<close>

definition shell_key :: "'w user_calls \<Rightarrow> char \<Rightarrow> string \<Rightarrow> 'w \<Rightarrow> (program_end option \<times> string \<times> 'w) outcome option" where
  "shell_key C c line w =
     (if c = LF \<or> c = CR then
        if line = [] then Some (Ok (None, line, w))
        else bindo (run_line C line w) (\<lambda>(e, w). Some (Ok (e, [], w)))
      else if c = BS \<or> c = DL then Some (Ok (None, butlast line, w))
      else Some (Ok (None, line @ [c], w)))"

section \<open>The first process\<close>

text \<open>\<^verbatim>\<open>initproc\<close> up to its loop, and one turn of the loop.\<close>

definition initproc_start :: "'w user_calls \<Rightarrow> 'w \<Rightarrow> (program_end option \<times> 'w) outcome" where
  "initproc_start C w =
     and_then (call_fork C w) (\<lambda>(p, w).
     if p = 0 then
       and_then (call_exec C (''user_shell'' @ [NUL]) [None] w) (\<lambda>(r, w).
       Ok (Some (case r of None \<Rightarrow> Replaced | Some _ \<Rightarrow> Returned 0), w))
     else Ok (None, w))"

definition initproc_turn :: "'w user_calls \<Rightarrow> 'w \<Rightarrow> 'w outcome option" where
  "initproc_turn C w =
     bindo (user_wait C w) (\<lambda>(p, w).
     Some (if p = - 1 then call_yield C w else Ok w))"

section \<open>Parsing\<close>

fun join :: "char \<Rightarrow> string list \<Rightarrow> string" where
  "join c [] = []"
| "join c [w] = w"
| "join c (w # v # ws) = w @ c # join c (v # ws)"

lemma split_on_not_Nil [simp]: "split_on c xs \<noteq> []"
  by (induction xs) auto

lemma split_on_word: "c \<notin> set w \<Longrightarrow> split_on c w = [w]"
  by (induction w) auto

lemma split_on_append: "c \<notin> set w \<Longrightarrow> split_on c (w @ c # xs) = w # split_on c xs"
  by (induction w) auto

lemma split_on_join: "ws \<noteq> [] \<Longrightarrow> \<forall>w \<in> set ws. c \<notin> set w \<Longrightarrow> split_on c (join c ws) = ws"
  by (induction c ws rule: join.induct) (simp_all add: split_on_word split_on_append)

lemma find_enumerate:
  assumes "x \<notin> set pre"
  shows "find (\<lambda>(idx, arg). arg = x) (enumerate n (pre @ x # post)) = Some (n + length pre, x)"
  using assms by (induction pre arbitrary: n) auto

lemma find_enumerate_None: "x \<notin> set xs \<Longrightarrow> find (\<lambda>(idx, arg). arg = x) (enumerate n xs) = None"
  by (induction xs arbitrary: n) auto

lemma take_redirection_simps:
  assumes "symbol @ [NUL] \<notin> set pre"
  shows "take_redirection symbol pre = Ok ([], pre)"
    and "take_redirection symbol (pre @ (symbol @ [NUL]) # f # post) = Ok (f, pre @ post)"
    and "take_redirection symbol (pre @ [symbol @ [NUL]]) = Panic OutOfBounds"
proof -
  show "take_redirection symbol pre = Ok ([], pre)"
    using find_enumerate_None [OF assms, of 0] by (simp add: take_redirection_def)
  show "take_redirection symbol (pre @ (symbol @ [NUL]) # f # post) = Ok (f, pre @ post)"
    using find_enumerate [OF assms, of 0 "f # post"] by (simp add: take_redirection_def index_def nth_append)
  show "take_redirection symbol (pre @ [symbol @ [NUL]]) = Panic OutOfBounds"
    using find_enumerate [OF assms, of 0 "[]"] by (simp add: take_redirection_def index_def)
qed

text \<open>A word that is neither empty nor a redirection, and a redirection.\<close>

definition plain :: "string \<Rightarrow> bool" where
  "plain w \<longleftrightarrow> w \<noteq> [] \<and> w \<noteq> ''<'' \<and> w \<noteq> ''>''"

definition redirection :: "string \<Rightarrow> string option \<Rightarrow> string list" where
  "redirection symbol f = (case f of None \<Rightarrow> [] | Some name \<Rightarrow> [symbol, name])"

definition c_str :: "string \<Rightarrow> string" where "c_str w = w @ [NUL]"

definition c_name :: "string option \<Rightarrow> string" where
  "c_name f = (case f of None \<Rightarrow> [] | Some name \<Rightarrow> c_str name)"

lemma c_str_in_map: "symbol @ [NUL] \<in> set (map c_str ws) \<longleftrightarrow> symbol \<in> set ws"
  by (auto simp: c_str_def)

lemma take_redirection_words:
  assumes "symbol \<notin> set ws" "symbol \<notin> set vs"
  shows "take_redirection symbol (map c_str (ws @ redirection symbol f @ vs)) = Ok (c_name f, map c_str (ws @ vs))"
    and "take_redirection symbol (map c_str (ws @ [symbol])) = Panic OutOfBounds"
proof -
  note t = take_redirection_simps [of symbol "map c_str ws", unfolded c_str_in_map, OF assms(1)]
  have n: "take_redirection symbol (map c_str (ws @ vs)) = Ok ([], map c_str (ws @ vs))"
    using assms by (intro take_redirection_simps(1)) (simp only: c_str_in_map set_append Un_iff simp_thms)
  show "take_redirection symbol (map c_str (ws @ redirection symbol f @ vs)) = Ok (c_name f, map c_str (ws @ vs))"
    using n t(2) [of "c_name f" "map c_str vs"] by (cases f) (simp_all add: redirection_def c_name_def c_str_def)
  show "take_redirection symbol (map c_str (ws @ [symbol])) = Panic OutOfBounds" using t(3) by (simp add: c_str_def)
qed

lemma redirection_mem: "\<forall>w \<in> set_option f. plain w \<Longrightarrow> symbol \<noteq> other \<Longrightarrow> \<not> plain symbol \<Longrightarrow> symbol \<notin> set (redirection other f)"
  by (auto simp: redirection_def split: option.splits)

lemma ProcessArguments_words:
  assumes "\<forall>w \<in> set line. CHR '' '' \<notin> set w"
  shows "ProcessArguments_new (join (CHR '' '') line) =
    and_then (take_redirection ''<'' (map c_str (filter (\<lambda>w. w \<noteq> []) line))) (\<lambda>(inp, args_copy).
    and_then (take_redirection ''>'' args_copy) (\<lambda>(out, args_copy).
    Ok \<lparr>pa_input = inp, pa_output = out, args_copy = args_copy, args_addr = map Some args_copy @ [None]\<rparr>))"
  using assms split_on_join [of line "CHR '' ''"]
  by (cases "line = []") (simp_all add: ProcessArguments_new_def c_str_def [abs_def])

text \<open>
  C28. The shell finds in a command line what was written into it: with a redirection of the input and
  one of the output anywhere between the words, in either order, and any number of spaces, it takes
  the two file names and the remaining words in their order, each with a NUL at its end.
  A redirection at the end of the line, without a file name, makes the shell panic.
\<close>

theorem ProcessArguments_roundtrip:
  assumes "\<forall>w \<in> set line. CHR '' '' \<notin> set w" "\<forall>w \<in> set (as @ bs @ cs) \<union> set_option inp \<union> set_option out. plain w"
  shows "(filter (\<lambda>w. w \<noteq> []) line \<in> {as @ redirection ''<'' inp @ bs @ redirection ''>'' out @ cs,
        as @ redirection ''>'' out @ bs @ redirection ''<'' inp @ cs} \<longrightarrow>
      ProcessArguments_new (join (CHR '' '') line) = Ok \<lparr>pa_input = c_name inp, pa_output = c_name out,
        args_copy = map c_str (as @ bs @ cs), args_addr = map (Some \<circ> c_str) (as @ bs @ cs) @ [None]\<rparr>)
    \<and> (filter (\<lambda>w. w \<noteq> []) line \<in> {as @ [''<''], as @ redirection ''<'' inp @ bs @ [''>'']} \<longrightarrow>
      ProcessArguments_new (join (CHR '' '') line) = Panic OutOfBounds)"
proof -
  have np: "\<not> plain ''<''" "\<not> plain ''>''" "''<'' \<noteq> ''>''" "''>'' \<noteq> ''<''" by (simp_all add: plain_def)
  have pl: "''<'' \<notin> set as" "''<'' \<notin> set bs" "''<'' \<notin> set cs" "''>'' \<notin> set as" "''>'' \<notin> set bs" "''>'' \<notin> set cs"
    using assms(2) np(1,2) by auto
  have rd: "''>'' \<notin> set (redirection ''<'' inp)" "''<'' \<notin> set (redirection ''>'' out)"
    using assms(2) np by (intro redirection_mem; simp)+
  note P = ProcessArguments_words [OF assms(1)]
  have l: "take_redirection ''<'' (map c_str (as @ redirection ''<'' inp @ bs @ redirection ''>'' out @ cs)) = Ok (c_name inp, map c_str (as @ bs @ redirection ''>'' out @ cs))"
    "take_redirection ''<'' (map c_str (as @ redirection ''>'' out @ bs @ redirection ''<'' inp @ cs)) = Ok (c_name inp, map c_str (as @ redirection ''>'' out @ bs @ cs))"
    "take_redirection ''<'' (map c_str (as @ redirection ''<'' inp @ bs @ [''>''])) = Ok (c_name inp, map c_str (as @ bs @ [''>'']))"
    "take_redirection ''<'' (map c_str (as @ [''<''])) = Panic OutOfBounds"
    using take_redirection_words(1) [of "''<''" as "bs @ redirection ''>'' out @ cs" inp] 
      take_redirection_words(1) [of "''<''" "as @ redirection ''>'' out @ bs" cs inp]
      take_redirection_words(1) [of "''<''" as "bs @ [''>'']" inp] take_redirection_words(2) [of "''<''" as "[]"] pl rd
    by (simp_all del: map_append)
  have g: "take_redirection ''>'' (map c_str (as @ bs @ redirection ''>'' out @ cs)) = Ok (c_name out, map c_str (as @ bs @ cs))"
    "take_redirection ''>'' (map c_str (as @ redirection ''>'' out @ bs @ cs)) = Ok (c_name out, map c_str (as @ bs @ cs))"
    "take_redirection ''>'' (map c_str (as @ bs @ [''>''])) = Panic OutOfBounds"
    using take_redirection_words(1) [of "''>''" "as @ bs" cs out] take_redirection_words(1) [of "''>''" as "bs @ cs" out]
      take_redirection_words(2) [of "''>''" "as @ bs" "[]"] pl
    by (simp_all del: map_append)
  have m: "map (Some \<circ> c_str) ws = map Some (map c_str ws)" for ws by simp
  show ?thesis unfolding P m using l g by (auto simp del: map_append map_map)
qed

section \<open>Pipelines\<close>

lemma foldl_clear: "foldl (\<lambda>valid i. if P i then False else valid) b xs \<longleftrightarrow> b \<and> (\<forall>x \<in> set xs. \<not> P x)"
  by (induction xs arbitrary: b) auto

text \<open>
  C37. The check of a pipeline accepts exactly the lines in which no stream of a command is bound
  twice: a command that writes to a pipe has no output file, one that reads from a pipe no input file.
\<close>

theorem commands_valid_iff:
  assumes "commands \<noteq> []"
  shows "commands_valid commands \<longleftrightarrow>
    (\<forall>i < length commands. (i + 1 < length commands \<longrightarrow> pa_output (commands ! i) = []) \<and> (0 < i \<longrightarrow> pa_input (commands ! i) = []))"
proof (cases "length commands = 1")
  case False
  have "\<not> clears_valid commands i \<longleftrightarrow> (i + 1 < length commands \<longrightarrow> pa_output (commands ! i) = []) \<and> (0 < i \<longrightarrow> pa_input (commands ! i) = [])"
    if "i < length commands" for i using that False by (auto simp: clears_valid_def)
  then show ?thesis using False by (simp add: commands_valid_def foldl_clear Ball_def)
qed (simp add: commands_valid_def)

section \<open>Witnesses\<close>

theorem ProcessArguments_roundtrip_witness:
  "ProcessArguments_new ''cat  < in > out x'' =
     Ok \<lparr>pa_input = c_str ''in'', pa_output = c_str ''out'', args_copy = [c_str ''cat'', c_str ''x''],
        args_addr = [Some (c_str ''cat''), Some (c_str ''x''), None]\<rparr>
   \<and> ProcessArguments_new ''cat <'' = Panic OutOfBounds"
proof
  have p: "\<forall>w \<in> set ([''cat''] @ [] @ [''x'']) \<union> set_option (Some ''in'') \<union> set_option (Some ''out''). plain w" by (simp add: plain_def)
  show "ProcessArguments_new ''cat  < in > out x'' =
     Ok \<lparr>pa_input = c_str ''in'', pa_output = c_str ''out'', args_copy = [c_str ''cat'', c_str ''x''],
        args_addr = [Some (c_str ''cat''), Some (c_str ''x''), None]\<rparr>"
    using ProcessArguments_roundtrip [OF _ p, of "[''cat'', [], ''<'', ''in'', ''>'', ''out'', ''x'']"]
    by (simp add: redirection_def c_name_def)
  have q: "\<forall>w \<in> set ([''cat''] @ [] @ []) \<union> set_option None \<union> set_option None. plain w" by (simp add: plain_def)
  show "ProcessArguments_new ''cat <'' = Panic OutOfBounds"
    using ProcessArguments_roundtrip [OF _ q, of "[''cat'', ''<'']"] by simp
qed

definition command_example :: "string \<Rightarrow> string \<Rightarrow> ProcessArguments" where
  "command_example inp out = \<lparr>pa_input = inp, pa_output = out, args_copy = [''cat''], args_addr = [Some ''cat'', None]\<rparr>"

theorem commands_valid_iff_witness:
  "commands_valid [command_example ''in'' [], command_example [] ''out''] \<and> \<not> commands_valid [command_example [] [], command_example ''in'' []]"
  using commands_valid_iff [of "[command_example ''in'' [], command_example [] ''out'']"]
    commands_valid_iff [of "[command_example [] [], command_example ''in'' []]"]
  by (auto simp: command_example_def less_Suc_eq)

end
