(* ===== verification/Shell_Files.thy ===== *)
theory Shell_Files
  imports User_Shell
begin

text \<open>
  The files of a command that the shell starts, on this kernel: \<^verbatim>\<open>open\<close>, \<^verbatim>\<open>close\<close>, \<^verbatim>\<open>dup\<close> and \<^verbatim>\<open>pipe\<close> are the
  system calls of \<open>File_Calls\<close> on the mounted easy-fs. What the shell needs of \<^verbatim>\<open>close\<close> and \<^verbatim>\<open>dup\<close> is the
  locale \<open>descriptor_calls\<close>.
\<close>

section \<open>The kernel's calls\<close>

text \<open>
  A call that returns at once. \<^verbatim>\<open>open\<close>, \<^verbatim>\<open>close\<close>, \<^verbatim>\<open>dup\<close> and \<^verbatim>\<open>pipe\<close> never sleep; only the
  translation of a path may not end, and there the program cannot go on either.
\<close>

definition at_once :: "'d call \<Rightarrow> 'd system \<Rightarrow> (isize \<times> 'd system) outcome" where
  "at_once c s =
     (case c s of
        Some (Ok (Ret r, s)) \<Rightarrow> Ok (r, s)
      | Some (Panic p) \<Rightarrow> Panic p
      | _ \<Rightarrow> Panic ExplicitPanic)"

text \<open>The two elements of the array that \<^verbatim>\<open>pipe\<close> fills in.\<close>

definition pipe_array :: "usize \<Rightarrow> 'd system \<Rightarrow> ((usize \<times> usize) \<times> 'd system) outcome" where
  "pipe_array ptr s =
     and_then (current_user_token (kern s)) (\<lambda>token.
     and_then (translated_ref token ptr (s_mem s)) (\<lambda>a.
     and_then (translated_ref token (ptr + 8) (s_mem s)) (\<lambda>b.
     Ok ((load_u64 (s_mem s) a, load_u64 (s_mem s) b), s))))"

text \<open>
  Each call is the kernel function that serves it; the way of a call through the trap handler, which changes the
  trap context of the task, is in \<open>User_Calls\<close>. A string of the shell is at address \<open>addr\<close>, the array for \<^verbatim>\<open>pipe\<close>
  at \<open>ptr\<close>. The calls that split the control flow or give the processor away stay a parameter.
\<close>

definition kernel_calls ::
    "'d platform \<Rightarrow> TaskContext \<Rightarrow> (string \<Rightarrow> usize) \<Rightarrow> usize \<Rightarrow> 'd system user_calls \<Rightarrow> 'd system user_calls" where
  "kernel_calls P cx addr ptr other = other
     \<lparr>call_open := \<lambda>name flags. at_once (served P cx (CallOpen (addr name) flags)),
      call_close := \<lambda>fd. at_once (served P cx (CallClose fd)),
      call_dup := \<lambda>fd. at_once (served P cx (CallDup fd)),
      call_pipe := \<lambda>s. and_then (at_once (served P cx (CallPipe ptr)) s) (\<lambda>(_, s). pipe_array ptr s)\<rparr>"

lemma at_once_kcall: "at_once (kcall f) s = and_then (f (kern s)) (\<lambda>(r, k). Ok (r, s\<lparr>kern := k\<rparr>))"
  by (cases "f (kern s)") (simp_all add: at_once_def kcall_def split: prod.splits)

lemma kernel_calls_simps [simp]:
  "call_open (kernel_calls P cx addr ptr other) name flags s = at_once (sys_open P (addr name) flags) s"
  "call_close (kernel_calls P cx addr ptr other) fd s = and_then (sys_close fd (kern s)) (\<lambda>(r, k). Ok (r, s\<lparr>kern := k\<rparr>))"
  "call_dup (kernel_calls P cx addr ptr other) fd s = and_then (sys_dup fd (kern s)) (\<lambda>(r, k). Ok (r, s\<lparr>kern := k\<rparr>))"
  "call_pipe (kernel_calls P cx addr ptr other) s = and_then (at_once (sys_pipe ptr) s) (\<lambda>(_, s). pipe_array ptr s)"
  by (simp_all add: kernel_calls_def at_once_kcall)

section \<open>Descriptors\<close>

text \<open>
  What the shell relies on: \<^verbatim>\<open>close\<close> frees a descriptor and \<^verbatim>\<open>dup\<close> binds the lowest free one; neither changes
  anything else that matters.
\<close>

locale descriptor_calls =
  fixes C :: "'w user_calls" and fds :: "'w \<Rightarrow> nat \<Rightarrow> 'f option" and ok :: "'w \<Rightarrow> bool" and same :: "'w \<Rightarrow> 'w \<Rightarrow> bool"
  assumes close_law: "ok w \<Longrightarrow> \<exists>r w'. call_close C fd w = Ok (r, w') \<and> ok w' \<and> same w w' \<and> fds w' = (fds w)(unat fd := None)"
    and dup_law: "ok w \<Longrightarrow> fds w (unat fd) = Some f \<Longrightarrow> fds w new = None \<Longrightarrow> \<forall>i < new. fds w i \<noteq> None \<Longrightarrow>
      \<exists>w'. call_dup C fd w = Ok (of_nat new, w') \<and> ok w' \<and> same w w' \<and> fds w' = (fds w)(new \<mapsto> f)"
    and same_trans: "same w1 w2 \<Longrightarrow> same w2 w3 \<Longrightarrow> same w1 w3"
begin

lemma rebind_law:
  assumes "ok w" "fds w (unat fd) = Some f" "unat fd \<noteq> unat target" "\<forall>i < unat target. fds w i \<noteq> None"
  shows "\<exists>w'. rebind C target fd w = Ok w' \<and> ok w' \<and> same w w' \<and> fds w' = (fds w)(unat target \<mapsto> f)"
proof -
  obtain r w1 where c: "call_close C target w = Ok (r, w1)" "ok w1" "same w w1" "fds w1 = (fds w)(unat target := None)"
    using close_law [OF assms(1), of target] by blast
  obtain w2 where d: "call_dup C fd w1 = Ok (of_nat (unat target), w2)" "ok w2" "same w1 w2" "fds w2 = (fds w1)(unat target \<mapsto> f)"
    using dup_law [OF c(2), of fd f "unat target"] assms(2-4) by (auto simp: c(4))
  then show ?thesis using c same_trans [OF c(3) d(3)] by (simp add: rebind_def)
qed

text \<open>An opened file replaces one of the standard streams, and its own descriptor is free again.\<close>

lemma redirect_law:
  assumes "name \<noteq> []" "call_open C name flags w = Ok (fd, w1)" "fd \<noteq> - 1" "ok w1" "fds w1 = (fds w)(unat fd \<mapsto> f)"
    and "fds w (unat fd) = None" "fds w 0 \<noteq> None" "fds w 1 \<noteq> None" "unat target \<le> 1"
  shows "\<exists>w'. redirect_file C name flags target w = Ok (True, w') \<and> ok w' \<and> same w1 w' \<and> fds w' = (fds w)(unat target \<mapsto> f)"
proof -
  have t: "unat target = 0 \<or> unat target = 1" using assms(9) by linarith
  have "unat fd \<noteq> 0" "unat fd \<noteq> 1" using assms(6-8) by (metis, metis)
  with t have ne: "unat fd \<noteq> unat target" and low: "\<forall>i < unat target. fds w1 i \<noteq> None" using assms(5,7) by auto
  obtain w2 where r: "rebind C target fd w1 = Ok w2" "ok w2" "same w1 w2" "fds w2 = (fds w1)(unat target \<mapsto> f)"
    using rebind_law [OF assms(4) _ ne low, of f] assms(5) by auto
  obtain x w3 where c: "call_close C fd w2 = Ok (x, w3)" "ok w3" "same w2 w3" "fds w3 = (fds w2)(unat fd := None)"
    using close_law [OF r(2)] by blast
  have "fds w3 = (fds w)(unat target \<mapsto> f)" using ne assms(6) unfolding c(4) r(4) assms(5) by (auto simp: fun_eq_iff)
  with assms(1-3) r c same_trans [OF r(3) c(3)] show ?thesis by (simp add: redirect_file_def)
qed

end

definition task_files :: "kernel \<Rightarrow> nat \<Rightarrow> file_ref option" where
  "task_files k d = Option.bind (Option.bind (current k) (tcbs k)) (\<lambda>tcb. fd_lookup (fd_table (inner tcb)) d)"

definition task_runs :: "'d system \<Rightarrow> bool" where
  "task_runs s \<longleftrightarrow> tasks_inv (kern s) \<and> current (kern s) \<noteq> None"

text \<open>The files and the memory of the program stay as they are.\<close>

definition files_same :: "'d system \<Rightarrow> 'd system \<Rightarrow> bool" where
  "files_same s s' \<longleftrightarrow> fs s' = fs s \<and> os_files s' = os_files s \<and> s_mem s' = s_mem s \<and> current_user_token (kern s') = current_user_token (kern s)"

lemma task_runsE:
  assumes "task_runs s"
  obtains t tcb where "tasks_inv (kern s)" "current (kern s) = Some t" "tcbs (kern s) t = Some tcb" "borrowed (kern s) = {}"
    "task_files (kern s) = fd_lookup (fd_table (inner tcb))" "current_user_token (kern s) = Ok (get_user_token (inner tcb))"
proof -
  from assms obtain t where t: "tasks_inv (kern s)" "current (kern s) = Some t" by (auto simp: task_runs_def)
  then obtain tcb where "tcbs (kern s) t = Some tcb" "borrowed (kern s) = {}" by (rule current_tcb)
  with t that show thesis
    by (auto simp: task_files_def fun_eq_iff current_user_token_def current_task_def inner_exclusive_access_def)
qed

lemma task_runs_put:
  assumes "tasks_inv (kern s)" "current (kern s) = Some t" "tcbs (kern s) t = Some tcb" "borrowed (kern s) = {}" "i = (inner tcb)\<lparr>fd_table := fds\<rparr>"
  shows "task_runs (s\<lparr>kern := put_inner t i (kern s)\<rparr>)" "task_files (put_inner t i (kern s)) = fd_lookup fds"
    "files_same s (s\<lparr>kern := put_inner t i (kern s)\<rparr>)"
proof -
  show "task_runs (s\<lparr>kern := put_inner t i (kern s)\<rparr>)" "task_files (put_inner t i (kern s)) = fd_lookup fds"
    using tasks_inv_inner [OF assms(1,3), of i] assms by (auto simp: task_runs_def task_files_def put_inner_def fun_eq_iff)
  show "files_same s (s\<lparr>kern := put_inner t i (kern s)\<rparr>)"
    using assms by (simp add: files_same_def s_mem_def current_user_token_def current_task_def inner_exclusive_access_def put_inner_def get_user_token_def)
qed

lemma files_same_refl: "files_same s s"
  by (simp add: files_same_def)

interpretation kernel_descriptors: descriptor_calls "kernel_calls P cx addr ptr other" "\<lambda>s. task_files (kern s)" task_runs files_same
proof
  fix s :: "'a system" and fd :: usize
  assume runs: "task_runs s"
  then show "\<exists>r s'. call_close (kernel_calls P cx addr ptr other) fd s = Ok (r, s') \<and> task_runs s' \<and> files_same s s'
      \<and> task_files (kern s') = (task_files (kern s))(unat fd := None)"
  proof (rule task_runsE)
    fix t tcb
    assume k: "tasks_inv (kern s)" "current (kern s) = Some t" "tcbs (kern s) t = Some tcb" "borrowed (kern s) = {}"
      "task_files (kern s) = fd_lookup (fd_table (inner tcb))"
    let ?fds = "(fd_table (inner tcb))[unat fd := None]"
    have "fd_lookup ?fds = (task_files (kern s))(unat fd := None)" unfolding k(5) by (auto simp: fd_lookup_def fun_eq_iff)
    moreover note task_runs_put [OF k(1-4) refl, of ?fds] and sys_close_fds [OF k(4,2,3), of fd]
    ultimately show ?thesis using k(5) runs files_same_refl [of s]
      by (cases "fd_lookup (fd_table (inner tcb)) (unat fd) = None") (simp_all add: fun_upd_idem)
  qed
next
  fix s :: "'a system" and fd :: usize and f new
  assume "task_runs s" and f: "task_files (kern s) (unat fd) = Some f" "task_files (kern s) new = None" "\<forall>i < new. task_files (kern s) i \<noteq> None"
  from this(1) show "\<exists>s'. call_dup (kernel_calls P cx addr ptr other) fd s = Ok (of_nat new, s') \<and> task_runs s' \<and> files_same s s'
      \<and> task_files (kern s') = (task_files (kern s))(new \<mapsto> f)"
  proof (rule task_runsE)
    fix t tcb
    assume k: "tasks_inv (kern s)" "current (kern s) = Some t" "tcbs (kern s) t = Some tcb" "borrowed (kern s) = {}"
      "task_files (kern s) = fd_lookup (fd_table (inner tcb))"
    obtain d j where j: "alloc_fd (inner tcb) = (d, j)" by (cases "alloc_fd (inner tcb)")
    note l = alloc_fd_lookup [OF j, folded k(5)]
    have d: "d = new" using l(2,3) f(2,3) by (metis nat_neq_iff)
    let ?fds = "(fd_table j)[new := Some f]"
    have "j\<lparr>fd_table := ?fds\<rparr> = (inner tcb)\<lparr>fd_table := ?fds\<rparr>" by (subst alloc_fd_spec(4) [OF j]) simp
    with task_runs_put [OF k(1-4), of _ ?fds] sys_dup_fds [OF k(4,2,3) j, of fd] f(1) l(1) [of "Some f"]
    show ?thesis by (simp add: d k(5))
  qed
qed (auto simp: files_same_def)

section \<open>Opening\<close>

text \<open>A file that \<^verbatim>\<open>CREATE\<close> opens is new and empty, or emptied.\<close>

definition emptied :: "u8 list \<Rightarrow> fs_model \<Rightarrow> fs_model" where
  "emptied nm M = (if map_of M nm = None then M @ [(nm, [])] else set_file nm [] M)"

context block_device
begin

lemma open_read_refines:
  assumes "fs_refines D N dev_ok e s M"
  shows "\<exists>s'. open_file D e nm READ_ONLY s = Ok (map_option (\<lambda>i. OSInode_new True False (handle e i)) (dir_lookup e (view D N s) nm), s')
    \<and> fs_refines D N dev_ok e s' M \<and> (dir_lookup e (view D N s) nm = None \<longleftrightarrow> map_of M nm = None)"
proof -
  from assms obtain w where w: "efs_at D N dev_ok e s w" "fs_model_of e w = M" "card (data_free N e w) + fs_need M = N - da_start e"
    "card (live_inodes e w) = Suc (length M)" by (rule fs_refinesE)
  have v: "view D N s = w" using efs_atD(1) [OF w(1)] by (simp add: fs_at_def)
  from Inode_find_at [OF w(1), of nm] obtain s1 where
    s1: "Inode_find D e (root_inode e) nm s = Ok (map_option (handle e) (dir_lookup e w nm), s1)" "efs_at D N dev_ok e s1 w" by blast
  have fl: "read_write READ_ONLY = (True, False)" "\<not> flags_contain READ_ONLY CREATE" "\<not> flags_contain READ_ONLY TRUNCATE"
    by (simp_all add: read_write_def flags_contain_def open_flags)
  have "open_file D e nm READ_ONLY s = Ok (map_option (\<lambda>i. OSInode_new True False (handle e i)) (dir_lookup e w nm), s1)"
    using s1(1) by (cases "dir_lookup e w nm") (simp_all add: open_file_def fl)
  moreover have "fs_refines D N dev_ok e s1 M" using s1(2) w(2-4) unfolding fs_refines_def by blast
  moreover have "dir_lookup e w nm = None \<longleftrightarrow> map_of M nm = None" using map_of_model [of e w nm] w(2) by simp
  ultimately show ?thesis unfolding v by (intro exI [of _ s1] conjI)
qed

lemma open_create_refines:
  assumes ref: "fs_refines D N dev_ok e s M" and fits: "op_fits (N - da_start e) (Bitmap_maximum (inode_bitmap e)) (CreateFile nm) M"
  shows "\<exists>i s'. open_file D e nm (CREATE OR WRITE_ONLY) s = Ok (Some (OSInode_new False True (handle e i)), s')
    \<and> dir_lookup e (view D N s') nm = Some i \<and> fs_refines D N dev_ok e s' (emptied nm M)"
proof -
  from ref obtain w where w: "efs_at D N dev_ok e s w" "fs_model_of e w = M" "card (data_free N e w) + fs_need M = N - da_start e"
    "card (live_inodes e w) = Suc (length M)" "distinct (map fst M)" by (rule fs_refinesE)
  from Inode_find_at [OF w(1), of nm] obtain s1 where
    s1: "Inode_find D e (root_inode e) nm s = Ok (map_option (handle e) (dir_lookup e w nm), s1)" "efs_at D N dev_ok e s1 w" by blast
  note w1 = s1(2) w(2-5)
  have fl: "read_write (CREATE OR WRITE_ONLY) = (False, True)" "flags_contain (CREATE OR WRITE_ONLY) CREATE"
    by (simp_all add: read_write_def flags_contain_def open_flags)
  have v: "view D N s' = w'" if "efs_at D N dev_ok e s' w'" for s' w' using efs_atD(1) [OF that] by (simp add: fs_at_def)
  show ?thesis
  proof (cases "dir_lookup e w nm")
    case None
    then have c: "map_of M nm = None" using map_of_model [of e w nm] w(2) by simp
    with fits have "valid_name nm" "Suc (length M) < Bitmap_maximum (inode_bitmap e)" "DIR_ENTRY_SIZE * Suc (length M) \<le> max_file_size"
      "fs_need (M @ [(nm, [])]) \<le> N - da_start e" by simp_all
    from create_handle [OF w1 None this] obtain k s' w' where
      r: "Inode_create D e (root_inode e) nm s1 = Ok (Some (handle e k), s')" "dir_lookup e w' nm = Some k" "efs_at D N dev_ok e s' w'"
        "fs_model_of e w' = M @ [(nm, [])]" "card (live_inodes e w') = Suc (Suc (length M))"
        "card (data_free N e w') + fs_need (M @ [(nm, [])]) = N - da_start e" by blast
    then have "fs_refines D N dev_ok e s' (emptied nm M)" using c by (auto simp: fs_refines_def emptied_def)
    then show ?thesis using r(1,2) s1(1) None fl v [OF r(3)] by (intro exI [of _ k] exI [of _ s']) (simp add: open_file_def)
  next
    case (Some i)
    have c: "map_of M nm = Some (icontent e w i)" using map_of_model [of e w nm] w(2) Some by simp
    from open_clear_at [OF s1(2) Some] obtain s' w' where
      r: "Inode_clear D e (handle e i) s1 = Ok ((), s')" "efs_at D N dev_ok e s' w'" "dir_lookup e w' nm = Some i" by blast
    from run_clear [OF ref, of nm] s1(1) Some c r(1) have "fs_refines D N dev_ok e s' (emptied nm M)" by (simp add: emptied_def)
    then show ?thesis using r(1,3) s1(1) Some fl v [OF r(2)] by (intro exI [of _ i] exI [of _ s']) (simp add: open_file_def)
  qed
qed

end

text \<open>The memory of the program holds the characters of \<open>w\<close> and a NUL at \<open>ptr\<close>.\<close>

definition user_str :: "usize \<Rightarrow> memory \<Rightarrow> usize \<Rightarrow> string \<Rightarrow> bool" where
  "user_str token m ptr w \<longleftrightarrow> (0 :: u8) \<notin> of_char ` set w \<and> (\<forall>i < length w. user_byte token m (ptr + of_nat i) = Some (of_char (w ! i)))
     \<and> user_byte token m (ptr + of_nat (length w)) = Some 0"

definition file_name :: "string \<Rightarrow> u8 list" where
  "file_name w = as_bytes (map of_char w)"

lemma translated_user_str:
  assumes "user_str token m ptr w"
  shows "translated_str token ptr m = Some (Ok (map of_char w))"
  unfolding translated_str_def
  using translated_str_loop_Ok [of "map of_char w" token m ptr "[]"] assms by (auto simp: user_str_def)

text \<open>\<^verbatim>\<open>sys_open\<close> puts the opened file under the lowest free descriptor.\<close>

lemma sys_open_installs:
  assumes runs: "task_runs s" and tok: "current_user_token (kern s) = Ok token" and str: "user_str token (s_mem s) a w"
    and flags: "OpenFlags_from_bits flags = Some flags" and opened: "open_file (dev P) (efs P) (file_name w) flags (fs s) = Ok (r, d)"
    and free: "task_files (kern s) x = None" "x < 2 ^ 63"
  shows "\<exists>fd s1. at_once (sys_open P a flags) s = Ok (fd, s1) \<and> task_runs s1 \<and> fs s1 = d \<and> s_mem s1 = s_mem s
    \<and> current_user_token (kern s1) = Ok token
    \<and> (case r of None \<Rightarrow> fd = - 1 \<and> os_files s1 = os_files s \<and> task_files (kern s1) = task_files (kern s)
       | Some f \<Rightarrow> fd \<noteq> - 1 \<and> os_files s1 = os_files s @ [f] \<and> task_files (kern s) (unat fd) = None
           \<and> task_files (kern s1) = (task_files (kern s))(unat fd \<mapsto> InodeFile (length (os_files s))))"
proof -
  note str' = translated_user_str [OF str]
  show ?thesis
  proof (cases r)
    case None
    have "at_once (sys_open P a flags) s = Ok (- 1, s\<lparr>fs := d\<rparr>)"
      using tok str' flags opened None by (simp add: at_once_def sys_open_def file_name_def)
    with None runs tok show ?thesis by (simp add: task_runs_def s_mem_def)
  next
    case (Some f)
    from runs show ?thesis
    proof (rule task_runsE)
      fix t tcb
      assume k: "tasks_inv (kern s)" "current (kern s) = Some t" "tcbs (kern s) t = Some tcb" "borrowed (kern s) = {}"
        "task_files (kern s) = fd_lookup (fd_table (inner tcb))"
      obtain new j where j: "alloc_fd (inner tcb) = (new, j)" by (cases "alloc_fd (inner tcb)")
      note l = alloc_fd_lookup [OF j, folded k(5)]
      have new: "new \<le> x" using l(3) free(1) by (meson not_le)
      let ?file = "InodeFile (length (os_files s))"
      let ?fds = "(fd_table j)[new := Some ?file]"
      let ?s = "s\<lparr>fs := d, os_files := os_files s @ [f]\<rparr>" and ?i = "j\<lparr>fd_table := ?fds\<rparr>"
      let ?s1 = "?s\<lparr>kern := put_inner t ?i (kern ?s)\<rparr>"
      have i: "?i = (inner tcb)\<lparr>fd_table := ?fds\<rparr>" by (subst alloc_fd_spec(4) [OF j]) simp
      note p = task_runs_put [of ?s t tcb, simplified, OF k(1-4) i]
      have "at_once (sys_open P a flags) s = Ok (of_nat new, ?s1)"
        using tok str' flags opened Some k(2-4) j
        by (simp add: at_once_def sys_open_def file_name_def kcall_def current_task_def with_inner_def inner_exclusive_access_def install_fd_def release_def)
          (simp only: borrowed_idem [OF k(4)])
      moreover have u: "unat (of_nat new :: usize) = new" using new free(2) by (simp add: unat_of_nat)
      moreover have "(of_nat new :: usize) \<noteq> - 1" using u new free(2) by (auto simp: unsigned_minus_1_eq_mask mask_eq_exp_minus_1)
      ultimately show ?thesis using p l(1) [of "Some ?file"] l(2) Some tok
        by (intro exI [of _ "of_nat new"] exI [of _ ?s1]) (simp add: files_same_def s_mem_def)
    qed
  qed
qed

section \<open>Redirections\<close>

lemma redirect_opened:
  assumes "task_runs s" "current_user_token (kern s) = Ok token" "user_str token (s_mem s) (addr (c_str w)) w"
    and "OpenFlags_from_bits flags = Some flags" "open_file (dev P) (efs P) (file_name w) flags (fs s) = Ok (r, d)"
    and "task_files (kern s) x = None" "x < 2 ^ 63" "task_files (kern s) 0 \<noteq> None" "task_files (kern s) 1 \<noteq> None" "unat target = n" "n \<le> 1"
  shows "\<exists>s'. redirect_file (kernel_calls P cx addr ptr other) (c_str w) flags target s = Ok (r \<noteq> None, s') \<and> task_runs s' \<and> fs s' = d
    \<and> s_mem s' = s_mem s \<and> current_user_token (kern s') = Ok token
    \<and> (case r of None \<Rightarrow> os_files s' = os_files s \<and> task_files (kern s') = task_files (kern s)
       | Some f \<Rightarrow> os_files s' = os_files s @ [f]
           \<and> task_files (kern s') = (task_files (kern s))(n \<mapsto> InodeFile (length (os_files s))))"
proof -
  let ?C = "kernel_calls P cx addr ptr other"
  have ne: "c_str w \<noteq> []" by (simp add: c_str_def)
  have le: "unat target \<le> 1" using assms(10,11) by simp
  from sys_open_installs [OF assms(1-7)] obtain fd s1 where
    s1: "at_once (sys_open P (addr (c_str w)) flags) s = Ok (fd, s1)" "task_runs s1" "fs s1 = d" "s_mem s1 = s_mem s"
      "current_user_token (kern s1) = Ok token"
      "case r of None \<Rightarrow> fd = - 1 \<and> os_files s1 = os_files s \<and> task_files (kern s1) = task_files (kern s)
       | Some f \<Rightarrow> fd \<noteq> - 1 \<and> os_files s1 = os_files s @ [f] \<and> task_files (kern s) (unat fd) = None
           \<and> task_files (kern s1) = (task_files (kern s))(unat fd \<mapsto> InodeFile (length (os_files s)))" by blast
  show ?thesis
  proof (cases r)
    case None
    with s1 ne show ?thesis by (intro exI [of _ s1]) (simp add: redirect_file_def)
  next
    case (Some f)
    have o: "call_open ?C (c_str w) flags s = Ok (fd, s1)" using s1(1) by simp
    from s1(6) Some have f: "fd \<noteq> - 1" "os_files s1 = os_files s @ [f]" "task_files (kern s) (unat fd) = None"
      "task_files (kern s1) = (task_files (kern s))(unat fd \<mapsto> InodeFile (length (os_files s)))" by simp_all
    from kernel_descriptors.redirect_law [OF ne o f(1) s1(2) f(4,3) assms(8,9) le, unfolded assms(10)] obtain s' where
      "redirect_file ?C (c_str w) flags target s = Ok (True, s')" "task_runs s'" "files_same s1 s'"
      "task_files (kern s') = (task_files (kern s))(n \<mapsto> InodeFile (length (os_files s)))" by blast
    with s1 f(2) Some show ?thesis by (intro exI [of _ s']) (simp add: files_same_def)
  qed
qed

text \<open>The input of the command: nothing to do, a file that does not exist, or a file opened for reading.\<close>

lemma input_redirected:
  assumes dev: "block_device (dev P) N dev_ok" and ref: "fs_refines (dev P) N dev_ok (efs P) (fs s) M"
    and runs: "task_runs s" "current_user_token (kern s) = Ok token" and std: "task_files (kern s) 0 \<noteq> None" "task_files (kern s) 1 \<noteq> None"
    and free: "task_files (kern s) x = None" "x < 2 ^ 63"
    and str: "\<forall>w \<in> set_option inp. user_str token (s_mem s) (addr (c_str w)) w"
  shows "\<exists>s'. redirect_file (kernel_calls P cx addr ptr other) (c_name inp) READ_ONLY 0 s
      = Ok (\<forall>w. inp = Some w \<longrightarrow> map_of M (file_name w) \<noteq> None, s')
    \<and> task_runs s' \<and> s_mem s' = s_mem s \<and> current_user_token (kern s') = Ok token \<and> fs_refines (dev P) N dev_ok (efs P) (fs s') M
    \<and> (if \<forall>w. inp = Some w \<longrightarrow> map_of M (file_name w) \<noteq> None then
         (case inp of None \<Rightarrow> s' = s
          | Some w \<Rightarrow> \<exists>i. dir_lookup (efs P) (view (dev P) N (fs s)) (file_name w) = Some i
              \<and> os_files s' = os_files s @ [OSInode_new True False (handle (efs P) i)]
              \<and> task_files (kern s') = (task_files (kern s))(0 \<mapsto> InodeFile (length (os_files s))))
       else os_files s' = os_files s \<and> task_files (kern s') = task_files (kern s))"
proof (cases inp)
  case None
  then show ?thesis using runs ref by (simp add: redirect_file_def c_name_def)
next
  case (Some w)
  let ?look = "dir_lookup (efs P) (view (dev P) N (fs s)) (file_name w)"
  obtain d where
    d: "open_file (dev P) (efs P) (file_name w) READ_ONLY (fs s) = Ok (map_option (\<lambda>i. OSInode_new True False (handle (efs P) i)) ?look, d)"
      "fs_refines (dev P) N dev_ok (efs P) d M" "?look = None \<longleftrightarrow> map_of M (file_name w) = None"
    using block_device.open_read_refines [OF dev ref, of "file_name w"] by (elim exE conjE)
  have fl: "OpenFlags_from_bits READ_ONLY = Some READ_ONLY" "unat (0 :: usize) = 0" by (simp_all add: OpenFlags_from_bits_def READ_ONLY_def)
  have "user_str token (s_mem s) (addr (c_str w)) w" using str Some by simp
  from redirect_opened [where addr = addr and target = 0 and cx = cx and ptr = ptr and other = other, OF runs this fl(1) d(1) free std fl(2)] obtain s' where
    "redirect_file (kernel_calls P cx addr ptr other) (c_str w) READ_ONLY 0 s = Ok (?look \<noteq> None, s')" "task_runs s'" "fs s' = d"
    "s_mem s' = s_mem s" "current_user_token (kern s') = Ok token"
    "case map_option (\<lambda>i. OSInode_new True False (handle (efs P) i)) ?look of None \<Rightarrow> os_files s' = os_files s \<and> task_files (kern s') = task_files (kern s)
     | Some f \<Rightarrow> os_files s' = os_files s @ [f] \<and> task_files (kern s') = (task_files (kern s))(0 \<mapsto> InodeFile (length (os_files s)))" by auto
  with d(2,3) Some show ?thesis by (intro exI [of _ s']) (auto simp: c_name_def split: option.splits)
qed

lemma output_redirected:
  assumes dev: "block_device (dev P) N dev_ok" and ref: "fs_refines (dev P) N dev_ok (efs P) (fs s) M"
    and runs: "task_runs s" "current_user_token (kern s) = Ok token" and std: "task_files (kern s) 0 \<noteq> None" "task_files (kern s) 1 \<noteq> None"
    and free: "task_files (kern s) x = None" "x < 2 ^ 63"
    and str: "\<forall>w \<in> set_option out. user_str token (s_mem s) (addr (c_str w)) w
      \<and> op_fits (N - da_start (efs P)) (Bitmap_maximum (inode_bitmap (efs P))) (CreateFile (file_name w)) M"
  shows "\<exists>s'. redirect_file (kernel_calls P cx addr ptr other) (c_name out) (CREATE OR WRITE_ONLY) 1 s = Ok (True, s') \<and> task_runs s'
    \<and> s_mem s' = s_mem s
    \<and> (case out of None \<Rightarrow> s' = s
       | Some w \<Rightarrow> \<exists>i. dir_lookup (efs P) (view (dev P) N (fs s')) (file_name w) = Some i
           \<and> os_files s' = os_files s @ [OSInode_new False True (handle (efs P) i)]
           \<and> task_files (kern s') = (task_files (kern s))(1 \<mapsto> InodeFile (length (os_files s)))
           \<and> fs_refines (dev P) N dev_ok (efs P) (fs s') (emptied (file_name w) M))"
proof (cases out)
  case None
  then show ?thesis using runs by (simp add: redirect_file_def c_name_def)
next
  case (Some w)
  from str Some have w: "user_str token (s_mem s) (addr (c_str w)) w"
    "op_fits (N - da_start (efs P)) (Bitmap_maximum (inode_bitmap (efs P))) (CreateFile (file_name w)) M" by simp_all
  from block_device.open_create_refines [OF dev ref w(2)] obtain i d where
    d: "open_file (dev P) (efs P) (file_name w) (CREATE OR WRITE_ONLY) (fs s) = Ok (Some (OSInode_new False True (handle (efs P) i)), d)"
      "dir_lookup (efs P) (view (dev P) N d) (file_name w) = Some i" "fs_refines (dev P) N dev_ok (efs P) d (emptied (file_name w) M)" by blast
  have fl: "OpenFlags_from_bits (CREATE OR WRITE_ONLY) = Some (CREATE OR WRITE_ONLY)" "unat (1 :: usize) = 1"
    by (simp_all add: OpenFlags_from_bits_def open_flags)
  from redirect_opened [where addr = addr and target = 1 and cx = cx and ptr = ptr and other = other, OF runs w(1) fl(1) d(1) free std fl(2)] obtain s' where
    "redirect_file (kernel_calls P cx addr ptr other) (c_str w) (CREATE OR WRITE_ONLY) 1 s = Ok (True, s')" "task_runs s'" "fs s' = d"
    "s_mem s' = s_mem s" "os_files s' = os_files s @ [OSInode_new False True (handle (efs P) i)]"
    "task_files (kern s') = (task_files (kern s))(1 \<mapsto> InodeFile (length (os_files s)))" by auto
  with d(2,3) Some show ?thesis by (intro exI [of _ s']) (simp add: c_name_def)
qed

section \<open>Properties\<close>

text \<open>A line with a \<^verbatim>\<open>|\<close> ends in the kernel's panic, before a child is started.\<close>

lemma pipeline_panics:
  assumes "tasks_inv (kern s)" "current (kern s) = Some t" "new_all (split_on (CHR ''|'') line) = Ok commands" "1 < length commands" "commands_valid commands"
  shows "run_line (kernel_calls P cx addr ptr other) line s = Some (Panic AlreadyBorrowed)"
proof -
  have "at_once (sys_pipe ptr) s = Panic AlreadyBorrowed" using sys_pipe_panics [OF assms(1,2), of ptr] by (simp add: at_once_def)
  moreover obtain n where "length commands - 1 = Suc n" using assms(4) by (cases "length commands - 1") auto
  ultimately show ?thesis using assms(3,5) by (simp add: run_line_def)
qed

text \<open>A line with one command has no pipes.\<close>

lemma child_files_one:
  "child_files C 0 (Suc 0) cmd [] w =
     and_then (redirect_file C (pa_input cmd) READ_ONLY 0 w) (\<lambda>(opened, w).
     if \<not> opened then Ok (False, w) else redirect_file C (pa_output cmd) (CREATE OR WRITE_ONLY) 1 w)"
proof (cases "redirect_file C (pa_input cmd) READ_ONLY 0 w")
  case (Ok r)
  then obtain opened w1 where "redirect_file C (pa_input cmd) READ_ONLY 0 w = Ok (opened, w1)" by (cases r) simp
  then show ?thesis
    by (cases opened; cases "redirect_file C (pa_output cmd) (CREATE OR WRITE_ONLY) 1 w1") (auto simp: child_files_def split: if_splits)
qed (simp add: child_files_def)

lemma child_refused:
  assumes dev: "block_device (dev P) N dev_ok" and ref: "fs_refines (dev P) N dev_ok (efs P) (fs s) M"
    and runs: "task_runs s" "current_user_token (kern s) = Ok token"
    and std: "task_files (kern s) 0 \<noteq> None" "task_files (kern s) 1 \<noteq> None" and free: "task_files (kern s) x = None" "x < 2 ^ 63"
    and cmd: "pa_input cmd = c_name inp" "pa_output cmd = c_name out"
    and str: "\<forall>w \<in> set_option inp \<union> set_option out. user_str token (s_mem s) (addr (c_str w)) w"
    and no: "inp = Some w" "map_of M (file_name w) = None"
  shows "\<exists>s'. child_files (kernel_calls P cx addr ptr other) 0 1 cmd [] s = Ok (False, s') \<and> task_files (kern s') = task_files (kern s)
    \<and> os_files s' = os_files s \<and> s_mem s' = s_mem s \<and> fs_refines (dev P) N dev_ok (efs P) (fs s') M"
proof -
  have "\<forall>w \<in> set_option inp. user_str token (s_mem s) (addr (c_str w)) w" using str by blast
  note i = input_redirected [OF dev ref runs std free this, of cx ptr other]
  have "\<not> (\<forall>w. inp = Some w \<longrightarrow> map_of M (file_name w) \<noteq> None)" using no by blast
  from i [unfolded if_not_P [OF this] eq_False [THEN iffD2, OF this]] show ?thesis
    by (elim exE conjE, intro exI conjI) (simp_all add: child_files_one cmd)
qed

lemma child_redirected:
  assumes dev: "block_device (dev P) N dev_ok" and ref: "fs_refines (dev P) N dev_ok (efs P) (fs s) M"
    and runs: "task_runs s" "current_user_token (kern s) = Ok token"
    and std: "task_files (kern s) 0 \<noteq> None" "task_files (kern s) 1 \<noteq> None" and free: "task_files (kern s) x = None" "x < 2 ^ 63"
    and cmd: "pa_input cmd = c_name inp" "pa_output cmd = c_name out"
    and str: "\<forall>w \<in> set_option inp \<union> set_option out. user_str token (s_mem s) (addr (c_str w)) w"
    and ok: "\<forall>w. inp = Some w \<longrightarrow> map_of M (file_name w) \<noteq> None"
    and fits: "\<forall>w \<in> set_option out. op_fits (N - da_start (efs P)) (Bitmap_maximum (inode_bitmap (efs P))) (CreateFile (file_name w)) M"
  shows "\<exists>s' new. child_files (kernel_calls P cx addr ptr other) 0 1 cmd [] s = Ok (True, s') \<and> tasks_inv (kern s') \<and> s_mem s' = s_mem s
    \<and> os_files s' = os_files s @ new
        \<and> (\<forall>d > 1. task_files (kern s') d = task_files (kern s) d)
        \<and> (case inp of None \<Rightarrow> task_files (kern s') 0 = task_files (kern s) 0
           | Some w \<Rightarrow> \<exists>a i. task_files (kern s') 0 = Some (InodeFile a) \<and> a < length (os_files s')
               \<and> os_files s' ! a = \<lparr>readable = True, writable = False, os_offset = 0, os_inode = handle (efs P) i\<rparr>
               \<and> dir_lookup (efs P) (view (dev P) N (fs s)) (file_name w) = Some i)
        \<and> (case out of None \<Rightarrow> task_files (kern s') 1 = task_files (kern s) 1
           | Some w \<Rightarrow> \<exists>a i. task_files (kern s') 1 = Some (InodeFile a) \<and> a < length (os_files s')
               \<and> os_files s' ! a = \<lparr>readable = False, writable = True, os_offset = 0, os_inode = handle (efs P) i\<rparr>
               \<and> dir_lookup (efs P) (view (dev P) N (fs s')) (file_name w) = Some i)
        \<and> fs_refines (dev P) N dev_ok (efs P) (fs s') (case out of None \<Rightarrow> M | Some w \<Rightarrow> emptied (file_name w) M)"
proof -
  let ?C = "kernel_calls P cx addr ptr other"
  have "\<forall>w \<in> set_option inp. user_str token (s_mem s) (addr (c_str w)) w" using str by blast
  note i = input_redirected [OF dev ref runs std free this, of cx ptr other]
  obtain s1 new1 where
    s1: "redirect_file ?C (c_name inp) READ_ONLY 0 s = Ok (True, s1)" "task_runs s1" "s_mem s1 = s_mem s" "current_user_token (kern s1) = Ok token"
      "fs_refines (dev P) N dev_ok (efs P) (fs s1) M" "os_files s1 = os_files s @ new1" "\<forall>d > 0. task_files (kern s1) d = task_files (kern s) d"
    and in1: "case inp of None \<Rightarrow> task_files (kern s1) 0 = task_files (kern s) 0
      | Some w \<Rightarrow> \<exists>a i. task_files (kern s1) 0 = Some (InodeFile a) \<and> a < length (os_files s1) \<and> os_files s1 ! a = OSInode_new True False (handle (efs P) i)
          \<and> dir_lookup (efs P) (view (dev P) N (fs s)) (file_name w) = Some i"
  proof (cases inp)
    case None
    with i ok that [of s "[]"] ref runs show thesis by (auto simp: redirect_file_def c_name_def)
  next
    case (Some w)
    with i ok that [where ?new1.0 = "[OSInode_new True False (handle (efs P) j)]" for j] show thesis by (auto simp: nth_append)
  qed
  have std1: "task_files (kern s1) 0 \<noteq> None" "task_files (kern s1) 1 \<noteq> None" using std s1(7) in1 by (auto split: option.splits)
  have x: "task_files (kern s1) x = None" using std(1) free(1) s1(7) by (cases "x = 0") auto
  have "\<forall>w \<in> set_option out. user_str token (s_mem s1) (addr (c_str w)) w
      \<and> op_fits (N - da_start (efs P)) (Bitmap_maximum (inode_bitmap (efs P))) (CreateFile (file_name w)) M" using str fits s1(3) by auto
  from output_redirected [OF dev s1(5,2,4) std1 x free(2) this, of cx ptr other] obtain s2 where
    s2: "redirect_file ?C (c_name out) (CREATE OR WRITE_ONLY) 1 s1 = Ok (True, s2)" "task_runs s2" "s_mem s2 = s_mem s1"
      "case out of None \<Rightarrow> s2 = s1
       | Some w \<Rightarrow> \<exists>i. dir_lookup (efs P) (view (dev P) N (fs s2)) (file_name w) = Some i
           \<and> os_files s2 = os_files s1 @ [OSInode_new False True (handle (efs P) i)]
           \<and> task_files (kern s2) = (task_files (kern s1))(1 \<mapsto> InodeFile (length (os_files s1)))
           \<and> fs_refines (dev P) N dev_ok (efs P) (fs s2) (emptied (file_name w) M)" by (elim exE conjE)
  have child: "child_files ?C 0 1 cmd [] s = Ok (True, s2)" using s1(1) s2(1) by (simp add: child_files_one cmd)
  have inv: "tasks_inv (kern s2)" using s2(2) by (simp add: task_runs_def)
  show ?thesis
  proof (cases out)
    case None
    with s2(4) have "s2 = s1" by simp
    with child inv s1(3,5-7) in1 [unfolded OSInode_new_def] None show ?thesis by (intro exI [of _ s1] exI [of _ new1]) simp
  next
    case (Some w)
    with s2(4) obtain i where o: "dir_lookup (efs P) (view (dev P) N (fs s2)) (file_name w) = Some i"
      "os_files s2 = os_files s1 @ [OSInode_new False True (handle (efs P) i)]"
      "task_files (kern s2) = (task_files (kern s1))(1 \<mapsto> InodeFile (length (os_files s1)))"
      "fs_refines (dev P) N dev_ok (efs P) (fs s2) (emptied (file_name w) M)" by auto
    have "case inp of None \<Rightarrow> task_files (kern s2) 0 = task_files (kern s) 0
      | Some w \<Rightarrow> \<exists>a i. task_files (kern s2) 0 = Some (InodeFile a) \<and> a < length (os_files s2) \<and> os_files s2 ! a = OSInode_new True False (handle (efs P) i)
          \<and> dir_lookup (efs P) (view (dev P) N (fs s)) (file_name w) = Some i"
      using in1 by (cases inp) (auto simp: o(2,3) nth_append)
    from this [unfolded OSInode_new_def] child inv s1(3,6,7) s2(3) o Some show ?thesis
      by (intro exI [of _ s2] exI [of _ "new1 @ [OSInode_new False True (handle (efs P) i)]"]) (simp add: OSInode_new_def)
  qed
qed

text \<open>
  C21. The files of a command that the shell starts. Let the standard streams of the child be open and
  a descriptor free, let its memory hold the file names of the command, and let a new output
  file fit into the file system. A line with one command: when the input file does not exist, the child gives up
  without a change; otherwise, no assertion fails, descriptor 0 is the input file opened for reading and
  descriptor 1 the output file opened for writing, both at offset 0 (a stream that is not
  redirected stays as it was), the calls change no other descriptor, no open file and no memory, and the file
  system is unchanged but for the output file, which is now empty. A valid line with more than one command
  never gets that far: the kernel panics when the shell asks for the first pipe.
\<close>

theorem shell_redirections:
  assumes "block_device (dev P) N dev_ok" "fs_refines (dev P) N dev_ok (efs P) (fs s) M"
    and "tasks_inv (kern s)" "current (kern s) = Some t" "current_user_token (kern s) = Ok token"
    and "task_files (kern s) 0 \<noteq> None" "task_files (kern s) 1 \<noteq> None" "task_files (kern s) x = None" "x < 2 ^ 63"
    and "pa_input cmd = c_name inp" "pa_output cmd = c_name out"
    and "\<forall>w \<in> set_option inp \<union> set_option out. user_str token (s_mem s) (addr (c_str w)) w"
    and "\<forall>w \<in> set_option out. op_fits (N - da_start (efs P)) (Bitmap_maximum (inode_bitmap (efs P))) (CreateFile (file_name w)) M"
    and "C = kernel_calls P cx addr ptr other"
  shows "(if \<exists>w. inp = Some w \<and> map_of M (file_name w) = None then
      (\<exists>s'. child_files C 0 1 cmd [] s = Ok (False, s') \<and> task_files (kern s') = task_files (kern s) \<and> os_files s' = os_files s
        \<and> s_mem s' = s_mem s \<and> fs_refines (dev P) N dev_ok (efs P) (fs s') M)
    else
      (\<exists>s' new. child_files C 0 1 cmd [] s = Ok (True, s') \<and> tasks_inv (kern s') \<and> s_mem s' = s_mem s \<and> os_files s' = os_files s @ new
        \<and> (\<forall>d > 1. task_files (kern s') d = task_files (kern s) d)
        \<and> (case inp of None \<Rightarrow> task_files (kern s') 0 = task_files (kern s) 0
           | Some w \<Rightarrow> \<exists>a i. task_files (kern s') 0 = Some (InodeFile a) \<and> a < length (os_files s')
               \<and> os_files s' ! a = \<lparr>readable = True, writable = False, os_offset = 0, os_inode = handle (efs P) i\<rparr>
               \<and> dir_lookup (efs P) (view (dev P) N (fs s)) (file_name w) = Some i)
        \<and> (case out of None \<Rightarrow> task_files (kern s') 1 = task_files (kern s) 1
           | Some w \<Rightarrow> \<exists>a i. task_files (kern s') 1 = Some (InodeFile a) \<and> a < length (os_files s')
               \<and> os_files s' ! a = \<lparr>readable = False, writable = True, os_offset = 0, os_inode = handle (efs P) i\<rparr>
               \<and> dir_lookup (efs P) (view (dev P) N (fs s')) (file_name w) = Some i)
        \<and> fs_refines (dev P) N dev_ok (efs P) (fs s') (case out of None \<Rightarrow> M | Some w \<Rightarrow> emptied (file_name w) M)))
    \<and> (\<forall>line commands. new_all (split_on (CHR ''|'') line) = Ok commands \<longrightarrow> 1 < length commands \<longrightarrow> commands_valid commands \<longrightarrow>
        run_line C line s = Some (Panic AlreadyBorrowed))"
proof (intro conjI allI impI)
  have runs: "task_runs s" using assms(3,4) by (simp add: task_runs_def)
  note hyps = assms(1,2) runs assms(5-12)
  show "if \<exists>w. inp = Some w \<and> map_of M (file_name w) = None then
      (\<exists>s'. child_files C 0 1 cmd [] s = Ok (False, s') \<and> task_files (kern s') = task_files (kern s) \<and> os_files s' = os_files s
        \<and> s_mem s' = s_mem s \<and> fs_refines (dev P) N dev_ok (efs P) (fs s') M)
    else
      (\<exists>s' new. child_files C 0 1 cmd [] s = Ok (True, s') \<and> tasks_inv (kern s') \<and> s_mem s' = s_mem s \<and> os_files s' = os_files s @ new
        \<and> (\<forall>d > 1. task_files (kern s') d = task_files (kern s) d)
        \<and> (case inp of None \<Rightarrow> task_files (kern s') 0 = task_files (kern s) 0
           | Some w \<Rightarrow> \<exists>a i. task_files (kern s') 0 = Some (InodeFile a) \<and> a < length (os_files s')
               \<and> os_files s' ! a = \<lparr>readable = True, writable = False, os_offset = 0, os_inode = handle (efs P) i\<rparr>
               \<and> dir_lookup (efs P) (view (dev P) N (fs s)) (file_name w) = Some i)
        \<and> (case out of None \<Rightarrow> task_files (kern s') 1 = task_files (kern s) 1
           | Some w \<Rightarrow> \<exists>a i. task_files (kern s') 1 = Some (InodeFile a) \<and> a < length (os_files s')
               \<and> os_files s' ! a = \<lparr>readable = False, writable = True, os_offset = 0, os_inode = handle (efs P) i\<rparr>
               \<and> dir_lookup (efs P) (view (dev P) N (fs s')) (file_name w) = Some i)
        \<and> fs_refines (dev P) N dev_ok (efs P) (fs s') (case out of None \<Rightarrow> M | Some w \<Rightarrow> emptied (file_name w) M))"
  proof (cases "\<exists>w. inp = Some w \<and> map_of M (file_name w) = None")
    case True
    then obtain w where "inp = Some w" "map_of M (file_name w) = None" by blast
    from child_refused [OF hyps this, of cx ptr other] show ?thesis unfolding if_P [OF True] assms(14) .
  next
    case False
    then have "\<forall>w. inp = Some w \<longrightarrow> map_of M (file_name w) \<noteq> None" by simp
    from child_redirected [OF hyps this assms(13), of cx ptr other] show ?thesis unfolding if_not_P [OF False] assms(14) .
  qed
  fix line commands
  assume "new_all (split_on (CHR ''|'') line) = Ok commands" "1 < length commands" "commands_valid commands"
  then show "run_line C line s = Some (Panic AlreadyBorrowed)" unfolding assms(14) by (rule pipeline_panics [OF assms(3,4)])
qed

section \<open>A witness\<close>

text \<open>The file system holds the file \<^verbatim>\<open>\a\<close> with two bytes.\<close>

lemma fs_bell_example:
  obtains e d where "fs_refines BlockFile 1100 ok_1100 e d [([7], [1, 2])]" "1100 - da_start e = 73" "Bitmap_maximum (inode_bitmap e) = 4096"
proof -
  from fs_example obtain e s where e: "fs_refines BlockFile 1100 ok_1100 e s []" "1100 - da_start e = 73" "Bitmap_maximum (inode_bitmap e) = 4096" by blast
  let ?ops = "[CreateFile [7], WriteFile [7] 0 [1, 2]]"
  have "ops_fit (1100 - da_start e) (Bitmap_maximum (inode_bitmap e)) ?ops []" unfolding e(2,3)
    by (simp add: valid_name_def NAME_LENGTH_LIMIT_def max_file_size_eq fs_need_def DIR_ENTRY_SIZE_def blocks_for_def index_count_def set_file_def file_write_def splice_def)
  from block_device.run_ops_refines [OF disk_example_ok(1) e(1) this] obtain s' where
    "fs_refines BlockFile 1100 ok_1100 e s' (snd (spec_ops ?ops []))" by blast
  then have "fs_refines BlockFile 1100 ok_1100 e s' [([7], [1, 2])]" by (simp add: set_file_def file_write_def splice_def)
  with e(2,3) that show thesis by blast
qed

text \<open>Page 5 of the task holds the bytes 7, 7, 0 at \<open>0x100\<close>: two strings, one inside the other.\<close>

definition addr_example :: "string \<Rightarrow> usize" where
  "addr_example str = (if str = c_str [CHR 0x07] then 0x5101 else 0x5100)"

lemma user_str_example:
  assumes m: "PageTable_map pt_example (VirtPageNum 5) (PhysPageNum 0x80500) (PTE_R OR PTE_U) mm_example1 = Ok (pt, mm)"
    and w: "w \<in> {[CHR 0x07], [CHR 0x07, CHR 0x07]}"
  shows "user_str (PageTable_token pt) (mem mm) (addr_example (c_str w)) w"
proof -
  have ub: "user_byte (PageTable_token pt) (mem mm) (of_nat a) = Some (mem mm_example (0x80500000 + a mod 4096))"
    if "0x5000 \<le> a" "a < 0x6000" for a
    using map_example_paddr [OF m _ that] map_example_mem [OF m, of "0x80500000 + a mod 4096"]
    by (auto simp: va_paddr_def user_byte_def div_nat_eqI)
  have "user_byte (PageTable_token pt) (mem mm) 0x5100 = Some 7" "user_byte (PageTable_token pt) (mem mm) 0x5101 = Some 7"
    "user_byte (PageTable_token pt) (mem mm) 0x5102 = Some 0"
    using ub [of "0x5100"] ub [of "0x5101"] ub [of "0x5102"] by (simp_all add: mm_example_def)
  with w show ?thesis by (auto simp: user_str_def addr_example_def c_str_def NUL_def less_Suc_eq)
qed

definition inner_shell :: "PageTable \<Rightarrow> TaskControlBlockInner" where
  "inner_shell pt = (inner (tcb_example 1 Running [2]))
     \<lparr>fd_table := [Some StdinFile, Some StdoutFile, Some StdoutFile], memory_set := \<lparr>page_table = pt, areas = []\<rparr>\<rparr>"

definition s_shell :: "PageTable \<Rightarrow> mm_state \<Rightarrow> u8 list bc_state \<Rightarrow> u8 list system" where
  "s_shell pt mm d = (s_example ((put_inner 1 (inner_shell pt) k_example)\<lparr>k_mm := mm\<rparr>))\<lparr>fs := d\<rparr>"

lemma s_shell_ok:
  "tasks_inv (kern (s_shell pt mm d))" "current (kern (s_shell pt mm d)) = Some 1" "s_mem (s_shell pt mm d) = mem mm" "fs (s_shell pt mm d) = d"
  "task_files (kern (s_shell pt mm d)) = fd_lookup [Some StdinFile, Some StdoutFile, Some StdoutFile]"
  "current_user_token (kern (s_shell pt mm d)) = Ok (PageTable_token pt)"
proof -
  let ?k = "put_inner 1 (inner_shell pt) k_example"
  have t: "tasks_inv ?k" "current ?k = Some 1" "borrowed ?k = {}" "tcbs ?k 1 = Some ((tcb_example 1 Running [2])\<lparr>inner := inner_shell pt\<rparr>)"
    using tasks_inv_inner [OF tasks_inv_example current_example(2), of "inner_shell pt"] current_example tasks_inv_example
    by (simp_all add: inner_shell_def put_inner_def tasks_inv_def)
  have "tasks_inv (?k\<lparr>k_mm := mm\<rparr>) = tasks_inv ?k"
    unfolding tasks_inv_def by (simp add: queue_ok_def pids_ok_def family_ok_def)
  with t show "tasks_inv (kern (s_shell pt mm d))" "current (kern (s_shell pt mm d)) = Some 1" "s_mem (s_shell pt mm d) = mem mm" "fs (s_shell pt mm d) = d"
    "task_files (kern (s_shell pt mm d)) = fd_lookup [Some StdinFile, Some StdoutFile, Some StdoutFile]"
    "current_user_token (kern (s_shell pt mm d)) = Ok (PageTable_token pt)"
    by (simp_all add: s_shell_def s_mem_def task_files_def fun_eq_iff current_user_token_def current_task_def inner_exclusive_access_def
        inner_shell_def get_user_token_def MemorySet_token_def)
qed

definition other_calls :: "'w user_calls" where
  "other_calls =
     \<lparr>call_open = (\<lambda>_ _ w. Ok (- 1, w)), call_close = (\<lambda>_ w. Ok (- 1, w)), call_dup = (\<lambda>_ w. Ok (- 1, w)), call_pipe = (\<lambda>w. Ok ((0, 0), w)),
      call_fork = (\<lambda>w. Ok (1, w)), call_exec = (\<lambda>_ _ w. Ok (None, w)), call_waitpid = (\<lambda>_ w. Ok (- 1, w)), call_yield = Ok,
      call_get_time = (\<lambda>w. Ok (0, w))\<rparr>"

text \<open>\<^verbatim>\<open>cat < \a > \a\a\<close>, and a pipeline of two commands.\<close>

theorem shell_redirections_witness:
  "\<exists>P s C s' a b. child_files C 0 1 (command_example (c_str [CHR 0x07]) (c_str [CHR 0x07, CHR 0x07])) [] s = Ok (True, s')
    \<and> C = kernel_calls P zero_init addr_example 0 other_calls
    \<and> task_files (kern s') 0 = Some (InodeFile a) \<and> readable (os_files s' ! a) \<and> \<not> writable (os_files s' ! a)
    \<and> task_files (kern s') 1 = Some (InodeFile b) \<and> writable (os_files s' ! b) \<and> \<not> readable (os_files s' ! b)
    \<and> task_files (kern s') 2 = Some StdoutFile
    \<and> fs_refines BlockFile 1100 ok_1100 (efs P) (fs s') [([7], [1, 2]), ([7, 7], [])]
    \<and> run_line C ''ls|cat'' s = Some (Panic AlreadyBorrowed)"
proof -
  obtain e d where e: "fs_refines BlockFile 1100 ok_1100 e d [([7], [1, 2])]" "1100 - da_start e = 73" "Bitmap_maximum (inode_bitmap e) = 4096"
    by (rule fs_bell_example)
  obtain pt mm where m: "PageTable_map pt_example (VirtPageNum 5) (PhysPageNum 0x80500) (PTE_R OR PTE_U) mm_example1 = Ok (pt, mm)"
    by (rule map_example)
  let ?P = "platform_example\<lparr>efs := e\<rparr>" and ?s = "s_shell pt mm d" and ?M = "[([7], [1, 2])] :: fs_model"
  let ?C = "kernel_calls ?P zero_init addr_example 0 other_calls"
  let ?w1 = "[CHR 0x07]" and ?w2 = "[CHR 0x07, CHR 0x07]"
  let ?cmd = "command_example (c_str ?w1) (c_str ?w2)"
  note k = s_shell_ok [of pt mm d]
  have names: "file_name ?w1 = [7]" "file_name ?w2 = [7, 7]" by (simp_all add: file_name_def as_bytes_def char_bytes_def)
  have P: "dev ?P = BlockFile" "efs ?P = e" by (simp_all add: platform_example_def)
  have dev: "block_device (dev ?P) 1100 ok_1100" using disk_example_ok(1) by (simp add: P)
  have ref: "fs_refines (dev ?P) 1100 ok_1100 (efs ?P) (fs ?s) ?M" using e(1) k(4) by (simp add: P)
  have fds: "task_files (kern ?s) 0 \<noteq> None" "task_files (kern ?s) 1 \<noteq> None" "task_files (kern ?s) 3 = None" "(3 :: nat) < 2 ^ 63"
    unfolding k(5) by (simp_all add: fd_lookup_def)
  have cmd: "pa_input ?cmd = c_name (Some ?w1)" "pa_output ?cmd = c_name (Some ?w2)" by (simp_all add: command_example_def c_name_def)
  have str: "\<forall>w \<in> set_option (Some ?w1) \<union> set_option (Some ?w2). user_str (PageTable_token pt) (s_mem ?s) (addr_example (c_str w)) w"
    using user_str_example [OF m] unfolding k(3) by simp
  have fits: "\<forall>w \<in> set_option (Some ?w2). op_fits (1100 - da_start (efs ?P)) (Bitmap_maximum (inode_bitmap (efs ?P))) (CreateFile (file_name w)) ?M"
    unfolding P names e(2,3) option.set ball_simps
    by (simp add: names e(2,3) valid_name_def NAME_LENGTH_LIMIT_def max_file_size_eq fs_need_def DIR_ENTRY_SIZE_def blocks_for_def index_count_def)
  note main = shell_redirections [OF dev ref k(1,2,6) fds cmd str fits refl, of zero_init 0 other_calls]
  have no: "\<not> (\<exists>w. Some ?w1 = Some w \<and> map_of ?M (file_name w) = None)" by (simp add: names)
  obtain s' a b i j where s': "child_files ?C 0 1 ?cmd [] ?s = Ok (True, s')" "\<forall>d > 1. task_files (kern s') d = task_files (kern ?s) d"
      "task_files (kern s') 0 = Some (InodeFile a)"
      "os_files s' ! a = \<lparr>readable = True, writable = False, os_offset = 0, os_inode = handle (efs ?P) i\<rparr>"
      "task_files (kern s') 1 = Some (InodeFile b)"
      "os_files s' ! b = \<lparr>readable = False, writable = True, os_offset = 0, os_inode = handle (efs ?P) j\<rparr>"
      "fs_refines (dev ?P) 1100 ok_1100 (efs ?P) (fs s') (emptied (file_name ?w2) ?M)"
    using main [unfolded if_not_P [OF no] option.case, THEN conjunct1] by (elim exE conjE)
  have "new_all (split_on (CHR ''|'') ''ls|cat'') = Ok [\<lparr>pa_input = [], pa_output = [], args_copy = [c_str ''ls''], args_addr = [Some (c_str ''ls''), None]\<rparr>,
      \<lparr>pa_input = [], pa_output = [], args_copy = [c_str ''cat''], args_addr = [Some (c_str ''cat''), None]\<rparr>]"
    by (simp add: ProcessArguments_new_def take_redirection_def c_str_def NUL_def)
  then have pipe: "run_line ?C ''ls|cat'' ?s = Some (Panic AlreadyBorrowed)"
    by (rule main [THEN conjunct2, rule_format]) (simp_all add: commands_valid_def clears_valid_def upt_rec)
  have two: "task_files (kern s') 2 = Some StdoutFile" using s'(2) k(5) by (simp add: fd_lookup_def)
  have model: "fs_refines BlockFile 1100 ok_1100 (efs ?P) (fs s') [([7], [1, 2]), ([7, 7], [])]"
    using s'(7) by (simp add: P names emptied_def)
  have "readable (os_files s' ! a)" "\<not> writable (os_files s' ! a)" "writable (os_files s' ! b)" "\<not> readable (os_files s' ! b)"
    unfolding s'(4,6) by simp_all
  with s'(1,3,5) two model pipe show ?thesis
    by (intro exI [of _ ?P] exI [of _ ?s] exI [of _ ?C] exI [of _ s'] exI [of _ a] exI [of _ b] conjI refl)
qed

end
