(* ===== verification/Signal_Return.thy ===== *)
theory Signal_Return
  imports User_Calls
begin

text \<open>
  The whole way of a signal that a user handler takes: the check at the end of a trap (\<^verbatim>\<open>task/signal.rs\<close>),
  the return to the handler, the \<^verbatim>\<open>sigreturn\<close> of the user library, its system call, and the rest of
  \<^verbatim>\<open>trap_handler\<close> (\<^verbatim>\<open>trap/mod.rs\<close>), which stores the result of the call in the context that has just been put back.
\<close>

section \<open>The current task\<close>

text \<open>The task \<open>t\<close> is on the processor with inner part \<open>i\<close>, which nobody has borrowed.\<close>

definition on_cpu :: "kernel \<Rightarrow> nat \<Rightarrow> TaskControlBlockInner \<Rightarrow> bool" where
  "on_cpu k t i \<longleftrightarrow> current k = Some t \<and> borrowed k = {} \<and> map_option inner (tcbs k t) = Some i"

text \<open>Its trap context.\<close>

definition cpu_cx :: "kernel \<Rightarrow> TaskControlBlockInner \<Rightarrow> TrapContext" where
  "cpu_cx k i = get_trap_cx i (mem (k_mm k))"

lemma on_cpu_tcb:
  assumes "on_cpu k t i"
  obtains tcb where "tcbs k t = Some tcb" "inner tcb = i" "current k = Some t" "borrowed k = {}"
  using assms by (auto simp: on_cpu_def)

lemma on_cpu_update:
  assumes "on_cpu k t i"
  shows "on_cpu (set_mem m k) t i" "on_cpu (put_inner t j k) t j"
  using assms by (auto simp: on_cpu_def set_mem_def put_inner_def)

lemma cpu_cx_load: "cpu_cx k i = load_trap_cx (mem (k_mm k)) (trap_cx_ppn i)"
  by (simp add: cpu_cx_def get_trap_cx_def)

lemma current_trap_cx_cpu: "on_cpu k t i \<Longrightarrow> current_trap_cx k = Ok (trap_cx_ppn i)"
  by (auto elim!: on_cpu_tcb simp: current_trap_cx_def current_task_def inner_exclusive_access_def)

text \<open>A borrow that changes the inner part and the memory.\<close>

lemma with_inner_mem:
  assumes "on_cpu k t i" "f i (k\<lparr>borrowed := {t}\<rparr>) = Ok (r, j, set_mem m (k\<lparr>borrowed := {t}\<rparr>))"
  shows "with_inner t f k = Ok (r, set_mem m (put_inner t j k))"
proof -
  from assms(1) obtain tcb where tcb: "tcbs k t = Some tcb" "inner tcb = i" "borrowed k = {}" by (rule on_cpu_tcb)
  have "release t j (set_mem m (k\<lparr>borrowed := {t}\<rparr>)) = set_mem m (put_inner t j k)"
    using tcb(3) by (simp add: release_def put_inner_def set_mem_def)
  with tcb assms(2) show ?thesis by (simp add: with_inner_def inner_exclusive_access_def)
qed

lemma check_pending_cpu:
  assumes "on_cpu k t i" "check_pending_signals (i, mem (k_mm k)) = Ok (j, m)"
  shows "check_pending_current k = Ok (set_mem m (put_inner t j k))"
proof -
  have "with_inner t (\<lambda>i k. and_then (check_pending_signals (i, mem (k_mm k))) (\<lambda>(i, m). Ok ((), i, set_mem m k))) k = Ok ((), set_mem m (put_inner t j k))"
    by (rule with_inner_mem [OF assms(1)]) (simp add: assms(2))
  with assms(1) show ?thesis by (simp add: check_pending_current_def current_task_def on_cpu_def)
qed

text \<open>A task that is not frozen and has no fatal signal goes back to the user.\<close>

lemma signal_turn_leaves:
  assumes "on_cpu (kern s) t i" "\<not> frozen i" "check_error (signals i) = None" "frames s t = Some SignalLoop"
  shows "task_turn P cx cause t s = Some (Ok (s\<lparr>frames := (frames s)(t := None)\<rparr>))"
proof -
  from assms(1) obtain tcb where tcb: "tcbs (kern s) t = Some tcb" "inner tcb = i" "current (kern s) = Some t" "borrowed (kern s) = {}"
    by (rule on_cpu_tcb)
  have "handle_signals_current cx (kern s) = Ok (LeaveLoop, kern s)"
    using tcb assms(2) by (simp add: handle_signals_current_def current_task_def inner_exclusive_access_def)
  moreover have "trap_leave (kern s) = Ok (Some (get_user_token i), kern s)"
    using tcb assms(3)
    by (simp add: trap_leave_def check_signals_error_of_current_def current_user_token_def current_task_def inner_exclusive_access_def)
  ultimately show ?thesis using assms(4) by (simp add: task_turn_def signal_turn_def)
qed

section \<open>Delivery\<close>

text \<open>The control block of a task whose handler for \<open>sig\<close> is about to run, and its trap context.\<close>

definition delivered :: "nat \<Rightarrow> TrapContext \<Rightarrow> TaskControlBlockInner \<Rightarrow> TaskControlBlockInner" where
  "delivered sig cx i = i\<lparr>signal_mask := act_mask (table (signal_actions i) ! sig), handling_sig := of_nat sig,
     signals := signals i XOR signal_flag sig, trap_ctx_backup := Some cx\<rparr>"

definition handler_cx :: "nat \<Rightarrow> TaskControlBlockInner \<Rightarrow> TrapContext \<Rightarrow> TrapContext" where
  "handler_cx sig i cx = cx\<lparr>sepc := handler (table (signal_actions i) ! sig), regs := (regs cx)[10 := of_nat sig]\<rparr>"

lemma enter_signals_delivers:
  assumes "on_cpu (kern s) t i" "signals_ok i" "deliverable i sig" "\<forall>j < sig. \<not> deliverable i j" "sig \<notin> kernel_sigs"
    and "handler (table (signal_actions i) ! sig) \<noteq> 0"
  shows "\<exists>s1. enter_signals t s = Ok s1 \<and> frames s1 t = Some SignalLoop \<and> on_cpu (kern s1) t (delivered sig (cpu_cx (kern s) i) i)
    \<and> cpu_cx (kern s1) (delivered sig (cpu_cx (kern s) i) i) = handler_cx sig i (cpu_cx (kern s) i)"
proof -
  let ?cx = "cpu_cx (kern s) i"
  let ?i = "delivered sig ?cx i" and ?m = "store_trap_cx (mem (k_mm (kern s))) (trap_cx_ppn i) (handler_cx sig i ?cx)"
  let ?k = "set_mem ?m (put_inner t ?i (kern s))"
  have "check_pending_signals (i, mem (k_mm (kern s))) = Ok (?i, ?m)"
    unfolding delivered_def handler_cx_def by (rule check_pending_delivers) (use assms in \<open>simp_all add: cpu_cx_def\<close>)
  from check_pending_cpu [OF assms(1) this] have k: "check_pending_current (kern s) = Ok ?k" .
  have "length (regs (handler_cx sig i ?cx)) = 32" by (simp add: handler_cx_def cpu_cx_load)
  then have "cpu_cx ?k ?i = handler_cx sig i ?cx" by (simp add: cpu_cx_def get_trap_cx_def set_mem_def delivered_def)
  with k on_cpu_update [OF assms(1)] on_cpu_update(1) [OF on_cpu_update(2) [OF assms(1)]] show ?thesis
    by (simp add: enter_signals_def)
qed

section \<open>Return\<close>

lemma sys_sigreturn_cpu:
  assumes "on_cpu k t i" "trap_ctx_backup i = Some cx"
  shows "sys_sigreturn k = Ok (0, set_mem (store_trap_cx (mem (k_mm k)) (trap_cx_ppn i) cx) (put_inner t (i\<lparr>handling_sig := - 1\<rparr>) k))"
proof -
  have "with_inner t (\<lambda>i k. and_then (sigreturn_inner (i, mem (k_mm k))) (\<lambda>(i, m). Ok (0 :: isize, i, set_mem m k))) k
      = Ok (0, set_mem (store_trap_cx (mem (k_mm k)) (trap_cx_ppn i) cx) (put_inner t (i\<lparr>handling_sig := - 1\<rparr>) k))"
    by (rule with_inner_mem [OF assms(1)]) (simp add: sigreturn_inner_def assms(2))
  with assms(1) show ?thesis by (simp add: sys_sigreturn_def current_task_def on_cpu_def)
qed

text \<open>
  The system call, the result that \<^verbatim>\<open>trap_handler\<close> stores over \<^verbatim>\<open>x10\<close>, and the check of the signals, which
  finds none that is not masked.
\<close>

lemma sigreturn_turn:
  assumes cpu: "on_cpu (kern s) t i" "frames s t = None" and backup: "trap_ctx_backup i = Some cx0" "length (regs cx0) = 32"
    and call: "cpu_cx (kern s) i = user_syscall user_SYSCALL_SIGRETURN [0, 0, 0] cx3"
    and quiet: "signals_ok i" "\<forall>j < 32. bit (signals i) j \<longrightarrow> bit (signal_mask i) j"
  shows "\<exists>s'. task_turn P cx UserEnvCall t s = Some (Ok s') \<and> frames s' t = Some SignalLoop
    \<and> on_cpu (kern s') t (i\<lparr>handling_sig := - 1\<rparr>) \<and> cpu_cx (kern s') (i\<lparr>handling_sig := - 1\<rparr>) = cx0\<lparr>regs := (regs cx0)[10 := 0]\<rparr>"
proof -
  let ?i = "i\<lparr>handling_sig := - 1\<rparr>" and ?cx = "cx0\<lparr>regs := (regs cx0)[10 := 0]\<rparr>"
  define k1 where "k1 = set_mem (store_trap_cx (mem (k_mm (kern s))) (trap_cx_ppn i)
    ((user_syscall user_SYSCALL_SIGRETURN [0, 0, 0] cx3)\<lparr>sepc := sepc cx3 + 4\<rparr>)) (kern s)"
  have c1: "on_cpu k1 t i" unfolding k1_def by (rule on_cpu_update [OF cpu(1)])
  define k2 where "k2 = set_mem (store_trap_cx (mem (k_mm k1)) (trap_cx_ppn i) cx0) (put_inner t ?i k1)"
  have c2: "on_cpu k2 t ?i" unfolding k2_def by (intro on_cpu_update(1) on_cpu_update(2) [OF c1])
  define k3 where "k3 = set_mem (store_trap_cx (mem (k_mm k2)) (trap_cx_ppn i) ?cx) k2"
  have c3: "on_cpu k3 t ?i" unfolding k3_def by (rule on_cpu_update [OF c2])
  have enter: "trap_enter P cx UserEnvCall s = Some (Ok (Ret 0, s\<lparr>kern := k2\<rparr>))"
    using trap_enter_call [OF current_trap_cx_cpu [OF cpu(1)], of CallSigreturn user_SYSCALL_SIGRETURN "[0, 0, 0]" cx3 P cx] call
      sys_sigreturn_cpu [OF c1 backup(1)]
    by (simp add: cpu_cx_load kcall_def k1_def k2_def)
  have "load_trap_cx (mem (k_mm k2)) (trap_cx_ppn i) = cx0" using backup(2) by (simp add: k2_def set_mem_def)
  then have result: "trap_result 0 k2 = Ok k3"
    using current_trap_cx_cpu [OF c2] by (simp add: trap_result_def with_trap_cx_def k3_def)
  have "signals_ok ?i" "\<forall>j < 32. \<not> deliverable ?i j" using quiet by (auto simp: signals_ok_def deliverable_def)
  then have "check_pending_signals (?i, mem (k_mm k3)) = Ok (?i, mem (k_mm k3))" by (rule check_pending_none)
  from check_pending_cpu [OF c3 this] have check: "check_pending_current k3 = Ok (set_mem (mem (k_mm k3)) (put_inner t ?i k3))" .
  let ?k4 = "set_mem (mem (k_mm k3)) (put_inner t ?i k3)"
  let ?s = "s\<lparr>kern := ?k4, frames := (frames s)(t \<mapsto> SignalLoop)\<rparr>"
  have "task_turn P cx UserEnvCall t s = Some (Ok ?s)"
    using cpu(2) enter result check by (simp add: task_turn_def after_call_def enter_signals_def)
  moreover have "cpu_cx ?k4 ?i = ?cx" using backup(2) by (simp add: cpu_cx_load set_mem_def k3_def)
  moreover have "on_cpu ?k4 t ?i" by (intro on_cpu_update(1) on_cpu_update(2) [OF c3])
  ultimately show ?thesis by (intro exI [of _ ?s]) simp
qed

lemma sigreturn_turns:
  assumes cpu: "on_cpu (kern s) t i" "frames s t = None" and backup: "trap_ctx_backup i = Some cx0" "length (regs cx0) = 32"
    and call: "cpu_cx (kern s) i = user_syscall user_SYSCALL_SIGRETURN [0, 0, 0] cx3"
    and quiet: "signals_ok i" "\<forall>j < 32. bit (signals i) j \<longrightarrow> bit (signal_mask i) j" "\<not> frozen i" "check_error (signals i) = None"
  shows "\<exists>s1 s2. task_turn P cx1 UserEnvCall t s = Some (Ok s1) \<and> task_turn P cx2 cause t s1 = Some (Ok s2) \<and> frames s2 t = None
    \<and> on_cpu (kern s2) t (i\<lparr>handling_sig := - 1\<rparr>) \<and> cpu_cx (kern s2) (i\<lparr>handling_sig := - 1\<rparr>) = cx0\<lparr>regs := (regs cx0)[10 := 0]\<rparr>"
proof -
  from sigreturn_turn [OF assms(1-7)] obtain s1 where
    s1: "task_turn P cx1 UserEnvCall t s = Some (Ok s1)" "frames s1 t = Some SignalLoop" "on_cpu (kern s1) t (i\<lparr>handling_sig := - 1\<rparr>)"
      "cpu_cx (kern s1) (i\<lparr>handling_sig := - 1\<rparr>) = cx0\<lparr>regs := (regs cx0)[10 := 0]\<rparr>" by blast
  have "task_turn P cx2 cause t s1 = Some (Ok (s1\<lparr>frames := (frames s1)(t := None)\<rparr>))"
    by (rule signal_turn_leaves [OF s1(3) _ _ s1(2)]) (use quiet(3,4) in simp_all)
  with s1 show ?thesis by (intro exI [of _ s1] exI [of _ "s1\<lparr>frames := (frames s1)(t := None)\<rparr>"]) simp
qed

section \<open>Property\<close>

text \<open>
  C19. The round trip of a signal. Take a current task that is not frozen, whose first deliverable signal
  has a user handler and which has no other, fatal signal pending. The check at the end of a trap saves
  the interrupted context, and the task goes back to the user in the handler, with the signal number in
  \<^verbatim>\<open>a0\<close> and all other registers as they were; the signal is no longer pending and the mask of its action is
  in force. When the handler later calls \<^verbatim>\<open>sigreturn\<close>, with that context still saved, the task not frozen and
  no fatal or unmasked signal pending, two turns of the kernel bring the task back to the interrupted
  instruction with every register restored except \<^verbatim>\<open>a0\<close>: the trap handler stores the result 0 of the system
  call there. The task then handles no signal any more, but nothing else of its control block changes: the mask
  in force while the handler ran stays, and the mask from before the signal is not restored.
\<close>

theorem signal_delivery_roundtrip:
  assumes "on_cpu (kern s) t i" "signals_ok i" "deliverable i sig" "\<forall>j < sig. \<not> deliverable i j" "sig \<notin> kernel_sigs"
    and "act = table (signal_actions i) ! sig" "handler act \<noteq> 0" "cx0 = cpu_cx (kern s) i"
    and "\<not> frozen i" "check_error (signals i XOR signal_flag sig) = None"
  shows "\<exists>s1 s2 i2. enter_signals t s = Ok s1 \<and> task_turn P cx1 cause1 t s1 = Some (Ok s2) \<and> frames s2 t = None \<and> on_cpu (kern s2) t i2
    \<and> cpu_cx (kern s2) i2 = cx0\<lparr>sepc := handler act, regs := (regs cx0)[10 := of_nat sig]\<rparr> \<and> \<not> bit (signals i2) sig
    \<and> i2 = i\<lparr>signal_mask := act_mask act, handling_sig := of_nat sig, signals := signals i XOR signal_flag sig, trap_ctx_backup := Some cx0\<rparr>
    \<and> (\<forall>s3 i3 cx3. on_cpu (kern s3) t i3 \<longrightarrow> frames s3 t = None \<longrightarrow> cpu_cx (kern s3) i3 = user_syscall user_SYSCALL_SIGRETURN [0, 0, 0] cx3
         \<longrightarrow> trap_ctx_backup i3 = Some cx0 \<longrightarrow> signals_ok i3 \<longrightarrow> \<not> frozen i3
         \<longrightarrow> (\<forall>j < 32. bit (signals i3) j \<longrightarrow> bit (signal_mask i3) j) \<longrightarrow> check_error (signals i3) = None
         \<longrightarrow> (\<exists>s4 s5. task_turn P cx3a UserEnvCall t s3 = Some (Ok s4) \<and> task_turn P cx4 cause4 t s4 = Some (Ok s5)
              \<and> frames s5 t = None \<and> on_cpu (kern s5) t (i3\<lparr>handling_sig := - 1\<rparr>)
              \<and> cpu_cx (kern s5) (i3\<lparr>handling_sig := - 1\<rparr>) = cx0\<lparr>regs := (regs cx0)[10 := 0]\<rparr>))"
proof -
  let ?i = "delivered sig cx0 i"
  obtain s1 where s1: "enter_signals t s = Ok s1" "frames s1 t = Some SignalLoop" "on_cpu (kern s1) t ?i"
      "cpu_cx (kern s1) ?i = handler_cx sig i cx0"
    using enter_signals_delivers [OF assms(1-5)] assms(6-8) by auto
  let ?s2 = "s1\<lparr>frames := (frames s1)(t := None)\<rparr>"
  have leave: "task_turn P cx1 cause1 t s1 = Some (Ok ?s2)"
    by (rule signal_turn_leaves [OF s1(3) _ _ s1(2)]) (use assms(9,10) in \<open>simp_all add: delivered_def\<close>)
  have sig: "sig < 32" "bit (signals i) sig" using assms(3) by (simp_all add: deliverable_def)
  have len: "length (regs cx0) = 32" by (simp add: assms(8) cpu_cx_load)
  show ?thesis
  proof (intro exI conjI)
    show "enter_signals t s = Ok s1" "task_turn P cx1 cause1 t s1 = Some (Ok ?s2)" "on_cpu (kern ?s2) t ?i"
      using s1(1,3) leave by simp_all
    show "cpu_cx (kern ?s2) ?i = cx0\<lparr>sepc := handler act, regs := (regs cx0)[10 := of_nat sig]\<rparr>"
      using s1(4) assms(6) by (simp add: handler_cx_def)
    show "\<not> bit (signals ?i) sig" using sig by (simp add: delivered_def xor_flag)
    show "\<forall>s3 i3 cx3. on_cpu (kern s3) t i3 \<longrightarrow> frames s3 t = None \<longrightarrow> cpu_cx (kern s3) i3 = user_syscall user_SYSCALL_SIGRETURN [0, 0, 0] cx3
         \<longrightarrow> trap_ctx_backup i3 = Some cx0 \<longrightarrow> signals_ok i3 \<longrightarrow> \<not> frozen i3
         \<longrightarrow> (\<forall>j < 32. bit (signals i3) j \<longrightarrow> bit (signal_mask i3) j) \<longrightarrow> check_error (signals i3) = None
         \<longrightarrow> (\<exists>s4 s5. task_turn P cx3a UserEnvCall t s3 = Some (Ok s4) \<and> task_turn P cx4 cause4 t s4 = Some (Ok s5)
              \<and> frames s5 t = None \<and> on_cpu (kern s5) t (i3\<lparr>handling_sig := - 1\<rparr>)
              \<and> cpu_cx (kern s5) (i3\<lparr>handling_sig := - 1\<rparr>) = cx0\<lparr>regs := (regs cx0)[10 := 0]\<rparr>)"
      using len by (intro allI impI sigreturn_turns) simp_all
  qed (simp_all add: delivered_def assms(6))
qed

section \<open>A witness\<close>

text \<open>A task with a handler at 4096 for \<^verbatim>\<open>SIGUSR1\<close>, which is pending, and 7 in all registers.\<close>

definition inner_usr1 :: TaskControlBlockInner where
  "inner_usr1 = inner_example\<lparr>task_status := Running, signals := signal_flag 10,
     signal_actions := \<lparr>table = (replicate 32 SignalAction_default)[10 := \<lparr>handler = 4096, act_mask = signal_flag 10\<rparr>]\<rparr>\<rparr>"

definition cx_sevens :: TrapContext where
  "cx_sevens = (load_trap_cx (\<lambda>_. 0) (PhysPageNum 5))\<lparr>regs := replicate 32 7\<rparr>"

definition s_usr1 :: "u8 list system" where
  "s_usr1 = s_example (set_mem (store_trap_cx (mem (k_mm k_example)) (PhysPageNum 5) cx_sevens) (put_inner 1 inner_usr1 k_example))"

text \<open>The handler changes all registers to 9 and calls \<^verbatim>\<open>sigreturn\<close>.\<close>

definition run_handler :: "u8 list system \<Rightarrow> u8 list system" where
  "run_handler s = s\<lparr>kern := set_mem (store_trap_cx (mem (k_mm (kern s))) (PhysPageNum 5)
     (user_syscall user_SYSCALL_SIGRETURN [0, 0, 0] (cx_sevens\<lparr>regs := replicate 32 9\<rparr>))) (kern s)\<rparr>"

lemma usr1_example:
  "on_cpu (kern s_usr1) 1 inner_usr1" "signals_ok inner_usr1" "deliverable inner_usr1 j \<longleftrightarrow> j = 10" "10 \<notin> kernel_sigs"
  "table (signal_actions inner_usr1) ! 10 = \<lparr>handler = 4096, act_mask = signal_flag 10\<rparr>" "cpu_cx (kern s_usr1) inner_usr1 = cx_sevens"
  "\<not> frozen inner_usr1" "signals inner_usr1 XOR signal_flag 10 = 0" "check_error 0 = None"
proof -
  show "on_cpu (kern s_usr1) 1 inner_usr1"
    by (simp add: on_cpu_def s_usr1_def set_mem_def put_inner_def k_example_def)
  show "deliverable inner_usr1 j \<longleftrightarrow> j = 10"
    by (auto simp: deliverable_def inner_usr1_def inner_example_def bit_signal_flag)
  show "cpu_cx (kern s_usr1) inner_usr1 = cx_sevens"
    by (simp add: cpu_cx_load s_usr1_def set_mem_def inner_usr1_def inner_example_def cx_sevens_def)
qed (simp_all add: signals_ok_def inner_usr1_def inner_example_def kernel_sigs_def check_error_def has_signal_def signal_flags)

theorem signal_delivery_roundtrip_witness:
  "\<exists>s1 s2 s4 s5 i2 i5. enter_signals 1 s_usr1 = Ok s1 \<and> task_turn platform_example zero_init OtherTrap 1 s1 = Some (Ok s2)
    \<and> on_cpu (kern s2) 1 i2 \<and> cpu_cx (kern s2) i2 = cx_sevens\<lparr>sepc := 4096, regs := (replicate 32 7)[10 := 10]\<rparr>
    \<and> task_turn platform_example zero_init UserEnvCall 1 (run_handler s2) = Some (Ok s4)
    \<and> task_turn platform_example zero_init OtherTrap 1 s4 = Some (Ok s5)
    \<and> on_cpu (kern s5) 1 i5 \<and> cpu_cx (kern s5) i5 = cx_sevens\<lparr>regs := (replicate 32 7)[10 := 0]\<rparr>
    \<and> signal_mask inner_usr1 = 0 \<and> signal_mask i5 = signal_flag 10"
proof -
  note u = usr1_example
  have r: "regs cx_sevens = replicate 32 7" by (simp add: cx_sevens_def)
  let ?act = "\<lparr>handler = 4096, act_mask = signal_flag 10\<rparr> :: SignalAction"
  let ?i2 = "inner_usr1\<lparr>signal_mask := signal_flag 10, handling_sig := 10, signals := 0, trap_ctx_backup := Some cx_sevens\<rparr>"
  have "\<exists>s1 s2 i2. enter_signals 1 s_usr1 = Ok s1 \<and> task_turn platform_example zero_init OtherTrap 1 s1 = Some (Ok s2) \<and> frames s2 1 = None
    \<and> on_cpu (kern s2) 1 i2 \<and> cpu_cx (kern s2) i2 = cx_sevens\<lparr>sepc := handler ?act, regs := (regs cx_sevens)[10 := of_nat 10]\<rparr> \<and> \<not> bit (signals i2) 10
    \<and> i2 = inner_usr1\<lparr>signal_mask := act_mask ?act, handling_sig := of_nat 10, signals := signals inner_usr1 XOR signal_flag 10, trap_ctx_backup := Some cx_sevens\<rparr>
    \<and> (\<forall>s3 i3 cx3. on_cpu (kern s3) 1 i3 \<longrightarrow> frames s3 1 = None \<longrightarrow> cpu_cx (kern s3) i3 = user_syscall user_SYSCALL_SIGRETURN [0, 0, 0] cx3
         \<longrightarrow> trap_ctx_backup i3 = Some cx_sevens \<longrightarrow> signals_ok i3 \<longrightarrow> \<not> frozen i3
         \<longrightarrow> (\<forall>j < 32. bit (signals i3) j \<longrightarrow> bit (signal_mask i3) j) \<longrightarrow> check_error (signals i3) = None
         \<longrightarrow> (\<exists>s4 s5. task_turn platform_example zero_init UserEnvCall 1 s3 = Some (Ok s4) \<and> task_turn platform_example zero_init OtherTrap 1 s4 = Some (Ok s5)
              \<and> frames s5 1 = None \<and> on_cpu (kern s5) 1 (i3\<lparr>handling_sig := - 1\<rparr>)
              \<and> cpu_cx (kern s5) (i3\<lparr>handling_sig := - 1\<rparr>) = cx_sevens\<lparr>regs := (regs cx_sevens)[10 := 0]\<rparr>))"
    by (rule signal_delivery_roundtrip [OF u(1,2) _ _ u(4)]) (simp_all add: u)
  then obtain s1 s2 where s2: "enter_signals 1 s_usr1 = Ok s1" "task_turn platform_example zero_init OtherTrap 1 s1 = Some (Ok s2)"
    "frames s2 1 = None" "on_cpu (kern s2) 1 ?i2" "cpu_cx (kern s2) ?i2 = cx_sevens\<lparr>sepc := 4096, regs := (replicate 32 7)[10 := 10]\<rparr>"
    and ret: "\<forall>s3 i3 cx3. on_cpu (kern s3) 1 i3 \<longrightarrow> frames s3 1 = None \<longrightarrow> cpu_cx (kern s3) i3 = user_syscall user_SYSCALL_SIGRETURN [0, 0, 0] cx3
         \<longrightarrow> trap_ctx_backup i3 = Some cx_sevens \<longrightarrow> signals_ok i3 \<longrightarrow> \<not> frozen i3
         \<longrightarrow> (\<forall>j < 32. bit (signals i3) j \<longrightarrow> bit (signal_mask i3) j) \<longrightarrow> check_error (signals i3) = None
         \<longrightarrow> (\<exists>s4 s5. task_turn platform_example zero_init UserEnvCall 1 s3 = Some (Ok s4) \<and> task_turn platform_example zero_init OtherTrap 1 s4 = Some (Ok s5)
              \<and> frames s5 1 = None \<and> on_cpu (kern s5) 1 (i3\<lparr>handling_sig := - 1\<rparr>)
              \<and> cpu_cx (kern s5) (i3\<lparr>handling_sig := - 1\<rparr>) = cx_sevens\<lparr>regs := (regs cx_sevens)[10 := 0]\<rparr>)"
    using u(5,8) by (simp only: r SignalAction.simps of_nat_numeral) blast
  have c3: "on_cpu (kern (run_handler s2)) 1 ?i2" using on_cpu_update(1) [OF s2(4)] by (simp add: run_handler_def)
  have cx3: "cpu_cx (kern (run_handler s2)) ?i2 = user_syscall user_SYSCALL_SIGRETURN [0, 0, 0] (cx_sevens\<lparr>regs := replicate 32 9\<rparr>)"
    by (simp add: cpu_cx_load run_handler_def set_mem_def inner_usr1_def inner_example_def user_syscall_def)
  have ok: "signals_ok ?i2" using u(2) by (simp add: signals_ok_def)
  have "\<exists>s4 s5. task_turn platform_example zero_init UserEnvCall 1 (run_handler s2) = Some (Ok s4) \<and> task_turn platform_example zero_init OtherTrap 1 s4 = Some (Ok s5)
      \<and> frames s5 1 = None \<and> on_cpu (kern s5) 1 (?i2\<lparr>handling_sig := - 1\<rparr>)
      \<and> cpu_cx (kern s5) (?i2\<lparr>handling_sig := - 1\<rparr>) = cx_sevens\<lparr>regs := (regs cx_sevens)[10 := 0]\<rparr>"
    by (rule ret [rule_format, OF c3 _ cx3 _ ok]) (use s2(3) u(7,9) in \<open>simp_all add: run_handler_def\<close>)
  then obtain s4 s5 where "task_turn platform_example zero_init UserEnvCall 1 (run_handler s2) = Some (Ok s4)"
    "task_turn platform_example zero_init OtherTrap 1 s4 = Some (Ok s5)" "on_cpu (kern s5) 1 (?i2\<lparr>handling_sig := - 1\<rparr>)"
    "cpu_cx (kern s5) (?i2\<lparr>handling_sig := - 1\<rparr>) = cx_sevens\<lparr>regs := (replicate 32 7)[10 := 0]\<rparr>" unfolding r by blast
  moreover have "signal_mask inner_usr1 = 0" by (simp add: inner_usr1_def inner_example_def)
  ultimately show ?thesis using s2(1,2,4,5)
    by (intro exI [of _ s1] exI [of _ s2] exI [of _ s4] exI [of _ s5] exI [of _ ?i2] exI [of _ "?i2\<lparr>handling_sig := - 1\<rparr>"]) simp
qed

end
