(* ===== verification/Elf_Load.thy ===== *)
theory Elf_Load
  imports Memory_Set User_Buffer
begin

text \<open>
  Loading a program: \<^verbatim>\<open>MapArea::copy_data\<close> and \<^verbatim>\<open>MemorySet::from_elf\<close> of \<^verbatim>\<open>memory_set.rs\<close>. Each segment
  of the executable is mapped and filled page by page, what the file does not supply reads as zero, and the user stack and the
  page of the trap context are mapped behind.
\<close>

section \<open>Copying data into mapped pages\<close>

text \<open>Page \<open>i\<close> of a segment with the given data.\<close>

definition chunk :: "u8 list \<Rightarrow> nat \<Rightarrow> u8 list" where
  "chunk data i = take 4096 (drop (4096 * i) data)"

definition padded_page :: "u8 list \<Rightarrow> nat \<Rightarrow> u8 list" where
  "padded_page data i = chunk data i @ replicate (4096 - length (chunk data i)) 0"

declare copy_data_loop.simps [simp del]

lemma length_frame_contents [simp]: "length (frame_contents m f) = 4096"
  by (simp add: frame_contents_def)

lemma store_frame:
  fixes s :: mm_state
  assumes f: "unat (the_ppn f) < 2 ^ 44" and src: "length src \<le> 4096"
  defines "s' \<equiv> s\<lparr>mem := store_bytes (mem s) (unat (the_pa (PhysAddr_from_PhysPageNum f))) src\<rparr>"
  shows "frame_contents (mem s') f = src @ drop (length src) (frame_contents (mem s) f)" and "writes {f} s s'"
    and "FRAME_ALLOCATOR s' = FRAME_ALLOCATOR s"
proof -
  have a: "unat (the_pa (PhysAddr_from_PhysPageNum f)) = unat (the_ppn f) * 4096" using f by (simp add: unat_PhysAddr_from_PhysPageNum)
  show "frame_contents (mem s') f = src @ drop (length src) (frame_contents (mem s) f)"
    using src by (intro nth_equalityI) (simp_all add: s'_def a frame_contents_def load_bytes_nth nth_append store_bytes_def)
  show "writes {f} s s'" using src by (auto simp: writes_def s'_def a store_bytes_def frame_bytes_def)
  show "FRAME_ALLOCATOR s' = FRAME_ALLOCATOR s" by (simp add: s'_def)
qed

lemma copy_data_loop_Ok:
  assumes "length fs = length vs" "vs \<noteq> []" "\<forall>i. Suc i < length vs \<longrightarrow> vs ! Suc i = VirtPageNum_step (vs ! i)"
    and "start \<le> length data" "length data \<le> start + 4096 * length vs"
    and "pt_wf l pt s" "distinct fs" "set fs \<inter> set (pt_frames pt) = {}" "\<forall>f \<in> set fs. unat (the_ppn f) < 2 ^ 44"
    and "\<forall>i < length vs. \<exists>e. pt_abs pt (mem s) (vs ! i) = Some e \<and> PageTableEntry_ppn e = fs ! i"
  shows "\<exists>s'. copy_data_loop pt data start (hd vs) s = Ok s' \<and> writes (set fs) s s' \<and> FRAME_ALLOCATOR s' = FRAME_ALLOCATOR s
    \<and> (\<forall>i < length vs. frame_contents (mem s') (fs ! i) =
         chunk (drop start data) i @ drop (length (chunk (drop start data) i)) (frame_contents (mem s) (fs ! i)))"
  using assms
proof (induction vs arbitrary: fs start s)
  case (Cons v vs)
  from Cons.prems(1) obtain f fs' where fs: "fs = f # fs'" "length fs' = length vs" by (cases fs) auto
  have f: "unat (the_ppn f) < 2 ^ 44" "f \<notin> set fs'" "f \<notin> set (pt_frames pt)" using Cons.prems(7-9) fs by auto
  from Cons.prems(10) fs obtain e where e: "pt_abs pt (mem s) v = Some e" "PageTableEntry_ppn e = f" by fastforce
  let ?src = "take 4096 (drop start data)"
  define s1 where "s1 = s\<lparr>mem := store_bytes (mem s) (unat (the_pa (PhysAddr_from_PhysPageNum f))) ?src\<rparr>"
  note st = store_frame [OF f(1), of ?src s, folded s1_def, simplified]
  have run: "copy_data_loop pt data start v s =
      (if start + 4096 \<ge> length data then Ok s1 else copy_data_loop pt data (start + 4096) (VirtPageNum_step v) s1)"
    by (subst copy_data_loop.simps) (use Cons.prems(4) in \<open>simp add: slice_def pt_abs_translate [OF e(1)] e(2) Let_def s1_def\<close>)
  have other: "mem s1 x = mem s x" if "q \<noteq> f" "x \<in> frame_bytes q" for q x using writes_frame [OF st(2), of q x] that by simp
  have first: "chunk (drop start data) 0 = ?src" by (simp add: chunk_def)
  show ?case
  proof (cases "start + 4096 \<ge> length data")
    case True
    have "chunk (drop start data) (Suc i) = []" for i using True by (simp add: chunk_def)
    moreover have "frame_contents (mem s1) g = frame_contents (mem s) g" if "g \<in> set fs'" for g
      using other [of g] that f(2) by (intro frame_contents_cong) auto
    ultimately have "frame_contents (mem s1) (fs ! i) =
        chunk (drop start data) i @ drop (length (chunk (drop start data) i)) (frame_contents (mem s) (fs ! i))" if "i < length (v # vs)" for i
      using that st(1) fs first by (cases i) auto
    moreover have "writes (set fs) s s1" using st(2) by (rule writes_mono) (simp add: fs)
    ultimately show ?thesis using True st(3) by (intro exI [of _ s1]) (simp add: run)
  next
    case False
    then have ne: "vs \<noteq> []" using Cons.prems(5) by auto
    have hd: "hd vs = VirtPageNum_step v" using Cons.prems(3) ne by (cases vs) auto
    have "fa_inv l (FRAME_ALLOCATOR s1)" "set (pt_frames pt) \<subseteq> fa_live l (FRAME_ALLOCATOR s1)"
      using Cons.prems(6) by (simp_all add: pt_wf_def st(3))
    moreover have "\<forall>q \<in> set (pt_frames pt). \<forall>x \<in> frame_bytes q. mem s1 x = mem s x" using other f(3) by metis
    ultimately have wf1: "pt_wf l pt s1" "\<And>w. pt_abs pt (mem s1) w = pt_abs pt (mem s) w"
      using pt_wf_untouched [OF Cons.prems(6), of s1] by blast+
    have "\<exists>s'. copy_data_loop pt data (start + 4096) (hd vs) s1 = Ok s' \<and> writes (set fs') s1 s' \<and> FRAME_ALLOCATOR s' = FRAME_ALLOCATOR s1
      \<and> (\<forall>i < length vs. frame_contents (mem s') (fs' ! i) =
         chunk (drop (start + 4096) data) i @ drop (length (chunk (drop (start + 4096) data) i)) (frame_contents (mem s1) (fs' ! i)))"
      using Cons.prems False ne fs wf1 by (intro Cons.IH) auto
    then obtain s' where s': "copy_data_loop pt data (start + 4096) (hd vs) s1 = Ok s'" "writes (set fs') s1 s'" "FRAME_ALLOCATOR s' = FRAME_ALLOCATOR s1"
      "\<And>i. i < length vs \<Longrightarrow> frame_contents (mem s') (fs' ! i) =
         chunk (drop (start + 4096) data) i @ drop (length (chunk (drop (start + 4096) data) i)) (frame_contents (mem s1) (fs' ! i))" by blast
    have "frame_contents (mem s') f = frame_contents (mem s1) f"
      using writes_frame [OF s'(2) f(2)] by (intro frame_contents_cong) auto
    moreover have "frame_contents (mem s1) (fs' ! i) = frame_contents (mem s) (fs' ! i)" if "i < length vs" for i
      using other [of "fs' ! i"] that f(2) fs(2) by (intro frame_contents_cong) (metis nth_mem)
    moreover have "chunk (drop (start + 4096) data) i = chunk (drop start data) (Suc i)" for i by (simp add: chunk_def ac_simps)
    ultimately have "frame_contents (mem s') (fs ! i) =
        chunk (drop start data) i @ drop (length (chunk (drop start data) i)) (frame_contents (mem s) (fs ! i))" if "i < length (v # vs)" for i
      using that st(1) fs first s'(4) by (cases i) auto
    moreover have "writes (set fs) s s'" using writes_trans [OF st(2) s'(2)] by (simp add: fs)
    ultimately show ?thesis using False s'(1,3) st(3) hd by (intro exI [of _ s']) (simp add: run)
  qed
qed simp

section \<open>A segment with its data\<close>

text \<open>The pages \<open>vs\<close> are mapped to frames of the address space and hold the data, padded with zeros.\<close>

definition area_loaded :: "MemorySet \<Rightarrow> mm_state \<Rightarrow> VirtPageNum list \<Rightarrow> MapPermission \<Rightarrow> u8 list \<Rightarrow> bool" where
  "area_loaded ms s vs perm data \<longleftrightarrow> (\<forall>i < length vs.
     (\<exists>f \<in> ms_data ms. unat (the_ppn f) < 2 ^ 44 \<and> pt_abs (page_table ms) (mem s) (vs ! i) = Some (PageTableEntry_new f (perm OR PTE_V)))
     \<and> page_contents (page_table ms) (mem s) (vs ! i) = Some (padded_page data i))"

lemma VPNRange_consecutive:
  assumes "sr_l r \<le> sr_r r"
  shows "\<And>i. Suc i < length (VPNRange_list r) \<Longrightarrow> VPNRange_list r ! Suc i = VirtPageNum_step (VPNRange_list r ! i)"
    and "VPNRange_list r \<noteq> [] \<Longrightarrow> hd (VPNRange_list r) = sr_l r"
proof -
  obtain c e where r: "r = \<lparr>sr_l = VirtPageNum c, sr_r = VirtPageNum e\<rparr>" by (metis VPNRange_eta VirtPageNum.exhaust)
  have pages: "map (unat \<circ> the_vpn) (VPNRange_list r) = [unat c..<unat e]"
    using vpn_iter_upto [of c e] assms by (simp add: r VPNRange_list_def SimpleRange_into_iter_def less_eq_VirtPageNum_def word_le_nat_alt)
  have len: "length (VPNRange_list r) = unat e - unat c" using arg_cong [OF pages, of length] by simp
  have nth: "unat (the_vpn (VPNRange_list r ! i)) = unat c + i" if "i < length (VPNRange_list r)" for i
    using arg_cong [OF pages, of "\<lambda>xs. xs ! i"] that len by simp
  show "VPNRange_list r ! Suc i = VirtPageNum_step (VPNRange_list r ! i)" if i: "Suc i < length (VPNRange_list r)" for i
  proof -
    have "unat (the_vpn (VPNRange_list r ! i)) + 1 < 2 ^ 64" using nth [of i] i len unat_usize_bound [of e] by simp
    then have "unat (the_vpn (VirtPageNum_step (VPNRange_list r ! i))) = unat (the_vpn (VPNRange_list r ! i)) + 1"
      by (simp add: VirtPageNum_step_def unat_add_no_wrap)
    then have "unat (the_vpn (VPNRange_list r ! Suc i)) = unat (the_vpn (VirtPageNum_step (VPNRange_list r ! i)))"
      using nth [of i] nth [OF i] i by simp
    then show ?thesis by (simp add: VirtPageNum_eq_iff)
  qed
  show "hd (VPNRange_list r) = sr_l r" if "VPNRange_list r \<noteq> []"
    using nth [of 0] that by (simp add: r hd_conv_nth VirtPageNum_eq_iff)
qed

lemma padded_zero: "length xs = 4096 \<Longrightarrow> (\<And>x. x \<in> set xs \<Longrightarrow> x = 0) \<Longrightarrow> chunk data i @ drop (length (chunk data i)) xs = padded_page data i"
proof -
  assume xs: "length xs = 4096" "\<And>x. x \<in> set xs \<Longrightarrow> x = 0"
  then have "xs = replicate 4096 0" by (metis replicate_eqI)
  then show ?thesis by (simp add: padded_page_def chunk_def)
qed

lemma area_loaded_kept:
  assumes ms: "user_ms l ms s" and pm: "pages_mapped l p ws fs (page_table ms, s) (page_table ms', s1)"
    and s2: "writes (set fs) s1 s2" "\<And>v. pt_abs (page_table ms') (mem s2) v = pt_abs (page_table ms') (mem s1) v"
    and data: "ms_data ms \<subseteq> ms_data ms'" and b: "area_loaded ms s vs perm D"
  shows "area_loaded ms' s2 vs perm D"
  unfolding area_loaded_def
proof (intro allI impI)
  have pmf: "set fs \<inter> fa_live l (FRAME_ALLOCATOR s) = {}" "writes (set (pt_frames (page_table ms')) \<union> set fs) s s1"
    "(set (pt_frames (page_table ms')) - set (pt_frames (page_table ms))) \<inter> fa_live l (FRAME_ALLOCATOR s) = {}"
    using pm by (simp_all add: pages_mapped_def)
  fix i assume "i < length vs"
  with b obtain f where f: "f \<in> ms_data ms" "unat (the_ppn f) < 2 ^ 44" "pt_abs (page_table ms) (mem s) (vs ! i) = Some (PageTableEntry_new f (perm OR PTE_V))"
    and pc: "page_contents (page_table ms) (mem s) (vs ! i) = Some (padded_page D i)" unfolding area_loaded_def by blast
  have wf: "pt_wf l (page_table ms) s" using ms by (simp add: user_ms_def)
  have e: "pt_abs (page_table ms') (mem s2) (vs ! i) = pt_abs (page_table ms) (mem s) (vs ! i)"
    using pages_mapped_keeps [OF pm wf, of "vs ! i"] f(3) s2(2) by simp
  have "f \<in> fa_live l (FRAME_ALLOCATOR s)" "f \<notin> set (pt_frames (page_table ms))" using ms f(1) by (auto simp: user_ms_def)
  then have nf: "f \<notin> set fs" "f \<notin> set (pt_frames (page_table ms')) \<union> set fs" using pmf(1,3) by auto
  have "frame_contents (mem s2) f = frame_contents (mem s) f"
    using writes_frame [OF s2(1) nf(1)] writes_frame [OF pmf(2) nf(2)] by (intro frame_contents_cong) simp
  then have "page_contents (page_table ms') (mem s2) (vs ! i) = Some (padded_page D i)" using pc f(2,3) by (simp add: page_contents_def e)
  with e f data show "(\<exists>f \<in> ms_data ms'. unat (the_ppn f) < 2 ^ 44 \<and> pt_abs (page_table ms') (mem s2) (vs ! i) = Some (PageTableEntry_new f (perm OR PTE_V)))
    \<and> page_contents (page_table ms') (mem s2) (vs ! i) = Some (padded_page D i)" by auto
qed

text \<open>Pushing a segment with its data: it succeeds, loads the segment and keeps those that are loaded.\<close>

lemma push_loaded:
  assumes ms: "user_ms l ms s" and a: "map_type a = Framed" "data_frames a = []" "sr_l (vpn_range a) \<le> sr_r (vpn_range a)"
    and new: "\<forall>v \<in> set (area_pages a). pt_abs (page_table ms) (mem s) v = None" "pairwise (\<lambda>u v. \<not> same_page u v) (set (area_pages a))"
      "3 * length (area_pages a) \<le> fa_free (FRAME_ALLOCATOR s)"
    and d: "data = None \<or> area_pages a \<noteq> []" "length (case_option [] id data) \<le> 4096 * length (area_pages a)"
  shows "\<exists>ms' s' a'. MemorySet_push ms a data s = Ok (ms', s') \<and> user_ms l ms' s' \<and> grows l (ms_own ms, s) (ms_own ms', s')
    \<and> areas ms' = areas ms @ [a'] \<and> vpn_range a' = vpn_range a \<and> area_loaded ms' s' (area_pages a) (map_perm a) (case_option [] id data)
    \<and> (\<forall>vs perm D. area_loaded ms s vs perm D \<longrightarrow> area_loaded ms' s' vs perm D)
    \<and> (\<forall>v. (\<forall>u \<in> set (area_pages a). \<not> same_page v u) \<longrightarrow> pt_abs (page_table ms') (mem s') v = pt_abs (page_table ms) (mem s) v)
    \<and> fa_free (FRAME_ALLOCATOR s) \<le> fa_free (FRAME_ALLOCATOR s') + 3 * length (area_pages a)"
proof -
  let ?vs = "area_pages a" and ?D = "case_option [] id data"
  from MemorySet_push_is_ok [OF ms a new] obtain ms' s1 where push: "MemorySet_push ms a None s = Ok (ms', s1)"
    and free: "fa_free (FRAME_ALLOCATOR s) \<le> fa_free (FRAME_ALLOCATOR s1) + 3 * length ?vs" by blast
  from MemorySet_push_Framed [OF ms a push] obtain fs a' where
    pm: "pages_mapped l (map_perm a) ?vs fs (page_table ms, s) (page_table ms', s1)"
    and a': "areas ms' = areas ms @ [a']" "vpn_range a' = vpn_range a"
    and g: "grows l (ms_own ms, s) (ms_own ms', s1)" and ms1: "user_ms l ms' s1" and data: "ms_data ms' = ms_data ms \<union> set fs" by metis
  have pmf: "length fs = length ?vs" "distinct fs" "set fs \<inter> set (pt_frames (page_table ms')) = {}"
    "\<forall>f \<in> set fs. unat (the_ppn f) < 2 ^ 44" "set fs \<inter> fa_live l (FRAME_ALLOCATOR s) = {}"
    "\<forall>i < length ?vs. pt_abs (page_table ms') (mem s1) (?vs ! i) = Some (PageTableEntry_new (fs ! i) (map_perm a OR PTE_V))"
    "writes (set (pt_frames (page_table ms')) \<union> set fs) s s1" "\<forall>f \<in> set fs. \<forall>x \<in> frame_bytes f. mem s1 x = 0"
    "(set (pt_frames (page_table ms')) - set (pt_frames (page_table ms))) \<inter> fa_live l (FRAME_ALLOCATOR s) = {}"
    using pm by (simp_all add: pages_mapped_def)
  have zero: "x = 0" if "f \<in> set fs" "x \<in> set (frame_contents (mem s1) f)" for f x
    using pmf(8) that by (auto simp: frame_contents_def load_bytes_def frame_bytes_def)
  have "\<exists>s2. MemorySet_push ms a data s = Ok (ms', s2) \<and> writes (set fs) s1 s2 \<and> FRAME_ALLOCATOR s2 = FRAME_ALLOCATOR s1
    \<and> (\<forall>i < length ?vs. frame_contents (mem s2) (fs ! i) = chunk ?D i @ drop (length (chunk ?D i)) (frame_contents (mem s1) (fs ! i)))"
  proof (cases data)
    case None
    then show ?thesis using push by (intro exI [of _ s1]) (simp add: chunk_def)
  next
    case (Some D)
    have ne: "?vs \<noteq> []" using d(1) Some by simp
    have e: "\<forall>i < length ?vs. \<exists>e. pt_abs (page_table ms') (mem s1) (?vs ! i) = Some e \<and> PageTableEntry_ppn e = fs ! i"
      using pmf(1,4,6) by fastforce
    have "pt_wf l (page_table ms') s1" using ms1 by (simp add: user_ms_def)
    from copy_data_loop_Ok [OF pmf(1) ne _ _ _ this pmf(2,3,4) e, of 0 D] VPNRange_consecutive [OF a(3)] d(2) Some ne
    obtain s2 where "copy_data_loop (page_table ms') D 0 (sr_l (vpn_range a)) s1 = Ok s2" "writes (set fs) s1 s2" "FRAME_ALLOCATOR s2 = FRAME_ALLOCATOR s1"
      "\<forall>i < length ?vs. frame_contents (mem s2) (fs ! i) = chunk D i @ drop (length (chunk D i)) (frame_contents (mem s1) (fs ! i))"
      by auto
    moreover have "map_type a' = Framed" using ms1 a'(1) by (simp add: user_ms_def area_mapped_def)
    ultimately show ?thesis using push Some a'
      by (intro exI [of _ s2]) (auto simp: MemorySet_push_def and_then_eq_Ok_conv MapArea_copy_data_def)
  qed
  then obtain s2 where run: "MemorySet_push ms a data s = Ok (ms', s2)" and s2: "writes (set fs) s1 s2" "FRAME_ALLOCATOR s2 = FRAME_ALLOCATOR s1"
    "\<And>i. i < length ?vs \<Longrightarrow> frame_contents (mem s2) (fs ! i) = chunk ?D i @ drop (length (chunk ?D i)) (frame_contents (mem s1) (fs ! i))" by blast
  have "\<forall>q \<in> set (pt_frames (page_table ms')). \<forall>x \<in> frame_bytes q. mem s2 x = mem s1 x"
    using writes_frame [OF s2(1)] pmf(3) by blast
  note ms2 = user_ms_untouched [OF ms1 s2(2) this]
  have fsC: "set fs \<subseteq> ms_own ms'" using data by (auto simp: ms_own_def)
  have w2: "writes (ms_own ms') s1 s2" using s2(1) fsC by (rule writes_mono)
  then have g2: "grows l (ms_own ms, s) (ms_own ms', s2)"
    using g writes_trans [of "ms_own ms'" s s1 "ms_own ms'" s2] by (simp add: grows_def s2(2))
  have loaded: "area_loaded ms' s2 ?vs (map_perm a) ?D" unfolding area_loaded_def
  proof (intro allI impI)
    fix i assume i: "i < length ?vs"
    then have f: "fs ! i \<in> set fs" "unat (the_ppn (fs ! i)) < 2 ^ 44" using pmf(1,4) by auto
    have e: "pt_abs (page_table ms') (mem s2) (?vs ! i) = Some (PageTableEntry_new (fs ! i) (map_perm a OR PTE_V))"
      using pmf(6) i ms2(2) by simp
    have "frame_contents (mem s2) (fs ! i) = padded_page ?D i"
      using s2(3) [OF i] padded_zero [of "frame_contents (mem s1) (fs ! i)" ?D i] zero [OF f(1)] by simp
    with e f data show "(\<exists>f \<in> ms_data ms'. unat (the_ppn f) < 2 ^ 44 \<and> pt_abs (page_table ms') (mem s2) (?vs ! i) = Some (PageTableEntry_new f (map_perm a OR PTE_V)))
      \<and> page_contents (page_table ms') (mem s2) (?vs ! i) = Some (padded_page ?D i)" by (auto simp: page_contents_def)
  qed
  have old: "area_loaded ms' s2 vs perm D" if "area_loaded ms s vs perm D" for vs perm D
    using data by (intro area_loaded_kept [OF ms pm s2(1) ms2(2) _ that]) simp
  have keep: "pt_abs (page_table ms') (mem s2) v = pt_abs (page_table ms) (mem s) v" if "\<forall>u \<in> set ?vs. \<not> same_page v u" for v
    using pm that by (simp add: pages_mapped_def ms2(2))
  show ?thesis using run ms2(1) g2 a' loaded old keep free by (intro exI [of _ ms'] exI [of _ s2] exI [of _ a']) (simp add: s2(2))
qed

section \<open>All segments\<close>

fun push_data :: "(MapArea \<times> u8 list option) list \<Rightarrow> MemorySet \<Rightarrow> mm_state \<Rightarrow> (MemorySet \<times> mm_state) outcome" where
  "push_data [] ms s = Ok (ms, s)"
| "push_data ((a, d) # xs) ms s = and_then (MemorySet_push ms a d s) (\<lambda>(ms', s'). push_data xs ms' s')"

lemma push_data_append: "push_data (xs @ ys) ms s = and_then (push_data xs ms s) (\<lambda>(ms', s'). push_data ys ms' s')"
  by (induction xs arbitrary: ms s) (auto simp: and_then_def split: outcome.split prod.split)

lemma push_all_data: "push_all as ms s = push_data (map (\<lambda>a. (a, None)) as) ms s"
  by (induction as arbitrary: ms s) (auto simp: and_then_def split: outcome.split prod.split)

definition framed_ok :: "MapArea \<times> u8 list option \<Rightarrow> bool" where
  "framed_ok = (\<lambda>(a, d). map_type a = Framed \<and> data_frames a = [] \<and> sr_l (vpn_range a) \<le> sr_r (vpn_range a)
     \<and> (d = None \<or> area_pages a \<noteq> []) \<and> length (case_option [] id d) \<le> 4096 * length (area_pages a))"

definition layout_pages :: "(MapArea \<times> u8 list option) list \<Rightarrow> VirtPageNum list" where
  "layout_pages xs = concat (map (\<lambda>(a, d). area_pages a) xs)"

lemma push_data_loaded:
  assumes "user_ms l ms s" "\<forall>x \<in> set xs. framed_ok x" "distinct (layout_pages xs)" "pairwise (\<lambda>u v. \<not> same_page u v) (set (layout_pages xs))"
    and "\<forall>v \<in> set (layout_pages xs). pt_abs (page_table ms) (mem s) v = None" "3 * length (layout_pages xs) \<le> fa_free (FRAME_ALLOCATOR s)"
  shows "\<exists>ms' s'. push_data xs ms s = Ok (ms', s') \<and> user_ms l ms' s' \<and> grows l (ms_own ms, s) (ms_own ms', s')
    \<and> map vpn_range (areas ms') = map vpn_range (areas ms @ map fst xs)
    \<and> (\<forall>(a, d) \<in> set xs. area_loaded ms' s' (area_pages a) (map_perm a) (case_option [] id d))
    \<and> (\<forall>vs perm D. area_loaded ms s vs perm D \<longrightarrow> area_loaded ms' s' vs perm D)"
  using assms
proof (induction xs arbitrary: ms s)
  case Nil
  then show ?case using user_ms_own [OF Nil.prems(1)] by (auto simp: grows_def user_ms_def pt_wf_def)
next
  case (Cons x xs)
  obtain a d where x: "x = (a, d)" by (cases x)
  have fr: "map_type a = Framed" "data_frames a = []" "sr_l (vpn_range a) \<le> sr_r (vpn_range a)" "d = None \<or> area_pages a \<noteq> []"
    "length (case_option [] id d) \<le> 4096 * length (area_pages a)" using Cons.prems(2) by (simp_all add: x framed_ok_def)
  have pages: "layout_pages (x # xs) = area_pages a @ layout_pages xs" by (simp add: layout_pages_def x)
  note prems = Cons.prems(3-6) [unfolded pages]
  have "pairwise (\<lambda>u v. \<not> same_page u v) (set (area_pages a))" "\<forall>v \<in> set (area_pages a). pt_abs (page_table ms) (mem s) v = None"
    "3 * length (area_pages a) \<le> fa_free (FRAME_ALLOCATOR s)"
    using prems by (auto simp: pairwise_def)
  from push_loaded [OF Cons.prems(1) fr(1-3) this(2,1,3) fr(4,5)] obtain ms1 s1 a' where
    p: "MemorySet_push ms a d s = Ok (ms1, s1)" "user_ms l ms1 s1" "grows l (ms_own ms, s) (ms_own ms1, s1)"
    "areas ms1 = areas ms @ [a']" "vpn_range a' = vpn_range a" "area_loaded ms1 s1 (area_pages a) (map_perm a) (case_option [] id d)"
    "\<And>vs perm D. area_loaded ms s vs perm D \<Longrightarrow> area_loaded ms1 s1 vs perm D"
    "\<And>v. \<forall>u \<in> set (area_pages a). \<not> same_page v u \<Longrightarrow> pt_abs (page_table ms1) (mem s1) v = pt_abs (page_table ms) (mem s) v"
    "fa_free (FRAME_ALLOCATOR s) \<le> fa_free (FRAME_ALLOCATOR s1) + 3 * length (area_pages a)" by blast
  have "\<forall>v \<in> set (layout_pages xs). pt_abs (page_table ms1) (mem s1) v = None"
  proof
    fix v assume v: "v \<in> set (layout_pages xs)"
    have "\<not> same_page v u" if "u \<in> set (area_pages a)" for u
      using pairwiseD [OF prems(2), of v u] prems(1) v that by auto
    with p(8) [of v] prems(3) v show "pt_abs (page_table ms1) (mem s1) v = None" by simp
  qed
  moreover have "pairwise (\<lambda>u v. \<not> same_page u v) (set (layout_pages xs))" "distinct (layout_pages xs)"
    "3 * length (layout_pages xs) \<le> fa_free (FRAME_ALLOCATOR s1)" "\<forall>x \<in> set xs. framed_ok x"
    using prems p(9) Cons.prems(2) by (auto simp: pairwise_def)
  ultimately obtain ms' s' where q: "push_data xs ms1 s1 = Ok (ms', s')" "user_ms l ms' s'" "grows l (ms_own ms1, s1) (ms_own ms', s')"
    "map vpn_range (areas ms') = map vpn_range (areas ms1 @ map fst xs)"
    "\<forall>(a, d) \<in> set xs. area_loaded ms' s' (area_pages a) (map_perm a) (case_option [] id d)"
    "\<And>vs perm D. area_loaded ms1 s1 vs perm D \<Longrightarrow> area_loaded ms' s' vs perm D"
    using Cons.IH [OF p(2)] by blast
  with p grows_trans [OF p(3) q(3)] show ?case by (intro exI [of _ ms'] exI [of _ s']) (simp add: x)
qed

section \<open>The layout of a program\<close>

text \<open>
  The segments that are to be loaded with their bytes in the file, and behind the last of them, after a guard page, the user
  stack; the page of the trap context is below the trampoline.
\<close>

definition loadable :: "ElfFile \<Rightarrow> program_header list" where
  "loadable elf = filter ph_load (program_headers elf)"

definition segment_area :: "program_header \<Rightarrow> MapArea" where
  "segment_area ph = MapArea_new (VirtAddr_from_usize (virtual_addr ph)) (VirtAddr_from_usize (virtual_addr ph + mem_size ph)) Framed (ph_perm ph)"

definition segment_bytes :: "u8 list \<Rightarrow> program_header \<Rightarrow> u8 list" where
  "segment_bytes input ph = take (unat (file_size ph)) (drop (unat (ph_offset ph)) input)"

definition segment_in_file :: "u8 list \<Rightarrow> program_header \<Rightarrow> bool" where
  "segment_in_file input ph \<longleftrightarrow> unat (ph_offset ph) + unat (file_size ph) \<le> length input \<and> unat (ph_offset ph) + unat (file_size ph) < 2 ^ 64"

definition end_vpn :: "VirtPageNum \<Rightarrow> program_header list \<Rightarrow> VirtPageNum" where
  "end_vpn v phs = (if phs = [] then v else sr_r (vpn_range (segment_area (last phs))))"

definition stack_bottom :: "ElfFile \<Rightarrow> usize" where
  "stack_bottom elf = usize_from_VirtAddr (VirtAddr_from_VirtPageNum (end_vpn (VirtPageNum 0) (loadable elf))) + PAGE_SIZE"

definition stack_area :: "ElfFile \<Rightarrow> MapArea" where
  "stack_area elf = MapArea_new (VirtAddr_from_usize (stack_bottom elf)) (VirtAddr_from_usize (stack_bottom elf + USER_STACK_SIZE)) Framed (MP_R OR MP_W OR MP_U)"

definition trap_area :: MapArea where
  "trap_area = MapArea_new (VirtAddr_from_usize TRAP_CONTEXT) (VirtAddr_from_usize TRAMPOLINE) Framed (MP_R OR MP_W)"

definition elf_layout :: "ElfFile \<Rightarrow> (MapArea \<times> u8 list option) list" where
  "elf_layout elf = map (\<lambda>ph. (segment_area ph, Some (segment_bytes (elf_input elf) ph))) (loadable elf) @ [(stack_area elf, None), (trap_area, None)]"

lemma segment_slice:
  assumes "segment_in_file input ph"
  shows "slice input (unat (ph_offset ph)) (unat (ph_offset ph + file_size ph)) = Ok (segment_bytes input ph)"
proof -
  have "unat (ph_offset ph + file_size ph) = unat (ph_offset ph) + unat (file_size ph)"
    using assms by (simp add: segment_in_file_def unat_add_no_wrap)
  with assms show ?thesis by (simp add: slice_def segment_in_file_def segment_bytes_def)
qed

lemma load_segments_push:
  assumes "\<forall>ph \<in> set (filter ph_load phs). segment_in_file input ph"
  shows "load_segments input phs ms v s =
    and_then (push_data (map (\<lambda>ph. (segment_area ph, Some (segment_bytes input ph))) (filter ph_load phs)) ms s) (\<lambda>(ms', s').
    Ok (ms', end_vpn v (filter ph_load phs), s'))"
  using assms
proof (induction phs arbitrary: ms v s)
  case (Cons ph phs)
  show ?case
  proof (cases "ph_load ph")
    case True
    have "end_vpn (sr_r (vpn_range (segment_area ph))) (filter ph_load phs) = end_vpn v (ph # filter ph_load phs)" by (simp add: end_vpn_def)
    with True Cons segment_slice [of input ph] show ?thesis
      by (auto simp: segment_area_def Let_def and_then_def split: outcome.split prod.split)
  next
    case False
    with Cons show ?thesis by simp
  qed
qed (simp add: end_vpn_def)

lemma from_elf_push:
  assumes "parse elf_data = Some elf" "elf_magic elf = [0x7f, 0x45, 0x4c, 0x46]" "\<forall>ph \<in> set (loadable elf). segment_in_file (elf_input elf) ph"
  shows "from_elf parse tramp elf_data s =
    and_then (new_bare s) (\<lambda>(ms, s). and_then (map_trampoline tramp ms s) (\<lambda>(ms, s).
    and_then (push_data (elf_layout elf) ms s) (\<lambda>(ms, s). Ok ((ms, stack_bottom elf + USER_STACK_SIZE, entry_point elf), s))))"
proof -
  note l = load_segments_push [OF assms(3) [unfolded loadable_def], folded loadable_def]
  have "from_elf parse tramp elf_data s =
    and_then (new_bare s) (\<lambda>(ms, s). and_then (map_trampoline tramp ms s) (\<lambda>(ms, s).
    and_then (push_data (map (\<lambda>ph. (segment_area ph, Some (segment_bytes (elf_input elf) ph))) (loadable elf)) ms s) (\<lambda>(ms, s).
    and_then (push_data [(stack_area elf, None), (trap_area, None)] ms s) (\<lambda>(ms, s). Ok ((ms, stack_bottom elf + USER_STACK_SIZE, entry_point elf), s)))))"
    by (simp add: from_elf_def assms(1,2) l push_all_data Let_def stack_bottom_def [symmetric] stack_area_def trap_area_def and_then_assoc split_def)
  then show ?thesis by (simp add: elf_layout_def push_data_append and_then_assoc split_def)
qed

section \<open>The pages of a program\<close>

text \<open>A segment in the lower half of the address space, not empty, whose bytes are in the file.\<close>

definition segment_ok :: "u8 list \<Rightarrow> program_header \<Rightarrow> bool" where
  "segment_ok input ph \<longleftrightarrow> segment_in_file input ph \<and> 0 < mem_size ph \<and> file_size ph \<le> mem_size ph
     \<and> unat (virtual_addr ph) + unat (mem_size ph) \<le> 2 ^ 37"

lemma lower_half: "unat x \<le> 2 ^ 38 \<Longrightarrow> unat (the_va (VirtAddr_from_usize x)) = unat x"
  by simp

lemma segment_pages:
  assumes "segment_ok input ph"
  shows "map (unat \<circ> the_vpn) (area_pages (segment_area ph)) =
      [unat (virtual_addr ph) div 4096..<(unat (virtual_addr ph) + unat (mem_size ph) + 4095) div 4096]"
    and "framed_ok (segment_area ph, Some (segment_bytes input ph))"
proof -
  let ?a = "unat (virtual_addr ph)" and ?n = "unat (mem_size ph)"
  have n: "?a + ?n \<le> 2 ^ 37" "0 < ?n" using assms by (simp_all add: segment_ok_def word_less_nat_alt)
  then have e: "unat (virtual_addr ph + mem_size ph) = ?a + ?n" by (subst unat_add_no_wrap) simp_all
  have lo: "unat (the_va (VirtAddr_from_usize (virtual_addr ph))) = ?a" "unat (the_va (VirtAddr_from_usize (virtual_addr ph + mem_size ph))) = ?a + ?n"
    using n by (simp_all add: e)
  note p = MapArea_new_pages [of "VirtAddr_from_usize (virtual_addr ph)" "VirtAddr_from_usize (virtual_addr ph + mem_size ph)" Framed "ph_perm ph",
      unfolded lo, folded segment_area_def]
  show pages: "map (unat \<circ> the_vpn) (area_pages (segment_area ph)) = [?a div 4096..<(?a + ?n + 4095) div 4096]" using p(1) n by simp
  have len: "length (area_pages (segment_area ph)) = (?a + ?n + 4095) div 4096 - ?a div 4096" using arg_cong [OF pages, of length] by simp
  have "?n \<le> 4096 * ((?a + ?n + 4095) div 4096 - ?a div 4096)" by linarith
  moreover have "length (segment_bytes input ph) \<le> ?n" using assms by (auto simp: segment_bytes_def segment_ok_def word_le_nat_alt)
  ultimately show "framed_ok (segment_area ph, Some (segment_bytes input ph))"
    using p(2) n len by (auto simp: framed_ok_def segment_area_def [of ph] MapArea_new_def)
qed

lemma end_vpn_bound:
  assumes "\<forall>ph \<in> set phs. segment_ok input ph"
  shows "unat (the_vpn (end_vpn (VirtPageNum 0) phs)) \<le> 2 ^ 25"
proof (cases "phs = []")
  case False
  then have ok: "segment_ok input (last phs)" using assms by simp
  let ?a = "segment_area (last phs)" and ?e = "unat (virtual_addr (last phs)) + unat (mem_size (last phs))"
  have n: "?e \<le> 2 ^ 37" using ok by (simp add: segment_ok_def)
  then have e: "unat (virtual_addr (last phs) + mem_size (last phs)) = ?e" by (subst unat_add_no_wrap) simp_all
  have b: "unat (the_va (VirtAddr_from_usize (virtual_addr (last phs) + mem_size (last phs)))) = ?e" using n by (simp add: e)
  then have "unat (the_vpn (sr_r (vpn_range ?a))) = (?e + 4095) div 4096"
    using unat_VirtAddr_ceil [of "VirtAddr_from_usize (virtual_addr (last phs) + mem_size (last phs))", unfolded b] n
    by (simp add: segment_area_def MapArea_new_def SimpleRange_new_def)
  then show ?thesis using n False by (simp add: end_vpn_def)
qed (simp add: end_vpn_def)

lemma unat_stack_bottom:
  assumes "\<forall>ph \<in> set (loadable elf). segment_ok input ph"
  shows "unat (stack_bottom elf) = unat (the_vpn (end_vpn (VirtPageNum 0) (loadable elf))) * 4096 + 4096"
    and "unat (stack_bottom elf + USER_STACK_SIZE) = unat (the_vpn (end_vpn (VirtPageNum 0) (loadable elf))) * 4096 + 12288"
proof -
  let ?v = "end_vpn (VirtPageNum 0) (loadable elf)"
  note e = end_vpn_bound [OF assms]
  have va: "unat (the_va (VirtAddr_from_VirtPageNum ?v)) = unat (the_vpn ?v) * 4096" using e by (intro unat_VirtAddr_from_VirtPageNum) simp
  have "\<not> the_va (VirtAddr_from_VirtPageNum ?v) \<ge> push_bit 38 1"
    unfolding word_le_nat_alt va using e by simp
  then have u: "usize_from_VirtAddr (VirtAddr_from_VirtPageNum ?v) = the_va (VirtAddr_from_VirtPageNum ?v)"
    by (simp add: usize_from_VirtAddr_def VA_WIDTH_SV39_def)
  show b: "unat (stack_bottom elf) = unat (the_vpn ?v) * 4096 + 4096"
    unfolding stack_bottom_def u using e by (subst unat_add_no_wrap) (simp_all add: va PAGE_SIZE_def)
  show "unat (stack_bottom elf + USER_STACK_SIZE) = unat (the_vpn ?v) * 4096 + 12288"
    using e by (subst unat_add_no_wrap) (simp_all add: b USER_STACK_SIZE_def)
qed

lemma stack_pages:
  assumes "\<forall>ph \<in> set (loadable elf). segment_ok input ph"
  shows "map (unat \<circ> the_vpn) (area_pages (stack_area elf)) =
      (let e = unat (the_vpn (end_vpn (VirtPageNum 0) (loadable elf))) in [e + 1, e + 2])"
    and "framed_ok (stack_area elf, None)"
proof -
  define e where "e = unat (the_vpn (end_vpn (VirtPageNum 0) (loadable elf)))"
  have eb: "e \<le> 2 ^ 25" using end_vpn_bound [OF assms] by (simp add: e_def)
  note u = unat_stack_bottom [OF assms, folded e_def]
  have lo: "unat (the_va (VirtAddr_from_usize (stack_bottom elf))) = e * 4096 + 4096"
    "unat (the_va (VirtAddr_from_usize (stack_bottom elf + USER_STACK_SIZE))) = e * 4096 + 12288"
    using eb by (simp_all add: u)
  note p = MapArea_new_pages [of "VirtAddr_from_usize (stack_bottom elf)" "VirtAddr_from_usize (stack_bottom elf + USER_STACK_SIZE)" Framed "MP_R OR MP_W OR MP_U",
      unfolded lo, folded stack_area_def]
  have "(e * 4096 + 4096) div 4096 = e + 1" "(e * 4096 + 12288 + 4095) div 4096 = e + 3" by simp_all
  with p(1) eb show "map (unat \<circ> the_vpn) (area_pages (stack_area elf)) =
      (let e = unat (the_vpn (end_vpn (VirtPageNum 0) (loadable elf))) in [e + 1, e + 2])"
    by (simp add: e_def [symmetric] upt_rec)
  show "framed_ok (stack_area elf, None)" using p(2) eb by (simp add: framed_ok_def) (simp add: stack_area_def MapArea_new_def)
qed

lemma trap_page: "area_pages trap_area = [VirtPageNum 0x7FFFFFE]" "framed_ok (trap_area, None)"
  by (simp_all add: framed_ok_def trap_area_def MapArea_new_def VirtAddr_floor_def VirtAddr_ceil_def VirtAddr_from_usize_def const_defs VPNRange_list_def
      SimpleRange_into_iter_def SimpleRange_new_def vpn_iter.simps SimpleRangeIterator_next_def VirtPageNum_step_def less_eq_VirtPageNum_def)

text \<open>All pages are below the trampoline, so different page numbers are different pages.\<close>

lemma layout_below:
  assumes "\<forall>ph \<in> set (loadable elf). segment_ok input ph" "v \<in> set (layout_pages (elf_layout elf))"
  shows "unat (the_vpn v) < 0x7FFFFFF"
proof -
  consider ph where "ph \<in> set (loadable elf)" "v \<in> set (area_pages (segment_area ph))" | "v \<in> set (area_pages (stack_area elf))" | "v = VirtPageNum 0x7FFFFFE"
    using assms(2) trap_page(1) by (auto simp: layout_pages_def elf_layout_def)
  then show ?thesis
  proof cases
    case 1
    then have ok: "segment_ok input ph" using assms(1) by simp
    have "unat (the_vpn v) \<in> set (map (unat \<circ> the_vpn) (area_pages (segment_area ph)))" using 1(2) by simp
    then show ?thesis using ok unfolding segment_pages(1) [OF ok] by (simp add: segment_ok_def) linarith
  next
    case 2
    then have "unat (the_vpn v) \<in> set (map (unat \<circ> the_vpn) (area_pages (stack_area elf)))" by simp
    then show ?thesis using end_vpn_bound [OF assms(1)] unfolding stack_pages(1) [OF assms(1)] by (auto simp: Let_def)
  qed simp
qed

lemma from_elf_is_ok:
  assumes inv: "fa_inv l (FRAME_ALLOCATOR s)" and tramp: "PhysAddr_page_offset (PhysAddr_from_usize tramp) = 0"
    and elf: "parse elf_data = Some elf" "elf_magic elf = [0x7f, 0x45, 0x4c, 0x46]" "\<forall>ph \<in> set (loadable elf). segment_ok (elf_input elf) ph"
    and pages: "distinct (layout_pages (elf_layout elf))" "3 * length (layout_pages (elf_layout elf)) + 3 \<le> fa_free (FRAME_ALLOCATOR s)"
  obtains ms s' where "from_elf parse tramp elf_data s = Ok ((ms, stack_bottom elf + USER_STACK_SIZE, entry_point elf), s')"
    "user_ms l ms s'" "grows l ({}, s) (ms_own ms, s')" "map vpn_range (areas ms) = map vpn_range (map fst (elf_layout elf))"
    "\<And>a d. (a, d) \<in> set (elf_layout elf) \<Longrightarrow> area_loaded ms s' (area_pages a) (map_perm a) (case_option [] id d)"
proof -
  obtain ms1 s1 ms2 s2 where b: "new_bare s = Ok (ms1, s1)" "map_trampoline tramp ms1 s1 = Ok (ms2, s2)" "user_ms l ms2 s2"
    "grows l ({}, s) (ms_own ms2, s2)" "areas ms2 = []" "fa_free (FRAME_ALLOCATOR s) \<le> fa_free (FRAME_ALLOCATOR s2) + 3"
    "\<And>v. \<not> same_page v (VirtPageNum 0x7FFFFFF) \<Longrightarrow> pt_abs (page_table ms2) (mem s2) v = None"
    by (rule bare_with_trampoline [OF inv tramp]) (use pages(2) in auto)
  note below = layout_below [OF elf(3)]
  have "pairwise (\<lambda>u v. \<not> same_page u v) (set (layout_pages (elf_layout elf)))"
  proof (rule pairwiseI)
    fix u v assume "u \<in> set (layout_pages (elf_layout elf))" "v \<in> set (layout_pages (elf_layout elf))" "u \<noteq> v"
    then show "\<not> same_page u v" using below [of u] below [of v] by (auto simp: same_page_def VirtPageNum_eq_iff)
  qed
  moreover have "\<forall>v \<in> set (layout_pages (elf_layout elf)). pt_abs (page_table ms2) (mem s2) v = None"
    using below by (intro ballI b(7)) (force simp: same_page_def)
  moreover have "\<forall>x \<in> set (elf_layout elf). framed_ok x"
    using segment_pages(2) elf(3) stack_pages(2) [OF elf(3)] trap_page(2) by (auto simp: elf_layout_def)
  ultimately obtain ms s' where p: "push_data (elf_layout elf) ms2 s2 = Ok (ms, s')" "user_ms l ms s'" "grows l (ms_own ms2, s2) (ms_own ms, s')"
    "map vpn_range (areas ms) = map vpn_range (areas ms2 @ map fst (elf_layout elf))"
    "\<forall>(a, d) \<in> set (elf_layout elf). area_loaded ms s' (area_pages a) (map_perm a) (case_option [] id d)"
    using push_data_loaded [OF b(3) _ pages(1)] pages(2) b(6) by fastforce
  have "\<forall>ph \<in> set (loadable elf). segment_in_file (elf_input elf) ph" using elf(3) by (simp add: segment_ok_def)
  from from_elf_push [where parse = parse and elf_data = elf_data and tramp = tramp and s = s, OF elf(1,2) this] have "from_elf parse tramp elf_data s = Ok ((ms, stack_bottom elf + USER_STACK_SIZE, entry_point elf), s')"
    by (simp add: b(1,2) p(1))
  with p(2,4,5) grows_trans [OF b(4) p(3)] b(5) show thesis by (intro that) auto
qed

section \<open>What the program reads\<close>

definition page_of :: "nat \<Rightarrow> VirtPageNum" where
  "page_of a = VirtPageNum (of_nat (a div 4096))"

lemma user_translate:
  assumes wf: "pt_wf l (page_table ms) s" and e: "pt_abs (page_table ms) m (page_of a) = Some e" and a39: "a < 2 ^ 39"
  obtains pa where "PageTable_translate_va (PageTable_from_token (MemorySet_token ms)) (VirtAddr_from_usize (of_nat a)) m = Some pa"
    "unat (the_pa pa) = unat (the_ppn (PageTableEntry_ppn e)) * 4096 + a mod 4096"
proof -
  have "unat (the_ppn (root_ppn (page_table ms))) < 2 ^ 44" using pt_wf_table(3) [OF wf table_path_Nil] by simp
  note root = root_from_token [OF this]
  have "pt_abs (PageTable_from_token (MemorySet_token ms)) m (VirtAddr_floor (VirtAddr_from_usize (of_nat a))) = Some e"
    using e pt_abs_root_cong [OF root, of m "page_of a"] VirtAddr_floor_of_nat [OF a39] by (simp add: page_of_def MemorySet_token_def)
  from translate_va_Some [OF this] that show thesis unfolding VirtAddr_of_nat [OF a39] by blast
qed

lemma page_byte:
  assumes "pt_wf l (page_table ms) s" "page_contents (page_table ms) m (page_of a) = Some bs" "a < 2 ^ 39"
  shows "user_byte (MemorySet_token ms) m (of_nat a) = Some (bs ! (a mod 4096))"
proof -
  from assms(2) obtain e where e: "pt_abs (page_table ms) m (page_of a) = Some e" "bs = frame_contents m (PageTableEntry_ppn e)"
    by (auto simp: page_contents_def)
  obtain pa where "PageTable_translate_va (PageTable_from_token (MemorySet_token ms)) (VirtAddr_from_usize (of_nat a)) m = Some pa"
    "unat (the_pa pa) = unat (the_ppn (PageTableEntry_ppn e)) * 4096 + a mod 4096"
    by (rule user_translate [OF assms(1) e(1) assms(3)])
  then show ?thesis by (simp add: user_byte_def e(2) frame_contents_def load_bytes_nth)
qed

lemma padded_page_nth:
  "k < 4096 \<Longrightarrow> padded_page D i ! k = (if 4096 * i + k < length D then D ! (4096 * i + k) else 0)"
  by (auto simp: padded_page_def chunk_def nth_append)

lemma loaded_byte:
  assumes wf: "pt_wf l (page_table ms) s" and ok: "segment_ok input ph" and al: "4096 dvd unat (virtual_addr ph)" and j: "j < unat (mem_size ph)"
    and l: "area_loaded ms s (area_pages (segment_area ph)) perm D"
  shows "user_byte (MemorySet_token ms) (mem s) (virtual_addr ph + of_nat j) = Some (if j < length D then D ! j else 0)"
proof -
  let ?a = "unat (virtual_addr ph)" and ?n = "unat (mem_size ph)" and ?vs = "area_pages (segment_area ph)"
  from al obtain b where b: "?a = 4096 * b" by blast
  have n: "?a + ?n \<le> 2 ^ 37" using ok by (simp add: segment_ok_def)
  define i where "i = j div 4096"
  have pages: "map (unat \<circ> the_vpn) ?vs = [b..<(4096 * b + ?n + 4095) div 4096]" using segment_pages(1) [OF ok] by (simp add: b)
  have "i < (4096 * b + ?n + 4095) div 4096 - b" using j by (simp add: i_def)
  moreover have "length ?vs = (4096 * b + ?n + 4095) div 4096 - b" using arg_cong [OF pages, of length] by simp
  ultimately have i: "i < length ?vs" by simp
  have "unat (the_vpn (?vs ! i)) = b + i" using arg_cong [OF pages, of "\<lambda>xs. xs ! i"] i arg_cong [OF pages, of length] by simp
  moreover have "(?a + j) div 4096 = b + i" by (simp add: b i_def)
  moreover have "unat (of_nat ((?a + j) div 4096) :: usize) = (?a + j) div 4096" using n j by (simp only: unat_of_nat) simp
  ultimately have "unat (the_vpn (page_of (?a + j))) = unat (the_vpn (?vs ! i))" by (simp add: page_of_def)
  then have pg: "page_of (?a + j) = ?vs ! i" by (simp add: VirtPageNum_eq_iff)
  have "page_contents (page_table ms) (mem s) (page_of (?a + j)) = Some (padded_page D i)" using l i by (simp add: area_loaded_def pg)
  from page_byte [OF wf this] n j have "user_byte (MemorySet_token ms) (mem s) (of_nat (?a + j)) = Some (padded_page D i ! ((?a + j) mod 4096))" by simp
  moreover have "(?a + j) mod 4096 = j mod 4096" by (simp add: b)
  ultimately show ?thesis by (simp add: padded_page_nth i_def)
qed

lemma segment_byte:
  assumes "pt_wf l (page_table ms) s" and ok: "segment_ok input ph" and "4096 dvd unat (virtual_addr ph)" "j < unat (mem_size ph)"
    and "area_loaded ms s (area_pages (segment_area ph)) perm (segment_bytes input ph)"
  shows "user_byte (MemorySet_token ms) (mem s) (virtual_addr ph + of_nat j) = Some (if j < unat (file_size ph) then input ! (unat (ph_offset ph) + j) else 0)"
proof -
  have "length (segment_bytes input ph) = unat (file_size ph)" "j < unat (file_size ph) \<Longrightarrow> segment_bytes input ph ! j = input ! (unat (ph_offset ph) + j)"
    using ok by (auto simp: segment_bytes_def segment_ok_def segment_in_file_def)
  with loaded_byte [OF assms] show ?thesis by simp
qed

section \<open>Properties\<close>

text \<open>
  C9. Loading an executable succeeds while frames last, if its segments are in the file, not empty, in the lower part of
  the address space and do not overlap each other or the stack behind the last of them. The new address space is
  well formed and uses only frames that were free; every segment is mapped with its permissions and its pages hold the bytes of
  the file, padded with zeros; the stack, which begins one page behind the last segment, and the page of the trap context
  are mapped and zero. A program whose segments are aligned reads at each of its addresses the
  byte of the file, and zero behind the end of the file's part; so \<^verbatim>\<open>.bss\<close> is zero.
\<close>

theorem from_elf_loads:
  assumes "fa_inv l (FRAME_ALLOCATOR s)" "PhysAddr_page_offset (PhysAddr_from_usize tramp) = 0"
    and "parse elf_data = Some elf" "elf_magic elf = [0x7f, 0x45, 0x4c, 0x46]" "\<forall>ph \<in> set (loadable elf). segment_ok (elf_input elf) ph"
    and "distinct (layout_pages (elf_layout elf))" "3 * length (layout_pages (elf_layout elf)) + 3 \<le> fa_free (FRAME_ALLOCATOR s)"
  shows "\<exists>ms s'. from_elf parse tramp elf_data s = Ok ((ms, stack_bottom elf + USER_STACK_SIZE, entry_point elf), s')
    \<and> user_ms l ms s' \<and> ms_own ms \<inter> fa_live l (FRAME_ALLOCATOR s) = {}
    \<and> (\<forall>ph \<in> set (loadable elf). area_loaded ms s' (area_pages (segment_area ph)) (ph_perm ph) (segment_bytes (elf_input elf) ph))
    \<and> area_loaded ms s' (area_pages (stack_area elf)) (MP_R OR MP_W OR MP_U) [] \<and> area_loaded ms s' [VirtPageNum 0x7FFFFFE] (MP_R OR MP_W) []
    \<and> (\<forall>ph \<in> set (loadable elf). 4096 dvd unat (virtual_addr ph) \<longrightarrow> (\<forall>j < unat (mem_size ph).
         user_byte (MemorySet_token ms) (mem s') (virtual_addr ph + of_nat j) =
           Some (if j < unat (file_size ph) then elf_input elf ! (unat (ph_offset ph) + j) else 0)))"
proof -
  obtain ms s' where f: "from_elf parse tramp elf_data s = Ok ((ms, stack_bottom elf + USER_STACK_SIZE, entry_point elf), s')"
    "user_ms l ms s'" "grows l ({}, s) (ms_own ms, s')"
    and loaded: "\<And>a d. (a, d) \<in> set (elf_layout elf) \<Longrightarrow> area_loaded ms s' (area_pages a) (map_perm a) (case_option [] id d)"
    using from_elf_is_ok [where parse = parse and elf_data = elf_data, OF assms(1-7)] by metis
  have seg: "area_loaded ms s' (area_pages (segment_area ph)) (ph_perm ph) (segment_bytes (elf_input elf) ph)" if "ph \<in> set (loadable elf)" for ph
    using loaded [of "segment_area ph" "Some (segment_bytes (elf_input elf) ph)"] that by (simp add: elf_layout_def segment_area_def MapArea_new_def)
  have "area_loaded ms s' (area_pages (stack_area elf)) (MP_R OR MP_W OR MP_U) []" "area_loaded ms s' [VirtPageNum 0x7FFFFFE] (MP_R OR MP_W) []"
    using loaded [of "stack_area elf" None] loaded [of trap_area None] unfolding trap_page(1)
    by (simp_all add: elf_layout_def stack_area_def trap_area_def MapArea_new_def)
  moreover have "ms_own ms \<inter> fa_live l (FRAME_ALLOCATOR s) = {}" using f(3) by (simp add: grows_def)
  moreover have "user_byte (MemorySet_token ms) (mem s') (virtual_addr ph + of_nat j) =
       Some (if j < unat (file_size ph) then elf_input elf ! (unat (ph_offset ph) + j) else 0)"
    if "ph \<in> set (loadable elf)" "4096 dvd unat (virtual_addr ph)" "j < unat (mem_size ph)" for ph j
  proof -
    have "pt_wf l (page_table ms) s'" and ok: "segment_ok (elf_input elf) ph" using f(2) assms(5) that(1) by (simp_all add: user_ms_def)
    from segment_byte [OF this that(2,3) seg [OF that(1)]] show ?thesis .
  qed
  ultimately show ?thesis using f(1,2) seg by (intro exI [of _ ms] exI [of _ s']) blast
qed

text \<open>A program with one segment of three bytes in the file and eight in memory.\<close>

definition elf_example :: ElfFile where
  "elf_example = \<lparr>elf_magic = [0x7f, 0x45, 0x4c, 0x46], elf_input = [0, 1, 2, 3],
     program_headers = [\<lparr>ph_load = True, virtual_addr = 0x1000, mem_size = 8, ph_offset = 1, file_size = 3, is_read = True, is_write = True, is_execute = True\<rparr>],
     entry_point = 0x1000\<rparr>"

lemma elf_example_ok:
  "\<forall>ph \<in> set (loadable elf_example). segment_ok (elf_input elf_example) ph"
  "layout_pages (elf_layout elf_example) = [VirtPageNum 1, VirtPageNum 3, VirtPageNum 4, VirtPageNum 0x7FFFFFE]"
  by (simp_all add: elf_example_def loadable_def segment_ok_def segment_in_file_def layout_pages_def elf_layout_def trap_area_def segment_area_def
      stack_area_def stack_bottom_def end_vpn_def usize_from_VirtAddr_def VirtAddr_from_VirtPageNum_def
      MapArea_new_def VirtAddr_floor_def VirtAddr_ceil_def VirtAddr_from_usize_def const_defs VPNRange_list_def
      SimpleRange_into_iter_def SimpleRange_new_def vpn_iter.simps SimpleRangeIterator_next_def VirtPageNum_step_def)

theorem from_elf_loads_witness:
  "\<exists>ms s'. from_elf (\<lambda>_. Some elf_example) 0x80200000 [0, 1, 2, 3] mm_example = Ok ((ms, 0x5000, 0x1000), s')
    \<and> user_byte (MemorySet_token ms) (mem s') 0x1002 = Some 3 \<and> user_byte (MemorySet_token ms) (mem s') 0x1003 = Some 0"
proof -
  have tramp: "PhysAddr_page_offset (PhysAddr_from_usize 0x80200000) = 0" by (simp add: PhysAddr_page_offset_def PhysAddr_from_usize_def const_defs)
  have free: "3 * length (layout_pages (elf_layout elf_example)) + 3 \<le> fa_free (FRAME_ALLOCATOR mm_example)"
    unfolding elf_example_ok(2) by (simp add: mm_example_def fa_example_eq fa_free_def)
  have d: "distinct (layout_pages (elf_layout elf_example))" unfolding elf_example_ok(2) by simp
  have m: "elf_magic elf_example = [0x7f, 0x45, 0x4c, 0x46]" by (simp add: elf_example_def)
  have top: "stack_bottom elf_example + USER_STACK_SIZE = 0x5000" "entry_point elf_example = 0x1000"
    by (simp_all add: elf_example_def loadable_def segment_area_def stack_bottom_def end_vpn_def usize_from_VirtAddr_def VirtAddr_from_VirtPageNum_def
        MapArea_new_def SimpleRange_new_def VirtAddr_ceil_def VirtAddr_from_usize_def const_defs)
  let ?ph = "hd (program_headers elf_example)"
  have ph: "?ph \<in> set (loadable elf_example)" "virtual_addr ?ph = 0x1000" "unat (mem_size ?ph) = 8" "unat (file_size ?ph) = 3" "unat (ph_offset ?ph) = 1"
    "elf_input elf_example = [0, 1, 2, 3]" by (simp_all add: loadable_def elf_example_def)
  from from_elf_loads [where parse = "\<lambda>_. Some elf_example" and elf_data = "[0, 1, 2, 3]", OF mm_example_inv tramp refl m elf_example_ok(1) d free]
  obtain ms s' where run: "from_elf (\<lambda>_. Some elf_example) 0x80200000 [0, 1, 2, 3] mm_example = Ok ((ms, 0x5000, 0x1000), s')"
    and b: "\<forall>ph \<in> set (loadable elf_example). 4096 dvd unat (virtual_addr ph) \<longrightarrow> (\<forall>j < unat (mem_size ph).
         user_byte (MemorySet_token ms) (mem s') (virtual_addr ph + of_nat j) =
           Some (if j < unat (file_size ph) then elf_input elf_example ! (unat (ph_offset ph) + j) else 0))" unfolding top by blast
  from bspec [OF b ph(1), unfolded ph] have "\<forall>j < 8. user_byte (MemorySet_token ms) (mem s') (0x1000 + of_nat j) = Some (if j < 3 then [0, 1, 2, 3] ! (1 + j) else 0)"
    by simp
  from spec [OF this, of 2] spec [OF this, of 3] run show ?thesis by (auto simp: numeral_3_eq_3)
qed

end
