(* ===== verification/User_Start.thy ===== *)
theory User_Start
  imports File_Calls Elf_Load
begin

text \<open>
  Passing arguments to a program: \<^verbatim>\<open>exec\<close> writes them to the top of the user stack through the page table
  of the new address space, and \<^verbatim>\<open>_start\<close> of the user library reads them back through the addresses
  it finds there. The user's memory is a function from addresses to bytes; \<^const>\<open>None\<close> is a fault, which
  ends the process.
\<close>

section \<open>Reading the arguments\<close>

text \<open>\<^verbatim>\<open>read_volatile\<close> of a \<^verbatim>\<open>usize\<close>\<close>

definition user_usize :: "(usize \<Rightarrow> u8 option) \<Rightarrow> usize \<Rightarrow> usize outcome" where
  "user_usize um va =
     (if \<forall>j \<in> {0..<8}. um (va + of_nat j) \<noteq> None then Ok (of_nat (le_nat (map (\<lambda>j. the (um (va + of_nat j))) [0..<8])))
      else Panic ExplicitPanic)"

text \<open>\<^verbatim>\<open>(0usize..).find(..)\<close>: the index of the first zero byte\<close>

partial_function (option) str_len_loop :: "(usize \<Rightarrow> u8 option) \<Rightarrow> usize \<Rightarrow> nat \<Rightarrow> nat outcome option" where
  "str_len_loop um str_ptr i =
     (case um (str_ptr + of_nat i) of
        None \<Rightarrow> Some (Panic ExplicitPanic)
      | Some b \<Rightarrow> if b = 0 then Some (Ok i) else str_len_loop um str_ptr (Suc i))"

definition from_utf8 :: "u8 list \<Rightarrow> u8 list outcome" where
  "from_utf8 bs = (if utf8_valid bs then Ok bs else Panic UnwrapNone)"

fun start_argv :: "(usize \<Rightarrow> u8 option) \<Rightarrow> usize \<Rightarrow> nat \<Rightarrow> nat \<Rightarrow> u8 list list outcome option" where
  "start_argv um argv_base i 0 = Some (Ok [])"
| "start_argv um argv_base i (Suc n) =
     bindo (Some (user_usize um (argv_base + of_nat i * 8))) (\<lambda>str_ptr.
     bindo (str_len_loop um str_ptr 0) (\<lambda>str_len.
     bindo (Some (from_utf8 (map (\<lambda>j. the (um (str_ptr + of_nat j))) [0..<str_len]))) (\<lambda>arg.
     bindo (start_argv um argv_base (Suc i) n) (\<lambda>args. Some (Ok (arg # args))))))"

section \<open>The stack in physical memory\<close>

text \<open>
  The addresses from \<open>lo\<close> to \<open>hi\<close> are translated to different physical addresses \<open>P\<close>, whatever is written
  to these, and the bytes of an aligned word are adjacent.
\<close>

definition out_same :: "(nat \<Rightarrow> nat) \<Rightarrow> nat \<Rightarrow> nat \<Rightarrow> memory \<Rightarrow> memory \<Rightarrow> bool" where
  "out_same P lo hi m0 m \<longleftrightarrow> (\<forall>x. x \<notin> P ` {lo..<hi} \<longrightarrow> m x = m0 x)"

definition stack_at :: "usize \<Rightarrow> memory \<Rightarrow> nat \<Rightarrow> nat \<Rightarrow> (nat \<Rightarrow> nat) \<Rightarrow> bool" where
  "stack_at token m0 lo hi P \<longleftrightarrow> hi \<le> 2 ^ 38 \<and> inj_on P {lo..<hi}
     \<and> (\<forall>m. out_same P lo hi m0 m \<longrightarrow> (\<forall>a \<in> {lo..<hi}. translated_ref_mut token (of_nat a) m = Ok (P a)))
     \<and> (\<forall>a j. lo \<le> a \<longrightarrow> a + 8 \<le> hi \<longrightarrow> 8 dvd a \<longrightarrow> j < 8 \<longrightarrow> P (a + j) = P a + j)"

lemma stack_atD:
  assumes "stack_at token m0 lo hi P"
  shows "hi \<le> 2 ^ 38" "inj_on P {lo..<hi}" "out_same P lo hi m0 m \<Longrightarrow> lo \<le> a \<Longrightarrow> a < hi \<Longrightarrow> translated_ref_mut token (of_nat a) m = Ok (P a)"
    "lo \<le> a \<Longrightarrow> a + 8 \<le> hi \<Longrightarrow> 8 dvd a \<Longrightarrow> j < 8 \<Longrightarrow> P (a + j) = P a + j"
  using assms unfolding stack_at_def by auto

lemma out_same_upd: "out_same P lo hi m0 m \<Longrightarrow> lo \<le> a \<Longrightarrow> a < hi \<Longrightarrow> out_same P lo hi m0 (m(P a := b))"
  by (auto simp: out_same_def)

lemma store_word_at:
  assumes st: "stack_at token m0 lo hi P" and a: "lo \<le> a" "a + 8 \<le> hi" "8 dvd a" and m: "out_same P lo hi m0 m"
  shows "out_same P lo hi m0 (store_u64 m (P a) v)"
    and "lo \<le> c \<Longrightarrow> c < hi \<Longrightarrow> store_u64 m (P a) v (P c) = (if a \<le> c \<and> c < a + 8 then nat_le 8 (unat v) ! (c - a) else m (P c))"
proof -
  note adj = stack_atD(4) [OF st a]
  have in_word: "P a \<le> x \<and> x < P a + 8 \<longleftrightarrow> (\<exists>j < 8. x = P (a + j))" for x
  proof
    assume "P a \<le> x \<and> x < P a + 8"
    then show "\<exists>j < 8. x = P (a + j)" using adj [of "x - P a"] by (intro exI [of _ "x - P a"]) auto
  qed (use adj in auto)
  show "out_same P lo hi m0 (store_u64 m (P a) v)"
    unfolding out_same_def
  proof (intro allI impI)
    fix x assume x: "x \<notin> P ` {lo..<hi}"
    have "P (a + j) \<in> P ` {lo..<hi}" if "j < 8" for j using that a by auto
    then have "\<not> (P a \<le> x \<and> x < P a + 8)" using x unfolding in_word by blast
    then show "store_u64 m (P a) v x = m0 x" using m x by (auto simp: store_u64_def store_bytes_def out_same_def)
  qed
  assume c: "lo \<le> c" "c < hi"
  have "P a \<le> P c \<and> P c < P a + 8 \<longleftrightarrow> a \<le> c \<and> c < a + 8"
  proof
    assume "P a \<le> P c \<and> P c < P a + 8"
    then obtain j where j: "j < 8" "P c = P (a + j)" unfolding in_word by blast
    have "c = a + j" by (rule inj_onD [OF stack_atD(2) [OF st] j(2)]) (use a c j(1) in auto)
    then show "a \<le> c \<and> c < a + 8" using j(1) by simp
  qed (use adj [of "c - a"] in auto)
  moreover have "a \<le> c \<Longrightarrow> c < a + 8 \<Longrightarrow> P c - P a = c - a" using adj [of "c - a"] by simp
  ultimately show "store_u64 m (P a) v (P c) = (if a \<le> c \<and> c < a + 8 then nat_le 8 (unat v) ! (c - a) else m (P c))"
    by (auto simp: store_u64_def store_bytes_def)
qed

lemma push_bytes_at:
  assumes st: "stack_at token m0 lo hi P" and "lo \<le> a" "a + length bs < hi" "out_same P lo hi m0 m"
  shows "\<exists>m'. push_bytes token (of_nat a) bs m = Ok m' \<and> out_same P lo hi m0 m'
    \<and> (\<forall>c \<in> {lo..<hi}. m' (P c) = (if a \<le> c \<and> c \<le> a + length bs then (bs @ [0]) ! (c - a) else m (P c)))"
  using assms(2-)
proof (induction bs arbitrary: a m)
  case Nil
  have "P c = P a \<longleftrightarrow> c = a" if "c \<in> {lo..<hi}" for c using inj_on_eq_iff [OF stack_atD(2) [OF st] that, of a] Nil.prems by simp
  with Nil.prems stack_atD(3) [OF st Nil.prems(3), of a] show ?case by (auto simp: out_same_upd)
next
  case (Cons b bs)
  let ?m = "m(P a := b)"
  have o: "lo \<le> Suc a" "Suc a + length bs < hi" "out_same P lo hi m0 ?m" using Cons.prems out_same_upd [of P lo hi m0 m a b] by simp_all
  have "\<exists>m'. push_bytes token (of_nat (Suc a)) bs ?m = Ok m' \<and> out_same P lo hi m0 m'
      \<and> (\<forall>c \<in> {lo..<hi}. m' (P c) = (if Suc a \<le> c \<and> c \<le> Suc a + length bs then (bs @ [0]) ! (c - Suc a) else ?m (P c)))"
    by (rule Cons.IH [OF o])
  then obtain m' where
    m': "push_bytes token (of_nat (Suc a)) bs ?m = Ok m'" "out_same P lo hi m0 m'"
      "\<forall>c \<in> {lo..<hi}. m' (P c) = (if Suc a \<le> c \<and> c \<le> Suc a + length bs then (bs @ [0]) ! (c - Suc a) else ?m (P c))" by blast
  have inj: "P c = P a \<longleftrightarrow> c = a" if "c \<in> {lo..<hi}" for c using inj_on_eq_iff [OF stack_atD(2) [OF st] that, of a] Cons.prems by simp
  have "m' (P c) = (if a \<le> c \<and> c \<le> a + length (b # bs) then ((b # bs) @ [0]) ! (c - a) else m (P c))" if c: "c \<in> {lo..<hi}" for c
    using bspec [OF m'(3) c] inj [OF c] by (cases "c = a") (auto simp: nth_Cons' le_eq_less_or_eq)
  moreover have "push_bytes token (of_nat a) (b # bs) m = Ok m'"
    using stack_atD(3) [OF st Cons.prems(3), of a] Cons.prems m'(1) by (simp add: ac_simps)
  ultimately show ?case using m'(2) by blast
qed

text \<open>The bytes that the strings occupy, and how a memory \<open>V\<close> shows the arguments.\<close>

definition strings_size :: "u8 list list \<Rightarrow> nat" where
  "strings_size args = (\<Sum>arg \<leftarrow> args. length arg + 1)"

lemma strings_size_simps [simp]: "strings_size [] = 0" "strings_size (a # as) = length a + 1 + strings_size as"
  by (simp_all add: strings_size_def)

fun args_at :: "(nat \<Rightarrow> u8) \<Rightarrow> nat \<Rightarrow> nat \<Rightarrow> u8 list list \<Rightarrow> bool" where
  "args_at V A sp [] = True"
| "args_at V A sp (a # as) \<longleftrightarrow> (\<forall>j < 8. V (A + j) = nat_le 8 (sp - (length a + 1)) ! j)
     \<and> (\<forall>j \<le> length a. V (sp - (length a + 1) + j) = (a @ [0]) ! j) \<and> args_at V (A + 8) (sp - (length a + 1)) as"

lemma args_at_cong:
  assumes "\<And>c. A \<le> c \<and> c < A + 8 * length as \<or> sp - strings_size as \<le> c \<and> c < sp \<Longrightarrow> V' c = V c" "strings_size as \<le> sp"
  shows "args_at V' A sp as = args_at V A sp as"
  using assms
proof (induction as arbitrary: A sp)
  case (Cons a as)
  let ?o = "sp - (length a + 1)"
  have "args_at V' (A + 8) ?o as = args_at V (A + 8) ?o as"
  proof (rule Cons.IH)
    show "V' c = V c" if "A + 8 \<le> c \<and> c < A + 8 + 8 * length as \<or> ?o - strings_size as \<le> c \<and> c < ?o" for c
      by (rule Cons.prems(1)) (use that Cons.prems(2) in auto)
  qed (use Cons.prems(2) in simp)
  moreover have "V' (A + j) = V (A + j)" if "j < 8" for j by (rule Cons.prems(1)) (use that in auto)
  moreover have "V' (?o + j) = V (?o + j)" if "j \<le> length a" for j by (rule Cons.prems(1)) (use that Cons.prems(2) in auto)
  ultimately show ?case by simp
qed simp

lemma push_args_at:
  assumes st: "stack_at token m0 lo hi P"
    and "8 dvd A" "lo + strings_size args \<le> sp" "sp \<le> A" "A + 8 * length args \<le> hi" "out_same P lo hi m0 m"
    and "\<forall>j < length args. j < length argv \<and> argv ! j = P (A + 8 * j)"
  shows "\<exists>m'. push_args token argv args (of_nat sp) m = Ok (of_nat (sp - strings_size args), m') \<and> out_same P lo hi m0 m'
    \<and> args_at (\<lambda>c. m' (P c)) A sp args
    \<and> (\<forall>c \<in> {lo..<hi}. \<not> (A \<le> c \<and> c < A + 8 * length args) \<longrightarrow> \<not> (sp - strings_size args \<le> c \<and> c < sp) \<longrightarrow> m' (P c) = m (P c))"
  using assms(2-)
proof (induction args arbitrary: A sp m argv)
  case (Cons a as)
  define d where "d = sp - (length a + 1)"
  have sp: "sp = d + length a + 1" using Cons.prems(2) by (simp add: d_def)
  have le: "d + length a < A" "lo \<le> d" "d \<le> A" "A + 8 \<le> hi" "lo \<le> A" "d + length a < hi" "lo + strings_size as \<le> d" "d \<le> A + 8" "8 dvd A + 8"
    using Cons.prems(1-4) by (auto simp: sp)
  have u: "(of_nat sp - of_nat (length a + 1) :: usize) = of_nat d" by (simp add: sp)
  have uo: "unat (of_nat d :: usize) = d" using le(3,4) stack_atD(1) [OF st] by (simp add: unat_of_nat)
  let ?m1 = "store_u64 m (P A) (of_nat d)"
  note m1 = store_word_at [OF st le(5,4) Cons.prems(1,5), where v = "of_nat d", unfolded uo]
  from push_bytes_at [OF st le(2,6) m1(1)] obtain m2 where
    m2: "push_bytes token (of_nat d) a ?m1 = Ok m2" "out_same P lo hi m0 m2"
      "\<forall>c \<in> {lo..<hi}. m2 (P c) = (if d \<le> c \<and> c \<le> d + length a then (a @ [0]) ! (c - d) else ?m1 (P c))" by blast
  have tl: "\<forall>j < length as. j < length (tl argv) \<and> tl argv ! j = P (A + 8 + 8 * j)"
  proof (intro allI impI)
    fix j assume "j < length as"
    then have "Suc j < length argv" "argv ! Suc j = P (A + 8 * Suc j)" using Cons.prems(6) by auto
    then show "j < length (tl argv) \<and> tl argv ! j = P (A + 8 + 8 * j)" by (simp add: nth_tl add.assoc)
  qed
  have "A + 8 + 8 * length as \<le> hi" using Cons.prems(4) by simp
  from Cons.IH [OF le(9,7,8) this m2(2) tl] obtain m3 where
    m3: "push_args token (tl argv) as (of_nat d) m2 = Ok (of_nat (d - strings_size as), m3)" "out_same P lo hi m0 m3"
      "args_at (\<lambda>c. m3 (P c)) (A + 8) d as"
    and rest: "\<forall>c \<in> {lo..<hi}. \<not> (A + 8 \<le> c \<and> c < A + 8 + 8 * length as) \<longrightarrow> \<not> (d - strings_size as \<le> c \<and> c < d) \<longrightarrow> m3 (P c) = m2 (P c)"
    by blast
  have "index argv 0 = Ok (P A)" using Cons.prems(6) by (auto simp: index_def)
  then have run: "push_args token argv (a # as) (of_nat sp) m = Ok (of_nat (sp - strings_size (a # as)), m3)"
    using m2(1) m3(1) u by (simp add: Let_def sp)
  have w: "m3 (P (A + j)) = nat_le 8 d ! j" if "j < 8" for j
    using rest m2(3) m1(2) [where c = "A + j"] that le by auto
  have b: "m3 (P (d + j)) = (a @ [0]) ! j" if "j \<le> length a" for j
    using rest m2(3) that le by auto
  have keep: "m3 (P c) = m (P c)"
    if "c \<in> {lo..<hi}" "\<not> (A \<le> c \<and> c < A + 8 * length (a # as))" "\<not> (sp - strings_size (a # as) \<le> c \<and> c < sp)" for c
    using rest m2(3) m1(2) [where c = c] that le by (auto simp: sp)
  have "args_at (\<lambda>c. m3 (P c)) A sp (a # as)" using w b m3(3) by (simp add: sp)
  then show ?case using run m3(2) keep by blast
qed auto

lemma argv_refs_at:
  assumes st: "stack_at token m0 lo hi P" and "lo \<le> B" "B + 8 * (arg + n) \<le> hi" "out_same P lo hi m0 m"
  shows "argv_refs token (of_nat B) arg n m = Ok (map (\<lambda>j. P (B + 8 * j)) [arg..<arg + n])"
  using assms(3)
proof (induction n arbitrary: arg)
  case (Suc n)
  have "(of_nat B + of_nat arg * 8 :: usize) = of_nat (B + 8 * arg)" by simp
  then have "translated_ref_mut token (of_nat B + of_nat arg * 8) m = Ok (P (B + 8 * arg))"
    using stack_atD(3) [OF st assms(4), of "B + 8 * arg"] assms(2) Suc.prems by (simp only:) simp
  moreover have "[arg..<arg + Suc n] = arg # [Suc arg..<Suc arg + n]" by (simp add: upt_rec)
  ultimately show ?case using Suc.IH [of "Suc arg"] Suc.prems by simp
qed simp

lemma exec_stack_at:
  assumes st: "stack_at token m lo hi P" and hi: "hi = unat user_sp" "8 dvd hi"
    and fits: "lo + 8 * (length args + 1) + strings_size args \<le> hi"
  defines "B \<equiv> hi - 8 * (length args + 1)"
  defines "sp \<equiv> B - strings_size args"
  shows "\<exists>m'. exec_stack token args user_sp m = Ok ((of_nat B, of_nat (sp - sp mod 8)), m') \<and> out_same P lo hi m m'
    \<and> args_at (\<lambda>c. m' (P c)) B B args"
proof -
  let ?n = "length args"
  have b: "lo + strings_size args \<le> B" "B + 8 * (?n + 1) = hi" "8 dvd B" "sp \<le> B" "lo \<le> sp" using fits hi(2) by (auto simp: B_def sp_def)
  have "user_sp = of_nat hi" using hi(1) by simp
  also have "\<dots> = of_nat B + of_nat ((?n + 1) * 8)" unfolding b(2) [symmetric] by (simp only: of_nat_add [symmetric]) (simp add: mult.commute)
  finally have base: "user_sp - of_nat ((?n + 1) * 8) = of_nat B" by simp
  have id: "out_same P lo hi m m" by (simp add: out_same_def)
  have refs: "argv_refs token (of_nat B) 0 (?n + 1) m = Ok (map (\<lambda>j. P (B + 8 * j)) [0..<?n + 1])"
    using argv_refs_at [OF st _ _ id, of B 0 "?n + 1"] b by simp
  have "lo \<le> B + 8 * ?n" "B + 8 * ?n + 8 \<le> hi" "8 dvd B + 8 * ?n" using b by auto
  note m1 = store_word_at(1) [OF st this id, of 0]
  have "\<exists>m'. push_args token (map (\<lambda>j. P (B + 8 * j)) [0..<?n + 1]) args (of_nat B) (store_u64 m (P (B + 8 * ?n)) 0) = Ok (of_nat sp, m')
      \<and> out_same P lo hi m m' \<and> args_at (\<lambda>c. m' (P c)) B B args"
    using push_args_at [OF st b(3,1) order_refl _ m1, of "map (\<lambda>j. P (B + 8 * j)) [0..<?n + 1]"] b(2)
    unfolding sp_def by (auto simp: nth_append)
  then obtain m' where m': "push_args token (map (\<lambda>j. P (B + 8 * j)) [0..<?n + 1]) args (of_nat B) (store_u64 m (P (B + 8 * ?n)) 0) = Ok (of_nat sp, m')"
    "out_same P lo hi m m'" "args_at (\<lambda>c. m' (P c)) B B args" by blast
  have small: "sp < 2 ^ 64" using b stack_atD(1) [OF st] by simp
  have "(of_nat sp mod 8 :: usize) = of_nat (sp mod 8)"
    using small by (simp add: word_unat_eq_iff unat_mod unat_of_nat)
  then have "(of_nat sp - of_nat sp mod 8 :: usize) = of_nat (sp - sp mod 8)" by (simp add: of_nat_diff)
  then have "exec_stack token args user_sp m = Ok ((of_nat B, of_nat (sp - sp mod 8)), m')"
    unfolding exec_stack_def Let_def base refs and_then_simps using m'(1) by (simp add: index_def nth_append del: upt_Suc)
  then show ?thesis using m'(2,3) by blast
qed

section \<open>Reading back\<close>

lemma str_len_loop_at:
  assumes "\<forall>j \<le> length a. um (p + of_nat j) = Some ((a @ [0]) ! j)" "0 \<notin> set a" "i \<le> length a"
  shows "str_len_loop um p i = Some (Ok (length a))"
  using assms(3)
proof (induction "length a - i" arbitrary: i)
  case 0
  then show ?case using assms(1) by (subst str_len_loop.simps) (simp add: nth_append)
next
  case (Suc k)
  then have i: "i < length a" "k = length a - Suc i" by simp_all
  have "um (p + of_nat i) = Some (a ! i)" using assms(1) i(1) by (simp add: nth_append)
  moreover have "a ! i \<noteq> 0" using assms(2) nth_mem [OF i(1)] by metis
  moreover note Suc.hyps(1) [OF i(2)]
  ultimately show ?case using i(1) by (subst str_len_loop.simps) simp
qed

lemma user_usize_at:
  assumes "\<forall>j < 8. um (va + of_nat j) = Some (nat_le 8 v ! j)"
  shows "user_usize um va = Ok (of_nat v)"
proof -
  have "map (\<lambda>j. the (um (va + of_nat j))) [0..<8] = nat_le 8 v"
    by (rule nth_equalityI) (use assms in simp_all)
  moreover have "(of_nat (v mod 256 ^ 8) :: usize) = of_nat v" by (simp add: word_unat_eq_iff unat_of_nat)
  ultimately show ?thesis using assms by (simp add: user_usize_def le_nat_nat_le)
qed

lemma start_argv_at:
  assumes um: "\<forall>c \<in> {lo..<hi}. um (of_nat c) = Some (V c)"
    and "args_at V (B + 8 * i) sp args" "lo + strings_size args \<le> sp" "sp \<le> hi" "lo \<le> B" "B + 8 * (i + length args) \<le> hi"
    and "\<forall>a \<in> set args. 0 \<notin> set a \<and> utf8_valid a"
  shows "start_argv um (of_nat B) i (length args) = Some (Ok args)"
  using assms(2-)
proof (induction args arbitrary: i sp)
  case (Cons a as)
  define d where "d = sp - (length a + 1)"
  have sp: "sp = d + length a + 1" using Cons.prems(2) by (simp add: d_def)
  let ?A = "B + 8 * i"
  have "um (of_nat ?A + of_nat j) = Some (nat_le 8 d ! j)" if "j < 8" for j
  proof -
    have "um (of_nat (?A + j)) = Some (V (?A + j))" by (rule um [rule_format]) (use Cons.prems(4,5) that in simp)
    with Cons.prems(1) that show ?thesis by (simp add: d_def)
  qed
  then have ptr: "user_usize um (of_nat B + of_nat i * 8) = Ok (of_nat d)" using user_usize_at [of um "of_nat ?A" d] by (simp add: mult.commute)
  have bytes: "\<forall>j \<le> length a. um (of_nat d + of_nat j) = Some ((a @ [0]) ! j)"
  proof (intro allI impI)
    fix j assume j: "j \<le> length a"
    have "um (of_nat (d + j)) = Some (V (d + j))" by (rule um [rule_format]) (use Cons.prems(2,3) j sp in simp)
    with Cons.prems(1) j show "um (of_nat d + of_nat j) = Some ((a @ [0]) ! j)" by (simp add: d_def)
  qed
  have len: "str_len_loop um (of_nat d) 0 = Some (Ok (length a))" using str_len_loop_at [OF bytes] Cons.prems(6) by simp
  have str: "map (\<lambda>j. the (um (of_nat d + of_nat j))) [0..<length a] = a"
    by (rule nth_equalityI) (use bytes in \<open>simp_all add: nth_append\<close>)
  have "args_at V (B + 8 * Suc i) d as" using Cons.prems(1) by (simp add: d_def ac_simps)
  then have "start_argv um (of_nat B) (Suc i) (length as) = Some (Ok as)"
    using Cons.prems(2-6) sp by (intro Cons.IH [of "Suc i" d]) simp_all
  with ptr len str Cons.prems(6) show ?case by (simp add: from_utf8_def)
qed simp

section \<open>The stack of an address space\<close>

definition covered :: "MemorySet \<Rightarrow> nat set \<Rightarrow> bool" where
  "covered ms R \<longleftrightarrow> (\<forall>a \<in> R. \<exists>ar \<in> set (areas ms). page_of a \<in> set (area_pages ar))"

definition stack_addr :: "MemorySet \<Rightarrow> memory \<Rightarrow> nat \<Rightarrow> nat" where
  "stack_addr ms m a = unat (the_ppn (PageTableEntry_ppn (the (pt_abs (page_table ms) m (page_of a))))) * 4096 + a mod 4096"

lemma page_of_eq: "a < 2 ^ 38 \<Longrightarrow> c < 2 ^ 38 \<Longrightarrow> page_of a = page_of c \<longleftrightarrow> a div 4096 = c div 4096"
proof -
  assume "a < 2 ^ 38" "c < 2 ^ 38"
  then have "unat (of_nat (a div 4096) :: usize) = a div 4096" "unat (of_nat (c div 4096) :: usize) = c div 4096"
    by (simp_all only: unat_of_nat) simp_all
  then show ?thesis by (metis page_of_def VirtPageNum.inject)
qed

text \<open>The frame behind an address, one of the data frames of the address space.\<close>

lemma covered_page: "covered ms R \<Longrightarrow> a \<in> R \<Longrightarrow> page_of a \<in> set (concat (map area_pages (areas ms)))"
  by (auto simp: covered_def)

lemma stack_frame:
  assumes ms: "user_ms l ms s" and "covered ms R" "a \<in> R"
  obtains f where "pt_abs (page_table ms) (mem s) (page_of a) \<noteq> None" "stack_addr ms (mem s) a = unat (the_ppn f) * 4096 + a mod 4096"
    "(page_of a, f) \<in> ms_frames ms" "f \<notin> set (pt_frames (page_table ms))" "stack_addr ms (mem s) a \<in> frame_bytes f"
proof (rule user_ms_page [OF ms covered_page [OF assms(2,3)]])
  fix f perm
  assume f: "(page_of a, f) \<in> ms_frames ms" "unat (the_ppn f) < 2 ^ 44" "f \<notin> set (pt_frames (page_table ms))"
    "pt_abs (page_table ms) (mem s) (page_of a) = Some (PageTableEntry_new f perm)"
  then have "stack_addr ms (mem s) a = unat (the_ppn f) * 4096 + a mod 4096" by (simp add: stack_addr_def)
  with f that show thesis by (auto simp: frame_bytes_def)
qed

lemma stack_addr_inj:
  assumes ms: "user_ms l ms s" and cov: "covered ms R" and R: "R \<subseteq> {..<2 ^ 38}"
  shows "inj_on (stack_addr ms (mem s)) R"
proof (rule inj_onI)
  fix a c assume a: "a \<in> R" "c \<in> R" and eq: "stack_addr ms (mem s) a = stack_addr ms (mem s) c"
  obtain f where f: "stack_addr ms (mem s) a = unat (the_ppn f) * 4096 + a mod 4096" "(page_of a, f) \<in> ms_frames ms"
    using stack_frame [OF ms cov a(1)] by metis
  obtain g where g: "stack_addr ms (mem s) c = unat (the_ppn g) * 4096 + c mod 4096" "(page_of c, g) \<in> ms_frames ms"
    using stack_frame [OF ms cov a(2)] by metis
  let ?x = "unat (the_ppn f) * 4096 + a mod 4096"
  have "?x div 4096 = unat (the_ppn f)" "?x mod 4096 = a mod 4096" by simp_all
  moreover have "?x = unat (the_ppn g) * 4096 + c mod 4096" using eq f(1) g(1) by simp
  ultimately have fg: "unat (the_ppn f) = unat (the_ppn g)" "a mod 4096 = c mod 4096" by simp_all
  then have "f = g" by (simp add: PhysPageNum_eq_iff)
  then have "page_of a = page_of c" using ms_frames_inj [OF ms f(2)] g(2) by simp
  then have "a div 4096 = c div 4096" using a R page_of_eq by (metis lessThan_iff subsetD)
  then show "a = c" using fg(2) by (metis div_mult_mod_eq)
qed

lemma aligned_word: "8 dvd a \<Longrightarrow> j < 8 \<Longrightarrow> (a + j) div 4096 = a div 4096 \<and> (a + j) mod 4096 = a mod 4096 + (j :: nat)"
proof -
  assume "8 dvd a" and j: "j < 8"
  then obtain b where a: "a = 8 * b" by blast
  have "(8 * b + j) div 8 = b" using j by simp
  then have "(a + j) div 4096 = b div 512" "a div 4096 = b div 512"
    using div_mult2_eq [of "a + j" 8 512] div_mult2_eq [of a 8 512] by (simp_all add: a)
  then show ?thesis using div_mult_mod_eq [of "a + j" 4096] div_mult_mod_eq [of a 4096] by linarith
qed

lemma stack_at_user_ms:
  assumes ms: "user_ms l ms s" and cov: "covered ms {lo..<hi}" and hi: "hi \<le> 2 ^ 38"
  shows "stack_at (MemorySet_token ms) (mem s) lo hi (stack_addr ms (mem s))"
  unfolding stack_at_def
proof (intro conjI allI impI ballI)
  let ?P = "stack_addr ms (mem s)" and ?pt = "page_table ms"
  have wf: "pt_wf l ?pt s" using ms by (simp add: user_ms_def)
  show "hi \<le> 2 ^ 38" by (rule hi)
  show "inj_on ?P {lo..<hi}" by (rule stack_addr_inj [OF ms cov]) (use hi in auto)
  show "?P (a + j) = ?P a + j" if "8 dvd a" "j < 8" for a j using aligned_word [OF that] by (simp add: stack_addr_def page_of_def)
  fix m a assume m: "out_same ?P lo hi (mem s) m" and a: "a \<in> {lo..<hi}"
  have a39: "a < 2 ^ 39" using a hi by simp
  have out: "m x = mem s x" if q: "q \<in> set (pt_frames ?pt)" "x \<in> frame_bytes q" for q x
  proof -
    have "x \<noteq> ?P c" if "c \<in> {lo..<hi}" for c
      using stack_frame [OF ms cov that] q frame_bytes_disjoint by (metis disjoint_iff)
    then have "x \<notin> ?P ` {lo..<hi}" by blast
    then show ?thesis using m by (simp add: out_same_def)
  qed
  have "pt_abs ?pt m (page_of a) = pt_abs ?pt (mem s) (page_of a)"
    using pt_wf_untouched(2) [OF wf, of "s\<lparr>mem := m\<rparr>" "page_of a"] wf out by (simp add: pt_wf_def)
  then obtain e where e: "pt_abs ?pt m (page_of a) = Some e" "pt_abs ?pt (mem s) (page_of a) = Some e"
    using stack_frame [OF ms cov a] by (metis option.exhaust)
  obtain pa where "PageTable_translate_va (PageTable_from_token (MemorySet_token ms)) (VirtAddr_from_usize (of_nat a)) m = Some pa"
    "unat (the_pa pa) = unat (the_ppn (PageTableEntry_ppn e)) * 4096 + a mod 4096"
    by (rule user_translate [OF wf e(1) a39])
  then show "translated_ref_mut (MemorySet_token ms) (of_nat a) m = Ok (?P a)"
    using e(2) by (simp add: translated_ref_mut_def stack_addr_def)
qed

lemma exec_stack_user_ms:
  assumes "user_ms l ms s" "covered ms {lo..<unat user_sp}" "unat user_sp \<le> 2 ^ 38" "8 dvd unat user_sp"
    and "lo + 8 * (length args + 1) + strings_size args \<le> unat user_sp" "\<forall>a \<in> set args. 0 \<notin> set a \<and> utf8_valid a"
  obtains argv_base sp m' where "exec_stack (MemorySet_token ms) args user_sp (mem s) = Ok ((argv_base, sp), m')"
    "out_same (stack_addr ms (mem s)) lo (unat user_sp) (mem s) m'" "8 dvd unat sp" "sp \<le> argv_base" "argv_base < user_sp"
    "\<And>um. (\<And>c. c \<in> {lo..<unat user_sp} \<Longrightarrow> um (of_nat c) = user_byte (MemorySet_token ms) m' (of_nat c)) \<Longrightarrow> start_argv um argv_base 0 (length args) = Some (Ok args)"
proof -
  let ?P = "stack_addr ms (mem s)" and ?hi = "unat user_sp"
  define B where "B = ?hi - 8 * (length args + 1)"
  define sp where "sp = B - strings_size args - (B - strings_size args) mod 8"
  note st = stack_at_user_ms [OF assms(1-3)]
  from exec_stack_at [OF st refl assms(4,5)] obtain m' where
    m': "exec_stack (MemorySet_token ms) args user_sp (mem s) = Ok ((of_nat B, of_nat sp), m')" "out_same ?P lo ?hi (mem s) m'"
      "args_at (\<lambda>c. m' (?P c)) B B args" unfolding B_def sp_def by blast
  have byte: "user_byte (MemorySet_token ms) m' (of_nat c) = Some (m' (?P c))" if "c \<in> {lo..<?hi}" for c
    using stack_atD(3) [OF st m'(2), of c] that by (auto simp: user_byte_def translated_ref_mut_def and_then_eq_Ok_conv unwrap_def split: option.splits)
  have args: "start_argv um (of_nat B) 0 (length args) = Some (Ok args)"
    if "\<And>c. c \<in> {lo..<?hi} \<Longrightarrow> um (of_nat c) = user_byte (MemorySet_token ms) m' (of_nat c)" for um
    using start_argv_at [of lo ?hi um "\<lambda>c. m' (?P c)" B 0 B args] m'(3) assms(5,6) that byte by (simp add: B_def)
  have le: "sp \<le> B" "B < ?hi" using assms(5) by (simp_all add: B_def sp_def)
  have "unat (of_nat B :: usize) = B" "unat (of_nat sp :: usize) = sp" using le assms(3) by (simp_all add: unat_of_nat)
  moreover have "8 dvd sp" unfolding sp_def by (rule dvd_minus_mod)
  ultimately show thesis using that [OF m'(1,2) _ _ _ args] le by (simp add: word_le_nat_alt word_less_nat_alt)
qed

text \<open>
  C11. Arguments arrive: when the top of the stack of a new address space is mapped and large enough, \<^verbatim>\<open>exec\<close> writes
  the arguments there without a panic, changes no memory outside the frames of the address space and leaves an aligned
  stack pointer, and \<^verbatim>\<open>_start\<close> of the program, given the address of the array, reads back exactly
  the arguments, also where they cross page boundaries.
\<close>

theorem exec_arguments_roundtrip:
  assumes "user_ms l ms s" "covered ms {lo..<unat user_sp}" "unat user_sp \<le> 2 ^ 38" "8 dvd unat user_sp"
    and "lo + 8 * (length args + 1) + strings_size args \<le> unat user_sp" "\<forall>a \<in> set args. 0 \<notin> set a \<and> utf8_valid a"
  shows "\<exists>argv_base sp m'. exec_stack (MemorySet_token ms) args user_sp (mem s) = Ok ((argv_base, sp), m')
    \<and> start_argv (user_byte (MemorySet_token ms) m') argv_base 0 (length args) = Some (Ok args)
    \<and> (\<forall>x. x \<notin> \<Union> (frame_bytes ` ms_data ms) \<longrightarrow> m' x = mem s x) \<and> 8 dvd unat sp \<and> sp \<le> argv_base \<and> argv_base < user_sp"
proof -
  obtain argv_base sp m' where m': "exec_stack (MemorySet_token ms) args user_sp (mem s) = Ok ((argv_base, sp), m')"
    "out_same (stack_addr ms (mem s)) lo (unat user_sp) (mem s) m'" "8 dvd unat sp" "sp \<le> argv_base" "argv_base < user_sp"
    "start_argv (user_byte (MemorySet_token ms) m') argv_base 0 (length args) = Some (Ok args)"
    by (rule exec_stack_user_ms [OF assms]) blast
  moreover have "m' x = mem s x" if x: "x \<notin> \<Union> (frame_bytes ` ms_data ms)" for x
  proof -
    have "stack_addr ms (mem s) c \<in> \<Union> (frame_bytes ` ms_data ms)" if "c \<in> {lo..<unat user_sp}" for c
      using stack_frame [OF assms(1,2) that] by (metis UN_I ms_frames_data)
    then have "x \<notin> stack_addr ms (mem s) ` {lo..<unat user_sp}" using x by blast
    then show ?thesis using m'(2) by (simp add: out_same_def)
  qed
  ultimately show ?thesis by blast
qed

theorem exec_arguments_roundtrip_witness:
  "case ms_example of
     Ok (ms, s) \<Rightarrow> \<exists>argv_base sp m'. exec_stack (MemorySet_token ms) [[108, 115], [45, 108]] 0x3000 (mem s) = Ok ((argv_base, sp), m')
       \<and> start_argv (user_byte (MemorySet_token ms) m') argv_base 0 2 = Some (Ok [[108, 115], [45, 108]])
   | Panic _ \<Rightarrow> False"
proof -
  obtain ms s a where ms: "ms_example = Ok (ms, s)" "user_ms 0x80600 ms s" "areas ms = [a]"
    "VPNRange_list (vpn_range a) = [VirtPageNum 1, VirtPageNum 2]" by (rule ms_example_ok)
  have "page_of c \<in> {VirtPageNum 1, VirtPageNum 2}" if "c \<in> {0x1000..<unat (0x3000 :: usize)}" for c
  proof -
    have "c div 4096 = 1 \<or> c div 4096 = 2" using that by (simp, linarith)
    then show ?thesis by (auto simp: page_of_def)
  qed
  then have "covered ms {0x1000..<unat (0x3000 :: usize)}" by (simp add: covered_def ms(3,4))
  then have "\<exists>argv_base sp m'. exec_stack (MemorySet_token ms) [[108, 115], [45, 108]] 0x3000 (mem s) = Ok ((argv_base, sp), m')
    \<and> start_argv (user_byte (MemorySet_token ms) m') argv_base 0 (length [[108 :: u8, 115], [45, 108]]) = Some (Ok [[108, 115], [45, 108]])
    \<and> (\<forall>x. x \<notin> \<Union> (frame_bytes ` ms_data ms) \<longrightarrow> m' x = mem s x) \<and> 8 dvd unat sp \<and> sp \<le> argv_base \<and> argv_base < 0x3000"
    by (intro exec_arguments_roundtrip [OF ms(2)]) (assumption | simp)+
  moreover have "length [[108 :: u8, 115], [45, 108]] = 2" by simp
  ultimately show ?thesis unfolding ms(1) outcome.case prod.case by metis
qed

end
