(* ===== verification/Task_Fork.thy ===== *)
theory Task_Fork
  imports Task_Steps
begin

text \<open>
  \<^verbatim>\<open>fork\<close> as a whole: with enough frames it returns, the process table is well formed again, and the child is
  a copy of the parent in memory that the two do not share.
\<close>

section \<open>The trap context of the child\<close>

definition TRAP_VPN :: VirtPageNum where "TRAP_VPN = VirtPageNum 0x7FFFFFE"

lemma trap_vpn: "VirtPageNum_from_VirtAddr (VirtAddr_from_usize TRAP_CONTEXT) = Ok TRAP_VPN"
  by (simp add: VirtPageNum_from_VirtAddr_def VirtAddr_page_offset_def VirtAddr_floor_def VirtAddr_from_usize_def TRAP_VPN_def const_defs)

lemma get_mut_frame: "unat (the_ppn p) < 2 ^ 44 \<Longrightarrow> PhysPageNum_get_mut p = unat (the_ppn p) * 4096"
  by (simp add: PhysPageNum_get_mut_def unat_PhysAddr_from_PhysPageNum)

lemma load_trap_cx_contents:
  assumes "unat (the_ppn p) < 2 ^ 44"
  shows "load_trap_cx m p = TrapContext_of_bytes (take TRAP_CONTEXT_SIZE (frame_contents m p))"
proof -
  have "load_bytes m a TRAP_CONTEXT_SIZE = take TRAP_CONTEXT_SIZE (load_bytes m a 4096)" for a
    by (simp add: load_bytes_def TRAP_CONTEXT_SIZE_def take_map)
  then show ?thesis by (simp add: load_trap_cx_def get_mut_frame [OF assms] frame_contents_def)
qed

definition user_pages :: "MemorySet \<Rightarrow> VirtPageNum set" where
  "user_pages ms = set (concat (map area_pages (areas ms)))"

lemma trap_cx_frame_user_ms:
  assumes "user_ms l ms s" "TRAP_VPN \<in> user_pages ms"
  obtains f where "trap_cx_frame ms (mem s) = Ok f" "(TRAP_VPN, f) \<in> ms_frames ms" "unat (the_ppn f) < 2 ^ 44" "f \<notin> set (pt_frames (page_table ms))"
    "page_contents (page_table ms) (mem s) TRAP_VPN = Some (frame_contents (mem s) f)"
proof (rule user_ms_page [OF assms(1) assms(2) [unfolded user_pages_def]])
  fix f perm
  assume f: "(TRAP_VPN, f) \<in> ms_frames ms" "unat (the_ppn f) < 2 ^ 44" "f \<notin> set (pt_frames (page_table ms))"
    "pt_abs (page_table ms) (mem s) TRAP_VPN = Some (PageTableEntry_new f perm)"
  have "trap_cx_frame ms (mem s) = Ok f"
    using pt_abs_translate [OF f(4)] f(2) by (simp add: trap_cx_frame_def trap_vpn MemorySet_translate_def)
  with f that show thesis by (simp add: page_contents_def)
qed

lemma user_page_kept:
  assumes P: "user_ms l P s" and "\<And>v. pt_abs (page_table P) m v = pt_abs (page_table P) (mem s) v"
    and "\<And>f. f \<in> ms_own P \<Longrightarrow> frame_contents m f = frame_contents (mem s) f" and v: "v \<in> user_pages P"
  shows "page_contents (page_table P) m v = page_contents (page_table P) (mem s) v"
proof (rule user_ms_page [OF P v [unfolded user_pages_def]])
  fix f perm assume f: "(v, f) \<in> ms_frames P" "pt_abs (page_table P) (mem s) v = Some (PageTableEntry_new f perm)" "unat (the_ppn f) < 2 ^ 44"
  have "f \<in> ms_own P" using ms_frames_data [OF f(1)] by (simp add: ms_own_def)
  with assms(2,3) f(2,3) show ?thesis by (simp add: page_contents_def)
qed

text \<open>The copy of an address space.\<close>

lemma forked_space:
  assumes P: "user_ms l P s" and C: "from_existed_user tramp P s = Ok (C, s')" and trap: "TRAP_VPN \<in> user_pages P"
  shows "user_ms l C s'" "user_ms l P s'" "ms_own C \<inter> ms_own P = {}" "user_pages C = user_pages P"
    "v \<in> user_pages P \<Longrightarrow> page_contents (page_table C) (mem s') v = page_contents (page_table P) (mem s) v"
    "v \<in> user_pages P \<Longrightarrow> page_contents (page_table P) (mem s') v = page_contents (page_table P) (mem s) v"
proof -
  note C = from_existed_user_Ok [OF P C]
  note G = user_ms_grows [OF P C(2), simplified]
  show "user_ms l C s'" by (rule C(1))
  show "user_ms l P s'" by (rule G(1))
  show "ms_own C \<inter> ms_own P = {}" using G(4) by (simp add: inf_commute)
  have "map area_pages (areas C) = map area_pages (areas P)" using C(4) by (metis (no_types, lifting) list.map_comp comp_def map_map map_eq_conv)
  then show "user_pages C = user_pages P" by (simp add: user_pages_def)
  show "page_contents (page_table C) (mem s') v = page_contents (page_table P) (mem s) v" if "v \<in> user_pages P"
    using C(3) that by (auto simp: user_pages_def area_copied_def)
  show "page_contents (page_table P) (mem s') v = page_contents (page_table P) (mem s) v" if v: "v \<in> user_pages P"
    by (rule user_page_kept [OF P G(2,3) v])
qed

text \<open>\<^verbatim>\<open>sys_fork\<close> returns when its parts do.\<close>

lemma sys_fork_run:
  assumes "current k = Some p" "tcbs k p = Some tcb" "borrowed k = {}" "tcbs k (next_tcb k) = None"
    and "PidAllocator_alloc (PID_ALLOCATOR k) = (h, a)" "KernelStack_new h (KERNEL_SPACE k) (k_mm k) = Ok (ks, KS, s0)"
    and "from_existed_user (env_trampoline env) (memory_set (inner tcb)) s0 = Ok (C, s1)" "trap_cx_frame C (mem s1) = Ok f"
  shows "\<exists>k'. sys_fork env k = Ok (handle_pid h, k')"
proof -
  have "next_tcb k \<noteq> p" using assms(2,4) by auto
  then show ?thesis using assms
    by (simp add: sys_fork_def fork_def current_task_def with_inner_def inner_exclusive_access_def pid_alloc_def new_kernel_stack_def new_tcb_def
        Let_def set_mem_def release_def put_inner_def add_task_def getpid_def)
qed

text \<open>Pages with the same contents hold the same trap context.\<close>

lemma trap_cx_same:
  assumes "user_ms l A s" "user_ms m B s'" "TRAP_VPN \<in> user_pages A" "TRAP_VPN \<in> user_pages B"
    and "page_contents (page_table A) (mem s) TRAP_VPN = page_contents (page_table B) (mem s') TRAP_VPN"
  obtains f q where "trap_cx_frame A (mem s) = Ok f" "trap_cx_frame B (mem s') = Ok q" "load_trap_cx (mem s) f = load_trap_cx (mem s') q"
proof -
  obtain f where f: "trap_cx_frame A (mem s) = Ok f" "unat (the_ppn f) < 2 ^ 44" "page_contents (page_table A) (mem s) TRAP_VPN = Some (frame_contents (mem s) f)"
    by (rule trap_cx_frame_user_ms [OF assms(1,3)])
  obtain q where q: "trap_cx_frame B (mem s') = Ok q" "unat (the_ppn q) < 2 ^ 44" "page_contents (page_table B) (mem s') TRAP_VPN = Some (frame_contents (mem s') q)"
    by (rule trap_cx_frame_user_ms [OF assms(2,4)])
  show thesis using that [OF f(1) q(1)] assms(5) f(3) q(3) load_trap_cx_contents [OF f(2)] load_trap_cx_contents [OF q(2)] by simp
qed

text \<open>The part of \<^verbatim>\<open>fork\<close> after the kernel stack of the child is mapped.\<close>

lemma fork_after_stack:
  assumes inv: "tasks_inv k" and cur: "current k = Some p" and tcb: "tcbs k p = Some tcb" and room: "pid_room (PID_ALLOCATOR k)"
    and alloc: "PidAllocator_alloc (PID_ALLOCATOR k) = (h, a)" and ks: "KernelStack_new h (KERNEL_SPACE k) (k_mm k) = Ok (ks, KS, s0)"
    and P: "memory_set (inner tcb) = P" "user_ms l P s0" "TRAP_VPN \<in> user_pages P"
    and tramp: "PhysAddr_page_offset (PhysAddr_from_usize (env_trampoline env)) = 0"
    and pages: "distinct (concat (map area_pages (areas P)))" "pairwise (\<lambda>u v. \<not> same_page u v) (user_pages P)"
      "\<forall>v \<in> user_pages P. \<not> same_page v (VirtPageNum 0x7FFFFFF)"
      "3 * length (concat (map area_pages (areas P))) + 3 \<le> fa_free (FRAME_ALLOCATOR s0)"
  shows "\<exists>c child k' q. sys_fork env k = Ok (handle_pid h, k') \<and> tasks_inv k' \<and> (\<forall>t. pd k t \<noteq> Some (handle_pid h))
    \<and> tcbs k c = None \<and> tcbs k' c = Some child \<and> get_task_by_pid (handle_pid h) k' = Some c \<and> ready_queue k' = ready_queue k @ [c]
    \<and> ch k' p = ch k p @ [c] \<and> parent (inner child) = Some p \<and> fd_table (inner child) = fd_table (inner tcb)
    \<and> ms_own (memory_set (inner child)) \<inter> ms_own P = {} \<and> user_pages (memory_set (inner child)) = user_pages P
    \<and> (\<forall>v \<in> user_pages P. v \<noteq> TRAP_VPN \<longrightarrow>
         page_contents (page_table (memory_set (inner child))) (mem (k_mm k')) v = page_contents (page_table P) (mem s0) v)
    \<and> (\<forall>v \<in> user_pages P. page_contents (page_table P) (mem (k_mm k')) v = page_contents (page_table P) (mem s0) v)
    \<and> trap_cx_frame P (mem s0) = Ok q
    \<and> get_trap_cx (inner child) (mem (k_mm k')) =
        (let cx = load_trap_cx (mem s0) q in cx\<lparr>kernel_sp := KernelStack_get_top ks, regs := (regs cx)[10 := 0]\<rparr>)"
proof -
  from inv have q: "queue_ok k" "pids_ok k" "family_ok k" "borrowed k = {}" by (simp_all add: tasks_inv_def)
  have "st k (next_tcb k) = None" using q(3) unfolding family_ok_def by blast
  then have fresh: "tcbs k (next_tcb k) = None" by (simp add: st_None)
  obtain C s1 where C: "from_existed_user (env_trampoline env) P s0 = Ok (C, s1)"
    using from_existed_user_is_ok [OF P(2) tramp pages(1) pages(2,3) [unfolded user_pages_def] pages(4)] by blast
  note copy = forked_space [OF P(2) C P(3)]
  obtain f where f: "trap_cx_frame C (mem s1) = Ok f" "(TRAP_VPN, f) \<in> ms_frames C" "unat (the_ppn f) < 2 ^ 44"
      "f \<notin> set (pt_frames (page_table C))" "page_contents (page_table C) (mem s1) TRAP_VPN = Some (frame_contents (mem s1) f)"
    by (rule trap_cx_frame_user_ms [OF copy(1)]) (simp_all add: copy(4) P(3))
  obtain q where q0: "trap_cx_frame P (mem s0) = Ok q" "unat (the_ppn q) < 2 ^ 44"
      "page_contents (page_table P) (mem s0) TRAP_VPN = Some (frame_contents (mem s0) q)"
    by (rule trap_cx_frame_user_ms [OF P(2,3)]) simp_all
  have "frame_contents (mem s1) f = frame_contents (mem s0) q" using copy(5) [OF P(3)] f(5) q0(3) by simp
  then have cx: "load_trap_cx (mem s1) f = load_trap_cx (mem s0) q" 
    using load_trap_cx_contents [OF f(3)] load_trap_cx_contents [OF q0(2)] by simp
  from sys_fork_run [OF cur tcb q(4) fresh alloc ks C [folded P(1)] f(1)] obtain k' where run: "sys_fork env k = Ok (handle_pid h, k')" by blast
  note k' = sys_fork_inv [OF inv cur room run]
  let ?child = "\<lparr>pid = h, kernel_stack = ks, inner = forked_inner env p (inner tcb) C f (KernelStack_get_top ks)\<rparr>"
  obtain c where c: "c \<noteq> p" "tcbs k c = None"
      "tcbs k' = (tcbs k)(c \<mapsto> ?child, p \<mapsto> tcb\<lparr>inner := (inner tcb)\<lparr>children := children (inner tcb) @ [c]\<rparr>\<rparr>)"
      "load_trap_cx (mem (k_mm k')) f = (let cx = load_trap_cx (mem s1) f in cx\<lparr>kernel_sp := KernelStack_get_top ks, regs := (regs cx)[10 := 0]\<rparr>)"
      "\<forall>x. x < PhysPageNum_get_mut f \<or> PhysPageNum_get_mut f + TRAP_CONTEXT_SIZE \<le> x \<longrightarrow> mem (k_mm k') x = mem s1 x"
      "ready_queue k' = ready_queue k @ [c]" "PID_TO_TASK k' = bt_insert (handle_pid h) c (PID_TO_TASK k)"
    by (rule sys_fork_Ok [OF inv cur run]) (use tcb alloc ks C P(1) f(1) in simp)
  have same: "mem (k_mm k') x = mem s1 x" if "x \<notin> frame_bytes f" for x
    using c(5) that by (auto simp: get_mut_frame [OF f(3)] frame_bytes_def TRAP_CONTEXT_SIZE_def)
  have "f \<notin> ms_own P" using ms_frames_data [OF f(2)] copy(3) by (auto simp: ms_own_def)
  then have fP: "f \<notin> set (pt_frames (page_table P))" "(v, f) \<notin> ms_frames P" for v using ms_frames_data [of v f P] by (auto simp: ms_own_def)
  have parent: "page_contents (page_table P) (mem (k_mm k')) v = page_contents (page_table P) (mem s0) v" if v: "v \<in> user_pages P" for v
    using page_contents_other_frame [OF copy(2) v [unfolded user_pages_def] same fP] copy(6) [OF v] by simp
  have child: "page_contents (page_table C) (mem (k_mm k')) v = page_contents (page_table P) (mem s0) v" if v: "v \<in> user_pages P" "v \<noteq> TRAP_VPN" for v
  proof -
    have n: "(v, f) \<notin> ms_frames C" using ms_frames_inj [OF copy(1) f(2)] v(2) by blast
    have "v \<in> set (concat (map area_pages (areas C)))" using v(1) copy(4) unfolding user_pages_def by blast
    from page_contents_other_frame [OF copy(1) this same f(4) n] copy(5) [OF v(1)] show ?thesis by simp
  qed
  have "pid_inv (PID_ALLOCATOR k)" using q(2) by (simp add: pids_ok_def)
  from pid_alloc_fresh(1) [OF this room alloc] have new: "\<forall>t. pd k t \<noteq> Some (handle_pid h)" using q(2) unfolding pids_ok_def by blast
  have "get_task_by_pid (handle_pid h) k' = Some c"
    using q(2) bt_insert_sorted [of "PID_TO_TASK k" "handle_pid h" c] by (simp add: get_task_by_pid_def c(7) pids_ok_def)
  with run k' new c child parent copy(3,4) q0(1) cx tcb show ?thesis
    by (intro exI [of _ c] exI [of _ ?child] exI [of _ k'] exI [of _ q]) (simp add: forked_inner_def get_trap_cx_def ch_def)
qed

section \<open>Properties\<close>

text \<open>
  C4. \<^verbatim>\<open>fork\<close> succeeds and copies the process: given that the pages of the kernel stack of the next pid
  are not mapped, that the address space of the caller is well formed and apart from the kernel's page table, and that
  three frames per page and nine more are free, \<^verbatim>\<open>sys_fork\<close> returns an unused pid in the parent. The child
  is in the table under this pid, at the end of the ready queue, a child of the caller, with its open files; its
  address space shares no frame with that of the parent and has, page by page, the parent's contents, except that its
  trap context has another kernel stack and the return value 0; the parent's pages are unchanged and the process
  table is well formed.
\<close>

theorem sys_fork_spec:
  assumes inv: "tasks_inv k" and cur: "current k = Some p" and tcb: "tcbs k p = Some tcb" and room: "pid_room (PID_ALLOCATOR k)"
    and alloc: "PidAllocator_alloc (PID_ALLOCATOR k) = (h, a)" and h: "unat (handle_pid h) < 0x1555555"
    and KS: "pt_wf l (page_table (KERNEL_SPACE k)) (k_mm k)"
      "\<forall>v \<in> set (kernel_stack_pages (handle_pid h)). pt_abs (page_table (KERNEL_SPACE k)) (mem (k_mm k)) v = None"
    and P: "memory_set (inner tcb) = P" "user_ms l P (k_mm k)" "TRAP_VPN \<in> user_pages P"
      "ms_own P \<inter> set (pt_frames (page_table (KERNEL_SPACE k))) = {}"
    and tramp: "PhysAddr_page_offset (PhysAddr_from_usize (env_trampoline env)) = 0"
    and pages: "distinct (concat (map area_pages (areas P)))" "pairwise (\<lambda>u v. \<not> same_page u v) (user_pages P)"
      "\<forall>v \<in> user_pages P. \<not> same_page v (VirtPageNum 0x7FFFFFF)"
      "3 * length (concat (map area_pages (areas P))) + 9 \<le> fa_free (FRAME_ALLOCATOR (k_mm k))"
  shows "\<exists>c child k' q. sys_fork env k = Ok (handle_pid h, k') \<and> tasks_inv k' \<and> (\<forall>t. pd k t \<noteq> Some (handle_pid h))
    \<and> tcbs k c = None \<and> tcbs k' c = Some child \<and> get_task_by_pid (handle_pid h) k' = Some c \<and> ready_queue k' = ready_queue k @ [c]
    \<and> ch k' p = ch k p @ [c] \<and> parent (inner child) = Some p \<and> fd_table (inner child) = fd_table (inner tcb)
    \<and> ms_own (memory_set (inner child)) \<inter> ms_own P = {} \<and> user_pages (memory_set (inner child)) = user_pages P
    \<and> (\<forall>v \<in> user_pages P. v \<noteq> TRAP_VPN \<longrightarrow>
         page_contents (page_table (memory_set (inner child))) (mem (k_mm k')) v = page_contents (page_table P) (mem (k_mm k)) v)
    \<and> (\<forall>v \<in> user_pages P. page_contents (page_table P) (mem (k_mm k')) v = page_contents (page_table P) (mem (k_mm k)) v)
    \<and> trap_cx_frame P (mem (k_mm k)) = Ok q
    \<and> get_trap_cx (inner child) (mem (k_mm k')) =
        (let cx = load_trap_cx (mem (k_mm k)) q in cx\<lparr>kernel_sp := snd (kernel_stack_position (handle_pid h)), regs := (regs cx)[10 := 0]\<rparr>)"
proof -
  obtain KS' s0 own where ks: "KernelStack_new h (KERNEL_SPACE k) (k_mm k) = Ok (\<lparr>ks_pid = handle_pid h\<rparr>, KS', s0)"
    and g: "grows l (set (pt_frames (page_table (KERNEL_SPACE k))), k_mm k) (own, s0)"
    and free: "fa_free (FRAME_ALLOCATOR (k_mm k)) \<le> fa_free (FRAME_ALLOCATOR s0) + 6"
    by (rule kernel_stack_is_ok [OF KS(1) h KS(2)]) (use pages(4) in simp)
  note P0 = user_ms_grows [OF P(2) g P(4)]
  have "3 * length (concat (map area_pages (areas P))) + 3 \<le> fa_free (FRAME_ALLOCATOR s0)" using pages(4) free by simp
  from fork_after_stack [OF inv cur tcb room alloc ks P(1) P0(1) P(3) tramp pages(1-3) this]
  obtain c child k' q where f: "sys_fork env k = Ok (handle_pid h, k')" "tasks_inv k'" "\<forall>t. pd k t \<noteq> Some (handle_pid h)"
    "tcbs k c = None" "tcbs k' c = Some child" "get_task_by_pid (handle_pid h) k' = Some c" "ready_queue k' = ready_queue k @ [c]"
    "ch k' p = ch k p @ [c]" "parent (inner child) = Some p" "fd_table (inner child) = fd_table (inner tcb)"
    "ms_own (memory_set (inner child)) \<inter> ms_own P = {}" "user_pages (memory_set (inner child)) = user_pages P"
    "\<forall>v \<in> user_pages P. v \<noteq> TRAP_VPN \<longrightarrow>
         page_contents (page_table (memory_set (inner child))) (mem (k_mm k')) v = page_contents (page_table P) (mem s0) v"
    "\<forall>v \<in> user_pages P. page_contents (page_table P) (mem (k_mm k')) v = page_contents (page_table P) (mem s0) v"
    "trap_cx_frame P (mem s0) = Ok q"
    "get_trap_cx (inner child) (mem (k_mm k')) =
        (let cx = load_trap_cx (mem s0) q in cx\<lparr>kernel_sp := KernelStack_get_top \<lparr>ks_pid = handle_pid h\<rparr>, regs := (regs cx)[10 := 0]\<rparr>)" by blast
  have kept: "page_contents (page_table P) (mem s0) v = page_contents (page_table P) (mem (k_mm k)) v" if "v \<in> user_pages P" for v
    by (rule user_page_kept [OF P(2) P0(2,3) that])
  obtain q' where q': "trap_cx_frame P (mem (k_mm k)) = Ok q'" "load_trap_cx (mem s0) q = load_trap_cx (mem (k_mm k)) q'"
    using f(15) trap_cx_same [OF P0(1) P(2) P(3) P(3) kept [OF P(3)]] by auto
  with f kept show ?thesis
    by (intro exI [of _ c] exI [of _ child] exI [of _ k'] exI [of _ q']) (simp add: KernelStack_get_top_def)
qed

section \<open>Example\<close>

text \<open>A process whose address space is the page of its trap context, and an empty address space for the kernel.\<close>

definition with_spaces :: "MemorySet \<Rightarrow> MemorySet \<Rightarrow> mm_state \<Rightarrow> kernel" where
  "with_spaces P KS s = (put_inner 1 ((inner (tcb_example 1 Running [2]))\<lparr>memory_set := P\<rparr>) k_example)\<lparr>KERNEL_SPACE := KS, k_mm := s\<rparr>"

lemma with_spaces_inv: "tasks_inv (with_spaces P KS s)"
proof -
  let ?k = "with_spaces P KS s" and ?k1 = "put_inner 1 ((inner (tcb_example 1 Running [2]))\<lparr>memory_set := P\<rparr>) k_example"
  have "tasks_inv ?k1" using tasks_inv_inner [OF tasks_inv_example current_example(2)] by simp
  moreover have "st ?k = st ?k1" "pd ?k = pd ?k1" "ch ?k = ch ?k1" by (simp_all add: with_spaces_def st_def pd_def ch_def)
  ultimately show ?thesis
    using queue_ok_cong [of ?k ?k1] pids_ok_cong [of ?k ?k1] family_ok_cong [of ?k ?k1] by (simp add: with_spaces_def tasks_inv_def)
qed

definition k_fork :: "kernel outcome" where
  "k_fork =
     and_then (insert_framed_area ms_example0 (VirtAddr_from_usize TRAP_CONTEXT) (VirtAddr_from_usize TRAMPOLINE) (MP_R OR MP_W) mm_example1) (\<lambda>(P, s1).
     and_then (new_bare s1) (\<lambda>(KS, s2). Ok (with_spaces P KS s2)))"

definition env_fork :: kernel_env where
  "env_fork = \<lparr>env_trap_return = 0x80202000, env_trap_handler = 0x80201000, env_trampoline = 0x80200000, env_status = 0, env_parse = (\<lambda>_. None)\<rparr>"

lemma trap_page_range:
  "VirtAddr_floor (VirtAddr_from_usize TRAP_CONTEXT) = TRAP_VPN" "VirtAddr_ceil (VirtAddr_from_usize TRAMPOLINE) = VirtPageNum 0x7FFFFFF"
  "VPNRange_list (SimpleRange_new TRAP_VPN (VirtPageNum 0x7FFFFFF)) = [TRAP_VPN]"
  by (simp_all add: VirtAddr_floor_def VirtAddr_ceil_def VirtAddr_from_usize_def const_defs TRAP_VPN_def VPNRange_list_def SimpleRange_into_iter_def
      SimpleRange_new_def vpn_iter.simps SimpleRangeIterator_next_def VirtPageNum_step_def)

lemma k_fork_ok:
  obtains P KS s where "k_fork = Ok (with_spaces P KS s)" "user_ms 0x80600 P s" "map area_pages (areas P) = [[TRAP_VPN]]"
    "user_ms 0x80600 KS s" "\<forall>v. pt_abs (page_table KS) (mem s) v = None" "ms_own P \<inter> ms_own KS = {}" "500 \<le> fa_free (FRAME_ALLOCATOR s)"
proof -
  let ?a = "MapArea_new (VirtAddr_from_usize TRAP_CONTEXT) (VirtAddr_from_usize TRAMPOLINE) Framed (MP_R OR MP_W)"
  have a: "map_type ?a = Framed" "data_frames ?a = []" "sr_l (vpn_range ?a) \<le> sr_r (vpn_range ?a)" "area_pages ?a = [TRAP_VPN]"
    by (simp_all add: MapArea_new_def trap_page_range) (simp add: SimpleRange_new_def less_eq_VirtPageNum_def TRAP_VPN_def)
  from MemorySet_push_is_ok [OF ms_example0_ok(1) a(1-3)] a(4) ms_example0_ok(2) mm_example1_free
  obtain P s1 where push: "MemorySet_push ms_example0 ?a None mm_example1 = Ok (P, s1)"
    and free: "fa_free (FRAME_ALLOCATOR mm_example1) \<le> fa_free (FRAME_ALLOCATOR s1) + 3" by auto
  from push obtain a' where P: "areas P = [a']" "vpn_range a' = vpn_range ?a" "user_ms 0x80600 P s1"
    by (rule MemorySet_push_Framed [OF ms_example0_ok(1) a(1-3)]) (simp add: ms_example0_def)
  have inv: "fa_inv 0x80600 (FRAME_ALLOCATOR s1)" using P(3) by (simp add: user_ms_def pt_wf_def)
  obtain r s2 where r: "frame_alloc s1 = (r, s2)" by (cases "frame_alloc s1")
  note f = frame_alloc_fa_free [OF inv r]
  with free mm_example1_free obtain q where q: "r = Some q" by auto
  then obtain KS where KS: "new_bare s1 = Ok (KS, s2)" using r by (simp add: new_bare_def PageTable_new_def)
  note n = new_bare_Ok [OF inv KS]
  note P2 = user_ms_grows [OF P(3) n(2), simplified]
  have "k_fork = Ok (with_spaces P KS s2)" using push KS by (simp add: k_fork_def insert_framed_area_def)
  moreover have "500 \<le> fa_free (FRAME_ALLOCATOR s2)" using f q free mm_example1_free by simp
  ultimately show thesis using that [of P KS s2] P(1,2) a(4) P2(1,4) n(1,4) by simp
qed

theorem sys_fork_spec_witness:
  "case k_fork of
     Ok k \<Rightarrow> \<exists>k' c child. sys_fork env_fork k = Ok (3, k') \<and> tasks_inv k' \<and> tcbs k' c = Some child \<and> ready_queue k' = [0, c]
       \<and> regs (get_trap_cx (inner child) (mem (k_mm k'))) ! 10 = 0
   | Panic _ \<Rightarrow> False"
proof -
  obtain P KS s where ex: "k_fork = Ok (with_spaces P KS s)" "user_ms 0x80600 P s" "map area_pages (areas P) = [[TRAP_VPN]]"
    "user_ms 0x80600 KS s" "\<forall>v. pt_abs (page_table KS) (mem s) v = None" "ms_own P \<inter> ms_own KS = {}" "500 \<le> fa_free (FRAME_ALLOCATOR s)"
    by (rule k_fork_ok)
  let ?k = "with_spaces P KS s"
  have k: "KERNEL_SPACE ?k = KS" "k_mm ?k = s" "current ?k = Some 1" "PID_ALLOCATOR ?k = \<lparr>pa_current = 3, pa_recycled = []\<rparr>"
    "tcbs ?k 1 = Some ((tcb_example 1 Running [2])\<lparr>inner := (inner (tcb_example 1 Running [2]))\<lparr>memory_set := P\<rparr>\<rparr>)" "ready_queue ?k = [0]"
    by (simp_all add: with_spaces_def k_example_def put_inner_def)
  have inv: "tasks_inv ?k" by (rule with_spaces_inv)
  have alloc: "PidAllocator_alloc (PID_ALLOCATOR ?k) = (PidHandle 3, \<lparr>pa_current = 4, pa_recycled = []\<rparr>)" "pid_room (PID_ALLOCATOR ?k)"
    by (simp_all add: k(4) PidAllocator_alloc_def pid_room_def)
  have pages: "user_pages P = {TRAP_VPN}" "concat (map area_pages (areas P)) = [TRAP_VPN]" by (simp_all add: user_pages_def ex(3))
  have wf: "pt_wf 0x80600 (page_table KS) s" using ex(4) by (simp add: user_ms_def)
  have dis: "ms_own P \<inter> set (pt_frames (page_table KS)) = {}" using ex(6) by (auto simp: ms_own_def)
  have tramp: "PhysAddr_page_offset (PhysAddr_from_usize (env_trampoline env_fork)) = 0"
    by (simp add: env_fork_def PhysAddr_page_offset_def PhysAddr_from_usize_def const_defs)
  have "3 * length (concat (map area_pages (areas P))) + 9 \<le> fa_free (FRAME_ALLOCATOR (k_mm ?k))" unfolding pages(2) k(2) using ex(7) by simp
  from sys_fork_spec [OF inv k(3,5) alloc(2,1), unfolded k(1,2), OF _ wf _ _ ex(2) _ dis tramp _ _ _ this [unfolded k(2)]] ex(5) pages
  obtain c child k' q where f: "sys_fork env_fork ?k = Ok (3, k')" "tasks_inv k'" "tcbs k' c = Some child" "ready_queue k' = ready_queue ?k @ [c]"
    "get_trap_cx (inner child) (mem (k_mm k')) =
        (let cx = load_trap_cx (mem s) q in cx\<lparr>kernel_sp := snd (kernel_stack_position 3), regs := (regs cx)[10 := 0]\<rparr>)"
    by (auto simp: same_page_def TRAP_VPN_def)
  from f(5) have "regs (get_trap_cx (inner child) (mem (k_mm k'))) ! 10 = 0" by (simp add: Let_def length_regs_load)
  with f(1-4) k(6) show ?thesis by (simp add: ex(1))
qed

end
