(* ===== verification/Task_Exec.thy ===== *)
theory Task_Exec
  imports User_Start Task_Fork
begin

text \<open>
  \<^verbatim>\<open>exec\<close> as a whole: the executable is loaded into a new address space, the arguments are pushed to its stack, the
  old address space is given back, and the trap context starts the program.
\<close>

section \<open>Writing to some pages of an address space\<close>

definition page_frames :: "MemorySet \<Rightarrow> VirtPageNum set \<Rightarrow> PhysPageNum set" where
  "page_frames ms W = {f. \<exists>w \<in> W. (w, f) \<in> ms_frames ms}"

lemma pages_written:
  assumes ms: "user_ms l ms s" and same: "\<And>x. x \<notin> \<Union> (frame_bytes ` page_frames ms W) \<Longrightarrow> m x = mem s x"
  shows "user_ms l ms (s\<lparr>mem := m\<rparr>)" and "pt_abs (page_table ms) m v = pt_abs (page_table ms) (mem s) v"
    and "v \<in> user_pages ms \<Longrightarrow> v \<notin> W \<Longrightarrow> page_contents (page_table ms) m v = page_contents (page_table ms) (mem s) v"
proof -
  have other: "m x = mem s x" if "q \<notin> page_frames ms W" "x \<in> frame_bytes q" for q x
    using same [of x] frame_bytes_disjoint that by (metis UN_E disjoint_iff)
  have sub: "page_frames ms W \<subseteq> ms_data ms" using ms_frames_data by (auto simp: page_frames_def)
  have "q \<notin> page_frames ms W" if "q \<in> set (pt_frames (page_table ms))" for q using sub ms that by (auto simp: user_ms_def)
  then have "\<forall>q \<in> set (pt_frames (page_table ms)). \<forall>x \<in> frame_bytes q. mem (s\<lparr>mem := m\<rparr>) x = mem s x" by (auto intro: other)
  note u = user_ms_untouched [OF ms _ this]
  show "user_ms l ms (s\<lparr>mem := m\<rparr>)" using u(1) by simp
  show abs: "pt_abs (page_table ms) m v = pt_abs (page_table ms) (mem s) v" for v using u(2) by simp
  show "page_contents (page_table ms) m v = page_contents (page_table ms) (mem s) v" if v: "v \<in> user_pages ms" "v \<notin> W"
  proof (rule user_ms_page [OF ms v(1) [unfolded user_pages_def]])
    fix f perm assume f: "(v, f) \<in> ms_frames ms" "pt_abs (page_table ms) (mem s) v = Some (PageTableEntry_new f perm)" "unat (the_ppn f) < 2 ^ 44"
    have "f \<notin> page_frames ms W" using ms_frames_inj [OF ms f(1)] v(2) by (auto simp: page_frames_def)
    then have "frame_contents m f = frame_contents (mem s) f" using other by (intro frame_contents_cong) simp
    then show ?thesis using f(2,3) by (simp add: page_contents_def abs)
  qed
qed

section \<open>The run of exec\<close>

definition exec_context :: "kernel_env \<Rightarrow> usize \<Rightarrow> usize \<Rightarrow> usize \<Rightarrow> usize \<Rightarrow> nat \<Rightarrow> usize \<Rightarrow> TrapContext" where
  "exec_context env pc sp satp ktop argc argv_base =
     (let cx = app_init_context (env_status env) pc sp satp ktop (env_trap_handler env)
      in cx\<lparr>regs := (regs cx)[10 := of_nat argc, 11 := argv_base]\<rparr>)"

lemma length_exec_context [simp]: "length (regs (exec_context env pc sp satp ktop argc argv_base)) = 32"
  by (simp add: exec_context_def app_init_context_def set_sp_def Let_def)

lemma exec_context_fields:
  "sepc (exec_context env pc sp satp ktop argc argv_base) = pc" "regs (exec_context env pc sp satp ktop argc argv_base) ! 2 = sp"
  "regs (exec_context env pc sp satp ktop argc argv_base) ! 10 = of_nat argc" "regs (exec_context env pc sp satp ktop argc argv_base) ! 11 = argv_base"
  "kernel_sp (exec_context env pc sp satp ktop argc argv_base) = ktop" "kernel_satp (exec_context env pc sp satp ktop argc argv_base) = satp"
  "trap_handler (exec_context env pc sp satp ktop argc argv_base) = env_trap_handler env"
  by (simp_all add: exec_context_def app_init_context_def set_sp_def Let_def)

lemma exec_run:
  assumes "tcbs k p = Some tcb" "borrowed k = {}" "from_elf (env_parse env) (env_trampoline env) elf_data (k_mm k) = Ok ((ms, user_sp, pc), s)"
    and "trap_cx_frame ms (mem s) = Ok f" "exec_stack (MemorySet_token ms) args user_sp (mem s) = Ok ((argv_base, sp), m)"
    and "MemorySet_drop (memory_set (inner tcb)) (s\<lparr>mem := m\<rparr>) = Ok s2"
  shows "exec env p elf_data args k = Ok (put_inner p ((inner tcb)\<lparr>memory_set := ms, trap_cx_ppn := f\<rparr>)
    (k\<lparr>k_mm := s2\<lparr>mem := store_trap_cx (mem s2) f
       (exec_context env pc sp (MemorySet_token (KERNEL_SPACE k)) (KernelStack_get_top (kernel_stack tcb)) (length args) argv_base)\<rparr>\<rparr>))"
  using assms
  by (simp add: exec_def with_inner_def inner_exclusive_access_def exec_inner_def Let_def exec_context_def set_mem_def release_def put_inner_def)

lemma tasks_inv_mm: "tasks_inv (k\<lparr>k_mm := s\<rparr>) = tasks_inv k"
  using queue_ok_cong [of "k\<lparr>k_mm := s\<rparr>" k] pids_ok_cong [of "k\<lparr>k_mm := s\<rparr>" k] family_ok_cong [of "k\<lparr>k_mm := s\<rparr>" k] views_cong [of "k\<lparr>k_mm := s\<rparr>" k]
  by (simp add: tasks_inv_def)

section \<open>The pages of a new program\<close>

lemma layout_user_pages:
  assumes "map vpn_range (areas ms) = map vpn_range (map fst (elf_layout elf))"
  shows "user_pages ms = set (layout_pages (elf_layout elf))"
proof -
  have "map area_pages (areas ms) = map area_pages (map fst (elf_layout elf))"
    using arg_cong [OF assms, of "map VPNRange_list"] by (simp add: comp_def)
  then show ?thesis by (simp add: user_pages_def layout_pages_def comp_def case_prod_beta)
qed

lemma stack_covered:
  assumes ok: "\<forall>ph \<in> set (loadable elf). segment_ok input ph" and a: "a \<in> {unat (stack_bottom elf)..<unat (stack_bottom elf + USER_STACK_SIZE)}"
  shows "page_of a \<in> set (area_pages (stack_area elf))" "a < 2 ^ 38"
proof -
  define e where "e = unat (the_vpn (end_vpn (VirtPageNum 0) (loadable elf)))"
  have eb: "e \<le> 2 ^ 25" using end_vpn_bound [OF ok] by (simp add: e_def)
  note u = unat_stack_bottom [OF ok, folded e_def]
  show a38: "a < 2 ^ 38" using a eb by (simp add: u)
  have "a div 4096 = e + 1 \<or> a div 4096 = e + 2" using a by (simp add: u) linarith
  moreover have "unat (the_vpn (page_of a)) = a div 4096" using a38 by (simp add: page_of_def unat_of_nat)
  ultimately have "unat (the_vpn (page_of a)) \<in> set (map (unat \<circ> the_vpn) (area_pages (stack_area elf)))"
    unfolding stack_pages(1) [OF ok, folded e_def] by (auto simp: Let_def)
  then show "page_of a \<in> set (area_pages (stack_area elf))" by (auto simp: VirtPageNum_eq_iff [symmetric])
qed

lemma layout_apart:
  assumes "distinct (layout_pages (elf_layout elf))"
  shows "TRAP_VPN \<in> set (layout_pages (elf_layout elf))" "TRAP_VPN \<notin> set (area_pages (stack_area elf))"
    "ph \<in> set (loadable elf) \<Longrightarrow> set (area_pages (segment_area ph)) \<inter> (set (area_pages (stack_area elf)) \<union> {TRAP_VPN}) = {}"
    "set (area_pages (stack_area elf)) \<subseteq> set (layout_pages (elf_layout elf))"
    "ph \<in> set (loadable elf) \<Longrightarrow> set (area_pages (segment_area ph)) \<subseteq> set (layout_pages (elf_layout elf))"
  using assms trap_page(1) by (auto simp: layout_pages_def elf_layout_def TRAP_VPN_def)

lemma user_byte_cong:
  assumes "pt_wf l (page_table ms) s" "page_contents (page_table ms) m' (page_of a) = page_contents (page_table ms) m (page_of a)"
    and "page_contents (page_table ms) m (page_of a) \<noteq> None" "a < 2 ^ 39"
  shows "user_byte (MemorySet_token ms) m' (of_nat a) = user_byte (MemorySet_token ms) m (of_nat a)"
  using page_byte [OF assms(1) _ assms(4), of m] page_byte [OF assms(1) _ assms(4), of m'] assms(2,3) by auto

lemma area_loaded_written:
  assumes ms: "user_ms l ms s" and same: "\<And>x. x \<notin> \<Union> (frame_bytes ` page_frames ms W) \<Longrightarrow> m x = mem s x" and m: "mem s' = m"
    and vs: "set vs \<subseteq> user_pages ms" "set vs \<inter> W = {}" and l: "area_loaded ms s vs perm D"
  shows "area_loaded ms s' vs perm D"
proof -
  have "vs ! i \<in> user_pages ms" "vs ! i \<notin> W" if "i < length vs" for i using vs nth_mem [OF that] by auto
  with l pages_written(2,3) [OF ms same] show ?thesis by (simp add: area_loaded_def m)
qed

lemma out_same_written:
  assumes "user_ms l ms s" "covered ms {lo..<hi}" "out_same (stack_addr ms (mem s)) lo hi (mem s) m" "\<And>a. a \<in> {lo..<hi} \<Longrightarrow> page_of a \<in> W"
    and x: "x \<notin> \<Union> (frame_bytes ` page_frames ms W)"
  shows "m x = mem s x"
proof -
  have "stack_addr ms (mem s) a \<in> \<Union> (frame_bytes ` page_frames ms W)" if a: "a \<in> {lo..<hi}" for a
  proof -
    obtain g where g: "(page_of a, g) \<in> ms_frames ms" "stack_addr ms (mem s) a \<in> frame_bytes g" by (rule stack_frame [OF assms(1,2) a])
    then have "g \<in> page_frames ms W" using assms(4) [OF a] by (auto simp: page_frames_def)
    with g(2) show ?thesis by blast
  qed
  then have "x \<notin> stack_addr ms (mem s) ` {lo..<hi}" using x by blast
  with assms(3) show ?thesis by (simp add: out_same_def)
qed

text \<open>
  The memory from the loaded executable to the end of \<^verbatim>\<open>exec\<close>: the stack is written, the old address space
  \<open>P\<close> is dropped, and the page of the trap context is written.
\<close>

lemma exec_memory:
  assumes ms: "user_ms l ms s" "W \<subseteq> user_pages ms" "TRAP_VPN \<notin> W" "(TRAP_VPN, f) \<in> ms_frames ms" "unat (the_ppn f) < 2 ^ 44"
    and P: "user_ms l P s" "ms_own P \<inter> ms_own ms = {}" "distinct (pt_frames (page_table P))"
    and m: "\<And>x. x \<notin> \<Union> (frame_bytes ` page_frames ms W) \<Longrightarrow> m x = mem s x" and cx: "length (regs cx) = 32"
  obtains s2 where "MemorySet_drop P (s\<lparr>mem := m\<rparr>) = Ok s2" "user_ms l ms (s2\<lparr>mem := store_trap_cx (mem s2) f cx\<rparr>)"
    "fa_live l (FRAME_ALLOCATOR s2) = fa_live l (FRAME_ALLOCATOR s) - ms_own P"
    "\<forall>v \<in> W. page_contents (page_table ms) (store_trap_cx (mem s2) f cx) v = page_contents (page_table ms) m v"
    "\<forall>x. x \<notin> \<Union> (frame_bytes ` page_frames ms (insert TRAP_VPN W)) \<longrightarrow> store_trap_cx (mem s2) f cx x = mem s x"
proof -
  note M = pages_written [OF ms(1) m]
  have "page_frames ms W \<subseteq> ms_own ms" using ms_frames_data by (auto simp: page_frames_def ms_own_def)
  then have "q \<notin> page_frames ms W" if "q \<in> set (pt_frames (page_table P))" for q using P(2) that by (auto simp: ms_own_def)
  then have "m x = mem s x" if "q \<in> set (pt_frames (page_table P))" "x \<in> frame_bytes q" for q x
    using m [of x] frame_bytes_disjoint that by (metis UN_E disjoint_iff)
  then have "user_ms l P (s\<lparr>mem := m\<rparr>)" by (intro user_ms_untouched(1) [OF P(1)]) simp_all
  from MemorySet_drop_Ok [OF this P(3)] obtain s2 where s2: "MemorySet_drop P (s\<lparr>mem := m\<rparr>) = Ok s2" "mem s2 = m"
    "fa_inv l (FRAME_ALLOCATOR s2)" "fa_live l (FRAME_ALLOCATOR s2) = fa_live l (FRAME_ALLOCATOR s) - ms_own P" by auto
  have ms2: "user_ms l ms s2" using P(2) by (intro user_ms_shrinks [OF M(1) s2(3)]) (auto simp: s2)
  let ?m2 = "store_trap_cx (mem s2) f cx"
  have F: "f \<in> page_frames ms {TRAP_VPN}" "f \<in> page_frames ms (insert TRAP_VPN W)" "page_frames ms W \<subseteq> page_frames ms (insert TRAP_VPN W)"
    using ms(4) by (auto simp: page_frames_def)
  have cxo: "?m2 x = mem s2 x" if "x \<notin> frame_bytes f" for x
    using that by (intro store_trap_cx_other [OF cx]) (auto simp: get_mut_frame [OF ms(5)] frame_bytes_def TRAP_CONTEXT_SIZE_def)
  then have t: "?m2 x = mem s2 x" if "x \<notin> \<Union> (frame_bytes ` page_frames ms {TRAP_VPN})" for x using F(1) that by blast
  note T = pages_written [OF ms2 t]
  have "page_contents (page_table ms) ?m2 v = page_contents (page_table ms) m v" if "v \<in> W" for v
    using T(3) [where v = v] that ms(2,3) by (auto simp: s2(2))
  moreover have "?m2 x = mem s x" if "x \<notin> \<Union> (frame_bytes ` page_frames ms (insert TRAP_VPN W))" for x
    using cxo [of x] m [of x] F(2,3) that by (auto simp: s2(2))
  ultimately show thesis using that [OF s2(1)] T(1) s2(4) by blast
qed

section \<open>Properties\<close>

text \<open>
  C5. \<^verbatim>\<open>exec\<close> succeeds and starts the program: given an executable that can be loaded, frames for it, and arguments that fit
  into the stack, the process gets a new well-formed address space, whose segments read as the file, and gives back exactly the
  frames of the old one. Its trap context points to the entry of the program with an aligned stack pointer, the number of
  arguments and their address, and \<^verbatim>\<open>_start\<close> reads the arguments back. The pid, the open files and the
  process table are as before.
\<close>

theorem exec_spec:
  assumes inv: "tasks_inv k" and tcb: "tcbs k p = Some tcb"
    and old: "user_ms l (memory_set (inner tcb)) (k_mm k)" "distinct (pt_frames (page_table (memory_set (inner tcb))))"
    and tramp: "PhysAddr_page_offset (PhysAddr_from_usize (env_trampoline env)) = 0"
    and elf: "env_parse env elf_data = Some elf" "elf_magic elf = [0x7f, 0x45, 0x4c, 0x46]" "\<forall>ph \<in> set (loadable elf). segment_ok (elf_input elf) ph"
    and pages: "distinct (layout_pages (elf_layout elf))" "3 * length (layout_pages (elf_layout elf)) + 3 \<le> fa_free (FRAME_ALLOCATOR (k_mm k))"
    and args: "8 * (length args + 1) + strings_size args \<le> 8192" "\<forall>a \<in> set args. 0 \<notin> set a \<and> utf8_valid a"
  shows "\<exists>k' tcb' sp argv_base. exec env p elf_data args k = Ok k' \<and> tasks_inv k' \<and> tcbs k' p = Some tcb'
    \<and> pid tcb' = pid tcb \<and> fd_table (inner tcb') = fd_table (inner tcb) \<and> user_ms l (memory_set (inner tcb')) (k_mm k')
    \<and> fa_live l (FRAME_ALLOCATOR (k_mm k')) =
        fa_live l (FRAME_ALLOCATOR (k_mm k)) \<union> ms_own (memory_set (inner tcb')) - ms_own (memory_set (inner tcb))
    \<and> (\<forall>ph \<in> set (loadable elf). 4096 dvd unat (virtual_addr ph) \<longrightarrow> (\<forall>j < unat (mem_size ph).
         user_byte (get_user_token (inner tcb')) (mem (k_mm k')) (virtual_addr ph + of_nat j) =
           Some (if j < unat (file_size ph) then elf_input elf ! (unat (ph_offset ph) + j) else 0)))
    \<and> (let cx = get_trap_cx (inner tcb') (mem (k_mm k')) in sepc cx = entry_point elf \<and> regs cx ! 2 = sp \<and> regs cx ! 10 = of_nat (length args)
         \<and> regs cx ! 11 = argv_base \<and> kernel_sp cx = KernelStack_get_top (kernel_stack tcb) \<and> kernel_satp cx = MemorySet_token (KERNEL_SPACE k)
         \<and> trap_handler cx = env_trap_handler env)
    \<and> 8 dvd unat sp \<and> sp \<le> argv_base
    \<and> start_argv (user_byte (get_user_token (inner tcb')) (mem (k_mm k'))) argv_base 0 (length args) = Some (Ok args)"
proof -
  let ?P = "memory_set (inner tcb)" and ?top = "stack_bottom elf + USER_STACK_SIZE" and ?lo = "unat (stack_bottom elf)"
  have invl: "fa_inv l (FRAME_ALLOCATOR (k_mm k))" using old(1) by (simp add: user_ms_def pt_wf_def)
  obtain ms s where run: "from_elf (env_parse env) (env_trampoline env) elf_data (k_mm k) = Ok ((ms, ?top, entry_point elf), s)"
    and ms: "user_ms l ms s" "grows l ({}, k_mm k) (ms_own ms, s)" "user_pages ms = set (layout_pages (elf_layout elf))"
    and loaded: "\<And>a d. (a, d) \<in> set (elf_layout elf) \<Longrightarrow> area_loaded ms s (area_pages a) (map_perm a) (case_option [] id d)"
    using from_elf_is_ok [where parse = "env_parse env" and elf_data = elf_data, OF invl tramp elf pages] layout_user_pages by metis
  note apart = layout_apart [OF pages(1)]
  obtain f where f: "trap_cx_frame ms (mem s) = Ok f" "(TRAP_VPN, f) \<in> ms_frames ms" "unat (the_ppn f) < 2 ^ 44"
    by (rule trap_cx_frame_user_ms [OF ms(1)]) (use apart(1) ms(3) in auto)
  have stack: "page_of a \<in> user_pages ms" if "a \<in> {?lo..<unat ?top}" for a using stack_covered(1) [OF elf(3) that] apart(4) ms(3) by auto
  then have cov: "covered ms {?lo..<unat ?top}" by (simp add: covered_def user_pages_def)
  have "8 dvd unat ?top" "unat ?top \<le> 2 ^ 38" "?lo + 8192 = unat ?top"
    using unat_stack_bottom [OF elf(3)] end_vpn_bound [OF elf(3)] by (simp_all add: dvd_add)
  then obtain argv_base sp m where m: "exec_stack (MemorySet_token ms) args ?top (mem s) = Ok ((argv_base, sp), m)"
    "out_same (stack_addr ms (mem s)) ?lo (unat ?top) (mem s) m" "8 dvd unat sp" "sp \<le> argv_base"
    and argv: "\<And>um. (\<And>c. c \<in> {?lo..<unat ?top} \<Longrightarrow> um (of_nat c) = user_byte (MemorySet_token ms) m (of_nat c)) \<Longrightarrow>
      start_argv um argv_base 0 (length args) = Some (Ok args)"
    using exec_stack_user_ms [OF ms(1) cov] args by (metis (no_types, lifting) add.assoc add_le_cancel_left)
  let ?W = "set (area_pages (stack_area elf))"
  let ?cx = "exec_context env (entry_point elf) sp (MemorySet_token (KERNEL_SPACE k)) (KernelStack_get_top (kernel_stack tcb)) (length args) argv_base"
  have written: "m x = mem s x" if "x \<notin> \<Union> (frame_bytes ` page_frames ms ?W)" for x
    by (rule out_same_written [OF ms(1) cov m(2) stack_covered(1) [OF elf(3)] that])
  note P = user_ms_grows [OF old(1) ms(2), simplified]
  have W: "?W \<subseteq> user_pages ms" using apart(4) ms(3) by simp
  obtain s2 where s2: "MemorySet_drop ?P (s\<lparr>mem := m\<rparr>) = Ok s2" "user_ms l ms (s2\<lparr>mem := store_trap_cx (mem s2) f ?cx\<rparr>)"
    "fa_live l (FRAME_ALLOCATOR s2) = fa_live l (FRAME_ALLOCATOR s) - ms_own ?P"
    "\<forall>v \<in> ?W. page_contents (page_table ms) (store_trap_cx (mem s2) f ?cx) v = page_contents (page_table ms) m v"
    "\<forall>x. x \<notin> \<Union> (frame_bytes ` page_frames ms (insert TRAP_VPN ?W)) \<longrightarrow> store_trap_cx (mem s2) f ?cx x = mem s x"
    by (rule exec_memory [where cx = ?cx, OF ms(1) W apart(2) f(2,3) P(1,4) old(2) written length_exec_context])
  let ?m2 = "store_trap_cx (mem s2) f ?cx"
  let ?k' = "put_inner p ((inner tcb)\<lparr>memory_set := ms, trap_cx_ppn := f\<rparr>) (k\<lparr>k_mm := s2\<lparr>mem := ?m2\<rparr>\<rparr>)"
  have ex: "exec env p elf_data args k = Ok ?k'" using inv by (intro exec_run [OF tcb _ run f(1) m(1) s2(1)]) (simp add: tasks_inv_def)
  have "tasks_inv ?k'" by (rule tasks_inv_inner [of _ _ tcb]) (simp_all add: tasks_inv_mm inv tcb)
  have wf: "pt_wf l (page_table ms) s" using ms(1) by (simp add: user_ms_def)
  have "user_byte (MemorySet_token ms) ?m2 (of_nat c) = user_byte (MemorySet_token ms) m (of_nat c)" if c: "c \<in> {?lo..<unat ?top}" for c
  proof (rule user_byte_cong [OF wf])
    show "page_contents (page_table ms) ?m2 (page_of c) = page_contents (page_table ms) m (page_of c)" by (rule bspec [OF s2(4) stack_covered(1) [OF elf(3) c]])
    have "pt_abs (page_table ms) (mem s) (page_of c) \<noteq> None" by (rule stack_frame [OF ms(1) cov c])
    then show "page_contents (page_table ms) m (page_of c) \<noteq> None" using pages_written(2) [OF ms(1) written, where v = "page_of c"] by (simp add: page_contents_def)
    show "c < 2 ^ 39" using stack_covered(2) [OF elf(3) c] by simp
  qed
  then have "start_argv (user_byte (MemorySet_token ms) ?m2) argv_base 0 (length args) = Some (Ok args)" by (rule argv)
  moreover have "user_byte (MemorySet_token ms) ?m2 (virtual_addr ph + of_nat j) =
       Some (if j < unat (file_size ph) then elf_input elf ! (unat (ph_offset ph) + j) else 0)"
    if ph: "ph \<in> set (loadable elf)" "4096 dvd unat (virtual_addr ph)" "j < unat (mem_size ph)" for ph j
  proof -
    have ok: "segment_ok (elf_input elf) ph" using elf(3) ph(1) by blast
    let ?s' = "s2\<lparr>mem := ?m2\<rparr>" and ?D = "segment_bytes (elf_input elf) ph"
    have "area_loaded ms s (area_pages (segment_area ph)) (ph_perm ph) ?D"
      using loaded [of "segment_area ph" "Some ?D"] ph(1) by (simp add: elf_layout_def segment_area_def MapArea_new_def)
    moreover have "set (area_pages (segment_area ph)) \<subseteq> user_pages ms" "set (area_pages (segment_area ph)) \<inter> insert TRAP_VPN ?W = {}"
      using apart(3,5) [OF ph(1)] unfolding ms(3) by blast+
    moreover have "?m2 x = mem s x" if "x \<notin> \<Union> (frame_bytes ` page_frames ms (insert TRAP_VPN ?W))" for x using s2(5) that by blast
    ultimately have "area_loaded ms ?s' (area_pages (segment_area ph)) (ph_perm ph) ?D"
      using area_loaded_written [OF ms(1), of "insert TRAP_VPN ?W" ?m2 ?s'] by simp
    moreover have "pt_wf l (page_table ms) ?s'" using s2(2) by (simp add: user_ms_def)
    ultimately show ?thesis using segment_byte [OF _ ok ph(2,3), of l ms ?s' "ph_perm ph"] by simp
  qed
  moreover have "fa_live l (FRAME_ALLOCATOR s2) = fa_live l (FRAME_ALLOCATOR (k_mm k)) \<union> ms_own ms - ms_own ?P"
    using ms(2) by (simp add: s2(3) grows_def)
  ultimately show ?thesis using ex \<open>tasks_inv ?k'\<close> s2(2) m(3,4) tcb
    by (intro exI [of _ ?k'] exI [of _ "tcb\<lparr>inner := (inner tcb)\<lparr>memory_set := ms, trap_cx_ppn := f\<rparr>\<rparr>"] exI [of _ sp] exI [of _ argv_base])
      (simp add: put_inner_def get_user_token_def get_trap_cx_def exec_context_fields)
qed

section \<open>Example\<close>

definition k_exec :: "kernel outcome" where
  "k_exec = and_then (new_bare mm_example1) (\<lambda>(P, s). Ok (with_spaces P ms_example0 s))"

definition env_exec :: kernel_env where
  "env_exec = env_fork\<lparr>env_parse := \<lambda>_. Some elf_example\<rparr>"

theorem exec_spec_witness:
  "case k_exec of
     Ok k \<Rightarrow> \<exists>k' tcb' argv_base. exec env_exec 1 [] [[108, 115]] k = Ok k' \<and> tcbs k' 1 = Some tcb'
       \<and> sepc (get_trap_cx (inner tcb') (mem (k_mm k'))) = 0x1000
       \<and> start_argv (user_byte (get_user_token (inner tcb')) (mem (k_mm k'))) argv_base 0 1 = Some (Ok [[108, 115]])
   | Panic _ \<Rightarrow> False"
proof -
  have inv1: "fa_inv 0x80600 (FRAME_ALLOCATOR mm_example1)" using ms_example0_ok(1) by (simp add: user_ms_def pt_wf_def)
  obtain r s where r: "frame_alloc mm_example1 = (r, s)" by (cases "frame_alloc mm_example1")
  note f = frame_alloc_fa_free [OF inv1 r]
  with mm_example1_free obtain q where q: "r = Some q" by auto
  define P where "P = \<lparr>page_table = \<lparr>root_ppn = q, pt_frames = [q]\<rparr>, areas = []\<rparr>"
  have bare: "new_bare mm_example1 = Ok (P, s)" using r q by (simp add: new_bare_def PageTable_new_def P_def)
  let ?k = "with_spaces P ms_example0 s" and ?tcb = "(tcb_example 1 Running [2])\<lparr>inner := (inner (tcb_example 1 Running [2]))\<lparr>memory_set := P\<rparr>\<rparr>"
  have k: "k_mm ?k = s" "tcbs ?k 1 = Some ?tcb" "memory_set (inner ?tcb) = P"
    by (simp_all add: with_spaces_def k_example_def put_inner_def)
  have P: "user_ms 0x80600 P s" "distinct (pt_frames (page_table P))" using new_bare_Ok(1) [OF inv1 bare] by (simp_all add: P_def)
  have tramp: "PhysAddr_page_offset (PhysAddr_from_usize (env_trampoline env_exec)) = 0"
    by (simp add: env_exec_def env_fork_def PhysAddr_page_offset_def PhysAddr_from_usize_def const_defs)
  have elf: "env_parse env_exec [] = Some elf_example" "elf_magic elf_example = [0x7f, 0x45, 0x4c, 0x46]" "entry_point elf_example = 0x1000"
    by (simp_all add: env_exec_def elf_example_def)
  have pages: "distinct (layout_pages (elf_layout elf_example))" "3 * length (layout_pages (elf_layout elf_example)) + 3 \<le> fa_free (FRAME_ALLOCATOR s)"
    unfolding elf_example_ok(2) using f q mm_example1_free by simp_all
  have args: "8 * (length [[108, 115 :: u8]] + 1) + strings_size [[108, 115]] \<le> 8192" "\<forall>a \<in> set [[108, 115]]. 0 \<notin> set a \<and> utf8_valid a"
    by (simp_all add: strings_size_def)
  from exec_spec [OF with_spaces_inv k(2), unfolded k(1,3), OF P tramp elf(1,2) elf_example_ok(1) pages args]
  obtain k' tcb' argv_base where e: "exec env_exec 1 [] [[108, 115]] ?k = Ok k'" "tcbs k' 1 = Some tcb'"
    "sepc (get_trap_cx (inner tcb') (mem (k_mm k'))) = 0x1000"
    "start_argv (user_byte (get_user_token (inner tcb')) (mem (k_mm k'))) argv_base 0 1 = Some (Ok [[108, 115]])" unfolding elf(3) Let_def by auto
  with bare show ?thesis by (auto simp: k_exec_def)
qed

end
