(* ===== verification/Kernel_Space.thy ===== *)
theory Kernel_Space
  imports Memory_Set
begin

text \<open>
  The address space of the kernel, \<^verbatim>\<open>MemorySet::new_kernel\<close> of \<^verbatim>\<open>memory_set.rs\<close>: its sections, the rest of the memory and the
  device registers are mapped to themselves, so that the kernel reaches physical memory under its
  physical addresses, and the trampoline is mapped at the top.
\<close>

section \<open>Mapping pages to themselves\<close>

definition identity_entry :: "MapPermission \<Rightarrow> VirtPageNum \<Rightarrow> PageTableEntry" where
  "identity_entry perm v = PageTableEntry_new (PhysPageNum (the_vpn v)) (perm OR PTE_V)"

text \<open>The map after the pages in \<open>X\<close> have been mapped to themselves with their permissions.\<close>

definition adds :: "(VirtPageNum \<times> MapPermission) set \<Rightarrow> (VirtPageNum \<rightharpoonup> PageTableEntry) \<Rightarrow> (VirtPageNum \<rightharpoonup> PageTableEntry) \<Rightarrow> bool" where
  "adds X m m' \<longleftrightarrow> (\<forall>u perm. (u, perm) \<in> X \<longrightarrow> m' u = Some (identity_entry perm u))
     \<and> (\<forall>v e. m' v = Some e \<longrightarrow> m v = Some e \<or> (\<exists>u perm. (u, perm) \<in> X \<and> same_page v u \<and> e = identity_entry perm u))
     \<and> (\<forall>v e. m v = Some e \<longrightarrow> m' v = Some e)"

lemma adds_refl: "adds {} m m"
  by (simp add: adds_def)

lemma adds_trans:
  assumes "adds X m m1" "adds Y m1 m2"
  shows "adds (X \<union> Y) m m2"
  unfolding adds_def
proof (intro conjI allI impI)
  fix v e assume "m2 v = Some e"
  then consider "m1 v = Some e" | u perm where "(u, perm) \<in> Y" "same_page v u" "e = identity_entry perm u" using assms(2) unfolding adds_def by blast
  then show "m v = Some e \<or> (\<exists>u perm. (u, perm) \<in> X \<union> Y \<and> same_page v u \<and> e = identity_entry perm u)"
    using assms(1) unfolding adds_def by cases blast+
qed (use assms in \<open>auto simp: adds_def\<close>)

lemma adds_new: "adds X m m' \<Longrightarrow> m' v = Some e \<Longrightarrow> m v = Some e \<or> (\<exists>u perm. (u, perm) \<in> X \<and> same_page v u \<and> e = identity_entry perm u)"
  by (simp add: adds_def)

definition area_entries :: "MapArea \<Rightarrow> (VirtPageNum \<times> MapPermission) set" where
  "area_entries a = (\<lambda>u. (u, map_perm a)) ` set (area_pages a)"

lemma map_one_identical:
  "map_type a = Identical \<Longrightarrow> MapArea_map_one a pt v s =
     and_then (PageTable_map pt v (PhysPageNum (the_vpn v)) (map_perm a) s) (\<lambda>(pt', s'). Ok (a, pt', s'))"
  by (simp add: MapArea_map_one_def PTEFlags_from_bits_total)

lemma adds_map:
  assumes wf: "pt_wf l pt s" and map: "PageTable_map pt w (PhysPageNum (the_vpn w)) perm s = Ok (pt', s')"
  shows "adds {(w, perm)} (pt_abs pt (mem s)) (pt_abs pt' (mem s'))"
proof -
  note mo = PageTable_map_Ok [OF wf map]
  have abs: "pt_abs pt' (mem s') v = (if same_page v w then Some (identity_entry perm w) else pt_abs pt (mem s) v)" for v
    using mo(3) by (simp add: identity_entry_def)
  have "\<not> same_page v w" if "pt_abs pt (mem s) v = Some e" for v e using that mo(2) pt_abs_same_page [OF _ wf, of v w] by auto
  then show ?thesis by (auto simp: adds_def abs split: if_splits)
qed

lemma map_pages_identical:
  assumes "pt_wf l pt s" "map_type a = Identical" "map_pages vs a pt s = Ok (a', pt', s')"
  shows "a' = a \<and> pt_wf l pt' s' \<and> adds ((\<lambda>u. (u, map_perm a)) ` set vs) (pt_abs pt (mem s)) (pt_abs pt' (mem s'))"
  using assms
proof (induction vs arbitrary: pt s)
  case (Cons w vs)
  from Cons.prems(3) obtain pt1 s1 where m: "PageTable_map pt w (PhysPageNum (the_vpn w)) (map_perm a) s = Ok (pt1, s1)"
    and rest: "map_pages vs a pt1 s1 = Ok (a', pt', s')"
    by (auto simp: map_one_identical [OF Cons.prems(2)] and_then_eq_Ok_conv)
  from Cons.IH [OF PageTable_map_Ok(1) [OF Cons.prems(1) m] Cons.prems(2) rest] have ih: "a' = a" "pt_wf l pt' s'"
    "adds ((\<lambda>u. (u, map_perm a)) ` set vs) (pt_abs pt1 (mem s1)) (pt_abs pt' (mem s'))" by blast+
  from adds_trans [OF adds_map [OF Cons.prems(1) m] ih(3)] ih(1,2) show ?case by simp
qed (simp add: adds_refl)

lemma map_pages_identical_is_ok:
  assumes "pt_wf l pt s" "map_type a = Identical" "\<forall>v \<in> set vs. pt_abs pt (mem s) v = None" "distinct vs" "pairwise (\<lambda>u v. \<not> same_page u v) (set vs)"
    and "2 * length vs \<le> fa_free (FRAME_ALLOCATOR s)"
  shows "\<exists>pt' s'. map_pages vs a pt s = Ok (a, pt', s') \<and> fa_free (FRAME_ALLOCATOR s) \<le> fa_free (FRAME_ALLOCATOR s') + 2 * length vs"
  using assms
proof (induction vs arbitrary: pt s)
  case (Cons w vs)
  from PageTable_map_is_ok [OF Cons.prems(1), of w "PhysPageNum (the_vpn w)" "map_perm a"] Cons.prems(3,6)
  obtain pt1 s1 where m: "PageTable_map pt w (PhysPageNum (the_vpn w)) (map_perm a) s = Ok (pt1, s1)" by auto
  note mo = PageTable_map_Ok [OF Cons.prems(1) m] and free = PageTable_map_free [OF Cons.prems(1) m]
  have "pt_abs pt1 (mem s1) v = None" if "v \<in> set vs" for v
    using pairwiseD [OF Cons.prems(5), of v w] Cons.prems(3,4) that by (auto simp: mo(3))
  moreover have "pairwise (\<lambda>u v. \<not> same_page u v) (set vs)" using Cons.prems(5) by (rule pairwise_subset) auto
  ultimately obtain pt' s' where "map_pages vs a pt1 s1 = Ok (a, pt', s')" "fa_free (FRAME_ALLOCATOR s1) \<le> fa_free (FRAME_ALLOCATOR s') + 2 * length vs"
    using Cons.IH [OF mo(1) Cons.prems(2)] Cons.prems(4,6) free by auto
  then show ?case using free by (auto simp: map_one_identical [OF Cons.prems(2)] m)
qed simp

lemma push_all_identical:
  assumes "pt_wf l (page_table ms) s" "\<forall>a \<in> set as. map_type a = Identical" "push_all as ms s = Ok (ms', s')"
  shows "pt_wf l (page_table ms') s' \<and> areas ms' = areas ms @ as
    \<and> adds (\<Union> (area_entries ` set as)) (pt_abs (page_table ms) (mem s)) (pt_abs (page_table ms') (mem s'))"
  using assms
proof (induction as arbitrary: ms s)
  case (Cons a as)
  from Cons.prems(3) obtain a1 pt1 s1 where m: "map_pages (area_pages a) a (page_table ms) s = Ok (a1, pt1, s1)"
    and rest: "push_all as \<lparr>page_table = pt1, areas = areas ms @ [a1]\<rparr> s1 = Ok (ms', s')"
    by (auto simp: MemorySet_push_def MapArea_map_def and_then_eq_Ok_conv)
  have "map_type a = Identical" using Cons.prems(2) by simp
  from map_pages_identical [OF Cons.prems(1) this m] have one: "a1 = a" "pt_wf l pt1 s1"
    "adds (area_entries a) (pt_abs (page_table ms) (mem s)) (pt_abs pt1 (mem s1))" by (simp_all add: area_entries_def)
  have two: "pt_wf l (page_table ms') s'" "areas ms' = areas ms @ a # as"
    "adds (\<Union> (area_entries ` set as)) (pt_abs pt1 (mem s1)) (pt_abs (page_table ms') (mem s'))"
    using Cons.IH [OF _ _ rest] one Cons.prems(2) by auto
  from two adds_trans [OF one(3) two(3)] show ?case by simp
qed (simp add: adds_refl)

lemma push_all_identical_is_ok:
  assumes "pt_wf l (page_table ms) s" "\<forall>a \<in> set as. map_type a = Identical" "distinct (concat (map area_pages as))"
    and "pairwise (\<lambda>u v. \<not> same_page u v) (set (concat (map area_pages as)))"
    and "\<forall>v \<in> set (concat (map area_pages as)). pt_abs (page_table ms) (mem s) v = None"
    and "2 * length (concat (map area_pages as)) \<le> fa_free (FRAME_ALLOCATOR s)"
  shows "\<exists>ms' s'. push_all as ms s = Ok (ms', s')"
  using assms
proof (induction as arbitrary: ms s)
  case (Cons a as)
  have idt: "map_type a = Identical" using Cons.prems(2) by simp
  have "pairwise (\<lambda>u v. \<not> same_page u v) (set (area_pages a))" using Cons.prems(4) by (rule pairwise_subset) auto
  with map_pages_identical_is_ok [OF Cons.prems(1) idt, of "area_pages a"] Cons.prems(3,5,6) obtain pt1 s1 where
    m: "map_pages (area_pages a) a (page_table ms) s = Ok (a, pt1, s1)" "fa_free (FRAME_ALLOCATOR s) \<le> fa_free (FRAME_ALLOCATOR s1) + 2 * length (area_pages a)"
    by auto
  from map_pages_identical [OF Cons.prems(1) idt m(1)] have wf: "pt_wf l pt1 s1"
    and ad: "adds ((\<lambda>u. (u, map_perm a)) ` set (area_pages a)) (pt_abs (page_table ms) (mem s)) (pt_abs pt1 (mem s1))" by blast+
  have "pt_abs pt1 (mem s1) v = None" if v: "v \<in> set (concat (map area_pages as))" for v
  proof (rule ccontr)
    assume "pt_abs pt1 (mem s1) v \<noteq> None"
    then obtain e where e: "pt_abs pt1 (mem s1) v = Some e" by auto
    have "pt_abs (page_table ms) (mem s) v \<noteq> Some e" using Cons.prems(5) v by auto
    then obtain u where u: "u \<in> set (area_pages a)" "same_page v u" using adds_new [OF ad e] by blast
    then have "v \<noteq> u" using Cons.prems(3) v by auto
    with pairwiseD [OF Cons.prems(4), of v u] u v show False by auto
  qed
  moreover have "pairwise (\<lambda>u v. \<not> same_page u v) (set (concat (map area_pages as)))" using Cons.prems(4) by (rule pairwise_subset) auto
  ultimately obtain ms' s' where "push_all as \<lparr>page_table = pt1, areas = areas ms @ [a]\<rparr> s1 = Ok (ms', s')"
    using Cons.IH [of "\<lparr>page_table = pt1, areas = areas ms @ [a]\<rparr>" s1] wf Cons.prems(2,3,6) m(2) by auto
  with m(1) show ?case by (simp add: MemorySet_push_def MapArea_map_def)
qed simp

section \<open>The sections of the kernel\<close>

definition kernel_areas :: "linker \<Rightarrow> MapArea list" where
  "kernel_areas L =
     [MapArea_new (VirtAddr_from_usize (stext L)) (VirtAddr_from_usize (etext L)) Identical (MP_R OR MP_X),
      MapArea_new (VirtAddr_from_usize (srodata L)) (VirtAddr_from_usize (erodata L)) Identical MP_R,
      MapArea_new (VirtAddr_from_usize (sdata L)) (VirtAddr_from_usize (edata L)) Identical (MP_R OR MP_W),
      MapArea_new (VirtAddr_from_usize (sbss_with_stack L)) (VirtAddr_from_usize (ebss L)) Identical (MP_R OR MP_W),
      MapArea_new (VirtAddr_from_usize (ekernel L)) (VirtAddr_from_usize MEMORY_END) Identical (MP_R OR MP_W)]
     @ map (\<lambda>(a, n). MapArea_new (VirtAddr_from_usize a) (VirtAddr_from_usize (a + n)) Identical (MP_R OR MP_W)) MMIO"

lemma new_kernel_push: "new_kernel L s = and_then (new_bare s) (\<lambda>(ms, s). and_then (map_trampoline (strampoline L) ms s) (\<lambda>(ms, s). push_all (kernel_areas L) ms s))"
  by (simp add: new_kernel_def kernel_areas_def)

lemma kernel_areas_identical: "\<forall>a \<in> set (kernel_areas L). map_type a = Identical"
  by (auto simp: kernel_areas_def MapArea_new_def)

lemma kernel_perms: "a \<in> set (kernel_areas L) \<Longrightarrow> map_perm a \<in> {MP_R OR MP_X, MP_R, MP_R OR MP_W}"
  by (auto simp: kernel_areas_def MapArea_new_def)

lemma kernel_flags:
  assumes "perm \<in> {MP_R OR MP_X, MP_R, MP_R OR MP_W, PTE_R OR PTE_X}"
  shows "\<not> (PageTableEntry_writable (PageTableEntry_new p (perm OR PTE_V)) \<and> PageTableEntry_executable (PageTableEntry_new p (perm OR PTE_V)))
    \<and> PageTableEntry_flags (PageTableEntry_new p (perm OR PTE_V)) AND PTE_U = 0"
  using assms by (auto simp: PageTableEntry_writable_def PageTableEntry_executable_def const_defs)

lemma trampoline_mapped:
  assumes inv: "fa_inv l (FRAME_ALLOCATOR s)" and bare: "new_bare s = Ok (ms1, s1)" and tr: "map_trampoline tramp ms1 s1 = Ok (ms2, s2)"
  shows "pt_wf l (page_table ms2) s2" "areas ms2 = []"
    "pt_abs (page_table ms2) (mem s2) v =
      (if same_page v (VirtPageNum 0x7FFFFFF) then Some (PageTableEntry_new (PhysAddr_floor (PhysAddr_from_usize tramp)) (PTE_R OR PTE_X OR PTE_V)) else None)"
proof -
  note b = new_bare_Ok [OF inv bare]
  from tr obtain pt where pt: "PageTable_map (page_table ms1) (VirtPageNum 0x7FFFFFF) (PhysAddr_floor (PhysAddr_from_usize tramp)) (PTE_R OR PTE_X) s1 = Ok (pt, s2)"
    and ms2: "ms2 = ms1\<lparr>page_table := pt\<rparr>"
    by (auto simp: map_trampoline_def TRAMPOLINE_vpn PhysPageNum_from_PhysAddr_def and_then_eq_Ok_conv assert_that_def split: if_splits)
  have wf: "pt_wf l (page_table ms1) s1" using b(1) by (simp add: user_ms_def)
  note mo = PageTable_map_Ok [OF wf pt]
  show "pt_wf l (page_table ms2) s2" "areas ms2 = []" using mo(1) b(3) by (simp_all add: ms2)
  show "pt_abs (page_table ms2) (mem s2) v =
      (if same_page v (VirtPageNum 0x7FFFFFF) then Some (PageTableEntry_new (PhysAddr_floor (PhysAddr_from_usize tramp)) (PTE_R OR PTE_X OR PTE_V)) else None)"
    using mo(3) b(4) by (simp add: ms2 or.assoc)
qed

lemma identity_translate:
  assumes "pt_abs pt m (VirtAddr_floor (VirtAddr x)) = Some (identity_entry perm (VirtAddr_floor (VirtAddr x)))" "unat x < 2 ^ 39"
  shows "PageTable_translate_va pt (VirtAddr x) m = Some (PhysAddr x)"
proof -
  have ppn: "unat (the_ppn (PhysPageNum (the_vpn (VirtAddr_floor (VirtAddr x))))) < 2 ^ 44" using assms(2) by simp
  from translate_va_Some [OF assms(1)] obtain pa where pa: "PageTable_translate_va pt (VirtAddr x) m = Some pa"
    "unat (the_pa pa) = unat (the_ppn (PageTableEntry_ppn (identity_entry perm (VirtAddr_floor (VirtAddr x))))) * 4096 + unat x mod 4096" by auto
  have "unat (the_pa pa) = unat x" unfolding pa(2) identity_entry_def using ppn by simp
  then have "pa = PhysAddr x" by (cases pa) (simp add: word_unat_eq_iff)
  with pa(1) show ?thesis by simp
qed

section \<open>Properties\<close>

text \<open>
  C18. The kernel's address space is the identity on its sections, on the rest of the memory and on the device registers, with
  the trampoline at the top: every address in these areas is translated to itself. Nothing else is
  mapped, no page is both writable and executable, and none is open to the user.
\<close>

theorem new_kernel_identity:
  assumes "fa_inv l (FRAME_ALLOCATOR s)" "new_kernel L s = Ok (ms, s')"
  shows "pt_wf l (page_table ms) s' \<and> areas ms = kernel_areas L
    \<and> (\<forall>a \<in> set (kernel_areas L). \<forall>x. VirtAddr_floor (VirtAddr x) \<in> set (area_pages a) \<and> unat x < 2 ^ 39 \<longrightarrow>
         PageTable_translate_va (page_table ms) (VirtAddr x) (mem s') = Some (PhysAddr x)
         \<and> map_option PageTableEntry_flags (pt_abs (page_table ms) (mem s') (VirtAddr_floor (VirtAddr x))) = Some (map_perm a OR PTE_V))
    \<and> pt_abs (page_table ms) (mem s') (VirtPageNum 0x7FFFFFF) =
        Some (PageTableEntry_new (PhysAddr_floor (PhysAddr_from_usize (strampoline L))) (PTE_R OR PTE_X OR PTE_V))
    \<and> (\<forall>v e. pt_abs (page_table ms) (mem s') v = Some e \<longrightarrow>
         (same_page v (VirtPageNum 0x7FFFFFF) \<or> (\<exists>a \<in> set (kernel_areas L). \<exists>u \<in> set (area_pages a). same_page v u))
         \<and> \<not> (PageTableEntry_writable e \<and> PageTableEntry_executable e) \<and> PageTableEntry_flags e AND PTE_U = 0)"
proof -
  from assms(2) obtain ms1 s1 ms2 s2 where r: "new_bare s = Ok (ms1, s1)" "map_trampoline (strampoline L) ms1 s1 = Ok (ms2, s2)"
    "push_all (kernel_areas L) ms2 s2 = Ok (ms, s')" by (auto simp: new_kernel_push and_then_eq_Ok_conv)
  note t = trampoline_mapped [OF assms(1) r(1,2)]
  from push_all_identical [OF t(1) kernel_areas_identical r(3)] t(2) have p: "pt_wf l (page_table ms) s'" "areas ms = kernel_areas L"
    and a: "adds (\<Union> (area_entries ` set (kernel_areas L))) (pt_abs (page_table ms2) (mem s2)) (pt_abs (page_table ms) (mem s'))" by simp_all
  have id: "pt_abs (page_table ms) (mem s') v = Some (identity_entry (map_perm a) v)" if "a \<in> set (kernel_areas L)" "v \<in> set (area_pages a)" for a v
    using a that unfolding adds_def area_entries_def by blast
  have old: "pt_abs (page_table ms) (mem s') v = Some e" if "pt_abs (page_table ms2) (mem s2) v = Some e" for v e using a that unfolding adds_def by blast
  have cases: "pt_abs (page_table ms2) (mem s2) v = Some e \<or> (\<exists>a \<in> set (kernel_areas L). \<exists>u \<in> set (area_pages a). same_page v u \<and> e = identity_entry (map_perm a) u)"
    if "pt_abs (page_table ms) (mem s') v = Some e" for v e using a that unfolding adds_def area_entries_def by blast
  have "(same_page v (VirtPageNum 0x7FFFFFF) \<or> (\<exists>a \<in> set (kernel_areas L). \<exists>u \<in> set (area_pages a). same_page v u))
      \<and> \<not> (PageTableEntry_writable e \<and> PageTableEntry_executable e) \<and> PageTableEntry_flags e AND PTE_U = 0"
    if "pt_abs (page_table ms) (mem s') v = Some e" for v e
    using cases [OF that]
  proof
    assume e: "pt_abs (page_table ms2) (mem s2) v = Some e"
    then have "same_page v (VirtPageNum 0x7FFFFFF)" "e = PageTableEntry_new (PhysAddr_floor (PhysAddr_from_usize (strampoline L))) ((PTE_R OR PTE_X) OR PTE_V)"
      by (auto simp: t(3) or.assoc split: if_splits)
    then show ?thesis using kernel_flags [of "PTE_R OR PTE_X"] by blast
  next
    assume "\<exists>a \<in> set (kernel_areas L). \<exists>u \<in> set (area_pages a). same_page v u \<and> e = identity_entry (map_perm a) u"
    then obtain a u where au: "a \<in> set (kernel_areas L)" "u \<in> set (area_pages a)" "same_page v u" "e = identity_entry (map_perm a) u" by blast
    have "map_perm a \<in> {MP_R OR MP_X, MP_R, MP_R OR MP_W, PTE_R OR PTE_X}" using kernel_perms [OF au(1)] by blast
    from kernel_flags [OF this] au show ?thesis unfolding identity_entry_def by blast
  qed
  moreover have "PageTable_translate_va (page_table ms) (VirtAddr x) (mem s') = Some (PhysAddr x)
      \<and> map_option PageTableEntry_flags (pt_abs (page_table ms) (mem s') (VirtAddr_floor (VirtAddr x))) = Some (map_perm a OR PTE_V)"
    if "a \<in> set (kernel_areas L)" "VirtAddr_floor (VirtAddr x) \<in> set (area_pages a)" "unat x < 2 ^ 39" for a x
    using identity_translate [OF id [OF that(1,2)] that(3)] id [OF that(1,2)] by (simp add: identity_entry_def)
  ultimately show ?thesis using p old [of "VirtPageNum 0x7FFFFFF"] t(3) [of "VirtPageNum 0x7FFFFFF"] by (intro conjI) auto
qed

text \<open>A kernel of one page per section in a machine with little memory.\<close>

definition linker_example :: linker where
  "linker_example = \<lparr>stext = 0x80200000, etext = 0x80201000, srodata = 0x80201000, erodata = 0x80202000, sdata = 0x80202000, edata = 0x80203000,
     sbss_with_stack = 0x80203000, ebss = 0x80204000, ekernel = 0x807FF000, strampoline = 0x80200000\<rparr>"

lemma linker_example_pages:
  "map area_pages (kernel_areas linker_example) =
     [[VirtPageNum 0x80200], [VirtPageNum 0x80201], [VirtPageNum 0x80202], [VirtPageNum 0x80203], [VirtPageNum 0x807FF], [VirtPageNum 0x10001]]"
  by (simp add: kernel_areas_def linker_example_def MapArea_new_def VirtAddr_floor_def VirtAddr_ceil_def VirtAddr_from_usize_def const_defs
      VPNRange_list_def SimpleRange_into_iter_def SimpleRange_new_def vpn_iter.simps SimpleRangeIterator_next_def VirtPageNum_step_def)

theorem new_kernel_identity_witness:
  "\<exists>ms s'. new_kernel linker_example mm_example = Ok (ms, s') \<and> PageTable_translate_va (page_table ms) (VirtAddr 0x80202123) (mem s') = Some (PhysAddr 0x80202123)"
proof -
  have tramp: "PhysAddr_page_offset (PhysAddr_from_usize (strampoline linker_example)) = 0"
    by (simp add: linker_example_def PhysAddr_page_offset_def PhysAddr_from_usize_def const_defs)
  have free: "512 \<le> fa_free (FRAME_ALLOCATOR mm_example)" by (simp add: mm_example_def fa_example_eq fa_free_def)
  obtain ms1 s1 ms2 s2 where b: "new_bare mm_example = Ok (ms1, s1)" "map_trampoline (strampoline linker_example) ms1 s1 = Ok (ms2, s2)"
    "user_ms 0x80600 ms2 s2" "fa_free (FRAME_ALLOCATOR mm_example) \<le> fa_free (FRAME_ALLOCATOR s2) + 3"
    "\<And>v. \<not> same_page v (VirtPageNum 0x7FFFFFF) \<Longrightarrow> pt_abs (page_table ms2) (mem s2) v = None"
    by (rule bare_with_trampoline [OF mm_example_inv tramp]) (use free in auto)
  let ?vs = "concat (map area_pages (kernel_areas linker_example))"
  have vs: "?vs = [VirtPageNum 0x80200, VirtPageNum 0x80201, VirtPageNum 0x80202, VirtPageNum 0x80203, VirtPageNum 0x807FF, VirtPageNum 0x10001]"
    unfolding linker_example_pages by simp
  have wf: "pt_wf 0x80600 (page_table ms2) s2" using b(3) by (simp add: user_ms_def)
  have "distinct ?vs" "pairwise (\<lambda>u v. \<not> same_page u v) (set ?vs)" "2 * length ?vs \<le> fa_free (FRAME_ALLOCATOR s2)"
    unfolding vs using free b(4) by (simp_all add: pairwise_def same_page_def)
  moreover have "\<forall>v \<in> set ?vs. pt_abs (page_table ms2) (mem s2) v = None" unfolding vs by (intro ballI b(5)) (auto simp: same_page_def)
  ultimately obtain ms s' where "push_all (kernel_areas linker_example) ms2 s2 = Ok (ms, s')"
    using push_all_identical_is_ok [OF wf kernel_areas_identical] by blast
  then have run: "new_kernel linker_example mm_example = Ok (ms, s')" using b(1,2) by (simp add: new_kernel_push)
  have "kernel_areas linker_example ! 2 \<in> set (kernel_areas linker_example)" by (simp add: kernel_areas_def)
  moreover have "area_pages (kernel_areas linker_example ! 2) = [VirtPageNum 0x80202]"
    using arg_cong [OF linker_example_pages, of "\<lambda>xs. xs ! 2"] by (simp add: kernel_areas_def)
  moreover have "VirtAddr_floor (VirtAddr 0x80202123) = VirtPageNum 0x80202" by (simp add: VirtAddr_floor_def const_defs)
  ultimately have "PageTable_translate_va (page_table ms) (VirtAddr 0x80202123) (mem s') = Some (PhysAddr 0x80202123)"
    using new_kernel_identity [OF mm_example_inv run] by auto
  with run show ?thesis by blast
qed

end
