(* ===== verification/Image_Builder.thy ===== *)
theory Image_Builder
  imports File_System
begin

text \<open>
  The image builder \<^verbatim>\<open>easy_fs_pack\<close> of \<^verbatim>\<open>easy-fs-fuse\<close>: it formats a file of 16 MiB and copies the
  programs of a directory into it. The names in the directory and the contents of the host's files are
  arguments; the command line is left out.
\<close>

section \<open>Packing\<close>

definition IMAGE_BLOCKS :: u32 where "IMAGE_BLOCKS = 16 * 2048"

text \<open>\<^verbatim>\<open>File::set_len\<close>\<close>

definition set_len :: "nat \<Rightarrow> u8 list \<Rightarrow> u8 list" where
  "set_len n f = take n f @ replicate (n - length f) 0"

text \<open>\<^verbatim>\<open>name.drain(name.find('.').unwrap()..name.len())\<close>, where a dot is the byte \<open>0x2E\<close>\<close>

definition stem :: "u8 list \<Rightarrow> u8 list outcome" where
  "stem name =
     and_then (unwrap (find (\<lambda>i. name ! i = 0x2E) [0..<length name])) (\<lambda>i. Ok (take i name))"

fun stems :: "u8 list list \<Rightarrow> u8 list list outcome" where
  "stems [] = Ok []"
| "stems (n # ns) = and_then (stem n) (\<lambda>a. and_then (stems ns) (\<lambda>as. Ok (a # as)))"

text \<open>The loop over the programs: the host's file is read, created in the image and written.\<close>

fun pack_apps :: "(u8 list \<rightharpoonup> u8 list) \<Rightarrow> EasyFileSystem \<Rightarrow> u8 list list \<Rightarrow> u8 list bc_state \<Rightarrow> u8 list bc_state outcome" where
  "pack_apps host e [] s = Ok s"
| "pack_apps host e (app # apps) s =
     and_then (unwrap (host app)) (\<lambda>all_data.
     and_then (Inode_create BlockFile e (root_inode e) app s) (\<lambda>(r, s).
     and_then (unwrap r) (\<lambda>inode.
     and_then (Inode_write_at BlockFile e inode 0 all_data s) (\<lambda>(_, s).
     pack_apps host e apps s))))"

text \<open>The names that are printed at the end, the file system and the cache with the image behind it.\<close>

definition easy_fs_pack ::
    "u8 list list \<Rightarrow> (u8 list \<rightharpoonup> u8 list) \<Rightarrow> u8 list \<Rightarrow> (u8 list list \<times> EasyFileSystem \<times> u8 list bc_state) outcome" where
  "easy_fs_pack dir host img =
     and_then (efs_create BlockFile IMAGE_BLOCKS 1 \<lparr>queue = [], device = set_len (16 * 2048 * 512) img\<rparr>) (\<lambda>(e, s).
     and_then (stems dir) (\<lambda>apps.
     and_then (pack_apps host e apps s) (\<lambda>s.
     and_then (Inode_ls BlockFile (root_inode e) s) (\<lambda>(names, s). Ok (names, e, s)))))"

section \<open>What the image holds\<close>

lemma stem_dot: "0x2E \<notin> set a \<Longrightarrow> stem (a @ 0x2E # ext) = Ok a"
proof -
  assume a: "0x2E \<notin> set a"
  let ?n = "a @ 0x2E # ext"
  have "find (\<lambda>i. ?n ! i = 0x2E) [0..<length ?n] = Some (length a)"
    unfolding find_Some_iff using a by (intro exI [of _ "length a"]) (auto simp: nth_append dest: nth_mem)
  then show ?thesis by (simp add: stem_def)
qed

lemma need_prefix: "fs_need st \<le> fs_need (st @ st')"
  using blocks_for_mono [of "DIR_ENTRY_SIZE * length st" "DIR_ENTRY_SIZE * length (st @ st')"] by (simp add: fs_need_def)

lemma need_shrink: "length c \<le> length c' \<Longrightarrow> fs_need (st @ [(nm, c)]) \<le> fs_need (st @ [(nm, c')])"
  using blocks_for_mono by (simp add: fs_need_def)

lemma set_file_last: "nm \<notin> fst ` set st \<Longrightarrow> set_file nm c (st @ [(nm, x)]) = st @ [(nm, c)]"
proof -
  assume "nm \<notin> fst ` set st"
  then have "map (\<lambda>(n, b). if n = nm then (n, c) else (n, b)) st = st" by (intro map_idI) force
  then show ?thesis by (simp add: set_file_def)
qed

context block_device
begin

text \<open>Creating a file and writing its contents through the handle.\<close>

lemma create_write:
  assumes ref: "fs_refines D N dev_ok e s st" and new: "nm \<notin> fst ` set st" and name: "valid_name nm"
    and lim: "Suc (length st) < Bitmap_maximum (inode_bitmap e)" "DIR_ENTRY_SIZE * Suc (length st) \<le> max_file_size"
      "length c \<le> max_file_size" "fs_need (st @ [(nm, c)]) \<le> N - da_start e"
  shows "\<exists>ino s1 s2. Inode_create D e (root_inode e) nm s = Ok (Some ino, s1)
    \<and> Inode_write_at D e ino 0 c s1 = Ok (length c, s2) \<and> fs_refines D N dev_ok e s2 (st @ [(nm, c)])"
proof -
  from ref obtain w where w: "efs_at D N dev_ok e s w" "fs_model_of e w = st" "card (data_free N e w) + fs_need st = N - da_start e"
    "card (live_inodes e w) = Suc (length st)" "distinct (map fst st)" by (rule fs_refinesE)
  have none: "map_of st nm = None" using new by (simp add: map_of_eq_None_iff)
  then have "dir_lookup e w nm = None" using map_of_model [of e w nm] w(2) by simp
  moreover have "fs_need (st @ [(nm, [])]) \<le> N - da_start e" using need_shrink [of "[]" c st nm] lim(4) by simp
  ultimately obtain k s1 w1 where
    c: "Inode_create D e (root_inode e) nm s = Ok (Some (handle e k), s1)" "dir_lookup e w1 nm = Some k" "efs_at D N dev_ok e s1 w1"
      "fs_model_of e w1 = st @ [(nm, [])]" "card (live_inodes e w1) = Suc (Suc (length st))"
      "card (data_free N e w1) + fs_need (st @ [(nm, [])]) = N - da_start e"
    using create_handle [OF w _ name lim(1,2)] by blast
  have "map_of (st @ [(nm, [])]) nm = Some (icontent e w1 k)" using map_of_model [of e w1 nm] c(2,4) by simp
  then have k: "icontent e w1 k = []" using none by (simp add: map_add_def)
  have fw: "file_write [] 0 c = c" by (simp add: file_write_def splice_def)
  have d: "distinct (map fst (st @ [(nm, [])]))" using w(5) new by simp
  have "\<exists>s'. Inode_write_at D e (handle e k) 0 c s1 = Ok (length c, s') \<and> fs_refines D N dev_ok e s' (set_file nm c (st @ [(nm, [])]))"
    using write_handle [OF c(3,4,6) _ d c(2), of 0 c] c(5) lim(3,4) set_file_last [OF new, of c "[]"] by (simp add: k fw)
  then show ?thesis using c(1) set_file_last [OF new, of c "[]"] by auto
qed

end

lemma pack_apps_refines:
  assumes dev: "block_device BlockFile N dev_ok" and "fs_refines BlockFile N dev_ok e s st"
    and "distinct (map fst st @ apps)" "\<forall>a \<in> set apps. valid_name a \<and> (\<exists>c. host a = Some c \<and> length c \<le> max_file_size)"
    and "length st + length apps < Bitmap_maximum (inode_bitmap e) - 1" "DIR_ENTRY_SIZE * (length st + length apps) \<le> max_file_size"
    and "fs_need (st @ map (\<lambda>a. (a, the (host a))) apps) \<le> N - da_start e"
  shows "\<exists>s'. pack_apps host e apps s = Ok s' \<and> fs_refines BlockFile N dev_ok e s' (st @ map (\<lambda>a. (a, the (host a))) apps)"
  using assms(2-)
proof (induction apps arbitrary: s st)
  case (Cons a apps)
  from Cons.prems(3) obtain c where c: "valid_name a" "host a = Some c" "length c \<le> max_file_size" by auto
  let ?st = "st @ [(a, c)]"
  have app: "st @ map (\<lambda>a. (a, the (host a))) (a # apps) = ?st @ map (\<lambda>a. (a, the (host a))) apps" by (simp add: c(2))
  have "fs_need ?st \<le> N - da_start e"
    using need_prefix [of ?st "map (\<lambda>a. (a, the (host a))) apps"] Cons.prems(6) unfolding app by simp
  moreover have "DIR_ENTRY_SIZE * Suc (length st) \<le> max_file_size"
  proof -
    have "DIR_ENTRY_SIZE * Suc (length st) \<le> DIR_ENTRY_SIZE * (length st + length (a # apps))" by (intro mult_le_mono) simp_all
    with Cons.prems(5) show ?thesis by linarith
  qed
  moreover have "Suc (length st) < Bitmap_maximum (inode_bitmap e)" using Cons.prems(4) by simp
  ultimately obtain ino s1 s2 where
    s2: "Inode_create BlockFile e (root_inode e) a s = Ok (Some ino, s1)" "Inode_write_at BlockFile e ino 0 c s1 = Ok (length c, s2)"
      "fs_refines BlockFile N dev_ok e s2 ?st"
    using block_device.create_write [OF dev Cons.prems(1), of a c] Cons.prems(2) c by auto
  have "\<exists>s'. pack_apps host e apps s2 = Ok s' \<and> fs_refines BlockFile N dev_ok e s' (?st @ map (\<lambda>a. (a, the (host a))) apps)"
    using Cons.prems(2-6) unfolding app by (intro Cons.IH [OF s2(3)]) auto
  then show ?case unfolding app using s2(1,2) c(2) by simp
qed simp

lemma pack_refines:
  assumes "dir = map (\<lambda>(a, ext). a @ 0x2E # ext) apps" "distinct (map fst apps)"
    and "\<forall>a \<in> fst ` set apps. 0x2E \<notin> set a \<and> valid_name a \<and> (\<exists>c. host a = Some c \<and> length c \<le> max_file_size)"
    and "length apps < 4095" "fs_need (map (\<lambda>(a, ext). (a, the (host a))) apps) \<le> 31734"
  shows "\<exists>e s. easy_fs_pack dir host img = Ok (map fst apps, e, s)
    \<and> fs_refines BlockFile 32768 (\<lambda>f. 32768 * BLOCK_SIZE \<le> length f) e s (map (\<lambda>(a, ext). (a, the (host a))) apps)"
proof -
  let ?ok = "\<lambda>f :: u8 list. 32768 * BLOCK_SIZE \<le> length f" and ?names = "map fst apps"
  let ?st = "map (\<lambda>a. (a, the (host a))) ?names"
  have st: "map (\<lambda>(a, ext). (a, the (host a))) apps = ?st" by (simp add: case_prod_beta)
  have dev: "block_device BlockFile 32768 ?ok" by (rule block_file.block_device_axioms)
  have img: "?ok (set_len (16 * 2048 * 512) img)" by (simp add: set_len_def BLOCK_SIZE_def)
  have n: "unat IMAGE_BLOCKS = 32768" "format_ok IMAGE_BLOCKS 1" "fs_capacity IMAGE_BLOCKS 1 = 31734"
    by (simp_all add: IMAGE_BLOCKS_def format_ok_def fs_capacity_def)
  from block_device.efs_create_refines [OF dev img n(1,2)] obtain e s0 where
    c: "efs_create BlockFile IMAGE_BLOCKS 1 \<lparr>queue = [], device = set_len (16 * 2048 * 512) img\<rparr> = Ok (e, s0)"
      "fs_refines BlockFile 32768 ?ok e s0 []" "32768 - da_start e = 31734" "Bitmap_maximum (inode_bitmap e) = 4096" by (auto simp: n(3))
  have "stems (map (\<lambda>(a, ext). a @ 0x2E # ext) as) = Ok (map fst as)" if "\<forall>a \<in> fst ` set as. 0x2E \<notin> set a" for as
    using that by (induction as) (auto simp: stem_dot)
  then have stems: "stems dir = Ok ?names" unfolding assms(1) using assms(3) by blast
  have "\<exists>s. pack_apps host e ?names s0 = Ok s \<and> fs_refines BlockFile 32768 ?ok e s ([] @ ?st)"
    using assms(2-5) by (intro pack_apps_refines [OF dev c(2)])
      (simp_all add: c(3,4) st DIR_ENTRY_SIZE_def max_file_size_eq)
  then obtain s where s: "pack_apps host e ?names s0 = Ok s" "fs_refines BlockFile 32768 ?ok e s ?st" by auto
  have "\<exists>s'. run_op BlockFile e ListFiles s = Ok (Names (map fst ?st), s') \<and> fs_refines BlockFile 32768 ?ok e s' ?st"
    using block_device.run_op_refines [OF dev s(2), of ListFiles] by simp
  then obtain s' where ls: "Inode_ls BlockFile (root_inode e) s = Ok (?names, s')" "fs_refines BlockFile 32768 ?ok e s' ?st"
    by (auto simp: and_then_eq_Ok_conv comp_def)
  have "easy_fs_pack dir host img = Ok (?names, e, s')" using c(1) stems s(1) ls(1) by (simp add: easy_fs_pack_def)
  with ls(2) show ?thesis unfolding st by blast
qed

text \<open>
  The cached blocks that have been modified and not written back: the image differs from what the cache
  shows at most there, and there are at most 16 of them.
\<close>

definition unsynced :: "'d bc_state \<Rightarrow> nat set" where
  "unsynced s = {i. \<exists>c. map_of (queue s) i = Some c \<and> modified c}"

lemma unsynced_only:
  assumes dev: "block_device D N dev_ok" and inv: "bc_inv D N dev_ok s"
  shows "card (unsynced s) \<le> 16" "j < N \<Longrightarrow> j \<notin> unsynced s \<Longrightarrow> read_block D j (device s) = Ok (view D N s j)"
proof -
  have "unsynced s \<subseteq> fst ` set (queue s)" by (auto simp: unsynced_def map_of_eq_Some_iff intro: rev_image_eqI dest: map_of_SomeD)
  then have "card (unsynced s) \<le> card (fst ` set (queue s))" by (intro card_mono) simp_all
  also have "\<dots> \<le> length (queue s)" by (metis card_image_le card_length finite_set le_trans)
  finally show "card (unsynced s) \<le> 16" using inv by (simp add: bc_inv_def BLOCK_CACHE_SIZE_def)
  assume j: "j < N" "j \<notin> unsynced s"
  show "read_block D j (device s) = Ok (view D N s j)"
  proof (cases "map_of (queue s) j")
    case None
    moreover obtain b where "read_block D j (device s) = Ok b" using block_device.read_ok [OF dev, of "device s" j] j(1) inv unfolding bc_inv_def by blast
    ultimately show ?thesis using j(1) by (simp add: view_def)
  next
    case (Some c)
    with inv have "cache_ok D N (device s) j c" by (simp add: bc_inv_def)
    with Some j show ?thesis by (auto simp: cache_ok_def view_def unsynced_def)
  qed
qed

lemma refines_bc_inv: "fs_refines D N dev_ok e s st \<Longrightarrow> bc_inv D N dev_ok s"
  by (auto elim!: fs_refinesE dest: efs_atD(1) simp: fs_at_def)

text \<open>
  C22. The image builder packs what it is given: if the names in the directory have an extension, the names
  without it are distinct and valid, the host has these files, and they fit into the image, then
  \<^verbatim>\<open>easy_fs_pack\<close> ends without a panic and lists exactly these programs, and the file system that it has
  built, as the block cache shows it, holds exactly these files: a read of any of them returns the
  host's contents. The image agrees with what the cache shows on every block except at most 16 cached
  ones that have been modified; the program ends without writing these back.
\<close>

theorem easy_fs_pack_contents:
  assumes "dir = map (\<lambda>(a, ext). a @ 0x2E # ext) apps" "distinct (map fst apps)"
    and "\<forall>a \<in> fst ` set apps. 0x2E \<notin> set a \<and> valid_name a \<and> (\<exists>c. host a = Some c \<and> length c \<le> max_file_size)"
    and "length apps < 4095" "fs_need (map (\<lambda>(a, ext). (a, the (host a))) apps) \<le> 31734"
  shows "\<exists>e s. easy_fs_pack dir host img = Ok (map fst apps, e, s)
    \<and> fs_refines BlockFile 32768 (\<lambda>f. 32768 * BLOCK_SIZE \<le> length f) e s (map (\<lambda>(a, ext). (a, the (host a))) apps)
    \<and> (\<forall>a c buf. a \<in> fst ` set apps \<longrightarrow> host a = Some c \<longrightarrow> length buf = length c \<longrightarrow>
         (\<exists>s'. run_op BlockFile e (ReadFile a 0 buf) s = Ok (Data (Some (length c, c)), s')))
    \<and> card (unsynced s) \<le> 16
    \<and> (\<forall>j < 32768. j \<notin> unsynced s \<longrightarrow> read_block BlockFile j (device s) = Ok (view BlockFile 32768 s j))"
proof -
  let ?ok = "\<lambda>f :: u8 list. 32768 * BLOCK_SIZE \<le> length f" and ?names = "map fst apps"
  let ?st = "map (\<lambda>a. (a, the (host a))) ?names"
  have st: "map (\<lambda>(a, ext). (a, the (host a))) apps = ?st" by (simp add: case_prod_beta)
  have dev: "block_device BlockFile 32768 ?ok" by (rule block_file.block_device_axioms)
  from pack_refines [OF assms] obtain e s where
    p: "easy_fs_pack dir host img = Ok (?names, e, s)" "fs_refines BlockFile 32768 ?ok e s ?st" unfolding st by blast
  have rd: "\<exists>s'. run_op BlockFile e (ReadFile a 0 buf) s = Ok (Data (Some (length c, c)), s')"
    if f: "a \<in> fst ` set apps" "host a = Some c" "length buf = length c" for a c buf
  proof -
    have "(a, c) \<in> set ?st" using f(1,2) by force
    moreover have "distinct (map fst ?st)" using assms(2) by (simp add: comp_def)
    ultimately have m: "map_of ?st a = Some c" by simp
    have "length c \<le> max_file_size" using assms(3) f(1,2) by force
    then have len: "length buf < 2 ^ 64" using f(3) by (simp add: max_file_size_eq)
    have "splice 0 (take (length buf) (drop 0 c)) buf = c" using f(3) by (simp add: splice_def)
    with block_device.run_op_refines [OF dev p(2), of "ReadFile a 0 buf"] m len f(3) show ?thesis by auto
  qed
  show ?thesis
    using p rd unsynced_only [OF dev refines_bc_inv [OF p(2)]] unfolding st by blast
qed

text \<open>Two programs, \<^verbatim>\<open>a.rs\<close> with three bytes and an empty \<^verbatim>\<open>b.b\<close>.\<close>

theorem easy_fs_pack_contents_witness:
  "\<exists>e s s1 s2. easy_fs_pack [[97, 46, 114, 115], [98, 46, 98]] [[97] \<mapsto> [1, 2, 3], [98] \<mapsto> []] [] = Ok ([[97], [98]], e, s)
    \<and> run_op BlockFile e (ReadFile [97] 0 [0, 0, 0]) s = Ok (Data (Some (3, [1, 2, 3])), s1)
    \<and> run_op BlockFile e (ReadFile [98] 0 []) s = Ok (Data (Some (0, [])), s2)
    \<and> card (unsynced s) \<le> 16"
proof -
  let ?host = "[[97] \<mapsto> [1, 2, 3], [98] \<mapsto> []] :: u8 list \<rightharpoonup> u8 list" and ?apps = "[([97], [114, 115]), ([98], [98])] :: (u8 list \<times> u8 list) list"
  have h: "[[97, 46, 114, 115], [98, 46, 98]] = map (\<lambda>(a, ext). a @ 0x2E # ext) ?apps" "distinct (map fst ?apps)"
    "\<forall>a \<in> fst ` set ?apps. 0x2E \<notin> set a \<and> valid_name a \<and> (\<exists>c. ?host a = Some c \<and> length c \<le> max_file_size)"
    "length ?apps < 4095" "fs_need (map (\<lambda>(a, ext). (a, the (?host a))) ?apps) \<le> 31734"
    by (simp_all add: valid_name_def NAME_LENGTH_LIMIT_def max_file_size_eq fs_need_def DIR_ENTRY_SIZE_def blocks_for_def index_count_def)
  from easy_fs_pack_contents [OF h, of "[]"] obtain e s where
    s: "easy_fs_pack [[97, 46, 114, 115], [98, 46, 98]] ?host [] = Ok (map fst ?apps, e, s)" "card (unsynced s) \<le> 16"
    and rd: "\<forall>a c buf. a \<in> fst ` set ?apps \<longrightarrow> ?host a = Some c \<longrightarrow> length buf = length c \<longrightarrow>
         (\<exists>s'. run_op BlockFile e (ReadFile a 0 buf) s = Ok (Data (Some (length c, c)), s'))" by blast
  obtain s1 where "run_op BlockFile e (ReadFile [97] 0 [0, 0, 0]) s = Ok (Data (Some (length [1 :: u8, 2, 3], [1, 2, 3])), s1)"
    using rd [rule_format, of "[97]" "[1, 2, 3]" "[0, 0, 0]"] by auto
  moreover obtain s2 where "run_op BlockFile e (ReadFile [98] 0 []) s = Ok (Data (Some (length ([] :: u8 list), [])), s2)"
    using rd [rule_format, of "[98]" "[]" "[]"] by auto
  ultimately show ?thesis using s by (intro exI [of _ e] exI [of _ s] exI [of _ s1] exI [of _ s2]) simp
qed

end
