(* ===== verification/Spec2Isabelle.thy ===== *)
theory Spec2Isabelle
  imports Shell_Files Signal_Return Task_Exec Kernel_Space Image_Builder
begin

text \<open>
  A verification library for the teaching operating system of this repository: a RISC-V kernel
  (\<^verbatim>\<open>src/src/os\<close>), the file system library \<^verbatim>\<open>easy-fs\<close> (\<^verbatim>\<open>src/src/easy-fs\<close>), the image builder
  (\<^verbatim>\<open>src/src/easy-fs-fuse\<close>) and the user library and programs (\<^verbatim>\<open>src/src/user\<close>).

  \<^bold>\<open>Conventions.\<close> Rust integers are words of their width (\<^verbatim>\<open>usize\<close> is \<^typ>\<open>64 word\<close>) wherever
  the code computes with user input or can wrap; lengths and indexes of vectors that cannot wrap are
  natural numbers. The release build is modelled: arithmetic wraps and shifts are masked.
  Every panic, failed assertion, \<^verbatim>\<open>unwrap\<close> of \<^verbatim>\<open>None\<close>, index out of bounds and second borrow of a cell is
  \<open>Panic\<close> of the type \<open>outcome\<close> of \<open>Prelude\<close>. A loop that may run for ever is a
  \<^verbatim>\<open>partial_function\<close> into \<open>option\<close>, where \<open>None\<close> means that it does not return. Physical memory is
  a function from addresses to bytes; the page tables, the trap contexts and the user's buffers are
  read from it and written to it byte by byte.

  \<^bold>\<open>Memory management\<close> (\<^verbatim>\<open>os/src/mm\<close>).
  \<^item> \<open>Addresses\<close>: the four address types of \<^verbatim>\<open>address.rs\<close>, rounding, page-table indexes, page ranges.
  \<^item> \<open>Frame_Allocator\<close>: the stack allocator and the drop of frames. Its contract is the locale of
    \<open>Id_Allocator\<close>, which the pid allocator and the bitmaps of the disk satisfy too.
  \<^item> \<open>Page_Table\<close>: the three-level walk over physical memory. The abstract view \<open>pt_abs\<close> is a partial
    map from page numbers to entries; map and unmap refine its update, translation its lookup.
  \<^item> \<open>User_Buffer\<close>: \<^verbatim>\<open>translated_byte_buffer\<close>, \<^verbatim>\<open>translated_str\<close>, \<^verbatim>\<open>translated_ref\<close> and the byte
    iterator of \<^verbatim>\<open>UserBuffer\<close>.
  \<^item> \<open>Memory_Set\<close>: segments and address spaces with their creation from an ELF file (the parser is a
    library: its result is the argument), \<^verbatim>\<open>from_existed_user\<close> for fork, release and drop. A forked
    address space has the contents and permissions of the parent and shares no frame with it.
  \<^item> \<open>Elf_Load\<close>: what \<^verbatim>\<open>copy_data\<close> and \<^verbatim>\<open>from_elf\<close> load: pages with the bytes of the file, zeros behind them.
  \<^item> \<open>Kernel_Space\<close>: \<^verbatim>\<open>new_kernel\<close> maps the kernel, the memory and the devices to themselves, which is why
    the other theories read and write physical memory under its own addresses.

  \<^bold>\<open>The file system\<close> (\<^verbatim>\<open>easy-fs/src\<close>).
  \<^item> \<open>Block_Cache\<close>: the cache of 16 blocks with reference counts, locks, eviction and write-back over
    a device that satisfies the locale \<open>block_device\<close>; any sequence of operations is equivalent to
    one on a plain array of blocks. \<open>Bitmap\<close>: the allocation bitmaps.
  \<^item> \<open>Layout\<close>, \<open>Inode_Tree\<close>, \<open>Inode_Grow\<close>: the structures of \<^verbatim>\<open>layout.rs\<close>, the blocks that an inode
    owns through its direct, indirect and doubly indirect pointers, and reading, writing, growing and
    clearing it.
  \<^item> \<open>Efs\<close>, \<open>Fs_Invariant\<close>, \<open>Vfs\<close>, \<open>Directory\<close>, \<open>Format\<close>: \<^verbatim>\<open>efs.rs\<close> and \<^verbatim>\<open>vfs.rs\<close>. The
    invariant says that the blocks of the inodes in use partition the blocks marked in the bitmap.
  \<^item> \<open>File_System\<close>: the refinement of the whole library to a list of named byte sequences, and
    durability across a restart with a cold cache. \<open>Image_Builder\<close>: \<^verbatim>\<open>easy_fs_pack\<close> of
    \<^verbatim>\<open>easy-fs-fuse\<close>, which packs the programs of a directory; the file system holds exactly them, but the
    program ends while up to 16 modified blocks are still in the cache only.

  \<^bold>\<open>Files of the kernel\<close> (\<^verbatim>\<open>os/src/fs\<close>).
  \<^item> \<open>Os_Inode\<close>: open files over the virtual file system, \<^verbatim>\<open>open_file\<close>, read, write, \<^verbatim>\<open>read_all\<close>.
  \<^item> \<open>Byte_Queue\<close>, \<open>Pipe\<close>: the ring buffer refines a bounded queue; reader and writer rounds are steps
    of a transition system, whose every interleaving delivers the bytes in order.

  \<^bold>\<open>Processes\<close> (\<^verbatim>\<open>os/src/task\<close>, \<^verbatim>\<open>os/src/syscall\<close>, \<^verbatim>\<open>os/src/trap\<close>).
  \<^item> \<open>Pid\<close>: pids and kernel stacks. \<open>Task_Control\<close>: control blocks and trap contexts in memory.
    \<open>Signal\<close>: pending signals, handlers, the waiting loop of a stopped task. \<open>Signal_Return\<close>: a signal from
    the end of the interrupted trap through the handler and \<^verbatim>\<open>sigreturn\<close> back to the interrupted instruction, where
    only \<^verbatim>\<open>a0\<close> and the mask are not what they were.
  \<^item> \<open>Task\<close>, \<open>Process_Calls\<close>: the kernel state (control blocks in a heap of names that stand for
    \<^verbatim>\<open>Arc\<close>s, the ready queue, the pid map, the processor), the scheduler, fork, exec, exit, and the
    system calls on processes and signals. A borrow of the inner part of a task is
    recorded, so that a second one panics as in \<^verbatim>\<open>RefCell\<close>.
  \<^item> \<open>Task_Invariant\<close>, \<open>Task_Steps\<close>: queue, pids and family tree agree in every state; fork, exit and
    waitpid keep this and do what they promise. \<open>Task_Fork\<close>: a fork from the system call to the last byte;
    it succeeds while frames last, and the child is a copy of the parent in frames of its own. \<open>Task_Exec\<close>: an exec
    from the bytes of the executable to the first instruction of the program and its arguments.
  \<^item> \<open>File_Calls\<close>: the system calls on files, the dispatcher, the trap handler, and the state of a
    task that waits inside the kernel (a frame that is resumed at its next turn).
  \<^item> \<open>Kernel_Steps\<close>: all of it as one transition system, in which user programs may do anything between
    two traps; the invariant of every reachable state and the fairness of the scheduler.

  \<^bold>\<open>User space\<close> (\<^verbatim>\<open>user/src\<close>).
  \<^item> \<open>User_Calls\<close>: the system call stubs of \<^verbatim>\<open>syscall.rs\<close> and the loops of \<^verbatim>\<open>lib.rs\<close> that wait for a
    child or for the clock. A call goes through the registers and the trap handler to the
    kernel function of its name with the arguments of the program.
  \<^item> \<open>User_Start\<close>: the arguments that \<^verbatim>\<open>exec\<close> pushes to the user stack are those that \<^verbatim>\<open>_start\<close> reads.
  \<^item> \<open>User_Shell\<close>: \<^verbatim>\<open>user_shell.rs\<close> and \<^verbatim>\<open>initproc.rs\<close> as programs over a record of system calls: the
    parser of command lines, the check of pipelines, the line editor, and the children.
  \<^item> \<open>Shell_Files\<close>: the files of the shell's children on this kernel, with \<^verbatim>\<open>open\<close>, \<^verbatim>\<open>close\<close>, \<^verbatim>\<open>dup\<close> and \<^verbatim>\<open>pipe\<close> the system
    calls of the model. What the shell relies on is the locale \<open>descriptor_calls\<close>, the laws of \<^verbatim>\<open>close\<close> and \<^verbatim>\<open>dup\<close>; its
    interpretation proves them of the kernel. Redirections work; a pipeline ends in a panic of the kernel.

  \<^bold>\<open>Bounds.\<close> The pid allocator counts up to \<open>2 ^ 64\<close>; fork is assumed to find a pid (\<open>pid_room\<close>). The file
  system operations are assumed to fit into the disk, as the code panics on a full disk. Mapping a page takes at most three
  frames, two of them for page tables; fork, exec and the loading of executables are shown to succeed when so many are free.
  Kernel stacks fit below the trampoline for pids below \<open>0x1555555\<close>. Executables are assumed to lie below \<open>2 ^ 37\<close>.

  \<^bold>\<open>Not modelled.\<close> The assembly of the context switch and of the trap entry (the registers that the
  switch saves are an argument of the model), the firmware calls, the kernel heap and the virtio driver,
  which belong to external crates, formatted output on the console, the heap and the panic handler of the
  user library, the parsing of the image builder's command line, and the small test programs of the user. The modules
  that only declare or re-export others have no content to model.
\<close>

end
